(* ===== verification/Prelude.thy ===== *)
theory Prelude
  imports Complex_Main "HOL-Library.Multiset" "HOL-Library.Product_Lexorder"
begin

section \<open>Shared vocabulary of the development\<close>

text \<open>
  What every component theory uses: the collections of facts the component proofs draw on,
  JavaScript's array and number helpers (\<open>Math.min\<close> and \<open>Math.max\<close> clamping, stable
  sorting, \<open>splice\<close>, \<open>find\<close>, \<open>findIndex\<close>), the value type of untyped data that
  crosses a trust boundary (\<open>unknown\<close> in the source), and the generic lemmas about them.

  A JavaScript number that the code only uses as a whole number is an \<open>int\<close>; the values of
  untyped data carry a \<open>rat\<close>, so that \<open>Number.isInteger\<close> is a real test.
\<close>

named_theorems js_simps \<open>unfolding rules of the JavaScript helpers\<close>
named_theorems geometry \<open>the definitions behind rectangle arithmetic\<close>
named_theorems keeps \<open>facts saying which parts of its input an operation keeps\<close>

subsection \<open>Untyped values\<close>

text \<open>
  A value of type \<open>unknown\<close>: what \<open>JSON.parse\<close> returns, and \<open>undefined\<close> for a
  missing property. \<open>JInf\<close> is one of the two infinities. An object is the list
  of its own properties.
\<close>

datatype jsval =
    JUndef
  | JNull
  | JBool bool
  | JNum rat
  | JNaN
  | JInf bool
  | JStr string
  | JArr "jsval list"
  | JObj "(string \<times> jsval) list"

text \<open>\<open>typeof v === "object" && v !== null && !Array.isArray(v)\<close>\<close>

fun js_is_record :: "jsval \<Rightarrow> bool" where
  "js_is_record (JObj _) = True"
| "js_is_record _ = False"

text \<open>\<open>record?.name\<close>, where a value that is not an object has no such property.\<close>

fun js_get :: "jsval \<Rightarrow> string \<Rightarrow> jsval" where
  "js_get (JObj fs) k = (case map_of fs k of None \<Rightarrow> JUndef | Some v \<Rightarrow> v)"
| "js_get _ k = JUndef"

text \<open>\<open>typeof v === "number" && Number.isInteger(v)\<close>, with the integer it then is.\<close>

fun js_integer :: "jsval \<Rightarrow> int option" where
  "js_integer (JNum q) = (if of_int \<lfloor>q\<rfloor> = q then Some \<lfloor>q\<rfloor> else None)"
| "js_integer _ = None"

lemma js_integer_of_int [simp]: "js_integer (JNum (of_int n)) = Some n"
  by simp

lemma js_integer_Some: "js_integer v = Some n \<longleftrightarrow> v = JNum (of_int n)"
  by (cases v) auto

text \<open>\<open>typeof v === "string"\<close>, with the string it then is.\<close>

fun js_string :: "jsval \<Rightarrow> string option" where
  "js_string (JStr s) = Some s"
| "js_string _ = None"

text \<open>\<open>typeof v === "string" && v.length > 0\<close>\<close>

fun js_nonempty_string :: "jsval \<Rightarrow> string option" where
  "js_nonempty_string (JStr s) = (if s \<noteq> [] then Some s else None)"
| "js_nonempty_string _ = None"

lemma js_nonempty_string_Some: "js_nonempty_string v = Some s \<longleftrightarrow> v = JStr s \<and> s \<noteq> []"
  by (cases v) auto

subsection \<open>Numbers\<close>

text \<open>\<open>Math.min(max, Math.max(min, v))\<close>\<close>

definition clamp :: "'a::linorder \<Rightarrow> 'a \<Rightarrow> 'a \<Rightarrow> 'a" where
  "clamp v lo hi = min hi (max lo v)"

lemma clamp_bounds: "lo \<le> hi \<Longrightarrow> lo \<le> clamp v lo hi \<and> clamp v lo hi \<le> hi"
  by (simp add: clamp_def)

lemma clamp_le: "clamp v lo hi \<le> hi"
  by (simp add: clamp_def)

lemma clamp_id: "lo \<le> v \<Longrightarrow> v \<le> hi \<Longrightarrow> clamp v lo hi = v"
  by (simp add: clamp_def)

text \<open>\<open>Math.ceil(n / 2)\<close> on a whole number.\<close>

definition ceil_half :: "int \<Rightarrow> int" where
  "ceil_half n = (n + 1) div 2"

subsection \<open>Arrays\<close>

text \<open>\<open>xs.findIndex(p)\<close>, with \<open>None\<close> for \<open>-1\<close>.\<close>

fun find_index :: "('a \<Rightarrow> bool) \<Rightarrow> 'a list \<Rightarrow> nat option" where
  "find_index p [] = None"
| "find_index p (x # xs) = (if p x then Some 0 else map_option Suc (find_index p xs))"

lemma find_index_None: "find_index p xs = None \<longleftrightarrow> (\<forall>x \<in> set xs. \<not> p x)"
  by (induction xs) auto

lemma find_index_Some:
  "find_index p xs = Some i \<Longrightarrow> i < length xs \<and> p (xs ! i) \<and> (\<forall>j < i. \<not> p (xs ! j))"
proof (induction xs arbitrary: i)
  case Nil
  then show ?case by simp
next
  case (Cons x xs)
  show ?case
  proof (cases "p x")
    case True
    with Cons.prems show ?thesis by simp
  next
    case False
    with Cons.prems obtain k where k: "find_index p xs = Some k" "i = Suc k" by auto
    then have "k < length xs \<and> p (xs ! k) \<and> (\<forall>j < k. \<not> p (xs ! j))"
      using Cons.IH by simp
    with k False show ?thesis
      by (auto simp: less_Suc_eq_0_disj)
  qed
qed

text \<open>\<open>xs.splice(i, 0, x)\<close>: insert at an index that is at most the length.\<close>

definition insert_at :: "nat \<Rightarrow> 'a \<Rightarrow> 'a list \<Rightarrow> 'a list" where
  "insert_at i x xs = take i xs @ x # drop i xs"

text \<open>\<open>xs.splice(i, 1)\<close>: drop the element at an index.\<close>

definition remove_at :: "nat \<Rightarrow> 'a list \<Rightarrow> 'a list" where
  "remove_at i xs = take i xs @ drop (Suc i) xs"

lemma mset_insert_at [simp]: "mset (insert_at i x xs) = add_mset x (mset xs)"
  unfolding insert_at_def
  by (metis append_take_drop_id mset.simps(2) mset_append union_mset_add_mset_right)

lemma length_insert_at [simp]: "length (insert_at i x xs) = Suc (length xs)"
  by (metis mset_insert_at size_add_mset size_mset)

lemma set_insert_at [simp]: "set (insert_at i x xs) = insert x (set xs)"
  by (metis mset_insert_at set_mset_add_mset_insert set_mset_mset)

lemma mset_remove_at:
  assumes "i < length xs"
  shows "add_mset (xs ! i) (mset (remove_at i xs)) = mset xs"
proof -
  have "xs = take i xs @ xs ! i # drop (Suc i) xs"
    using assms by (rule id_take_nth_drop)
  then have "mset xs = mset (take i xs @ xs ! i # drop (Suc i) xs)" by simp
  then show ?thesis by (simp add: remove_at_def)
qed

lemma nth_insert_at: "i \<le> length xs \<Longrightarrow> insert_at i x xs ! i = x"
  by (simp add: insert_at_def nth_append)

lemma map_insert_at: "map f (insert_at i x xs) = insert_at i (f x) (map f xs)"
  by (simp add: insert_at_def take_map drop_map)

lemma find_Some_in: "find p xs = Some x \<Longrightarrow> x \<in> set xs \<and> p x"
  by (metis find_Some_iff nth_mem)

lemma find_None_all: "find p xs = None \<longleftrightarrow> (\<forall>x \<in> set xs. \<not> p x)"
  by (auto simp: find_None_iff)

text \<open>Looking a list up by a key that is unique in it.\<close>

lemma find_key_distinct:
  assumes "distinct (map f xs)" and "x \<in> set xs"
  shows "find (\<lambda>y. f y = f x) xs = Some x"
proof -
  have "\<exists>y. find (\<lambda>y. f y = f x) xs = Some y"
    using assms(2) by (cases "find (\<lambda>y. f y = f x) xs") (auto simp: find_None_iff)
  then obtain y where y: "find (\<lambda>y. f y = f x) xs = Some y" ..
  then have "y \<in> set xs" "f y = f x" by (auto dest: find_Some_in)
  then have "y = x" using assms by (simp add: distinct_map inj_on_def)
  with y show ?thesis by simp
qed

lemma find_key_Some_iff:
  assumes "distinct (map f xs)"
  shows "find (\<lambda>y. f y = k) xs = Some x \<longleftrightarrow> x \<in> set xs \<and> f x = k"
  using assms find_key_distinct [OF assms] by (auto dest: find_Some_in)

lemma distinct_map_mset: "mset xs = mset ys \<Longrightarrow> distinct (map f xs) = distinct (map f ys)"
  by (metis mset_eq_imp_distinct_iff mset_map)

lemma distinct_map_filter_inj: "distinct (map f xs) \<Longrightarrow> distinct (map f (filter p xs))"
  by (simp add: distinct_map inj_on_def)

lemma concat_map_Nil: "concat (map f xs) = [] \<longleftrightarrow> (\<forall>x \<in> set xs. f x = [])"
  by (induction xs) auto

text \<open>A sum over a list is a sum over its multiset, so it does not see the order.\<close>

lemma sum_list_mset_eq:
  fixes f :: "'a \<Rightarrow> 'b::comm_monoid_add"
  shows "mset xs = mset ys \<Longrightarrow> sum_list (map f xs) = sum_list (map f ys)"
  by (metis mset_map sum_mset_sum_list)

subsection \<open>Sorting with a comparator\<close>

text \<open>
  \<open>xs.sort(cmp)\<close> for a comparator that returns a number. \<open>Array.sort\<close> is stable: elements
  that compare as zero keep their order.
\<close>

fun insert_by :: "('a \<Rightarrow> 'a \<Rightarrow> int) \<Rightarrow> 'a \<Rightarrow> 'a list \<Rightarrow> 'a list" where
  "insert_by cmp x [] = [x]"
| "insert_by cmp x (y # ys) = (if cmp x y \<le> 0 then x # y # ys else y # insert_by cmp x ys)"

definition sort_by :: "('a \<Rightarrow> 'a \<Rightarrow> int) \<Rightarrow> 'a list \<Rightarrow> 'a list" where
  "sort_by cmp xs = foldr (insert_by cmp) xs []"

lemma mset_insert_by [simp]: "mset (insert_by cmp x xs) = add_mset x (mset xs)"
  by (induction xs) auto

lemma mset_sort_by [simp]: "mset (sort_by cmp xs) = mset xs"
  by (induction xs) (simp_all add: sort_by_def)

lemma sort_by_Nil_iff [simp]: "sort_by cmp xs = [] \<longleftrightarrow> xs = []"
  by (metis mset_sort_by mset_zero_iff)

lemma sort_by_Nil [simp]: "sort_by cmp [] = []"
  by simp

text \<open>A comparator that agrees with a key on every pair of the list sorts by that key.\<close>

lemma insert_by_insort:
  assumes "\<forall>y \<in> set ys. cmp x y \<le> 0 \<longleftrightarrow> f x \<le> f y"
  shows "insert_by cmp x ys = insort_key f x ys"
  using assms by (induction ys) auto

lemma sort_by_key:
  assumes "sorted_wrt (\<lambda>x y. cmp x y \<le> 0 \<longleftrightarrow> f x \<le> f y) xs"
  shows "sort_by cmp xs = sort_key f xs"
  using assms
proof (induction xs)
  case (Cons x xs)
  then have "sort_by cmp (x # xs) = insert_by cmp x (sort_key f xs)" by (simp add: sort_by_def)
  also have "\<dots> = insort_key f x (sort_key f xs)" using Cons.prems by (intro insert_by_insort) simp
  finally show ?case by simp
qed (simp add: sort_by_def)

lemma hd_sort_key:
  assumes "xs \<noteq> []"
  shows "hd (sort_key f xs) \<in> set xs" "x \<in> set xs \<Longrightarrow> f (hd (sort_key f xs)) \<le> f x"
proof -
  obtain y ys where s: "sort_key f xs = y # ys"
    using assms by (cases "sort_key f xs") (metis set_empty set_sort, simp)
  have set: "set xs = insert y (set ys)" using arg_cong [OF s, of set] by simp
  then show "hd (sort_key f xs) \<in> set xs" by (simp add: s)
  have "sorted (map f (y # ys))" using sorted_sort_key [of f xs] unfolding s .
  then show "x \<in> set xs \<Longrightarrow> f (hd (sort_key f xs)) \<le> f x" using set by (auto simp: s)
qed

text \<open>
  The first of the largest: a loop that keeps the best candidate seen so far and replaces it only by
  a strictly larger one. On a list sorted by a key it finds the head of the list sorted by size, then
  by key.
\<close>

definition best_step :: "('a \<Rightarrow> bool) \<Rightarrow> ('a \<Rightarrow> int) \<Rightarrow> 'a option \<Rightarrow> 'a \<Rightarrow> 'a option" where
  "best_step p a best t =
     (if p t then (case best of None \<Rightarrow> Some t | Some v \<Rightarrow> if a t > a v then Some t else best)
      else best)"

lemma best_step_simps:
  "\<not> p t \<Longrightarrow> best_step p a best t = best"
  "p t \<Longrightarrow> best_step p a None t = Some t"
  "p t \<Longrightarrow> best_step p a (Some v) t = (if a t > a v then Some t else Some v)"
  by (simp_all add: best_step_def)

lemma best_fold_None: "foldl (best_step p a) None xs = None \<longleftrightarrow> filter p xs = []"
proof (induction xs rule: rev_induct)
  case (snoc x xs)
  then show ?case
    by (cases "p x"; cases "foldl (best_step p a) None xs") (auto simp: best_step_simps)
qed simp

lemma best_fold_Some:
  assumes "sorted (map k xs)" "foldl (best_step p a) None xs = Some v"
  shows "v \<in> set (filter p xs) \<and> (\<forall>u \<in> set (filter p xs). (- a v, k v) \<le> (- a u, k u))"
  using assms
proof (induction xs arbitrary: v rule: rev_induct)
  case (snoc x xs)
  have srt: "sorted (map k xs)" "\<forall>u \<in> set xs. k u \<le> k x"
    using snoc.prems(1) by (auto simp: sorted_append)
  show ?case
  proof (cases "foldl (best_step p a) None xs")
    case None
    with snoc.prems(2) best_fold_None [of p a xs] show ?thesis
      by (cases "p x") (auto simp: best_step_simps)
  next
    case (Some w)
    note w = snoc.IH [OF srt(1) Some]
    show ?thesis
    proof (cases "p x \<and> a x > a w")
      case True
      then have "v = x" using snoc.prems(2) Some by (simp add: best_step_simps)
      with w True show ?thesis by fastforce
    next
      case False
      then have "v = w" using snoc.prems(2) Some by (cases "p x") (auto simp: best_step_simps)
      with w False srt(2) show ?thesis by auto
    qed
  qed
qed simp

lemma best_fold_sort:
  assumes "sorted (map k xs)" "inj_on k (set xs)"
  shows "foldl (best_step p a) None xs =
    (case sort_key (\<lambda>t. (- a t, k t)) (filter p xs) of [] \<Rightarrow> None | y # ys \<Rightarrow> Some y)"
proof (cases "foldl (best_step p a) None xs")
  case None
  then show ?thesis using best_fold_None [of p a xs] by simp
next
  case (Some v)
  note v = best_fold_Some [OF assms(1) Some]
  then have ne: "filter p xs \<noteq> []" by (metis empty_iff list.set(1))
  let ?s = "sort_key (\<lambda>t. (- a t, k t)) (filter p xs)"
  have h: "hd ?s \<in> set (filter p xs)" "(- a (hd ?s), k (hd ?s)) \<le> (- a v, k v)"
    using hd_sort_key [OF ne, where f = "\<lambda>t. (- a t, k t)"] v by blast+
  then have "(- a v, k v) = (- a (hd ?s), k (hd ?s))" using v by (meson order_antisym)
  then have "v = hd ?s" using h(1) v assms(2) by (simp add: inj_on_def)
  moreover have "?s \<noteq> []" using ne by (metis mset_sort mset_zero_iff)
  ultimately show ?thesis using Some by (cases ?s) auto
qed

subsection \<open>Text\<close>

text \<open>
  \<open>s.trim()\<close>. A string is the list of its UTF-16 code units, of which the model has those
  below 256; the white space among them is tab, line feed, vertical tab, form feed, carriage return,
  space and no-break space.
\<close>

definition js_space :: "char \<Rightarrow> bool" where
  "js_space c \<longleftrightarrow> (of_char c :: nat) \<in> {9, 10, 11, 12, 13, 32, 160}"

definition js_trim :: "string \<Rightarrow> string" where
  "js_trim s = rev (dropWhile js_space (rev (dropWhile js_space s)))"

text \<open>\<open>Math.trunc\<close> of a finite number.\<close>

definition js_trunc :: "rat \<Rightarrow> int" where
  "js_trunc q = (if q \<ge> 0 then \<lfloor>q\<rfloor> else \<lceil>q\<rceil>)"

text \<open>\<open>Math.round\<close> of a finite number: a tie goes up.\<close>

definition js_round :: "rat \<Rightarrow> int" where
  "js_round q = \<lfloor>q + 1 / 2\<rfloor>"

lemma js_round_of_int [simp]: "js_round (of_int n) = n"
  by (simp add: js_round_def floor_eq_iff)

lemma js_round_mono: "p \<le> q \<Longrightarrow> js_round p \<le> js_round q"
  by (simp add: js_round_def floor_mono)

lemma js_round_add: "p + of_int n \<le> q \<Longrightarrow> js_round p + n \<le> js_round q"
  using floor_mono [of "p + 1 / 2 + of_int n" "q + 1 / 2"] by (simp add: js_round_def)

lemma js_trunc_of_int [simp]: "js_trunc (of_int n) = n"
  by (simp add: js_trunc_def)

subsection \<open>Numbers in text\<close>

text \<open>The decimal digits a template string prints for a whole number.\<close>

definition digit :: "nat \<Rightarrow> char" where
  "digit n = ''0123456789'' ! n"

fun nat_str :: "nat \<Rightarrow> string" where
  "nat_str n = (if n < 10 then [digit n] else nat_str (n div 10) @ [digit (n mod 10)])"

declare nat_str.simps [simp del]

lemma digit_inj: "a < 10 \<Longrightarrow> b < 10 \<Longrightarrow> digit a = digit b \<Longrightarrow> a = b"
  using nth_eq_iff_index_eq [of "''0123456789''" a b] by (simp add: digit_def)

lemma nat_str_nonempty [simp]: "nat_str n \<noteq> []"
  by (subst nat_str.simps) simp

lemma nat_str_inj: "nat_str n = nat_str m \<Longrightarrow> n = m"
proof (induction n arbitrary: m rule: nat_str.induct)
  case (1 n)
  have two: "nat_str k = nat_str (k div 10) @ [digit (k mod 10)]" if "\<not> k < 10" for k
    using that by (subst nat_str.simps) simp
  have one: "nat_str k = [digit k]" if "k < 10" for k
    using that by (subst nat_str.simps) simp
  consider "n < 10" "m < 10" | "n < 10" "\<not> m < 10" | "\<not> n < 10" "m < 10" | "\<not> n < 10" "\<not> m < 10"
    by blast
  then show ?case
  proof cases
    case 1
    with "1.prems" show ?thesis by (simp add: one digit_inj)
  next
    case 2
    with "1.prems" show ?thesis by (metis append_is_Nil_conv append_self_conv2 append1_eq_conv
          nat_str_nonempty one two)
  next
    case 3
    with "1.prems" show ?thesis by (metis append_is_Nil_conv append_self_conv2 append1_eq_conv
          nat_str_nonempty one two)
  next
    case 4
    with "1.prems" have "nat_str (n div 10) = nat_str (m div 10)"
        "digit (n mod 10) = digit (m mod 10)"
      by (simp_all add: two)
    then have "n div 10 = m div 10" "n mod 10 = m mod 10"
      using "1.IH" [OF 4(1)] digit_inj by auto
    then show ?thesis by (metis div_mult_mod_eq)
  qed
qed

text \<open>
  \<open>while (taken.has(`${base} ${n}`)) n += 1\<close>: the next number whose name is free. It ends
  because only finitely many names are taken and different numbers give different names.
\<close>

definition numbered :: "string \<Rightarrow> nat \<Rightarrow> string" where
  "numbered base n = base @ '' '' @ nat_str n"

lemma numbered_inj: "numbered base n = numbered base m \<Longrightarrow> n = m"
  by (simp add: numbered_def nat_str_inj)

lemma finite_numbered: "finite {m. n \<le> m \<and> numbered base m \<in> set taken}"
proof -
  have "inj_on (numbered base) {m. n \<le> m \<and> numbered base m \<in> set taken}"
    by (auto intro: inj_onI dest: numbered_inj)
  moreover have "numbered base ` {m. n \<le> m \<and> numbered base m \<in> set taken} \<subseteq> set taken" by auto
  ultimately show ?thesis using finite_subset [OF _ finite_set] finite_imageD by blast
qed

function first_free :: "string \<Rightarrow> string list \<Rightarrow> nat \<Rightarrow> nat" where
  "first_free base taken n =
     (if numbered base n \<in> set taken then first_free base taken (n + 1) else n)"
  by pat_completeness auto
termination
proof (relation "measure (\<lambda>(base, taken, n). card {m. n \<le> m \<and> numbered base m \<in> set taken})")
  fix base taken n
  assume a: "numbered base n \<in> set taken"
  have "{m. n + 1 \<le> m \<and> numbered base m \<in> set taken} \<subset> {m. n \<le> m \<and> numbered base m \<in> set taken}"
  proof (rule psubsetI)
    show "{m. n + 1 \<le> m \<and> numbered base m \<in> set taken}
        \<noteq> {m. n \<le> m \<and> numbered base m \<in> set taken}"
      using a by (metis (mono_tags, lifting) le_refl mem_Collect_eq not_less_eq_eq Suc_eq_plus1)
  qed auto
  then have "card {m. n + 1 \<le> m \<and> numbered base m \<in> set taken}
      < card {m. n \<le> m \<and> numbered base m \<in> set taken}"
    by (intro psubset_card_mono finite_numbered)
  then show "((base, taken, n + 1), base, taken, n)
      \<in> measure (\<lambda>(base, taken, n). card {m. n \<le> m \<and> numbered base m \<in> set taken})" by simp
qed simp

declare first_free.simps [simp del]

lemma first_free_spec:
  "n \<le> first_free base taken n \<and> numbered base (first_free base taken n) \<notin> set taken \<and>
   (\<forall>m. n \<le> m \<and> m < first_free base taken n \<longrightarrow> numbered base m \<in> set taken)"
proof (induction base taken n rule: first_free.induct)
  case (1 base taken n)
  show ?case
  proof (cases "numbered base n \<in> set taken")
    case True
    from 1 [OF True] True show ?thesis
      by (simp add: first_free.simps [of base taken n]) (metis Suc_leD not_less_eq_eq le_antisym)
  next
    case False
    then show ?thesis by (auto simp: first_free.simps [of base taken n])
  qed
qed

end
