(* ===== verification/Grid.thy ===== *)
theory Grid
  imports Prelude
begin

section \<open>The workspace grid: data, invariants and validation\<close>

text \<open>
  The data model of \<open>web/src/lib/grid.ts\<close>: tiles on a canvas of 24 by 24 cells, the reading
  order, and \<open>validate\<close>, the check every layout passes before it is drawn or stored.
  \<open>valid_tiles\<close> states the invariants of a layout without the order in which the code looks
  for violations; \<open>cells\<close> gives a rectangle its meaning as a set of canvas cells. The main
  facts are that \<open>validate\<close> accepts exactly the representations of valid layouts, and that
  \<open>overlaps\<close> decides whether two rectangles share a cell.
\<close>

subsection \<open>Constants and data\<close>

definition LAYOUT_VERSION :: int where
  [simp]: "LAYOUT_VERSION = 3"

definition GRID_SIZE :: int where
  [simp]: "GRID_SIZE = 24"

definition MIN_TILE_SIZE :: int where
  [simp]: "MIN_TILE_SIZE = 4"

definition MAX_TILES :: nat where
  [simp]: "MAX_TILES = 16"

text \<open>
  A \<open>Rect\<close> and the \<open>Tile\<close> that extends it. A widget is the object as it arrived,
  unknown fields included; \<open>None\<close> is an absent widget.
\<close>

record rect =
  gx :: int
  gy :: int
  gw :: int
  gh :: int

type_synonym tile_widget = "(string \<times> jsval) list"

record tile = rect +
  session_id :: string
  widget :: "tile_widget option"

definition isFilesWidget :: "tile_widget option \<Rightarrow> bool" where
  "isFilesWidget wd =
     (case wd of
        None \<Rightarrow> False
      | Some fs \<Rightarrow>
          js_get (JObj fs) ''kind'' = JStr ''files'' \<and>
          js_string (js_get (JObj fs) ''host_id'') \<noteq> None \<and>
          js_string (js_get (JObj fs) ''path'') \<noteq> None)"

text \<open>The bare rectangle of a tile, and a tile given another rectangle (\<open>{...t, ...rect}\<close>).\<close>

definition rect_of :: "'a rect_scheme \<Rightarrow> rect" where
  "rect_of r = \<lparr>gx = gx r, gy = gy r, gw = gw r, gh = gh r\<rparr>"

definition with_rect :: "tile \<Rightarrow> 'a rect_scheme \<Rightarrow> tile" where
  "with_rect t r = t\<lparr>gx := gx r, gy := gy r, gw := gw r, gh := gh r\<rparr>"

text \<open>\<open>{session_id: id, ...rect}\<close>\<close>

definition tile_at :: "string \<Rightarrow> 'a rect_scheme \<Rightarrow> tile" where
  "tile_at sid r =
     \<lparr>gx = gx r, gy = gy r, gw = gw r, gh = gh r, session_id = sid, widget = None\<rparr>"

lemma rect_of_simps [simp]:
  "gx (rect_of r) = gx r" "gy (rect_of r) = gy r" "gw (rect_of r) = gw r" "gh (rect_of r) = gh r"
  by (simp_all add: rect_of_def)

lemma with_rect_simps [simp]:
  "gx (with_rect t r) = gx r" "gy (with_rect t r) = gy r"
  "gw (with_rect t r) = gw r" "gh (with_rect t r) = gh r"
  "session_id (with_rect t r) = session_id t" "widget (with_rect t r) = widget t"
  by (simp_all add: with_rect_def)

lemma tile_at_simps [simp]:
  "gx (tile_at i r) = gx r" "gy (tile_at i r) = gy r"
  "gw (tile_at i r) = gw r" "gh (tile_at i r) = gh r"
  "session_id (tile_at i r) = i" "widget (tile_at i r) = None"
  by (simp_all add: tile_at_def)

subsection \<open>Overlap, reading order, free space\<close>

definition overlaps :: "'a rect_scheme \<Rightarrow> 'b rect_scheme \<Rightarrow> bool" where
  "overlaps a b \<longleftrightarrow>
     gx a < gx b + gw b \<and> gx b < gx a + gw a \<and> gy a < gy b + gh b \<and> gy b < gy a + gh a"

definition reading_key :: "'a rect_scheme \<Rightarrow> int \<times> int" where
  "reading_key t = (gy t, gx t)"

text \<open>
  The source sorts with the comparator \<open>a.y - b.y || a.x - b.x\<close>; \<open>Array.sort\<close> is
  stable, as \<open>sort_key\<close> is.
\<close>

definition sortTiles :: "tile list \<Rightarrow> tile list" where
  "sortTiles tiles = sort_key reading_key tiles"

definition fitsAt :: "tile list \<Rightarrow> 'a rect_scheme \<Rightarrow> int \<Rightarrow> bool" where
  "fitsAt tiles r skip =
     list_all (\<lambda>i. int i = skip \<or> \<not> overlaps (tiles ! i) r) [0..<length tiles]"

definition readingOrder :: "tile list \<Rightarrow> string list" where
  "readingOrder tiles = map session_id (sortTiles tiles)"

lemma overlaps_sym: "overlaps a b \<longleftrightarrow> overlaps b a"
  by (auto simp: overlaps_def)

lemma overlaps_rect_of [simp]:
  "overlaps (rect_of a) b = overlaps a b" "overlaps a (rect_of b) = overlaps a b"
  by (simp_all add: overlaps_def)

lemma overlaps_with_rect [simp]:
  "overlaps (with_rect t r) b = overlaps r b" "overlaps a (with_rect t r) = overlaps a r"
  by (simp_all add: overlaps_def)

lemma overlaps_tile_at [simp]:
  "overlaps (tile_at i r) b = overlaps r b" "overlaps a (tile_at i r) = overlaps a r"
  by (simp_all add: overlaps_def)

lemma mset_sortTiles [simp]: "mset (sortTiles ts) = mset ts"
  by (simp add: sortTiles_def)

lemma set_sortTiles [simp]: "set (sortTiles ts) = set ts"
  by (simp add: sortTiles_def)

lemma length_sortTiles [simp]: "length (sortTiles ts) = length ts"
  by (simp add: sortTiles_def)

lemma nth_sortTiles [simp]: "k < length ts \<Longrightarrow> sortTiles ts ! k \<in> set ts"
  by (metis length_sortTiles nth_mem set_sortTiles)

lemma distinct_sortTiles [simp]:
  "distinct (map session_id (sortTiles ts)) = distinct (map session_id ts)"
  by (rule distinct_map_mset) simp

lemma sorted_sortTiles: "sorted (map reading_key (sortTiles ts))"
  by (simp add: sortTiles_def)

lemma fitsAt_all: "fitsAt ts r (-1) \<longleftrightarrow> (\<forall>t \<in> set ts. \<not> overlaps t r)"
  by (auto simp: fitsAt_def list_all_iff all_set_conv_all_nth)

lemma fitsAt_skip:
  "fitsAt ts r (int i) \<longleftrightarrow> (\<forall>j < length ts. j \<noteq> i \<longrightarrow> \<not> overlaps (ts ! j) r)"
  by (auto simp: fitsAt_def list_all_iff)

subsection \<open>The meaning of a rectangle: its cells\<close>

definition cells :: "'a rect_scheme \<Rightarrow> (int \<times> int) set" where
  "cells r = {gx r ..< gx r + gw r} \<times> {gy r ..< gy r + gh r}"

definition canvas :: "(int \<times> int) set" where
  "canvas = {0 ..< GRID_SIZE} \<times> {0 ..< GRID_SIZE}"

definition area :: "'a rect_scheme \<Rightarrow> int" where
  "area r = gw r * gh r"

lemma finite_cells [simp]: "finite (cells r)"
  by (simp add: cells_def)

lemma card_cells: "0 \<le> gw r \<Longrightarrow> 0 \<le> gh r \<Longrightarrow> int (card (cells r)) = area r"
  by (simp add: cells_def area_def card_cartesian_product)

lemma overlaps_cells:
  assumes "0 < gw a" "0 < gh a" "0 < gw b" "0 < gh b"
  shows "overlaps a b \<longleftrightarrow> cells a \<inter> cells b \<noteq> {}"
proof
  assume "overlaps a b"
  then have "(max (gx a) (gx b), max (gy a) (gy b)) \<in> cells a \<inter> cells b"
    using assms by (auto simp: overlaps_def cells_def)
  then show "cells a \<inter> cells b \<noteq> {}" by blast
next
  assume "cells a \<inter> cells b \<noteq> {}"
  then show "overlaps a b" by (auto simp: overlaps_def cells_def)
qed

lemma card_canvas: "card canvas = 576"
  by (simp add: canvas_def card_cartesian_product)

lemma finite_canvas [simp]: "finite canvas"
  by (simp add: canvas_def)

subsection \<open>The invariants of a layout\<close>

definition valid_rect :: "'a rect_scheme \<Rightarrow> bool" where
  "valid_rect r \<longleftrightarrow>
     0 \<le> gx r \<and> 0 \<le> gy r \<and> gx r + gw r \<le> GRID_SIZE \<and> gy r + gh r \<le> GRID_SIZE \<and>
     MIN_TILE_SIZE \<le> gw r \<and> MIN_TILE_SIZE \<le> gh r"

definition disjoint_tiles :: "tile list \<Rightarrow> bool" where
  "disjoint_tiles ts \<longleftrightarrow>
     (\<forall>a \<in> set ts. \<forall>b \<in> set ts. session_id a \<noteq> session_id b \<longrightarrow> \<not> overlaps a b)"

definition valid_tiles :: "tile list \<Rightarrow> bool" where
  "valid_tiles ts \<longleftrightarrow>
     length ts \<le> MAX_TILES \<and> distinct (map session_id ts) \<and>
     (\<forall>t \<in> set ts. session_id t \<noteq> [] \<and> valid_rect t) \<and> disjoint_tiles ts"

lemma valid_rect_of [simp]: "valid_rect (rect_of r) = valid_rect r"
  by (simp add: valid_rect_def)

lemma valid_with_rect [simp]: "valid_rect (with_rect t r) = valid_rect r"
  by (simp add: valid_rect_def)

lemma valid_tile_at [simp]: "valid_rect (tile_at i r) = valid_rect r"
  by (simp add: valid_rect_def)

lemma valid_tiles_Nil [simp]: "valid_tiles []"
  by (simp add: valid_tiles_def disjoint_tiles_def)

lemma valid_tilesD:
  assumes "valid_tiles ts"
  shows "length ts \<le> 16" "distinct (map session_id ts)"
    "t \<in> set ts \<Longrightarrow> session_id t \<noteq> []" "t \<in> set ts \<Longrightarrow> valid_rect t"
    "t \<in> set ts \<Longrightarrow> u \<in> set ts \<Longrightarrow> session_id t \<noteq> session_id u \<Longrightarrow> \<not> overlaps t u"
  using assms by (auto simp: valid_tiles_def disjoint_tiles_def)

text \<open>Validity only depends on which tiles there are, not on their order.\<close>

lemma valid_tiles_mset: "mset ts = mset us \<Longrightarrow> valid_tiles ts = valid_tiles us"
  using distinct_map_mset [of ts us session_id] mset_eq_length [of ts us] mset_eq_setD [of ts us]
  by (simp add: valid_tiles_def disjoint_tiles_def)

lemma valid_sortTiles [simp]: "valid_tiles (sortTiles ts) = valid_tiles ts"
  by (rule valid_tiles_mset) simp

lemma valid_tiles_filter:
  "valid_tiles ts \<Longrightarrow> valid_tiles (filter p ts)"
  by (auto simp: valid_tiles_def disjoint_tiles_def distinct_map_filter_inj
      intro: order_trans [OF length_filter_le])

lemma valid_tiles_Cons:
  "valid_tiles (t # ts) \<longleftrightarrow>
     length ts < MAX_TILES \<and> session_id t \<noteq> [] \<and> valid_rect t \<and> session_id t \<notin> session_id ` set ts \<and>
     (\<forall>u \<in> set ts. \<not> overlaps u t) \<and> valid_tiles ts"
  using overlaps_sym by (auto simp: valid_tiles_def disjoint_tiles_def)

lemma valid_tiles_snoc:
  "valid_tiles (ts @ [t]) \<longleftrightarrow>
     length ts < MAX_TILES \<and> session_id t \<noteq> [] \<and> valid_rect t \<and> session_id t \<notin> session_id ` set ts \<and>
     (\<forall>u \<in> set ts. \<not> overlaps u t) \<and> valid_tiles ts"
  using valid_tiles_mset [of "ts @ [t]" "t # ts"] valid_tiles_Cons [of t ts] by simp

text \<open>Distinct positions of a valid layout hold disjoint tiles.\<close>

lemma valid_tiles_nth:
  assumes "valid_tiles ts" "i < length ts" "j < length ts" "i \<noteq> j"
  shows "\<not> overlaps (ts ! i) (ts ! j)" "session_id (ts ! i) \<noteq> session_id (ts ! j)"
proof -
  have "distinct (map session_id ts)" using assms(1) by (rule valid_tilesD)
  then show ne: "session_id (ts ! i) \<noteq> session_id (ts ! j)"
    using assms(2-4) by (metis length_map nth_eq_iff_index_eq nth_map)
  show "\<not> overlaps (ts ! i) (ts ! j)"
    using valid_tilesD(5) [OF assms(1) nth_mem [OF assms(2)] nth_mem [OF assms(3)] ne] .
qed

text \<open>Replacing one tile in place: what has to hold of the new one.\<close>

lemma valid_tiles_update:
  assumes "valid_tiles ts" "i < length ts" "session_id t = session_id (ts ! i)" "valid_rect t"
    and "\<And>j. j < length ts \<Longrightarrow> j \<noteq> i \<Longrightarrow> \<not> overlaps (ts ! j) t"
  shows "valid_tiles (ts[i := t])"
proof -
  have ids: "map session_id (ts[i := t]) = map session_id ts"
    using assms(2,3) by (simp add: map_update) (metis length_map list_update_id nth_map)
  have mem: "u \<in> set (ts[i := t]) \<Longrightarrow> u = t \<or> (\<exists>j < length ts. j \<noteq> i \<and> u = ts ! j)" for u
    by (metis in_set_conv_nth length_list_update nth_list_update_eq nth_list_update_neq)
  have one: "u \<in> set (ts[i := t]) \<Longrightarrow> session_id u \<noteq> [] \<and> valid_rect u" for u
    using mem [of u] assms valid_tilesD [OF assms(1)] by (metis nth_mem)
  have two: "\<not> overlaps a b"
    if "a \<in> set (ts[i := t])" "b \<in> set (ts[i := t])" "session_id a \<noteq> session_id b" for a b
    using mem [OF that(1)] mem [OF that(2)] that(3) assms(5) valid_tiles_nth [OF assms(1)]
      overlaps_sym by metis
  show ?thesis
    using valid_tilesD(1,2) [OF assms(1)] one two
    by (auto simp: valid_tiles_def disjoint_tiles_def ids)
qed

subsection \<open>Contents, and edits that keep them\<close>

text \<open>What a tile carries besides its geometry.\<close>

definition content :: "tile \<Rightarrow> string \<times> tile_widget option" where
  "content t = (session_id t, widget t)"

lemma content_with_rect [simp]: "content (with_rect t r) = content t"
  by (simp add: content_def)

lemma content_tile_at [simp]: "content (tile_at sid r) = (sid, None)"
  by (simp add: content_def)

lemma content_simps [simp]:
  "content (t\<lparr>gx := a\<rparr>) = content t" "content (t\<lparr>gy := a\<rparr>) = content t"
  "content (t\<lparr>gw := a\<rparr>) = content t" "content (t\<lparr>gh := a\<rparr>) = content t"
  by (simp_all add: content_def)

lemma mset_content_update:
  assumes "k < length ts" "content t = content (ts ! k)"
  shows "mset (map content (ts[k := t])) = mset (map content ts)"
proof -
  have "map content (ts[k := t]) = (map content ts)[k := map content ts ! k]"
    using assms by (simp add: map_update del: list_update_id)
  then show ?thesis by (simp only: list_update_id)
qed

lemma content_ids:
  "mset (map content us) = mset (map content ts) \<Longrightarrow>
   mset (map session_id us) = mset (map session_id ts)"
proof -
  assume a: "mset (map content us) = mset (map content ts)"
  have "mset (map session_id xs) = image_mset fst (mset (map content xs))" for xs :: "tile list"
    by (simp add: content_def image_mset.compositionality comp_def flip: mset_map)
  then show ?thesis by (simp only: a)
qed

text \<open>The tiles other than the one with a given identifier, and putting a changed one back.\<close>

definition others_of :: "string \<Rightarrow> tile list \<Rightarrow> tile list" where
  "others_of sid ts = filter (\<lambda>t. session_id t \<noteq> sid) ts"

lemma mset_others_of:
  assumes "distinct (map session_id ts)" "t \<in> set ts"
  shows "mset ts = add_mset t (mset (others_of (session_id t) ts))"
  using assms
proof (induction ts)
  case Nil
  then show ?case by simp
next
  case (Cons u ts)
  show ?case
  proof (cases "session_id u = session_id t")
    case True
    with Cons.prems have "u = t" by (auto simp: rev_image_eqI)
    moreover have "filter (\<lambda>v. session_id v \<noteq> session_id t) ts = ts"
      using True Cons.prems(1) by (intro filter_True) (auto simp: rev_image_eqI)
    ultimately show ?thesis by (simp add: others_of_def)
  next
    case False
    with Cons show ?thesis by (auto simp: others_of_def)
  qed
qed

lemma set_others_of:
  assumes "distinct (map session_id ts)" "t \<in> set ts"
  shows "set (others_of (session_id t) ts) = set ts - {t}"
  using assms by (auto simp: others_of_def distinct_map inj_on_def)

lemma length_others_of:
  assumes "distinct (map session_id ts)" "t \<in> set ts"
  shows "Suc (length (others_of (session_id t) ts)) = length ts"
  using arg_cong [OF mset_others_of [OF assms], of size] by simp

lemma valid_others_of [simp]: "valid_tiles ts \<Longrightarrow> valid_tiles (others_of sid ts)"
  unfolding others_of_def by (rule valid_tiles_filter)

lemma valid_tiles_replace:
  assumes "valid_tiles ts" "t \<in> set ts" "session_id u = session_id t" "valid_rect u"
    and "\<forall>v \<in> set (others_of (session_id t) ts). \<not> overlaps v u"
  shows "valid_tiles (u # others_of (session_id t) ts)"
proof -
  note d = valid_tilesD(2) [OF assms(1)]
  have "length (others_of (session_id t) ts) < 16"
    using length_others_of [OF d assms(2)] valid_tilesD(1) [OF assms(1)] by simp
  moreover have "session_id u \<notin> session_id ` set (others_of (session_id t) ts)"
    using assms(3) by (auto simp: others_of_def)
  ultimately show ?thesis
    using assms valid_tilesD(3) [OF assms(1,2)] by (simp add: valid_tiles_Cons)
qed

lemma content_replace:
  assumes "valid_tiles ts" "t \<in> set ts" "content u = content t"
  shows "mset (map content (u # others_of (session_id t) ts)) = mset (map content ts)"
  using mset_others_of [OF valid_tilesD(2) [OF assms(1)] assms(2)] assms(3) by simp

text \<open>\<open>tiles.map(...)\<close> replacing the rectangle of one tile.\<close>

definition set_rect :: "string \<Rightarrow> rect \<Rightarrow> tile list \<Rightarrow> tile list" where
  "set_rect sid r ts = map (\<lambda>t. if session_id t = sid then with_rect t r else t) ts"

lemma set_rect_content [simp]: "map content (set_rect sid r ts) = map content ts"
  by (simp add: set_rect_def)

lemma set_rect_ids [simp]: "map session_id (set_rect sid r ts) = map session_id ts"
  by (simp add: set_rect_def)

lemma mset_set_rect:
  assumes "distinct (map session_id ts)" "t \<in> set ts"
  shows "mset (set_rect (session_id t) k ts) = mset (with_rect t k # others_of (session_id t) ts)"
proof -
  let ?f = "\<lambda>u. if session_id u = session_id t then with_rect u k else u"
  have "map ?f (others_of (session_id t) ts) = others_of (session_id t) ts"
    by (intro map_idI) (simp add: others_of_def)
  then have "image_mset ?f (mset (others_of (session_id t) ts)) = mset (others_of (session_id t) ts)"
    by (metis mset_map)
  then show ?thesis
    unfolding set_rect_def mset_map mset_others_of [OF assms] by simp
qed

lemma set_rect_mem: "t \<in> set ts \<Longrightarrow> with_rect t k \<in> set (set_rect (session_id t) k ts)"
  by (force simp: set_rect_def)

text \<open>Looking a tile up by its identifier.\<close>

lemma find_tile:
  assumes "valid_tiles ts"
  shows "find (\<lambda>t. session_id t = sid) ts = Some t \<longleftrightarrow> t \<in> set ts \<and> session_id t = sid"
  using find_key_Some_iff [OF valid_tilesD(2) [OF assms]] .

lemma find_tile_None: "find (\<lambda>t. session_id t = sid) ts = None \<longleftrightarrow> sid \<notin> session_id ` set ts"
  by (auto simp: find_None_all)

lemma reading_key_inj:
  assumes "valid_tiles ts" "t \<in> set ts" "u \<in> set ts" "reading_key t = reading_key u"
  shows "session_id t = session_id u"
proof (rule ccontr)
  assume "session_id t \<noteq> session_id u"
  then have "\<not> overlaps t u" by (rule valid_tilesD(5) [OF assms(1-3)])
  moreover have "valid_rect t" "valid_rect u" using assms valid_tilesD(4) by blast+
  ultimately show False using assms(4) by (auto simp: overlaps_def reading_key_def valid_rect_def)
qed

text \<open>The reading order of a valid layout does not depend on the order of its array.\<close>

lemma sort_key_mset:
  assumes "mset xs = mset ys" "inj_on f (set xs)"
  shows "sort_key f xs = sort_key f ys"
proof -
  have "mset (map f xs) = mset (map f ys)" using assms(1) by simp
  then have "sort (map f xs) = sort (map f ys)" by (intro properties_for_sort) auto
  moreover have "map f (sort_key f zs) = sort (map f zs)" for zs
    by (rule properties_for_sort [symmetric]) auto
  ultimately have "map f (sort_key f xs) = map f (sort_key f ys)" by simp
  moreover have "set (sort_key f xs) \<union> set (sort_key f ys) = set xs"
    using mset_eq_setD [OF assms(1)] by simp
  ultimately show ?thesis using assms(2) by (metis map_inj_on)
qed

lemma inj_on_reading_key:
  assumes "valid_tiles ts"
  shows "inj_on reading_key (set ts)"
proof (rule inj_onI)
  fix t u assume a: "t \<in> set ts" "u \<in> set ts" "reading_key t = reading_key u"
  then have "session_id t = session_id u" by (rule reading_key_inj [OF assms])
  with a(1,2) valid_tilesD(2) [OF assms] show "t = u" by (simp add: distinct_map inj_on_def)
qed

lemma sortTiles_mset:
  assumes "valid_tiles ts" "mset ts = mset us"
  shows "sortTiles ts = sortTiles us"
  unfolding sortTiles_def using assms(2) inj_on_reading_key [OF assms(1)] by (rule sort_key_mset)

text \<open>
  The contract of an operation that rearranges a layout: it keeps the layout valid and every
  session and widget in it. Operations that may refuse return the layout unchanged.
\<close>

locale tile_edit =
  fixes edit :: "tile list \<Rightarrow> tile list"
  assumes edit_valid: "valid_tiles ts \<Longrightarrow> valid_tiles (edit ts)"
    and edit_content: "valid_tiles ts \<Longrightarrow> mset (map content (edit ts)) = mset (map content ts)"
begin

lemma edit_ids: "valid_tiles ts \<Longrightarrow> session_id ` set (edit ts) = session_id ` set ts"
  by (metis content_ids edit_content mset_eq_setD set_map)

lemma edit_length: "valid_tiles ts \<Longrightarrow> length (edit ts) = length ts"
  by (metis edit_content length_map mset_eq_length)

lemma edit_twice: "valid_tiles ts \<Longrightarrow> mset (map content (edit (edit ts))) = mset (map content ts)"
  by (metis edit_content edit_valid)

end

subsection \<open>Validation of untyped data\<close>

datatype layout_error_code =
    E_shape | E_version | E_count | E_session_id | E_integer | E_bounds | E_size
  | E_duplicate | E_overlap

record layout_error =
  le_code :: layout_error_code
  le_index :: "nat option"
  le_other :: "nat option"

record validation_result =
  vr_ok :: bool
  vr_errors :: "layout_error list"

definition lerr :: "layout_error_code \<Rightarrow> nat option \<Rightarrow> nat option \<Rightarrow> layout_error" where
  "lerr c i j = \<lparr>le_code = c, le_index = i, le_other = j\<rparr>"

text \<open>The four numbers of a raw tile, when all of them are integers.\<close>

definition raw_rect :: "jsval \<Rightarrow> rect option" where
  "raw_rect raw =
     (case (js_integer (js_get raw ''x''), js_integer (js_get raw ''y''),
            js_integer (js_get raw ''w''), js_integer (js_get raw ''h'')) of
        (Some x, Some y, Some w, Some h) \<Rightarrow> Some \<lparr>gx = x, gy = y, gw = w, gh = h\<rparr>
      | _ \<Rightarrow> None)"

definition raw_sid :: "jsval \<Rightarrow> string option" where
  "raw_sid raw = js_nonempty_string (js_get raw ''session_id'')"

definition in_bounds :: "rect \<Rightarrow> bool" where
  "in_bounds r \<longleftrightarrow>
     \<not> (gx r < 0 \<or> gy r < 0 \<or> gx r + gw r > GRID_SIZE \<or> gy r + gh r > GRID_SIZE)"

text \<open>One turn of the loop over the tiles: the errors it pushes, and what it keeps for later.\<close>

definition tile_errors :: "nat \<Rightarrow> jsval \<Rightarrow> layout_error list" where
  "tile_errors i raw =
     (if raw_sid raw = None then [lerr E_session_id (Some i) None] else []) @
     (case raw_rect raw of
        None \<Rightarrow> [lerr E_integer (Some i) None]
      | Some r \<Rightarrow>
          (if in_bounds r then [] else [lerr E_bounds (Some i) None]) @
          (if gw r < MIN_TILE_SIZE \<or> gh r < MIN_TILE_SIZE
           then [lerr E_size (Some i) None] else []))"

definition tile_slot :: "jsval \<Rightarrow> rect option" where
  "tile_slot raw =
     (case raw_rect raw of None \<Rightarrow> None | Some r \<Rightarrow> if in_bounds r then Some r else None)"

fun duplicate_errors :: "nat \<Rightarrow> string option list \<Rightarrow> (string \<rightharpoonup> nat) \<Rightarrow> layout_error list" where
  "duplicate_errors i [] seen = []"
| "duplicate_errors i (None # ids) seen = duplicate_errors (Suc i) ids seen"
| "duplicate_errors i (Some sid # ids) seen =
     (case seen sid of
        None \<Rightarrow> duplicate_errors (Suc i) ids (seen(sid \<mapsto> i))
      | Some first \<Rightarrow>
          lerr E_duplicate (Some i) (Some first) # duplicate_errors (Suc i) ids seen)"

definition overlap_errors :: "rect option list \<Rightarrow> layout_error list" where
  "overlap_errors rects =
     concat (map (\<lambda>i. case rects ! i of
         None \<Rightarrow> []
       | Some a \<Rightarrow>
           concat (map (\<lambda>j. case rects ! j of
               None \<Rightarrow> []
             | Some b \<Rightarrow> if overlaps a b then [lerr E_overlap (Some i) (Some j)] else [])
             [Suc i..<length rects]))
       [0..<length rects])"

definition validate :: "jsval \<Rightarrow> validation_result" where
  "validate layout =
     (if \<not> js_is_record layout
      then \<lparr>vr_ok = False, vr_errors = [lerr E_shape None None]\<rparr>
      else case js_get layout ''tiles'' of
        JArr tiles \<Rightarrow>
          let errors =
            (if js_get layout ''version'' \<noteq> JNum (of_int LAYOUT_VERSION)
             then [lerr E_version None None] else []) @
            (if length tiles > MAX_TILES then [lerr E_count None None] else []) @
            concat (map (\<lambda>i. tile_errors i (tiles ! i)) [0..<length tiles]) @
            duplicate_errors 0 (map raw_sid tiles) Map.empty @
            overlap_errors (map tile_slot tiles)
          in \<lparr>vr_ok = (errors = []), vr_errors = errors\<rparr>
      | _ \<Rightarrow> \<lparr>vr_ok = False, vr_errors = [lerr E_shape None None]\<rparr>)"

text \<open>What it means for a value to represent a tile and a layout.\<close>

definition represents_tile :: "jsval \<Rightarrow> tile \<Rightarrow> bool" where
  "represents_tile raw t \<longleftrightarrow>
     js_get raw ''session_id'' = JStr (session_id t) \<and>
     js_get raw ''x'' = JNum (of_int (gx t)) \<and> js_get raw ''y'' = JNum (of_int (gy t)) \<and>
     js_get raw ''w'' = JNum (of_int (gw t)) \<and> js_get raw ''h'' = JNum (of_int (gh t))"

definition represents_layout :: "jsval \<Rightarrow> tile list \<Rightarrow> bool" where
  "represents_layout v ts \<longleftrightarrow>
     js_is_record v \<and> js_get v ''version'' = JNum (of_int LAYOUT_VERSION) \<and>
     (\<exists>raws. js_get v ''tiles'' = JArr raws \<and> list_all2 represents_tile raws ts)"

text \<open>\<open>{ version: 3, tiles }\<close>, the value the editing code hands to \<open>validate\<close>.\<close>

definition tile_value :: "tile \<Rightarrow> jsval" where
  "tile_value t =
     JObj ([(''session_id'', JStr (session_id t)), (''x'', JNum (of_int (gx t))),
            (''y'', JNum (of_int (gy t))), (''w'', JNum (of_int (gw t))),
            (''h'', JNum (of_int (gh t)))] @
           (case widget t of None \<Rightarrow> [] | Some fs \<Rightarrow> [(''widget'', JObj fs)]))"

definition layout_value :: "tile list \<Rightarrow> jsval" where
  "layout_value ts = JObj [(''version'', JNum 3), (''tiles'', JArr (map tile_value ts))]"

definition validates :: "tile list \<Rightarrow> bool" where
  "validates ts = vr_ok (validate (layout_value ts))"

lemma represents_tile_value: "represents_tile (tile_value t) t"
  by (simp add: represents_tile_def tile_value_def)

lemma represents_layout_value: "represents_layout (layout_value ts) ts"
  by (simp add: represents_layout_def layout_value_def list_all2_conv_all_nth
      represents_tile_value)

lemma represents_raw:
  assumes "represents_tile raw t"
  shows "raw_rect raw = Some (rect_of t)"
    "raw_sid raw = (if session_id t = [] then None else Some (session_id t))"
  using assms by (auto simp: represents_tile_def raw_rect_def raw_sid_def rect_of_def)

lemma tile_errors_represented:
  assumes "represents_tile raw t"
  shows "tile_errors i raw = [] \<longleftrightarrow> session_id t \<noteq> [] \<and> valid_rect t"
  using represents_raw [OF assms]
  by (auto simp: tile_errors_def in_bounds_def valid_rect_def)

lemma tile_errors_represents:
  assumes "tile_errors i raw = []"
  shows "\<exists>t. represents_tile raw t"
proof -
  from assms obtain r where r: "raw_rect raw = Some r"
    by (auto simp: tile_errors_def split: option.splits)
  from assms obtain s where s: "raw_sid raw = Some s"
    by (auto simp: tile_errors_def split: if_splits)
  from r s have "represents_tile raw (tile_at s r)"
    by (auto simp: raw_rect_def raw_sid_def represents_tile_def js_integer_Some
        js_nonempty_string_Some split: option.splits)
  then show ?thesis ..
qed

text \<open>\<open>duplicate_errors\<close> is silent exactly when no identifier repeats.\<close>

lemma duplicate_errors_empty:
  "duplicate_errors i (map Some ids) seen = [] \<longleftrightarrow> distinct ids \<and> set ids \<inter> dom seen = {}"
proof (induction ids arbitrary: i seen)
  case Nil
  then show ?case by simp
next
  case (Cons s ids)
  show ?case
  proof (cases "seen s")
    case None
    then have "s \<notin> dom seen" by auto
    with None show ?thesis by (auto simp: Cons.IH dom_fun_upd simp del: fun_upd_apply)
  next
    case (Some k)
    then have "s \<in> dom seen" by auto
    with Some show ?thesis by simp
  qed
qed

lemma overlap_errors_empty:
  "overlap_errors (map (\<lambda>r. Some r) rs) = [] \<longleftrightarrow>
     (\<forall>i < length rs. \<forall>j < length rs. i < j \<longrightarrow> \<not> overlaps (rs ! i) (rs ! j))"
proof -
  have "overlap_errors (map (\<lambda>r. Some r) rs) = [] \<longleftrightarrow>
      (\<forall>i \<in> {0..<length rs}. \<forall>j \<in> {Suc i..<length rs}. \<not> overlaps (rs ! i) (rs ! j))"
    unfolding overlap_errors_def concat_map_Nil
    by (simp add: concat_map_Nil del: concat_eq_Nil_conv)
  then show ?thesis by (auto simp: Suc_le_eq)
qed

lemma concat_errors_empty:
  "concat (map (\<lambda>i. f i (xs ! i)) [0..<length xs]) = [] \<longleftrightarrow> (\<forall>i < length xs. f i (xs ! i) = [])"
  by auto

text \<open>Pairs of positions in either order are pairs of different tiles.\<close>

lemma disjoint_tiles_nth:
  assumes "distinct (map session_id ts)"
  shows "disjoint_tiles ts \<longleftrightarrow>
    (\<forall>i < length ts. \<forall>j < length ts. i < j \<longrightarrow> \<not> overlaps (ts ! i) (ts ! j))" (is "_ = ?R")
proof
  assume d: "disjoint_tiles ts"
  show ?R
  proof (intro allI impI)
    fix i j assume ij: "i < length ts" "j < length ts" "i < j"
    then have "session_id (ts ! i) \<noteq> session_id (ts ! j)"
      using assms by (metis length_map less_irrefl nth_eq_iff_index_eq nth_map)
    then show "\<not> overlaps (ts ! i) (ts ! j)"
      using d ij by (auto simp: disjoint_tiles_def)
  qed
next
  assume R: ?R
  show "disjoint_tiles ts"
    unfolding disjoint_tiles_def
  proof (intro ballI impI)
    fix a b assume "a \<in> set ts" "b \<in> set ts" and ne: "session_id a \<noteq> session_id b"
    then obtain i j where "i < length ts" "j < length ts" "a = ts ! i" "b = ts ! j"
      by (metis in_set_conv_nth)
    with R ne overlaps_sym show "\<not> overlaps a b" by (metis linorder_neqE_nat)
  qed
qed

lemma slots_in_bounds:
  assumes "list_all2 represents_tile raws ts" and "\<forall>t \<in> set ts. valid_rect t"
  shows "map tile_slot raws = map (\<lambda>t. Some (rect_of t)) ts"
  using assms
proof (induction rule: list_all2_induct)
  case Nil
  then show ?case by simp
next
  case (Cons raw raws t ts)
  then show ?case
    by (simp add: tile_slot_def represents_raw in_bounds_def valid_rect_def)
qed

lemma sids_represented:
  assumes "list_all2 represents_tile raws ts" and "\<forall>t \<in> set ts. session_id t \<noteq> []"
  shows "map raw_sid raws = map Some (map session_id ts)"
  using assms
  by (induction rule: list_all2_induct) (simp_all add: represents_raw)

lemma validate_represented:
  assumes "represents_layout v ts"
  shows "vr_ok (validate v) \<longleftrightarrow> valid_tiles ts"
proof -
  from assms obtain raws where raws: "js_get v ''tiles'' = JArr raws"
      and rep: "list_all2 represents_tile raws ts"
      and rec: "js_is_record v" "js_get v ''version'' = JNum 3"
    by (auto simp: represents_layout_def)
  have len: "length raws = length ts" using rep by (rule list_all2_lengthD)
  have each: "tile_errors i (raws ! i) = [] \<longleftrightarrow> session_id (ts ! i) \<noteq> [] \<and> valid_rect (ts ! i)"
    if "i < length ts" for i
    using rep that by (metis len list_all2_nthD tile_errors_represented)
  let ?tiles_ok = "\<forall>t \<in> set ts. session_id t \<noteq> [] \<and> valid_rect t"
  have "(\<forall>i < length raws. tile_errors i (raws ! i) = []) \<longleftrightarrow> ?tiles_ok"
    using each len by (auto simp: all_set_conv_all_nth)
  moreover have "duplicate_errors 0 (map raw_sid raws) Map.empty = [] \<and>
      overlap_errors (map tile_slot raws) = [] \<longleftrightarrow>
      distinct (map session_id ts) \<and> disjoint_tiles ts" if ?tiles_ok
  proof -
    have "map raw_sid raws = map Some (map session_id ts)"
      using that by (intro sids_represented [OF rep]) simp
    then have "duplicate_errors 0 (map raw_sid raws) Map.empty = [] \<longleftrightarrow> distinct (map session_id ts)"
      by (simp only: duplicate_errors_empty) simp
    moreover have "map tile_slot raws = map (\<lambda>r. Some r) (map rect_of ts)"
      using that slots_in_bounds [OF rep] by (simp add: comp_def)
    then have "overlap_errors (map tile_slot raws) = [] \<longleftrightarrow>
        (\<forall>i < length ts. \<forall>j < length ts. i < j \<longrightarrow> \<not> overlaps (ts ! i) (ts ! j))"
      by (simp only: overlap_errors_empty) simp
    ultimately show ?thesis using disjoint_tiles_nth by blast
  qed
  ultimately have "vr_ok (validate v) \<longleftrightarrow>
      length ts \<le> 16 \<and> ?tiles_ok \<and> distinct (map session_id ts) \<and> disjoint_tiles ts"
    by (auto simp: validate_def rec raws Let_def len)
  then show ?thesis by (auto simp: valid_tiles_def)
qed

lemma validates_iff [simp]: "validates ts \<longleftrightarrow> valid_tiles ts"
  unfolding validates_def by (rule validate_represented [OF represents_layout_value])

lemma validate_ok_represents:
  assumes "vr_ok (validate v)"
  shows "\<exists>ts. represents_layout v ts"
proof -
  from assms obtain raws where raws: "js_get v ''tiles'' = JArr raws" "js_is_record v"
    by (auto simp: validate_def split: if_splits jsval.splits)
  from assms raws have "js_get v ''version'' = JNum 3"
      "\<forall>i < length raws. tile_errors i (raws ! i) = []"
    by (auto simp: validate_def Let_def split: if_splits)
  moreover from this(2) have "\<forall>i < length raws. \<exists>t. represents_tile (raws ! i) t"
    using tile_errors_represents by blast
  then obtain f where "\<forall>i < length raws. represents_tile (raws ! i) (f i)" by metis
  then have "list_all2 represents_tile raws (map f [0..<length raws])"
    by (simp add: list_all2_conv_all_nth)
  ultimately show ?thesis using raws by (auto simp: represents_layout_def)
qed

text \<open>
  C1: \<open>validate\<close> accepts a value exactly when it is an object of version 3 whose \<open>tiles\<close>
  represent a layout satisfying every grid invariant (at most 16 tiles, distinct non-empty
  session ids, integer geometry inside the canvas and at least 4 by 4, no two tiles overlapping).
\<close>

theorem validate_iff:
  "vr_ok (validate v) \<longleftrightarrow> (\<exists>ts. represents_layout v ts \<and> valid_tiles ts)"
  using validate_represented validate_ok_represents by blast

end
