(* ===== verification/Grid_Place.thy ===== *)
theory Grid_Place
  imports Grid
begin

section \<open>Placing new tiles\<close>

text \<open>
  \<open>autoPlace\<close> of \<open>web/src/lib/grid.ts\<close>, the routine that finds room for a new tile. The
  locale \<open>placer\<close> is the contract its callers rely on (the tab envelope, the merge of two
  tabs, the migration of split trees); \<open>autoPlace\<close> is its interpretation.
\<close>

subsection \<open>The routine\<close>

definition square_at :: "int \<Rightarrow> int \<Rightarrow> rect" where
  "square_at x y = \<lparr>gx = x, gy = y, gw = MIN_TILE_SIZE, gh = MIN_TILE_SIZE\<rparr>"

text \<open>The positions of the two nested loops, in the order they are tried.\<close>

definition scan_spots :: "(int \<times> int) list" where
  "scan_spots =
     concat (map (\<lambda>y. map (\<lambda>x. (x, y)) [0..GRID_SIZE - MIN_TILE_SIZE])
       [0..GRID_SIZE - MIN_TILE_SIZE])"

function grow_w :: "tile list \<Rightarrow> int \<Rightarrow> int \<Rightarrow> int \<Rightarrow> int" where
  "grow_w tiles x y w =
     (if x + w < GRID_SIZE \<and>
         fitsAt tiles \<lparr>gx = x + w, gy = y, gw = 1, gh = MIN_TILE_SIZE\<rparr> (-1)
      then grow_w tiles x y (w + 1) else w)"
  by pat_completeness auto
termination
  by (relation "measure (\<lambda>(tiles, x, y, w). nat (GRID_SIZE - (x + w)))") auto

function grow_h :: "tile list \<Rightarrow> int \<Rightarrow> int \<Rightarrow> int \<Rightarrow> int \<Rightarrow> int" where
  "grow_h tiles x y w h =
     (if y + h < GRID_SIZE \<and> fitsAt tiles \<lparr>gx = x, gy = y + h, gw = w, gh = 1\<rparr> (-1)
      then grow_h tiles x y w (h + 1) else h)"
  by pat_completeness auto
termination
  by (relation "measure (\<lambda>(tiles, x, y, w, h). nat (GRID_SIZE - (y + h)))") auto

declare grow_w.simps [simp del] grow_h.simps [simp del]

text \<open>The largest tile worth halving, the first one of equal area in reading order.\<close>

definition better_victim :: "tile option \<Rightarrow> tile \<Rightarrow> tile option" where
  "better_victim victim t =
     (if max (gw t) (gh t) < 2 * MIN_TILE_SIZE then victim
      else case victim of
        None \<Rightarrow> Some t
      | Some v \<Rightarrow> if gw t * gh t > gw v * gh v then Some t else victim)"

definition split_victim :: "tile list \<Rightarrow> tile option" where
  "split_victim tiles = foldl better_victim None tiles"

text \<open>The two halves of a tile: the one it keeps and the one it gives away.\<close>

definition halve :: "tile \<Rightarrow> tile \<times> rect" where
  "halve kept =
     (if gw kept \<ge> gh kept
      then let keep = ceil_half (gw kept) in
        (kept\<lparr>gw := keep\<rparr>,
         \<lparr>gx = gx kept + keep, gy = gy kept, gw = gw kept - keep, gh = gh kept\<rparr>)
      else let keep = ceil_half (gh kept) in
        (kept\<lparr>gh := keep\<rparr>,
         \<lparr>gx = gx kept, gy = gy kept + keep, gw = gw kept, gh = gh kept - keep\<rparr>))"

definition autoPlace :: "tile list \<Rightarrow> rect option \<times> tile list" where
  "autoPlace tiles =
     (if length tiles \<ge> MAX_TILES then (None, sortTiles tiles)
      else case find (\<lambda>(x, y). fitsAt tiles (square_at x y) (-1)) scan_spots of
        Some (x, y) \<Rightarrow>
          let w = grow_w tiles x y MIN_TILE_SIZE;
              h = grow_h tiles x y w MIN_TILE_SIZE
          in (Some \<lparr>gx = x, gy = y, gw = w, gh = h\<rparr>, sortTiles tiles)
      | None \<Rightarrow>
          (case split_victim (sortTiles tiles) of
             None \<Rightarrow> (None, sortTiles tiles)
           | Some victim \<Rightarrow>
               let nxt = sortTiles tiles in
               (case find_index (\<lambda>t. session_id t = session_id victim) nxt of
                  None \<Rightarrow> (None, nxt)
                | Some k \<Rightarrow>
                    let (kept, spot) = halve (nxt ! k)
                    in (Some spot, sortTiles (nxt[k := kept])))))"

subsection \<open>Growing into free space\<close>

lemma overlaps_extend_right:
  assumes "0 < gw t" "0 \<le> w"
  shows "overlaps t \<lparr>gx = x, gy = y, gw = w + 1, gh = h\<rparr> \<longleftrightarrow>
    overlaps t \<lparr>gx = x, gy = y, gw = w, gh = h\<rparr> \<or> overlaps t \<lparr>gx = x + w, gy = y, gw = 1, gh = h\<rparr>"
  using assms by (auto simp: overlaps_def)

lemma overlaps_extend_down:
  assumes "0 < gh t" "0 \<le> h"
  shows "overlaps t \<lparr>gx = x, gy = y, gw = w, gh = h + 1\<rparr> \<longleftrightarrow>
    overlaps t \<lparr>gx = x, gy = y, gw = w, gh = h\<rparr> \<or> overlaps t \<lparr>gx = x, gy = y + h, gw = w, gh = 1\<rparr>"
  using assms by (auto simp: overlaps_def)

lemma grow_w_spec:
  assumes "\<forall>t \<in> set ts. 0 < gw t" "0 \<le> w" "x + w \<le> 24"
    and "fitsAt ts \<lparr>gx = x, gy = y, gw = w, gh = 4\<rparr> (-1)"
  shows "w \<le> grow_w ts x y w \<and> x + grow_w ts x y w \<le> 24 \<and>
    fitsAt ts \<lparr>gx = x, gy = y, gw = grow_w ts x y w, gh = 4\<rparr> (-1)"
  using assms
proof (induction ts x y w rule: grow_w.induct)
  case (1 tiles x y w)
  show ?case
  proof (cases "x + w < 24 \<and> fitsAt tiles \<lparr>gx = x + w, gy = y, gw = 1, gh = 4\<rparr> (-1)")
    case True
    then have "fitsAt tiles \<lparr>gx = x, gy = y, gw = w + 1, gh = 4\<rparr> (-1)"
      using "1.prems" by (auto simp: fitsAt_all overlaps_extend_right)
    with True "1.IH" "1.prems" show ?thesis
      by (simp add: grow_w.simps [of tiles x y w])
  next
    case False
    with "1.prems" show ?thesis by (auto simp: grow_w.simps [of tiles x y w])
  qed
qed

lemma grow_h_spec:
  assumes "\<forall>t \<in> set ts. 0 < gh t" "0 \<le> h" "y + h \<le> 24"
    and "fitsAt ts \<lparr>gx = x, gy = y, gw = w, gh = h\<rparr> (-1)"
  shows "h \<le> grow_h ts x y w h \<and> y + grow_h ts x y w h \<le> 24 \<and>
    fitsAt ts \<lparr>gx = x, gy = y, gw = w, gh = grow_h ts x y w h\<rparr> (-1)"
  using assms
proof (induction ts x y w h rule: grow_h.induct)
  case (1 tiles x y w h)
  show ?case
  proof (cases "y + h < 24 \<and> fitsAt tiles \<lparr>gx = x, gy = y + h, gw = w, gh = 1\<rparr> (-1)")
    case True
    then have "fitsAt tiles \<lparr>gx = x, gy = y, gw = w, gh = h + 1\<rparr> (-1)"
      using "1.prems" by (auto simp: fitsAt_all overlaps_extend_down)
    with True "1.IH" "1.prems" show ?thesis
      by (simp add: grow_h.simps [of tiles x y w h])
  next
    case False
    with "1.prems" show ?thesis by (auto simp: grow_h.simps [of tiles x y w h])
  qed
qed

lemma valid_positive: "valid_tiles ts \<Longrightarrow> t \<in> set ts \<Longrightarrow> 0 < gw t \<and> 0 < gh t"
  using valid_tilesD(4) [of ts t] by (simp add: valid_rect_def)

lemma scan_spots_set: "(x, y) \<in> set scan_spots \<longleftrightarrow> 0 \<le> x \<and> x \<le> 20 \<and> 0 \<le> y \<and> y \<le> 20"
  by (force simp: scan_spots_def)

text \<open>The first free square, grown right and then down, is a free rectangle of the canvas.\<close>

lemma grown_square_free:
  assumes "valid_tiles ts" "(x, y) \<in> set scan_spots" "fitsAt ts (square_at x y) (-1)"
  defines "w \<equiv> grow_w ts x y 4"
  defines "h \<equiv> grow_h ts x y w 4"
  shows "valid_rect \<lparr>gx = x, gy = y, gw = w, gh = h\<rparr> \<and>
    fitsAt ts \<lparr>gx = x, gy = y, gw = w, gh = h\<rparr> (-1)"
proof -
  have pos: "\<forall>t \<in> set ts. 0 < gw t" "\<forall>t \<in> set ts. 0 < gh t"
    using valid_positive [OF assms(1)] by auto
  have xy: "0 \<le> x" "x \<le> 20" "0 \<le> y" "y \<le> 20"
    using assms(2) by (simp_all add: scan_spots_set)
  have sq: "fitsAt ts \<lparr>gx = x, gy = y, gw = 4, gh = 4\<rparr> (-1)"
    using assms(3) by (simp add: square_at_def)
  have w: "4 \<le> w \<and> x + w \<le> 24 \<and> fitsAt ts \<lparr>gx = x, gy = y, gw = w, gh = 4\<rparr> (-1)"
    unfolding w_def using grow_w_spec [OF pos(1) _ _ sq] xy by simp
  have h: "4 \<le> h \<and> y + h \<le> 24 \<and> fitsAt ts \<lparr>gx = x, gy = y, gw = w, gh = h\<rparr> (-1)"
    unfolding h_def using grow_h_spec [OF pos(2), of 4 y x w] xy w by simp
  show ?thesis using w h xy by (simp add: valid_rect_def)
qed

subsection \<open>Halving the largest tile\<close>

lemma foldl_better_victim:
  assumes "foldl better_victim v ts = Some u"
  shows "v = Some u \<or> (u \<in> set ts \<and> 8 \<le> max (gw u) (gh u))"
  using assms
proof (induction ts arbitrary: v)
  case Nil
  then show ?case by simp
next
  case (Cons t ts)
  then have "better_victim v t = Some u \<or> (u \<in> set ts \<and> 8 \<le> max (gw u) (gh u))" by simp
  then show ?case
    by (auto simp: better_victim_def split: if_splits option.splits)
qed

lemma foldl_better_victim_None:
  "foldl better_victim v ts = None \<longleftrightarrow> v = None \<and> (\<forall>t \<in> set ts. max (gw t) (gh t) < 8)"
  by (induction ts arbitrary: v) (auto simp: better_victim_def split: option.splits)

lemma split_victim_Some:
  "split_victim ts = Some u \<Longrightarrow> u \<in> set ts \<and> 8 \<le> max (gw u) (gh u)"
  unfolding split_victim_def by (drule foldl_better_victim) simp

lemma split_victim_None: "split_victim ts = None \<longleftrightarrow> (\<forall>t \<in> set ts. max (gw t) (gh t) < 8)"
  by (simp add: split_victim_def foldl_better_victim_None)

text \<open>The two halves are valid, disjoint, and cover the tile they came from.\<close>

lemma halve_spec:
  assumes "valid_rect t" "8 \<le> max (gw t) (gh t)" "halve t = (kept, spot)"
  shows "valid_rect kept" "valid_rect spot" "\<not> overlaps kept spot"
    "cells kept \<union> cells spot = cells t" "area kept + area spot = area t"
    "session_id kept = session_id t" "widget kept = widget t"
    "overlaps u kept \<Longrightarrow> overlaps u t" "overlaps u spot \<Longrightarrow> overlaps u t"
proof -
  have half: "4 \<le> ceil_half n \<and> 4 \<le> n - ceil_half n" if "8 \<le> n" for n
    using that unfolding ceil_half_def by presburger
  show "valid_rect kept" "valid_rect spot" "\<not> overlaps kept spot"
    "session_id kept = session_id t" "widget kept = widget t"
    using assms half [of "gw t"] half [of "gh t"]
    by (auto simp: halve_def valid_rect_def overlaps_def Let_def split: if_splits)
  show "cells kept \<union> cells spot = cells t"
    using assms half [of "gw t"] half [of "gh t"]
    by (auto simp: halve_def cells_def Let_def valid_rect_def split: if_splits)
  show "area kept + area spot = area t"
    using assms(3)
    by (auto simp: halve_def area_def Let_def algebra_simps split: if_splits)
  show "overlaps u kept \<Longrightarrow> overlaps u t" "overlaps u spot \<Longrightarrow> overlaps u t"
    using assms half [of "gw t"] half [of "gh t"]
    by (auto simp: halve_def overlaps_def Let_def valid_rect_def split: if_splits)
qed

subsection \<open>What callers rely on\<close>

locale placer =
  fixes place :: "tile list \<Rightarrow> rect option \<times> tile list"
  assumes place_content:
      "valid_tiles ts \<Longrightarrow> place ts = (ro, us) \<Longrightarrow> mset (map content us) = mset (map content ts)"
    and place_spot:
      "valid_tiles ts \<Longrightarrow> place ts = (Some r, us) \<Longrightarrow>
         length ts < MAX_TILES \<and> valid_tiles us \<and> valid_rect r \<and> (\<forall>u \<in> set us. \<not> overlaps u r)"
begin

lemma place_ids:
  assumes "valid_tiles ts" "place ts = (ro, us)"
  shows "session_id ` set us = session_id ` set ts" "length us = length ts"
proof -
  have "mset (map session_id us) = mset (map session_id ts)"
    by (rule content_ids [OF place_content [OF assms]])
  then show "session_id ` set us = session_id ` set ts" "length us = length ts"
    by (metis mset_eq_setD set_map, metis length_map mset_eq_length)
qed

text \<open>A tile with a new identifier put on the spot found gives a valid layout again.\<close>

lemma place_snoc:
  assumes "valid_tiles ts" "place ts = (Some r, us)"
    and "session_id t \<noteq> []" "session_id t \<notin> session_id ` set ts" "rect_of t = r"
  shows "valid_tiles (us @ [t])"
    "mset (map content (us @ [t])) = add_mset (content t) (mset (map content ts))"
proof -
  have "valid_rect t" "\<forall>u \<in> set us. \<not> overlaps u t"
    using place_spot [OF assms(1,2)] assms(5) by auto
  then show "valid_tiles (us @ [t])"
    using place_spot [OF assms(1,2)] place_ids [OF assms(1,2)] assms(3,4)
    by (simp add: valid_tiles_snoc)
  show "mset (map content (us @ [t])) = add_mset (content t) (mset (map content ts))"
    using place_content [OF assms(1,2)] by simp
qed

end

lemma valid_tiles_halved:
  assumes "valid_tiles ts" "k < length ts" "8 \<le> max (gw (ts ! k)) (gh (ts ! k))"
    and "halve (ts ! k) = (kept, spot)"
  shows "valid_tiles (ts[k := kept]) \<and> valid_rect spot \<and>
    (\<forall>u \<in> set (ts[k := kept]). \<not> overlaps u spot)"
proof -
  have v: "valid_rect (ts ! k)" using assms(1,2) by (simp add: valid_tilesD)
  note h = halve_spec [OF v assms(3,4)]
  have others: "\<not> overlaps (ts ! j) (ts ! k)" if "j < length ts" "j \<noteq> k" for j
    using valid_tiles_nth(1) [OF assms(1) that(1) assms(2) that(2)] .
  have "valid_tiles (ts[k := kept])"
    using h others by (intro valid_tiles_update [OF assms(1,2)]) auto
  moreover have "\<not> overlaps u spot" if "u \<in> set (ts[k := kept])" for u
  proof -
    from that obtain j where "j < length ts" "u = ts[k := kept] ! j"
      by (metis in_set_conv_nth length_list_update)
    then show ?thesis using h others by (cases "j = k") auto
  qed
  ultimately show ?thesis using h by blast
qed

text \<open>Which case of \<open>autoPlace\<close> applies, and what it returns there.\<close>

lemma autoPlace_cases:
  assumes "valid_tiles ts"
  obtains (full) "length ts = 16" "autoPlace ts = (None, sortTiles ts)"
  | (free) x y w h where "length ts < 16" "(x, y) \<in> set scan_spots" "fitsAt ts (square_at x y) (-1)"
      "w = grow_w ts x y 4" "h = grow_h ts x y w 4"
      "autoPlace ts = (Some \<lparr>gx = x, gy = y, gw = w, gh = h\<rparr>, sortTiles ts)"
  | (split) k kept spot where "length ts < 16"
      "\<forall>(x, y) \<in> set scan_spots. \<not> fitsAt ts (square_at x y) (-1)"
      "k < length ts" "8 \<le> max (gw (sortTiles ts ! k)) (gh (sortTiles ts ! k))"
      "halve (sortTiles ts ! k) = (kept, spot)"
      "autoPlace ts = (Some spot, sortTiles ((sortTiles ts)[k := kept]))"
  | (stuck) "length ts < 16" "\<forall>(x, y) \<in> set scan_spots. \<not> fitsAt ts (square_at x y) (-1)"
      "\<forall>t \<in> set ts. max (gw t) (gh t) < 8" "autoPlace ts = (None, sortTiles ts)"
proof (cases "length ts < 16")
  case False
  then have "length ts = 16" using valid_tilesD(1) [OF assms] by simp
  then show ?thesis by (intro full) (simp_all add: autoPlace_def)
next
  case len: True
  show ?thesis
  proof (cases "find (\<lambda>(x, y). fitsAt ts (square_at x y) (-1)) scan_spots")
    case (Some p)
    obtain x y where p: "p = (x, y)" by fastforce
    from Some p have "(x, y) \<in> set scan_spots" "fitsAt ts (square_at x y) (-1)"
      by (auto dest: find_Some_in)
    with len Some p show ?thesis
      by (intro free [of x y "grow_w ts x y 4" "grow_h ts x y (grow_w ts x y 4) 4"])
        (simp_all add: autoPlace_def Let_def)
  next
    case None
    then have nofree: "\<forall>(x, y) \<in> set scan_spots. \<not> fitsAt ts (square_at x y) (-1)"
      by (auto simp: find_None_all)
    show ?thesis
    proof (cases "split_victim (sortTiles ts)")
      case v: None
      then have "\<forall>t \<in> set ts. max (gw t) (gh t) < 8" by (simp add: split_victim_None)
      with len None nofree v show ?thesis by (intro stuck) (simp_all add: autoPlace_def)
    next
      case v: (Some victim)
      then have vic: "victim \<in> set (sortTiles ts)" "8 \<le> max (gw victim) (gh victim)"
        by (auto dest: split_victim_Some)
      let ?q = "\<lambda>t. session_id t = session_id victim"
      from vic(1) obtain k where k: "find_index ?q (sortTiles ts) = Some k"
        by (cases "find_index ?q (sortTiles ts)") (auto simp: find_index_None)
      then have klen: "k < length ts" and kid: "session_id (sortTiles ts ! k) = session_id victim"
        by (auto dest: find_index_Some)
      have "distinct (map session_id (sortTiles ts))"
        using valid_tilesD(2) [OF assms] by simp
      then have kv: "sortTiles ts ! k = victim"
        using kid vic(1) klen by (auto simp: distinct_map inj_on_def simp del: set_sortTiles)
      obtain kept spot where h: "halve victim = (kept, spot)" by fastforce
      show ?thesis
        using len nofree klen vic(2) h None v k kv
        by (intro split [of k kept spot]) (simp_all add: autoPlace_def Let_def)
    qed
  qed
qed

lemma autoPlace_content:
  assumes "valid_tiles ts" "autoPlace ts = (ro, us)"
  shows "mset (map content us) = mset (map content ts)"
  using assms(1)
proof (cases rule: autoPlace_cases)
  case (split k kept spot)
  then have "valid_rect (sortTiles ts ! k)"
    using valid_tilesD(4) [OF assms(1)] by simp
  then have "content kept = content (sortTiles ts ! k)"
    using split halve_spec(6,7) by (auto simp: content_def)
  then have "mset (map content ((sortTiles ts)[k := kept])) = mset (map content (sortTiles ts))"
    using split(3) by (intro mset_content_update) simp_all
  with assms(2) split show ?thesis by auto
qed (use assms(2) in simp_all)

lemma autoPlace_spot:
  assumes "valid_tiles ts" "autoPlace ts = (Some r, us)"
  shows "length ts < MAX_TILES \<and> valid_tiles us \<and> valid_rect r \<and> (\<forall>u \<in> set us. \<not> overlaps u r)"
  using assms(1)
proof (cases rule: autoPlace_cases)
  case (free x y w h)
  with assms grown_square_free [OF assms(1) free(2,3)] show ?thesis
    by (auto simp: fitsAt_all)
next
  case (split k kept spot)
  with assms valid_tiles_halved [of "sortTiles ts" k kept spot] show ?thesis by auto
qed (use assms(2) in simp_all)

interpretation auto: placer autoPlace
  by unfold_locales (fact autoPlace_content, fact autoPlace_spot)

subsection \<open>When a spot is found\<close>

text \<open>Any free rectangle of legal size has a free square at one of the scanned positions.\<close>

lemma no_free_square:
  "(\<forall>(x, y) \<in> set scan_spots. \<not> fitsAt ts (square_at x y) (-1)) \<longleftrightarrow>
   (\<forall>r :: rect. valid_rect r \<longrightarrow> (\<exists>t \<in> set ts. overlaps t r))" (is "?L = ?R")
proof
  assume L: ?L
  show ?R
  proof (intro allI impI)
    fix r :: rect
    assume v: "valid_rect r"
    then have "(gx r, gy r) \<in> set scan_spots"
      by (auto simp: scan_spots_set valid_rect_def)
    with L obtain t where "t \<in> set ts" "overlaps t (square_at (gx r) (gy r))"
      by (fastforce simp: fitsAt_all)
    moreover from this(2) v have "overlaps t r"
      by (auto simp: overlaps_def square_at_def valid_rect_def)
    ultimately show "\<exists>t \<in> set ts. overlaps t r" by blast
  qed
next
  assume R: ?R
  show ?L
  proof clarify
    fix x y assume "(x, y) \<in> set scan_spots" and f: "fitsAt ts (square_at x y) (-1)"
    then have "valid_rect (square_at x y)"
      by (simp add: scan_spots_set valid_rect_def square_at_def)
    with R f show False by (auto simp: fitsAt_all)
  qed
qed

text \<open>
  C2: \<open>autoPlace\<close> on a valid layout: when it returns a spot, the returned tiles with a tile of a
  new session on that spot form a valid layout again, and every session and widget that was there
  before is still there, once.
\<close>

theorem autoPlace_valid:
  assumes "valid_tiles ts" "autoPlace ts = (Some spot, us)"
    and "sid \<noteq> []" "sid \<notin> session_id ` set ts"
  shows "valid_tiles (us @ [tile_at sid spot]) \<and>
    mset (map content us) = mset (map content ts)"
  using auto.place_snoc(1) [OF assms(1,2), of "tile_at sid spot"]
    auto.place_content [OF assms(1,2)] assms(3,4)
  by (simp add: rect_of_def)

theorem autoPlace_valid_witness:
  "valid_tiles [] \<and> autoPlace [] = (Some \<lparr>gx = 0, gy = 0, gw = 24, gh = 24\<rparr>, []) \<and>
   valid_tiles ([] @ [tile_at ''a'' \<lparr>gx = 0, gy = 0, gw = 24, gh = 24\<rparr>])"
proof -
  have e: "autoPlace [] = (Some \<lparr>gx = 0, gy = 0, gw = 24, gh = 24\<rparr>, [])"
    by code_simp
  show ?thesis
    using autoPlace_valid [OF valid_tiles_Nil e, of "''a''"] e by simp
qed

text \<open>
  C3: \<open>autoPlace\<close> refuses a valid layout exactly when it already holds 16 tiles, or when no
  rectangle of legal size is free anywhere on the canvas and every tile is shorter than 8 cells on
  both sides, so that none can be halved.
\<close>

theorem autoPlace_refuses_iff:
  assumes "valid_tiles ts"
  shows "fst (autoPlace ts) = None \<longleftrightarrow>
    length ts = MAX_TILES \<or>
    ((\<forall>r :: rect. valid_rect r \<longrightarrow> (\<exists>t \<in> set ts. overlaps t r)) \<and>
     (\<forall>t \<in> set ts. gw t < 2 * MIN_TILE_SIZE \<and> gh t < 2 * MIN_TILE_SIZE))"
  using assms
proof (cases rule: autoPlace_cases)
  case (free x y w h)
  then have "\<not> (\<forall>(x, y) \<in> set scan_spots. \<not> fitsAt ts (square_at x y) (-1))" by blast
  with free show ?thesis unfolding no_free_square by auto
next
  case (split k kept spot)
  then have "\<not> (\<forall>t \<in> set ts. gw t < 8 \<and> gh t < 8)"
    using nth_sortTiles [of k ts] by (metis max_less_iff_conj not_le)
  with split show ?thesis by auto
next
  case stuck
  then show ?thesis unfolding no_free_square by auto
qed simp

theorem autoPlace_refuses_iff_witness:
  "valid_tiles [] \<and> fst (autoPlace []) \<noteq> None \<and>
   \<not> (\<forall>r :: rect. valid_rect r \<longrightarrow> (\<exists>t \<in> set []. overlaps (t :: tile) r))"
proof -
  have e: "fst (autoPlace []) \<noteq> None" by code_simp
  then show ?thesis using autoPlace_refuses_iff [OF valid_tiles_Nil] by auto
qed

end
