(* ===== verification/Grid_Remove.thy ===== *)
theory Grid_Remove
  imports Grid
begin

section \<open>Removing a tile\<close>

text \<open>
  \<open>remove\<close> of \<open>web/src/lib/grid.ts\<close>: the tile is dropped and the survivors grow into the
  rectangle it freed, one cell at a time, until none can. The loop is shown to terminate on every
  input, to keep the layout valid, to change survivors only by cells of the freed rectangle, and to
  stop only when no survivor can take another step.
\<close>

subsection \<open>The loop\<close>

definition contains :: "'a rect_scheme \<Rightarrow> 'b rect_scheme \<Rightarrow> bool" where
  "contains outer inner \<longleftrightarrow>
     gx inner \<ge> gx outer \<and> gy inner \<ge> gy outer \<and>
     gx inner + gw inner \<le> gx outer + gw outer \<and> gy inner + gh inner \<le> gy outer + gh outer"

text \<open>The four steps of a tile: the cells it would gain, and the rectangle it would have.\<close>

definition grow_steps :: "tile \<Rightarrow> (rect \<times> rect) list" where
  "grow_steps t =
     [(\<lparr>gx = gx t + gw t, gy = gy t, gw = 1, gh = gh t\<rparr>,
       \<lparr>gx = gx t, gy = gy t, gw = gw t + 1, gh = gh t\<rparr>),
      (\<lparr>gx = gx t, gy = gy t + gh t, gw = gw t, gh = 1\<rparr>,
       \<lparr>gx = gx t, gy = gy t, gw = gw t, gh = gh t + 1\<rparr>),
      (\<lparr>gx = gx t - 1, gy = gy t, gw = 1, gh = gh t\<rparr>,
       \<lparr>gx = gx t - 1, gy = gy t, gw = gw t + 1, gh = gh t\<rparr>),
      (\<lparr>gx = gx t, gy = gy t - 1, gw = gw t, gh = 1\<rparr>,
       \<lparr>gx = gx t, gy = gy t - 1, gw = gw t, gh = gh t + 1\<rparr>)]"

definition can_step :: "rect \<Rightarrow> tile list \<Rightarrow> nat \<Rightarrow> rect \<times> rect \<Rightarrow> bool" where
  "can_step freed kept i step \<longleftrightarrow> contains freed (fst step) \<and> fitsAt kept (snd step) (int i)"

definition try_grow :: "rect \<Rightarrow> tile list \<times> bool \<Rightarrow> nat \<Rightarrow> tile list \<times> bool" where
  "try_grow freed st i =
     (case st of (kept, growing) \<Rightarrow>
        (case find (can_step freed kept i) (grow_steps (kept ! i)) of
           None \<Rightarrow> (kept, growing)
         | Some step \<Rightarrow> (kept[i := with_rect (kept ! i) (snd step)], True)))"

definition grow_pass :: "rect \<Rightarrow> tile list \<Rightarrow> tile list \<times> bool" where
  "grow_pass freed kept = foldl (try_grow freed) (kept, False) [0..<length kept]"

text \<open>What is left for a tile to gain: the distances from its edges to those of the freed rect.\<close>

definition room :: "rect \<Rightarrow> tile \<Rightarrow> nat" where
  "room f t =
     nat (gx f + gw f - (gx t + gw t)) + nat (gy f + gh f - (gy t + gh t)) +
     nat (gx t - gx f) + nat (gy t - gy f)"

lemma can_step_room:
  assumes "step \<in> set (grow_steps t)" "contains f (fst step)"
  shows "room f (with_rect t (snd step)) < room f t"
  using assms by (auto simp: grow_steps_def contains_def room_def)

lemma sum_list_update_less:
  fixes f :: "'a \<Rightarrow> nat"
  assumes "i < length xs" "f y < f (xs ! i)"
  shows "sum_list (map f (xs[i := y])) < sum_list (map f xs)"
  using assms
proof (induction xs arbitrary: i)
  case Nil
  then show ?case by simp
next
  case (Cons x xs)
  then show ?case by (cases i) auto
qed

text \<open>
  A pass over the positions of an array whose steps either change nothing or set a flag and lower a
  measure. Both clients' growth loops are such passes, which is why they end.
\<close>

locale shrinking_pass =
  fixes step :: "'a list \<times> bool \<Rightarrow> nat \<Rightarrow> 'a list \<times> bool"
    and weight :: "'a list \<Rightarrow> nat"
  assumes step_shrinks: "i < length kept \<Longrightarrow> step (kept, g) i = (kept', g') \<Longrightarrow>
    length kept' = length kept \<and> (kept' = kept \<and> g' = g \<or> g' \<and> weight kept' < weight kept)"
begin

lemma fold_shrinks:
  assumes "\<forall>i \<in> set is. i < length kept" "foldl step (kept, g) is = (kept', g')"
  shows "length kept' = length kept \<and> (kept' = kept \<and> g' = g \<or> g' \<and> weight kept' < weight kept)"
  using assms
proof (induction "is" arbitrary: kept g)
  case Nil
  then show ?case by simp
next
  case (Cons i "is")
  obtain k1 g1 where s: "step (kept, g) i = (k1, g1)" by fastforce
  have one: "length k1 = length kept \<and> (k1 = kept \<and> g1 = g \<or> g1 \<and> weight k1 < weight kept)"
    using step_shrinks [OF _ s] Cons.prems by simp
  have "foldl step (k1, g1) is = (kept', g')" using Cons.prems s by simp
  then have "length kept' = length k1 \<and> (kept' = k1 \<and> g' = g1 \<or> g' \<and> weight kept' < weight k1)"
    using Cons.IH [of k1 g1] Cons.prems one by simp
  with one show ?case by auto
qed

lemma pass_shrinks:
  "foldl step (kept, False) [0..<length kept] = (kept', True) \<Longrightarrow> weight kept' < weight kept"
  using fold_shrinks [of "[0..<length kept]" kept False kept' True] by simp

end

lemma try_grow_room:
  assumes "i < length kept" "try_grow f (kept, g) i = (kept', g')"
  shows "length kept' = length kept \<and>
    (kept' = kept \<and> g' = g \<or>
     g' \<and> sum_list (map (room f) kept') < sum_list (map (room f) kept))"
proof (cases "find (can_step f kept i) (grow_steps (kept ! i))")
  case None
  with assms show ?thesis by (simp add: try_grow_def)
next
  case (Some step)
  then have "step \<in> set (grow_steps (kept ! i))" "contains f (fst step)"
    by (auto dest!: find_Some_in simp: can_step_def)
  then have "room f (with_rect (kept ! i) (snd step)) < room f (kept ! i)"
    by (rule can_step_room)
  with assms Some show ?thesis
    by (auto simp: try_grow_def intro!: sum_list_update_less)
qed

interpretation growth: shrinking_pass "try_grow f" "\<lambda>kept. sum_list (map (room f) kept)" for f
  by unfold_locales (rule try_grow_room)

lemma grow_pass_room:
  assumes "grow_pass f kept = (kept', True)"
  shows "sum_list (map (room f) kept') < sum_list (map (room f) kept)"
  using assms unfolding grow_pass_def by (rule growth.pass_shrinks)

function absorb :: "rect \<Rightarrow> tile list \<Rightarrow> tile list" where
  "absorb freed kept =
     (case grow_pass freed kept of (kept', growing) \<Rightarrow>
        if growing then absorb freed kept' else kept')"
  by pat_completeness auto
termination
  by (relation "measure (\<lambda>(freed, kept). sum_list (map (room freed) kept))")
    (auto dest: grow_pass_room [OF sym])

declare absorb.simps [simp del]

definition remove :: "tile list \<Rightarrow> string \<Rightarrow> tile list" where
  "remove tiles sid =
     (let original = sortTiles tiles in
      case find (\<lambda>t. session_id t = sid) original of
        None \<Rightarrow> original
      | Some dropped \<Rightarrow>
          sortTiles (absorb (rect_of dropped) (others_of sid original)))"

subsection \<open>Growth\<close>

definition grown_from :: "rect \<Rightarrow> tile \<Rightarrow> tile \<Rightarrow> bool" where
  "grown_from f t u \<longleftrightarrow>
     content u = content t \<and> cells t \<subseteq> cells u \<and> cells u \<subseteq> cells t \<union> cells f"

lemma grown_from_refl: "grown_from f t t"
  by (simp add: grown_from_def)

lemma grown_from_trans: "grown_from f t u \<Longrightarrow> grown_from f u v \<Longrightarrow> grown_from f t v"
  by (auto simp: grown_from_def)

lemma grown_all_trans:
  "list_all2 (grown_from f) as bs \<Longrightarrow> list_all2 (grown_from f) bs cs \<Longrightarrow>
   list_all2 (grown_from f) as cs"
  using list_all2_trans [of "grown_from f" "grown_from f" "grown_from f" as bs cs]
    grown_from_trans by blast

lemma contains_cells: "contains a b \<Longrightarrow> cells b \<subseteq> cells a"
  by (auto simp: contains_def cells_def)

lemma step_grows:
  assumes "step \<in> set (grow_steps t)" "contains f (fst step)"
  shows "grown_from f t (with_rect t (snd step))"
proof -
  have "cells t \<subseteq> cells (snd step) \<and> cells (snd step) \<subseteq> cells t \<union> cells (fst step)"
    using assms(1) by (auto simp: grow_steps_def cells_def)
  moreover have "cells (fst step) \<subseteq> cells f" using assms(2) by (rule contains_cells)
  moreover have "cells (with_rect t (snd step)) = cells (snd step)" by (simp add: cells_def)
  ultimately show ?thesis by (auto simp: grown_from_def)
qed

lemma step_valid:
  assumes "step \<in> set (grow_steps t)" "contains f (fst step)" "valid_rect t" "valid_rect f"
  shows "valid_rect (snd step)"
  using assms by (auto simp: grow_steps_def contains_def valid_rect_def)

lemma try_grow_valid:
  assumes "valid_tiles kept" "valid_rect f" "i < length kept"
    and "try_grow f (kept, g) i = (kept', g')"
  shows "valid_tiles kept' \<and> list_all2 (grown_from f) kept kept'"
proof (cases "find (can_step f kept i) (grow_steps (kept ! i))")
  case None
  with assms show ?thesis by (simp add: try_grow_def list_all2_conv_all_nth grown_from_refl)
next
  case (Some step)
  then have st: "step \<in> set (grow_steps (kept ! i))" "contains f (fst step)"
      "fitsAt kept (snd step) (int i)"
    by (auto dest!: find_Some_in simp: can_step_def)
  have "valid_rect (snd step)"
    using step_valid [OF st(1,2) _ assms(2)] assms(1,3) by (simp add: valid_tilesD)
  then have "valid_tiles (kept[i := with_rect (kept ! i) (snd step)])"
    using st(3) by (intro valid_tiles_update [OF assms(1,3)]) (auto simp: fitsAt_skip)
  moreover have "list_all2 (grown_from f) kept (kept[i := with_rect (kept ! i) (snd step)])"
    using step_grows [OF st(1,2)]
    by (auto simp: list_all2_conv_all_nth nth_list_update [OF assms(3)] grown_from_refl)
  ultimately show ?thesis using assms(4) Some by (auto simp: try_grow_def)
qed

lemma grow_fold_valid:
  assumes "valid_tiles kept" "valid_rect f" "\<forall>i \<in> set is. i < length kept"
    and "foldl (try_grow f) (kept, g) is = (kept', g')"
  shows "valid_tiles kept' \<and> list_all2 (grown_from f) kept kept'"
  using assms
proof (induction "is" arbitrary: kept g)
  case Nil
  then show ?case by (simp add: list_all2_conv_all_nth grown_from_refl)
next
  case (Cons i "is")
  obtain k1 g1 where s: "try_grow f (kept, g) i = (k1, g1)" by fastforce
  have one: "valid_tiles k1" "list_all2 (grown_from f) kept k1"
    using try_grow_valid [OF Cons.prems(1,2) _ s] Cons.prems(3) by auto
  then have "length k1 = length kept" by (simp add: list_all2_lengthD)
  then have "valid_tiles kept' \<and> list_all2 (grown_from f) k1 kept'"
    using Cons.IH [of k1 g1] Cons.prems one s by simp
  with one(2) show ?case by (blast intro: grown_all_trans)
qed

text \<open>A pass without growth changed nothing and no tile had a step left.\<close>

lemma grow_fold_stuck:
  assumes "foldl (try_grow f) (kept, False) is = (kept', False)" "\<forall>i \<in> set is. i < length kept"
  shows "kept' = kept \<and> (\<forall>i \<in> set is. \<forall>step \<in> set (grow_steps (kept ! i)). \<not> can_step f kept i step)"
  using assms
proof (induction "is")
  case Nil
  then show ?case by simp
next
  case (Cons i "is")
  show ?case
  proof (cases "find (can_step f kept i) (grow_steps (kept ! i))")
    case None
    then have "try_grow f (kept, False) i = (kept, False)" by (simp add: try_grow_def)
    with None Cons show ?thesis by (simp add: find_None_all)
  next
    case (Some step)
    then obtain k1 where k1: "try_grow f (kept, False) i = (k1, True)"
      by (simp add: try_grow_def)
    then have "length k1 = length kept"
      using try_grow_room [of i kept f False k1 True] Cons.prems(2) by simp
    moreover have "foldl (try_grow f) (k1, True) is = (kept', False)" using Cons.prems k1 by simp
    ultimately show ?thesis
      using growth.fold_shrinks [of "is" k1 f True kept' False] Cons.prems(2) by simp
  qed
qed

lemma absorb_spec:
  assumes "valid_tiles kept" "valid_rect f"
  shows "valid_tiles (absorb f kept) \<and> list_all2 (grown_from f) kept (absorb f kept) \<and>
    (\<forall>i < length (absorb f kept). \<forall>step \<in> set (grow_steps (absorb f kept ! i)).
       \<not> can_step f (absorb f kept) i step)"
  using assms
proof (induction f kept rule: absorb.induct)
  case (1 f kept)
  obtain k g where p: "grow_pass f kept = (k, g)" by fastforce
  have one: "valid_tiles k" "list_all2 (grown_from f) kept k"
    using grow_fold_valid [OF "1.prems", of "[0..<length kept]" False k g] p
    by (auto simp: grow_pass_def)
  show ?case
  proof (cases g)
    case True
    with p have "absorb f kept = absorb f k" by (simp add: absorb.simps [of f kept])
    moreover have "valid_tiles (absorb f k) \<and> list_all2 (grown_from f) k (absorb f k) \<and>
        (\<forall>i < length (absorb f k). \<forall>step \<in> set (grow_steps (absorb f k ! i)).
           \<not> can_step f (absorb f k) i step)"
      using "1.IH" [OF p [symmetric]] True one(1) "1.prems"(2) by simp
    ultimately show ?thesis
      using grown_all_trans [OF one(2), of "absorb f k"] by simp
  next
    case False
    with p have "absorb f kept = k" by (simp add: absorb.simps [of f kept])
    with one False p grow_fold_stuck [of f kept "[0..<length kept]" k] show ?thesis
      by (simp add: grow_pass_def)
  qed
qed

lemma remove_unknown: "sid \<notin> session_id ` set ts \<Longrightarrow> remove ts sid = sortTiles ts"
  using find_tile_None [of sid "sortTiles ts"] by (simp add: remove_def)

lemma remove_known:
  assumes "valid_tiles ts" "t \<in> set ts"
  shows "remove ts (session_id t) =
    sortTiles (absorb (rect_of t) (others_of (session_id t) (sortTiles ts)))"
  using find_tile [of "sortTiles ts" "session_id t" t] assms by (simp add: remove_def)

text \<open>The survivors, position by position, before the final sort.\<close>

lemma remove_survivors:
  assumes "valid_tiles ts" "t \<in> set ts"
  obtains us where "mset us = mset (remove ts (session_id t))" "valid_tiles us"
    "list_all2 (grown_from (rect_of t)) (others_of (session_id t) (sortTiles ts)) us"
    "\<forall>i < length us. \<forall>step \<in> set (grow_steps (us ! i)). \<not> can_step (rect_of t) us i step"
proof -
  have "valid_tiles (others_of (session_id t) (sortTiles ts))" "valid_rect (rect_of t)"
    using assms by (simp_all add: valid_tilesD)
  from absorb_spec [OF this] show ?thesis
    using that [of "absorb (rect_of t) (others_of (session_id t) (sortTiles ts))"]
      remove_known [OF assms] by simp
qed

lemma grown_content: "list_all2 (grown_from f) ts us \<Longrightarrow> map content us = map content ts"
  by (induction rule: list_all2_induct) (simp_all add: grown_from_def)

lemma remove_valid_content:
  assumes "valid_tiles ts"
  shows "valid_tiles (remove ts sid) \<and>
    mset (map content (remove ts sid)) = mset (map content (others_of sid ts))"
proof (cases "sid \<in> session_id ` set ts")
  case False
  then have "others_of sid ts = ts" by (auto simp: others_of_def filter_id_conv)
  with False assms show ?thesis by (simp add: remove_unknown)
next
  case True
  then obtain t where t: "t \<in> set ts" "sid = session_id t" by blast
  from remove_survivors [OF assms t(1)] obtain us where
      us: "mset us = mset (remove ts sid)" "valid_tiles us"
      "list_all2 (grown_from (rect_of t)) (others_of sid (sortTiles ts)) us"
    using t(2) by metis
  have "map content us = map content (others_of sid (sortTiles ts))"
    using grown_content [OF us(3)] .
  moreover have "mset (others_of sid (sortTiles ts)) = mset (others_of sid ts)"
    by (simp add: others_of_def)
  ultimately have "mset (map content us) = mset (map content (others_of sid ts))" by simp
  then show ?thesis using us(1,2) valid_tiles_mset [OF us(1)] by simp
qed

text \<open>
  \<open>remove\<close> on a valid layout drops exactly the named tile and returns a valid layout: the
  other sessions and widgets are all kept, every survivor still covers the cells it covered, and any
  cell it gained belonged to the removed tile.
\<close>

theorem remove_valid:
  assumes "valid_tiles ts" "t \<in> set ts"
  shows "valid_tiles (remove ts (session_id t)) \<and>
    mset (map content (remove ts (session_id t))) =
      mset (map content (others_of (session_id t) ts)) \<and>
    (\<forall>u \<in> set ts - {t}. \<exists>v \<in> set (remove ts (session_id t)).
       content v = content u \<and> cells u \<subseteq> cells v \<and> cells v \<subseteq> cells u \<union> cells t)"
proof -
  obtain us where us: "mset us = mset (remove ts (session_id t))"
      "list_all2 (grown_from (rect_of t)) (others_of (session_id t) (sortTiles ts)) us"
    using remove_survivors [OF assms] by metis
  have so: "set (others_of (session_id t) (sortTiles ts)) = set ts - {t}"
    using set_others_of [of "sortTiles ts" t] valid_tilesD(2) [OF assms(1)] assms(2) by simp
  have "\<exists>v \<in> set (remove ts (session_id t)). grown_from (rect_of t) u v" if "u \<in> set ts - {t}" for u
    using us(2) that unfolding so [symmetric] mset_eq_setD [OF us(1), symmetric]
    by (metis in_set_conv_nth list_all2_conv_all_nth nth_mem)
  moreover have "cells (rect_of t) = cells t" by (simp add: cells_def)
  ultimately show ?thesis
    using remove_valid_content [OF assms(1)] by (fastforce simp: grown_from_def)
qed

text \<open>
  \<open>remove\<close> stops only when the freed rectangle is used up as far as the survivors can: no
  survivor has a step to the right, down, left or up whose gained cells lie inside the freed
  rectangle and whose grown rectangle overlaps no other survivor.
\<close>

theorem remove_maximal:
  assumes "valid_tiles ts" "t \<in> set ts" "v \<in> set (remove ts (session_id t))"
    and "(gained, grown) \<in> set (grow_steps v)" "contains t gained"
  shows "\<exists>u \<in> set (remove ts (session_id t)). u \<noteq> v \<and> overlaps u grown"
proof -
  obtain us where us: "mset us = mset (remove ts (session_id t))" "valid_tiles us"
      "\<forall>i < length us. \<forall>step \<in> set (grow_steps (us ! i)). \<not> can_step (rect_of t) us i step"
    using remove_survivors [OF assms(1,2)] by metis
  have seteq: "set us = set (remove ts (session_id t))" using us(1) by (rule mset_eq_setD)
  with assms(3) obtain i where i: "i < length us" "v = us ! i" by (metis in_set_conv_nth)
  have "\<not> can_step (rect_of t) us i (gained, grown)" using us(3) i assms(4) by blast
  moreover have "contains (rect_of t) gained" using assms(5) by (simp add: contains_def)
  ultimately obtain j where j: "j < length us" "j \<noteq> i" "overlaps (us ! j) grown"
    by (auto simp: can_step_def fitsAt_skip)
  then have "us ! j \<noteq> us ! i"
    using valid_tiles_nth(2) [OF us(2) j(1) i(1) j(2)] by auto
  with j seteq i show ?thesis by (metis nth_mem)
qed

text \<open>Three columns, the middle one of which the witnesses remove.\<close>

definition three_columns :: "tile list" where
  "three_columns =
     [tile_at ''a'' \<lparr>gx = 0, gy = 0, gw = 8, gh = 24\<rparr>,
      tile_at ''b'' \<lparr>gx = 8, gy = 0, gw = 8, gh = 24\<rparr>,
      tile_at ''c'' \<lparr>gx = 16, gy = 0, gw = 8, gh = 24\<rparr>]"

lemma valid_three_columns: "valid_tiles three_columns"
  by (simp add: three_columns_def valid_tiles_Cons valid_rect_def overlaps_def)

lemma remove_three_columns:
  "remove three_columns ''b'' =
     [tile_at ''a'' \<lparr>gx = 0, gy = 0, gw = 12, gh = 24\<rparr>,
      tile_at ''c'' \<lparr>gx = 12, gy = 0, gw = 12, gh = 24\<rparr>]"
  by code_simp

theorem remove_valid_witness:
  "valid_tiles (remove three_columns ''b'') \<and>
   mset (map content (remove three_columns ''b'')) = {#(''a'', None), (''c'', None)#}"
  using remove_valid [OF valid_three_columns, of "tile_at ''b'' \<lparr>gx = 8, gy = 0, gw = 8, gh = 24\<rparr>"]
  by (simp add: three_columns_def others_of_def content_def)

theorem remove_maximal_witness:
  "\<exists>u \<in> set (remove three_columns ''b'').
     u \<noteq> tile_at ''a'' \<lparr>gx = 0, gy = 0, gw = 12, gh = 24\<rparr> \<and>
     overlaps u \<lparr>gx = 0, gy = 0, gw = 13, gh = 24\<rparr>"
proof -
  let ?a = "tile_at ''a'' \<lparr>gx = 0, gy = 0, gw = 12, gh = 24\<rparr>"
  let ?b = "tile_at ''b'' \<lparr>gx = 8, gy = 0, gw = 8, gh = 24\<rparr>"
  have "?b \<in> set three_columns" by (simp add: three_columns_def)
  moreover have "?a \<in> set (remove three_columns (session_id ?b))"
    by (simp add: remove_three_columns)
  moreover have "(\<lparr>gx = 12, gy = 0, gw = 1, gh = 24\<rparr>, \<lparr>gx = 0, gy = 0, gw = 13, gh = 24\<rparr>)
      \<in> set (grow_steps ?a)"
    by (simp add: grow_steps_def)
  moreover have "contains ?b \<lparr>gx = 12, gy = 0, gw = 1, gh = 24\<rparr>" by (simp add: contains_def)
  ultimately show ?thesis using remove_maximal [OF valid_three_columns, of ?b ?a] by simp
qed

end
