(* ===== verification/Tabs.thy ===== *)
theory Tabs
  imports Grid_Place Grid_Remove
begin

section \<open>The tab envelope\<close>

text \<open>
  \<open>web/src/lib/tabs.ts\<close>: a workspace is an ordered list of named tabs, each holding one tile
  grid. \<open>valid_envelope\<close> states the invariants of the wire format on the structure (one to eight
  tabs, unique tab ids, every grid valid, an active tab that exists, a session in exactly one tab); the limits on ids,
  names and working directories are \<open>tab_fields_ok\<close> of theory Layout_V3, and theory Workspace joins both;
  every operation of the file keeps them, and the operations that move windows between tabs neither
  lose nor duplicate one.
\<close>

subsection \<open>Data\<close>

record grid_layout =
  gl_version :: int
  gl_tiles :: "tile list"

record workspace_tab =
  tab_id :: string
  tab_name :: string
  tab_host_id :: "string option"
  tab_cwd :: "string option"
  tab_layout :: grid_layout

record layout_v3 =
  lv_version :: int
  active_tab :: "string option"
  tabs :: "workspace_tab list"

definition MAX_TABS :: nat where
  [simp]: "MAX_TABS = 8"

abbreviation tiles_of :: "workspace_tab \<Rightarrow> tile list" where
  "tiles_of tab \<equiv> gl_tiles (tab_layout tab)"

subsection \<open>Operations\<close>

definition tabById :: "layout_v3 \<Rightarrow> string \<Rightarrow> workspace_tab option" where
  "tabById layout tabId = find (\<lambda>tab. tab_id tab = tabId) (tabs layout)"

text \<open>\<open>tabs[0]\<close> of an empty envelope is \<open>undefined\<close>, here \<open>None\<close>.\<close>

definition activeTab :: "layout_v3 \<Rightarrow> workspace_tab option" where
  "activeTab layout =
     (case find (\<lambda>tab. Some (tab_id tab) = active_tab layout) (tabs layout) of
        Some tab \<Rightarrow> Some tab
      | None \<Rightarrow> (case tabs layout of [] \<Rightarrow> None | tab # _ \<Rightarrow> Some tab))"

definition tabTiles :: "layout_v3 \<Rightarrow> string \<Rightarrow> tile list" where
  "tabTiles layout tabId = (case tabById layout tabId of None \<Rightarrow> [] | Some tab \<Rightarrow> tiles_of tab)"

definition allTiles :: "layout_v3 \<Rightarrow> tile list" where
  "allTiles layout = concat (map tiles_of (tabs layout))"

definition allSessionIds :: "layout_v3 \<Rightarrow> string list" where
  "allSessionIds layout = concat (map (\<lambda>tab. readingOrder (tiles_of tab)) (tabs layout))"

definition tabOfSession :: "layout_v3 \<Rightarrow> string \<Rightarrow> workspace_tab option" where
  "tabOfSession layout sid =
     find (\<lambda>tab. \<exists>t \<in> set (tiles_of tab). session_id t = sid) (tabs layout)"

definition set_tiles :: "tile list \<Rightarrow> workspace_tab \<Rightarrow> workspace_tab" where
  "set_tiles ts tab = tab\<lparr>tab_layout := \<lparr>gl_version = 3, gl_tiles = ts\<rparr>\<rparr>"

definition withTabTiles :: "layout_v3 \<Rightarrow> string \<Rightarrow> tile list \<Rightarrow> layout_v3" where
  "withTabTiles layout tabId ts =
     layout\<lparr>tabs := map (\<lambda>tab. if tab_id tab = tabId then set_tiles ts tab else tab) (tabs layout)\<rparr>"

definition withActiveTab :: "layout_v3 \<Rightarrow> string \<Rightarrow> layout_v3" where
  "withActiveTab layout tabId =
     (if tabById layout tabId \<noteq> None then layout\<lparr>active_tab := Some tabId\<rparr> else layout)"

definition nextTabName :: "layout_v3 \<Rightarrow> string" where
  "nextTabName layout =
     numbered ''Tab'' (first_free ''Tab'' (map tab_name (tabs layout)) (length (tabs layout) + 1))"

definition addTab :: "layout_v3 \<Rightarrow> string \<Rightarrow> string \<Rightarrow> layout_v3 option" where
  "addTab layout i name =
     (if length (tabs layout) \<ge> MAX_TABS \<or> tabById layout i \<noteq> None then None
      else Some \<lparr>lv_version = 3, active_tab = Some i,
        tabs = tabs layout @
          [\<lparr>tab_id = i, tab_name = name, tab_host_id = None, tab_cwd = None,
            tab_layout = \<lparr>gl_version = 3, gl_tiles = []\<rparr>\<rparr>]\<rparr>)"

definition copyTabName :: "layout_v3 \<Rightarrow> string \<Rightarrow> string" where
  "copyTabName layout name =
     (let taken = map tab_name (tabs layout); base = name @ '' copy'' in
      if base \<notin> set taken then base else numbered base (first_free base taken 2))"

definition copy_tile :: "(string \<rightharpoonup> string) \<Rightarrow> tile \<Rightarrow> tile list" where
  "copy_tile sessionIds t =
     (if widget t \<noteq> None \<and> \<not> isFilesWidget (widget t) then []
      else case sessionIds (session_id t) of
        None \<Rightarrow> []
      | Some copyId \<Rightarrow> if copyId = [] then [] else [t\<lparr>session_id := copyId\<rparr>])"

definition copy_tiles :: "(string \<rightharpoonup> string) \<Rightarrow> tile list \<Rightarrow> tile list" where
  "copy_tiles sessionIds ts = concat (map (copy_tile sessionIds) ts)"

definition duplicateTab ::
  "layout_v3 \<Rightarrow> string \<Rightarrow> string \<Rightarrow> string \<Rightarrow> (string \<rightharpoonup> string) \<Rightarrow> int option \<Rightarrow> layout_v3 option" where
  "duplicateTab layout tabId i name sessionIds atIndex =
     (if length (tabs layout) \<ge> MAX_TABS \<or> tabById layout i \<noteq> None then None
      else case tabById layout tabId of
        None \<Rightarrow> None
      | Some source \<Rightarrow>
          let ts = copy_tiles sessionIds (tiles_of source);
              len = int (length (tabs layout));
              slot = (case atIndex of None \<Rightarrow> len | Some k \<Rightarrow> min (max k 0) len);
              copy = \<lparr>tab_id = i, tab_name = name, tab_host_id = tab_host_id source,
                       tab_cwd = tab_cwd source,
                       tab_layout = \<lparr>gl_version = 3, gl_tiles = ts\<rparr>\<rparr>
          in Some \<lparr>lv_version = 3, active_tab = Some i,
                   tabs = insert_at (nat slot) copy (tabs layout)\<rparr>)"

definition removeTab :: "layout_v3 \<Rightarrow> string \<Rightarrow> layout_v3 option" where
  "removeTab layout tabId =
     (case find_index (\<lambda>tab. tab_id tab = tabId) (tabs layout) of
        None \<Rightarrow> None
      | Some index \<Rightarrow>
          if length (tabs layout) \<le> 1 then None
          else
            let rest = filter (\<lambda>tab. tab_id tab \<noteq> tabId) (tabs layout);
                active =
                  (if active_tab layout = Some tabId
                   then (if index - 1 < length rest then Some (tab_id (rest ! (index - 1))) else None)
                   else active_tab layout)
            in Some \<lparr>lv_version = 3, active_tab = active, tabs = rest\<rparr>)"

definition renameTab :: "layout_v3 \<Rightarrow> string \<Rightarrow> string \<Rightarrow> layout_v3" where
  "renameTab layout tabId name =
     layout\<lparr>tabs := map (\<lambda>tab. if tab_id tab = tabId then tab\<lparr>tab_name := name\<rparr> else tab)
       (tabs layout)\<rparr>"

definition reorderTab :: "layout_v3 \<Rightarrow> string \<Rightarrow> int \<Rightarrow> layout_v3 option" where
  "reorderTab layout tabId toIndex =
     (case find_index (\<lambda>tab. tab_id tab = tabId) (tabs layout) of
        None \<Rightarrow> None
      | Some from \<Rightarrow>
          let to = nat (min (max toIndex 0) (int (length (tabs layout)) - 1)) in
          if to = from then None
          else Some (layout\<lparr>tabs :=
            insert_at to (tabs layout ! from) (remove_at from (tabs layout))\<rparr>))"

definition moveSessionToTab :: "layout_v3 \<Rightarrow> string \<Rightarrow> string \<Rightarrow> layout_v3 option" where
  "moveSessionToTab layout sid targetTabId =
     (case (tabOfSession layout sid, tabById layout targetTabId) of
        (Some source, Some target) \<Rightarrow>
          if tab_id source = tab_id target then None
          else (case find (\<lambda>t. session_id t = sid) (tiles_of source) of
            None \<Rightarrow> None
          | Some t \<Rightarrow>
              (case autoPlace (tiles_of target) of
                 (None, _) \<Rightarrow> None
               | (Some spot, placed) \<Rightarrow>
                   let moved = with_rect t spot;
                       without = remove (tiles_of source) sid
                   in Some (withTabTiles (withTabTiles layout (tab_id source) without)
                        (tab_id target) (placed @ [moved]))))
      | _ \<Rightarrow> None)"

definition foldTabInto :: "layout_v3 \<Rightarrow> string \<Rightarrow> string \<Rightarrow> tile list \<Rightarrow> layout_v3 option" where
  "foldTabInto layout sourceTabId targetTabId ts =
     (if tabById layout targetTabId = None then None
      else case removeTab (withTabTiles layout targetTabId ts) sourceTabId of
        None \<Rightarrow> None
      | Some nxt \<Rightarrow> Some (withActiveTab nxt targetTabId))"

text \<open>The loop of \<open>mergeTabs\<close> over the source's sessions in reading order.\<close>

fun merge_loop :: "tile list \<Rightarrow> string list \<Rightarrow> tile list \<Rightarrow> tile list option" where
  "merge_loop source [] tiles = Some tiles"
| "merge_loop source (sid # ids) tiles =
     (case find (\<lambda>t. session_id t = sid) source of
        None \<Rightarrow> merge_loop source ids tiles
      | Some t \<Rightarrow>
          (case autoPlace tiles of
             (None, _) \<Rightarrow> None
           | (Some spot, placed) \<Rightarrow> merge_loop source ids (placed @ [with_rect t spot])))"

definition mergeTabs :: "layout_v3 \<Rightarrow> string \<Rightarrow> string \<Rightarrow> layout_v3 option" where
  "mergeTabs layout sourceTabId targetTabId =
     (case (tabById layout sourceTabId, tabById layout targetTabId) of
        (Some source, Some target) \<Rightarrow>
          if tab_id source = tab_id target then None
          else (case merge_loop (tiles_of source) (readingOrder (tiles_of source))
                       (tiles_of target) of
            None \<Rightarrow> None
          | Some ts \<Rightarrow> foldTabInto layout sourceTabId targetTabId ts)
      | _ \<Rightarrow> None)"

subsection \<open>The envelope invariant\<close>

definition valid_envelope :: "layout_v3 \<Rightarrow> bool" where
  "valid_envelope L \<longleftrightarrow>
     1 \<le> length (tabs L) \<and> length (tabs L) \<le> MAX_TABS \<and>
     distinct (map tab_id (tabs L)) \<and>
     (\<forall>tab \<in> set (tabs L). valid_tiles (tiles_of tab)) \<and>
     distinct (map session_id (allTiles L)) \<and>
     (\<forall>a. active_tab L = Some a \<longrightarrow> a \<in> tab_id ` set (tabs L))"

text \<open>Every session and widget of a workspace, wherever its tile is.\<close>

definition windows :: "layout_v3 \<Rightarrow> (string \<times> tile_widget option) multiset" where
  "windows L = mset (map content (allTiles L))"

lemma valid_envelopeD:
  assumes "valid_envelope L"
  shows "tabs L \<noteq> []" "length (tabs L) \<le> 8" "distinct (map tab_id (tabs L))"
    "tab \<in> set (tabs L) \<Longrightarrow> valid_tiles (tiles_of tab)"
    "distinct (map session_id (allTiles L))"
    "active_tab L = Some a \<Longrightarrow> a \<in> tab_id ` set (tabs L)"
  using assms by (auto simp: valid_envelope_def)

lemma set_tiles_simps [simp]:
  "tab_id (set_tiles ts tab) = tab_id tab" "tab_name (set_tiles ts tab) = tab_name tab"
  "tiles_of (set_tiles ts tab) = ts" "tab_host_id (set_tiles ts tab) = tab_host_id tab"
  "tab_cwd (set_tiles ts tab) = tab_cwd tab"
  by (simp_all add: set_tiles_def)

lemma tabById_Some:
  assumes "distinct (map tab_id (tabs L))"
  shows "tabById L i = Some tab \<longleftrightarrow> tab \<in> set (tabs L) \<and> tab_id tab = i"
  using find_key_Some_iff [OF assms] by (simp add: tabById_def)

lemma tabById_None: "tabById L i = None \<longleftrightarrow> i \<notin> tab_id ` set (tabs L)"
  by (auto simp: tabById_def find_None_all)

lemma tabById_mem: "valid_envelope L \<Longrightarrow> tab \<in> set (tabs L) \<Longrightarrow> tabById L (tab_id tab) = Some tab"
  using tabById_Some [OF valid_envelopeD(3)] by blast

text \<open>Replacing the tiles of one tab, seen at its place in the strip.\<close>

lemma tabs_withTabTiles [simp]:
  "map tab_id (tabs (withTabTiles L i ts)) = map tab_id (tabs L)"
  "map tab_name (tabs (withTabTiles L i ts)) = map tab_name (tabs L)"
  "length (tabs (withTabTiles L i ts)) = length (tabs L)"
  "active_tab (withTabTiles L i ts) = active_tab L"
  by (simp_all add: withTabTiles_def)

lemma tab_ids_withTabTiles [simp]:
  "tab_id ` set (tabs (withTabTiles L i ts)) = tab_id ` set (tabs L)"
  by (metis set_map tabs_withTabTiles(1))

lemma set_withTabTiles:
  "tab \<in> set (tabs (withTabTiles L i ts)) \<longleftrightarrow>
     (\<exists>u \<in> set (tabs L). tab = (if tab_id u = i then set_tiles ts u else u))"
proof -
  have "tabs (withTabTiles L i ts) = map (\<lambda>u. if tab_id u = i then set_tiles ts u else u) (tabs L)"
    by (simp add: withTabTiles_def)
  then show ?thesis by (simp only: set_map image_iff)
qed

lemma map_other_ids:
  "i \<notin> tab_id ` set us \<Longrightarrow> map (\<lambda>t. if tab_id t = i then f t else t) us = us"
  by (induction us) auto

lemma withTabTiles_split:
  assumes "tabs L = xs @ tab # ys" "distinct (map tab_id (tabs L))"
  shows "tabs (withTabTiles L (tab_id tab) ts) = xs @ set_tiles ts tab # ys"
proof -
  have "tab_id tab \<notin> tab_id ` set xs" "tab_id tab \<notin> tab_id ` set ys"
    using assms by auto
  then show ?thesis using assms(1) by (simp add: withTabTiles_def map_other_ids)
qed

lemma windows_withTabTiles:
  assumes "tab \<in> set (tabs L)" "distinct (map tab_id (tabs L))"
  shows "windows (withTabTiles L (tab_id tab) ts) + mset (map content (tiles_of tab)) =
    windows L + mset (map content ts)"
proof -
  obtain xs ys where s: "tabs L = xs @ tab # ys" using assms(1) by (meson split_list)
  then show ?thesis
    using withTabTiles_split [OF s assms(2)] by (simp add: windows_def allTiles_def)
qed

lemma distinct_windows:
  assumes "windows L = windows M"
  shows "distinct (map session_id (allTiles L)) = distinct (map session_id (allTiles M))"
proof -
  have "mset (map session_id (allTiles L)) = mset (map session_id (allTiles M))"
    by (rule content_ids) (use assms in \<open>simp add: windows_def\<close>)
  then show ?thesis by (rule mset_eq_imp_distinct_iff)
qed

text \<open>Two tabs of an envelope share no session.\<close>

lemma tabs_disjoint:
  assumes "valid_envelope L" "s \<in> set (tabs L)" "t \<in> set (tabs L)" "tab_id s \<noteq> tab_id t"
  shows "session_id ` set (tiles_of s) \<inter> session_id ` set (tiles_of t) = {}"
proof -
  obtain xs ys where x: "tabs L = xs @ s # ys" using assms(2) by (meson split_list)
  with assms(3,4) have t: "set (tiles_of t) \<subseteq> set (concat (map tiles_of (xs @ ys)))" by auto
  have "session_id ` set (tiles_of s) \<inter> session_id ` set (concat (map tiles_of (xs @ ys))) = {}"
    using valid_envelopeD(5) [OF assms(1)] x by (simp add: allTiles_def image_Un) blast
  with t show ?thesis by blast
qed

text \<open>The part of the invariant that does not look across tabs.\<close>

definition envelope_shape :: "layout_v3 \<Rightarrow> bool" where
  "envelope_shape L \<longleftrightarrow>
     1 \<le> length (tabs L) \<and> length (tabs L) \<le> MAX_TABS \<and>
     distinct (map tab_id (tabs L)) \<and>
     (\<forall>tab \<in> set (tabs L). valid_tiles (tiles_of tab)) \<and>
     (\<forall>a. active_tab L = Some a \<longrightarrow> a \<in> tab_id ` set (tabs L))"

lemma valid_envelope_shape:
  "valid_envelope L \<longleftrightarrow> envelope_shape L \<and> distinct (map session_id (allTiles L))"
  by (auto simp: valid_envelope_def envelope_shape_def)

lemma shape_withTabTiles:
  "envelope_shape L \<Longrightarrow> valid_tiles ts \<Longrightarrow> envelope_shape (withTabTiles L i ts)"
  by (auto simp: envelope_shape_def set_withTabTiles simp del: One_nat_def)

lemma shape_drop_tab:
  assumes "envelope_shape K" "tabs K = xs @ s # ys" "tabs M = xs @ ys"
    and "active_tab M = Some a" "a \<in> tab_id ` set (xs @ ys)"
  shows "envelope_shape M"
proof -
  have "1 \<le> length (xs @ ys)" using assms(5) by (cases "xs @ ys") auto
  then show ?thesis using assms by (simp add: envelope_shape_def del: One_nat_def)
qed

lemma sessions_windows: "mset (map session_id (allTiles L)) = image_mset fst (windows L)"
  by (simp add: windows_def content_def image_mset.compositionality comp_def)

lemma distinct_add_window:
  assumes "windows M = add_mset c (windows L)" "distinct (map session_id (allTiles L))"
    and "fst c \<notin> session_id ` set (allTiles L)"
  shows "distinct (map session_id (allTiles M))"
proof -
  have "mset (map session_id (allTiles M)) = mset (fst c # map session_id (allTiles L))"
    using assms(1) sessions_windows [of L] sessions_windows [of M] by simp
  from mset_eq_imp_distinct_iff [OF this] show ?thesis using assms(2,3) by simp
qed

lemma distinct_drop_windows:
  assumes "windows L = mset (map content ts) + windows M" "distinct (map session_id (allTiles L))"
  shows "distinct (map session_id (allTiles M))"
proof -
  have "mset (map session_id (allTiles L)) = mset (map fst (map content ts) @ map session_id (allTiles M))"
    using assms(1) sessions_windows [of L] sessions_windows [of M] by (simp add: multiset.map_comp)
  from mset_eq_imp_distinct_iff [OF this] show ?thesis using assms(2) by simp
qed

text \<open>Another list with the same tabs in another order, and a chosen active tab.\<close>

lemma valid_envelope_mset:
  assumes "valid_envelope L" "mset (tabs M) = mset (tabs L)"
    and "\<And>a. active_tab M = Some a \<Longrightarrow> a \<in> tab_id ` set (tabs L)"
  shows "valid_envelope M" "windows M = windows L"
proof -
  have cm: "mset (concat (map tiles_of us)) = \<Sum>\<^sub># (image_mset (mset \<circ> tiles_of) (mset us))"
    for us by (induction us) auto
  have m: "mset (allTiles M) = mset (allTiles L)"
    unfolding allTiles_def cm by (simp add: assms(2))
  then show "windows M = windows L" by (simp add: windows_def)
  have "length (tabs M) = length (tabs L)" "set (tabs M) = set (tabs L)"
    using assms(2) by (metis size_mset) (metis assms(2) set_mset_mset)
  then show "valid_envelope M"
    using assms(1,3) distinct_map_mset [OF assms(2), of tab_id] distinct_map_mset [OF m, of session_id]
    by (simp add: valid_envelope_def)
qed

subsection \<open>Adding, dropping, renaming and reordering tabs\<close>

lemma allTiles_simps:
  "allTiles \<lparr>lv_version = v, active_tab = a, tabs = us\<rparr> = concat (map tiles_of us)"
  by (simp add: allTiles_def)

lemma addTab_valid:
  assumes "valid_envelope L" "addTab L i name = Some M"
  shows "valid_envelope M" "windows M = windows L"
proof -
  have "length (tabs L) < 8" "i \<notin> tab_id ` set (tabs L)"
    and M: "M = \<lparr>lv_version = 3, active_tab = Some i, tabs = tabs L @
          [\<lparr>tab_id = i, tab_name = name, tab_host_id = None, tab_cwd = None,
            tab_layout = \<lparr>gl_version = 3, gl_tiles = []\<rparr>\<rparr>]\<rparr>"
    using assms(2) by (auto simp: addTab_def tabById_None split: if_splits)
  then show "valid_envelope M"
    using assms(1) by (auto simp: valid_envelope_def allTiles_def valid_tiles_def disjoint_tiles_def)
  show "windows M = windows L" by (simp add: M windows_def allTiles_def)
qed

lemma concat_remove_key:
  assumes "distinct (map k us)" "u \<in> set us"
  shows "mset (concat (map f us)) = mset (f u) + mset (concat (map f (filter (\<lambda>x. k x \<noteq> k u) us)))"
  using assms
proof (induction us)
  case (Cons a us)
  show ?case
  proof (cases "a = u")
    case True
    then have "filter (\<lambda>x. k x \<noteq> k u) us = us" using Cons.prems by (auto simp: filter_id_conv) (metis image_eqI)
    with True show ?thesis by simp
  next
    case False
    then have "k a \<noteq> k u" using Cons.prems by force
    with False Cons show ?thesis by simp
  qed
qed simp

lemma removeTab_Some:
  assumes "removeTab L i = Some M"
  shows "i \<in> tab_id ` set (tabs L)" "1 < length (tabs L)"
    "tabs M = filter (\<lambda>tab. tab_id tab \<noteq> i) (tabs L)"
  using assms
  by (auto simp: removeTab_def Let_def find_index_None split: option.splits if_splits
      dest!: find_index_Some)

lemma removeTab_windows:
  assumes "distinct (map tab_id (tabs L))" "tab \<in> set (tabs L)" "removeTab L (tab_id tab) = Some M"
  shows "windows L = mset (map content (tiles_of tab)) + windows M"
  using arg_cong [OF concat_remove_key [OF assms(1,2), of tiles_of], of "image_mset content"]
    removeTab_Some(3) [OF assms(3)]
  by (simp add: windows_def allTiles_def)

text \<open>What \<open>removeTab\<close> leaves, seen at the place of the tab in the strip.\<close>

lemma find_index_split:
  assumes "\<forall>x \<in> set xs. \<not> p x" "p y"
  shows "find_index p (xs @ y # ys) = Some (length xs)"
  using assms by (induction xs) auto

lemma filter_split_key:
  assumes "distinct (map k (xs @ y # ys))"
  shows "filter (\<lambda>x. k x \<noteq> k y) (xs @ y # ys) = xs @ ys"
proof -
  have "\<forall>x \<in> set xs. k x \<noteq> k y" "\<forall>x \<in> set ys. k x \<noteq> k y"
    using assms by (auto simp: image_iff)
  then show ?thesis by (simp add: filter_id_conv)
qed

lemma removeTab_split:
  assumes "distinct (map tab_id (tabs L))" "tabs L = xs @ tab # ys" "xs \<noteq> [] \<or> ys \<noteq> []"
  shows "removeTab L (tab_id tab) = Some \<lparr>lv_version = 3,
    active_tab = (if active_tab L = Some (tab_id tab)
                  then Some (tab_id (if xs = [] then hd ys else last xs)) else active_tab L),
    tabs = xs @ ys\<rparr>"
proof -
  have "tab_id tab \<notin> tab_id ` set xs" using assms(1,2) by auto
  then have "find_index (\<lambda>t. tab_id t = tab_id tab) (tabs L) = Some (length xs)"
    unfolding assms(2) by (intro find_index_split) (metis image_eqI, simp)
  moreover have "filter (\<lambda>t. tab_id t \<noteq> tab_id tab) (tabs L) = xs @ ys"
    using filter_split_key [of tab_id] assms(1) unfolding assms(2) by blast
  moreover have "(xs @ ys) ! (length xs - 1) = (if xs = [] then hd ys else last xs)"
    using assms(3) by (cases xs rule: rev_cases) (auto simp: hd_conv_nth nth_append)
  moreover have "length xs - 1 < length (xs @ ys)" "\<not> length (tabs L) \<le> 1"
    using assms(2,3) by (cases xs; cases ys; auto)+
  ultimately show ?thesis by (simp add: removeTab_def Let_def del: append_assoc)
qed

lemma removeTab_valid:
  assumes "valid_envelope L" "removeTab L i = Some M"
  shows "valid_envelope M"
proof -
  note d = valid_envelopeD(3) [OF assms(1)]
  obtain tab where tab: "tab \<in> set (tabs L)" "tab_id tab = i"
    using removeTab_Some(1) [OF assms(2)] by auto
  then obtain xs ys where s: "tabs L = xs @ tab # ys" by (meson split_list)
  have ne: "xs \<noteq> [] \<or> ys \<noteq> []" using removeTab_Some(2) [OF assms(2)] s by auto
  have M: "M = \<lparr>lv_version = 3,
    active_tab = (if active_tab L = Some i then Some (tab_id (if xs = [] then hd ys else last xs))
      else active_tab L), tabs = xs @ ys\<rparr>"
    using removeTab_split [OF d s ne] assms(2) tab(2) by simp
  have "active_tab M = Some a \<Longrightarrow> a \<in> tab_id ` set (xs @ ys)" for a
    using valid_envelopeD(6) [OF assms(1), of a] ne tab(2) unfolding M s
    by (auto split: if_splits)
  moreover have "1 \<le> length (tabs M)" "tabs M = xs @ ys" using ne by (cases xs; cases ys; simp add: M)+
  moreover have "distinct (map session_id (allTiles M))"
    using valid_envelopeD(5) [OF assms(1)] unfolding allTiles_def s M by simp blast
  ultimately show ?thesis
    using assms(1) s by (simp add: valid_envelope_def del: One_nat_def)
qed

text \<open>
  Closing a tab of a valid workspace that has others succeeds and leaves every other tab in its
  place, untouched. The tab that was open stays open; when it is the one closed, the tab before it
  becomes active, or the one after it when it was the first. The result is a valid workspace.
\<close>

theorem removeTab_neighbour:
  assumes "valid_envelope L" "tabs L = xs @ tab # ys" "xs @ ys \<noteq> []"
  shows "\<exists>M. removeTab L (tab_id tab) = Some M \<and> valid_envelope M \<and> tabs M = xs @ ys \<and>
    active_tab M = (if active_tab L \<noteq> Some (tab_id tab) then active_tab L
                    else Some (tab_id (if xs = [] then hd ys else last xs)))"
proof -
  have "xs \<noteq> [] \<or> ys \<noteq> []" using assms(3) by simp
  from removeTab_split [OF valid_envelopeD(3) [OF assms(1)] assms(2) this]
    removeTab_valid [OF assms(1)]
  show ?thesis by simp
qed

text \<open>The invariant only sees the tab ids, the grids and the open tab.\<close>

lemma valid_envelope_alt:
  "valid_envelope L \<longleftrightarrow>
     1 \<le> length (map tab_id (tabs L)) \<and> length (map tab_id (tabs L)) \<le> MAX_TABS \<and>
     distinct (map tab_id (tabs L)) \<and> list_all valid_tiles (map tiles_of (tabs L)) \<and>
     distinct (map session_id (concat (map tiles_of (tabs L)))) \<and>
     (\<forall>a. active_tab L = Some a \<longrightarrow> a \<in> set (map tab_id (tabs L)))"
  by (simp add: valid_envelope_def allTiles_def list_all_iff)

lemma renameTab_valid:
  assumes "valid_envelope L"
  shows "valid_envelope (renameTab L i name)" "windows (renameTab L i name) = windows L"
proof -
  have t: "map tiles_of (tabs (renameTab L i name)) = map tiles_of (tabs L)"
    and k: "map tab_id (tabs (renameTab L i name)) = map tab_id (tabs L)"
    and a: "active_tab (renameTab L i name) = active_tab L"
    by (simp_all add: renameTab_def)
  show "windows (renameTab L i name) = windows L" unfolding windows_def allTiles_def t ..
  show "valid_envelope (renameTab L i name)" using assms unfolding valid_envelope_alt t k a .
qed

lemma withActiveTab_valid:
  assumes "valid_envelope L"
  shows "valid_envelope (withActiveTab L i)" "windows (withActiveTab L i) = windows L"
  using assms by (auto simp: withActiveTab_def valid_envelope_def windows_def allTiles_def tabById_None)

text \<open>The tab strip without one tab, which a reorder leaves alone.\<close>

lemma remove_at_split: "remove_at (length xs) (xs @ y # ys) = xs @ ys"
  by (simp add: remove_at_def)

lemma filter_insert_at:
  "\<not> p x \<Longrightarrow> filter p (insert_at i x xs) = filter p xs"
  by (simp add: insert_at_def) (metis append_take_drop_id filter_append)

text \<open>
  Moving a tab of a valid workspace along the strip either puts it exactly at the requested
  slot, clamped to the strip, and leaves the others in their order, the open tab and the windows as
  they were; or, when the tab is unknown or is at that slot already, is refused.
\<close>

theorem reorderTab_slot:
  assumes "valid_envelope L" "tab \<in> set (tabs L)"
    and slot_def: "slot = nat (min (max k 0) (int (length (tabs L)) - 1))"
  shows "case reorderTab L (tab_id tab) k of
      None \<Rightarrow> tabs L ! slot = tab
    | Some M \<Rightarrow> tabs L ! slot \<noteq> tab \<and> tabs M ! slot = tab \<and>
        filter (\<lambda>u. tab_id u \<noteq> tab_id tab) (tabs M) = filter (\<lambda>u. tab_id u \<noteq> tab_id tab) (tabs L) \<and>
        active_tab M = active_tab L \<and> valid_envelope M \<and> windows M = windows L"
proof -
  note d = valid_envelopeD(3) [OF assms(1)]
  obtain xs ys where s: "tabs L = xs @ tab # ys" using assms(2) by (meson split_list)
  have ids: "tab_id tab \<notin> tab_id ` set xs" using d s by auto
  have ix: "find_index (\<lambda>t. tab_id t = tab_id tab) (tabs L) = Some (length xs)"
    unfolding s by (intro find_index_split) (metis ids image_eqI, simp)
  have slot: "slot < length (tabs L)" using s by (auto simp: slot_def)
  have at_slot: "tabs L ! slot = tab \<longleftrightarrow> slot = length xs"
    using slot d [THEN distinct_map [THEN iffD1]] nth_eq_iff_index_eq [of "tabs L" slot "length xs"] s by force
  show ?thesis
  proof (cases "slot = length xs")
    case True
    with ix at_slot show ?thesis by (simp add: reorderTab_def Let_def slot_def)
  next
    case False
    let ?M = "L\<lparr>tabs := insert_at slot tab (xs @ ys)\<rparr>"
    have M: "reorderTab L (tab_id tab) k = Some ?M"
      using ix False slot_def by (simp add: reorderTab_def Let_def s remove_at_split)
    have m: "mset (tabs ?M) = mset (tabs L)" by (simp add: s)
    have "filter (\<lambda>u. tab_id u \<noteq> tab_id tab) (tabs ?M) = filter (\<lambda>u. tab_id u \<noteq> tab_id tab) (tabs L)"
      by (simp add: s filter_insert_at)
    moreover have "tabs ?M ! slot = tab" using slot s by (simp add: nth_insert_at)
    moreover have "valid_envelope ?M" "windows ?M = windows L"
      using valid_envelope_mset [OF assms(1) m] valid_envelopeD(6) [OF assms(1)] by simp_all
    ultimately show ?thesis using M False at_slot by simp
  qed
qed

subsection \<open>Copying a tab\<close>

text \<open>The tiles of a copy are tiles of the original under their new ids, in the same order.\<close>

lemma copy_tile_in:
  "u \<in> set (copy_tile f t) \<longleftrightarrow>
     (\<exists>c. f (session_id t) = Some c \<and> c \<noteq> [] \<and>
       (widget t = None \<or> isFilesWidget (widget t)) \<and> u = t\<lparr>session_id := c\<rparr>)"
  unfolding copy_tile_def by (cases "f (session_id t)"; cases "widget t"; simp; blast)

lemma copy_tiles_in:
  "u \<in> set (copy_tiles f ts) \<longleftrightarrow>
     (\<exists>t \<in> set ts. \<exists>c. f (session_id t) = Some c \<and> c \<noteq> [] \<and>
       (widget t = None \<or> isFilesWidget (widget t)) \<and> u = t\<lparr>session_id := c\<rparr>)"
  by (simp add: copy_tiles_def copy_tile_in)

lemma copy_tiles_ids:
  assumes "inj_on f (dom f)" "distinct (map session_id ts)"
  shows "distinct (map session_id (copy_tiles f ts))"
  using assms(2)
proof (induction ts)
  case (Cons t ts)
  have "session_id ` set (copy_tile f t) \<inter> session_id ` set (copy_tiles f ts) = {}"
  proof (rule ccontr)
    assume "\<not> ?thesis"
    then obtain u c where u: "u \<in> set ts" "f (session_id u) = Some c" "f (session_id t) = Some c"
      by (auto simp: copy_tiles_in copy_tile_in; blast)
    then have "session_id u = session_id t" using inj_onD [OF assms(1)] by (metis domI)
    with u(1) Cons.prems show False by (metis distinct.simps(2) image_eqI list.set_map list.simps(9))
  qed
  moreover have "distinct (map session_id (copy_tile f t))"
    by (simp add: copy_tile_def split: option.splits)
  ultimately show ?case using Cons by (simp add: copy_tiles_def)
qed (simp add: copy_tiles_def)

lemma copy_tiles_source:
  assumes "u \<in> set (copy_tiles f ts)"
  shows "\<exists>t \<in> set ts. rect_of u = rect_of t \<and> widget u = widget t \<and>
    f (session_id t) = Some (session_id u)"
proof -
  from assms obtain t c where "t \<in> set ts" "f (session_id t) = Some c" "u = t\<lparr>session_id := c\<rparr>"
    by (auto simp: copy_tiles_in)
  then show ?thesis by (intro bexI [of _ t]) (simp_all add: rect_of_def)
qed

lemma copy_tiles_ran: "session_id ` set (copy_tiles f ts) \<subseteq> ran f"
  by (auto dest!: copy_tiles_source intro: ranI)

lemma overlaps_session_id [simp]:
  "overlaps (t\<lparr>session_id := a\<rparr>) u = overlaps t u" "overlaps t (u\<lparr>session_id := a\<rparr>) = overlaps t u"
  "valid_rect (t\<lparr>session_id := a\<rparr>) = valid_rect t"
  by (simp_all add: overlaps_def valid_rect_def)

lemma copy_tiles_valid:
  assumes "inj_on f (dom f)" "valid_tiles ts"
  shows "valid_tiles (copy_tiles f ts)"
proof -
  have "length (copy_tiles f ts) \<le> length ts"
    by (induction ts) (auto simp: copy_tiles_def copy_tile_def split: option.splits)
  moreover have "disjoint_tiles (copy_tiles f ts)"
    unfolding disjoint_tiles_def copy_tiles_in Ball_def
    using valid_tilesD(5) [OF assms(2)] by (auto simp: copy_tiles_in) (metis option.inject)+
  moreover have "\<forall>t \<in> set (copy_tiles f ts). session_id t \<noteq> [] \<and> valid_rect t"
    using valid_tilesD(4) [OF assms(2)] by (auto simp: copy_tiles_in)
  ultimately show ?thesis
    using assms copy_tiles_ids [OF assms(1)] by (auto simp: valid_tiles_def)
qed

lemma valid_insert_tab:
  assumes "valid_envelope L" "length (tabs L) < MAX_TABS" "tab_id tab \<notin> tab_id ` set (tabs L)"
    and "valid_tiles (tiles_of tab)"
    and "session_id ` set (tiles_of tab) \<inter> session_id ` set (allTiles L) = {}"
    and "tabs M = insert_at k tab (tabs L)" "active_tab M = Some (tab_id tab)"
  shows "valid_envelope M" "windows M = windows L + mset (map content (tiles_of tab))"
proof -
  let ?N = "\<lparr>lv_version = lv_version L, active_tab = Some (tab_id tab), tabs = tab # tabs L\<rparr>"
  have "valid_envelope ?N"
    using assms(1-5) valid_tilesD(2) [OF assms(4)]
    by (auto simp: valid_envelope_def allTiles_def)
  moreover have m: "mset (tabs M) = mset (tabs ?N)" by (simp add: assms(6))
  ultimately have "valid_envelope M \<and> windows M = windows ?N"
    using valid_envelope_mset [OF _ m] assms(7) by fastforce
  then show "valid_envelope M" "windows M = windows L + mset (map content (tiles_of tab))"
    by (simp_all add: windows_def allTiles_def)
qed

text \<open>
  Duplicating a tab of a valid workspace, with an id for the copy that no tab has and session
  ids for its windows that are distinct and new, succeeds while there are fewer than eight tabs. The
  copy is the active tab, stands at the requested slot clamped to the strip, and every tile of it is
  a tile of the original at the same place with the new id; the original and all other tabs keep
  their order and content, and the workspace is valid.
\<close>

theorem duplicateTab_copy:
  assumes "valid_envelope L" "length (tabs L) < 8" "i \<notin> tab_id ` set (tabs L)"
    and "source \<in> set (tabs L)" "inj_on f (dom f)"
    and "ran f \<inter> session_id ` set (allTiles L) = {}"
  shows "\<exists>M copy. duplicateTab L (tab_id source) i name f (Some k) = Some M \<and> valid_envelope M \<and>
    active_tab M = Some i \<and> tab_id copy = i \<and> tab_name copy = name \<and>
    tab_host_id copy = tab_host_id source \<and> tab_cwd copy = tab_cwd source \<and>
    tabs M = insert_at (nat (min (max k 0) (int (length (tabs L))))) copy (tabs L) \<and>
    (\<forall>u \<in> set (tiles_of copy). \<exists>t \<in> set (tiles_of source).
       rect_of u = rect_of t \<and> widget u = widget t \<and> f (session_id t) = Some (session_id u)) \<and>
    (\<forall>t \<in> set (tiles_of source). \<forall>c. widget t = None \<and> f (session_id t) = Some c \<and> c \<noteq> [] \<longrightarrow>
       t\<lparr>session_id := c\<rparr> \<in> set (tiles_of copy))"
proof -
  let ?slot = "nat (min (max k 0) (int (length (tabs L))))"
  let ?copy = "\<lparr>tab_id = i, tab_name = name, tab_host_id = tab_host_id source,
    tab_cwd = tab_cwd source,
    tab_layout = \<lparr>gl_version = 3, gl_tiles = copy_tiles f (tiles_of source)\<rparr>\<rparr>"
  let ?M = "\<lparr>lv_version = 3, active_tab = Some i, tabs = insert_at ?slot ?copy (tabs L)\<rparr>"
  have by_id: "tabById L (tab_id source) = Some source" "tabById L i = None"
    using assms(3,4) tabById_Some [OF valid_envelopeD(3) [OF assms(1)]] by (auto simp: tabById_None)
  then have M: "duplicateTab L (tab_id source) i name f (Some k) = Some ?M"
    using assms(2) by (simp add: duplicateTab_def)
  have "valid_envelope ?M"
  proof (rule valid_insert_tab(1) [OF assms(1)])
    show "valid_tiles (tiles_of ?copy)"
      using copy_tiles_valid [OF assms(5) valid_envelopeD(4) [OF assms(1,4)]] by simp
    show "session_id ` set (tiles_of ?copy) \<inter> session_id ` set (allTiles L) = {}"
      using assms(6) copy_tiles_ran by fastforce
  qed (use assms(2,3) in simp_all)
  moreover have "\<forall>t \<in> set (tiles_of source). \<forall>c. widget t = None \<and> f (session_id t) = Some c \<and>
      c \<noteq> [] \<longrightarrow> t\<lparr>session_id := c\<rparr> \<in> set (copy_tiles f (tiles_of source))"
    unfolding copy_tiles_in by blast
  ultimately show ?thesis
    using M copy_tiles_source [of _ f "tiles_of source"]
    by (intro exI [of _ ?M] exI [of _ ?copy]) simp
qed

subsection \<open>Default names\<close>

text \<open>
  The default name of a new tab and the name of a copy are names no tab of the strip has.
  The copy's name is \<open>X copy\<close> when that is free, and otherwise \<open>X copy N\<close> with the least
  \<open>N\<close> of at least two that is free.
\<close>

theorem tab_names_fresh:
  shows "nextTabName L \<notin> tab_name ` set (tabs L) \<and>
    copyTabName L name \<notin> tab_name ` set (tabs L) \<and>
    (if name @ '' copy'' \<notin> tab_name ` set (tabs L) then copyTabName L name = name @ '' copy''
     else \<exists>n \<ge> 2. copyTabName L name = numbered (name @ '' copy'') n \<and>
       {m \<in> {2..<n}. numbered (name @ '' copy'') m \<notin> tab_name ` set (tabs L)} = {})"
proof -
  let ?names = "map tab_name (tabs L)"
  let ?base = "name @ '' copy''"
  let ?n = "first_free ?base ?names 2"
  have next_free: "nextTabName L \<notin> tab_name ` set (tabs L)"
    using first_free_spec [of "length (tabs L) + 1" "''Tab''" ?names] by (simp add: nextTabName_def)
  have n: "2 \<le> ?n" "numbered ?base ?n \<notin> tab_name ` set (tabs L)"
    "{m \<in> {2..<?n}. numbered ?base m \<notin> tab_name ` set (tabs L)} = {}"
    using first_free_spec [of 2 ?base ?names] by auto
  show ?thesis
  proof (cases "?base \<in> tab_name ` set (tabs L)")
    case True
    then have "copyTabName L name = numbered ?base ?n" by (simp add: copyTabName_def Let_def)
    with True n next_free show ?thesis by auto
  next
    case False
    then show ?thesis using next_free by (simp add: copyTabName_def Let_def)
  qed
qed

subsection \<open>Moving windows between tabs\<close>

lemma tabOfSession_Some:
  assumes "tabOfSession L sid = Some s"
  shows "s \<in> set (tabs L) \<and> sid \<in> session_id ` set (tiles_of s)"
  using find_Some_in [OF assms [unfolded tabOfSession_def]] by auto

lemma tabOfSession_unique:
  assumes "valid_envelope L" "s \<in> set (tabs L)" "sid \<in> session_id ` set (tiles_of s)"
  shows "tabOfSession L sid = Some s"
proof -
  obtain u where u: "tabOfSession L sid = Some u"
    using assms(2,3) by (cases "tabOfSession L sid") (auto simp: tabOfSession_def find_None_all)
  have us: "u \<in> set (tabs L)" "sid \<in> session_id ` set (tiles_of u)"
    using tabOfSession_Some [OF u] by auto
  have "tab_id u = tab_id s" using tabs_disjoint [OF assms(1) us(1) assms(2)] us(2) assms(3) by auto
  with u us(1) assms(2) valid_envelopeD(3) [OF assms(1)] show ?thesis
    by (auto simp: distinct_map inj_on_def)
qed

lemma mem_withTabTiles:
  assumes "tab \<in> set (tabs L)" "tab_id tab \<noteq> i"
  shows "tab \<in> set (tabs (withTabTiles L i ts))"
  using assms by (force simp: set_withTabTiles)

lemma mem_withTabTiles_at:
  "tab \<in> set (tabs L) \<Longrightarrow> set_tiles ts tab \<in> set (tabs (withTabTiles L (tab_id tab) ts))"
  by (force simp: set_withTabTiles)

lemma content_split_others:
  assumes "valid_tiles ts" "t \<in> set ts"
  shows "mset (map content ts) = add_mset (content t) (mset (map content (others_of (session_id t) ts)))"
  using content_replace [OF assms refl] by simp

lemma moveSessionToTab_Some:
  assumes "valid_envelope L" "moveSessionToTab L sid target = Some M"
  obtains s t w spot placed where
    "s \<in> set (tabs L)" "t \<in> set (tabs L)" "tab_id t = target" "tab_id s \<noteq> tab_id t"
    "w \<in> set (tiles_of s)" "session_id w = sid" "autoPlace (tiles_of t) = (Some spot, placed)"
    "M = withTabTiles (withTabTiles L (tab_id s) (remove (tiles_of s) sid)) (tab_id t)
       (placed @ [with_rect w spot])"
  using assms(2) tabById_Some [OF valid_envelopeD(3) [OF assms(1)]]
  by (auto simp: moveSessionToTab_def Let_def split: option.splits if_splits prod.splits
      dest!: tabOfSession_Some find_Some_in)

lemma moveSessionToTab_spec:
  assumes "valid_envelope L" "moveSessionToTab L sid target = Some M"
  shows "valid_envelope M \<and> windows M = windows L \<and>
    map tab_id (tabs M) = map tab_id (tabs L) \<and> active_tab M = active_tab L \<and>
    map_option tab_id (tabOfSession M sid) = Some target \<and>
    map_option tab_id (tabOfSession L sid) \<noteq> Some target \<and>
    {u \<in> set (tabs L). sid \<notin> session_id ` set (tiles_of u) \<and> tab_id u \<noteq> target} \<subseteq> set (tabs M)"
proof -
  from moveSessionToTab_Some [OF assms] obtain s t w spot placed where
    s: "s \<in> set (tabs L)" and t: "t \<in> set (tabs L)" "tab_id t = target" "tab_id s \<noteq> tab_id t"
    and w: "w \<in> set (tiles_of s)" "session_id w = sid"
    and a: "autoPlace (tiles_of t) = (Some spot, placed)"
    and M: "M = withTabTiles (withTabTiles L (tab_id s) (remove (tiles_of s) sid)) (tab_id t)
       (placed @ [with_rect w spot])" by blast
  note v = valid_envelopeD(4) [OF assms(1) s] valid_envelopeD(4) [OF assms(1) t(1)]
  note d = valid_envelopeD(3) [OF assms(1)]
  let ?K = "withTabTiles L (tab_id s) (remove (tiles_of s) sid)"
  let ?new = "placed @ [with_rect w spot]"
  have sid: "sid \<notin> session_id ` set (tiles_of t)" "sid \<noteq> []"
    using tabs_disjoint [OF assms(1) s t(1,3)] w valid_tilesD(3) [OF v(1) w(1)] by auto
  have new: "valid_tiles ?new"
      "mset (map content ?new) = add_mset (content w) (mset (map content (tiles_of t)))"
    using auto.place_snoc [OF v(2) a, of "with_rect w spot"] w sid auto.place_spot [OF v(2) a] by auto
  note rm = remove_valid_content [OF v(1), of sid]
  have tK: "t \<in> set (tabs ?K)" using mem_withTabTiles t by metis
  have "windows L = add_mset (content w) (windows ?K)"
    using windows_withTabTiles [OF s d, of "remove (tiles_of s) sid"] rm
      content_split_others [OF v(1) w(1)] w(2) by simp
  moreover have "windows M + mset (map content (tiles_of t)) = windows ?K + mset (map content ?new)"
    unfolding M by (rule windows_withTabTiles) (use tK d in simp_all)
  ultimately have win: "windows M = windows L" using new(2) by simp
  have valid: "valid_envelope M"
    using assms(1) distinct_windows [OF win] rm new(1) unfolding valid_envelope_shape M
    by (simp add: shape_withTabTiles)
  have "set_tiles ?new t \<in> set (tabs M)" unfolding M by (rule mem_withTabTiles_at) (fact tK)
  then have "tabOfSession M sid = Some (set_tiles ?new t)"
    by (rule tabOfSession_unique [OF valid]) (use w in auto)
  moreover have "tabOfSession L sid = Some s"
    by (rule tabOfSession_unique [OF assms(1) s]) (use w in auto)
  moreover have "{u \<in> set (tabs L). sid \<notin> session_id ` set (tiles_of u) \<and> tab_id u \<noteq> target}
      \<subseteq> set (tabs M)"
  proof clarify
    fix u assume u: "u \<in> set (tabs L)" "sid \<notin> session_id ` set (tiles_of u)" "tab_id u \<noteq> target"
    have "tab_id u \<noteq> tab_id s"
      using u s w d by (auto simp: distinct_map inj_on_def)
    with u t show "u \<in> set (tabs M)" unfolding M by (metis mem_withTabTiles)
  qed
  ultimately show ?thesis using win valid t(2,3) by (simp add: M)
qed

text \<open>
  Moving a window to another tab of a valid workspace gives a valid workspace with exactly the
  same windows, in which the tab of the moved session is the target; no other tab changes, and the
  open tab and the tab order stay as they were.
\<close>

theorem moveSessionToTab_moves:
  assumes "valid_envelope L" "moveSessionToTab L sid target = Some M"
  shows "valid_envelope M \<and> windows M = windows L \<and>
    map tab_id (tabs M) = map tab_id (tabs L) \<and> active_tab M = active_tab L \<and>
    map_option tab_id (tabOfSession M sid) = Some target \<and>
    map_option tab_id (tabOfSession L sid) \<noteq> Some target \<and>
    {u \<in> set (tabs L). sid \<notin> session_id ` set (tiles_of u) \<and> tab_id u \<noteq> target} \<subseteq> set (tabs M)"
  using assms by (rule moveSessionToTab_spec)

subsection \<open>Merging tabs\<close>

text \<open>The last step of every merge, whatever arrangement the target was given.\<close>

lemma foldTabInto_valid:
  assumes "valid_envelope L" "s \<in> set (tabs L)" "t \<in> set (tabs L)" "tab_id s \<noteq> tab_id t"
    and "valid_tiles ts"
    and "mset (map content ts) = mset (map content (tiles_of t)) + mset (map content (tiles_of s))"
  shows "\<exists>M. foldTabInto L (tab_id s) (tab_id t) ts = Some M \<and> valid_envelope M \<and>
    windows M = windows L \<and> active_tab M = Some (tab_id t) \<and>
    tabs M = filter (\<lambda>u. tab_id u \<noteq> tab_id s) (tabs (withTabTiles L (tab_id t) ts))"
proof -
  note d = valid_envelopeD(3) [OF assms(1)]
  let ?K = "withTabTiles L (tab_id t) ts"
  have sK: "s \<in> set (tabs ?K)" using mem_withTabTiles [OF assms(2,4)] .
  have dK: "distinct (map tab_id (tabs ?K))" using d by simp
  obtain xs ys where K: "tabs ?K = xs @ s # ys" using sK by (meson split_list)
  have "set_tiles ts t \<in> set (tabs ?K)" by (rule mem_withTabTiles_at [OF assms(3)])
  then have t_in: "set_tiles ts t \<in> set (xs @ ys)" using K assms(4) by auto
  then have "xs \<noteq> [] \<or> ys \<noteq> []" by auto
  from removeTab_split [OF dK K this] obtain N where
    N: "removeTab ?K (tab_id s) = Some N" "tabs N = xs @ ys" by fastforce
  have "tabById N (tab_id t) \<noteq> None"
    using imageI [OF t_in, of tab_id] N(2) unfolding tabById_None by simp
  moreover have "tabById L (tab_id t) \<noteq> None" using assms(3) by (auto simp: tabById_None)
  ultimately have F: "foldTabInto L (tab_id s) (tab_id t) ts = Some (N\<lparr>active_tab := Some (tab_id t)\<rparr>)"
    using N(1) by (simp add: foldTabInto_def withActiveTab_def)
  let ?M = "N\<lparr>active_tab := Some (tab_id t)\<rparr>"
  have "windows ?M = windows N" by (simp add: windows_def allTiles_def)
  moreover have "windows ?K = mset (map content (tiles_of s)) + windows N"
    by (rule removeTab_windows [OF dK sK N(1)])
  moreover have "windows ?K + mset (map content (tiles_of t)) = windows L + mset (map content ts)"
    by (rule windows_withTabTiles [OF assms(3) d])
  ultimately have win: "windows ?M = windows L" using assms(6) by simp
  have "envelope_shape ?K"
    using assms(1,5) by (simp add: valid_envelope_shape shape_withTabTiles)
  then have "envelope_shape ?M"
    by (rule shape_drop_tab [OF _ K]) (use N(2) imageI [OF t_in, of tab_id] in simp_all)
  then have "valid_envelope ?M"
    using assms(1) distinct_windows [OF win] by (simp add: valid_envelope_shape)
  moreover have "tabs ?M = filter (\<lambda>u. tab_id u \<noteq> tab_id s) (tabs ?K)"
    using removeTab_Some(3) [OF N(1)] by simp
  ultimately show ?thesis using F win by (intro exI [of _ ?M]) simp
qed

lemma merge_loop_valid:
  assumes "merge_loop source (map session_id ws) tiles = Some ts" "valid_tiles source"
    and "valid_tiles tiles" "set ws \<subseteq> set source" "distinct (map session_id ws)"
    and "session_id ` set ws \<inter> session_id ` set tiles = {}"
  shows "valid_tiles ts \<and> mset (map content ts) = mset (map content tiles) + mset (map content ws)"
  using assms
proof (induction ws arbitrary: tiles)
  case (Cons w ws)
  have w: "find (\<lambda>t. session_id t = session_id w) source = Some w"
    using Cons.prems(4) find_key_distinct [OF valid_tilesD(2) [OF Cons.prems(2)]] by simp
  then obtain spot placed where a: "autoPlace tiles = (Some spot, placed)"
    and rest: "merge_loop source (map session_id ws) (placed @ [with_rect w spot]) = Some ts"
    using Cons.prems(1) by (auto split: prod.splits option.splits)
  have "session_id w \<noteq> []" using valid_tilesD(3) [OF Cons.prems(2)] Cons.prems(4) by simp
  then have new: "valid_tiles (placed @ [with_rect w spot])"
      "mset (map content (placed @ [with_rect w spot])) =
        add_mset (content w) (mset (map content tiles))"
    using auto.place_snoc [OF Cons.prems(3) a, of "with_rect w spot"] Cons.prems(6)
      auto.place_spot [OF Cons.prems(3) a] by auto
  have "session_id ` set ws \<inter> session_id ` set (placed @ [with_rect w spot]) = {}"
    using auto.place_ids(1) [OF Cons.prems(3) a] Cons.prems(5,6) by auto
  then show ?case
    using Cons.IH [OF rest Cons.prems(2) new(1)] Cons.prems(4,5) new(2) by simp
qed simp

lemma map_tab_id_filter:
  "map tab_id (filter (\<lambda>u. tab_id u \<noteq> i) us) = filter (\<lambda>j. j \<noteq> i) (map tab_id us)"
  by (simp add: filter_map comp_def)

lemma mergeTabs_spec:
  assumes "valid_envelope L" "s \<in> set (tabs L)" "t \<in> set (tabs L)" "tab_id s \<noteq> tab_id t"
  shows "case mergeTabs L (tab_id s) (tab_id t) of
      None \<Rightarrow> merge_loop (tiles_of s) (readingOrder (tiles_of s)) (tiles_of t) = None
    | Some M \<Rightarrow> valid_envelope M \<and> windows M = windows L \<and> active_tab M = Some (tab_id t) \<and>
        map tab_id (tabs M) = filter (\<lambda>i. i \<noteq> tab_id s) (map tab_id (tabs L)) \<and>
        {u \<in> set (tabs L). tab_id u \<notin> {tab_id s, tab_id t}} \<subseteq> set (tabs M)"
proof (cases "merge_loop (tiles_of s) (readingOrder (tiles_of s)) (tiles_of t)")
  case None
  with tabById_mem [OF assms(1)] assms(2,3,4) show ?thesis by (simp add: mergeTabs_def)
next
  case (Some ts)
  note v = valid_envelopeD(4) [OF assms(1,2)] valid_envelopeD(4) [OF assms(1,3)]
  note by_id = tabById_mem [OF assms(1,2)] tabById_mem [OF assms(1,3)]
  have ts: "valid_tiles ts \<and> mset (map content ts) =
      mset (map content (tiles_of t)) + mset (map content (tiles_of s))"
    using merge_loop_valid [OF Some [unfolded readingOrder_def] v]
      tabs_disjoint [OF assms] valid_tilesD(2) [OF v(1)]
      distinct_map_mset [of "sortTiles (tiles_of s)" "tiles_of s" session_id]
    by simp
  then obtain M where M: "foldTabInto L (tab_id s) (tab_id t) ts = Some M" "valid_envelope M"
    "windows M = windows L" "active_tab M = Some (tab_id t)"
    "tabs M = filter (\<lambda>u. tab_id u \<noteq> tab_id s) (tabs (withTabTiles L (tab_id t) ts))"
    using foldTabInto_valid [OF assms] by blast
  have "map tab_id (tabs M) = filter (\<lambda>i. i \<noteq> tab_id s) (map tab_id (tabs (withTabTiles L (tab_id t) ts)))"
    unfolding M(5) by (rule map_tab_id_filter)
  moreover have "{u \<in> set (tabs L). tab_id u \<notin> {tab_id s, tab_id t}} \<subseteq> set (tabs M)"
    unfolding M(5) using mem_withTabTiles by fastforce
  ultimately show ?thesis using M by_id assms(4) Some by (simp add: mergeTabs_def)
qed

text \<open>
  Merging a tab into another is all or nothing. When it succeeds on a valid workspace the result
  is valid and holds exactly the windows it held before, the source tab is gone, the target is the
  open tab and every other tab is as it was; it is refused only when a tab is unknown, the two are
  the same, or one of the windows finds no place in the target.
\<close>

theorem mergeTabs_windows:
  assumes "valid_envelope L" "s \<in> set (tabs L)" "t \<in> set (tabs L)" "tab_id s \<noteq> tab_id t"
  shows "case mergeTabs L (tab_id s) (tab_id t) of
      None \<Rightarrow> merge_loop (tiles_of s) (readingOrder (tiles_of s)) (tiles_of t) = None
    | Some M \<Rightarrow> valid_envelope M \<and> windows M = windows L \<and> active_tab M = Some (tab_id t) \<and>
        map tab_id (tabs M) = filter (\<lambda>i. i \<noteq> tab_id s) (map tab_id (tabs L)) \<and>
        {u \<in> set (tabs L). tab_id u \<notin> {tab_id s, tab_id t}} \<subseteq> set (tabs M)"
  using assms by (rule mergeTabs_spec)

subsection \<open>A workspace of two tabs\<close>

text \<open>The concrete workspace on which the properties of this theory are applied.\<close>

definition tab_of :: "string \<Rightarrow> tile list \<Rightarrow> workspace_tab" where
  "tab_of i ts = \<lparr>tab_id = i, tab_name = i, tab_host_id = None, tab_cwd = None,
     tab_layout = \<lparr>gl_version = 3, gl_tiles = ts\<rparr>\<rparr>"

definition pair_tabs :: layout_v3 where
  "pair_tabs = \<lparr>lv_version = 3, active_tab = Some ''t1'', tabs =
     [tab_of ''t1'' [tile_at ''a'' \<lparr>gx = 0, gy = 0, gw = 12, gh = 24\<rparr>],
      tab_of ''t2'' [tile_at ''b'' \<lparr>gx = 12, gy = 0, gw = 12, gh = 12\<rparr>]]\<rparr>"

lemma valid_pair_tabs: "valid_envelope pair_tabs"
  by (simp add: valid_envelope_def pair_tabs_def tab_of_def allTiles_def valid_tiles_Cons
      valid_rect_def)

theorem removeTab_neighbour_witness:
  "\<exists>M. removeTab pair_tabs ''t1'' = Some M \<and> valid_envelope M \<and> active_tab M = Some ''t2''"
  using removeTab_neighbour [OF valid_pair_tabs, of "[]" "hd (tabs pair_tabs)" "tl (tabs pair_tabs)"]
  by (simp add: pair_tabs_def tab_of_def) blast

theorem reorderTab_slot_witness:
  "map_option (\<lambda>M. map tab_id (tabs M)) (reorderTab pair_tabs ''t1'' 7) = Some [''t2'', ''t1''] \<and>
   (\<exists>M. reorderTab pair_tabs ''t1'' 7 = Some M \<and> valid_envelope M)"
  using reorderTab_slot [OF valid_pair_tabs, of "hd (tabs pair_tabs)" 1 7]
  by (simp add: pair_tabs_def tab_of_def reorderTab_def insert_at_def remove_at_def)

theorem duplicateTab_copy_witness:
  "\<exists>M copy. duplicateTab pair_tabs ''t1'' ''t3'' ''copy'' [''a'' \<mapsto> ''c''] (Some 1) = Some M \<and>
     valid_envelope M \<and> tabs M ! 1 = copy \<and> tab_id copy = ''t3''"
  using duplicateTab_copy [OF valid_pair_tabs, of "''t3''" "hd (tabs pair_tabs)" "[''a'' \<mapsto> ''c'']"
      "''copy''" 1]
  by (auto simp: pair_tabs_def tab_of_def allTiles_def insert_at_def) 

theorem moveSessionToTab_moves_witness:
  "\<exists>M. moveSessionToTab pair_tabs ''a'' ''t2'' = Some M \<and> valid_envelope M \<and>
     map_option tab_id (tabOfSession M ''a'') = Some ''t2''"
proof -
  have "moveSessionToTab pair_tabs ''a'' ''t2'' \<noteq> None" by code_simp
  then obtain M where "moveSessionToTab pair_tabs ''a'' ''t2'' = Some M" by blast
  with moveSessionToTab_moves [OF valid_pair_tabs] show ?thesis by blast
qed

theorem mergeTabs_windows_witness:
  "\<exists>M. mergeTabs pair_tabs ''t1'' ''t2'' = Some M \<and> valid_envelope M \<and> length (tabs M) = 1 \<and>
     windows M = windows pair_tabs"
proof -
  have "mergeTabs pair_tabs ''t1'' ''t2'' \<noteq> None" by code_simp
  then obtain M where M: "mergeTabs pair_tabs ''t1'' ''t2'' = Some M" by blast
  with mergeTabs_windows [OF valid_pair_tabs, of "tabs pair_tabs ! 0" "tabs pair_tabs ! 1"]
  have r: "valid_envelope M" "windows M = windows pair_tabs"
    "map tab_id (tabs M) = filter (\<lambda>i. i \<noteq> ''t1'') (map tab_id (tabs pair_tabs))"
    by (simp_all add: pair_tabs_def tab_of_def)
  from arg_cong [OF r(3), of length] have "length (tabs M) = 1" by (simp add: pair_tabs_def tab_of_def)
  with M r show ?thesis by blast
qed

end
