(* ===== verification/Grid_Motion.thy ===== *)
theory Grid_Motion
  imports Grid
begin

section \<open>Moving, resizing and compacting tiles\<close>

text \<open>
  \<open>compact\<close> (here \<open>compact_tiles\<close>), \<open>move\<close> and \<open>resize\<close> of \<open>web/src/lib/grid.ts\<close>. Each keeps a valid
  layout valid and loses no tile (interpretations of \<open>tile_edit\<close>), and each is characterised
  on every branch: where the tile goes, which tile it trades places with, and that no other tile
  changes.
\<close>

subsection \<open>Gravity\<close>

function slide_up :: "tile list \<Rightarrow> nat \<Rightarrow> tile \<Rightarrow> tile" where
  "slide_up work i t =
     (if gy t > 0 \<and>
         fitsAt work \<lparr>gx = gx t, gy = gy t - 1, gw = gw t, gh = gh t\<rparr> (int i)
      then slide_up work i (t\<lparr>gy := gy t - 1\<rparr>) else t)"
  by pat_completeness auto
termination
  by (relation "measure (\<lambda>(work, i, t). nat (gy t))") auto

function slide_left :: "tile list \<Rightarrow> nat \<Rightarrow> tile \<Rightarrow> tile" where
  "slide_left work i t =
     (if gx t > 0 \<and>
         fitsAt work \<lparr>gx = gx t - 1, gy = gy t, gw = gw t, gh = gh t\<rparr> (int i)
      then slide_left work i (t\<lparr>gx := gx t - 1\<rparr>) else t)"
  by pat_completeness auto
termination
  by (relation "measure (\<lambda>(work, i, t). nat (gx t))") auto

declare slide_up.simps [simp del] slide_left.simps [simp del]

definition settle :: "tile list \<Rightarrow> nat \<Rightarrow> tile list" where
  "settle work i = work[i := slide_left work i (slide_up work i (work ! i))]"

definition compact_tiles :: "tile list \<Rightarrow> tile list" where
  "compact_tiles tiles =
     (let work = sortTiles tiles in sortTiles (foldl settle work [0..<length work]))"

subsection \<open>Moving and resizing\<close>

definition intersectionArea :: "'a rect_scheme \<Rightarrow> 'b rect_scheme \<Rightarrow> int" where
  "intersectionArea a b =
     (let w = min (gx a + gw a) (gx b + gw b) - max (gx a) (gx b);
          h = min (gy a + gh a) (gy b + gh b) - max (gy a) (gy b)
      in if w > 0 \<and> h > 0 then w * h else 0)"

text \<open>The loop that looks for the tile most covered by the target rectangle.\<close>

definition more_covered :: "tile \<Rightarrow> tile option \<times> int \<Rightarrow> tile \<Rightarrow> tile option \<times> int" where
  "more_covered moved best t =
     (let a = intersectionArea moved t in if a > snd best then (Some t, a) else best)"

definition swap_victim :: "tile \<Rightarrow> tile list \<Rightarrow> tile option" where
  "swap_victim moved others = fst (foldl (more_covered moved) (None, 0) others)"

definition move_target :: "tile \<Rightarrow> int \<Rightarrow> int \<Rightarrow> tile" where
  "move_target t x y =
     t\<lparr>gx := clamp x 0 (GRID_SIZE - gw t), gy := clamp y 0 (GRID_SIZE - gh t)\<rparr>"

definition move :: "tile list \<Rightarrow> string \<Rightarrow> int \<Rightarrow> int \<Rightarrow> tile list" where
  "move tiles sid x y =
     (let original = sortTiles tiles in
      case find (\<lambda>t. session_id t = sid) original of
        None \<Rightarrow> original
      | Some target \<Rightarrow>
          let moved = move_target target x y;
              others = others_of sid original
          in if fitsAt others moved (-1) then sortTiles (moved # others)
             else case swap_victim moved others of
               None \<Rightarrow> original
             | Some victim \<Rightarrow>
                 sortTiles (map (\<lambda>t.
                   if session_id t = sid then with_rect t victim
                   else if session_id t = session_id victim then with_rect t target
                   else t) original))"

definition resize_target :: "tile \<Rightarrow> int \<Rightarrow> int \<Rightarrow> tile" where
  "resize_target t w h =
     t\<lparr>gw := clamp w MIN_TILE_SIZE (GRID_SIZE - gx t),
       gh := clamp h MIN_TILE_SIZE (GRID_SIZE - gy t)\<rparr>"

definition resize :: "tile list \<Rightarrow> string \<Rightarrow> int \<Rightarrow> int \<Rightarrow> tile list" where
  "resize tiles sid w h =
     (let original = sortTiles tiles in
      case find (\<lambda>t. session_id t = sid) original of
        None \<Rightarrow> original
      | Some target \<Rightarrow>
          let resized = resize_target target w h;
              others = others_of sid original
          in if \<not> fitsAt others resized (-1) then original
             else sortTiles (resized # others))"

subsection \<open>Compaction only slides tiles up and left\<close>

text \<open>A tile slid by one step is the same tile at an earlier position.\<close>

definition slid_from :: "tile \<Rightarrow> tile \<Rightarrow> bool" where
  "slid_from t u \<longleftrightarrow>
     content u = content t \<and> gw u = gw t \<and> gh u = gh t \<and>
     0 \<le> gx u \<and> gx u \<le> gx t \<and> 0 \<le> gy u \<and> gy u \<le> gy t"

lemma slid_from_refl: "valid_rect t \<Longrightarrow> slid_from t t"
  by (simp add: slid_from_def valid_rect_def)

lemma slid_from_trans: "slid_from t u \<Longrightarrow> slid_from u v \<Longrightarrow> slid_from t v"
  by (auto simp: slid_from_def)

lemma slid_from_valid: "valid_rect t \<Longrightarrow> slid_from t u \<Longrightarrow> valid_rect u"
  by (auto simp: slid_from_def valid_rect_def)

lemma slide_up_spec:
  assumes "0 \<le> gx t" "0 \<le> gy t" "fitsAt work t (int i)"
  shows "slid_from t (slide_up work i t) \<and> fitsAt work (slide_up work i t) (int i)"
  using assms
proof (induction work i t rule: slide_up.induct)
  case (1 work i t)
  let ?u = "t\<lparr>gy := gy t - 1\<rparr>"
  have eq: "fitsAt work \<lparr>gx = gx t, gy = gy t - 1, gw = gw t, gh = gh t\<rparr> (int i) =
      fitsAt work ?u (int i)"
    by (simp add: fitsAt_def overlaps_def)
  show ?case
  proof (cases "gy t > 0 \<and> fitsAt work ?u (int i)")
    case True
    then have "slid_from ?u (slide_up work i ?u) \<and> fitsAt work (slide_up work i ?u) (int i)"
      using "1.IH" "1.prems" by (simp add: eq)
    with True show ?thesis
      by (simp add: slide_up.simps [of work i t] eq) (auto simp: slid_from_def content_def)
  next
    case False
    with "1.prems" show ?thesis
      by (auto simp: slide_up.simps [of work i t] eq slid_from_def)
  qed
qed

lemma slide_left_spec:
  assumes "0 \<le> gx t" "0 \<le> gy t" "fitsAt work t (int i)"
  shows "slid_from t (slide_left work i t) \<and> fitsAt work (slide_left work i t) (int i)"
  using assms
proof (induction work i t rule: slide_left.induct)
  case (1 work i t)
  let ?u = "t\<lparr>gx := gx t - 1\<rparr>"
  have eq: "fitsAt work \<lparr>gx = gx t - 1, gy = gy t, gw = gw t, gh = gh t\<rparr> (int i) =
      fitsAt work ?u (int i)"
    by (simp add: fitsAt_def overlaps_def)
  show ?case
  proof (cases "gx t > 0 \<and> fitsAt work ?u (int i)")
    case True
    then have "slid_from ?u (slide_left work i ?u) \<and> fitsAt work (slide_left work i ?u) (int i)"
      using "1.IH" "1.prems" by (simp add: eq)
    with True show ?thesis
      by (simp add: slide_left.simps [of work i t] eq) (auto simp: slid_from_def content_def)
  next
    case False
    with "1.prems" show ?thesis
      by (auto simp: slide_left.simps [of work i t] eq slid_from_def)
  qed
qed

lemma settle_spec:
  assumes "valid_tiles work" "i < length work"
  shows "valid_tiles (settle work i) \<and> list_all2 slid_from work (settle work i)"
proof -
  let ?t = "work ! i" and ?u = "slide_left work i (slide_up work i (work ! i))"
  have v: "valid_rect ?t" using assms by (simp add: valid_tilesD)
  have "fitsAt work ?t (int i)"
    using valid_tiles_nth [OF assms(1) _ assms(2)] by (auto simp: fitsAt_skip)
  then have s: "slid_from ?t (slide_up work i ?t) \<and> fitsAt work (slide_up work i ?t) (int i)"
    using v by (intro slide_up_spec) (auto simp: valid_rect_def)
  then have "slid_from (slide_up work i ?t) ?u \<and> fitsAt work ?u (int i)"
    by (intro slide_left_spec) (auto simp: slid_from_def)
  with s have u: "slid_from ?t ?u" "fitsAt work ?u (int i)"
    using slid_from_trans by blast+
  have "valid_tiles (work[i := ?u])"
  proof (rule valid_tiles_update [OF assms])
    show "session_id ?u = session_id ?t" using u(1) by (simp add: slid_from_def content_def)
    show "valid_rect ?u" using slid_from_valid [OF v u(1)] .
  qed (use u(2) in \<open>simp add: fitsAt_skip\<close>)
  moreover have "list_all2 slid_from work (work[i := ?u])"
    using u(1) valid_tilesD(4) [OF assms(1)]
    by (auto simp: list_all2_conv_all_nth nth_list_update [OF assms(2)] intro: slid_from_refl)
  ultimately show ?thesis by (simp add: settle_def)
qed

lemma settle_fold:
  assumes "valid_tiles work" "\<forall>i \<in> set is. i < length work"
  shows "valid_tiles (foldl settle work is) \<and> list_all2 slid_from work (foldl settle work is)"
  using assms
proof (induction "is" arbitrary: work)
  case Nil
  then show ?case
    by (simp add: list_all2_conv_all_nth slid_from_refl valid_tilesD)
next
  case (Cons i "is")
  have s: "valid_tiles (settle work i)" "list_all2 slid_from work (settle work i)"
    using settle_spec [OF Cons.prems(1)] Cons.prems(2) by auto
  then have "length (settle work i) = length work" by (simp add: list_all2_lengthD)
  then have "valid_tiles (foldl settle (settle work i) is) \<and>
      list_all2 slid_from (settle work i) (foldl settle (settle work i) is)"
    using Cons.IH [OF s(1)] Cons.prems(2) by simp
  with s(2) show ?case
    using list_all2_trans [of slid_from slid_from slid_from, OF slid_from_trans] by auto
qed

lemma slid_content: "list_all2 slid_from ts us \<Longrightarrow> map content us = map content ts"
  by (induction rule: list_all2_induct) (simp_all add: slid_from_def)

lemma compact_slides:
  assumes "valid_tiles ts"
  shows "valid_tiles (compact_tiles ts)"
    "\<exists>us. mset us = mset (compact_tiles ts) \<and> list_all2 slid_from (sortTiles ts) us"
  using settle_fold [of "sortTiles ts" "[0..<length ts]"] assms
  by (auto simp: compact_tiles_def Let_def intro!: exI)

lemma compact_content:
  assumes "valid_tiles ts"
  shows "mset (map content (compact_tiles ts)) = mset (map content ts)"
proof -
  obtain us where "mset us = mset (compact_tiles ts)" "list_all2 slid_from (sortTiles ts) us"
    using compact_slides(2) [OF assms] by blast
  then have "map content us = map content (sortTiles ts)" by (intro slid_content)
  then have "mset (map content us) = mset (map content ts)" by simp
  with \<open>mset us = mset (compact_tiles ts)\<close> show ?thesis by simp
qed

interpretation compact_edit: tile_edit compact_tiles
  by unfold_locales (fact compact_slides(1), fact compact_content)

text \<open>
  \<open>compact\<close> keeps a valid layout valid and moves tiles only up and left: every tile is still
  there with its size, its session and its widget, at a row and a column no greater than before.
\<close>

theorem compact_valid:
  assumes "valid_tiles ts"
  shows "valid_tiles (compact_tiles ts) \<and> length (compact_tiles ts) = length ts \<and>
    (\<forall>t \<in> set ts. \<exists>u \<in> set (compact_tiles ts).
       content u = content t \<and> gw u = gw t \<and> gh u = gh t \<and> gx u \<le> gx t \<and> gy u \<le> gy t)"
proof -
  obtain us where us: "mset us = mset (compact_tiles ts)" "list_all2 slid_from (sortTiles ts) us"
    using compact_slides(2) [OF assms] by blast
  have "\<exists>u \<in> set us. slid_from t u" if "t \<in> set ts" for t
  proof -
    from that obtain k where "k < length ts" "t = sortTiles ts ! k"
      by (metis in_set_conv_nth length_sortTiles set_sortTiles)
    with us(2) show ?thesis
      by (metis length_sortTiles list_all2_conv_all_nth nth_mem)
  qed
  then have "\<exists>u \<in> set (compact_tiles ts). slid_from t u" if "t \<in> set ts" for t
    using that unfolding mset_eq_setD [OF us(1)] .
  then show ?thesis
    using compact_slides(1) [OF assms] compact_edit.edit_length [OF assms]
    by (fastforce simp: slid_from_def)
qed

theorem compact_valid_witness:
  "compact_tiles [tile_at ''a'' \<lparr>gx = 6, gy = 5, gw = 4, gh = 4\<rparr>] =
     [tile_at ''a'' \<lparr>gx = 0, gy = 0, gw = 4, gh = 4\<rparr>] \<and>
   valid_tiles (compact_tiles [tile_at ''a'' \<lparr>gx = 6, gy = 5, gw = 4, gh = 4\<rparr>])"
proof -
  have v: "valid_tiles [tile_at ''a'' \<lparr>gx = 6, gy = 5, gw = 4, gh = 4\<rparr>]"
    by (simp add: valid_tiles_Cons valid_rect_def)
  show ?thesis using compact_valid [OF v] by (simp, code_simp)
qed

subsection \<open>The tile a move trades places with\<close>

lemma intersectionArea_pos: "intersectionArea a b > 0 \<longleftrightarrow> 
    overlaps a b \<and> 0 < gw a \<and> 0 < gh a \<and> 0 < gw b \<and> 0 < gh b"
  by (auto simp: intersectionArea_def overlaps_def Let_def)

lemma more_covered_fold:
  assumes "foldl (more_covered m) (v, a) ts = (w, b)"
  shows "a \<le> b \<and> (\<forall>t \<in> set ts. intersectionArea m t \<le> b) \<and>
    (w = v \<and> b = a \<or> (\<exists>t \<in> set ts. w = Some t \<and> b = intersectionArea m t \<and> a < b))"
  using assms
proof (induction ts arbitrary: v a)
  case Nil
  then show ?case by simp
next
  case (Cons t ts)
  let ?i = "intersectionArea m t"
  show ?case
  proof (cases "?i > a")
    case True
    then have "more_covered m (v, a) t = (Some t, ?i)" by (simp add: more_covered_def)
    then have "foldl (more_covered m) (Some t, ?i) ts = (w, b)" using Cons.prems by simp
    with Cons.IH [OF this] True show ?thesis by fastforce
  next
    case False
    then have "more_covered m (v, a) t = (v, a)" by (simp add: more_covered_def)
    then have "foldl (more_covered m) (v, a) ts = (w, b)" using Cons.prems by simp
    with Cons.IH [OF this] False show ?thesis by fastforce
  qed
qed

text \<open>An occupied target rectangle has a victim: a tile it overlaps, and none covered more.\<close>

lemma swap_victim_spec:
  assumes "\<not> fitsAt ts m (-1)" "\<forall>t \<in> set ts. valid_rect t" "valid_rect m"
  shows "\<exists>v \<in> set ts. swap_victim m ts = Some v \<and> overlaps m v \<and>
    (\<forall>t \<in> set ts. intersectionArea m t \<le> intersectionArea m v)"
proof -
  obtain w b where f: "foldl (more_covered m) (None, 0) ts = (w, b)" by fastforce
  from assms(1) obtain t where "t \<in> set ts" "overlaps t m" by (auto simp: fitsAt_all)
  then have "0 < intersectionArea m t"
    using assms(2,3) overlaps_sym by (auto simp: intersectionArea_pos valid_rect_def)
  with \<open>t \<in> set ts\<close> more_covered_fold [OF f] have "0 < b" by force
  with more_covered_fold [OF f] obtain v where
      "v \<in> set ts" "w = Some v" "b = intersectionArea m v"
      "\<forall>t \<in> set ts. intersectionArea m t \<le> b" by auto
  moreover from \<open>0 < b\<close> this(3) have "overlaps m v" by (simp add: intersectionArea_pos)
  ultimately show ?thesis using f by (auto simp: swap_victim_def)
qed

lemma move_target_valid: "valid_rect t \<Longrightarrow> valid_rect (move_target t x y)"
  using clamp_bounds [of 0 "24 - gw t" x] clamp_bounds [of 0 "24 - gh t" y]
  by (auto simp: move_target_def valid_rect_def)

text \<open>The three outcomes of a move on a valid layout.\<close>

lemma move_cases:
  assumes "valid_tiles ts"
  obtains (unknown) "sid \<notin> session_id ` set ts" "move ts sid x y = sortTiles ts"
  | (free) t where "t \<in> set ts" "session_id t = sid"
      "\<forall>u \<in> set (others_of sid (sortTiles ts)). \<not> overlaps u (move_target t x y)"
      "move ts sid x y = sortTiles (move_target t x y # others_of sid (sortTiles ts))"
  | (swap) t v where "t \<in> set ts" "session_id t = sid" "v \<in> set ts" "session_id v \<noteq> sid"
      "overlaps (move_target t x y) v"
      "\<forall>u \<in> set ts - {t}. intersectionArea (move_target t x y) u \<le>
         intersectionArea (move_target t x y) v"
      "move ts sid x y = sortTiles (map (\<lambda>u.
         if session_id u = sid then with_rect u v
         else if session_id u = session_id v then with_rect u t else u) (sortTiles ts))"
proof (cases "find (\<lambda>t. session_id t = sid) (sortTiles ts)")
  case None
  moreover from this have "sid \<notin> session_id ` set ts" by (simp add: find_tile_None)
  ultimately show ?thesis by (intro unknown) (simp_all add: move_def)
next
  case (Some t)
  have vs: "valid_tiles (sortTiles ts)" using assms by simp
  from Some have t: "t \<in> set ts" "session_id t = sid" using find_tile [OF vs] by auto
  let ?m = "move_target t x y" and ?o = "others_of sid (sortTiles ts)"
  have so: "set ?o = set ts - {t}"
    using set_others_of [OF valid_tilesD(2) [OF vs], of t] t by simp
  show ?thesis
  proof (cases "fitsAt ?o ?m (-1)")
    case True
    with Some t show ?thesis by (intro free [of t]) (simp_all add: move_def fitsAt_all)
  next
    case False
    have "\<forall>u \<in> set ?o. valid_rect u" "valid_rect ?m"
      using valid_tilesD(4) [OF assms] t move_target_valid so by auto
    from swap_victim_spec [OF False this] obtain v where v: "v \<in> set ?o"
        "swap_victim ?m ?o = Some v" "overlaps ?m v"
        "\<forall>u \<in> set ?o. intersectionArea ?m u \<le> intersectionArea ?m v" by blast
    have "session_id v \<noteq> sid" using v(1) by (simp add: others_of_def)
    with v t so False Some show ?thesis
      by (intro swap [of t v]) (auto simp: move_def)
  qed
qed

text \<open>Exchanging the rectangles of two tiles of a valid layout.\<close>

definition exchange :: "tile \<Rightarrow> tile \<Rightarrow> tile \<Rightarrow> tile" where
  "exchange t v u =
     (if session_id u = session_id t then with_rect u v
      else if session_id u = session_id v then with_rect u t else u)"

lemma exchange_content [simp]: "content (exchange t v u) = content u"
    "session_id (exchange t v u) = session_id u"
  by (simp_all add: exchange_def)

lemma valid_exchange:
  assumes "valid_tiles ts" "t \<in> set ts" "v \<in> set ts"
  shows "valid_tiles (map (exchange t v) ts)"
proof -
  have id: "u = w" if "u \<in> set ts" "w \<in> set ts" "session_id u = session_id w" for u w
    using valid_tilesD(2) [OF assms(1)] that by (auto simp: distinct_map inj_on_def)
  have "\<not> overlaps (exchange t v a) (exchange t v b)"
    if "a \<in> set ts" "b \<in> set ts" "session_id a \<noteq> session_id b" for a b
    using valid_tilesD(5) [OF assms(1)] that assms(2,3) id
    by (auto simp: exchange_def)
  moreover have "valid_rect (exchange t v a)" if "a \<in> set ts" for a
    using valid_tilesD(4) [OF assms(1)] that assms(2,3) by (simp add: exchange_def)
  moreover have "map session_id (map (exchange t v) ts) = map session_id ts" by simp
  ultimately show ?thesis
    using assms(1) by (auto simp: valid_tiles_def disjoint_tiles_def comp_def)
qed

lemma move_valid_content:
  assumes "valid_tiles ts"
  shows "valid_tiles (move ts sid x y) \<and>
    mset (map content (move ts sid x y)) = mset (map content ts)"
  using assms
proof (cases rule: move_cases [where sid = sid and x = x and y = y])
  case (free t)
  have vs: "valid_tiles (sortTiles ts)" "t \<in> set (sortTiles ts)" using assms free by simp_all
  have "valid_tiles (move_target t x y # others_of (session_id t) (sortTiles ts))"
    using free valid_tilesD(4) [OF assms] move_target_valid
    by (intro valid_tiles_replace [OF vs]) (auto simp: move_target_def)
  moreover have "mset (map content (move_target t x y # others_of (session_id t) (sortTiles ts))) =
      mset (map content (sortTiles ts))"
    by (rule content_replace [OF vs]) (simp add: move_target_def content_def)
  ultimately show ?thesis using free by (auto simp: comp_def)
next
  case (swap t v)
  have e: "(\<lambda>u. if session_id u = sid then with_rect u v
        else if session_id u = session_id v then with_rect u t else u) = exchange t v"
    using swap by (auto simp: exchange_def)
  have "valid_tiles (map (exchange t v) (sortTiles ts))"
    using assms swap by (intro valid_exchange) auto
  with swap show ?thesis unfolding e by (simp add: image_mset.compositionality comp_def)
qed (use assms in simp)

interpretation move_edit: tile_edit "\<lambda>ts. move ts sid x y"
  by unfold_locales (use move_valid_content in blast)+

lemma mset_two_others:
  assumes "valid_tiles ts" "t \<in> set ts" "v \<in> set ts" "session_id v \<noteq> session_id t"
  shows "mset ts =
    add_mset t (add_mset v (mset (others_of (session_id v) (others_of (session_id t) ts))))"
proof -
  let ?o = "others_of (session_id t) ts"
  have "v \<in> set ?o" using assms(3,4) by (simp add: others_of_def)
  moreover have "distinct (map session_id ?o)"
    by (rule valid_tilesD(2)) (simp add: assms(1))
  ultimately have "mset ?o = add_mset v (mset (others_of (session_id v) ?o))"
    by (intro mset_others_of)
  then show ?thesis
    using mset_others_of [OF valid_tilesD(2) [OF assms(1)] assms(2)] by simp
qed

lemma mset_exchange:
  assumes "valid_tiles ts" "t \<in> set ts" "v \<in> set ts" "session_id v \<noteq> session_id t"
  shows "mset (map (exchange t v) ts) =
    add_mset (with_rect t v) (add_mset (with_rect v t)
      (mset (others_of (session_id v) (others_of (session_id t) ts))))"
proof -
  let ?o = "others_of (session_id v) (others_of (session_id t) ts)"
  have "mset (map (exchange t v) ts) =
      add_mset (exchange t v t) (add_mset (exchange t v v) (mset (map (exchange t v) ?o)))"
    by (simp add: mset_two_others [OF assms])
  moreover have "map (exchange t v) ?o = ?o"
    by (intro map_idI) (auto simp: exchange_def others_of_def)
  ultimately show ?thesis using assms(4) by (simp add: exchange_def)
qed

text \<open>A swap, as the code writes it, is an exchange of two rectangles.\<close>

lemma swap_exchange:
  assumes "valid_tiles ts" "t \<in> set ts" "v \<in> set ts" "session_id v \<noteq> session_id t"
  shows "mset (sortTiles (map (\<lambda>u. if session_id u = session_id t then with_rect u v
      else if session_id u = session_id v then with_rect u t else u) (sortTiles ts))) =
    add_mset (with_rect t v) (add_mset (with_rect v t)
      (mset (others_of (session_id v) (others_of (session_id t) ts))))"
  using mset_exchange [OF assms] by (simp add: exchange_def [abs_def])

text \<open>
  \<open>move\<close> keeps a valid layout valid, keeps every session and widget, and preserves the
  multiset of tile sizes (a swap exchanges sizes between two tiles, a plain move changes none).
\<close>

theorem move_valid:
  assumes "valid_tiles ts"
  shows "valid_tiles (move ts sid x y) \<and>
    mset (map content (move ts sid x y)) = mset (map content ts) \<and>
    mset (map (\<lambda>t. (gw t, gh t)) (move ts sid x y)) = mset (map (\<lambda>t. (gw t, gh t)) ts)"
proof -
  have "mset (map (\<lambda>t. (gw t, gh t)) (move ts sid x y)) = mset (map (\<lambda>t. (gw t, gh t)) ts)"
    using assms
  proof (cases rule: move_cases [where sid = sid and x = x and y = y])
    case (free t)
    have "mset ts = add_mset t (mset (others_of sid ts))"
      using mset_others_of [OF valid_tilesD(2) [OF assms] free(1)] free(2) by simp
    moreover have "mset (others_of sid (sortTiles ts)) = mset (others_of sid ts)"
      by (simp add: others_of_def)
    ultimately show ?thesis using free by (simp add: move_target_def)
  next
    case (swap t v)
    then have "mset (move ts sid x y) = add_mset (with_rect t v) (add_mset (with_rect v t)
        (mset (others_of (session_id v) (others_of (session_id t) ts))))"
      using swap_exchange [OF assms swap(1,3)] by simp
    moreover have "mset ts =
        add_mset t (add_mset v (mset (others_of (session_id v) (others_of (session_id t) ts))))"
      using swap by (intro mset_two_others [OF assms]) simp_all
    ultimately show ?thesis by simp
  qed simp
  then show ?thesis using move_valid_content [OF assms] by blast
qed

text \<open>Two tiles side by side, for the witnesses below.\<close>

definition pair_layout :: "tile list" where
  "pair_layout =
     [tile_at ''a'' \<lparr>gx = 0, gy = 0, gw = 12, gh = 24\<rparr>,
      tile_at ''b'' \<lparr>gx = 12, gy = 0, gw = 12, gh = 12\<rparr>]"

lemma valid_pair_layout: "valid_tiles pair_layout"
  by (simp add: pair_layout_def valid_tiles_Cons valid_rect_def overlaps_def)

theorem move_valid_witness:
  "valid_tiles (move pair_layout ''a'' 9 0) \<and>
   move pair_layout ''a'' 9 0 =
     [tile_at ''b'' \<lparr>gx = 0, gy = 0, gw = 12, gh = 24\<rparr>,
      tile_at ''a'' \<lparr>gx = 12, gy = 0, gw = 12, gh = 12\<rparr>]"
  using move_valid [OF valid_pair_layout, of "''a''" 9 0]
  by (simp add: pair_layout_def) code_simp

text \<open>
  where a moved tile goes. If the rectangle it is dragged to (clamped into the canvas) is
  free, the tile goes there and nothing else changes; otherwise it trades rectangles with the tile
  that covers most of that rectangle, and nothing else changes.
\<close>

theorem move_free_or_swap:
  assumes "valid_tiles ts" "t \<in> set ts"
  shows "let m = move_target t x y in
    if \<forall>u \<in> set ts - {t}. \<not> overlaps u m
    then set (move ts (session_id t) x y) = insert m (set ts - {t})
    else \<exists>v \<in> set ts - {t}. overlaps m v \<and>
      (\<forall>u \<in> set ts - {t}. intersectionArea m u \<le> intersectionArea m v) \<and>
      set (move ts (session_id t) x y) = {with_rect t v, with_rect v t} \<union> (set ts - {t, v})"
proof -
  have inj: "u = t" if "u \<in> set ts" "session_id u = session_id t" for u
    using valid_tilesD(2) [OF assms(1)] that assms(2) by (auto simp: distinct_map inj_on_def)
  have so: "set (others_of (session_id t) (sortTiles ts)) = set ts - {t}"
    using set_others_of [of "sortTiles ts" t] valid_tilesD(2) [OF assms(1)] assms(2) by simp
  show ?thesis
    using assms(1)
  proof (cases rule: move_cases [where sid = "session_id t" and x = x and y = y])
    case unknown
    with assms(2) show ?thesis by auto
  next
    case (free u)
    then have "u = t" using inj by simp
    with free show ?thesis by (simp add: so Let_def)
  next
    case (swap u v)
    then have u: "u = t" using inj by simp
    have set_v: "set (others_of (session_id v) (others_of (session_id t) ts)) = set ts - {t, v}"
      using set_others_of [of "others_of (session_id t) ts" v] swap
        valid_tilesD(2) [OF valid_others_of [OF assms(1)]] so
      by (auto simp: others_of_def)
    have "set (move ts (session_id t) x y) =
        set_mset (add_mset (with_rect t v) (add_mset (with_rect v t)
          (mset (others_of (session_id v) (others_of (session_id t) ts)))))"
      using swap_exchange [OF assms(1,2) swap(3,4)] swap(7) u
      by (metis set_mset_mset)
    then have "set (move ts (session_id t) x y) = {with_rect t v, with_rect v t} \<union> (set ts - {t, v})"
      by (simp add: set_v)
    moreover have "v \<in> set ts - {t}" using swap u by auto
    moreover have "overlaps (move_target t x y) v" "overlaps v (move_target t x y)"
      using swap u overlaps_sym by auto
    ultimately show ?thesis using swap(6) u unfolding Let_def by (metis (no_types, lifting))
  qed
qed

theorem move_free_or_swap_witness:
  "set (move pair_layout ''b'' 12 9) =
     insert (move_target (tile_at ''b'' \<lparr>gx = 12, gy = 0, gw = 12, gh = 12\<rparr>) 12 9)
       (set pair_layout - {tile_at ''b'' \<lparr>gx = 12, gy = 0, gw = 12, gh = 12\<rparr>})"
proof -
  let ?b = "tile_at ''b'' \<lparr>gx = 12, gy = 0, gw = 12, gh = 12\<rparr>"
  have "?b \<in> set pair_layout" by (simp add: pair_layout_def)
  moreover have "\<forall>u \<in> set pair_layout - {?b}. \<not> overlaps u (move_target ?b 12 9)"
    by (auto simp: pair_layout_def move_target_def clamp_def overlaps_def)
  ultimately show ?thesis
    using move_free_or_swap [OF valid_pair_layout, of ?b 12 9] by (simp add: Let_def)
qed

subsection \<open>Resizing\<close>

lemma resize_target_valid: "valid_rect t \<Longrightarrow> valid_rect (resize_target t w h)"
  using clamp_bounds [of 4 "24 - gx t" w] clamp_bounds [of 4 "24 - gy t" h]
  by (auto simp: resize_target_def valid_rect_def)

lemma resize_eq:
  assumes "valid_tiles ts" "t \<in> set ts"
  shows "resize ts (session_id t) w h =
    (if \<forall>u \<in> set ts - {t}. \<not> overlaps u (resize_target t w h)
     then sortTiles (resize_target t w h # others_of (session_id t) (sortTiles ts))
     else sortTiles ts)"
proof -
  have vs: "valid_tiles (sortTiles ts)" using assms by simp
  have "find (\<lambda>u. session_id u = session_id t) (sortTiles ts) = Some t"
    using find_tile [OF vs] assms(2) by simp
  moreover have "set (others_of (session_id t) (sortTiles ts)) = set ts - {t}"
    using set_others_of [of "sortTiles ts" t] valid_tilesD(2) [OF vs] assms(2) by simp
  ultimately show ?thesis
    by (simp add: resize_def fitsAt_all Let_def)
qed

lemma resize_unknown: "sid \<notin> session_id ` set ts \<Longrightarrow> resize ts sid w h = sortTiles ts"
  using find_tile_None [of sid "sortTiles ts"] by (simp add: resize_def)

lemma resize_valid_content:
  assumes "valid_tiles ts"
  shows "valid_tiles (resize ts sid w h) \<and>
    mset (map content (resize ts sid w h)) = mset (map content ts)"
proof (cases "sid \<in> session_id ` set ts")
  case False
  with assms show ?thesis by (simp add: resize_unknown)
next
  case True
  then obtain t where t: "t \<in> set ts" "sid = session_id t" by blast
  let ?r = "resize_target t w h"
  have vs: "valid_tiles (sortTiles ts)" "t \<in> set (sortTiles ts)" using assms t by simp_all
  have "valid_tiles (?r # others_of (session_id t) (sortTiles ts))"
    if "\<forall>u \<in> set ts - {t}. \<not> overlaps u ?r"
    using that resize_target_valid valid_tilesD(4) [OF assms t(1)]
      set_others_of [OF valid_tilesD(2) [OF vs(1)] vs(2)]
    by (intro valid_tiles_replace [OF vs]) (auto simp: resize_target_def)
  moreover have "mset (map content (?r # others_of (session_id t) (sortTiles ts))) =
      mset (map content (sortTiles ts))"
    by (rule content_replace [OF vs]) (simp add: resize_target_def)
  ultimately show ?thesis using assms t by (simp add: resize_eq)
qed

interpretation resize_edit: tile_edit "\<lambda>ts. resize ts sid w h"
  by unfold_locales (use resize_valid_content in blast)+

text \<open>
  \<open>resize\<close> on a valid layout gives a valid layout in which only the named tile changed: it has
  the requested size clamped to at least 4 by 4 and to the canvas, or, when that would overlap
  another tile, the layout is the one before in reading order.
\<close>

theorem resize_exact:
  assumes "valid_tiles ts" "t \<in> set ts"
  shows "valid_tiles (resize ts (session_id t) w h) \<and>
    set (resize ts (session_id t) w h) =
      (if \<forall>u \<in> set ts - {t}. \<not> overlaps u (resize_target t w h)
       then insert (resize_target t w h) (set ts - {t}) else set ts) \<and>
    sorted (map reading_key (resize ts (session_id t) w h))"
proof -
  have "set (others_of (session_id t) (sortTiles ts)) = set ts - {t}"
    using set_others_of [of "sortTiles ts" t] valid_tilesD(2) [OF assms(1)] assms(2) by simp
  then have "set (resize ts (session_id t) w h) =
      (if \<forall>u \<in> set ts - {t}. \<not> overlaps u (resize_target t w h)
       then insert (resize_target t w h) (set ts - {t}) else set ts)"
    by (simp add: resize_eq [OF assms])
  moreover have "sorted (map reading_key (resize ts (session_id t) w h))"
    by (simp add: resize_eq [OF assms] sorted_sortTiles)
  ultimately show ?thesis using resize_valid_content [OF assms(1)] by blast
qed

theorem resize_exact_witness:
  "tile_at ''b'' \<lparr>gx = 12, gy = 0, gw = 12, gh = 12\<rparr> \<in> set pair_layout \<and>
   set (resize pair_layout ''b'' 6 40) =
     {tile_at ''a'' \<lparr>gx = 0, gy = 0, gw = 12, gh = 24\<rparr>,
      tile_at ''b'' \<lparr>gx = 12, gy = 0, gw = 6, gh = 24\<rparr>}"
proof -
  let ?b = "tile_at ''b'' \<lparr>gx = 12, gy = 0, gw = 12, gh = 12\<rparr>"
  have b: "?b \<in> set pair_layout" by (simp add: pair_layout_def)
  have "resize_target ?b 6 40 = tile_at ''b'' \<lparr>gx = 12, gy = 0, gw = 6, gh = 24\<rparr>"
    by (simp add: resize_target_def clamp_def tile_at_def)
  moreover have "set pair_layout - {?b} = {tile_at ''a'' \<lparr>gx = 0, gy = 0, gw = 12, gh = 24\<rparr>}"
    by (auto simp: pair_layout_def tile_at_def)
  ultimately show ?thesis
    using resize_exact [OF valid_pair_layout b, of 6 40] b by (simp add: overlaps_def insert_commute)
qed

end
