(* ===== verification/Seams.thy ===== *)
theory Seams
  imports Grid_Motion
begin

section \<open>Seams between panes and dragged edges\<close>

text \<open>
  The first part of \<open>web/src/components/workspace/workspace-grid-helpers.ts\<close>: the draggable
  seams of a layout (\<open>gridDividers\<close>), dragging one (\<open>moveDivider\<close>), and dragging the
  edges of a single tile (\<open>moveEdge\<close>, \<open>resizeEdges\<close>). Both drags are \<open>tile_edit\<close>s.
  A seam is characterised by the cells where panes meet across it, and a drag by where every edge
  on it ends up.
\<close>

subsection \<open>Pixels\<close>

record pixel_rect =
  px_left :: rat
  px_top :: rat
  px_width :: rat
  px_height :: rat

text \<open>Pixel arithmetic is read over the rationals.\<close>

definition tilePixelRect :: "'a rect_scheme \<Rightarrow> rat \<Rightarrow> rat \<Rightarrow> pixel_rect" where
  "tilePixelRect t width height =
     \<lparr>px_left = of_int (gx t) / of_int GRID_SIZE * width,
      px_top = of_int (gy t) / of_int GRID_SIZE * height,
      px_width = of_int (gw t) / of_int GRID_SIZE * width,
      px_height = of_int (gh t) / of_int GRID_SIZE * height\<rparr>"

subsection \<open>Runs\<close>

type_synonym run = "int \<times> int"

fun fuse_runs :: "run \<Rightarrow> run list \<Rightarrow> run list" where
  "fuse_runs cur [] = [cur]"
| "fuse_runs cur (r # rs) =
     (if fst r \<le> snd cur then fuse_runs (fst cur, max (snd cur) (snd r)) rs
      else cur # fuse_runs r rs)"

definition mergeRuns :: "run list \<Rightarrow> run list" where
  "mergeRuns runs = (case sort runs of [] \<Rightarrow> [] | r # rs \<Rightarrow> fuse_runs r rs)"

definition run_cells :: "run list \<Rightarrow> int set" where
  "run_cells runs = (\<Union>(s, e) \<in> set runs. {s ..< e})"

lemma run_cells_simps [simp]:
  "run_cells [] = {}" "run_cells (r # rs) = {fst r ..< snd r} \<union> run_cells rs"
  by (auto simp: run_cells_def split_beta)

lemma run_cells_set: "set rs = set qs \<Longrightarrow> run_cells rs = run_cells qs"
  by (simp add: run_cells_def)

lemma run_cells_iff: "c \<in> run_cells rs \<longleftrightarrow> (\<exists>r \<in> set rs. fst r \<le> c \<and> c < snd r)"
  by (auto simp: run_cells_def split_beta)

lemma fuse_runs_bounds:
  assumes "fst r < snd r" "\<forall>q \<in> set rs. fst q < snd q" "sorted (map fst (r # rs))"
  shows "\<forall>q \<in> set (fuse_runs r rs). fst q < snd q \<and> fst r \<le> fst q"
  using assms
proof (induction r rs rule: fuse_runs.induct)
  case (2 r q qs)
  show ?case
  proof (cases "fst q \<le> snd r")
    case True
    with "2.IH"(1) "2.prems" show ?thesis by simp
  next
    case False
    with "2.IH"(2) "2.prems" have "\<forall>p \<in> set (fuse_runs q qs). fst p < snd p \<and> fst q \<le> fst p" by simp
    moreover have "fst r \<le> fst q" using "2.prems"(3) by simp
    ultimately show ?thesis using False "2.prems"(1) by (simp, meson order_trans)
  qed
qed simp

lemma fuse_runs_cells:
  assumes "fst r < snd r" "\<forall>q \<in> set rs. fst q < snd q" "sorted (map fst (r # rs))"
  shows "run_cells (fuse_runs r rs) = run_cells (r # rs)"
  using assms by (induction r rs rule: fuse_runs.induct) auto

lemma fuse_runs_apart:
  assumes "fst r < snd r" "\<forall>q \<in> set rs. fst q < snd q" "sorted (map fst (r # rs))"
  shows "sorted_wrt (\<lambda>p q. snd p < fst q) (fuse_runs r rs)"
  using assms
proof (induction r rs rule: fuse_runs.induct)
  case (2 r q qs)
  show ?case
  proof (cases "fst q \<le> snd r")
    case True
    with 2 show ?thesis by simp
  next
    case False
    with 2 fuse_runs_bounds [of q qs] show ?thesis by fastforce
  qed
qed simp

lemma mergeRuns_spec:
  assumes "\<forall>r \<in> set runs. fst r < snd r"
  shows "run_cells (mergeRuns runs) = run_cells runs"
    "sorted_wrt (\<lambda>p q. snd p < fst q) (mergeRuns runs)"
    "\<forall>r \<in> set (mergeRuns runs). fst r < snd r"
proof -
  have ord: "sorted (map fst (sort runs))"
  proof (rule sorted_wrt_mono_rel [THEN sorted_wrt_map [THEN iffD2]])
    show "sorted (sort runs)" by simp
  qed (auto simp: less_eq_prod_def)
  have set: "set (sort runs) = set runs" by simp
  have "run_cells (mergeRuns runs) = run_cells runs \<and>
    sorted_wrt (\<lambda>p q. snd p < fst q) (mergeRuns runs) \<and>
    (\<forall>r \<in> set (mergeRuns runs). fst r < snd r)"
  proof (cases "sort runs")
    case Nil
    then show ?thesis using set by (simp add: mergeRuns_def)
  next
    case (Cons r rs)
    then have p: "fst r < snd r" "\<forall>q \<in> set rs. fst q < snd q" "sorted (map fst (r # rs))"
      using assms set ord by auto
    have "mergeRuns runs = fuse_runs r rs" by (simp add: mergeRuns_def Cons)
    moreover have "run_cells (r # rs) = run_cells runs" using run_cells_set [OF set] Cons by simp
    ultimately show ?thesis
      using fuse_runs_cells [OF p] fuse_runs_apart [OF p] fuse_runs_bounds [OF p] by simp
  qed
  then show "run_cells (mergeRuns runs) = run_cells runs"
    "sorted_wrt (\<lambda>p q. snd p < fst q) (mergeRuns runs)"
    "\<forall>r \<in> set (mergeRuns runs). fst r < snd r" by blast+
qed

subsection \<open>Seams\<close>

datatype divider_axis = Vertical | Horizontal

record grid_divider =
  div_id :: string
  div_axis :: divider_axis
  div_line :: int
  div_start :: int
  div_end :: int
  div_before :: "string list"
  div_after :: "string list"
  div_min :: int
  div_max :: int

fun axis_name :: "divider_axis \<Rightarrow> string" where
  "axis_name Vertical = ''vertical''"
| "axis_name Horizontal = ''horizontal''"

text \<open>The four accessors a layout is read through on one axis.\<close>

fun lead :: "divider_axis \<Rightarrow> 'a rect_scheme \<Rightarrow> int" where
  "lead Vertical t = gx t"
| "lead Horizontal t = gy t"

fun extent :: "divider_axis \<Rightarrow> 'a rect_scheme \<Rightarrow> int" where
  "extent Vertical t = gw t"
| "extent Horizontal t = gh t"

fun crossLead :: "divider_axis \<Rightarrow> 'a rect_scheme \<Rightarrow> int" where
  "crossLead Vertical t = gy t"
| "crossLead Horizontal t = gx t"

fun crossSize :: "divider_axis \<Rightarrow> 'a rect_scheme \<Rightarrow> int" where
  "crossSize Vertical t = gh t"
| "crossSize Horizontal t = gw t"

definition shared_run :: "divider_axis \<Rightarrow> tile \<Rightarrow> tile \<Rightarrow> run" where
  "shared_run ax l r =
     (max (crossLead ax l) (crossLead ax r),
      min (crossLead ax l + crossSize ax l) (crossLead ax r + crossSize ax r))"

definition seam_runs :: "divider_axis \<Rightarrow> tile list \<Rightarrow> tile list \<Rightarrow> run list" where
  "seam_runs ax bs as =
     mergeRuns (concat (map (\<lambda>l. filter (\<lambda>r. snd r > fst r) (map (shared_run ax l) as)) bs))"

text \<open>\<open>Math.max(1, ...)\<close> and \<open>Math.min(GRID_SIZE - 1, ...)\<close>.\<close>

definition seam_min :: "divider_axis \<Rightarrow> tile list \<Rightarrow> int" where
  "seam_min ax bs = fold max (map (\<lambda>t. lead ax t + MIN_TILE_SIZE) bs) 1"

definition seam_max :: "divider_axis \<Rightarrow> tile list \<Rightarrow> int" where
  "seam_max ax as = fold min (map (\<lambda>t. lead ax t + extent ax t - MIN_TILE_SIZE) as) (GRID_SIZE - 1)"

definition seam :: "divider_axis \<Rightarrow> int \<Rightarrow> tile list \<Rightarrow> tile list \<Rightarrow> nat \<times> run \<Rightarrow> grid_divider" where
  "seam ax line bs as ir =
     \<lparr>div_id = axis_name ax @ ''-'' @ nat_str (nat line) @ ''-'' @ nat_str (fst ir),
      div_axis = ax, div_line = line, div_start = fst (snd ir), div_end = snd (snd ir),
      div_before = map session_id bs, div_after = map session_id as,
      div_min = seam_min ax bs, div_max = seam_max ax as\<rparr>"

text \<open>One turn of the loop over the grid lines.\<close>

definition dividers_at :: "divider_axis \<Rightarrow> tile list \<Rightarrow> int \<Rightarrow> grid_divider list" where
  "dividers_at ax tiles line =
     (let bs = filter (\<lambda>t. lead ax t + extent ax t = line) tiles;
          as = filter (\<lambda>t. lead ax t = line) tiles
      in if bs = [] \<or> as = [] then []
         else if seam_min ax bs > seam_max ax as then []
         else map (seam ax line bs as) (enumerate 0 (seam_runs ax bs as)))"

definition dividersOnAxis :: "tile list \<Rightarrow> divider_axis \<Rightarrow> grid_divider list" where
  "dividersOnAxis tiles ax = concat (map (dividers_at ax tiles) [1..GRID_SIZE - 1])"

definition gridDividers :: "tile list \<Rightarrow> grid_divider list" where
  "gridDividers tiles = dividersOnAxis tiles Vertical @ dividersOnAxis tiles Horizontal"

definition clampDividerLine :: "grid_divider \<Rightarrow> rat \<Rightarrow> int" where
  "clampDividerLine d line = min (div_max d) (max (div_min d) (js_round line))"

text \<open>A tile with its trailing, or its leading, edge on a line, the opposite edge where it is.\<close>

fun trail_to :: "divider_axis \<Rightarrow> int \<Rightarrow> tile \<Rightarrow> tile" where
  "trail_to Vertical p t = t\<lparr>gw := p - gx t\<rparr>"
| "trail_to Horizontal p t = t\<lparr>gh := p - gy t\<rparr>"

fun lead_to :: "divider_axis \<Rightarrow> int \<Rightarrow> tile \<Rightarrow> tile" where
  "lead_to Vertical p t = t\<lparr>gx := p, gw := gx t + gw t - p\<rparr>"
| "lead_to Horizontal p t = t\<lparr>gy := p, gh := gy t + gh t - p\<rparr>"

definition seam_move :: "grid_divider \<Rightarrow> int \<Rightarrow> tile \<Rightarrow> tile" where
  "seam_move d target t =
     (if session_id t \<in> set (div_before d) then trail_to (div_axis d) target t
      else if session_id t \<in> set (div_after d) then lead_to (div_axis d) target t
      else t)"

definition moveDivider :: "tile list \<Rightarrow> grid_divider \<Rightarrow> rat \<Rightarrow> tile list" where
  "moveDivider tiles d line =
     (let target = clampDividerLine d line in
      if target = div_line d then tiles
      else let nxt = map (seam_move d target) tiles in
        if \<not> validates nxt then tiles else sortTiles nxt)"

subsection \<open>Where seams are\<close>

text \<open>Cells in the coordinates of an axis.\<close>

definition at_cell :: "divider_axis \<Rightarrow> int \<Rightarrow> int \<Rightarrow> 'a rect_scheme \<Rightarrow> bool" where
  "at_cell ax m c t \<longleftrightarrow>
     lead ax t \<le> m \<and> m < lead ax t + extent ax t \<and>
     crossLead ax t \<le> c \<and> c < crossLead ax t + crossSize ax t"

definition crosses :: "divider_axis \<Rightarrow> int \<Rightarrow> 'a rect_scheme \<Rightarrow> bool" where
  "crosses ax c t \<longleftrightarrow> crossLead ax t \<le> c \<and> c < crossLead ax t + crossSize ax t"

lemma at_cell_cells:
  "at_cell Vertical m c t \<longleftrightarrow> (m, c) \<in> cells t" "at_cell Horizontal m c t \<longleftrightarrow> (c, m) \<in> cells t"
  by (auto simp: at_cell_def cells_def)

lemma overlaps_at_cell:
  assumes "valid_rect a" "valid_rect b"
  shows "overlaps a b \<longleftrightarrow> (\<exists>m c. at_cell ax m c a \<and> at_cell ax m c b)"
proof -
  have "overlaps a b \<longleftrightarrow> cells a \<inter> cells b \<noteq> {}"
    using assms by (intro overlaps_cells) (auto simp: valid_rect_def)
  then show ?thesis by (cases ax) (auto simp: at_cell_cells)
qed

lemma valid_rect_axis:
  "valid_rect t \<longleftrightarrow>
     0 \<le> lead ax t \<and> lead ax t + extent ax t \<le> 24 \<and> 4 \<le> extent ax t \<and>
     0 \<le> crossLead ax t \<and> crossLead ax t + crossSize ax t \<le> 24 \<and> 4 \<le> crossSize ax t"
  by (cases ax) (auto simp: valid_rect_def)

lemma edge_to_simps [simp]:
  "lead ax (trail_to ax p t) = lead ax t" "extent ax (trail_to ax p t) = p - lead ax t"
  "lead ax (lead_to ax p t) = p" "extent ax (lead_to ax p t) = lead ax t + extent ax t - p"
  "crossLead ax (trail_to ax p t) = crossLead ax t" "crossSize ax (trail_to ax p t) = crossSize ax t"
  "crossLead ax (lead_to ax p t) = crossLead ax t" "crossSize ax (lead_to ax p t) = crossSize ax t"
  "session_id (trail_to ax p t) = session_id t" "session_id (lead_to ax p t) = session_id t"
  "widget (trail_to ax p t) = widget t" "widget (lead_to ax p t) = widget t"
  "content (trail_to ax p t) = content t" "content (lead_to ax p t) = content t"
  by (cases ax; simp add: content_def)+

lemma seam_move_simps [simp]:
  "session_id (seam_move d p t) = session_id t" "content (seam_move d p t) = content t"
  by (simp_all add: seam_move_def)

lemma seam_runs_spec:
  "c \<in> run_cells (seam_runs ax bs as) \<longleftrightarrow> (\<exists>b \<in> set bs. \<exists>a \<in> set as. crosses ax c b \<and> crosses ax c a)"
  "sorted_wrt (\<lambda>p q. snd p < fst q) (seam_runs ax bs as)"
  "\<forall>r \<in> set (seam_runs ax bs as). fst r < snd r"
proof -
  let ?rs = "concat (map (\<lambda>l. filter (\<lambda>r. snd r > fst r) (map (shared_run ax l) as)) bs)"
  have pos: "\<forall>r \<in> set ?rs. fst r < snd r" by auto
  have shared: "fst (shared_run ax b a) \<le> c \<and> c < snd (shared_run ax b a) \<longleftrightarrow>
      crosses ax c b \<and> crosses ax c a" for a b
    by (auto simp: shared_run_def crosses_def)
  have "c \<in> run_cells ?rs \<longleftrightarrow> (\<exists>b \<in> set bs. \<exists>a \<in> set as. crosses ax c b \<and> crosses ax c a)"
    (is "?L \<longleftrightarrow> ?R")
  proof
    assume ?L
    then obtain b a where "b \<in> set bs" "a \<in> set as"
        "fst (shared_run ax b a) \<le> c \<and> c < snd (shared_run ax b a)"
      unfolding run_cells_iff by auto
    then show ?R unfolding shared by blast
  next
    assume ?R
    then obtain b a where m: "b \<in> set bs" "a \<in> set as"
        and "fst (shared_run ax b a) \<le> c \<and> c < snd (shared_run ax b a)"
      unfolding shared by blast
    moreover from this have "shared_run ax b a \<in> set ?rs" by auto
    ultimately show ?L unfolding run_cells_iff by blast
  qed
  with mergeRuns_spec [OF pos, folded seam_runs_def] show
    "c \<in> run_cells (seam_runs ax bs as) \<longleftrightarrow> (\<exists>b \<in> set bs. \<exists>a \<in> set as. crosses ax c b \<and> crosses ax c a)"
    "sorted_wrt (\<lambda>p q. snd p < fst q) (seam_runs ax bs as)"
    "\<forall>r \<in> set (seam_runs ax bs as). fst r < snd r"
    by blast+
qed

lemma fold_max_le: "fold max xs m \<le> (k::int) \<longleftrightarrow> m \<le> k \<and> (\<forall>x \<in> set xs. x \<le> k)"
  by (induction xs arbitrary: m) auto

lemma fold_min_ge: "(k::int) \<le> fold min xs m \<longleftrightarrow> k \<le> m \<and> (\<forall>x \<in> set xs. k \<le> x)"
  by (induction xs arbitrary: m) auto

abbreviation enders :: "divider_axis \<Rightarrow> int \<Rightarrow> tile list \<Rightarrow> tile list" where
  "enders ax line ts \<equiv> filter (\<lambda>t. lead ax t + extent ax t = line) ts"

abbreviation starters :: "divider_axis \<Rightarrow> int \<Rightarrow> tile list \<Rightarrow> tile list" where
  "starters ax line ts \<equiv> filter (\<lambda>t. lead ax t = line) ts"

lemma seam_min_le: "seam_min ax bs \<le> p \<longleftrightarrow> 1 \<le> p \<and> (\<forall>b \<in> set bs. lead ax b + 4 \<le> p)"
  by (simp add: seam_min_def fold_max_le)

lemma seam_max_ge: "p \<le> seam_max ax as \<longleftrightarrow> p \<le> 23 \<and> (\<forall>a \<in> set as. p \<le> lead ax a + extent ax a - 4)"
  by (simp add: seam_max_def fold_min_ge)

lemma dividers_at_iff:
  "d \<in> set (dividers_at ax ts line) \<longleftrightarrow>
     enders ax line ts \<noteq> [] \<and> starters ax line ts \<noteq> [] \<and>
     seam_min ax (enders ax line ts) \<le> seam_max ax (starters ax line ts) \<and>
     d \<in> seam ax line (enders ax line ts) (starters ax line ts) `
       set (enumerate 0 (seam_runs ax (enders ax line ts) (starters ax line ts)))"
  unfolding dividers_at_def Let_def not_less [symmetric] by simp

text \<open>The fields of a seam.\<close>

lemma dividers_at_fields:
  assumes "d \<in> set (dividers_at ax ts line)"
  shows "div_axis d = ax" "div_line d = line"
    "div_before d = map session_id (enders ax line ts)"
    "div_after d = map session_id (starters ax line ts)"
    "div_min d = seam_min ax (enders ax line ts)" "div_max d = seam_max ax (starters ax line ts)"
    "(div_start d, div_end d) \<in> set (seam_runs ax (enders ax line ts) (starters ax line ts))"
    "seam_min ax (enders ax line ts) \<le> seam_max ax (starters ax line ts)"
proof -
  from assms obtain i r where d: "d = seam ax line (enders ax line ts) (starters ax line ts) (i, r)"
    and r: "(i, r) \<in> set (enumerate 0 (seam_runs ax (enders ax line ts) (starters ax line ts)))"
    and m: "seam_min ax (enders ax line ts) \<le> seam_max ax (starters ax line ts)"
    unfolding dividers_at_iff by auto
  from d show "div_axis d = ax" "div_line d = line"
    "div_before d = map session_id (enders ax line ts)"
    "div_after d = map session_id (starters ax line ts)"
    "div_min d = seam_min ax (enders ax line ts)" "div_max d = seam_max ax (starters ax line ts)"
    by (simp_all add: seam_def)
  from r have "r \<in> set (seam_runs ax (enders ax line ts) (starters ax line ts))"
    by (auto simp: in_set_enumerate_eq)
  then show "(div_start d, div_end d) \<in> set (seam_runs ax (enders ax line ts) (starters ax line ts))"
    by (simp add: d seam_def)
  show "seam_min ax (enders ax line ts) \<le> seam_max ax (starters ax line ts)" by (fact m)
qed

lemma set_dividersOnAxis:
  "set (dividersOnAxis ts ax) = (\<Union>line \<in> {1..23}. set (dividers_at ax ts line))"
proof -
  have "GRID_SIZE - 1 = 23" by simp
  then show ?thesis unfolding dividersOnAxis_def set_concat set_map set_upto image_image by argo
qed

lemma gridDividers_iff:
  "d \<in> set (gridDividers ts) \<longleftrightarrow> 1 \<le> div_line d \<and> div_line d \<le> 23 \<and>
     d \<in> set (dividers_at (div_axis d) ts (div_line d))"
proof -
  have "d \<in> set (gridDividers ts) \<longleftrightarrow>
      (\<exists>line. line \<in> {1..23} \<and> d \<in> set (dividers_at Vertical ts line)) \<or>
      (\<exists>line. line \<in> {1..23} \<and> d \<in> set (dividers_at Horizontal ts line))"
    unfolding gridDividers_def set_append set_dividersOnAxis Un_iff UN_iff Bex_def ..
  also have "\<dots> \<longleftrightarrow> div_line d \<in> {1..23} \<and> d \<in> set (dividers_at (div_axis d) ts (div_line d))"
  proof
    assume "(\<exists>line. line \<in> {1..23} \<and> d \<in> set (dividers_at Vertical ts line)) \<or>
      (\<exists>line. line \<in> {1..23} \<and> d \<in> set (dividers_at Horizontal ts line))"
    then obtain ax line where "line \<in> {1..23}" "d \<in> set (dividers_at ax ts line)" by blast
    with dividers_at_fields(1,2) [OF this(2)]
    show "div_line d \<in> {1..23} \<and> d \<in> set (dividers_at (div_axis d) ts (div_line d))" by metis
  next
    assume "div_line d \<in> {1..23} \<and> d \<in> set (dividers_at (div_axis d) ts (div_line d))"
    then show "(\<exists>line. line \<in> {1..23} \<and> d \<in> set (dividers_at Vertical ts line)) \<or>
      (\<exists>line. line \<in> {1..23} \<and> d \<in> set (dividers_at Horizontal ts line))"
      by (cases "div_axis d") metis+
  qed
  finally show ?thesis by (simp only: atLeastAtMost_iff conj_assoc)
qed

lemma dividers_at_run:
  "(\<exists>d \<in> set (dividers_at ax ts line). div_start d \<le> c \<and> c < div_end d) \<longleftrightarrow>
     enders ax line ts \<noteq> [] \<and> starters ax line ts \<noteq> [] \<and>
     seam_min ax (enders ax line ts) \<le> seam_max ax (starters ax line ts) \<and>
     c \<in> run_cells (seam_runs ax (enders ax line ts) (starters ax line ts))"
    (is "?L \<longleftrightarrow> ?R")
proof
  assume ?L
  then obtain d where d: "d \<in> set (dividers_at ax ts line)" "div_start d \<le> c" "c < div_end d" by blast
  have "c \<in> run_cells (seam_runs ax (enders ax line ts) (starters ax line ts))"
    unfolding run_cells_iff by (rule bexI [OF _ dividers_at_fields(7) [OF d(1)]]) (use d in simp)
  with d(1) show ?R unfolding dividers_at_iff by blast
next
  assume R: ?R
  then obtain r where r: "r \<in> set (seam_runs ax (enders ax line ts) (starters ax line ts))"
    "fst r \<le> c" "c < snd r" unfolding run_cells_iff by blast
  from r(1) obtain i where "i < length (seam_runs ax (enders ax line ts) (starters ax line ts))"
    "seam_runs ax (enders ax line ts) (starters ax line ts) ! i = r" unfolding in_set_conv_nth by blast
  then have "(i, r) \<in> set (enumerate 0 (seam_runs ax (enders ax line ts) (starters ax line ts)))"
    by (simp add: in_set_enumerate_eq)
  then have "seam ax line (enders ax line ts) (starters ax line ts) (i, r) \<in> set (dividers_at ax ts line)"
    using R unfolding dividers_at_iff by blast
  then show ?L by (rule bexI [rotated]) (use r in \<open>simp add: seam_def\<close>)
qed

lemma seam_bounds:
  assumes "valid_tiles ts" "1 \<le> line" "line \<le> 23"
  shows "seam_min ax (enders ax line ts) \<le> line" "line \<le> seam_max ax (starters ax line ts)"
proof -
  have v: "t \<in> set ts \<Longrightarrow> 4 \<le> extent ax t" for t
    using valid_tilesD(4) [OF assms(1)] valid_rect_axis by blast
  show "seam_min ax (enders ax line ts) \<le> line" using assms(2) v by (auto simp: seam_min_le)
  show "line \<le> seam_max ax (starters ax line ts)" using assms(3) v by (force simp: seam_max_ge)
qed

text \<open>
  In a valid layout the draggable seams are exactly the places where two panes meet: a cell of a
  grid line lies on a seam if and only if one pane ends and another begins at that line there. No
  seam is pinned: its line lies between its bounds, which are the lines at which every pane on it
  keeps at least four cells.
\<close>

theorem gridDividers_seams:
  assumes "valid_tiles ts"
  shows "((\<exists>d \<in> set (gridDividers ts).
        div_axis d = ax \<and> div_line d = line \<and> div_start d \<le> c \<and> c < div_end d) \<longleftrightarrow>
      (\<exists>b \<in> set ts. \<exists>a \<in> set ts. lead ax b + extent ax b = line \<and> lead ax a = line \<and>
        crosses ax c b \<and> crosses ax c a)) \<and>
    (\<forall>d \<in> set (gridDividers ts). div_min d \<le> div_line d \<and> div_line d \<le> div_max d)"
proof
  have "(\<exists>d \<in> set (gridDividers ts).
        div_axis d = ax \<and> div_line d = line \<and> div_start d \<le> c \<and> c < div_end d) \<longleftrightarrow>
      1 \<le> line \<and> line \<le> 23 \<and> (\<exists>d \<in> set (dividers_at ax ts line). div_start d \<le> c \<and> c < div_end d)"
    unfolding Bex_def gridDividers_iff using dividers_at_fields(1,2) by metis
  also have "\<dots> \<longleftrightarrow> 1 \<le> line \<and> line \<le> 23 \<and>
      c \<in> run_cells (seam_runs ax (enders ax line ts) (starters ax line ts))"
  proof -
    let ?bs = "enders ax line ts" and ?as = "starters ax line ts"
    have "c \<in> run_cells (seam_runs ax ?bs ?as) \<Longrightarrow> ?bs \<noteq> [] \<and> ?as \<noteq> []"
      unfolding seam_runs_spec(1) by (metis empty_iff list.set(1))
    then show ?thesis
      using seam_bounds [OF assms, of line ax] unfolding dividers_at_run by (meson order_trans)
  qed
  also have "\<dots> \<longleftrightarrow> (\<exists>b \<in> set ts. \<exists>a \<in> set ts. lead ax b + extent ax b = line \<and> lead ax a = line \<and>
        crosses ax c b \<and> crosses ax c a)"
  proof -
    have "1 \<le> line \<and> line \<le> 23" if "b \<in> set ts" "a \<in> set ts" "lead ax b + extent ax b = line" "lead ax a = line"
      for a b
      using that valid_tilesD(4) [OF assms] valid_rect_axis [of a ax] valid_rect_axis [of b ax] by fastforce
    then show ?thesis unfolding seam_runs_spec(1) by auto
  qed
  finally show "(\<exists>d \<in> set (gridDividers ts).
        div_axis d = ax \<and> div_line d = line \<and> div_start d \<le> c \<and> c < div_end d) \<longleftrightarrow>
      (\<exists>b \<in> set ts. \<exists>a \<in> set ts. lead ax b + extent ax b = line \<and> lead ax a = line \<and>
        crosses ax c b \<and> crosses ax c a)" .
next
  show "\<forall>d \<in> set (gridDividers ts). div_min d \<le> div_line d \<and> div_line d \<le> div_max d"
  proof
    fix d assume "d \<in> set (gridDividers ts)"
    then have d: "1 \<le> div_line d" "div_line d \<le> 23" "d \<in> set (dividers_at (div_axis d) ts (div_line d))"
      by (simp_all add: gridDividers_iff)
    show "div_min d \<le> div_line d \<and> div_line d \<le> div_max d"
      unfolding dividers_at_fields(5,6) [OF d(3)] using seam_bounds [OF assms d(1,2)] by blast
  qed
qed

subsection \<open>Dragging a seam\<close>

lemma map_seam_move_content: "map content (map (seam_move d p) ts) = map content ts"
  by simp

lemma moveDivider_valid_content:
  assumes "valid_tiles ts"
  shows "valid_tiles (moveDivider ts d line)"
    "mset (map content (moveDivider ts d line)) = mset (map content ts)"
proof -
  have "image_mset content (mset (map (seam_move d p) ts)) = image_mset content (mset ts)" for p
    by (metis map_seam_move_content mset_map)
  then show "mset (map content (moveDivider ts d line)) = mset (map content ts)"
    by (simp add: moveDivider_def Let_def)
  show "valid_tiles (moveDivider ts d line)" using assms by (simp add: moveDivider_def Let_def)
qed

interpretation divider_edit: tile_edit "\<lambda>ts. moveDivider ts d line"
  by unfold_locales (fact moveDivider_valid_content)+

text \<open>
  A seam is full when the panes on its two sides cover the same stretch of it. Dragging such a
  seam never fails.
\<close>

definition full_seam :: "grid_divider \<Rightarrow> tile list \<Rightarrow> bool" where
  "full_seam d ts \<longleftrightarrow>
     list_all (\<lambda>c.
        list_ex (crosses (div_axis d) c) (enders (div_axis d) (div_line d) ts) =
        list_ex (crosses (div_axis d) c) (starters (div_axis d) (div_line d) ts)) [0..GRID_SIZE - 1]"

lemma full_seamD:
  assumes "full_seam d ts" "valid_tiles ts" "crosses (div_axis d) c t" "t \<in> set ts"
  shows "(\<exists>b \<in> set (enders (div_axis d) (div_line d) ts). crosses (div_axis d) c b) \<longleftrightarrow>
    (\<exists>a \<in> set (starters (div_axis d) (div_line d) ts). crosses (div_axis d) c a)"
proof -
  have "c \<in> {0..GRID_SIZE - 1}"
    using assms(3) valid_rect_axis [of t "div_axis d"] valid_tilesD(4) [OF assms(2,4)]
    by (simp add: crosses_def)
  with assms(1) show ?thesis by (simp only: full_seam_def list_ex_iff list_all_iff set_upto)
qed

lemma seam_sides:
  assumes "valid_tiles ts" "d \<in> set (gridDividers ts)" "t \<in> set ts"
  shows "session_id t \<in> set (div_before d) \<longleftrightarrow> lead (div_axis d) t + extent (div_axis d) t = div_line d"
    "session_id t \<in> set (div_after d) \<longleftrightarrow> lead (div_axis d) t = div_line d"
proof -
  have d: "d \<in> set (dividers_at (div_axis d) ts (div_line d))" using assms(2) by (simp add: gridDividers_iff)
  have inj: "inj_on session_id (set ts)" using valid_tilesD(2) [OF assms(1)] by (simp add: distinct_map)
  have mem: "session_id t \<in> session_id ` {u \<in> set ts. P u} \<longleftrightarrow> P t" for P
    using inj_on_image_mem_iff [OF inj assms(3), of "{u \<in> set ts. P u}"] assms(3) by auto
  show "session_id t \<in> set (div_before d) \<longleftrightarrow> lead (div_axis d) t + extent (div_axis d) t = div_line d"
    unfolding dividers_at_fields(3) [OF d] set_map set_filter mem ..
  show "session_id t \<in> set (div_after d) \<longleftrightarrow> lead (div_axis d) t = div_line d"
    unfolding dividers_at_fields(4) [OF d] set_map set_filter mem ..
qed

text \<open>Which cells a tile has after the drag.\<close>

lemma at_cell_seam_move:
  assumes "valid_tiles ts" "d \<in> set (gridDividers ts)" "t \<in> set ts" "ax = div_axis d"
  shows "at_cell ax m c (seam_move d p t) \<longleftrightarrow>
    crosses ax c t \<and>
    (if lead ax t + extent ax t = div_line d then lead ax t \<le> m \<and> m < p
     else if lead ax t = div_line d then p \<le> m \<and> m < lead ax t + extent ax t
     else lead ax t \<le> m \<and> m < lead ax t + extent ax t)"
  using seam_sides [OF assms(1-3)] assms(4) by (auto simp: seam_move_def at_cell_def crosses_def)

text \<open>
  Every cell of the dragged layout was covered before: by the same tile, or by a tile on the other
  side of the seam when the cell is one the seam swept over.
\<close>

lemma seam_owner:
  assumes "valid_tiles ts" "d \<in> set (gridDividers ts)" "full_seam d ts" "u \<in> set ts"
    and "ax = div_axis d" "div_min d \<le> p" "p \<le> div_max d" "at_cell ax m c (seam_move d p u)"
  obtains v where "v \<in> set ts" "at_cell ax m c v"
    "v = u \<or>
     lead ax u + extent ax u = div_line d \<and> lead ax v = div_line d \<and> div_line d \<le> m \<and> m < p \<or>
     lead ax u = div_line d \<and> lead ax v + extent ax v = div_line d \<and> p \<le> m \<and> m < div_line d"
proof -
  let ?l = "div_line d"
  have d: "d \<in> set (dividers_at ax ts ?l)" using assms(2,5) by (simp add: gridDividers_iff)
  note c = assms(8) [unfolded at_cell_seam_move [OF assms(1,2,4,5)]]
  have full: "(\<exists>b \<in> set (enders ax ?l ts). crosses ax c b) \<longleftrightarrow> (\<exists>a \<in> set (starters ax ?l ts). crosses ax c a)"
    using full_seamD [OF assms(3,1) _ assms(4), folded assms(5)] c by blast
  have bounds: "b \<in> set ts \<Longrightarrow> lead ax b + extent ax b = ?l \<Longrightarrow> lead ax b + 4 \<le> p"
    "a \<in> set ts \<Longrightarrow> lead ax a = ?l \<Longrightarrow> p \<le> lead ax a + extent ax a - 4" for a b
    using assms(6,7) unfolding dividers_at_fields(5,6) [OF d] seam_min_le seam_max_ge by auto
  consider "at_cell ax m c u"
    | "lead ax u + extent ax u = ?l" "?l \<le> m" "m < p"
    | "lead ax u = ?l" "lead ax u + extent ax u \<noteq> ?l" "p \<le> m" "m < ?l"
    using c by (auto simp: at_cell_def crosses_def split: if_splits) linarith+
  then show ?thesis
  proof cases
    case 1
    with that assms(4) show ?thesis by blast
  next
    case 2
    then obtain a where a: "a \<in> set ts" "lead ax a = ?l" "crosses ax c a" using full c assms(4) by auto
    then have "at_cell ax m c a" using bounds(2) [OF a(1,2)] 2 by (simp add: at_cell_def crosses_def)
    with that a 2 show ?thesis by blast
  next
    case 3
    then obtain b where b: "b \<in> set ts" "lead ax b + extent ax b = ?l" "crosses ax c b"
      using full c assms(4) by auto
    then have "at_cell ax m c b" using bounds(1) [OF b(1,2)] 3 by (simp add: at_cell_def crosses_def)
    with that b 3 show ?thesis by blast
  qed
qed

lemma unique_at_cell:
  assumes "valid_tiles ts" "u \<in> set ts" "v \<in> set ts" "at_cell ax m c u" "at_cell ax m c v"
  shows "u = v"
proof (rule ccontr)
  assume "u \<noteq> v"
  then have "session_id u \<noteq> session_id v"
    using valid_tilesD(2) [OF assms(1)] assms(2,3) by (auto simp: distinct_map inj_on_def)
  then have "\<not> overlaps u v" by (rule valid_tilesD(5) [OF assms(1-3)])
  then show False
    using overlaps_at_cell [OF valid_tilesD(4) [OF assms(1,2)] valid_tilesD(4) [OF assms(1,3)]] assms(4,5)
    by blast
qed

lemma seam_move_disjoint:
  assumes "valid_tiles ts" "d \<in> set (gridDividers ts)" "full_seam d ts" "ax = div_axis d"
    and "div_min d \<le> p" "p \<le> div_max d" "u \<in> set ts" "v \<in> set ts"
    and "at_cell ax m c (seam_move d p u)" "at_cell ax m c (seam_move d p v)"
  shows "u = v"
proof -
  let ?l = "div_line d"
  note cu = assms(9) [unfolded at_cell_seam_move [OF assms(1,2,7,4)]]
  note cv = assms(10) [unfolded at_cell_seam_move [OF assms(1,2,8,4)]]
  have ext: "4 \<le> extent ax t" if "t \<in> set ts" for t
    using valid_tilesD(4) [OF assms(1) that] valid_rect_axis by blast
  obtain x where x: "x \<in> set ts" "at_cell ax m c x" "x = u \<or>
     lead ax u + extent ax u = ?l \<and> lead ax x = ?l \<and> ?l \<le> m \<and> m < p \<or>
     lead ax u = ?l \<and> lead ax x + extent ax x = ?l \<and> p \<le> m \<and> m < ?l"
    using seam_owner [OF assms(1,2,3,7,4,5,6,9)] by blast
  obtain y where y: "y \<in> set ts" "at_cell ax m c y" "y = v \<or>
     lead ax v + extent ax v = ?l \<and> lead ax y = ?l \<and> ?l \<le> m \<and> m < p \<or>
     lead ax v = ?l \<and> lead ax y + extent ax y = ?l \<and> p \<le> m \<and> m < ?l"
    using seam_owner [OF assms(1,2,3,8,4,5,6,10)] by blast
  have "x = y" by (rule unique_at_cell [OF assms(1) x(1) y(1) x(2) y(2)])
  with x(3) y(3) consider "u = v"
    | "lead ax u + extent ax u = ?l" "lead ax v + extent ax v = ?l"
    | "lead ax u = ?l" "lead ax v = ?l"
    using cu cv ext [OF assms(7)] ext [OF assms(8)] by (smt (verit))
  then show ?thesis
  proof cases
    case 2
    then have "at_cell ax (?l - 1) c u" "at_cell ax (?l - 1) c v"
      using cu cv ext [OF assms(7)] ext [OF assms(8)] by (auto simp: at_cell_def crosses_def)
    then show ?thesis by (rule unique_at_cell [OF assms(1,7,8)])
  next
    case 3
    then have "at_cell ax ?l c u" "at_cell ax ?l c v"
      using cu cv ext [OF assms(7)] ext [OF assms(8)] by (auto simp: at_cell_def crosses_def)
    then show ?thesis by (rule unique_at_cell [OF assms(1,7,8)])
  qed
qed

lemma seam_move_rect:
  assumes "valid_tiles ts" "d \<in> set (gridDividers ts)" "t \<in> set ts" "div_min d \<le> p" "p \<le> div_max d"
  shows "valid_rect (seam_move d p t)"
proof -
  let ?ax = "div_axis d"
  have d: "d \<in> set (dividers_at ?ax ts (div_line d))" using assms(2) by (simp add: gridDividers_iff)
  have "1 \<le> p" "p \<le> 23"
    and "lead ?ax t + extent ?ax t = div_line d \<Longrightarrow> lead ?ax t + 4 \<le> p"
    and "lead ?ax t = div_line d \<Longrightarrow> p \<le> lead ?ax t + extent ?ax t - 4"
    using assms(3,4,5) unfolding dividers_at_fields(5,6) [OF d] seam_min_le seam_max_ge by auto
  then show ?thesis
    using seam_sides [OF assms(1-3)] valid_tilesD(4) [OF assms(1,3)]
    unfolding valid_rect_axis [of _ ?ax] seam_move_def by auto
qed

lemma seam_move_valid:
  assumes "valid_tiles ts" "d \<in> set (gridDividers ts)" "full_seam d ts"
    and "div_min d \<le> p" "p \<le> div_max d"
  shows "valid_tiles (map (seam_move d p) ts)"
proof -
  have "\<not> overlaps (seam_move d p u) (seam_move d p v)"
    if "u \<in> set ts" "v \<in> set ts" "session_id u \<noteq> session_id v" for u v
    using seam_move_disjoint [OF assms(1-3) refl assms(4,5) that(1,2)] that(3)
      overlaps_at_cell [OF seam_move_rect [OF assms(1,2) that(1) assms(4,5)]
        seam_move_rect [OF assms(1,2) that(2) assms(4,5)]]
    by blast
  then show ?thesis
    using assms(1) seam_move_rect [OF assms(1,2) _ assms(4,5)]
    by (auto simp: valid_tiles_def disjoint_tiles_def comp_def)
qed

text \<open>The cells a layout covers.\<close>

definition covered :: "tile list \<Rightarrow> (int \<times> int) set" where
  "covered ts = (\<Union>t \<in> set ts. cells t)"

lemma covered_at_cell:
  assumes "\<And>m c. (\<exists>t \<in> set ts. at_cell ax m c t) \<longleftrightarrow> (\<exists>t \<in> set us. at_cell ax m c t)"
  shows "covered ts = covered us"
  using assms by (cases ax) (auto simp: covered_def at_cell_cells)

lemma seam_move_covered:
  assumes "valid_tiles ts" "d \<in> set (gridDividers ts)" "full_seam d ts"
    and "div_min d \<le> p" "p \<le> div_max d"
  shows "covered (map (seam_move d p) ts) = covered ts"
proof (rule covered_at_cell [where ax = "div_axis d"])
  let ?ax = "div_axis d" and ?l = "div_line d"
  fix m c
  have d: "d \<in> set (dividers_at ?ax ts ?l)" using assms(2) by (simp add: gridDividers_iff)
  have "\<exists>u \<in> set ts. at_cell ?ax m c (seam_move d p u)" if t: "t \<in> set ts" "at_cell ?ax m c t" for t
  proof -
    have c: "crosses ?ax c t" using t(2) by (simp add: at_cell_def crosses_def)
    note full = full_seamD [OF assms(3,1) c t(1)]
    have bounds: "b \<in> set ts \<Longrightarrow> lead ?ax b + extent ?ax b = ?l \<Longrightarrow> lead ?ax b + 4 \<le> p"
      "a \<in> set ts \<Longrightarrow> lead ?ax a = ?l \<Longrightarrow> p \<le> lead ?ax a + extent ?ax a - 4" for a b
      using assms(4,5) unfolding dividers_at_fields(5,6) [OF d] seam_min_le seam_max_ge by auto
    have ext: "4 \<le> extent ?ax u" if "u \<in> set ts" for u
      using valid_tilesD(4) [OF assms(1) that] valid_rect_axis by blast
    consider "at_cell ?ax m c (seam_move d p t)"
      | "lead ?ax t + extent ?ax t = ?l" "p \<le> m" "m < ?l"
      | "lead ?ax t = ?l" "?l \<le> m" "m < p"
      using t unfolding at_cell_seam_move [OF assms(1,2) t(1) refl]
      by (fastforce simp: at_cell_def crosses_def)
    then show ?thesis
    proof cases
      case 1
      with t show ?thesis by blast
    next
      case 2
      then obtain a where a: "a \<in> set ts" "lead ?ax a = ?l" "crosses ?ax c a" using full c t by auto
      then have "at_cell ?ax m c (seam_move d p a)"
        unfolding at_cell_seam_move [OF assms(1,2) a(1) refl] using 2 ext [OF a(1)] by simp
      with a show ?thesis by blast
    next
      case 3
      then obtain b where b: "b \<in> set ts" "lead ?ax b + extent ?ax b = ?l" "crosses ?ax c b"
        using full c t by auto
      then have "at_cell ?ax m c (seam_move d p b)"
        unfolding at_cell_seam_move [OF assms(1,2) b(1) refl] using 3 ext [OF b(1)] by simp
      with b show ?thesis by blast
    qed
  qed
  moreover have "\<exists>t \<in> set ts. at_cell ?ax m c t"
    if "u \<in> set ts" "at_cell ?ax m c (seam_move d p u)" for u
    using seam_owner [OF assms(1-3) that(1) refl assms(4,5) that(2)] by blast
  ultimately show "(\<exists>t \<in> set (map (seam_move d p) ts). at_cell ?ax m c t) \<longleftrightarrow>
      (\<exists>t \<in> set ts. at_cell ?ax m c t)" by auto
qed

text \<open>
  Dragging a seam whose two sides cover the same stretch of it never fails. Every pane that ended
  at the seam ends at the line it was dragged to, clamped to the seam's bounds, and every pane that
  began there begins there; no other pane changes, the layout is valid and it covers exactly the
  cells it covered before.
\<close>

theorem moveDivider_full_seam:
  assumes "valid_tiles ts" "d \<in> set (gridDividers ts)" "full_seam d ts"
  shows "valid_tiles (moveDivider ts d line) \<and> covered (moveDivider ts d line) = covered ts \<and>
    set (moveDivider ts d line) = seam_move d (clampDividerLine d line) ` set ts"
proof -
  let ?p = "clampDividerLine d line" and ?ax = "div_axis d"
  have d: "d \<in> set (dividers_at ?ax ts (div_line d))" using assms(2) by (simp add: gridDividers_iff)
  have p: "div_min d \<le> ?p" "?p \<le> div_max d"
    using dividers_at_fields(5,6,8) [OF d] by (auto simp: clampDividerLine_def)
  show ?thesis
  proof (cases "?p = div_line d")
    case True
    have "seam_move d ?p t = t" if "t \<in> set ts" for t
      using seam_sides [OF assms(1,2) that] True
      by (cases ?ax; simp add: seam_move_def)
    then have "seam_move d ?p ` set ts = set ts" by force
    with True assms(1) show ?thesis by (simp add: moveDivider_def)
  next
    case False
    then have "moveDivider ts d line = sortTiles (map (seam_move d ?p) ts)"
      using seam_move_valid [OF assms p] by (simp add: moveDivider_def Let_def)
    then show ?thesis
      using seam_move_valid [OF assms p] seam_move_covered [OF assms p]
      by (simp add: covered_def)
  qed
qed

subsection \<open>Dragging the edges of one tile\<close>

datatype drag_edge = ELeft | ERight | ETop | EBottom

definition edge_axis :: "drag_edge \<Rightarrow> divider_axis" where
  "edge_axis e = (if e = ELeft \<or> e = ERight then Vertical else Horizontal)"

definition edge_leads :: "drag_edge \<Rightarrow> bool" where
  "edge_leads e = (e = ELeft \<or> e = ETop)"

definition rectsOverlap :: "'a rect_scheme \<Rightarrow> 'b rect_scheme \<Rightarrow> bool" where
  "rectsOverlap a b \<longleftrightarrow>
     gx a < gx b + gw b \<and> gx b < gx a + gw a \<and> gy a < gy b + gh b \<and> gy b < gy a + gh a"

definition crossOverlaps :: "divider_axis \<Rightarrow> tile \<Rightarrow> tile \<Rightarrow> bool" where
  "crossOverlaps ax t item \<longleftrightarrow>
     crossLead ax item < crossLead ax t + crossSize ax t \<and>
     crossLead ax t < crossLead ax item + crossSize ax item"

definition edge_line :: "divider_axis \<Rightarrow> bool \<Rightarrow> tile \<Rightarrow> int" where
  "edge_line ax ld t = (if ld then lead ax t else lead ax t + extent ax t)"

definition flush :: "divider_axis \<Rightarrow> bool \<Rightarrow> int \<Rightarrow> tile \<Rightarrow> bool" where
  "flush ax ld line item \<longleftrightarrow> (if ld then lead ax item + extent ax item = line else lead ax item = line)"

text \<open>The two loops that narrow the interval the edge may move in.\<close>

definition edge_lo :: "divider_axis \<Rightarrow> bool \<Rightarrow> tile \<Rightarrow> tile list \<Rightarrow> int" where
  "edge_lo ax ld t along =
     (let line = edge_line ax ld t;
          lo0 = (if ld then 0 else lead ax t + MIN_TILE_SIZE);
          lo1 = fold (\<lambda>f lo. if ld then max lo (lead ax f + MIN_TILE_SIZE) else lo)
                  (filter (flush ax ld line) along) lo0
      in fold (\<lambda>item lo.
           if \<not> flush ax ld line item \<and> ld \<and> lead ax item + extent ax item \<le> line
           then max lo (lead ax item + extent ax item) else lo) along lo1)"

definition edge_hi :: "divider_axis \<Rightarrow> bool \<Rightarrow> tile \<Rightarrow> tile list \<Rightarrow> int" where
  "edge_hi ax ld t along =
     (let line = edge_line ax ld t;
          hi0 = (if ld then lead ax t + extent ax t - MIN_TILE_SIZE else GRID_SIZE);
          hi1 = fold (\<lambda>f hi. if ld then hi else min hi (lead ax f + extent ax f - MIN_TILE_SIZE))
                  (filter (flush ax ld line) along) hi0
      in fold (\<lambda>item hi.
           if \<not> flush ax ld line item \<and> \<not> ld \<and> lead ax item \<ge> line
           then min hi (lead ax item) else hi) along hi1)"

definition withEdgeAt :: "divider_axis \<Rightarrow> bool \<Rightarrow> tile \<Rightarrow> int \<Rightarrow> tile" where
  "withEdgeAt ax ld item p = (if ld then lead_to ax p item else trail_to ax p item)"

definition withOppositeEdgeAt :: "divider_axis \<Rightarrow> bool \<Rightarrow> tile \<Rightarrow> int \<Rightarrow> tile" where
  "withOppositeEdgeAt ax ld item p = (if ld then trail_to ax p item else lead_to ax p item)"

definition follow :: "divider_axis \<Rightarrow> bool \<Rightarrow> int \<Rightarrow> tile list \<Rightarrow> tile \<Rightarrow> tile" where
  "follow ax ld p kept f =
     (let grown = withOppositeEdgeAt ax ld f p in
      if extent ax grown > extent ax f \<and> list_ex (rectsOverlap grown) kept then f else grown)"

definition edge_result :: "divider_axis \<Rightarrow> bool \<Rightarrow> int \<Rightarrow> tile \<Rightarrow> tile list \<Rightarrow> tile list" where
  "edge_result ax ld p t others =
     (let followers = filter (flush ax ld (edge_line ax ld t)) (filter (crossOverlaps ax t) others);
          kept = filter (\<lambda>item. item \<notin> set followers) others
      in withEdgeAt ax ld t p # map (follow ax ld p kept) followers @ kept)"

definition moveEdge :: "tile list \<Rightarrow> string \<Rightarrow> drag_edge \<Rightarrow> rat \<Rightarrow> tile list" where
  "moveEdge tiles sid e target =
     (case find (\<lambda>t. session_id t = sid) tiles of
        None \<Rightarrow> tiles
      | Some t \<Rightarrow>
          let ax = edge_axis e; ld = edge_leads e;
              others = filter (\<lambda>item. session_id item \<noteq> sid) tiles;
              along = filter (crossOverlaps ax t) others;
              lo = edge_lo ax ld t along; hi = edge_hi ax ld t along;
              p = min hi (max lo (js_round target))
          in if p = edge_line ax ld t \<or> lo > hi then tiles
             else
               let result = edge_result ax ld p t others
               in if \<not> validates result then tiles else sortTiles result)"

record edge_targets =
  et_left :: "rat option"
  et_right :: "rat option"
  et_top :: "rat option"
  et_bottom :: "rat option"

definition move_when :: "drag_edge \<Rightarrow> rat option \<Rightarrow> string \<Rightarrow> tile list \<Rightarrow> tile list" where
  "move_when e target sid tiles =
     (case target of None \<Rightarrow> tiles | Some v \<Rightarrow> moveEdge tiles sid e v)"

definition resizeEdges :: "tile list \<Rightarrow> string \<Rightarrow> edge_targets \<Rightarrow> tile list" where
  "resizeEdges tiles sid targets =
     move_when EBottom (et_bottom targets) sid
       (move_when ETop (et_top targets) sid
         (move_when ERight (et_right targets) sid
           (move_when ELeft (et_left targets) sid tiles)))"

lemma rectsOverlap_overlaps [simp]: "rectsOverlap = overlaps"
  by (simp add: fun_eq_iff rectsOverlap_def overlaps_def)

lemma overlaps_axis:
  "overlaps a b \<longleftrightarrow>
     lead ax a < lead ax b + extent ax b \<and> lead ax b < lead ax a + extent ax a \<and>
     crossLead ax a < crossLead ax b + crossSize ax b \<and> crossLead ax b < crossLead ax a + crossSize ax a"
  by (cases ax) (auto simp: overlaps_def)

lemma edge_lo_le:
  "edge_lo ax ld t along \<le> p \<longleftrightarrow>
     (if ld then 0 \<le> p \<and>
        (\<forall>f \<in> set along. lead ax f + extent ax f = lead ax t \<longrightarrow> lead ax f + 4 \<le> p) \<and>
        (\<forall>k \<in> set along. lead ax k + extent ax k < lead ax t \<longrightarrow> lead ax k + extent ax k \<le> p)
      else lead ax t + 4 \<le> p)"
proof -
  have f1: "fold (\<lambda>f lo. max lo (g f)) fs lo \<le> p \<longleftrightarrow> lo \<le> p \<and> (\<forall>f \<in> set fs. g f \<le> p)"
    for g :: "tile \<Rightarrow> int" and fs lo by (induction fs arbitrary: lo) auto
  have f2: "fold (\<lambda>f lo. if Q f then max lo (g f) else lo) fs lo \<le> p \<longleftrightarrow>
      lo \<le> p \<and> (\<forall>f \<in> set fs. Q f \<longrightarrow> g f \<le> p)"
    for Q and g :: "tile \<Rightarrow> int" and fs lo by (induction fs arbitrary: lo) auto
  have f3: "fold (\<lambda>f lo. lo) fs lo = lo" for fs :: "tile list" and lo :: int by (induction fs) auto
  show ?thesis
    by (cases ld) (auto simp: edge_lo_def Let_def f1 f2 f3 flush_def edge_line_def)
qed

lemma edge_hi_ge:
  "p \<le> edge_hi ax ld t along \<longleftrightarrow>
     (if ld then p \<le> lead ax t + extent ax t - 4
      else p \<le> 24 \<and>
        (\<forall>f \<in> set along. lead ax f = lead ax t + extent ax t \<longrightarrow> p \<le> lead ax f + extent ax f - 4) \<and>
        (\<forall>k \<in> set along. lead ax k > lead ax t + extent ax t \<longrightarrow> p \<le> lead ax k))"
proof -
  have f1: "p \<le> fold (\<lambda>f hi. min hi (g f)) fs hi \<longleftrightarrow> p \<le> hi \<and> (\<forall>f \<in> set fs. p \<le> g f)"
    for g :: "tile \<Rightarrow> int" and fs hi by (induction fs arbitrary: hi) auto
  have f2: "p \<le> fold (\<lambda>f hi. if Q f then min hi (g f) else hi) fs hi \<longleftrightarrow>
      p \<le> hi \<and> (\<forall>f \<in> set fs. Q f \<longrightarrow> p \<le> g f)"
    for Q and g :: "tile \<Rightarrow> int" and fs hi by (induction fs arbitrary: hi) auto
  have f3: "fold (\<lambda>f hi. hi) fs hi = hi" for fs :: "tile list" and hi :: int by (induction fs) auto
  show ?thesis
    by (cases ld) (auto simp: edge_hi_def Let_def f1 f2 f3 flush_def edge_line_def)
qed

lemma edge_at_simps [simp]:
  "session_id (withEdgeAt ax ld t p) = session_id t" "content (withEdgeAt ax ld t p) = content t"
  "session_id (follow ax ld p kept t) = session_id t" "content (follow ax ld p kept t) = content t"
  by (simp_all add: withEdgeAt_def withOppositeEdgeAt_def follow_def Let_def)

text \<open>The result as a map over the layout: each tile's role in the drag.\<close>

definition follows :: "divider_axis \<Rightarrow> bool \<Rightarrow> tile \<Rightarrow> tile \<Rightarrow> bool" where
  "follows ax ld t item \<longleftrightarrow> flush ax ld (edge_line ax ld t) item \<and> crossOverlaps ax t item"

definition edge_role :: "divider_axis \<Rightarrow> bool \<Rightarrow> int \<Rightarrow> tile \<Rightarrow> tile list \<Rightarrow> tile \<Rightarrow> tile" where
  "edge_role ax ld p t others x =
     (if session_id x = session_id t then withEdgeAt ax ld t p
      else if follows ax ld t x then follow ax ld p (filter (\<lambda>k. \<not> follows ax ld t k) others) x
      else x)"

lemma edge_role_simps [simp]:
  "session_id (edge_role ax ld p t others x) = (if session_id x = session_id t then session_id t else session_id x)"
  by (simp add: edge_role_def)

lemma mset_edge_result:
  assumes "valid_tiles ts" "t \<in> set ts" "others = others_of (session_id t) ts"
  shows "mset (edge_result ax ld p t others) = mset (map (edge_role ax ld p t others) ts)"
proof -
  let ?F = "filter (follows ax ld t) others" and ?K = "filter (\<lambda>k. \<not> follows ax ld t k) others"
  have F: "filter (flush ax ld (edge_line ax ld t)) (filter (crossOverlaps ax t) others) = ?F"
    unfolding filter_filter by (rule filter_cong) (auto simp: follows_def)
  have K: "filter (\<lambda>item. item \<notin> set ?F) others = ?K" by (rule filter_cong) auto
  have ids: "session_id x \<noteq> session_id t" if "x \<in> set others" for x
    using that by (simp add: assms(3) others_of_def)
  have roles: "map (edge_role ax ld p t others) ?F = map (follow ax ld p ?K) ?F"
    "map (edge_role ax ld p t others) ?K = ?K" "edge_role ax ld p t others t = withEdgeAt ax ld t p"
    using ids by (auto simp: edge_role_def intro!: map_idI)
  have "mset ts = add_mset t (mset ?F + mset ?K)"
    using mset_others_of [OF valid_tilesD(2) [OF assms(1)] assms(2)] assms(3) by simp
  then have "mset (map (edge_role ax ld p t others) ts) =
      add_mset (edge_role ax ld p t others t)
        (mset (map (edge_role ax ld p t others) ?F) + mset (map (edge_role ax ld p t others) ?K))"
    by (simp only: mset_map image_mset_add_mset image_mset_union)
  then show ?thesis
    unfolding edge_result_def F K Let_def by (simp only: roles mset.simps mset_append)
qed

lemma valid_tiles_map:
  assumes "valid_tiles ts" "\<And>x. x \<in> set ts \<Longrightarrow> session_id (g x) = session_id x \<and> valid_rect (g x)"
    and "\<And>x y. x \<in> set ts \<Longrightarrow> y \<in> set ts \<Longrightarrow> session_id x \<noteq> session_id y \<Longrightarrow> \<not> overlaps (g x) (g y)"
  shows "valid_tiles (map g ts)"
proof -
  have "map session_id (map g ts) = map session_id ts" using assms(2) by simp
  then have "distinct (map session_id (map g ts))" using valid_tilesD(2) [OF assms(1)] by argo
  then show ?thesis
    using assms valid_tilesD(1,3) [OF assms(1)] unfolding valid_tiles_def disjoint_tiles_def
    by auto
qed

text \<open>What a permitted line means for the dragged tile, its followers and everything else.\<close>

lemma edge_bounds:
  assumes "edge_lo ax ld t along \<le> p" "p \<le> edge_hi ax ld t along" "valid_rect t"
  shows "valid_rect (withEdgeAt ax ld t p)"
    "f \<in> set along \<Longrightarrow> flush ax ld (edge_line ax ld t) f \<Longrightarrow> valid_rect f \<Longrightarrow>
       valid_rect (withOppositeEdgeAt ax ld f p)"
    "k \<in> set along \<Longrightarrow> \<not> flush ax ld (edge_line ax ld t) k \<Longrightarrow> crossOverlaps ax t k \<Longrightarrow>
       \<not> overlaps t k \<Longrightarrow> valid_rect k \<Longrightarrow> \<not> overlaps (withEdgeAt ax ld t p) k"
proof -
  note lo = assms(1) [unfolded edge_lo_le] and hi = assms(2) [unfolded edge_hi_ge]
  note v = assms(3) [unfolded valid_rect_axis [of t ax]]
  show "valid_rect (withEdgeAt ax ld t p)"
    using lo hi v unfolding valid_rect_axis [of _ ax] by (cases ld) (auto simp: withEdgeAt_def)
  show "valid_rect (withOppositeEdgeAt ax ld f p)"
    if "f \<in> set along" "flush ax ld (edge_line ax ld t) f" "valid_rect f"
    using that lo hi v unfolding valid_rect_axis [of _ ax]
    by (cases ld) (auto simp: withOppositeEdgeAt_def flush_def edge_line_def)
  show "\<not> overlaps (withEdgeAt ax ld t p) k"
    if "k \<in> set along" "\<not> flush ax ld (edge_line ax ld t) k" "crossOverlaps ax t k"
       "\<not> overlaps t k" "valid_rect k"
    using that lo hi v unfolding overlaps_axis [of _ _ ax] valid_rect_axis [of k ax]
    by (cases ld) (force simp: withEdgeAt_def flush_def edge_line_def crossOverlaps_def)+
qed

lemma follow_disjoint:
  assumes "valid_rect t" "valid_rect f" "follows ax ld t f" "\<not> overlaps t f"
  shows "\<not> overlaps (withEdgeAt ax ld t p) (follow ax ld p kept f)"
  using assms unfolding overlaps_axis [of _ _ ax] valid_rect_axis [of _ ax]
  by (cases ld) (auto simp: withEdgeAt_def withOppositeEdgeAt_def follow_def Let_def follows_def
      flush_def edge_line_def)

lemma follow_rect:
  "valid_rect f \<Longrightarrow> valid_rect (withOppositeEdgeAt ax ld f p) \<Longrightarrow> valid_rect (follow ax ld p kept f)"
  by (simp add: follow_def Let_def)

lemma followers_disjoint:
  assumes "valid_rect f" "valid_rect g" "follows ax ld t f" "follows ax ld t g" "\<not> overlaps f g"
  shows "\<not> overlaps (follow ax ld p kept f) (follow ax ld p kept g)"
proof -
  have "\<not> (crossLead ax f < crossLead ax g + crossSize ax g \<and> crossLead ax g < crossLead ax f + crossSize ax f)"
    using assms unfolding overlaps_axis [of f g ax] valid_rect_axis [of _ ax] follows_def flush_def
    by (auto split: if_splits)
  moreover have "crossLead ax (follow ax ld p kept x) = crossLead ax x"
    "crossSize ax (follow ax ld p kept x) = crossSize ax x" for x
    by (simp_all add: follow_def withOppositeEdgeAt_def Let_def)
  ultimately show ?thesis unfolding overlaps_axis [of _ _ ax] by auto
qed

lemma follow_kept_disjoint:
  assumes "valid_rect f" "k \<in> set kept" "\<not> overlaps f k" "follows ax ld t f"
  shows "\<not> overlaps (follow ax ld p kept f) k"
proof (cases "extent ax (withOppositeEdgeAt ax ld f p) > extent ax f")
  case True
  with assms show ?thesis by (auto simp: follow_def Let_def list_ex_iff)
next
  case False
  then show ?thesis
    using assms unfolding overlaps_axis [of _ _ ax] follow_def Let_def withOppositeEdgeAt_def
    by (cases ld) auto
qed

lemma edge_result_valid:
  assumes "valid_tiles ts" "t \<in> set ts" "others = others_of (session_id t) ts"
    and "edge_lo ax ld t (filter (crossOverlaps ax t) others) \<le> p"
    and "p \<le> edge_hi ax ld t (filter (crossOverlaps ax t) others)"
  shows "valid_tiles (edge_result ax ld p t others)"
proof -
  let ?K = "filter (\<lambda>k. \<not> follows ax ld t k) others"
  let ?g = "edge_role ax ld p t others"
  note b = edge_bounds [OF assms(4,5) valid_tilesD(4) [OF assms(1,2)]]
  have role: "x = t \<and> ?g x = withEdgeAt ax ld t p \<or>
      x \<in> set others \<and> follows ax ld t x \<and> ?g x = follow ax ld p ?K x \<or> x \<in> set ?K \<and> ?g x = x"
    if "x \<in> set ts" for x
    using that set_others_of [OF valid_tilesD(2) [OF assms(1)] assms(2)] assms(3)
    by (auto simp: edge_role_def others_of_def)
  have other: "x \<in> set ts" "x \<noteq> t" "session_id x \<noteq> session_id t" if "x \<in> set others" for x
    using that by (auto simp: assms(3) others_of_def)
  have rect: "valid_rect (?g x)" if "x \<in> set ts" for x
    using role [OF that] valid_tilesD(4) [OF assms(1) that] b(1,2) follow_rect
    by (auto simp: follows_def)
  have tx: "\<not> overlaps (?g t) (?g x)" if "x \<in> set others" for x
  proof -
    note x = other [OF that]
    have o: "\<not> overlaps t x" using valid_tilesD(5) [OF assms(1,2) x(1)] x(3) by simp
    note vx = valid_tilesD(4) [OF assms(1) x(1)]
    have "?g t = withEdgeAt ax ld t p" by (simp add: edge_role_def)
    moreover have "\<not> overlaps (withEdgeAt ax ld t p) x" if "\<not> follows ax ld t x"
    proof (cases "crossOverlaps ax t x")
      case True
      with that \<open>x \<in> set others\<close> o vx b(3) show ?thesis by (simp add: follows_def)
    next
      case False
      then show ?thesis
        unfolding overlaps_axis [of _ _ ax] by (auto simp: withEdgeAt_def crossOverlaps_def)
    qed
    ultimately show ?thesis
      using role [OF x(1)] x(2) follow_disjoint [OF valid_tilesD(4) [OF assms(1,2)] vx _ o]
      by auto
  qed
  have xy: "\<not> overlaps (?g x) (?g y)"
    if "x \<in> set others" "y \<in> set others" "session_id x \<noteq> session_id y" for x y
  proof -
    note x = other [OF that(1)] and y = other [OF that(2)]
    have o: "\<not> overlaps x y" "\<not> overlaps y x"
      using valid_tilesD(5) [OF assms(1) x(1) y(1)] that(3) overlaps_sym by blast+
    note vx = valid_tilesD(4) [OF assms(1) x(1)] and vy = valid_tilesD(4) [OF assms(1) y(1)]
    show ?thesis
      using role [OF x(1)] role [OF y(1)] x(2) y(2) o followers_disjoint [OF vx vy _ _ o(1)]
        follow_kept_disjoint [OF vx _ o(1)] follow_kept_disjoint [OF vy _ o(2)] overlaps_sym
      by metis
  qed
  have "valid_tiles (map ?g ts)"
  proof (rule valid_tiles_map [OF assms(1)])
    fix x y assume "x \<in> set ts" "y \<in> set ts" "session_id x \<noteq> session_id y"
    then show "\<not> overlaps (?g x) (?g y)"
      using tx xy overlaps_sym set_others_of [OF valid_tilesD(2) [OF assms(1)] assms(2)] assms(3)
      by (metis Diff_iff singletonD)
  qed (use rect in simp)
  then show ?thesis using valid_tiles_mset [OF mset_edge_result [OF assms(1-3)]] by blast
qed

lemma edge_interval:
  assumes "valid_tiles ts" "t \<in> set ts" "along = filter (crossOverlaps ax t) (others_of (session_id t) ts)"
  shows "edge_lo ax ld t along \<le> edge_line ax ld t" "edge_line ax ld t \<le> edge_hi ax ld t along"
proof -
  have v: "valid_rect x" if "x \<in> insert t (set along)" for x
    using that valid_tilesD(4) [OF assms(1)] assms(2,3) by (auto simp: others_of_def)
  note v' = v [unfolded valid_rect_axis [of _ ax]]
  show "edge_lo ax ld t along \<le> edge_line ax ld t"
    unfolding edge_lo_le using v' [of t] v' by (fastforce simp: edge_line_def)
  show "edge_line ax ld t \<le> edge_hi ax ld t along"
    unfolding edge_hi_ge using v' [of t] v' by (fastforce simp: edge_line_def)
qed

text \<open>On a valid layout no drag of an edge is refused.\<close>

lemma moveEdge_result:
  assumes "valid_tiles ts" "t \<in> set ts" "ax = edge_axis e" "ld = edge_leads e"
    and "others = others_of (session_id t) ts" "along = filter (crossOverlaps ax t) others"
    and "p = min (edge_hi ax ld t along) (max (edge_lo ax ld t along) (js_round target))"
  shows "moveEdge ts (session_id t) e target =
      (if p = edge_line ax ld t then ts else sortTiles (edge_result ax ld p t others))"
    "edge_lo ax ld t along \<le> p" "p \<le> edge_hi ax ld t along"
    "valid_tiles (edge_result ax ld p t others)"
proof -
  note i = edge_interval [OF assms(1,2), of along ax ld, folded assms(5), OF assms(6)]
  then show p: "edge_lo ax ld t along \<le> p" "p \<le> edge_hi ax ld t along" using assms(7) by auto
  show v: "valid_tiles (edge_result ax ld p t others)"
    using edge_result_valid [OF assms(1,2,5)] p assms(6) by blast
  have "find (\<lambda>x. session_id x = session_id t) ts = Some t"
    using find_tile [OF assms(1)] assms(2) by blast
  then show "moveEdge ts (session_id t) e target =
      (if p = edge_line ax ld t then ts else sortTiles (edge_result ax ld p t others))"
    using v i assms(3-7) by (simp add: moveEdge_def Let_def others_of_def)
qed

lemma moveEdge_unknown:
  "sid \<notin> session_id ` set ts \<Longrightarrow> moveEdge ts sid e target = ts"
  using find_tile_None [of sid ts] by (simp add: moveEdge_def)

lemma moveEdge_valid_content:
  assumes "valid_tiles ts"
  shows "valid_tiles (moveEdge ts sid e target) \<and>
    mset (map content (moveEdge ts sid e target)) = mset (map content ts)"
proof (cases "sid \<in> session_id ` set ts")
  case False
  then show ?thesis using assms by (simp add: moveEdge_unknown)
next
  case True
  then obtain t where t: "t \<in> set ts" "sid = session_id t" by blast
  let ?o = "others_of (session_id t) ts"
  have "content (edge_role ax ld p t ?o x) = content x" if "x \<in> set ts" for x ax ld p
    using that t(1) valid_tilesD(2) [OF assms] by (auto simp: edge_role_def distinct_map inj_on_def)
  then have "map (content \<circ> edge_role ax ld p t ?o) ts = map content ts" for ax ld p by simp
  then have "mset (map content (edge_result ax ld p t ?o)) = mset (map content ts)" for ax ld p
    by (metis mset_edge_result [OF assms t(1) refl] map_map mset_map)
  then show ?thesis
    using moveEdge_result [OF assms t(1) refl refl refl refl refl, of e target] assms t(2) by simp
qed

interpretation edge_edit: tile_edit "\<lambda>ts. moveEdge ts sid e target"
  by unfold_locales (use moveEdge_valid_content in blast)+

lemma move_when_edit: "tile_edit (move_when e target sid)"
  using edge_edit.tile_edit_axioms by (cases target) (auto simp: move_when_def tile_edit_def)

text \<open>Edits compose, so a drag of up to four edges is one.\<close>

context tile_edit
begin

lemma edit_then: "tile_edit g \<Longrightarrow> tile_edit (\<lambda>ts. g (edit ts))"
  using edit_valid edit_content tile_edit.edit_valid [of g] tile_edit.edit_content [of g]
  by (intro tile_edit.intro) auto

end

lemma resizeEdges_edit: "tile_edit (\<lambda>ts. resizeEdges ts sid targets)"
proof -
  note e1 = move_when_edit [of ELeft "et_left targets" sid]
  note e2 = tile_edit.edit_then [OF e1 move_when_edit [of ERight "et_right targets" sid]]
  note e3 = tile_edit.edit_then [OF e2 move_when_edit [of ETop "et_top targets" sid]]
  show ?thesis
    unfolding resizeEdges_def
    by (rule tile_edit.edit_then [OF e3 move_when_edit [of EBottom "et_bottom targets" sid]])
qed

interpretation resize_edges_edit: tile_edit "\<lambda>ts. resizeEdges ts sid targets"
  by (rule resizeEdges_edit)

lemma edge_result_mem:
  "withEdgeAt ax ld t p \<in> set (edge_result ax ld p t others)"
  "k \<in> set others \<Longrightarrow> \<not> (crossOverlaps ax t k \<and> flush ax ld (edge_line ax ld t) k) \<Longrightarrow>
     k \<in> set (edge_result ax ld p t others)"
  by (simp_all add: edge_result_def Let_def)

lemma withEdgeAt_edges:
  "edge_line ax ld (withEdgeAt ax ld t p) = p"
  "edge_line ax (\<not> ld) (withEdgeAt ax ld t p) = edge_line ax (\<not> ld) t"
  "crossLead ax (withEdgeAt ax ld t p) = crossLead ax t"
  "crossSize ax (withEdgeAt ax ld t p) = crossSize ax t"
  by (cases ld; simp add: edge_line_def withEdgeAt_def)+

text \<open>
  Dragging an edge of a pane in a valid layout moves that edge exactly to the requested line,
  clamped between the bounds its neighbours set, and leaves the opposite edge and the other axis
  alone; panes that do not touch the dragged edge are unchanged, no pane is lost and the layout
  stays valid.
\<close>

theorem moveEdge_exact:
  assumes "valid_tiles ts" "t \<in> set ts" "ax = edge_axis e" "ld = edge_leads e"
    and "along = filter (crossOverlaps ax t) (filter (\<lambda>x. session_id x \<noteq> session_id t) ts)"
    and "p = min (edge_hi ax ld t along) (max (edge_lo ax ld t along) (js_round target))"
    and "r = moveEdge ts (session_id t) e target"
  shows "valid_tiles r \<and> mset (map content r) = mset (map content ts) \<and>
    edge_lo ax ld t along \<le> p \<and> p \<le> edge_hi ax ld t along \<and>
    (\<exists>u \<in> set r. content u = content t \<and> edge_line ax ld u = p \<and>
       edge_line ax (\<not> ld) u = edge_line ax (\<not> ld) t \<and>
       crossLead ax u = crossLead ax t \<and> crossSize ax u = crossSize ax t) \<and>
    {k \<in> set ts. k \<noteq> t \<and> \<not> (crossOverlaps ax t k \<and> flush ax ld (edge_line ax ld t) k)} \<subseteq> set r"
proof -
  let ?o = "others_of (session_id t) ts"
  have along: "along = filter (crossOverlaps ax t) ?o" by (simp add: assms(5) others_of_def)
  note res = moveEdge_result [OF assms(1-4) refl along assms(6)]
  have r: "r = (if p = edge_line ax ld t then ts else sortTiles (edge_result ax ld p t ?o))"
    using res(1) assms(7) by simp
  let ?u = "if p = edge_line ax ld t then t else withEdgeAt ax ld t p"
  have u: "content ?u = content t" "edge_line ax ld ?u = p"
    "edge_line ax (\<not> ld) ?u = edge_line ax (\<not> ld) t"
    "crossLead ax ?u = crossLead ax t" "crossSize ax ?u = crossSize ax t"
    by (simp_all add: withEdgeAt_edges)
  have mem: "?u \<in> set r" using r assms(2) edge_result_mem(1) by simp
  have kept: "{k \<in> set ts. k \<noteq> t \<and> \<not> (crossOverlaps ax t k \<and> flush ax ld (edge_line ax ld t) k)} \<subseteq> set r"
  proof
    fix k assume k: "k \<in> {k \<in> set ts. k \<noteq> t \<and> \<not> (crossOverlaps ax t k \<and> flush ax ld (edge_line ax ld t) k)}"
    then have "k \<in> set ?o" using set_others_of [OF valid_tilesD(2) [OF assms(1)] assms(2)] by simp
    with k edge_result_mem(2) show "k \<in> set r" by (simp add: r)
  qed
  have "valid_tiles r \<and> mset (map content r) = mset (map content ts)"
    unfolding assms(7) by (rule moveEdge_valid_content [OF assms(1)])
  then show ?thesis using res(2,3) kept u mem by (intro conjI bexI [of _ ?u]) simp_all
qed

text \<open>
  A resize drag, whichever of the four edges it grabs and wherever it asks them to go, keeps a
  valid layout valid and every pane in it.
\<close>

theorem resizeEdges_valid:
  assumes "valid_tiles ts"
  shows "valid_tiles (resizeEdges ts sid targets) \<and>
    mset (map content (resizeEdges ts sid targets)) = mset (map content ts)"
  using resize_edges_edit.edit_valid [OF assms] resize_edges_edit.edit_content [OF assms] by blast

subsection \<open>Instances\<close>

definition three_panes :: "tile list" where
  "three_panes =
     [tile_at ''a'' \<lparr>gx = 0, gy = 0, gw = 8, gh = 24\<rparr>,
      tile_at ''b'' \<lparr>gx = 8, gy = 0, gw = 16, gh = 12\<rparr>,
      tile_at ''c'' \<lparr>gx = 8, gy = 12, gw = 16, gh = 12\<rparr>]"

definition column_seam :: grid_divider where
  "column_seam = \<lparr>div_id = ''vertical-8-0'', div_axis = Vertical, div_line = 8, div_start = 0,
     div_end = 24, div_before = [''a''], div_after = [''b'', ''c''], div_min = 4, div_max = 20\<rparr>"

lemma valid_three_panes: "valid_tiles three_panes"
  by (simp add: three_panes_def valid_tiles_Cons valid_rect_def overlaps_def)

lemma column_seam_in: "column_seam \<in> set (gridDividers three_panes)"
proof -
  have "list_ex (\<lambda>d. d = column_seam) (gridDividers three_panes)" by code_simp
  then show ?thesis by (simp add: list_ex_iff)
qed

lemma column_seam_full: "full_seam column_seam three_panes"
  by code_simp

theorem gridDividers_seams_witness:
  "(\<exists>d \<in> set (gridDividers three_panes). div_axis d = Horizontal \<and> div_line d = 12 \<and>
     div_start d \<le> 9 \<and> 9 < div_end d) \<and>
   div_min column_seam \<le> div_line column_seam"
proof -
  have "\<exists>b \<in> set three_panes. \<exists>a \<in> set three_panes. lead Horizontal b + extent Horizontal b = 12 \<and>
      lead Horizontal a = 12 \<and> crosses Horizontal 9 b \<and> crosses Horizontal 9 a"
    by (simp add: three_panes_def crosses_def)
  then have "\<exists>d \<in> set (gridDividers three_panes). div_axis d = Horizontal \<and> div_line d = 12 \<and>
     div_start d \<le> 9 \<and> 9 < div_end d"
    using gridDividers_seams [OF valid_three_panes, of Horizontal 12 9] by (rule iffD2 [OF conjunct1, rotated])
  moreover have "div_min column_seam \<le> div_line column_seam" by (simp add: column_seam_def)
  ultimately show ?thesis ..
qed

theorem moveDivider_full_seam_witness:
  "set (moveDivider three_panes column_seam (29/2)) =
     {tile_at ''b'' \<lparr>gx = 15, gy = 0, gw = 9, gh = 12\<rparr>,
      tile_at ''c'' \<lparr>gx = 15, gy = 12, gw = 9, gh = 12\<rparr>,
      tile_at ''a'' \<lparr>gx = 0, gy = 0, gw = 15, gh = 24\<rparr>} \<and>
   covered (moveDivider three_panes column_seam (29/2)) = covered three_panes"
proof -
  have "clampDividerLine column_seam (29/2) = 15" by code_simp
  with moveDivider_full_seam [OF valid_three_panes column_seam_in column_seam_full, of "29/2"]
  show ?thesis by (simp add: three_panes_def column_seam_def seam_move_def tile_at_def)
qed

theorem moveEdge_exact_witness:
  "valid_tiles (moveEdge three_panes ''b'' ELeft 0) \<and>
   (\<exists>u \<in> set (moveEdge three_panes ''b'' ELeft 0). content u = (''b'', None) \<and> gx u = 4)"
proof -
  let ?b = "tile_at ''b'' \<lparr>gx = 8, gy = 0, gw = 16, gh = 12\<rparr>"
  let ?along = "filter (crossOverlaps Vertical ?b) (filter (\<lambda>x. session_id x \<noteq> ''b'') three_panes)"
  have b: "?b \<in> set three_panes" by (simp add: three_panes_def)
  have e: "edge_axis ELeft = Vertical" "edge_leads ELeft = True"
    by (simp_all add: edge_axis_def edge_leads_def)
  have "4 = min (edge_hi Vertical True ?b ?along) (max (edge_lo Vertical True ?b ?along) (js_round 0))"
    by code_simp
  from moveEdge_exact [OF valid_three_panes b e(1) [symmetric] e(2) [symmetric] _ this refl]
  show ?thesis by (auto simp: edge_line_def)
qed

theorem resizeEdges_valid_witness:
  "valid_tiles (resizeEdges three_panes ''b''
     \<lparr>et_left = Some 10, et_right = None, et_top = None, et_bottom = Some 20\<rparr>)"
  using resizeEdges_valid [OF valid_three_panes] by blast

text \<open>
  The source says of \<open>moveDivider\<close> that the covered area never gains a hole. It does when the
  panes before the seam reach further along it than those after it.
\<close>

lemma moveDivider_leaves_hole:
  "\<exists>ts d. valid_tiles ts \<and> d \<in> set (gridDividers ts) \<and> valid_tiles (moveDivider ts d 4) \<and>
     (6, 20) \<in> covered ts \<and> (6, 20) \<notin> covered (moveDivider ts d 4)"
proof -
  let ?ts = "[tile_at ''a'' \<lparr>gx = 0, gy = 0, gw = 8, gh = 24\<rparr>,
              tile_at ''b'' \<lparr>gx = 8, gy = 0, gw = 16, gh = 12\<rparr>]"
  let ?d = "hd (gridDividers ?ts)"
  have v: "valid_tiles ?ts" by (simp add: valid_tiles_Cons valid_rect_def overlaps_def)
  have "gridDividers ?ts \<noteq> []" by code_simp
  moreover have "moveDivider ?ts ?d 4 =
      [tile_at ''a'' \<lparr>gx = 0, gy = 0, gw = 4, gh = 24\<rparr>,
       tile_at ''b'' \<lparr>gx = 4, gy = 0, gw = 20, gh = 12\<rparr>]" by code_simp
  ultimately show ?thesis
    using v moveDivider_valid_content(1) [OF v, of ?d 4]
    by (intro exI [of _ ?ts] exI [of _ ?d]) (simp add: covered_def cells_def)
qed

end
