(* ===== verification/Docking.thy ===== *)
theory Docking
  imports Grid_Place Grid_Remove Seams
begin

section \<open>Docking, pushing and inserting panes\<close>

text \<open>
  The second part of \<open>web/src/components/workspace/workspace-grid-helpers.ts\<close>: what a drag
  of a whole pane does. A pane is docked against a side of another (\<open>dockPane\<close>,
  \<open>dockInsert\<close>), dropped on the canvas where it pushes others out of the way
  (\<open>movePane\<close>, \<open>insertPane\<close>), or added without being aimed (\<open>addPaneTiles\<close>).
  A canvas that is a plain band of columns or rows is shared out evenly again. The operations that
  rearrange keep validity and contents; those that add a pane add exactly that one.
\<close>

subsection \<open>Zones\<close>

datatype dock_zone = ZLeft | ZRight | ZTop | ZBottom

definition dockZoneAt :: "rat \<Rightarrow> rat \<Rightarrow> dock_zone" where
  "dockZoneAt u v =
     fst (fold (\<lambda>candidate best. if snd candidate < snd best then candidate else best)
       [(ZLeft, u), (ZRight, 1 - u), (ZTop, v), (ZBottom, 1 - v)] (ZLeft, u))"

text \<open>The pair is \<open>moved\<close> and \<open>kept\<close>.\<close>

definition dockSplitRect :: "'a rect_scheme \<Rightarrow> dock_zone \<Rightarrow> (rect \<times> rect) option" where
  "dockSplitRect target zone =
     (let horizontal = (zone = ZLeft \<or> zone = ZRight);
          size = (if horizontal then gw target else gh target);
          movedSize = size div 2;
          keptSize = size - movedSize
      in if size < MIN_TILE_SIZE * 2 then None
         else Some (case zone of
           ZLeft \<Rightarrow>
             (\<lparr>gx = gx target, gy = gy target, gw = movedSize, gh = gh target\<rparr>,
              \<lparr>gx = gx target + movedSize, gy = gy target, gw = keptSize, gh = gh target\<rparr>)
         | ZRight \<Rightarrow>
             (\<lparr>gx = gx target + keptSize, gy = gy target, gw = movedSize, gh = gh target\<rparr>,
              \<lparr>gx = gx target, gy = gy target, gw = keptSize, gh = gh target\<rparr>)
         | ZTop \<Rightarrow>
             (\<lparr>gx = gx target, gy = gy target, gw = gw target, gh = movedSize\<rparr>,
              \<lparr>gx = gx target, gy = gy target + movedSize, gw = gw target, gh = keptSize\<rparr>)
         | ZBottom \<Rightarrow>
             (\<lparr>gx = gx target, gy = gy target + keptSize, gw = gw target, gh = movedSize\<rparr>,
              \<lparr>gx = gx target, gy = gy target, gw = gw target, gh = keptSize\<rparr>)))"

definition wantsDuplicate :: "bool \<Rightarrow> bool \<Rightarrow> bool" where
  "wantsDuplicate metaKey altKey \<longleftrightarrow> metaKey \<or> altKey"

definition PENDING_TILE_ID :: string where
  "PENDING_TILE_ID = ''__pending__''"

subsection \<open>Bands\<close>

text \<open>
  The source names a band by the axis its members follow each other on, \<open>x\<close> for columns and
  \<open>y\<close> for rows: the axes of the seams between them, \<open>Vertical\<close> and \<open>Horizontal\<close>.
\<close>

definition bandAxis :: "dock_zone \<Rightarrow> divider_axis" where
  "bandAxis zone = (if zone = ZLeft \<or> zone = ZRight then Vertical else Horizontal)"

fun chain_end :: "divider_axis \<Rightarrow> int \<Rightarrow> tile list \<Rightarrow> int option" where
  "chain_end ax edge [] = Some edge"
| "chain_end ax edge (t # ts) =
     (if lead ax t \<noteq> edge then None else chain_end ax (edge + extent ax t) ts)"

definition canvasBand :: "tile list \<Rightarrow> divider_axis \<Rightarrow> tile list option" where
  "canvasBand tiles ax =
     (if tiles = [] then None
      else if list_ex (\<lambda>t. crossLead ax t \<noteq> 0 \<or> crossSize ax t \<noteq> GRID_SIZE) tiles then None
      else
        let ordered = sort_key (lead ax) tiles in
        if chain_end ax 0 ordered = Some GRID_SIZE then Some ordered else None)"

definition evenSlices :: "nat \<Rightarrow> int list option" where
  "evenSlices n =
     (if n < 1 then None
      else
        let base = GRID_SIZE div int n in
        if base < MIN_TILE_SIZE then None
        else
          let remainder = GRID_SIZE - base * int n in
          Some (map (\<lambda>index. base + (if int index < remainder then 1 else 0)) [0..<n]))"

definition band_rect :: "divider_axis \<Rightarrow> int \<Rightarrow> int \<Rightarrow> rect" where
  "band_rect ax edge sz =
     (case ax of
        Vertical \<Rightarrow> \<lparr>gx = edge, gy = 0, gw = sz, gh = GRID_SIZE\<rparr>
      | Horizontal \<Rightarrow> \<lparr>gx = 0, gy = edge, gw = GRID_SIZE, gh = sz\<rparr>)"

fun lay_out :: "divider_axis \<Rightarrow> int \<Rightarrow> tile list \<Rightarrow> int list \<Rightarrow> tile list" where
  "lay_out ax edge (t # ts) (sz # sizes) =
     with_rect t (band_rect ax edge sz) # lay_out ax (edge + sz) ts sizes"
| "lay_out ax edge _ _ = []"

definition layOutBand :: "tile list \<Rightarrow> divider_axis \<Rightarrow> tile list option" where
  "layOutBand order ax =
     (case evenSlices (length order) of
        None \<Rightarrow> None
      | Some sizes \<Rightarrow>
          let result = lay_out ax 0 order sizes in
          if \<not> validates result then None else Some (sortTiles result))"

definition rebalanceBand ::
  "tile list \<Rightarrow> tile \<Rightarrow> string \<Rightarrow> dock_zone \<Rightarrow> tile list option" where
  "rebalanceBand tiles incoming targetId zone =
     (case canvasBand tiles (bandAxis zone) of
        None \<Rightarrow> None
      | Some band \<Rightarrow>
          let rest = filter (\<lambda>t. session_id t \<noteq> session_id incoming) band in
          (case find_index (\<lambda>t. session_id t = targetId) rest of
             None \<Rightarrow> None
           | Some index \<Rightarrow>
               layOutBand
                 (insert_at (if zone = ZLeft \<or> zone = ZTop then index else index + 1) incoming rest)
                 (bandAxis zone)))"

subsection \<open>Docking\<close>

definition dockPane :: "tile list \<Rightarrow> string \<Rightarrow> string \<Rightarrow> dock_zone \<Rightarrow> tile list option" where
  "dockPane tiles movedId targetId zone =
     (case find (\<lambda>t. session_id t = movedId) tiles of
        None \<Rightarrow> None
      | Some moved \<Rightarrow>
          if movedId = targetId then None
          else (case rebalanceBand tiles moved targetId zone of
            Some rebalanced \<Rightarrow> Some rebalanced
          | None \<Rightarrow>
              let without = remove tiles movedId in
              (case find (\<lambda>t. session_id t = targetId) without of
                 None \<Rightarrow> None
               | Some target \<Rightarrow>
                   (case dockSplitRect target zone of
                      None \<Rightarrow> None
                    | Some (movedRect, keptRect) \<Rightarrow>
                        let result = with_rect moved movedRect # set_rect targetId keptRect without in
                        if \<not> validates result then None else Some (sortTiles result)))))"

text \<open>The tile a newcomer is before it has a place.\<close>

definition seed_tile :: "string \<Rightarrow> tile" where
  "seed_tile sid = tile_at sid \<lparr>gx = 0, gy = 0, gw = MIN_TILE_SIZE, gh = MIN_TILE_SIZE\<rparr>"

definition dockInsert :: "tile list \<Rightarrow> string \<Rightarrow> string \<Rightarrow> dock_zone \<Rightarrow> tile list option" where
  "dockInsert tiles sid targetId zone =
     (if length tiles \<ge> MAX_TILES then None
      else case find (\<lambda>t. session_id t = targetId) tiles of
        None \<Rightarrow> None
      | Some target \<Rightarrow>
          (case rebalanceBand tiles (seed_tile sid) targetId zone of
             Some rebalanced \<Rightarrow> Some rebalanced
           | None \<Rightarrow>
               (case dockSplitRect target zone of
                  None \<Rightarrow> None
                | Some (movedRect, keptRect) \<Rightarrow>
                    let result = tile_at sid movedRect # set_rect targetId keptRect tiles in
                    if \<not> validates result then None else Some (sortTiles result))))"

definition add_to_band :: "tile list \<Rightarrow> string \<Rightarrow> dock_zone \<Rightarrow> tile list option" where
  "add_to_band tiles sid zone =
     (case canvasBand tiles (bandAxis zone) of
        None \<Rightarrow> None
      | Some band \<Rightarrow>
          if band = [] then None
          else rebalanceBand tiles (seed_tile sid) (session_id (last band)) zone)"

definition addPaneTiles :: "tile list \<Rightarrow> string \<Rightarrow> tile list option" where
  "addPaneTiles tiles sid =
     (if length tiles \<ge> MAX_TILES then None
      else
        let banded =
          (if tiles = [] then None
           else case add_to_band tiles sid ZRight of
             Some r \<Rightarrow> Some r
           | None \<Rightarrow> add_to_band tiles sid ZBottom)
        in case banded of
          Some r \<Rightarrow> Some r
        | None \<Rightarrow>
            (case autoPlace tiles of
               (None, _) \<Rightarrow> None
             | (Some spot, placed) \<Rightarrow> Some (placed @ [tile_at sid spot])))"

subsection \<open>Pushing\<close>

definition push_moves :: "tile \<Rightarrow> tile \<Rightarrow> (int \<times> int) list" where
  "push_moves pusher other =
     sort_key (\<lambda>(dx, dy). abs dx + abs dy)
       (filter (\<lambda>(dx, dy).
           gx other + dx \<ge> 0 \<and> gx other + dx + gw other \<le> GRID_SIZE \<and>
           gy other + dy \<ge> 0 \<and> gy other + dy + gh other \<le> GRID_SIZE)
         [(gx pusher + gw pusher - gx other, 0),
          (0, gy pusher + gh pusher - gy other),
          (- (gx other + gw other - gx pusher), 0),
          (0, - (gy other + gh other - gy pusher))])"

text \<open>
  The first pair of the two nested loops that overlaps, by position in \<open>work\<close>; the dragged tile
  is at position 0 and is never pushed.
\<close>

definition push_pair :: "tile list \<Rightarrow> (nat \<times> nat) option" where
  "push_pair work =
     find (\<lambda>(i, j). i \<noteq> j \<and> j \<noteq> 0 \<and> rectsOverlap (work ! i) (work ! j))
       (List.product [0..<length work] [0..<length work])"

text \<open>The guarded loop; \<open>None\<close> is every way the move is refused.\<close>

fun push_loop :: "nat \<Rightarrow> tile list \<Rightarrow> tile list option" where
  "push_loop 0 work = None"
| "push_loop (Suc guard) work =
     (case push_pair work of
        None \<Rightarrow> if \<not> validates work then None else Some (sortTiles work)
      | Some (i, j) \<Rightarrow>
          (case push_moves (work ! i) (work ! j) of
             [] \<Rightarrow> None
           | (dx, dy) # _ \<Rightarrow>
               push_loop guard
                 (work[j := (work ! j)\<lparr>gx := gx (work ! j) + dx, gy := gy (work ! j) + dy\<rparr>])))"

definition dragged_to :: "tile \<Rightarrow> int \<Rightarrow> int \<Rightarrow> tile" where
  "dragged_to t x y =
     (let movedX = min (GRID_SIZE - MIN_TILE_SIZE) (max 0 x);
          movedY = min (GRID_SIZE - MIN_TILE_SIZE) (max 0 y)
      in t\<lparr>gx := movedX, gy := movedY, gw := min (gw t) (GRID_SIZE - movedX),
           gh := min (gh t) (GRID_SIZE - movedY)\<rparr>)"

text \<open>
  \<open>movePane\<close> answers a refused move with its argument itself, which \<open>insertPane\<close>
  recognises by reference; \<open>try_move\<close> is the move with refusal as \<open>None\<close>.
\<close>

definition try_move :: "tile list \<Rightarrow> string \<Rightarrow> int \<Rightarrow> int \<Rightarrow> tile list option" where
  "try_move tiles sid x y =
     (case find (\<lambda>t. session_id t = sid) tiles of
        None \<Rightarrow> None
      | Some target \<Rightarrow>
          push_loop 64 (dragged_to target x y # filter (\<lambda>t. session_id t \<noteq> sid) tiles))"

definition movePane :: "tile list \<Rightarrow> string \<Rightarrow> int \<Rightarrow> int \<Rightarrow> tile list" where
  "movePane tiles sid x y = (case try_move tiles sid x y of None \<Rightarrow> tiles | Some r \<Rightarrow> r)"

definition insertPane ::
  "tile list \<Rightarrow> string \<Rightarrow> int \<Rightarrow> int \<Rightarrow> int \<Rightarrow> int \<Rightarrow> tile list option" where
  "insertPane tiles sid w h x y =
     (if length tiles \<ge> MAX_TILES then None
      else if list_ex (\<lambda>t. session_id t = sid) tiles then None
      else try_move (tiles @ [tile_at sid \<lparr>gx = 0, gy = 0, gw = w, gh = h\<rparr>]) sid x y)"

subsection \<open>Reordering on a small screen\<close>

definition with_widget :: "tile list \<Rightarrow> tile \<Rightarrow> tile" where
  "with_widget tiles t =
     (case find (\<lambda>u. session_id u = session_id t) tiles of
        None \<Rightarrow> t
      | Some u \<Rightarrow> (case widget u of None \<Rightarrow> t | Some wd \<Rightarrow> t\<lparr>widget := Some wd\<rparr>))"

fun stack_up :: "tile list \<Rightarrow> int \<Rightarrow> int \<Rightarrow> int \<Rightarrow> string list \<Rightarrow> tile list" where
  "stack_up tiles base remainder y [] = []"
| "stack_up tiles base remainder y (sid # ids) =
     (let h = base + (if remainder > 0 then 1 else 0) in
      with_widget tiles (tile_at sid \<lparr>gx = 0, gy = y, gw = GRID_SIZE, gh = h\<rparr>) #
        stack_up tiles base (max 0 (remainder - 1)) (y + h) ids)"

text \<open>
  \<open>rects[index]\<close> is \<open>undefined\<close> past the end of \<open>rects\<close>, which leaves a tile without
  geometry; \<open>None\<close> is the result when that happens.
\<close>

definition repackMobileTiles :: "tile list \<Rightarrow> string list \<Rightarrow> tile list option" where
  "repackMobileTiles tiles orderedIds =
     (let ids = filter (\<lambda>sid. list_ex (\<lambda>t. session_id t = sid) tiles) orderedIds in
      if ids = [] then Some []
      else if int (length ids) \<le> GRID_SIZE div MIN_TILE_SIZE then
        Some (stack_up tiles (GRID_SIZE div int (length ids)) (GRID_SIZE mod int (length ids)) 0 ids)
      else
        let rects = map rect_of (sortTiles tiles) in
        if length rects < length ids then None
        else Some (map (\<lambda>(sid, r). with_widget tiles (tile_at sid r)) (zip ids rects)))"

definition moveIdInOrder :: "string list \<Rightarrow> string \<Rightarrow> int \<Rightarrow> string list" where
  "moveIdInOrder ids sid delta =
     (case find_index (\<lambda>i. i = sid) ids of
        None \<Rightarrow> ids
      | Some index \<Rightarrow>
          let target = int index + delta in
          if target < 0 \<or> target \<ge> int (length ids) then ids
          else ids[index := ids ! nat target, nat target := ids ! index])"

subsection \<open>Splitting a pane\<close>

lemma dockSplitRect_None:
  "dockSplitRect t zone = None \<longleftrightarrow> extent (bandAxis zone) t < 8"
  by (cases zone) (simp_all add: dockSplitRect_def bandAxis_def Let_def)

text \<open>The two halves, in the coordinates of the zone's axis.\<close>

lemma dockSplitRect_Some:
  assumes "dockSplitRect t zone = Some (m, k)" "ax = bandAxis zone"
  shows "8 \<le> extent ax t" "crossLead ax m = crossLead ax t" "crossSize ax m = crossSize ax t"
    "crossLead ax k = crossLead ax t" "crossSize ax k = crossSize ax t"
    "extent ax m = extent ax t div 2" "extent ax k = extent ax t - extent ax t div 2"
    "if zone = ZLeft \<or> zone = ZTop
     then lead ax m = lead ax t \<and> lead ax k = lead ax t + extent ax m
     else lead ax k = lead ax t \<and> lead ax m = lead ax t + extent ax k"
  using assms by (cases zone; auto simp: dockSplitRect_def bandAxis_def Let_def split: if_splits)+

lemma dockSplitRect_valid:
  assumes "dockSplitRect t zone = Some (m, k)" "valid_rect t"
  shows "valid_rect m" "valid_rect k" "\<not> overlaps m k"
    "overlaps u m \<Longrightarrow> overlaps u t" "overlaps u k \<Longrightarrow> overlaps u t"
proof -
  let ?ax = "bandAxis zone"
  note s = dockSplitRect_Some [OF assms(1) refl]
  note v = assms(2) [unfolded valid_rect_axis [of _ ?ax]]
  have h: "4 \<le> extent ?ax t div 2" "extent ?ax t div 2 \<le> extent ?ax t - extent ?ax t div 2"
    using s(1) by linarith+
  show "valid_rect m" "valid_rect k"
    using v s h unfolding valid_rect_axis [of _ ?ax] by (auto split: if_splits)
  show "\<not> overlaps m k" using s unfolding overlaps_axis [of _ _ ?ax] by (auto split: if_splits)
  show "overlaps u m \<Longrightarrow> overlaps u t" "overlaps u k \<Longrightarrow> overlaps u t"
    using s h unfolding overlaps_axis [of _ _ ?ax] by (auto split: if_splits)
qed

text \<open>
  Halving a pane towards a side of a legal rectangle is refused exactly when it measures fewer
  than eight cells on that axis. Otherwise the two halves are legal rectangles that share no cell,
  together cover exactly the pane, differ by at most one line of cells, and the half for the
  newcomer is the one on the requested side.
\<close>

theorem dockSplitRect_halves:
  assumes "valid_rect t" "ax = bandAxis zone"
  shows "case dockSplitRect t zone of
      None \<Rightarrow> extent ax t < 8
    | Some (m, k) \<Rightarrow> 8 \<le> extent ax t \<and> valid_rect m \<and> valid_rect k \<and>
        cells m \<inter> cells k = {} \<and> cells m \<union> cells k = cells t \<and>
        extent ax m \<le> extent ax k \<and> extent ax k \<le> extent ax m + 1 \<and>
        (if zone = ZLeft \<or> zone = ZTop then lead ax m < lead ax k else lead ax k < lead ax m)"
proof (cases "dockSplitRect t zone")
  case None
  then have "extent ax t < 8" using assms(2) by (simp add: dockSplitRect_None)
  then show ?thesis by (simp only: None option.case)
next
  case (Some mk)
  obtain m k where mk: "mk = (m, k)" by (cases mk)
  note s = dockSplitRect_Some [OF Some [unfolded mk] assms(2)]
  note v = dockSplitRect_valid [OF Some [unfolded mk] assms(1)]
  have h: "0 < extent ax t div 2" "extent ax t div 2 \<le> extent ax t - extent ax t div 2"
    "extent ax t - extent ax t div 2 \<le> extent ax t div 2 + 1"
    using s(1) by linarith+
  have "cells m \<inter> cells k = {}"
    using v(1-3) overlaps_cells [of m k] by (auto simp: valid_rect_def)
  moreover have "at_cell ax a c m \<or> at_cell ax a c k \<longleftrightarrow> at_cell ax a c t" for a c
    using s h by (auto simp: at_cell_def split: if_splits)
  then have "cells m \<union> cells k = cells t" by (cases ax) (auto simp: at_cell_cells)
  ultimately show ?thesis using Some mk s h v(1,2) by simp
qed

subsection \<open>Sharing the canvas out\<close>

lemma evenSlices_None: "evenSlices n = None \<longleftrightarrow> n = 0 \<or> 6 < n"
proof -
  have "24 div int n < 4" if "6 < n"
    using zdiv_mono2 [of 24 7 "int n"] that by simp
  moreover have "\<not> 24 div int n < 4" if "0 < n" "n \<le> 6"
    using zdiv_mono2 [of 24 "int n" 6] that by simp
  ultimately have "24 div int n < 4 \<longleftrightarrow> 6 < n" if "n \<noteq> 0"
    using that by (meson not_gr_zero not_le)
  then show ?thesis by (auto simp: evenSlices_def Let_def)
qed

lemma evenSlices_sizes:
  assumes "evenSlices n = Some sizes"
  shows "length sizes = n" "\<forall>x \<in> set sizes. 4 \<le> x" "sum_list sizes = 24"
    "\<forall>x \<in> set sizes. \<forall>y \<in> set sizes. x \<le> y + 1" "sorted (rev sizes)"
proof -
  have "n \<in> {1, 2, 3, 4, 5, 6}" using assms evenSlices_None [of n] by fastforce
  then show "length sizes = n" "\<forall>x \<in> set sizes. 4 \<le> x" "sum_list sizes = 24"
    "\<forall>x \<in> set sizes. \<forall>y \<in> set sizes. x \<le> y + 1" "sorted (rev sizes)"
    using assms by (auto simp: evenSlices_def Let_def upt_rec)
qed

lemma band_rect_axis [simp]:
  "lead ax (band_rect ax e s) = e" "extent ax (band_rect ax e s) = s"
  "crossLead ax (band_rect ax e s) = 0" "crossSize ax (band_rect ax e s) = 24"
  "lead ax (with_rect t (band_rect ax e s)) = e" "extent ax (with_rect t (band_rect ax e s)) = s"
  "crossLead ax (with_rect t (band_rect ax e s)) = 0" "crossSize ax (with_rect t (band_rect ax e s)) = 24"
  by (cases ax; simp add: band_rect_def)+

lemma lay_out_content:
  "length ts = length sizes \<Longrightarrow> map content (lay_out ax e ts sizes) = map content ts"
  by (induction ax e ts sizes rule: lay_out.induct) auto

lemma lay_out_lead:
  "\<forall>x \<in> set sizes. 0 \<le> x \<Longrightarrow> u \<in> set (lay_out ax e ts sizes) \<Longrightarrow> e \<le> lead ax u"
proof (induction ax e ts sizes rule: lay_out.induct)
  case (1 ax edge t ts sz sizes)
  then show ?case by force
qed auto

lemma lay_out_valid:
  assumes "length ts = length sizes" "\<forall>x \<in> set sizes. 4 \<le> x" "0 \<le> e" "e + sum_list sizes \<le> 24"
    and "distinct (map session_id ts)" "[] \<notin> session_id ` set ts" "length ts \<le> 16"
  shows "valid_tiles (lay_out ax e ts sizes)"
  using assms
proof (induction ax e ts sizes rule: lay_out.induct)
  case (1 ax e t ts sz sizes)
  let ?rest = "lay_out ax (e + sz) ts sizes"
  have pos: "0 \<le> sum_list sizes" using "1.prems"(2) by (intro sum_list_nonneg) force
  have rest: "valid_tiles ?rest" using "1.IH" "1.prems" by simp
  have ids: "map content ?rest = map content ts" using lay_out_content "1.prems"(1) by simp
  then have "session_id ` set ?rest = session_id ` set ts"
    by (metis content_ids mset_eq_setD set_map)
  moreover have "\<forall>u \<in> set ?rest. \<not> overlaps u (band_rect ax e sz)"
    using lay_out_lead [of sizes _ ax "e + sz" ts] "1.prems"(2)
    unfolding overlaps_axis [of _ _ ax] by force
  moreover have "valid_rect (band_rect ax e sz)"
    using "1.prems" pos by (simp add: valid_rect_axis [of _ ax])
  ultimately show ?case
    using rest "1.prems" arg_cong [OF ids, of length] by (auto simp: valid_tiles_Cons)
qed auto

lemma lay_out_covered:
  assumes "length ts = length sizes" "\<forall>x \<in> set sizes. 0 \<le> x"
  shows "(\<exists>u \<in> set (lay_out ax e ts sizes). at_cell ax m c u) \<longleftrightarrow>
    e \<le> m \<and> m < e + sum_list sizes \<and> 0 \<le> c \<and> c < 24"
  using assms
proof (induction ax e ts sizes rule: lay_out.induct)
  case (1 ax e t ts sz sizes)
  have "0 \<le> sum_list sizes" using "1.prems"(2) by (intro sum_list_nonneg) simp
  moreover have "(\<exists>u \<in> set (lay_out ax (e + sz) ts sizes). at_cell ax m c u) \<longleftrightarrow>
      e + sz \<le> m \<and> m < e + sz + sum_list sizes \<and> 0 \<le> c \<and> c < 24"
    using 1 by simp
  moreover have "0 \<le> sz" using "1.prems"(2) by simp
  ultimately show ?case by (auto simp: at_cell_def)
qed auto

lemma layOutBand_None:
  assumes "distinct (map session_id order)" "[] \<notin> session_id ` set order"
  shows "layOutBand order ax = None \<longleftrightarrow> order = [] \<or> 6 < length order"
proof (cases "evenSlices (length order)")
  case None
  then have "layOutBand order ax = None" by (simp add: layOutBand_def)
  moreover have "order = [] \<or> 6 < length order" using None evenSlices_None by auto
  ultimately show ?thesis by blast
next
  case (Some sizes)
  note s = evenSlices_sizes [OF Some]
  have n: "order \<noteq> []" "length order \<le> 6" using evenSlices_None [of "length order"] Some by auto
  have "valid_tiles (lay_out ax 0 order sizes)"
    by (rule lay_out_valid) (use assms s n in auto)
  with n Some show ?thesis by (simp add: layOutBand_def)
qed

text \<open>
  What a band that was laid out again looks like: every pane of the order is in it, no other, and
  the whole canvas is covered.
\<close>

lemma layOutBand_Some:
  assumes "layOutBand order ax = Some r"
  shows "valid_tiles r" "mset (map content r) = mset (map content order)" "covered r = canvas"
proof -
  from assms obtain sizes where sizes: "evenSlices (length order) = Some sizes"
    and v: "valid_tiles (lay_out ax 0 order sizes)" and r: "r = sortTiles (lay_out ax 0 order sizes)"
    by (auto simp: layOutBand_def Let_def split: option.splits if_splits)
  note s = evenSlices_sizes [OF sizes]
  show "valid_tiles r" using v r by simp
  show "mset (map content r) = mset (map content order)"
    using lay_out_content [of order sizes ax 0] s(1) unfolding r by (metis mset_map mset_sortTiles)
  have pos: "\<forall>x \<in> set sizes. 0 \<le> x" using s(2) by force
  have "(\<exists>u \<in> set r. at_cell ax m c u) \<longleftrightarrow> 0 \<le> m \<and> m < 24 \<and> 0 \<le> c \<and> c < 24" for m c
    using lay_out_covered [OF _ pos, of order ax 0 m c] s(1,3) by (simp add: r)
  then have cov: "(\<exists>u \<in> set r. (a, b) \<in> cells u) \<longleftrightarrow> 0 \<le> a \<and> a < 24 \<and> 0 \<le> b \<and> b < 24" for a b
    by (cases ax) (simp_all add: at_cell_cells conj_ac)
  show "covered r = canvas"
  proof (rule set_eqI)
    fix p show "p \<in> covered r \<longleftrightarrow> p \<in> canvas"
      using cov [of "fst p" "snd p"] by (simp add: covered_def canvas_def mem_Times_iff conj_ac)
  qed
qed

subsection \<open>Docking keeps the layout\<close>

lemma canvasBand_Some:
  assumes "canvasBand ts ax = Some band"
  shows "mset band = mset ts" "ts \<noteq> []"
  using assms by (auto simp: canvasBand_def Let_def split: if_splits)

lemma rebalanceBand_Some:
  assumes "rebalanceBand ts incoming targetId zone = Some r"
  shows "valid_tiles r" "covered r = canvas"
    "mset (map content r) =
       add_mset (content incoming) (mset (map content (others_of (session_id incoming) ts)))"
proof -
  from assms obtain band index where band: "canvasBand ts (bandAxis zone) = Some band"
    and r: "layOutBand (insert_at (if zone = ZLeft \<or> zone = ZTop then index else index + 1) incoming
        (filter (\<lambda>t. session_id t \<noteq> session_id incoming) band)) (bandAxis zone) = Some r"
    unfolding rebalanceBand_def Let_def by (auto split: option.splits)
  note l = layOutBand_Some [OF r]
  show "valid_tiles r" "covered r = canvas" by (fact l)+
  have "mset (filter (\<lambda>t. session_id t \<noteq> session_id incoming) band) =
      mset (others_of (session_id incoming) ts)"
    unfolding others_of_def using canvasBand_Some(1) [OF band] by (metis mset_filter)
  then show "mset (map content r) =
       add_mset (content incoming) (mset (map content (others_of (session_id incoming) ts)))"
    using l(2) by simp
qed

text \<open>Cutting a pane in two and giving one half to a new tile.\<close>

lemma split_valid:
  assumes "valid_tiles ts" "target \<in> set ts" "dockSplitRect target zone = Some (m, k)"
    and "session_id n \<noteq> []" "session_id n \<notin> session_id ` set ts" "length ts < 16" "rect_of n = m"
  shows "valid_tiles (n # set_rect (session_id target) k ts)"
proof -
  let ?o = "others_of (session_id target) ts" and ?s = "set_rect (session_id target) k ts"
  note d = dockSplitRect_valid [OF assms(3) valid_tilesD(4) [OF assms(1,2)]]
  have o: "\<not> overlaps u target" if "u \<in> set ?o" for u
    using that valid_tilesD(5) [OF assms(1) _ assms(2)] by (auto simp: others_of_def)
  have "valid_tiles (with_rect target k # ?o)"
    by (rule valid_tiles_replace [OF assms(1,2)]) (use d(2,5) o in auto)
  note m = mset_set_rect [OF valid_tilesD(2) [OF assms(1)] assms(2), of k]
  have v: "valid_tiles ?s" using valid_tiles_mset [OF m] \<open>valid_tiles (with_rect target k # ?o)\<close> by blast
  have s: "set ?s = insert (with_rect target k) (set ?o)" using mset_eq_setD [OF m] by simp
  have n: "valid_rect n" "overlaps u n = overlaps u m" for u :: tile using d(1) assms(7) by auto
  have "\<not> overlaps k m" using d(3) overlaps_sym by blast
  then have "\<not> overlaps u m" if "u \<in> set ?s" for u
    using that d(4) o unfolding s by auto
  moreover have "session_id ` set ?s = session_id ` set ts"
    by (metis set_map set_rect_ids)
  moreover have "length ?s = length ts" by (simp add: set_rect_def)
  ultimately show ?thesis
    using v n assms(4-6) by (simp add: valid_tiles_Cons)
qed

text \<open>One tile flush against the requested side of another, over its whole width.\<close>

definition docked :: "dock_zone \<Rightarrow> tile \<Rightarrow> tile \<Rightarrow> bool" where
  "docked zone m k \<longleftrightarrow>
     (let ax = bandAxis zone in
      crossLead ax m = crossLead ax k \<and> crossSize ax m = crossSize ax k \<and>
      (if zone = ZLeft \<or> zone = ZTop then lead ax m + extent ax m = lead ax k
       else lead ax k + extent ax k = lead ax m))"

lemma split_docked:
  assumes "dockSplitRect target zone = Some (m, k)" "rect_of n = m" "rect_of u = k"
  shows "docked zone n u"
proof -
  have r: "lead ax n = lead ax m" "extent ax n = extent ax m" "crossLead ax n = crossLead ax m"
    "crossSize ax n = crossSize ax m" "lead ax u = lead ax k" "extent ax u = extent ax k"
    "crossLead ax u = crossLead ax k" "crossSize ax u = crossSize ax k" for ax
    using assms(2,3) by (cases ax; auto)+
  show ?thesis using dockSplitRect_Some [OF assms(1) refl] unfolding docked_def Let_def r by auto
qed

lemma lay_out_next:
  assumes "length sizes = length (xs @ a # b # ys)"
  shows "\<exists>u v. u \<in> set (lay_out ax e (xs @ a # b # ys) sizes) \<and>
    v \<in> set (lay_out ax e (xs @ a # b # ys) sizes) \<and> session_id u = session_id a \<and>
    session_id v = session_id b \<and> lead ax u + extent ax u = lead ax v \<and>
    crossLead ax u = crossLead ax v \<and> crossSize ax u = crossSize ax v"
  using assms
proof (induction xs arbitrary: e sizes)
  case Nil
  then obtain s1 s2 rest where "sizes = s1 # s2 # rest" by (auto simp: length_Suc_conv)
  then show ?case by force
next
  case (Cons x xs)
  then obtain s1 rest where "sizes = s1 # rest" "length rest = length (xs @ a # b # ys)"
    by (cases sizes) auto
  with Cons.IH [of rest "e + s1"] show ?case by auto
qed

lemma layOutBand_next:
  assumes "layOutBand (xs @ a # b # ys) ax = Some r"
  shows "\<exists>u v. u \<in> set r \<and> v \<in> set r \<and> session_id u = session_id a \<and> session_id v = session_id b \<and>
    lead ax u + extent ax u = lead ax v \<and> crossLead ax u = crossLead ax v \<and>
    crossSize ax u = crossSize ax v"
proof -
  from assms obtain sizes where "evenSlices (length (xs @ a # b # ys)) = Some sizes"
    and r: "r = sortTiles (lay_out ax 0 (xs @ a # b # ys) sizes)"
    unfolding layOutBand_def Let_def by (auto split: option.splits if_splits)
  then have "length sizes = length (xs @ a # b # ys)" using evenSlices_sizes(1) by blast
  from lay_out_next [OF this, of ax 0] show ?thesis unfolding r set_sortTiles .
qed

lemma rebalanceBand_docked:
  assumes "rebalanceBand ts incoming targetId zone = Some r"
  shows "\<exists>u v. u \<in> set r \<and> v \<in> set r \<and> session_id u = session_id incoming \<and> session_id v = targetId \<and>
    docked zone u v"
proof -
  from assms obtain band index where
    ix: "find_index (\<lambda>t. session_id t = targetId)
        (filter (\<lambda>t. session_id t \<noteq> session_id incoming) band) = Some index"
    and r: "layOutBand (insert_at (if zone = ZLeft \<or> zone = ZTop then index else index + 1) incoming
        (filter (\<lambda>t. session_id t \<noteq> session_id incoming) band)) (bandAxis zone) = Some r"
    unfolding rebalanceBand_def Let_def by (auto split: option.splits)
  let ?rest = "filter (\<lambda>t. session_id t \<noteq> session_id incoming) band"
  have i: "index < length ?rest" "session_id (?rest ! index) = targetId"
    using find_index_Some [OF ix] by auto
  show ?thesis
  proof (cases "zone = ZLeft \<or> zone = ZTop")
    case True
    have "insert_at index incoming ?rest =
        take index ?rest @ incoming # ?rest ! index # drop (Suc index) ?rest"
      by (simp only: insert_at_def Cons_nth_drop_Suc [OF i(1)])
    with r True have "layOutBand (take index ?rest @ incoming # ?rest ! index # drop (Suc index) ?rest)
        (bandAxis zone) = Some r" by (simp only: if_True)
    from layOutBand_next [OF this] show ?thesis
      using True i(2) unfolding docked_def Let_def by (metis (no_types, lifting))
  next
    case False
    have "insert_at (index + 1) incoming ?rest =
        take index ?rest @ ?rest ! index # incoming # drop (Suc index) ?rest"
      by (simp only: insert_at_def Suc_eq_plus1 [symmetric] take_Suc_conv_app_nth [OF i(1)]
          append_assoc append_Cons append_Nil)
    with r False have "layOutBand (take index ?rest @ ?rest ! index # incoming # drop (Suc index) ?rest)
        (bandAxis zone) = Some r" by (simp only: if_False)
    from layOutBand_next [OF this] show ?thesis
      using False i(2) unfolding docked_def Let_def by (metis (no_types, lifting))
  qed
qed

lemma removed_rest:
  assumes "valid_tiles ts" "t \<in> set ts"
  shows "valid_tiles (remove ts (session_id t))"
    "add_mset (content t) (mset (map content (remove ts (session_id t)))) = mset (map content ts)"
    "session_id ` set (remove ts (session_id t)) = session_id ` set ts - {session_id t}"
    "length (remove ts (session_id t)) < 16"
proof -
  let ?o = "others_of (session_id t) ts"
  note rv = remove_valid_content [OF assms(1), of "session_id t"]
  show "valid_tiles (remove ts (session_id t))" using rv by blast
  show c: "add_mset (content t) (mset (map content (remove ts (session_id t)))) = mset (map content ts)"
    using rv content_replace [OF assms refl] by simp
  have "session_id ` set (remove ts (session_id t)) = session_id ` set ?o"
    using content_ids [of "remove ts (session_id t)" ?o] rv by (metis mset_eq_setD set_map)
  then show "session_id ` set (remove ts (session_id t)) = session_id ` set ts - {session_id t}"
    by (auto simp: others_of_def)
  show "length (remove ts (session_id t)) < 16"
    using arg_cong [OF c, of size] valid_tilesD(1) [OF assms(1)] by simp
qed

lemma split_dock:
  assumes "valid_tiles ts" "target \<in> set ts" "dockSplitRect target zone = Some (m, k)"
    and "session_id n \<noteq> []" "session_id n \<notin> session_id ` set ts" "length ts < 16" "rect_of n = m"
    and "r = sortTiles (n # set_rect (session_id target) k ts)"
  shows "mset (map content r) = add_mset (content n) (mset (map content ts)) \<and>
    (\<exists>a \<in> set r. \<exists>b \<in> set r. session_id a = session_id n \<and> session_id b = session_id target \<and>
      docked zone a b)"
proof
  have "mset (map content r) = mset (map content (n # set_rect (session_id target) k ts))"
    unfolding assms(8) by (metis mset_map mset_sortTiles)
  then show "mset (map content r) = add_mset (content n) (mset (map content ts))"
    by (simp only: list.map(2) set_rect_content mset.simps(2))
  have k: "rect_of (with_rect target k) = k" by (simp add: rect_of_def)
  show "\<exists>a \<in> set r. \<exists>b \<in> set r. session_id a = session_id n \<and> session_id b = session_id target \<and>
      docked zone a b"
  proof (intro bexI conjI)
    show "docked zone n (with_rect target k)" by (rule split_docked [OF assms(3,7) k])
    show "with_rect target k \<in> set r" using set_rect_mem [OF assms(2)] assms(8) by simp
    show "n \<in> set r" using assms(8) by simp
  qed simp_all
qed

lemma dockPane_spec:
  assumes "valid_tiles ts" "moved \<in> set ts" "targetId \<in> session_id ` set ts" "targetId \<noteq> session_id moved"
  shows "case dockPane ts (session_id moved) targetId zone of
      None \<Rightarrow> rebalanceBand ts moved targetId zone = None \<and>
        (\<exists>target \<in> set (remove ts (session_id moved)).
           session_id target = targetId \<and> extent (bandAxis zone) target < 8)
    | Some r \<Rightarrow> valid_tiles r \<and> mset (map content r) = mset (map content ts) \<and>
        (\<exists>m \<in> set r. \<exists>k \<in> set r. session_id m = session_id moved \<and> session_id k = targetId \<and>
           docked zone m k)"
proof -
  have f: "find (\<lambda>t. session_id t = session_id moved) ts = Some moved"
    using find_tile [OF assms(1)] assms(2) by blast
  show ?thesis
  proof (cases "rebalanceBand ts moved targetId zone")
    case (Some r)
    have D: "dockPane ts (session_id moved) targetId zone = Some r"
      using f assms(4) Some by (simp add: dockPane_def)
    have "mset (map content r) = mset (map content ts)"
      using rebalanceBand_Some(3) [OF Some] content_replace [OF assms(1,2) refl] by simp
    with D rebalanceBand_Some(1) [OF Some] rebalanceBand_docked [OF Some] show ?thesis
      by (simp only: option.case) blast
  next
    case None
    let ?w = "remove ts (session_id moved)"
    note w = removed_rest [OF assms(1,2)]
    have "targetId \<in> session_id ` set ?w" using w(3) assms(3,4) by blast
    then obtain target where t: "target \<in> set ?w" "session_id target = targetId" by auto
    then have ft: "find (\<lambda>t. session_id t = targetId) ?w = Some target" using find_tile [OF w(1)] by blast
    show ?thesis
    proof (cases "dockSplitRect target zone")
      case None
      then have "dockPane ts (session_id moved) targetId zone = None"
        using f assms(4) \<open>rebalanceBand ts moved targetId zone = None\<close> ft by (simp add: dockPane_def)
      then show ?thesis
        using \<open>rebalanceBand ts moved targetId zone = None\<close> t None dockSplitRect_None [of target zone]
        by (simp only: option.case) blast
    next
      case (Some mk)
      obtain m k where mk: "mk = (m, k)" by (cases mk)
      note s = Some [unfolded mk]
      let ?r = "with_rect moved m # set_rect (session_id target) k ?w"
      have p: "session_id (with_rect moved m) \<noteq> []" "session_id (with_rect moved m) \<notin> session_id ` set ?w"
        "rect_of (with_rect moved m) = m"
        using w(3) valid_tilesD(3) [OF assms(1,2)] by (simp_all add: rect_of_def)
      have v: "valid_tiles ?r" by (rule split_valid [OF w(1) t(1) s p(1,2) w(4) p(3)])
      then have D: "dockPane ts (session_id moved) targetId zone = Some (sortTiles ?r)"
        using f assms(4) None ft s t(2) by (simp add: dockPane_def Let_def)
      have "mset (map content (sortTiles ?r)) = mset (map content ts) \<and>
        (\<exists>a \<in> set (sortTiles ?r). \<exists>b \<in> set (sortTiles ?r).
           session_id a = session_id moved \<and> session_id b = targetId \<and> docked zone a b)"
        using split_dock [OF w(1) t(1) s p(1,2) w(4) p(3) refl] w(2) t(2) by simp
      with v show ?thesis unfolding D option.case valid_sortTiles by blast
    qed
  qed
qed

text \<open>
  Docking a pane of a valid layout against a side of another either gives a valid layout with the
  same panes, in which the moved pane is flush against that side of the target over its whole
  width; or is refused, which happens only when the canvas is not a band that can be shared out and
  the target, grown into the space the pane left, is under eight cells on that axis.
\<close>

theorem dockPane_docks:
  assumes "valid_tiles ts" "moved \<in> set ts" "targetId \<in> session_id ` set ts" "targetId \<noteq> session_id moved"
  shows "case dockPane ts (session_id moved) targetId zone of
      None \<Rightarrow> rebalanceBand ts moved targetId zone = None \<and>
        (\<exists>target \<in> set (remove ts (session_id moved)).
           session_id target = targetId \<and> extent (bandAxis zone) target < 8)
    | Some r \<Rightarrow> valid_tiles r \<and> mset (map content r) = mset (map content ts) \<and>
        (\<exists>m \<in> set r. \<exists>k \<in> set r. session_id m = session_id moved \<and> session_id k = targetId \<and>
           docked zone m k)"
  using assms by (rule dockPane_spec)

subsection \<open>Adding a pane\<close>

text \<open>
  The contract of an operation that puts a new pane into a layout, or refuses: the new layout is
  valid and holds the old panes and the new one.
\<close>

locale pane_adder =
  fixes add :: "tile list \<Rightarrow> string \<Rightarrow> tile list option"
  assumes add_pane:
    "valid_tiles ts \<Longrightarrow> sid \<noteq> [] \<Longrightarrow> sid \<notin> session_id ` set ts \<Longrightarrow> add ts sid = Some r \<Longrightarrow>
       valid_tiles r \<and> mset (map content r) = add_mset (sid, None) (mset (map content ts))"
begin

lemma add_length:
  assumes "valid_tiles ts" "sid \<noteq> []" "sid \<notin> session_id ` set ts" "add ts sid = Some r"
  shows "length r = Suc (length ts)" "length ts < 16"
proof -
  have "size (mset (map content r)) = Suc (size (mset (map content ts)))"
    using add_pane [OF assms] by (metis size_add_mset)
  then show "length r = Suc (length ts)" by simp
  moreover have "length r \<le> 16" using add_pane [OF assms] valid_tilesD(1) by blast
  ultimately show "length ts < 16" by simp
qed

lemma add_ids:
  assumes "valid_tiles ts" "sid \<noteq> []" "sid \<notin> session_id ` set ts" "add ts sid = Some r"
  shows "session_id ` set r = insert sid (session_id ` set ts)"
proof -
  have "set_mset (mset (map content r)) = insert (sid, None) (set_mset (mset (map content ts)))"
    using add_pane [OF assms] by simp
  then have "fst ` content ` set r = fst ` insert (sid, None) (content ` set ts)" by simp
  then show ?thesis by (simp add: content_def image_image)
qed

end

lemma others_fresh: "sid \<notin> session_id ` set ts \<Longrightarrow> others_of sid ts = ts"
  by (auto simp: others_of_def filter_id_conv)

lemma seed_tile_simps [simp]:
  "session_id (seed_tile sid) = sid" "content (seed_tile sid) = (sid, None)" "widget (seed_tile sid) = None"
  by (simp_all add: seed_tile_def)

lemma rebalance_add:
  assumes "rebalanceBand ts (seed_tile sid) targetId zone = Some r" "sid \<notin> session_id ` set ts"
  shows "valid_tiles r \<and> mset (map content r) = add_mset (sid, None) (mset (map content ts))"
  using rebalanceBand_Some [OF assms(1)] others_fresh [OF assms(2)] by simp

lemma dockInsert_Some:
  assumes "valid_tiles ts" "sid \<noteq> []" "sid \<notin> session_id ` set ts"
    and "dockInsert ts sid targetId zone = Some r"
  shows "valid_tiles r \<and> mset (map content r) = add_mset (sid, None) (mset (map content ts)) \<and>
    (\<exists>m \<in> set r. \<exists>k \<in> set r. session_id m = sid \<and> session_id k = targetId \<and> docked zone m k)"
proof -
  have len: "length ts < 16" using assms(4) by (simp add: dockInsert_def split: if_splits)
  obtain target where t: "find (\<lambda>t. session_id t = targetId) ts = Some target"
    using assms(4) by (auto simp: dockInsert_def split: if_splits option.splits)
  then have tt: "target \<in> set ts" "session_id target = targetId" using find_tile [OF assms(1)] by auto
  show ?thesis
  proof (cases "rebalanceBand ts (seed_tile sid) targetId zone")
    case (Some q)
    then have "r = q" using assms(4) len t by (simp add: dockInsert_def)
    with rebalance_add [OF Some assms(3)] rebalanceBand_docked [OF Some] show ?thesis by auto
  next
    case None
    then obtain m k where s: "dockSplitRect target zone = Some (m, k)"
      using assms(4) len t by (auto simp: dockInsert_def split: option.splits)
    have p: "session_id (tile_at sid m) \<noteq> []" "session_id (tile_at sid m) \<notin> session_id ` set ts"
      "rect_of (tile_at sid m) = m" using assms(2,3) by (simp_all add: rect_of_def)
    note v = split_valid [OF assms(1) tt(1) s p(1,2) len p(3)]
    then have r: "r = sortTiles (tile_at sid m # set_rect (session_id target) k ts)"
      using assms(4) None len t s tt(2) by (simp add: dockInsert_def Let_def)
    show ?thesis
      using split_dock [OF assms(1) tt(1) s p(1,2) len p(3) r] v tt(2) by (simp add: r)
  qed
qed

interpretation dock_adder: pane_adder "\<lambda>ts sid. dockInsert ts sid targetId zone"
  by unfold_locales (use dockInsert_Some in blast)

lemma addPaneTiles_Some:
  assumes "valid_tiles ts" "sid \<noteq> []" "sid \<notin> session_id ` set ts" "addPaneTiles ts sid = Some r"
  shows "valid_tiles r \<and> mset (map content r) = add_mset (sid, None) (mset (map content ts))"
proof -
  have len: "length ts < 16" using assms(4) by (simp add: addPaneTiles_def split: if_splits)
  obtain ro placed where a: "autoPlace ts = (ro, placed)" by (cases "autoPlace ts")
  have "(\<exists>z. add_to_band ts sid z = Some r) \<or> (\<exists>spot. ro = Some spot \<and> r = placed @ [tile_at sid spot])"
    using assms(4) len a
    by (cases "add_to_band ts sid ZRight"; cases "add_to_band ts sid ZBottom"; cases ro; cases "ts = []")
      (simp_all add: addPaneTiles_def; blast)+
  then consider z where "add_to_band ts sid z = Some r"
    | spot where "autoPlace ts = (Some spot, placed)" "r = placed @ [tile_at sid spot]"
    using a by blast
  then show ?thesis
  proof cases
    case 1
    then obtain targetId where "rebalanceBand ts (seed_tile sid) targetId z = Some r"
      unfolding add_to_band_def by (auto split: option.splits if_splits)
    then show ?thesis using rebalance_add assms(3) by blast
  next
    case 2
    have "session_id (tile_at sid spot) = sid" "rect_of (tile_at sid spot) = spot"
      by (simp_all add: rect_of_def)
    with 2 show ?thesis
      using auto.place_snoc [OF assms(1) 2(1), of "tile_at sid spot"] assms(2,3) by simp
  qed
qed

interpretation pane_tiles_adder: pane_adder addPaneTiles
  by unfold_locales (use addPaneTiles_Some in blast)

subsection \<open>Pushing panes out of the way\<close>

text \<open>A tile that kept its contents and its size, wherever it is.\<close>

definition pushed_from :: "tile \<Rightarrow> tile \<Rightarrow> bool" where
  "pushed_from a b \<longleftrightarrow> content b = content a \<and> gw b = gw a \<and> gh b = gh a"

lemma push_pair_Some:
  assumes "push_pair work = Some (i, j)"
  shows "i < length work" "j < length work" "j \<noteq> 0"
  using find_Some_in [OF assms [unfolded push_pair_def]] by auto

lemma push_loop_Some:
  assumes "push_loop n work = Some r" "work \<noteq> []"
  shows "\<exists>ws. mset r = mset ws \<and> valid_tiles r \<and> list_all2 pushed_from work ws \<and> ws ! 0 = work ! 0"
  using assms
proof (induction n work rule: push_loop.induct)
  case (2 n work)
  show ?case
  proof (cases "push_pair work")
    case None
    have "list_all2 pushed_from work work" by (simp add: list_all2_conv_all_nth pushed_from_def)
    with None "2.prems" show ?thesis by (intro exI [of _ work]) (auto split: if_splits)
  next
    case (Some ij)
    obtain i j where ij: "ij = (i, j)" by (cases ij)
    note p = push_pair_Some [OF Some [unfolded ij]]
    obtain d ds where ds: "push_moves (work ! i) (work ! j) = d # ds"
      using "2.prems" Some ij by (cases "push_moves (work ! i) (work ! j)") auto
    obtain dx dy where d: "d = (dx, dy)" by (cases d)
    let ?w = "work[j := (work ! j)\<lparr>gx := gx (work ! j) + dx, gy := gy (work ! j) + dy\<rparr>]"
    have "push_loop n ?w = Some r" using "2.prems"(1) Some ij ds d by simp
    then obtain ws where ws: "mset r = mset ws" "valid_tiles r" "list_all2 pushed_from ?w ws" "ws ! 0 = ?w ! 0"
      using "2.IH" [OF Some ij [symmetric] ds d [symmetric]] "2.prems"(2) by auto
    have "pushed_from (work ! m) (?w ! m)" if "m < length work" for m
      using that by (cases "m = j") (auto simp: pushed_from_def content_def)
    then have "list_all2 pushed_from work ws"
      using ws(3) by (auto simp: list_all2_conv_all_nth pushed_from_def)
    with ws p(3) show ?thesis by (intro exI [of _ ws]) simp
  qed
qed simp

lemma list_all2_pushed_content:
  "list_all2 pushed_from us ws \<Longrightarrow> map content ws = map content us"
  by (induction rule: list_all2_induct) (auto simp: pushed_from_def)

lemma dragged_to_simps [simp]:
  "session_id (dragged_to t x y) = session_id t" "content (dragged_to t x y) = content t"
  by (simp_all add: dragged_to_def Let_def content_def)

lemma dragged_to_rect: "valid_rect t \<Longrightarrow> valid_rect (dragged_to t x y)"
  by (auto simp: dragged_to_def Let_def valid_rect_def min_def max_def)

lemma try_move_Some:
  assumes "distinct (map session_id ts)" "t \<in> set ts" "try_move ts (session_id t) x y = Some r"
  shows "valid_tiles r" "mset (map content r) = mset (map content ts)" "dragged_to t x y \<in> set r"
    "u \<in> set ts \<Longrightarrow> u \<noteq> t \<Longrightarrow> \<exists>v \<in> set r. pushed_from u v"
proof -
  let ?o = "others_of (session_id t) ts"
  have "find (\<lambda>u. session_id u = session_id t) ts = Some t"
    using find_key_distinct [OF assms(1,2)] .
  then have "push_loop 64 (dragged_to t x y # ?o) = Some r"
    using assms(3) by (simp add: try_move_def others_of_def)
  from push_loop_Some [OF this] obtain ws where ws: "mset r = mset ws" "valid_tiles r"
    "list_all2 pushed_from (dragged_to t x y # ?o) ws" "ws ! 0 = dragged_to t x y"
    by auto
  show "valid_tiles r" by (fact ws)
  have "map content ws = content t # map content ?o"
    using list_all2_pushed_content [OF ws(3)] by simp
  then have "image_mset content (mset ws) = image_mset content (mset ts)"
    unfolding mset_others_of [OF assms(1,2)] mset_map [symmetric] by simp
  then show "mset (map content r) = mset (map content ts)" by (simp add: ws(1))
  have set: "set r = set ws" using mset_eq_setD [OF ws(1)] .
  moreover have "ws \<noteq> []" using ws(3) by auto
  ultimately show "dragged_to t x y \<in> set r" using ws(4) by (metis length_greater_0_conv nth_mem)
  show "\<exists>v \<in> set r. pushed_from u v" if "u \<in> set ts" "u \<noteq> t"
  proof -
    have "u \<in> set (dragged_to t x y # ?o)"
      using that set_others_of [OF assms(1,2)] by simp
    then show ?thesis using ws(3) set by (metis in_set_conv_nth list_all2_conv_all_nth)
  qed
qed

lemma movePane_valid_content:
  assumes "valid_tiles ts"
  shows "valid_tiles (movePane ts sid x y) \<and> mset (map content (movePane ts sid x y)) = mset (map content ts)"
proof (cases "try_move ts sid x y")
  case None
  then show ?thesis using assms by (simp add: movePane_def)
next
  case (Some r)
  then obtain t where "t \<in> set ts" "session_id t = sid"
    using find_tile [OF assms] by (auto simp: try_move_def split: option.splits)
  with Some try_move_Some(1,2) [OF valid_tilesD(2) [OF assms]] show ?thesis
    by (auto simp: movePane_def)
qed

interpretation pane_edit: tile_edit "\<lambda>ts. movePane ts sid x y"
  by unfold_locales (use movePane_valid_content in blast)+

text \<open>
  Dragging a pane of a valid layout to a place either leaves the layout as it is, or puts that
  pane exactly where it was dragged, clamped to the canvas and cut off at its border, keeps the
  size and the contents of every other pane, and gives a valid layout. When the place is free the
  drag is never refused and no other pane moves.
\<close>

theorem movePane_exact:
  assumes "valid_tiles ts" "t \<in> set ts"
  shows "(case try_move ts (session_id t) x y of
      None \<Rightarrow> movePane ts (session_id t) x y = ts
    | Some r \<Rightarrow> movePane ts (session_id t) x y = r \<and> valid_tiles r \<and>
        mset (map content r) = mset (map content ts) \<and> dragged_to t x y \<in> set r \<and>
        (\<forall>u \<in> set ts - {t}. \<exists>v \<in> set r. pushed_from u v)) \<and>
    ((\<forall>u \<in> set ts - {t}. \<not> overlaps (dragged_to t x y) u) \<longrightarrow>
       set (movePane ts (session_id t) x y) = insert (dragged_to t x y) (set ts - {t}))"
proof
  note d = valid_tilesD(2) [OF assms(1)]
  show "case try_move ts (session_id t) x y of
      None \<Rightarrow> movePane ts (session_id t) x y = ts
    | Some r \<Rightarrow> movePane ts (session_id t) x y = r \<and> valid_tiles r \<and>
        mset (map content r) = mset (map content ts) \<and> dragged_to t x y \<in> set r \<and>
        (\<forall>u \<in> set ts - {t}. \<exists>v \<in> set r. pushed_from u v)"
    using try_move_Some [OF d assms(2)] by (cases "try_move ts (session_id t) x y") (auto simp: movePane_def)
  show "(\<forall>u \<in> set ts - {t}. \<not> overlaps (dragged_to t x y) u) \<longrightarrow>
       set (movePane ts (session_id t) x y) = insert (dragged_to t x y) (set ts - {t})"
  proof
    assume free: "\<forall>u \<in> set ts - {t}. \<not> overlaps (dragged_to t x y) u"
    let ?o = "others_of (session_id t) ts" and ?w = "dragged_to t x y # others_of (session_id t) ts"
    have o: "set ?o = set ts - {t}" by (rule set_others_of [OF d assms(2)])
    have v: "valid_tiles ?w"
      by (rule valid_tiles_replace [OF assms])
        (use free o overlaps_sym dragged_to_rect valid_tilesD(4) [OF assms] in auto)
    have "push_pair ?w = None"
    proof (rule ccontr)
      assume "push_pair ?w \<noteq> None"
      then obtain i j where ij: "push_pair ?w = Some (i, j)" by auto
      then have "i \<noteq> j" "overlaps (?w ! i) (?w ! j)"
        using find_Some_in [OF ij [unfolded push_pair_def]] by auto
      with valid_tiles_nth(1) [OF v push_pair_Some(1,2) [OF ij]] show False by blast
    qed
    moreover have "find (\<lambda>u. session_id u = session_id t) ts = Some t"
      using find_key_distinct [OF d assms(2)] .
    ultimately have "try_move ts (session_id t) x y = Some (sortTiles ?w)"
      using v by (simp add: try_move_def numeral_eq_Suc others_of_def)
    then show "set (movePane ts (session_id t) x y) = insert (dragged_to t x y) (set ts - {t})"
      using o by (simp add: movePane_def)
  qed
qed

lemma insertPane_Some:
  assumes "valid_tiles ts" "sid \<noteq> []" "sid \<notin> session_id ` set ts" "insertPane ts sid w h x y = Some r"
  shows "valid_tiles r \<and> mset (map content r) = add_mset (sid, None) (mset (map content ts)) \<and>
    dragged_to (tile_at sid \<lparr>gx = 0, gy = 0, gw = w, gh = h\<rparr>) x y \<in> set r"
proof -
  let ?n = "tile_at sid \<lparr>gx = 0, gy = 0, gw = w, gh = h\<rparr>"
  have d: "distinct (map session_id (ts @ [?n]))" using valid_tilesD(2) [OF assms(1)] assms(3) by simp
  have "try_move (ts @ [?n]) (session_id ?n) x y = Some r"
    using assms(4) by (simp add: insertPane_def split: if_splits)
  from try_move_Some(1-3) [OF d _ this] show ?thesis by simp
qed

interpretation insert_adder: pane_adder "\<lambda>ts sid. insertPane ts sid w h x y"
  by unfold_locales (use insertPane_Some in blast)

text \<open>
  Every way of adding a pane with a new identifier to a valid layout, when it is not refused,
  gives a valid layout holding the panes it held and the new one: docked flush against the chosen
  side of the target, dropped exactly at the requested place, or placed by the layout itself.
\<close>

theorem added_pane:
  assumes "valid_tiles ts" "sid \<noteq> []" "sid \<notin> session_id ` set ts"
    and "r = dockInsert ts sid targetId zone \<or> r = insertPane ts sid w h x y \<or> r = addPaneTiles ts sid"
    and "r = Some us"
  shows "valid_tiles us \<and> mset (map content us) = add_mset (sid, None) (mset (map content ts)) \<and>
    (r = dockInsert ts sid targetId zone \<longrightarrow>
      (\<exists>m \<in> set us. \<exists>k \<in> set us. session_id m = sid \<and> session_id k = targetId \<and> docked zone m k)) \<and>
    (r = insertPane ts sid w h x y \<longrightarrow>
      dragged_to (tile_at sid \<lparr>gx = 0, gy = 0, gw = w, gh = h\<rparr>) x y \<in> set us)"
  using assms(4,5) dockInsert_Some [OF assms(1-3)] insertPane_Some [OF assms(1-3)]
    addPaneTiles_Some [OF assms(1-3)] by metis

subsection \<open>Reordering\<close>

lemma with_widget_simps [simp]:
  "session_id (with_widget ts t) = session_id t" "rect_of (with_widget ts t) = rect_of t"
  "gx (with_widget ts t) = gx t" "gy (with_widget ts t) = gy t"
  "gw (with_widget ts t) = gw t" "gh (with_widget ts t) = gh t"
  by (simp_all add: with_widget_def rect_of_def split: option.splits)

lemma with_widget_content:
  assumes "valid_tiles ts" "t \<in> set ts"
  shows "content (with_widget ts (tile_at (session_id t) r)) = content t"
proof -
  have "find (\<lambda>u. session_id u = session_id t) ts = Some t" using find_tile [OF assms(1)] assms(2) by blast
  then show ?thesis by (simp add: with_widget_def content_def split: option.splits)
qed

lemma valid_with_widget: "valid_tiles us \<Longrightarrow> valid_tiles (map (with_widget ts) us)"
  by (rule valid_tiles_map) (auto simp: valid_rect_def overlaps_def dest: valid_tilesD(4,5))

lemma sortTiles_map_widget: "sortTiles us = us \<Longrightarrow> sortTiles (map (with_widget ts) us) = map (with_widget ts) us"
proof -
  assume "sortTiles us = us"
  then have "sorted (map reading_key us)" by (metis sorted_sortTiles)
  moreover have "map reading_key (map (with_widget ts) us) = map reading_key us"
    by (simp add: reading_key_def)
  ultimately show ?thesis unfolding sortTiles_def by (intro sort_key_id_if_sorted) argo
qed

fun slices :: "int \<Rightarrow> int \<Rightarrow> nat \<Rightarrow> int list" where
  "slices base remainder 0 = []"
| "slices base remainder (Suc n) =
     (base + (if remainder > 0 then 1 else 0)) # slices base (max 0 (remainder - 1)) n"

lemma stack_up_lay_out:
  "stack_up ts base remainder y ids =
     map (with_widget ts) (lay_out Horizontal y (map seed_tile ids) (slices base remainder (length ids)))"
proof (induction ids arbitrary: remainder y)
  case (Cons sid ids)
  have "tile_at sid \<lparr>gx = 0, gy = y, gw = GRID_SIZE, gh = h\<rparr> =
      with_rect (seed_tile sid) (band_rect Horizontal y h)" for h
    by (simp add: tile_at_def with_rect_def seed_tile_def band_rect_def)
  with Cons show ?case by (simp add: Let_def)
qed simp

lemma slices_even:
  assumes "0 < n" "n \<le> 6"
  shows "evenSlices n = Some (slices (24 div int n) (24 mod int n) n)"
proof -
  have "n \<in> set [1, 2, 3, 4, 5, 6]" using assms by auto
  moreover have "list_all (\<lambda>n. evenSlices n = Some (slices (24 div int n) (24 mod int n) n)) [1, 2, 3, 4, 5, 6]"
    by code_simp
  ultimately show ?thesis by (simp only: list_all_iff)
qed

lemma lay_out_sorted:
  "\<forall>x \<in> set sizes. 0 \<le> x \<Longrightarrow> sorted (map reading_key (lay_out Horizontal e ts sizes))"
proof (induction Horizontal e ts sizes rule: lay_out.induct)
  case (1 e t ts sz sizes)
  have "reading_key u = (gy u, 0)" if "u \<in> set (lay_out Horizontal f us zs)" for u f us zs
    using that by (induction Horizontal f us zs rule: lay_out.induct) (auto simp: reading_key_def band_rect_def)
  moreover have "e + sz \<le> gy u" if "u \<in> set (lay_out Horizontal (e + sz) ts sizes)" for u
    using lay_out_lead [OF _ that] "1.prems" by simp
  ultimately show ?case
    using 1 by (fastforce simp: reading_key_def band_rect_def less_eq_prod_def)
qed auto

lemma stack_valid:
  assumes "0 < length ids" "length ids \<le> 6" "distinct ids" "[] \<notin> set ids"
    and "us = stack_up ts (24 div int (length ids)) (24 mod int (length ids)) 0 ids"
  shows "valid_tiles us" "readingOrder us = ids"
    "map content us = map (\<lambda>sid. content (with_widget ts (seed_tile sid))) ids"
proof -
  let ?z = "slices (24 div int (length ids)) (24 mod int (length ids)) (length ids)"
  let ?l = "lay_out Horizontal 0 (map seed_tile ids) ?z"
  note z = evenSlices_sizes [OF slices_even [OF assms(1,2)]]
  have us: "us = map (with_widget ts) ?l" unfolding assms(5) by (rule stack_up_lay_out)
  have v: "valid_tiles ?l"
    by (rule lay_out_valid) (use z assms in \<open>auto simp: comp_def\<close>)
  then show "valid_tiles us" unfolding us by (rule valid_with_widget)
  have c: "map content ?l = map content (map seed_tile ids)" using lay_out_content z(1) by simp
  have "map session_id ?l = map fst (map content ?l)" by (simp add: content_def)
  then have ids: "map session_id ?l = ids" unfolding c by (simp add: comp_def)
  have "\<forall>x \<in> set ?z. 0 \<le> x" using z(2) by force
  then have "sortTiles ?l = ?l"
    unfolding sortTiles_def by (intro sort_key_id_if_sorted lay_out_sorted)
  then have "sortTiles us = us" unfolding us by (rule sortTiles_map_widget)
  then show "readingOrder us = ids" using ids by (simp add: readingOrder_def us comp_def)
  have wc: "content (with_widget ts t) = content (with_widget ts (seed_tile sid))"
    if "content t = content (seed_tile sid)" for t sid
    using that by (simp add: content_def with_widget_def split: option.splits)
  show "map content us = map (\<lambda>sid. content (with_widget ts (seed_tile sid))) ids"
  proof (rule nth_equalityI)
    have len: "length ?l = length ids" using arg_cong [OF ids, of length] by simp
    then show "length (map content us) = length (map (\<lambda>sid. content (with_widget ts (seed_tile sid))) ids)"
      by (simp add: us)
    fix i assume "i < length (map content us)"
    then have i: "i < length ids" by (simp add: us len)
    then have "content (?l ! i) = content (seed_tile (ids ! i))"
      using arg_cong [OF c, of "\<lambda>xs. xs ! i"] len by simp
    from wc [OF this] i len show "map content us ! i = map (\<lambda>sid. content (with_widget ts (seed_tile sid))) ids ! i"
      by (simp add: us)
  qed
qed

text \<open>Tiles of a valid layout are told apart by where they begin.\<close>

lemma assign_rects_valid:
  assumes "valid_tiles ts" "length ids = length ts" "distinct ids" "[] \<notin> set ids"
    and "us = map (\<lambda>(sid, r). with_widget ts (tile_at sid r)) (zip ids (map rect_of (sortTiles ts)))"
  shows "valid_tiles us" "readingOrder us = ids"
    "map content us = map (\<lambda>sid. content (with_widget ts (seed_tile sid))) ids"
proof -
  let ?s = "sortTiles ts"
  have n: "length us = length ts" using assms(2,5) by simp
  have nth: "us ! i = with_widget ts (tile_at (ids ! i) (rect_of (?s ! i)))" if "i < length ts" for i
    using that assms(2) by (simp add: assms(5))
  have ids: "map session_id us = ids" using nth n assms(2) by (intro nth_equalityI) auto
  have v: "valid_tiles ?s" using assms(1) by simp
  have rect: "valid_rect (us ! i)" if "i < length ts" for i
    using that nth valid_tilesD(4) [OF assms(1) nth_sortTiles] by (simp add: valid_rect_def)
  have dis: "\<not> overlaps (us ! i) (us ! j)" if "i < length ts" "j < length ts" "i \<noteq> j" for i j
    using that nth valid_tiles_nth(1) [OF v] by (simp add: overlaps_def)
  show "valid_tiles us"
    unfolding valid_tiles_def disjoint_tiles_def
  proof (intro conjI ballI impI)
    fix a b assume "a \<in> set us" "b \<in> set us" "session_id a \<noteq> session_id b"
    then show "\<not> overlaps a b" using dis n by (metis in_set_conv_nth)
  next
    fix a assume a: "a \<in> set us"
    then show "session_id a \<noteq> []" using assms(4) ids by (metis image_eqI list.set_map)
    show "valid_rect a" using a rect n by (metis in_set_conv_nth)
  qed (use n valid_tilesD(1) [OF assms(1)] ids assms(3) in auto)
  have "map reading_key us = map reading_key ?s"
    using n nth by (intro nth_equalityI) (auto simp: reading_key_def)
  then have "sortTiles us = us"
    unfolding sortTiles_def by (intro sort_key_id_if_sorted) (metis sorted_sortTiles sortTiles_def)
  then show "readingOrder us = ids" by (simp add: readingOrder_def ids)
  have "content (us ! i) = content (with_widget ts (seed_tile (ids ! i)))" if "i < length ts" for i
    using nth [OF that] by (simp add: content_def with_widget_def split: option.splits)
  then show "map content us = map (\<lambda>sid. content (with_widget ts (seed_tile sid))) ids"
    using n assms(2) by (intro nth_equalityI) auto
qed

text \<open>
  Reordering the panes of a non-empty valid layout from a small screen always succeeds and
  gives a valid layout of the same panes, whose reading order is the requested one.
\<close>

theorem repackMobileTiles_order:
  assumes "valid_tiles ts" "ts \<noteq> []" "mset ids = mset (map session_id ts)"
  shows "\<exists>us. repackMobileTiles ts ids = Some us \<and> valid_tiles us \<and> readingOrder us = ids \<and>
    mset (map content us) = mset (map content ts)"
proof -
  have set: "set ids = session_id ` set ts" using mset_eq_setD [OF assms(3)] by simp
  have n: "length ids = length ts" "0 < length ids"
    using mset_eq_length [OF assms(3)] assms(2) by auto
  have d: "distinct ids" "[] \<notin> set ids"
    using mset_eq_imp_distinct_iff [OF assms(3)] valid_tilesD(2) [OF assms(1)] set valid_tilesD(3) [OF assms(1)]
    by (simp, metis imageE)
  have f: "filter (\<lambda>sid. list_ex (\<lambda>t. session_id t = sid) ts) ids = ids"
    using set by (auto simp: filter_id_conv list_ex_iff)
  have ne: "ids \<noteq> []" using n(2) by auto
  have content: "mset (map (\<lambda>sid. content (with_widget ts (seed_tile sid))) ids) = mset (map content ts)"
  proof -
    have "image_mset (\<lambda>sid. content (with_widget ts (seed_tile sid))) (mset ids) =
        image_mset (\<lambda>t. content (with_widget ts (seed_tile (session_id t)))) (mset ts)"
      unfolding assms(3) by (simp add: image_mset.compositionality comp_def)
    also have "\<dots> = image_mset content (mset ts)"
      using with_widget_content [OF assms(1)] by (intro image_mset_cong) (simp add: seed_tile_def)
    finally show ?thesis by simp
  qed
  show ?thesis
  proof (cases "length ids \<le> 6")
    case True
    let ?us = "stack_up ts (24 div int (length ids)) (24 mod int (length ids)) 0 ids"
    have "repackMobileTiles ts ids = Some ?us"
      using f ne True by (simp add: repackMobileTiles_def Let_def)
    with stack_valid [OF n(2) True d refl, of ts] content show ?thesis by metis
  next
    case False
    let ?us = "map (\<lambda>(sid, r). with_widget ts (tile_at sid r)) (zip ids (map rect_of (sortTiles ts)))"
    have "repackMobileTiles ts ids = Some ?us"
      using f ne False n(1) by (simp add: repackMobileTiles_def Let_def)
    with assign_rects_valid [OF assms(1) n(1) d refl] content show ?thesis by metis
  qed
qed

lemma find_index_first:
  "find_index (\<lambda>i. i = x) xs = Some k \<Longrightarrow> k < length xs \<and> xs ! k = x"
  by (auto dest: find_index_Some)

text \<open>
  Moving an identifier one step along an order is a permutation of it, and moving it forward and
  back again restores the order of distinct identifiers.
\<close>

theorem moveIdInOrder_swap:
  assumes "distinct ids" "k < length ids" "Suc k < length ids"
  shows "moveIdInOrder ids (ids ! k) 1 = ids[k := ids ! Suc k, Suc k := ids ! k] \<and>
    mset (moveIdInOrder ids (ids ! k) 1) = mset ids \<and>
    moveIdInOrder (moveIdInOrder ids (ids ! k) 1) (ids ! k) (- 1) = ids"
proof -
  have ix: "find_index (\<lambda>i. i = xs ! j) xs = Some j" if "distinct xs" "j < length xs" for xs :: "string list" and j
  proof (cases "find_index (\<lambda>i. i = xs ! j) xs")
    case None
    then have "xs ! j \<notin> set xs" by (auto simp: find_index_None)
    then show ?thesis using that by simp
  next
    case (Some m)
    then have "m = j" using find_index_first [OF Some] that nth_eq_iff_index_eq by blast
    with Some show ?thesis by simp
  qed
  let ?s = "ids[k := ids ! Suc k, Suc k := ids ! k]"
  have s: "moveIdInOrder ids (ids ! k) 1 = ?s"
    using ix [OF assms(1,2)] assms(3) by (simp add: moveIdInOrder_def Let_def nat_add_distrib)
  have m: "mset ?s = mset ids" using assms by (simp add: mset_swap)
  then have d: "distinct ?s" using assms(1) mset_eq_imp_distinct_iff by blast
  have k: "?s ! Suc k = ids ! k" using assms by simp
  have "moveIdInOrder ?s (ids ! k) (- 1) = ids"
    using ix [OF d, of "Suc k"] assms k
    by (simp add: moveIdInOrder_def Let_def list_update_swap)
  with s m show ?thesis by simp
qed

subsection \<open>Instances\<close>

theorem dockSplitRect_halves_witness:
  "\<exists>m k. dockSplitRect \<lparr>gx = 0, gy = 0, gw = 9, gh = 24\<rparr> ZRight = Some (m, k) \<and>
     valid_rect m \<and> gw m = 4 \<and> gw k = 5"
proof -
  let ?t = "\<lparr>gx = 0, gy = 0, gw = 9, gh = 24\<rparr>"
  have "valid_rect ?t" by (simp add: valid_rect_def)
  from dockSplitRect_halves [OF this refl, of ZRight] show ?thesis
    by (simp add: dockSplitRect_def bandAxis_def)
qed

theorem dockPane_docks_witness:
  "\<exists>r. dockPane three_panes ''a'' ''c'' ZBottom = Some r \<and> valid_tiles r \<and>
     mset (map content r) = mset (map content three_panes)"
proof -
  let ?a = "tile_at ''a'' \<lparr>gx = 0, gy = 0, gw = 8, gh = 24\<rparr>"
  have a: "?a \<in> set three_panes" "''c'' \<in> session_id ` set three_panes"
    by (simp_all add: three_panes_def)
  have "dockPane three_panes ''a'' ''c'' ZBottom \<noteq> None" by code_simp
  then obtain r where "dockPane three_panes ''a'' ''c'' ZBottom = Some r" by blast
  with dockPane_docks [OF valid_three_panes a, of ZBottom] show ?thesis by simp
qed

theorem movePane_exact_witness:
  "valid_tiles (movePane three_panes ''b'' 5 9) \<and>
   set (movePane pair_layout ''b'' 12 10) =
     insert (dragged_to (tile_at ''b'' \<lparr>gx = 12, gy = 0, gw = 12, gh = 12\<rparr>) 12 10)
       (set pair_layout - {tile_at ''b'' \<lparr>gx = 12, gy = 0, gw = 12, gh = 12\<rparr>})"
proof
  show "valid_tiles (movePane three_panes ''b'' 5 9)" using pane_edit.edit_valid [OF valid_three_panes] .
  let ?b = "tile_at ''b'' \<lparr>gx = 12, gy = 0, gw = 12, gh = 12\<rparr>"
  have b: "?b \<in> set pair_layout" by (simp add: pair_layout_def)
  have "\<forall>u \<in> set pair_layout - {?b}. \<not> overlaps (dragged_to ?b 12 10) u"
    by (auto simp: pair_layout_def dragged_to_def overlaps_def)
  with movePane_exact [OF valid_pair_layout b, of 12 10]
  show "set (movePane pair_layout ''b'' 12 10) = insert (dragged_to ?b 12 10) (set pair_layout - {?b})"
    by simp
qed

theorem added_pane_witness:
  "\<exists>us. dockInsert three_panes ''d'' ''a'' ZTop = Some us \<and> valid_tiles us \<and>
     mset (map content us) = add_mset (''d'', None) (mset (map content three_panes))"
proof -
  have "dockInsert three_panes ''d'' ''a'' ZTop \<noteq> None" by code_simp
  then obtain us where us: "dockInsert three_panes ''d'' ''a'' ZTop = Some us" by blast
  have "''d'' \<notin> session_id ` set three_panes" by (simp add: three_panes_def)
  from added_pane [OF valid_three_panes _ this disjI1 [OF refl] us] us show ?thesis by auto
qed

theorem repackMobileTiles_order_witness:
  "\<exists>us. repackMobileTiles three_panes [''c'', ''a'', ''b''] = Some us \<and> valid_tiles us \<and>
     readingOrder us = [''c'', ''a'', ''b'']"
proof -
  have "mset [''c'', ''a'', ''b''] = mset (map session_id three_panes)" "three_panes \<noteq> []"
    by (simp_all add: three_panes_def)
  with repackMobileTiles_order [OF valid_three_panes] show ?thesis by blast
qed

theorem moveIdInOrder_swap_witness:
  "moveIdInOrder [''a'', ''b'', ''c''] ''b'' 1 = [''a'', ''c'', ''b''] \<and>
   moveIdInOrder [''a'', ''c'', ''b''] ''b'' (- 1) = [''a'', ''b'', ''c'']"
  using moveIdInOrder_swap [of "[''a'', ''b'', ''c'']" 1] by (simp, metis)

end
