(* ===== verification/Split_Tree.thy ===== *)
theory Split_Tree
  imports Grid_Place
begin

section \<open>Migrating split trees to the grid\<close>

text \<open>
  \<open>fromSplitTree\<close> of \<open>web/src/lib/grid.ts\<close>: a tree of nested splits becomes tiles whose edges
  are rounded to cells, and falls back to repeated \<open>autoPlace\<close> when a rounded tile breaks an
  invariant. The positions are JavaScript floating-point numbers; \<open>fl\<close> is the rounding of one
  arithmetic operation to a representable number, a parameter of the model, so that the results
  below hold for IEEE double precision as well as for exact arithmetic (\<open>fl = exact\<close>).
\<close>

subsection \<open>Trees\<close>

datatype split_direction = Row | Column

datatype split_node =
    Pane string
  | Split split_direction rat split_node split_node

fun collectPaneIds :: "split_node \<Rightarrow> string list" where
  "collectPaneIds (Pane agent_id) = [agent_id]"
| "collectPaneIds (Split d ratio a b) = collectPaneIds a @ collectPaneIds b"

definition roundHalfUp :: "(rat \<Rightarrow> rat) \<Rightarrow> rat \<Rightarrow> int" where
  "roundHalfUp fl v = \<lfloor>fl (v + 1 / 2)\<rfloor>"

text \<open>Arithmetic without rounding.\<close>

definition exact :: "rat \<Rightarrow> rat" where
  "exact v = v"

text \<open>\<open>lo + ratio * (hi - lo)\<close>, each operation rounded.\<close>

definition split_at :: "(rat \<Rightarrow> rat) \<Rightarrow> rat \<Rightarrow> rat \<Rightarrow> rat \<Rightarrow> rat" where
  "split_at fl ratio lo hi = fl (lo + fl (clamp ratio 0 1 * fl (hi - lo)))"

fun assignRects ::
  "(rat \<Rightarrow> rat) \<Rightarrow> split_node \<Rightarrow> rat \<Rightarrow> rat \<Rightarrow> rat \<Rightarrow> rat \<Rightarrow> tile list" where
  "assignRects fl (Pane agent_id) x0 y0 x1 y1 =
     (let x = roundHalfUp fl x0; y = roundHalfUp fl y0 in
      [tile_at agent_id
         \<lparr>gx = x, gy = y, gw = roundHalfUp fl x1 - x, gh = roundHalfUp fl y1 - y\<rparr>])"
| "assignRects fl (Split Row ratio a b) x0 y0 x1 y1 =
     (let s = split_at fl ratio x0 x1 in
      assignRects fl a x0 y0 s y1 @ assignRects fl b s y0 x1 y1)"
| "assignRects fl (Split Column ratio a b) x0 y0 x1 y1 =
     (let s = split_at fl ratio y0 y1 in
      assignRects fl a x0 y0 x1 s @ assignRects fl b x0 s x1 y1)"

fun fallback_loop :: "tile list \<Rightarrow> string list \<Rightarrow> tile list" where
  "fallback_loop tiles [] = tiles"
| "fallback_loop tiles (sid # ids) =
     (case autoPlace tiles of
        (None, _) \<Rightarrow> tiles
      | (Some spot, placed) \<Rightarrow> fallback_loop (placed @ [tile_at sid spot]) ids)"

definition fallbackPlace :: "string list \<Rightarrow> tile list" where
  "fallbackPlace ids = sortTiles (fallback_loop [] ids)"

text \<open>The loop that re-checks the rounded tiles, in the order of the code.\<close>

fun rounded_ok :: "tile list \<Rightarrow> bool" where
  "rounded_ok [] = True"
| "rounded_ok (t # ts) =
     (if gw t < MIN_TILE_SIZE \<or> gh t < MIN_TILE_SIZE then False
      else if gx t < 0 \<or> gy t < 0 \<or> gx t + gw t > GRID_SIZE \<or> gy t + gh t > GRID_SIZE then False
      else if \<exists>u \<in> set ts. overlaps t u then False
      else rounded_ok ts)"

definition fromSplitTree :: "(rat \<Rightarrow> rat) \<Rightarrow> split_node option \<Rightarrow> tile list" where
  "fromSplitTree fl tree =
     (case tree of
        None \<Rightarrow> []
      | Some node \<Rightarrow>
          let ids = collectPaneIds node in
          if length ids > MAX_TILES then fallbackPlace (take MAX_TILES ids)
          else let rounded = assignRects fl node 0 0 (of_int GRID_SIZE) (of_int GRID_SIZE) in
            if rounded_ok rounded then sortTiles rounded else fallbackPlace ids)"

subsection \<open>A full canvas has no free rectangle\<close>

definition total_area :: "tile list \<Rightarrow> int" where
  "total_area ts = sum_list (map area ts)"

lemma valid_rect_cells: "valid_rect r \<Longrightarrow> cells r \<subseteq> canvas \<and> (gx r, gy r) \<in> cells r"
  by (auto simp: valid_rect_def cells_def canvas_def)

lemma valid_rect_pos: "valid_rect r \<Longrightarrow> 0 < gw r \<and> 0 < gh r"
  by (simp add: valid_rect_def)

lemma card_tiles:
  assumes "valid_tiles ts"
  shows "int (card (\<Union>t \<in> set ts. cells t)) = total_area ts"
proof -
  have d: "distinct ts" using valid_tilesD(2) [OF assms] by (simp add: distinct_map)
  have dis: "cells t \<inter> cells u = {}" if "t \<in> set ts" "u \<in> set ts" "t \<noteq> u" for t u
  proof -
    have "session_id t \<noteq> session_id u"
      using valid_tilesD(2) [OF assms] that by (auto simp: distinct_map inj_on_def)
    then have "\<not> overlaps t u" using valid_tilesD(5) [OF assms] that by blast
    then show ?thesis
      using overlaps_cells [of t u] valid_rect_pos valid_tilesD(4) [OF assms] that by blast
  qed
  have "card (\<Union>t \<in> set ts. cells t) = (\<Sum>t \<in> set ts. card (cells t))"
    using dis by (intro card_UN_disjoint) auto
  also have "int \<dots> = (\<Sum>t \<in> set ts. area t)"
  proof -
    have "int (card (cells t)) = area t" if "t \<in> set ts" for t
      using valid_rect_pos [OF valid_tilesD(4) [OF assms that]] by (simp add: card_cells)
    then show ?thesis by simp
  qed
  also have "\<dots> = total_area ts"
    using d by (simp add: total_area_def sum_list_distinct_conv_sum_set)
  finally show ?thesis .
qed

lemma full_canvas:
  assumes "valid_tiles ts" "total_area ts = 576" "valid_rect (r :: rect)"
  shows "\<exists>t \<in> set ts. overlaps t r"
proof -
  have sub: "(\<Union>t \<in> set ts. cells t) \<subseteq> canvas"
    using valid_rect_cells valid_tilesD(4) [OF assms(1)] by blast
  have "card (\<Union>t \<in> set ts. cells t) = card canvas"
    using card_tiles [OF assms(1)] assms(2) by (simp add: card_canvas)
  with sub have "(\<Union>t \<in> set ts. cells t) = canvas"
    by (intro card_subset_eq) simp_all
  moreover have "(gx r, gy r) \<in> canvas" using valid_rect_cells [OF assms(3)] by blast
  ultimately obtain t where t: "t \<in> set ts" "(gx r, gy r) \<in> cells t" by blast
  then have "cells t \<inter> cells r \<noteq> {}" using valid_rect_cells [OF assms(3)] by blast
  then have "overlaps t r"
    using overlaps_cells [of t r] valid_rect_pos [OF assms(3)]
      valid_rect_pos [OF valid_tilesD(4) [OF assms(1) t(1)]] by simp
  with t(1) show ?thesis ..
qed

subsection \<open>Repeated placement from an empty canvas\<close>

text \<open>
  From the second tile on, the canvas is full and every side is 6, 12 or 24, so that with fewer
  than 16 tiles one of them is still long enough to be halved.
\<close>

definition halving_state :: "tile list \<Rightarrow> bool" where
  "halving_state ts \<longleftrightarrow>
     valid_tiles ts \<and> total_area ts = 576 \<and>
     (\<forall>t \<in> set ts. gw t \<in> {6, 12, 24} \<and> gh t \<in> {6, 12, 24})"

lemma halve_sides:
  assumes "gw t \<in> {6, 12, 24}" "gh t \<in> {6, 12, 24}" "8 \<le> max (gw t) (gh t)"
    and "halve t = (kept, spot)"
  shows "gw kept \<in> {6, 12, 24} \<and> gh kept \<in> {6, 12, 24} \<and>
    gw spot \<in> {6, 12, 24} \<and> gh spot \<in> {6, 12, 24}"
  using assms by (auto simp: halve_def ceil_half_def Let_def split: if_splits)

lemma small_sides_area:
  assumes "\<forall>t \<in> set ts. gw t = 6 \<and> gh t = 6"
  shows "total_area ts = 36 * int (length ts)"
  using assms by (induction ts) (simp_all add: total_area_def area_def)

lemma total_area_update:
  assumes "k < length ts"
  shows "total_area (ts[k := t]) = total_area ts - area (ts ! k) + area t"
  using assms
proof (induction ts arbitrary: k)
  case Nil
  then show ?case by simp
next
  case (Cons u ts)
  then show ?case by (cases k) (auto simp: total_area_def)
qed

lemma total_area_sort [simp]: "total_area (sortTiles ts) = total_area ts"
  unfolding total_area_def by (rule sum_list_mset_eq) simp

lemma halving_step:
  assumes "halving_state ts" "length ts < 16" "sid \<noteq> []" "sid \<notin> session_id ` set ts"
  shows "\<exists>spot us. autoPlace ts = (Some spot, us) \<and> halving_state (us @ [tile_at sid spot])"
proof -
  have v: "valid_tiles ts" and full: "total_area ts = 576"
    and sides: "\<forall>t \<in> set ts. gw t \<in> {6, 12, 24} \<and> gh t \<in> {6, 12, 24}"
    using assms(1) by (auto simp: halving_state_def)
  have nofree: "\<forall>(x, y) \<in> set scan_spots. \<not> fitsAt ts (square_at x y) (-1)"
    unfolding no_free_square using full_canvas [OF v full] by blast
  show ?thesis
    using v
  proof (cases rule: autoPlace_cases)
    case (split k kept spot)
    let ?s = "sortTiles ts"
    have hs: "gw (?s ! k) \<in> {6, 12, 24}" "gh (?s ! k) \<in> {6, 12, 24}"
      using sides split(3) nth_sortTiles by blast+
    note half = halve_sides [OF hs split(4,5)]
    have vk: "valid_rect (?s ! k)" using v split(3) by (simp add: valid_tilesD(4))
    have "valid_tiles (sortTiles (?s[k := kept]) @ [tile_at sid spot])"
      using auto.place_snoc(1) [OF v split(6), of "tile_at sid spot"] assms(3,4)
      by (simp add: rect_of_def)
    moreover have "total_area (sortTiles (?s[k := kept]) @ [tile_at sid spot]) = 576"
      using full halve_spec(5) [OF vk split(4,5)] split(3)
      by (simp add: total_area_update total_area_def [of "_ @ _"] flip: total_area_def)
        (simp add: area_def)
    moreover have "\<forall>t \<in> set (?s[k := kept]). gw t \<in> {6, 12, 24} \<and> gh t \<in> {6, 12, 24}"
      using sides half set_update_subset_insert [of ?s k kept] by auto
    ultimately have "halving_state (sortTiles (?s[k := kept]) @ [tile_at sid spot])"
      using half by (auto simp: halving_state_def)
    with split show ?thesis by blast
  next
    case stuck
    then have "\<forall>t \<in> set ts. gw t = 6 \<and> gh t = 6" using sides by force
    then have "total_area ts = 36 * int (length ts)" by (rule small_sides_area)
    with full assms(2) show ?thesis by simp
  next
    case (free x y w h)
    with nofree show ?thesis by blast
  qed (use assms(2) in simp)
qed

lemma first_placement: "autoPlace [] = (Some \<lparr>gx = 0, gy = 0, gw = 24, gh = 24\<rparr>, [])"
  by code_simp

lemma fallback_loop_halving:
  assumes "halving_state ts" "length ts + length ids \<le> 16"
    and "distinct ids" "[] \<notin> set ids" "set ids \<inter> session_id ` set ts = {}"
  shows "halving_state (fallback_loop ts ids) \<and>
    mset (map content (fallback_loop ts ids)) =
      mset (map content ts) + mset (map (\<lambda>sid. (sid, None)) ids)"
  using assms
proof (induction ids arbitrary: ts)
  case Nil
  then show ?case by simp
next
  case (Cons sid ids)
  have fresh: "sid \<noteq> []" "sid \<notin> session_id ` set ts" using Cons.prems by auto
  obtain spot us where p: "autoPlace ts = (Some spot, us)" "halving_state (us @ [tile_at sid spot])"
    using halving_step [OF Cons.prems(1) _ fresh] Cons.prems(2) by auto
  have v: "valid_tiles ts" using Cons.prems(1) by (simp add: halving_state_def)
  have ids: "session_id ` set us = session_id ` set ts" "length us = length ts"
    using auto.place_ids [OF v p(1)] by simp_all
  have "halving_state (fallback_loop (us @ [tile_at sid spot]) ids) \<and>
      mset (map content (fallback_loop (us @ [tile_at sid spot]) ids)) =
      mset (map content (us @ [tile_at sid spot])) + mset (map (\<lambda>sid. (sid, None)) ids)"
    using Cons.prems ids by (intro Cons.IH [OF p(2)]) auto
  moreover have "mset (map content us) = mset (map content ts)"
    by (rule auto.place_content [OF v p(1)])
  ultimately show ?case using p(1) by simp
qed

lemma fallbackPlace_all:
  assumes "length ids \<le> 16" "distinct ids" "[] \<notin> set ids"
  shows "valid_tiles (fallbackPlace ids) \<and>
    mset (map content (fallbackPlace ids)) = mset (map (\<lambda>sid. (sid, None)) ids)"
proof (cases ids)
  case Nil
  then show ?thesis by (simp add: fallbackPlace_def sortTiles_def)
next
  case (Cons sid rest)
  let ?t = "tile_at sid \<lparr>gx = 0, gy = 0, gw = 24, gh = 24\<rparr>"
  have one: "halving_state [?t]"
    using assms(3) Cons
    by (auto simp: halving_state_def valid_tiles_Cons valid_rect_def total_area_def area_def)
  have "fallback_loop [] ids = fallback_loop [?t] rest"
    using Cons by (simp add: first_placement)
  moreover have "halving_state (fallback_loop [?t] rest) \<and>
      mset (map content (fallback_loop [?t] rest)) =
      mset (map content [?t]) + mset (map (\<lambda>sid. (sid, None)) rest)"
    using Cons assms by (intro fallback_loop_halving [OF one]) auto
  ultimately show ?thesis
    using Cons by (simp add: fallbackPlace_def halving_state_def)
qed

subsection \<open>The migration\<close>

lemma assignRects_content:
  "map content (assignRects fl node x0 y0 x1 y1) = map (\<lambda>sid. (sid, None)) (collectPaneIds node)"
proof (induction node arbitrary: x0 y0 x1 y1)
  case (Pane sid)
  then show ?case by (simp add: Let_def)
next
  case (Split d ratio a b)
  then show ?case by (cases d) (simp_all add: Let_def)
qed

lemma map_fst_content: "map session_id ts = map fst (map content ts)"
  by (simp add: content_def)

lemma assignRects_ids:
  "map session_id (assignRects fl node x0 y0 x1 y1) = collectPaneIds node"
  unfolding map_fst_content assignRects_content by (simp add: comp_def)

lemma rounded_ok_valid:
  assumes "rounded_ok ts" "length ts \<le> 16" "distinct (map session_id ts)" "[] \<notin> session_id ` set ts"
  shows "valid_tiles ts"
  using assms
proof (induction ts)
  case Nil
  then show ?case by simp
next
  case (Cons t ts)
  then show ?case
    using overlaps_sym [of t]
    by (auto simp: valid_tiles_Cons valid_rect_def split: if_splits)
qed

text \<open>
  migrating a split tree whose panes have distinct, non-empty ids gives a valid layout that
  holds one tile for each of the first 16 panes in depth-first order and nothing else, however the
  positions are rounded; in particular the fallback never runs out of room.
\<close>

theorem fromSplitTree_valid:
  assumes "distinct (collectPaneIds node)" "[] \<notin> set (collectPaneIds node)"
  shows "valid_tiles (fromSplitTree fl (Some node)) \<and>
    mset (map content (fromSplitTree fl (Some node))) =
      mset (map (\<lambda>sid. (sid, None)) (take MAX_TILES (collectPaneIds node)))"
proof -
  let ?ids = "collectPaneIds node" and ?r = "assignRects fl node 0 0 24 24"
  have ids: "map session_id ?r = ?ids" by (rule assignRects_ids)
  then have len: "length ?r = length ?ids" by (metis length_map)
  have set_ids: "session_id ` set ?r = set ?ids" using ids by (metis set_map)
  show ?thesis
  proof (cases "length ?ids > 16")
    case True
    have "valid_tiles (fallbackPlace (take 16 ?ids)) \<and>
        mset (map content (fallbackPlace (take 16 ?ids))) =
        mset (map (\<lambda>sid. (sid, None)) (take 16 ?ids))"
      using assms by (intro fallbackPlace_all) (auto dest: in_set_takeD)
    with True show ?thesis by (simp add: fromSplitTree_def)
  next
    case False
    have "valid_tiles ?r" if "rounded_ok ?r"
      using that False assms ids set_ids len by (intro rounded_ok_valid) auto
    moreover have "mset (map content ?r) = mset (map (\<lambda>sid. (sid, None)) ?ids)"
      by (simp only: assignRects_content)
    moreover have "valid_tiles (fallbackPlace ?ids) \<and>
        mset (map content (fallbackPlace ?ids)) = mset (map (\<lambda>sid. (sid, None)) ?ids)"
      using False assms by (intro fallbackPlace_all) auto
    ultimately show ?thesis using False by (simp add: fromSplitTree_def Let_def)
  qed
qed

theorem fromSplitTree_valid_witness:
  "valid_tiles (fromSplitTree exact (Some (Split Row (1 / 3) (Pane ''a'') (Pane ''b'')))) \<and>
   fromSplitTree exact (Some (Split Row (1 / 3) (Pane ''a'') (Pane ''b''))) =
     [tile_at ''a'' \<lparr>gx = 0, gy = 0, gw = 8, gh = 24\<rparr>,
      tile_at ''b'' \<lparr>gx = 8, gy = 0, gw = 16, gh = 24\<rparr>]"
  using fromSplitTree_valid [of "Split Row (1 / 3) (Pane ''a'') (Pane ''b'')" exact]
  by simp code_simp

text \<open>With exact positions, a split point lies between the two edges.\<close>

lemma split_at_between:
  assumes "lo \<le> hi"
  shows "lo \<le> split_at exact ratio lo hi" "split_at exact ratio lo hi \<le> hi"
proof -
  let ?c = "clamp ratio (0 :: rat) 1"
  have c: "0 \<le> ?c" "?c \<le> 1" using clamp_bounds [of 0 "1 :: rat" ratio] by simp_all
  then have "0 \<le> ?c * (hi - lo)" using assms by simp
  moreover have "?c * (hi - lo) \<le> 1 * (hi - lo)" using c assms by (intro mult_right_mono) simp_all
  ultimately show "lo \<le> split_at exact ratio lo hi" "split_at exact ratio lo hi \<le> hi"
    by (simp_all add: split_at_def exact_def)
qed

lemma roundHalfUp_mono: "a \<le> b \<Longrightarrow> roundHalfUp exact a \<le> roundHalfUp exact b"
  by (simp add: roundHalfUp_def exact_def floor_mono)

definition cell_box :: "rat \<Rightarrow> rat \<Rightarrow> rat \<Rightarrow> rat \<Rightarrow> (int \<times> int) set" where
  "cell_box x0 y0 x1 y1 =
     {roundHalfUp exact x0 ..< roundHalfUp exact x1} \<times> {roundHalfUp exact y0 ..< roundHalfUp exact y1}"

lemma cell_box_split:
  assumes "x0 \<le> s" "s \<le> x1"
  shows "cell_box x0 y0 s y1 \<union> cell_box s y0 x1 y1 = cell_box x0 y0 x1 y1"
    "cell_box x0 y0 s y1 \<inter> cell_box s y0 x1 y1 = {}"
    "cell_box y0 x0 y1 s \<union> cell_box y0 s y1 x1 = cell_box y0 x0 y1 x1"
    "cell_box y0 x0 y1 s \<inter> cell_box y0 s y1 x1 = {}"
  using roundHalfUp_mono [OF assms(1)] roundHalfUp_mono [OF assms(2)]
  by (auto simp: cell_box_def)

lemma partition_append:
  assumes "(\<Union>t \<in> set xs. cells t) = A" "(\<Union>t \<in> set ys. cells t) = B" "A \<inter> B = {}"
    and "sorted_wrt (\<lambda>t u. cells t \<inter> cells u = {}) xs"
    and "sorted_wrt (\<lambda>t u. cells t \<inter> cells u = {}) ys"
  shows "(\<Union>t \<in> set (xs @ ys). cells t) = A \<union> B \<and>
    sorted_wrt (\<lambda>t u. cells t \<inter> cells u = {}) (xs @ ys)"
  using assms by (fastforce simp: sorted_wrt_append)

text \<open>
  with exactly represented positions, rounding the edges of the panes creates neither
  overlaps nor gaps: the rounded tiles are pairwise disjoint and cover exactly the cells between the
  rounded outer edges.
\<close>

theorem assignRects_partition:
  assumes "x0 \<le> x1" "y0 \<le> y1"
  shows "(\<Union>t \<in> set (assignRects exact node x0 y0 x1 y1). cells t) = cell_box x0 y0 x1 y1 \<and>
    sorted_wrt (\<lambda>t u. cells t \<inter> cells u = {}) (assignRects exact node x0 y0 x1 y1)"
  using assms
proof (induction node arbitrary: x0 y0 x1 y1)
  case (Pane sid)
  then show ?case by (simp add: Let_def cells_def cell_box_def)
next
  case (Split d ratio a b)
  show ?case
  proof (cases d)
    case Row
    let ?s = "split_at exact ratio x0 x1"
    note s = split_at_between [OF Split.prems(1), of ratio]
    note box = cell_box_split(1,2) [OF s, of y0 y1]
    show ?thesis
      using partition_append [OF _ _ box(2), of "assignRects exact a x0 y0 ?s y1"
          "assignRects exact b ?s y0 x1 y1"] Split.IH(1) [of x0 ?s y0 y1] Split.IH(2) [of ?s x1 y0 y1]
        s Split.prems box(1) Row by (simp add: Let_def)
  next
    case Column
    let ?s = "split_at exact ratio y0 y1"
    note s = split_at_between [OF Split.prems(2), of ratio]
    note box = cell_box_split(3,4) [OF s, of x0 x1]
    show ?thesis
      using partition_append [OF _ _ box(2), of "assignRects exact a x0 y0 x1 ?s"
          "assignRects exact b x0 ?s x1 y1"] Split.IH(1) [of x0 x1 y0 ?s] Split.IH(2) [of x0 x1 ?s y1]
        s Split.prems box(1) Column by (simp add: Let_def)
  qed
qed

theorem assignRects_partition_witness:
  "(\<Union>t \<in> set (assignRects exact (Split Column (1 / 3) (Pane ''a'') (Pane ''b'')) 0 0 24 24). cells t) =
     cell_box 0 0 24 24"
  using assignRects_partition [of 0 24 0 24 "Split Column (1 / 3) (Pane ''a'') (Pane ''b'')"]
  by simp

end
