(* ===== verification/Tab_Merge.thy ===== *)
theory Tab_Merge
  imports Tabs Docking Split_Tree
begin

section \<open>Dropping a whole tab onto another tab's canvas\<close>

text \<open>
  \<open>web/src/components/workspace/tab-merge.ts\<close>: a dragged tab arrives as a block. Its windows are
  scaled into the region aimed at, edge by edge, so windows that met still meet. The theorems show
  that scaling keeps a layout valid and its seams closed, that \<open>blockMinSize\<close> is enough room, and
  that every plan the drop produces is a valid envelope with the same windows.

  The quotient in \<open>mapEdge\<close> is between whole numbers below 600, so the rounding of one
  floating-point division never carries it across a half and exact rational arithmetic gives the
  number the code computes. A tile of a valid layout has a positive size, so the divisor is positive.
\<close>

subsection \<open>Scaling a block\<close>

datatype merge_drop =
    Region rect
  | DockOn string dock_zone
  | AutoDrop

definition WHOLE_CANVAS :: rect where
  "WHOLE_CANVAS = \<lparr>gx = 0, gy = 0, gw = GRID_SIZE, gh = GRID_SIZE\<rparr>"

definition blockBounds :: "tile list \<Rightarrow> rect option" where
  "blockBounds tiles =
     (if length tiles = 0 then None
      else
        let x0 = foldl (\<lambda>a t. min a (gx t)) GRID_SIZE tiles;
            y0 = foldl (\<lambda>a t. min a (gy t)) GRID_SIZE tiles;
            x1 = foldl (\<lambda>a t. max a (gx t + gw t)) 0 tiles;
            y1 = foldl (\<lambda>a t. max a (gy t + gh t)) 0 tiles
        in Some \<lparr>gx = x0, gy = y0, gw = x1 - x0, gh = y1 - y0\<rparr>)"

definition mapEdge :: "int \<Rightarrow> int \<Rightarrow> int \<Rightarrow> int \<Rightarrow> int" where
  "mapEdge v origin spn sz = js_round (of_int ((v - origin) * sz) / of_int spn)"

definition axisFits :: "tile list \<Rightarrow> int \<Rightarrow> int \<Rightarrow> int \<Rightarrow> divider_axis \<Rightarrow> bool" where
  "axisFits tiles origin spn sz ax =
     list_all (\<lambda>t.
       let start = lead ax t; finish = start + extent ax t in
       mapEdge finish origin spn sz - mapEdge start origin spn sz \<ge> MIN_TILE_SIZE) tiles"

definition min_step :: "tile list \<Rightarrow> int \<Rightarrow> int \<Rightarrow> divider_axis \<Rightarrow> int \<Rightarrow> int \<Rightarrow> int" where
  "min_step tiles origin spn ax w sz = (if \<not> axisFits tiles origin spn sz ax then sz + 1 else w)"

text \<open>The pair is \<open>w\<close> and \<open>h\<close>; the two loops of the source run over the same sizes.\<close>

definition blockMinSize :: "tile list \<Rightarrow> int \<times> int" where
  "blockMinSize tiles =
     (case blockBounds tiles of
        None \<Rightarrow> (MIN_TILE_SIZE, MIN_TILE_SIZE)
      | Some b \<Rightarrow>
          let w = foldl (min_step tiles (gx b) (gw b) Vertical) MIN_TILE_SIZE [MIN_TILE_SIZE..GRID_SIZE];
              h = foldl (min_step tiles (gy b) (gh b) Horizontal) MIN_TILE_SIZE [MIN_TILE_SIZE..GRID_SIZE]
          in (min w GRID_SIZE, min h GRID_SIZE))"

definition scale_tile :: "rect \<Rightarrow> rect \<Rightarrow> tile \<Rightarrow> tile" where
  "scale_tile b r t =
     (let x = gx r + mapEdge (gx t) (gx b) (gw b) (gw r);
          y = gy r + mapEdge (gy t) (gy b) (gh b) (gh r)
      in t\<lparr>gx := x, gy := y,
           gw := gx r + mapEdge (gx t + gw t) (gx b) (gw b) (gw r) - x,
           gh := gy r + mapEdge (gy t + gh t) (gy b) (gh b) (gh r) - y\<rparr>)"

definition scaleBlock :: "tile list \<Rightarrow> rect \<Rightarrow> tile list option" where
  "scaleBlock tiles r =
     (case blockBounds tiles of
        None \<Rightarrow> Some []
      | Some b \<Rightarrow>
          let scaled = map (scale_tile b r) tiles in
          if list_all (\<lambda>t. gw t \<ge> MIN_TILE_SIZE \<and> gh t \<ge> MIN_TILE_SIZE) scaled
          then Some scaled else None)"

subsection \<open>The plan of a drop\<close>

datatype merge_refusal = RCapacity | RFit

record merge_plan =
  mp_layout :: layout_v3
  mp_incoming :: "tile list"
  mp_resting :: "tile list"

text \<open>Where a region or a dock puts the block, and the target's own windows around it.\<close>

definition drop_rect ::
  "tile list \<Rightarrow> merge_drop \<Rightarrow> (merge_refusal option) + (rect \<times> tile list)" where
  "drop_rect resting drp =
     (case drp of
        DockOn paneId zone \<Rightarrow>
          (case find (\<lambda>t. session_id t = paneId) resting of
             None \<Rightarrow> Inl None
           | Some pane \<Rightarrow>
               (case dockSplitRect pane zone of
                  None \<Rightarrow> Inl (Some RFit)
                | Some (moved, kept) \<Rightarrow>
                    Inr (moved, map (\<lambda>t. if session_id t = session_id pane then with_rect t kept else t)
                      resting)))
      | Region r \<Rightarrow> Inr (r, resting)
      | AutoDrop \<Rightarrow> Inl None)"

definition planMerge ::
  "layout_v3 \<Rightarrow> string \<Rightarrow> string \<Rightarrow> merge_drop \<Rightarrow> merge_plan option \<times> merge_refusal option" where
  "planMerge layout sourceTabId targetTabId drp =
     (case (tabById layout sourceTabId, tabById layout targetTabId) of
        (Some source, Some target) \<Rightarrow>
          if tab_id source = tab_id target then (None, None)
          else let arriving = tiles_of source in
          if length (tiles_of target) + length arriving > MAX_TILES then (None, Some RCapacity)
          else if drp = AutoDrop then
            (case mergeTabs layout sourceTabId targetTabId of
               None \<Rightarrow> (None, Some RCapacity)
             | Some nxt \<Rightarrow>
                 let placed = (case tabById nxt targetTabId of None \<Rightarrow> [] | Some t \<Rightarrow> tiles_of t);
                     ids = session_id ` set arriving
                 in (Some \<lparr>mp_layout = nxt, mp_incoming = filter (\<lambda>t. session_id t \<in> ids) placed,
                          mp_resting = placed\<rparr>, None))
          else (case drop_rect (tiles_of target) drp of
             Inl refusal \<Rightarrow> (None, refusal)
           | Inr (r, resting) \<Rightarrow>
               (case scaleBlock arriving r of
                  None \<Rightarrow> (None, Some RFit)
                | Some incoming \<Rightarrow>
                    let ts = sortTiles (resting @ incoming) in
                    if \<not> validates ts then (None, Some RFit)
                    else (case foldTabInto layout sourceTabId targetTabId ts of
                       None \<Rightarrow> (None, None)
                     | Some nxt \<Rightarrow>
                         (Some \<lparr>mp_layout = nxt, mp_incoming = incoming, mp_resting = ts\<rparr>, None))))
      | _ \<Rightarrow> (None, None))"

subsection \<open>Edges\<close>

lemma mapEdge_mono:
  assumes "0 < spn" "0 \<le> sz" "u \<le> v"
  shows "mapEdge u origin spn sz \<le> mapEdge v origin spn sz"
  unfolding mapEdge_def using assms
  by (intro js_round_mono divide_right_mono) (simp_all add: mult_right_mono)

lemma mapEdge_ends:
  assumes "0 < spn"
  shows "mapEdge origin origin spn sz = 0" "mapEdge (origin + spn) origin spn sz = sz"
  using assms js_round_of_int [of 0] js_round_of_int [of sz] by (simp_all add: mapEdge_def)

text \<open>A region at least as large as the block never shrinks a window.\<close>

lemma mapEdge_expands:
  assumes "0 < spn" "spn \<le> sz" "0 \<le> n"
  shows "mapEdge v origin spn sz + n \<le> mapEdge (v + n) origin spn sz"
  unfolding mapEdge_def
proof (rule js_round_add)
  have "of_int (n * spn) \<le> (of_int (n * sz) :: rat)"
    using assms by (simp only: of_int_le_iff mult_left_mono)
  then have "of_int n \<le> of_int (n * sz) / (of_int spn :: rat)"
    using assms(1) by (simp add: pos_le_divide_eq)
  then show "of_int ((v - origin) * sz) / of_int spn + of_int n \<le>
      (of_int ((v + n - origin) * sz) / of_int spn :: rat)"
    by (simp add: add_divide_distrib [symmetric] algebra_simps) (simp add: add_divide_distrib diff_divide_distrib)
qed

lemma foldl_min_le:
  fixes f :: "'a \<Rightarrow> int"
  shows "foldl (\<lambda>a t. min a (f t)) m ts \<le> m \<and> (\<forall>t \<in> set ts. foldl (\<lambda>a t. min a (f t)) m ts \<le> f t) \<and>
    (foldl (\<lambda>a t. min a (f t)) m ts = m \<or> (\<exists>t \<in> set ts. foldl (\<lambda>a t. min a (f t)) m ts = f t))"
proof (induction ts arbitrary: m)
  case (Cons t ts)
  let ?m = "foldl (\<lambda>a t. min a (f t)) (min m (f t)) ts"
  have "?m \<le> min m (f t)" "\<forall>t \<in> set ts. ?m \<le> f t" "?m = min m (f t) \<or> (\<exists>t \<in> set ts. ?m = f t)"
    using Cons.IH [of "min m (f t)"] by blast+
  then show ?case by (auto simp: min_def split: if_splits)
qed simp

lemma foldl_max_min:
  fixes f :: "'a \<Rightarrow> int"
  shows "foldl (\<lambda>a t. max a (f t)) m ts = - foldl (\<lambda>a t. min a (- f t)) (- m) ts"
  by (induction ts arbitrary: m) (simp_all add: max_def min_def)

lemma foldl_max_le:
  fixes f :: "'a \<Rightarrow> int"
  shows "m \<le> foldl (\<lambda>a t. max a (f t)) m ts \<and> (\<forall>t \<in> set ts. f t \<le> foldl (\<lambda>a t. max a (f t)) m ts) \<and>
    (foldl (\<lambda>a t. max a (f t)) m ts = m \<or> (\<exists>t \<in> set ts. foldl (\<lambda>a t. max a (f t)) m ts = f t))"
  using foldl_min_le [where m = "- m" and ts = ts and f = "\<lambda>t. - f t"]
  unfolding foldl_max_min [where m = m and ts = ts and f = f] by force

lemma blockBounds_spec:
  assumes "valid_tiles ts" "blockBounds ts = Some b" "t \<in> set ts"
  shows "lead ax b \<le> lead ax t" "lead ax t + extent ax t \<le> lead ax b + extent ax b"
    "0 \<le> lead ax b" "lead ax b + extent ax b \<le> 24" "4 \<le> extent ax b"
proof -
  have v: "\<forall>t \<in> set ts. valid_rect t" using valid_tilesD(4) [OF assms(1)] by blast
  have b: "lead ax b = foldl (\<lambda>a t. min a (lead ax t)) 24 ts"
      "lead ax b + extent ax b = foldl (\<lambda>a t. max a (lead ax t + extent ax t)) 0 ts"
    using assms(2) by (cases ax; auto simp: blockBounds_def Let_def split: if_splits)+
  note lo = foldl_min_le [where f = "lead ax" and m = 24 and ts = ts, folded b(1)]
  note hi = foldl_max_le [where f = "\<lambda>t. lead ax t + extent ax t" and m = 0 and ts = ts, folded b(2)]
  show le: "lead ax b \<le> lead ax t" "lead ax t + extent ax t \<le> lead ax b + extent ax b"
    using lo hi assms(3) by blast+
  show "0 \<le> lead ax b"
    using lo v unfolding valid_rect_axis [of _ ax] by fastforce
  show "lead ax b + extent ax b \<le> 24"
    using hi v unfolding valid_rect_axis [of _ ax] by fastforce
  show "4 \<le> extent ax b" using le v assms(3) unfolding valid_rect_axis [of _ ax] by fastforce
qed

subsection \<open>Scaled blocks\<close>

definition in_canvas :: "rect \<Rightarrow> bool" where
  "in_canvas r \<longleftrightarrow> 0 \<le> gx r \<and> 0 \<le> gy r \<and> 0 \<le> gw r \<and> 0 \<le> gh r \<and> gx r + gw r \<le> 24 \<and> gy r + gh r \<le> 24"

lemma in_canvas_axis: "in_canvas r \<Longrightarrow> 0 \<le> lead ax r \<and> 0 \<le> extent ax r \<and> lead ax r + extent ax r \<le> 24"
  by (cases ax) (auto simp: in_canvas_def)

lemma scale_axis:
  "lead ax (scale_tile b r t) = lead ax r + mapEdge (lead ax t) (lead ax b) (extent ax b) (extent ax r)"
  "lead ax (scale_tile b r t) + extent ax (scale_tile b r t) =
     lead ax r + mapEdge (lead ax t + extent ax t) (lead ax b) (extent ax b) (extent ax r)"
  by (cases ax; simp add: scale_tile_def Let_def)+

lemma content_scale [simp]: "content (scale_tile b r t) = content t"
  by (simp add: scale_tile_def content_def Let_def)

lemma apart_axis: "\<not> overlaps t u \<longleftrightarrow>
    (\<exists>ax. lead ax t + extent ax t \<le> lead ax u \<or> lead ax u + extent ax u \<le> lead ax t)"
proof
  assume "\<not> overlaps t u"
  then have "(lead Vertical t + extent Vertical t \<le> lead Vertical u \<or>
        lead Vertical u + extent Vertical u \<le> lead Vertical t) \<or>
      (lead Horizontal t + extent Horizontal t \<le> lead Horizontal u \<or>
        lead Horizontal u + extent Horizontal u \<le> lead Horizontal t)"
    by (auto simp: overlaps_def)
  then show "\<exists>ax. lead ax t + extent ax t \<le> lead ax u \<or> lead ax u + extent ax u \<le> lead ax t" by blast
next
  assume "\<exists>ax. lead ax t + extent ax t \<le> lead ax u \<or> lead ax u + extent ax u \<le> lead ax t"
  then obtain ax where "lead ax t + extent ax t \<le> lead ax u \<or> lead ax u + extent ax u \<le> lead ax t" ..
  then show "\<not> overlaps t u" unfolding overlaps_axis [of t u ax] by auto
qed

lemma scale_apart:
  assumes "\<not> overlaps t u" "\<And>ax. 0 < extent ax b" "in_canvas r"
  shows "\<not> overlaps (scale_tile b r t) (scale_tile b r u)"
proof -
  from assms(1) obtain ax where
      ax: "lead ax t + extent ax t \<le> lead ax u \<or> lead ax u + extent ax u \<le> lead ax t"
    unfolding apart_axis ..
  have "0 \<le> extent ax r" using in_canvas_axis [OF assms(3)] by blast
  then have "lead ax (scale_tile b r v) + extent ax (scale_tile b r v) \<le> lead ax (scale_tile b r w)"
    if "lead ax v + extent ax v \<le> lead ax w" for v w
    using mapEdge_mono [OF assms(2) [of ax] _ that, of "extent ax r" "lead ax b"]
      scale_axis(2) [of ax b r v] scale_axis(1) [of ax b r w] by linarith
  with ax show ?thesis unfolding apart_axis by blast
qed

lemma scale_bounds:
  assumes "valid_tiles ts" "blockBounds ts = Some b" "t \<in> set ts" "in_canvas r"
  shows "lead ax r \<le> lead ax (scale_tile b r t)"
    "lead ax (scale_tile b r t) + extent ax (scale_tile b r t) \<le> lead ax r + extent ax r"
proof -
  note b = blockBounds_spec [OF assms(1-3)]
  have pos: "0 < extent ax b" using b(5) [of ax] by simp
  have sz: "0 \<le> extent ax r" using in_canvas_axis [OF assms(4)] by blast
  show "lead ax r \<le> lead ax (scale_tile b r t)"
    using mapEdge_mono [OF pos sz b(1) [of ax], of "lead ax b"] mapEdge_ends(1) [OF pos]
    unfolding scale_axis by simp
  show "lead ax (scale_tile b r t) + extent ax (scale_tile b r t) \<le> lead ax r + extent ax r"
    using mapEdge_mono [OF pos sz b(2) [of ax], of "lead ax b"] mapEdge_ends(2) [OF pos]
    unfolding scale_axis(2) by simp
qed

lemma scaleBlock_eq:
  assumes "valid_tiles ts" "scaleBlock ts r = Some us" "ts \<noteq> []"
  obtains b where "blockBounds ts = Some b" "us = map (scale_tile b r) ts"
    "\<forall>u \<in> set us. 4 \<le> gw u \<and> 4 \<le> gh u"
proof -
  have "blockBounds ts \<noteq> None" using assms(3) by (simp add: blockBounds_def Let_def)
  then obtain b where b: "blockBounds ts = Some b" by blast
  with assms(2) have "us = map (scale_tile b r) ts" "\<forall>u \<in> set us. 4 \<le> gw u \<and> 4 \<le> gh u"
    by (auto simp: scaleBlock_def Let_def list_all_iff split: if_splits)
  with b that show thesis by blast
qed

lemma scaleBlock_valid:
  assumes "valid_tiles ts" "scaleBlock ts r = Some us" "in_canvas r"
  shows "valid_tiles us" "map content us = map content ts" "\<forall>u \<in> set us. contains r u"
proof -
  have "valid_tiles us \<and> map content us = map content ts \<and> (\<forall>u \<in> set us. contains r u)"
  proof (cases "ts = []")
    case True
    with assms(2) show ?thesis by (simp add: scaleBlock_def blockBounds_def)
  next
    case False
    from scaleBlock_eq [OF assms(1,2) False] obtain b where b: "blockBounds ts = Some b"
        "us = map (scale_tile b r) ts" "\<forall>u \<in> set us. 4 \<le> gw u \<and> 4 \<le> gh u" by blast
    have ct: "map content us = map content ts" by (simp add: b(2))
    note sb = scale_bounds [OF assms(1) b(1) _ assms(3)]
    have cont: "\<forall>u \<in> set us. contains r u"
    proof
      fix u assume "u \<in> set us"
      then obtain t where t: "t \<in> set ts" "u = scale_tile b r t" using b(2) by auto
      then show "contains r u"
        using sb [of t Vertical] sb [of t Horizontal] by (simp add: contains_def)
    qed
    have ids: "map session_id us = map session_id ts"
      using ct by (simp add: map_fst_content)
    have "length us = length ts" by (simp add: b(2))
    have "disjoint_tiles us"
      unfolding disjoint_tiles_def b(2)
    proof (intro ballI impI)
      fix u v assume "u \<in> set (map (scale_tile b r) ts)" "v \<in> set (map (scale_tile b r) ts)"
        and ne: "session_id u \<noteq> session_id v"
      then obtain t w where t: "t \<in> set ts" "u = scale_tile b r t" "w \<in> set ts" "v = scale_tile b r w" by auto
      have "session_id t \<noteq> session_id w" using ne t(2,4) by (simp add: scale_tile_def Let_def)
      then have "\<not> overlaps t w" using valid_tilesD(5) [OF assms(1) t(1,3)] by blast
      moreover have "0 < extent ax b" for ax using blockBounds_spec(5) [OF assms(1) b(1) t(1), of ax] by simp
      ultimately show "\<not> overlaps u v" unfolding t(2,4) by (rule scale_apart [OF _ _ assms(3)])
    qed
    moreover have "valid_rect u \<and> session_id u \<noteq> []" if "u \<in> set us" for u
    proof
      show "valid_rect u" using that cont b(3) assms(3)
        by (fastforce simp: contains_def in_canvas_def valid_rect_def)
      have "session_id u \<in> session_id ` set ts" using that ids by (metis image_eqI list.set_map)
      then show "session_id u \<noteq> []" using valid_tilesD(3) [OF assms(1)] by (metis imageE)
    qed
    ultimately have "valid_tiles us"
      using valid_tilesD(1,2) [OF assms(1)] ids \<open>length us = length ts\<close> by (simp add: valid_tiles_def)
    with ct cont show ?thesis by blast
  qed
  then show "valid_tiles us" "map content us = map content ts" "\<forall>u \<in> set us. contains r u" by blast+
qed

subsection \<open>The minimum size of a block\<close>

lemma min_step_fold:
  assumes "sorted_wrt (<) ss"
  shows "\<forall>s \<in> set ss. foldl (min_step ts k p ax) w ss \<le> s \<longrightarrow> axisFits ts k p s ax"
    "foldl (min_step ts k p ax) w ss \<in> insert w ((\<lambda>s. s + 1) ` {s \<in> set ss. \<not> axisFits ts k p s ax})"
proof -
  have "(\<forall>s \<in> set ss. foldl (min_step ts k p ax) w ss \<le> s \<longrightarrow> axisFits ts k p s ax) \<and>
      foldl (min_step ts k p ax) w ss \<in> insert w ((\<lambda>s. s + 1) ` {s \<in> set ss. \<not> axisFits ts k p s ax})"
    using assms
  proof (induction ss rule: rev_induct)
    case (snoc s ss)
    then have "sorted_wrt (<) ss" "\<forall>s' \<in> set ss. s' < s" by (simp_all add: sorted_wrt_append)
    with snoc.IH show ?case by (auto simp: min_step_def)
  qed simp
  then show "\<forall>s \<in> set ss. foldl (min_step ts k p ax) w ss \<le> s \<longrightarrow> axisFits ts k p s ax"
    "foldl (min_step ts k p ax) w ss \<in> insert w ((\<lambda>s. s + 1) ` {s \<in> set ss. \<not> axisFits ts k p s ax})"
    by blast+
qed

lemma axisFits_full:
  assumes "valid_tiles ts" "blockBounds ts = Some b"
  shows "axisFits ts (lead ax b) (extent ax b) 24 ax"
proof -
  have "mapEdge (lead ax t) (lead ax b) (extent ax b) 24 + 4 \<le>
      mapEdge (lead ax t + extent ax t) (lead ax b) (extent ax b) 24" if t: "t \<in> set ts" for t
  proof -
    note b = blockBounds_spec [OF assms t, of ax]
    have "4 \<le> extent ax t" using valid_tilesD(4) [OF assms(1) t] by (simp add: valid_rect_axis [of _ ax])
    with mapEdge_expands [of "extent ax b" 24 "extent ax t" "lead ax t" "lead ax b"] b
    show ?thesis by linarith
  qed
  then show ?thesis by (fastforce simp: axisFits_def list_all_iff Let_def)
qed

lemma min_size_fits:
  assumes "valid_tiles ts" "blockBounds ts = Some b"
    and "min (foldl (min_step ts (lead ax b) (extent ax b) ax) 4 [4..24]) 24 \<le> n" "n \<le> 24"
  shows "axisFits ts (lead ax b) (extent ax b) n ax"
proof (cases "foldl (min_step ts (lead ax b) (extent ax b) ax) 4 [4..24] \<le> n")
  case True
  have srt: "sorted_wrt (<) [4..24 :: int]" by (simp add: sorted_wrt_upto)
  have "4 \<le> foldl (min_step ts (lead ax b) (extent ax b) ax) 4 [4..24]"
    using min_step_fold(2) [OF srt, of ts "lead ax b" "extent ax b" ax 4] unfolding set_upto by fastforce
  then have "n \<in> set [4..24]" using True assms(4) unfolding set_upto by simp
  with True min_step_fold(1) [OF srt] show ?thesis by blast
next
  case False
  with assms(3,4) have "n = 24" by linarith
  then show ?thesis using axisFits_full [OF assms(1,2)] by simp
qed

text \<open>
  \<open>blockMinSize\<close> is enough room: a block of windows from a valid tab can be laid into any
  region of the canvas at least that large, although the rounding that shares the cells out is not
  monotone.
\<close>

theorem blockMinSize_enough:
  assumes "valid_tiles ts" "blockMinSize ts = (w, h)" "w \<le> gw r" "gw r \<le> 24" "h \<le> gh r" "gh r \<le> 24"
  shows "scaleBlock ts r \<noteq> None"
proof (cases "blockBounds ts")
  case None
  then show ?thesis by (simp add: scaleBlock_def)
next
  case (Some b)
  have x: "axisFits ts (gx b) (gw b) (gw r) Vertical" and y: "axisFits ts (gy b) (gh b) (gh r) Horizontal"
    using min_size_fits [OF assms(1) Some, of Vertical "gw r"] assms(2-6) Some
      min_size_fits [OF assms(1) Some, of Horizontal "gh r"]
    by (simp_all add: blockMinSize_def Let_def)
  have "4 \<le> gw (scale_tile b r t) \<and> 4 \<le> gh (scale_tile b r t)" if "t \<in> set ts" for t
    using x y that by (auto simp: axisFits_def list_all_iff Let_def scale_tile_def)
  then show ?thesis using Some by (simp add: scaleBlock_def Let_def list_all_iff)
qed

text \<open>
  A block that is laid into a region of the canvas stays a valid layout of the same windows, all
  inside the region, and its seams stay closed: where one window ended exactly at the line another
  began, the scaled windows meet at one line too.
\<close>

theorem scaleBlock_keeps:
  assumes "valid_tiles ts" "in_canvas r" "scaleBlock ts r = Some us"
  shows "valid_tiles us \<and> map content us = map content ts \<and> (\<forall>u \<in> set us. contains r u) \<and>
    (\<forall>i < length ts. \<forall>j < length ts. \<forall>ax.
       lead ax (ts ! i) + extent ax (ts ! i) = lead ax (ts ! j) \<longrightarrow>
       lead ax (us ! i) + extent ax (us ! i) = lead ax (us ! j))"
proof (cases "ts = []")
  case True
  with assms show ?thesis by (simp add: scaleBlock_def blockBounds_def)
next
  case False
  from scaleBlock_eq [OF assms(1,3) False] obtain b where us: "us = map (scale_tile b r) ts" by blast
  have "lead ax (us ! i) + extent ax (us ! i) = lead ax (us ! j)"
    if "i < length ts" "j < length ts" "lead ax (ts ! i) + extent ax (ts ! i) = lead ax (ts ! j)" for i j ax
    using that scale_axis(2) [of ax b r "ts ! i"] scale_axis(1) [of ax b r "ts ! j"] by (simp add: us)
  then show ?thesis using scaleBlock_valid [OF assms(1,3,2)] by blast
qed

subsection \<open>Plans\<close>

lemma content_resting:
  "map content (map (\<lambda>t. if session_id t = i then with_rect t k else t) ts) = map content ts"
  by simp

lemma drop_rect_content:
  assumes "drop_rect ts drp = Inr (r, us)"
  shows "map content us = map content ts"
  using assms by (auto simp: drop_rect_def split: merge_drop.splits option.splits)

lemma scaleBlock_content:
  assumes "scaleBlock ts r = Some us"
  shows "map content us = map content ts"
  using assms
  by (auto simp: scaleBlock_def blockBounds_def Let_def split: option.splits if_splits)

lemma planMerge_region:
  assumes "valid_envelope L" "s \<in> set (tabs L)" "t \<in> set (tabs L)" "tab_id s \<noteq> tab_id t"
    and "drop_rect (tiles_of t) drp = Inr (r, resting)" "scaleBlock (tiles_of s) r = Some incoming"
    and "valid_tiles (sortTiles (resting @ incoming))"
  shows "\<exists>M. foldTabInto L (tab_id s) (tab_id t) (sortTiles (resting @ incoming)) = Some M \<and>
    valid_envelope M \<and> windows M = windows L \<and> active_tab M = Some (tab_id t) \<and>
    map tab_id (tabs M) = filter (\<lambda>i. i \<noteq> tab_id s) (map tab_id (tabs L))"
proof -
  have "mset (map content (sortTiles (resting @ incoming))) =
      mset (map content (tiles_of t)) + mset (map content (tiles_of s))"
    using drop_rect_content [OF assms(5)] scaleBlock_content [OF assms(6)]
      arg_cong [OF mset_sortTiles [of "resting @ incoming"], of "image_mset content"]
    by (metis map_append mset_append mset_map)
  from foldTabInto_valid [OF assms(1-4,7) this] obtain M where
      "foldTabInto L (tab_id s) (tab_id t) (sortTiles (resting @ incoming)) = Some M" "valid_envelope M"
      "windows M = windows L" "active_tab M = Some (tab_id t)"
      "tabs M = filter (\<lambda>u. tab_id u \<noteq> tab_id s)
         (tabs (withTabTiles L (tab_id t) (sortTiles (resting @ incoming))))" by blast
  moreover from this(5) have "map tab_id (tabs M) = filter (\<lambda>i. i \<noteq> tab_id s) (map tab_id (tabs L))"
    using map_tab_id_filter [of "tab_id s" "tabs (withTabTiles L (tab_id t) (sortTiles (resting @ incoming)))"]
    by simp
  ultimately show ?thesis by blast
qed

lemma planMerge_spec:
  assumes "valid_envelope L" "s \<in> set (tabs L)" "t \<in> set (tabs L)" "tab_id s \<noteq> tab_id t"
  shows "case planMerge L (tab_id s) (tab_id t) drp of
      (Some plan, refusal) \<Rightarrow> refusal = None \<and> valid_envelope (mp_layout plan) \<and>
        windows (mp_layout plan) = windows L \<and> active_tab (mp_layout plan) = Some (tab_id t) \<and>
        map tab_id (tabs (mp_layout plan)) = filter (\<lambda>i. i \<noteq> tab_id s) (map tab_id (tabs L))
    | (None, refusal) \<Rightarrow>
        length (tiles_of t) + length (tiles_of s) > MAX_TILES \<longrightarrow> refusal = Some RCapacity"
proof (cases "length (tiles_of t) + length (tiles_of s) > MAX_TILES")
  case True
  then show ?thesis using tabById_mem [OF assms(1)] assms(2-4) by (simp add: planMerge_def)
next
  case False
  note ids = tabById_mem [OF assms(1,2)] tabById_mem [OF assms(1,3)]
  show ?thesis
  proof (cases "drp = AutoDrop")
    case True
    show ?thesis
    proof (cases "mergeTabs L (tab_id s) (tab_id t)")
      case None
      with False True ids assms(4) show ?thesis by (simp add: planMerge_def)
    next
      case (Some M)
      with mergeTabs_spec [OF assms] False True ids assms(4) show ?thesis
        by (simp add: planMerge_def Let_def)
    qed
  next
    case nauto: False
    consider (refused) x where "drop_rect (tiles_of t) drp = Inl x"
      | (small) r us where "drop_rect (tiles_of t) drp = Inr (r, us)" "scaleBlock (tiles_of s) r = None"
      | (placed) r us ins where "drop_rect (tiles_of t) drp = Inr (r, us)"
          "scaleBlock (tiles_of s) r = Some ins"
      by (cases "drop_rect (tiles_of t) drp") fastforce+
    then show ?thesis
    proof cases
      case refused
      with False nauto ids assms(4) show ?thesis by (simp add: planMerge_def)
    next
      case small
      with False nauto ids assms(4) show ?thesis by (simp add: planMerge_def)
    next
      case placed
      show ?thesis
      proof (cases "valid_tiles (sortTiles (us @ ins))")
        case True
        from planMerge_region [OF assms placed True] placed True False nauto ids assms(4)
        show ?thesis by (auto simp: planMerge_def Let_def)
      next
        case invalid: False
        with placed False nauto ids assms(4) show ?thesis by (simp add: planMerge_def Let_def)
      qed
    qed
  qed
qed

text \<open>
  Every plan of a drop is safe to persist: the envelope it writes is valid, holds exactly the
  windows the workspace had, shows the target tab and has lost only the dragged one. A drop that
  would exceed sixteen windows is refused for capacity, and a refused drop has no plan.
\<close>

theorem planMerge_safe:
  assumes "valid_envelope L" "s \<in> set (tabs L)" "t \<in> set (tabs L)" "tab_id s \<noteq> tab_id t"
  shows "case planMerge L (tab_id s) (tab_id t) drp of
      (Some plan, refusal) \<Rightarrow> refusal = None \<and> valid_envelope (mp_layout plan) \<and>
        windows (mp_layout plan) = windows L \<and> active_tab (mp_layout plan) = Some (tab_id t) \<and>
        map tab_id (tabs (mp_layout plan)) = filter (\<lambda>i. i \<noteq> tab_id s) (map tab_id (tabs L))
    | (None, refusal) \<Rightarrow>
        length (tiles_of t) + length (tiles_of s) > MAX_TILES \<longrightarrow> refusal = Some RCapacity"
  using assms by (rule planMerge_spec)

theorem scaleBlock_keeps_witness:
  "\<exists>us. scaleBlock three_panes \<lparr>gx = 12, gy = 0, gw = 12, gh = 24\<rparr> = Some us \<and> valid_tiles us"
proof -
  have "scaleBlock three_panes \<lparr>gx = 12, gy = 0, gw = 12, gh = 24\<rparr> \<noteq> None" by code_simp
  then obtain us where "scaleBlock three_panes \<lparr>gx = 12, gy = 0, gw = 12, gh = 24\<rparr> = Some us" by blast
  with scaleBlock_keeps [OF valid_three_panes _ this] show ?thesis by (simp add: in_canvas_def)
qed

theorem planMerge_safe_witness:
  "\<exists>plan. planMerge pair_tabs ''t1'' ''t2'' (Region \<lparr>gx = 0, gy = 0, gw = 12, gh = 24\<rparr>) = (Some plan, None) \<and>
     valid_envelope (mp_layout plan) \<and> windows (mp_layout plan) = windows pair_tabs"
proof -
  let ?r = "Region \<lparr>gx = 0, gy = 0, gw = 12, gh = 24\<rparr>"
  have "fst (planMerge pair_tabs ''t1'' ''t2'' ?r) \<noteq> None" by code_simp
  then obtain plan ref where "planMerge pair_tabs ''t1'' ''t2'' ?r = (Some plan, ref)"
    by (cases "planMerge pair_tabs ''t1'' ''t2'' ?r") auto
  with planMerge_safe [OF valid_pair_tabs, of "tabs pair_tabs ! 0" "tabs pair_tabs ! 1" ?r]
  show ?thesis by (simp add: pair_tabs_def tab_of_def)
qed

end
