(* ===== verification/Mobile_Tiles.thy ===== *)
theory Mobile_Tiles
  imports Grid_Place Grid_Motion Grid_Remove Split_Tree
begin

section \<open>The mobile client's grid\<close>

text \<open>
  \<open>mobile/src/data/layout/tiles.ts\<close>: a second implementation of the grid algebra, written
  independently of \<open>web/src/lib/grid.ts\<close> and sharing no code with it. Both clients edit the same
  stored layout, so they have to agree. The definitions here follow the mobile source; the theorems
  show that on every valid layout each operation returns exactly what the web client's returns.
  Names that the web theories use too carry the suffix \<open>_m\<close>.

  The mobile client breaks ties in the reading order with \<open>localeCompare\<close>, whose result depends
  on the locale of the device. It is a parameter \<open>lc\<close> of the definitions that sort. No theorem
  constrains it: tiles of a valid layout never tie.
\<close>

subsection \<open>Geometry\<close>

definition overlaps_m :: "'a rect_scheme \<Rightarrow> 'b rect_scheme \<Rightarrow> bool" where
  "overlaps_m a b \<longleftrightarrow>
     gx a < gx b + gw b \<and> gx a + gw a > gx b \<and> gy a < gy b + gh b \<and> gy a + gh a > gy b"

definition intersectionArea_m :: "'a rect_scheme \<Rightarrow> 'b rect_scheme \<Rightarrow> int" where
  "intersectionArea_m a b =
     (let width = max 0 (min (gx a + gw a) (gx b + gw b) - max (gx a) (gx b));
          height = max 0 (min (gy a + gh a) (gy b + gh b) - max (gy a) (gy b))
      in width * height)"

text \<open>\<open>a - b || c - d || ...\<close>: the first difference that is not zero.\<close>

fun first_nonzero :: "int list \<Rightarrow> int" where
  "first_nonzero [] = 0"
| "first_nonzero [d] = d"
| "first_nonzero (d # ds) = (if d \<noteq> 0 then d else first_nonzero ds)"

declare first_nonzero.simps [simp del]

definition orderedTiles :: "(string \<Rightarrow> string \<Rightarrow> int) \<Rightarrow> tile list \<Rightarrow> tile list" where
  "orderedTiles lc tiles =
     sort_by (\<lambda>a b. first_nonzero [gy a - gy b, gx a - gx b, lc (session_id a) (session_id b)]) tiles"

definition readingOrderIds :: "(string \<Rightarrow> string \<Rightarrow> int) \<Rightarrow> tile list \<Rightarrow> string list" where
  "readingOrderIds lc tiles = map session_id (orderedTiles lc tiles)"

definition placementFree :: "'a rect_scheme \<Rightarrow> tile list \<Rightarrow> string option \<Rightarrow> bool" where
  "placementFree r tiles excludeId =
     list_all (\<lambda>t. Some (session_id t) = excludeId \<or> \<not> overlaps_m r t) tiles"

subsection \<open>Validation\<close>

definition sid_errors :: "nat \<Rightarrow> jsval \<Rightarrow> layout_error list" where
  "sid_errors i candidate =
     (case js_get candidate ''session_id'' of
        JStr s \<Rightarrow> if s = [] then [lerr E_session_id (Some i) None] else []
      | _ \<Rightarrow> [lerr E_session_id (Some i) None])"

definition geometry_errors :: "nat \<Rightarrow> jsval \<Rightarrow> layout_error list" where
  "geometry_errors i candidate =
     (case raw_rect candidate of
        None \<Rightarrow> [lerr E_integer (Some i) None]
      | Some r \<Rightarrow>
          (if gx r < 0 \<or> gy r < 0 \<or> gx r + gw r > GRID_SIZE \<or> gy r + gh r > GRID_SIZE
           then [lerr E_bounds (Some i) None] else []) @
          (if gw r < MIN_TILE_SIZE \<or> gh r < MIN_TILE_SIZE
           then [lerr E_size (Some i) None] else []))"

definition inspectable :: "nat \<times> jsval \<Rightarrow> (nat \<times> rect) list" where
  "inspectable ic =
     (case raw_rect (snd ic) of
        None \<Rightarrow> []
      | Some r \<Rightarrow>
          if gx r \<ge> 0 \<and> gy r \<ge> 0 \<and> gx r + gw r \<le> GRID_SIZE \<and> gy r + gh r \<le> GRID_SIZE
          then [(fst ic, r)] else [])"

text \<open>Unlike the web client, an empty string takes part in the search for duplicates.\<close>

fun duplicate_errors_m :: "(nat \<times> jsval) list \<Rightarrow> (string \<rightharpoonup> nat) \<Rightarrow> layout_error list" where
  "duplicate_errors_m [] firstById = []"
| "duplicate_errors_m ((i, candidate) # rest) firstById =
     (case js_get candidate ''session_id'' of
        JStr s \<Rightarrow>
          (case firstById s of
             None \<Rightarrow> duplicate_errors_m rest (firstById(s \<mapsto> i))
           | Some first \<Rightarrow>
               lerr E_duplicate (Some i) (Some first) # duplicate_errors_m rest firstById)
      | _ \<Rightarrow> duplicate_errors_m rest firstById)"

fun overlap_errors_m :: "(nat \<times> rect) list \<Rightarrow> layout_error list" where
  "overlap_errors_m [] = []"
| "overlap_errors_m (a # rest) =
     concat (map (\<lambda>b. if overlaps_m (snd a) (snd b)
        then [lerr E_overlap (Some (fst a)) (Some (fst b))] else []) rest) @
     overlap_errors_m rest"

definition validateGridLayout :: "jsval \<Rightarrow> validation_result" where
  "validateGridLayout layout =
     (if \<not> js_is_record layout
      then \<lparr>vr_ok = False, vr_errors = [lerr E_shape None None]\<rparr>
      else case js_get layout ''tiles'' of
        JArr tiles \<Rightarrow>
          let entries = enumerate 0 tiles;
              errors =
                (if js_get layout ''version'' \<noteq> JNum 3 then [lerr E_version None None] else []) @
                (if length tiles > MAX_TILES then [lerr E_count None None] else []) @
                concat (map (\<lambda>(i, c). sid_errors i c @ geometry_errors i c) entries) @
                duplicate_errors_m entries Map.empty @
                overlap_errors_m (concat (map inspectable entries))
          in \<lparr>vr_ok = (errors = []), vr_errors = errors\<rparr>
      | _ \<Rightarrow> \<lparr>vr_ok = False, vr_errors = [lerr E_shape None None]\<rparr>)"

subsection \<open>Placement\<close>

function widen :: "tile list \<Rightarrow> int \<Rightarrow> int \<Rightarrow> int \<Rightarrow> int" where
  "widen tiles x y width =
     (if x + width < GRID_SIZE \<and>
         placementFree \<lparr>gx = x, gy = y, gw = width + 1, gh = MIN_TILE_SIZE\<rparr> tiles None
      then widen tiles x y (width + 1) else width)"
  by pat_completeness auto
termination
  by (relation "measure (\<lambda>(tiles, x, y, w). nat (GRID_SIZE - (x + w)))") auto

function heighten :: "tile list \<Rightarrow> int \<Rightarrow> int \<Rightarrow> int \<Rightarrow> int \<Rightarrow> int" where
  "heighten tiles x y width height =
     (if y + height < GRID_SIZE \<and>
         placementFree \<lparr>gx = x, gy = y, gw = width, gh = height + 1\<rparr> tiles None
      then heighten tiles x y width (height + 1) else height)"
  by pat_completeness auto
termination
  by (relation "measure (\<lambda>(tiles, x, y, w, h). nat (GRID_SIZE - (y + h)))") auto

declare widen.simps [simp del] heighten.simps [simp del]

definition halve_m :: "tile \<Rightarrow> tile \<times> rect" where
  "halve_m victim =
     (if gw victim \<ge> gh victim
      then let existingWidth = ceil_half (gw victim) in
        (victim\<lparr>gw := existingWidth\<rparr>,
         \<lparr>gx = gx victim + existingWidth, gy = gy victim, gw = gw victim div 2, gh = gh victim\<rparr>)
      else let existingHeight = ceil_half (gh victim) in
        (victim\<lparr>gh := existingHeight\<rparr>,
         \<lparr>gx = gx victim, gy = gy victim + existingHeight, gw = gw victim, gh = gh victim div 2\<rparr>))"

definition autoPlace_m :: "(string \<Rightarrow> string \<Rightarrow> int) \<Rightarrow> tile list \<Rightarrow> rect option \<times> tile list" where
  "autoPlace_m lc tiles =
     (let sorted = orderedTiles lc tiles in
      if length sorted \<ge> MAX_TILES then (None, sorted)
      else case find (\<lambda>(x, y). placementFree (square_at x y) sorted None) scan_spots of
        Some (x, y) \<Rightarrow>
          let width = widen sorted x y MIN_TILE_SIZE;
              height = heighten sorted x y width MIN_TILE_SIZE
          in (Some \<lparr>gx = x, gy = y, gw = width, gh = height\<rparr>, sorted)
      | None \<Rightarrow>
          (case sort_by (\<lambda>a b. first_nonzero [gw b * gh b - gw a * gh a, gy a - gy b, gx a - gx b])
                  (filter (\<lambda>t. max (gw t) (gh t) \<ge> MIN_TILE_SIZE * 2) sorted) of
             [] \<Rightarrow> (None, sorted)
           | victim # _ \<Rightarrow>
               let (resized, placement) = halve_m victim in
               (Some placement,
                orderedTiles lc (map (\<lambda>t. if session_id t = session_id victim then resized else t) sorted))))"

definition canAddTile :: "(string \<Rightarrow> string \<Rightarrow> int) \<Rightarrow> tile list \<Rightarrow> bool" where
  "canAddTile lc tiles \<longleftrightarrow> fst (autoPlace_m lc tiles) \<noteq> None"

text \<open>The new tile brings its session and its widget; its rectangle is the placement.\<close>

definition addTile :: "(string \<Rightarrow> string \<Rightarrow> int) \<Rightarrow> tile list \<Rightarrow> tile \<Rightarrow> tile list option" where
  "addTile lc tiles t =
     (case autoPlace_m lc tiles of
        (None, _) \<Rightarrow> None
      | (Some spot, placed) \<Rightarrow> Some (orderedTiles lc (placed @ [with_rect t spot])))"

subsection \<open>Moving, resizing, compacting, removing\<close>

definition moveTile :: "(string \<Rightarrow> string \<Rightarrow> int) \<Rightarrow> tile list \<Rightarrow> string \<Rightarrow> int \<Rightarrow> int \<Rightarrow> tile list" where
  "moveTile lc tiles sid x y =
     (let sorted = orderedTiles lc tiles in
      case find (\<lambda>t. session_id t = sid) sorted of
        None \<Rightarrow> sorted
      | Some dragged \<Rightarrow>
          let target = \<lparr>gx = min (max 0 x) (GRID_SIZE - gw dragged),
                        gy = min (max 0 y) (GRID_SIZE - gh dragged),
                        gw = gw dragged, gh = gh dragged\<rparr>;
              victims = sort_by (\<lambda>a b. first_nonzero
                  [intersectionArea_m target b - intersectionArea_m target a, gy a - gy b, gx a - gx b])
                (filter (\<lambda>t. session_id t \<noteq> sid \<and> overlaps_m target t) sorted)
          in case victims of
            [] \<Rightarrow> orderedTiles lc
                (map (\<lambda>t. if session_id t = sid then t\<lparr>gx := gx target, gy := gy target\<rparr> else t) sorted)
          | victim # _ \<Rightarrow> orderedTiles lc (map (\<lambda>t.
                if session_id t = sid then with_rect t victim
                else if session_id t = session_id victim then with_rect t dragged
                else t) sorted))"

definition resizeTile :: "(string \<Rightarrow> string \<Rightarrow> int) \<Rightarrow> tile list \<Rightarrow> string \<Rightarrow> int \<Rightarrow> int \<Rightarrow> tile list" where
  "resizeTile lc tiles sid w h =
     (let sorted = orderedTiles lc tiles in
      case find (\<lambda>t. session_id t = sid) sorted of
        None \<Rightarrow> sorted
      | Some t \<Rightarrow>
          let resized = t\<lparr>gw := min (max MIN_TILE_SIZE w) (GRID_SIZE - gx t),
                          gh := min (max MIN_TILE_SIZE h) (GRID_SIZE - gy t)\<rparr>
          in if \<not> placementFree resized sorted (Some sid) then sorted
             else orderedTiles lc (map (\<lambda>c. if session_id c = sid then resized else c) sorted))"

function rise :: "tile list \<Rightarrow> tile \<Rightarrow> tile" where
  "rise tiles t =
     (if gy t > 0 \<and> placementFree (t\<lparr>gy := gy t - 1\<rparr>) tiles (Some (session_id t))
      then rise tiles (t\<lparr>gy := gy t - 1\<rparr>) else t)"
  by pat_completeness auto
termination
  by (relation "measure (\<lambda>(tiles, t). nat (gy t))") auto

function shift_left :: "tile list \<Rightarrow> tile \<Rightarrow> tile" where
  "shift_left tiles t =
     (if gx t > 0 \<and> placementFree (t\<lparr>gx := gx t - 1\<rparr>) tiles (Some (session_id t))
      then shift_left tiles (t\<lparr>gx := gx t - 1\<rparr>) else t)"
  by pat_completeness auto
termination
  by (relation "measure (\<lambda>(tiles, t). nat (gx t))") auto

declare rise.simps [simp del] shift_left.simps [simp del]

text \<open>
  The loop mutates the tiles of \<open>result\<close> in place. While one tile slides, the entry for it in
  \<open>result\<close> is skipped by its id, so the other entries are all that matters.
\<close>

definition compactTiles :: "(string \<Rightarrow> string \<Rightarrow> int) \<Rightarrow> tile list \<Rightarrow> tile list" where
  "compactTiles lc tiles =
     (let result = orderedTiles lc tiles in
      orderedTiles lc (foldl (\<lambda>res i. res[i := shift_left res (rise res (res ! i))])
        result [0..<length result]))"

definition inside :: "'a rect_scheme \<Rightarrow> 'b rect_scheme \<Rightarrow> bool" where
  "inside r boundary \<longleftrightarrow>
     gx r \<ge> gx boundary \<and> gy r \<ge> gy boundary \<and>
     gx r + gw r \<le> gx boundary + gw boundary \<and> gy r + gh r \<le> gy boundary + gh boundary"

datatype grow_direction = GRight | GDown | GLeft | GUp

fun growOne :: "tile \<Rightarrow> grow_direction \<Rightarrow> tile" where
  "growOne t GRight = t\<lparr>gw := gw t + 1\<rparr>"
| "growOne t GDown = t\<lparr>gh := gh t + 1\<rparr>"
| "growOne t GLeft = t\<lparr>gx := gx t - 1, gw := gw t + 1\<rparr>"
| "growOne t GUp = t\<lparr>gy := gy t - 1, gh := gh t + 1\<rparr>"

fun gainedStrip :: "tile \<Rightarrow> grow_direction \<Rightarrow> rect" where
  "gainedStrip t GRight = \<lparr>gx = gx t + gw t, gy = gy t, gw = 1, gh = gh t\<rparr>"
| "gainedStrip t GDown = \<lparr>gx = gx t, gy = gy t + gh t, gw = gw t, gh = 1\<rparr>"
| "gainedStrip t GLeft = \<lparr>gx = gx t - 1, gy = gy t, gw = 1, gh = gh t\<rparr>"
| "gainedStrip t GUp = \<lparr>gx = gx t, gy = gy t - 1, gw = gw t, gh = 1\<rparr>"

definition try_grow_m :: "tile \<Rightarrow> tile list \<times> bool \<Rightarrow> nat \<Rightarrow> tile list \<times> bool" where
  "try_grow_m removed st i =
     (case st of (result, changed) \<Rightarrow>
        let t = result ! i in
        (case find (\<lambda>d. inside (gainedStrip t d) removed \<and>
                placementFree (growOne t d) result (Some (session_id t)))
              [GRight, GDown, GLeft, GUp] of
           None \<Rightarrow> (result, changed)
         | Some d \<Rightarrow> (result[i := growOne t d], True)))"

definition grow_pass_m :: "tile \<Rightarrow> tile list \<Rightarrow> tile list \<times> bool" where
  "grow_pass_m removed result = foldl (try_grow_m removed) (result, False) [0..<length result]"

lemma inside_room:
  "inside (gainedStrip t d) removed \<Longrightarrow> room (rect_of removed) (growOne t d) < room (rect_of removed) t"
  by (cases d) (auto simp: inside_def room_def)

lemma try_grow_m_room:
  assumes "i < length result" "try_grow_m removed (result, g) i = (result', g')"
  shows "length result' = length result \<and> (result' = result \<and> g' = g \<or>
    g' \<and> sum_list (map (room (rect_of removed)) result') < sum_list (map (room (rect_of removed)) result))"
proof (cases "find (\<lambda>d. inside (gainedStrip (result ! i) d) removed \<and>
    placementFree (growOne (result ! i) d) result (Some (session_id (result ! i))))
    [GRight, GDown, GLeft, GUp]")
  case None
  with assms show ?thesis by (simp add: try_grow_m_def Let_def)
next
  case (Some d)
  then have "inside (gainedStrip (result ! i) d) removed" by (blast dest: find_Some_in)
  from inside_room [OF this] assms Some show ?thesis
    by (auto simp: try_grow_m_def Let_def intro!: sum_list_update_less)
qed

interpretation growth_m: shrinking_pass "try_grow_m removed"
    "\<lambda>result. sum_list (map (room (rect_of removed)) result)" for removed
  by unfold_locales (rule try_grow_m_room)

function absorb_m :: "tile \<Rightarrow> tile list \<Rightarrow> tile list" where
  "absorb_m removed result =
     (case grow_pass_m removed result of (result', changed) \<Rightarrow>
        if changed then absorb_m removed result' else result')"
  by pat_completeness auto
termination
  by (relation "measure (\<lambda>(removed, result). sum_list (map (room (rect_of removed)) result))")
    (auto simp: grow_pass_m_def dest: growth_m.pass_shrinks [OF sym])

declare absorb_m.simps [simp del]

definition removeTile :: "(string \<Rightarrow> string \<Rightarrow> int) \<Rightarrow> tile list \<Rightarrow> string \<Rightarrow> tile list" where
  "removeTile lc tiles sid =
     (let sorted = orderedTiles lc tiles in
      case find (\<lambda>t. session_id t = sid) sorted of
        None \<Rightarrow> sorted
      | Some removed \<Rightarrow>
          orderedTiles lc (absorb_m removed (filter (\<lambda>t. session_id t \<noteq> sid) sorted)))"

subsection \<open>Split trees\<close>

text \<open>As for the web client, \<open>fl\<close> is the rounding of each floating-point operation.\<close>

record float_rect =
  fx0 :: rat
  fy0 :: rat
  fx1 :: rat
  fy1 :: rat

fun splitLeaves ::
  "(rat \<Rightarrow> rat) \<Rightarrow> split_node \<Rightarrow> float_rect \<Rightarrow> (string \<times> float_rect) list \<Rightarrow> (string \<times> float_rect) list" where
  "splitLeaves fl (Pane agent_id) r leaves =
     (if length leaves \<ge> MAX_TILES then leaves else leaves @ [(agent_id, r)])"
| "splitLeaves fl (Split Row ratio a b) r leaves =
     (if length leaves \<ge> MAX_TILES then leaves
      else let split = split_at fl ratio (fx0 r) (fx1 r) in
        splitLeaves fl b (r\<lparr>fx0 := split\<rparr>) (splitLeaves fl a (r\<lparr>fx1 := split\<rparr>) leaves))"
| "splitLeaves fl (Split Column ratio a b) r leaves =
     (if length leaves \<ge> MAX_TILES then leaves
      else let split = split_at fl ratio (fy0 r) (fy1 r) in
        splitLeaves fl b (r\<lparr>fy0 := split\<rparr>) (splitLeaves fl a (r\<lparr>fy1 := split\<rparr>) leaves))"

fun fallbackPlacement_loop ::
  "(string \<Rightarrow> string \<Rightarrow> int) \<Rightarrow> tile list \<Rightarrow> string list \<Rightarrow> tile list" where
  "fallbackPlacement_loop lc tiles [] = tiles"
| "fallbackPlacement_loop lc tiles (sid # ids) =
     (case autoPlace_m lc tiles of
        (None, _) \<Rightarrow> tiles
      | (Some spot, placed) \<Rightarrow>
          fallbackPlacement_loop lc (orderedTiles lc (placed @ [tile_at sid spot])) ids)"

definition fallbackPlacement :: "(string \<Rightarrow> string \<Rightarrow> int) \<Rightarrow> string list \<Rightarrow> tile list" where
  "fallbackPlacement lc ids = fallbackPlacement_loop lc [] ids"

definition leaf_tile :: "(rat \<Rightarrow> rat) \<Rightarrow> string \<times> float_rect \<Rightarrow> tile" where
  "leaf_tile fl leaf =
     (case leaf of (sid, r) \<Rightarrow>
        let x = roundHalfUp fl (fx0 r); y = roundHalfUp fl (fy0 r) in
        tile_at sid \<lparr>gx = x, gy = y, gw = roundHalfUp fl (fx1 r) - x, gh = roundHalfUp fl (fy1 r) - y\<rparr>)"

definition tilesFromSplitTree ::
  "(string \<Rightarrow> string \<Rightarrow> int) \<Rightarrow> (rat \<Rightarrow> rat) \<Rightarrow> split_node option \<Rightarrow> tile list" where
  "tilesFromSplitTree lc fl tree =
     (case tree of
        None \<Rightarrow> []
      | Some node \<Rightarrow>
          let leaves = splitLeaves fl node
                \<lparr>fx0 = 0, fy0 = 0, fx1 = of_int GRID_SIZE, fy1 = of_int GRID_SIZE\<rparr> [];
              tiles = map (leaf_tile fl) leaves
          in if vr_ok (validateGridLayout (layout_value tiles)) then orderedTiles lc tiles
             else fallbackPlacement lc (map fst leaves))"

end
