(* ===== verification/Mobile_Agrees.thy ===== *)
theory Mobile_Agrees
  imports Mobile_Tiles
begin

section \<open>The two clients agree on the grid\<close>

text \<open>
  \<open>mobile/src/data/layout/tiles.ts\<close> against \<open>web/src/lib/grid.ts\<close>: on a valid layout every
  operation of the mobile client returns what the web client's returns, tile by tile and in the same
  order, whatever the locale comparison does. Validation agrees on every value, valid or not.
\<close>

subsection \<open>Reading order and free placements\<close>

lemma overlaps_m_eq: "overlaps_m a b \<longleftrightarrow> overlaps b a"
  by (auto simp: overlaps_m_def overlaps_def)

lemma overlaps_m_same: "overlaps_m a b \<longleftrightarrow> overlaps a b"
  by (auto simp: overlaps_m_def overlaps_def)

lemma first_nonzero_reading:
  assumes "reading_key a \<noteq> reading_key b"
  shows "first_nonzero [gy a - gy b, gx a - gx b, d] \<le> 0 \<longleftrightarrow> reading_key a \<le> reading_key b"
  using assms by (auto simp: reading_key_def first_nonzero.simps)

lemma orderedTiles_eq:
  assumes "valid_tiles ts"
  shows "orderedTiles lc ts = sortTiles ts"
  unfolding orderedTiles_def sortTiles_def
proof (rule sort_by_key, unfold sorted_wrt_iff_nth_less, intro allI impI)
  fix i j assume ij: "i < j" "j < length ts"
  then have "session_id (ts ! i) \<noteq> session_id (ts ! j)"
    using valid_tiles_nth(2) [OF assms, of i j] by simp
  then have "reading_key (ts ! i) \<noteq> reading_key (ts ! j)"
    using reading_key_inj [OF assms, of "ts ! i" "ts ! j"] ij by auto
  then show "first_nonzero [gy (ts ! i) - gy (ts ! j), gx (ts ! i) - gx (ts ! j),
      lc (session_id (ts ! i)) (session_id (ts ! j))] \<le> 0 \<longleftrightarrow> reading_key (ts ! i) \<le> reading_key (ts ! j)"
    by (rule first_nonzero_reading)
qed

lemma orderedTiles_mset:
  assumes "valid_tiles us" "mset ts = mset us"
  shows "orderedTiles lc ts = sortTiles us"
  using assms orderedTiles_eq [of ts lc] sortTiles_mset [of us ts] valid_tiles_mset [of ts us] by simp

lemma placementFree_None: "placementFree r ts None = fitsAt ts r (-1)"
  by (auto simp: placementFree_def fitsAt_all overlaps_m_eq list_all_iff)

lemma placementFree_skip:
  assumes "distinct (map session_id ts)" "i < length ts" "sid = session_id (ts ! i)"
  shows "placementFree r ts (Some sid) = fitsAt ts r (int i)"
proof -
  have "session_id (ts ! j) = sid \<longleftrightarrow> j = i" if "j < length ts" for j
    using assms that nth_eq_iff_index_eq [OF assms(1), of j i] by auto
  then show ?thesis
    by (auto simp: placementFree_def fitsAt_skip overlaps_m_eq list_all_length)
qed

lemma placementFree_others:
  "placementFree r ts (Some sid) = fitsAt (others_of sid ts) r (-1)"
  by (auto simp: placementFree_def fitsAt_all others_of_def overlaps_m_eq list_all_iff)

subsection \<open>Placement\<close>

lemma widen_eq:
  assumes "\<forall>t \<in> set ts. 0 < gw t" "0 \<le> w" "fitsAt ts \<lparr>gx = x, gy = y, gw = w, gh = 4\<rparr> (-1)"
  shows "widen ts x y w = grow_w ts x y w"
  using assms
proof (induction ts x y w rule: widen.induct)
  case (1 ts x y w)
  have free: "placementFree \<lparr>gx = x, gy = y, gw = w + 1, gh = 4\<rparr> ts None \<longleftrightarrow>
      fitsAt ts \<lparr>gx = x + w, gy = y, gw = 1, gh = 4\<rparr> (-1)"
    using "1.prems" overlaps_extend_right [of _ w x y 4]
    by (fastforce simp: placementFree_None fitsAt_all)
  show ?case
  proof (cases "x + w < 24 \<and> placementFree \<lparr>gx = x, gy = y, gw = w + 1, gh = 4\<rparr> ts None")
    case True
    then have "widen ts x y (w + 1) = grow_w ts x y (w + 1)"
      using "1.IH" "1.prems" by (simp add: placementFree_None)
    with True free show ?thesis
      by (simp add: widen.simps [of ts x y w] grow_w.simps [of ts x y w])
  next
    case False
    with free show ?thesis by (auto simp: widen.simps [of ts x y w] grow_w.simps [of ts x y w])
  qed
qed

lemma heighten_eq:
  assumes "\<forall>t \<in> set ts. 0 < gh t" "0 \<le> h" "fitsAt ts \<lparr>gx = x, gy = y, gw = w, gh = h\<rparr> (-1)"
  shows "heighten ts x y w h = grow_h ts x y w h"
  using assms
proof (induction ts x y w h rule: heighten.induct)
  case (1 ts x y w h)
  have free: "placementFree \<lparr>gx = x, gy = y, gw = w, gh = h + 1\<rparr> ts None \<longleftrightarrow>
      fitsAt ts \<lparr>gx = x, gy = y + h, gw = w, gh = 1\<rparr> (-1)"
    using "1.prems" overlaps_extend_down [of _ h x y w]
    by (fastforce simp: placementFree_None fitsAt_all)
  show ?case
  proof (cases "y + h < 24 \<and> placementFree \<lparr>gx = x, gy = y, gw = w, gh = h + 1\<rparr> ts None")
    case True
    then have "heighten ts x y w (h + 1) = grow_h ts x y w (h + 1)"
      using "1.IH" "1.prems" by (simp add: placementFree_None)
    with True free show ?thesis
      by (simp add: heighten.simps [of ts x y w h] grow_h.simps [of ts x y w h])
  next
    case False
    with free show ?thesis
      by (auto simp: heighten.simps [of ts x y w h] grow_h.simps [of ts x y w h])
  qed
qed

text \<open>The free-space part of the placement does not see the order of the tiles.\<close>

lemma fitsAt_sort [simp]: "fitsAt (sortTiles ts) r (-1) = fitsAt ts r (-1)"
  by (simp add: fitsAt_all)

lemma grow_w_sort [simp]: "grow_w (sortTiles ts) x y w = grow_w ts x y w"
proof (induction ts x y w rule: grow_w.induct)
  case (1 ts x y w)
  then show ?case
    by (simp add: grow_w.simps [of "sortTiles ts" x y w] grow_w.simps [of ts x y w])
qed

lemma grow_h_sort [simp]: "grow_h (sortTiles ts) x y w h = grow_h ts x y w h"
proof (induction ts x y w h rule: grow_h.induct)
  case (1 ts x y w h)
  then show ?case
    by (simp add: grow_h.simps [of "sortTiles ts" x y w h] grow_h.simps [of ts x y w h])
qed

lemma sortTiles_idem [simp]: "sortTiles (sortTiles ts) = sortTiles ts"
  by (simp add: sortTiles_def sort_key_id_if_sorted)

lemma autoPlace_sort: "autoPlace (sortTiles ts) = autoPlace ts"
  unfolding autoPlace_def length_sortTiles fitsAt_sort sortTiles_idem grow_w_sort grow_h_sort ..

lemma better_victim_eq: "better_victim = best_step (\<lambda>t. max (gw t) (gh t) \<ge> 8) (\<lambda>t. gw t * gh t)"
  by (intro ext) (auto simp: better_victim_def best_step_def split: option.splits)

lemma first_nonzero_lex:
  "first_nonzero [m - n, gy a - gy b, gx a - gx b] \<le> 0 \<longleftrightarrow> (- n, reading_key a) \<le> (- m, reading_key b)"
  by (auto simp: reading_key_def first_nonzero.simps)

lemma split_victim_eq:
  assumes "valid_tiles ts"
  shows "split_victim (sortTiles ts) =
    (case sort_by (\<lambda>a b. first_nonzero [gw b * gh b - gw a * gh a, gy a - gy b, gx a - gx b])
        (filter (\<lambda>t. max (gw t) (gh t) \<ge> MIN_TILE_SIZE * 2) (sortTiles ts)) of
       [] \<Rightarrow> None | v # vs \<Rightarrow> Some v)"
proof -
  let ?fs = "filter (\<lambda>t. max (gw t) (gh t) \<ge> 8) (sortTiles ts)"
  have "sort_by (\<lambda>a b. first_nonzero [gw b * gh b - gw a * gh a, gy a - gy b, gx a - gx b]) ?fs =
      sort_key (\<lambda>t. (- (gw t * gh t), reading_key t)) ?fs"
    by (rule sort_by_key) (simp add: first_nonzero_lex sorted_wrt_iff_nth_less)
  moreover have "split_victim (sortTiles ts) =
      (case sort_key (\<lambda>t. (- (gw t * gh t), reading_key t)) ?fs of [] \<Rightarrow> None | v # vs \<Rightarrow> Some v)"
    unfolding split_victim_def better_victim_eq
    by (rule best_fold_sort) (simp_all add: sorted_sortTiles inj_on_reading_key assms)
  ultimately show ?thesis by simp
qed

lemma halve_m_eq: "halve_m t = halve t"
proof -
  have "n - ceil_half n = n div 2" for n by (simp add: ceil_half_def)
  then show ?thesis by (simp add: halve_m_def halve_def)
qed

lemma map_replace_update:
  assumes "distinct (map session_id ts)" "k < length ts"
  shows "map (\<lambda>t. if session_id t = session_id (ts ! k) then u else t) ts = ts[k := u]"
proof (rule nth_equalityI)
  fix i assume "i < length (map (\<lambda>t. if session_id t = session_id (ts ! k) then u else t) ts)"
  then show "map (\<lambda>t. if session_id t = session_id (ts ! k) then u else t) ts ! i = ts[k := u] ! i"
    using assms nth_eq_iff_index_eq [OF assms(1), of i k] by (auto simp: nth_list_update)
qed simp

lemma free_square_eq:
  assumes "valid_tiles ts" "(x, y) \<in> set scan_spots" "fitsAt ts (square_at x y) (-1)"
  shows "widen (sortTiles ts) x y 4 = grow_w ts x y 4"
    "heighten (sortTiles ts) x y (grow_w ts x y 4) 4 = grow_h ts x y (grow_w ts x y 4) 4"
proof -
  have pos: "\<forall>t \<in> set (sortTiles ts). 0 < gw t" "\<forall>t \<in> set (sortTiles ts). 0 < gh t"
    using valid_positive [OF assms(1)] by auto
  have sq: "fitsAt ts \<lparr>gx = x, gy = y, gw = 4, gh = 4\<rparr> (-1)"
    using assms(3) by (simp add: square_at_def)
  then show "widen (sortTiles ts) x y 4 = grow_w ts x y 4"
    using widen_eq [OF pos(1), of 4 x y] by simp
  have "x \<le> 20" using assms(2) by (simp add: scan_spots_set)
  then have "fitsAt ts \<lparr>gx = x, gy = y, gw = grow_w ts x y 4, gh = 4\<rparr> (-1)"
    using grow_w_spec [of ts 4 x y] sq valid_positive [OF assms(1)] by simp
  then show "heighten (sortTiles ts) x y (grow_w ts x y 4) 4 = grow_h ts x y (grow_w ts x y 4) 4"
    using heighten_eq [OF pos(2), of 4 x y "grow_w ts x y 4"] by simp
qed

lemma autoPlace_m_eq:
  assumes "valid_tiles ts"
  shows "autoPlace_m lc ts = autoPlace ts"
proof -
  let ?s = "sortTiles ts"
  have ord: "orderedTiles lc ts = ?s" using assms by (rule orderedTiles_eq)
  let ?spot = "find (\<lambda>(x, y). fitsAt ts (square_at x y) (-1)) scan_spots"
  have find: "find (\<lambda>(x, y). placementFree (square_at x y) ?s None) scan_spots = ?spot"
    by (simp add: placementFree_None)
  consider "length ts \<ge> 16" | xy where "length ts < 16" "?spot = Some xy"
    | "length ts < 16" "?spot = None" by fastforce
  then show ?thesis
  proof cases
    case 1
    then show ?thesis by (simp add: autoPlace_m_def autoPlace_def ord)
  next
    case 2
    obtain x y where xy: "xy = (x, y)" by fastforce
    then have "(x, y) \<in> set scan_spots" "fitsAt ts (square_at x y) (-1)"
      using find_Some_in [OF 2(2)] by auto
    from free_square_eq [OF assms this] 2 xy find show ?thesis
      by (simp add: autoPlace_m_def autoPlace_def ord)
  next
    case 3
    show ?thesis
    proof (cases "split_victim ?s")
      case None
      with split_victim_eq [OF assms] 3 find show ?thesis
        by (simp add: autoPlace_m_def autoPlace_def ord split: list.splits)
    next
      case (Some v)
      then have v: "v \<in> set ?s" "8 \<le> max (gw v) (gh v)" using split_victim_Some by blast+
      have "find_index (\<lambda>t. session_id t = session_id v) ?s \<noteq> None"
        using v(1) by (auto simp: find_index_None)
      then obtain k where k: "find_index (\<lambda>t. session_id t = session_id v) ?s = Some k" by blast
      have kl: "k < length ?s" "session_id (?s ! k) = session_id v" using find_index_Some [OF k] by auto
      have d: "distinct (map session_id ?s)" using valid_tilesD(2) [OF assms] by simp
      have kv: "?s ! k = v"
        using d kl v(1) nth_mem [OF kl(1)] by (metis (no_types, lifting) distinct_map inj_onD)
      obtain kept spot where h: "halve v = (kept, spot)" by fastforce
      have upd: "map (\<lambda>t. if session_id t = session_id v then kept else t) ?s = ?s[k := kept]"
        using map_replace_update [OF d kl(1), of kept] kv by simp
      have "valid_tiles (?s[k := kept])"
        using valid_tiles_halved [of ?s k kept spot] assms kl(1) v(2) h kv by simp
      then have "orderedTiles lc (?s[k := kept]) = sortTiles (?s[k := kept])" by (rule orderedTiles_eq)
      moreover obtain vs where
        "sort_by (\<lambda>a b. first_nonzero [gw b * gh b - gw a * gh a, gy a - gy b, gx a - gx b])
           (filter (\<lambda>t. max (gw t) (gh t) \<ge> MIN_TILE_SIZE * 2) ?s) = v # vs"
        using split_victim_eq [OF assms] Some by (auto split: list.splits)
      ultimately show ?thesis using 3 find Some k kv h upd
        by (simp add: autoPlace_m_def autoPlace_def ord halve_m_eq)
    qed
  qed
qed

lemma addTile_eq:
  assumes "valid_tiles ts" "session_id t \<noteq> []" "session_id t \<notin> session_id ` set ts"
  shows "addTile lc ts t =
    (case autoPlace ts of (None, _) \<Rightarrow> None
     | (Some spot, us) \<Rightarrow> Some (sortTiles (us @ [with_rect t spot])))"
proof (cases "fst (autoPlace ts)")
  case None
  then show ?thesis by (cases "autoPlace ts") (simp add: addTile_def autoPlace_m_eq [OF assms(1)])
next
  case (Some spot)
  then obtain us where us: "autoPlace ts = (Some spot, us)" by (cases "autoPlace ts") simp
  have "valid_tiles (us @ [with_rect t spot])"
    using auto.place_snoc(1) [OF assms(1) us, of "with_rect t spot"] assms(2,3)
    by (simp add: rect_of_def)
  then show ?thesis
    using us by (simp add: addTile_def autoPlace_m_eq [OF assms(1)] orderedTiles_eq)
qed

subsection \<open>Moving\<close>

lemma intersectionArea_m_eq:
  assumes "overlaps_m r t"
  shows "intersectionArea_m r t = intersectionArea r t"
  using assms by (auto simp: intersectionArea_m_def intersectionArea_def overlaps_m_def Let_def)

lemma more_covered_fold_best:
  assumes "case v of None \<Rightarrow> a = 0 | Some u \<Rightarrow> a = intersectionArea m u \<and> a > 0"
  shows "fst (foldl (more_covered m) (v, a) ts) =
    foldl (best_step (\<lambda>t. intersectionArea m t > 0) (intersectionArea m)) v ts"
  using assms
proof (induction ts arbitrary: v a)
  case (Cons t ts)
  let ?b = "best_step (\<lambda>t. intersectionArea m t > 0) (intersectionArea m) v t"
  let ?c = "more_covered m (v, a) t"
  have "fst ?c = ?b \<and>
      (case ?b of None \<Rightarrow> snd ?c = 0 | Some u \<Rightarrow> snd ?c = intersectionArea m u \<and> snd ?c > 0)"
    using Cons.prems by (cases v) (auto simp: more_covered_def best_step_def Let_def)
  with Cons.IH [of "snd ?c" ?b] show ?case by (cases ?c) simp
qed simp

lemma swap_victim_eq:
  assumes "valid_tiles ts" "valid_rect m"
  shows "swap_victim m (others_of sid (sortTiles ts)) =
    (case sort_by (\<lambda>a b. first_nonzero
        [intersectionArea_m m b - intersectionArea_m m a, gy a - gy b, gx a - gx b])
        (filter (\<lambda>t. session_id t \<noteq> sid \<and> overlaps_m m t) (sortTiles ts)) of
       [] \<Rightarrow> None | v # vs \<Rightarrow> Some v)"
proof -
  let ?os = "others_of sid (sortTiles ts)"
  let ?fs = "filter (\<lambda>t. session_id t \<noteq> sid \<and> overlaps_m m t) (sortTiles ts)"
  have pos: "intersectionArea m t > 0 \<longleftrightarrow> overlaps_m m t" if "t \<in> set ?os" for t
    using that valid_positive [OF assms(1), of t] valid_rect_pos [OF assms(2)]
    by (auto simp: intersectionArea_pos overlaps_m_same others_of_def)
  have fs: "filter (\<lambda>t. intersectionArea m t > 0) ?os = ?fs"
  proof -
    have "filter (\<lambda>t. intersectionArea m t > 0) ?os = filter (overlaps_m m) ?os"
      using pos by (rule filter_cong [OF refl])
    then show ?thesis by (simp add: others_of_def conj_commute)
  qed
  have "sort_by (\<lambda>a b. first_nonzero
      [intersectionArea_m m b - intersectionArea_m m a, gy a - gy b, gx a - gx b]) ?fs =
      sort_key (\<lambda>t. (- intersectionArea m t, reading_key t)) ?fs"
  proof (rule sort_by_key, unfold sorted_wrt_iff_nth_less, intro allI impI)
    fix i j assume "i < j" "j < length ?fs"
    then have "?fs ! i \<in> set ?fs" "?fs ! j \<in> set ?fs" by (simp_all only: nth_mem)
    then have "intersectionArea_m m (?fs ! i) = intersectionArea m (?fs ! i)"
        "intersectionArea_m m (?fs ! j) = intersectionArea m (?fs ! j)"
      by (simp_all add: intersectionArea_m_eq)
    then show "first_nonzero [intersectionArea_m m (?fs ! j) - intersectionArea_m m (?fs ! i),
        gy (?fs ! i) - gy (?fs ! j), gx (?fs ! i) - gx (?fs ! j)] \<le> 0 \<longleftrightarrow>
      (- intersectionArea m (?fs ! i), reading_key (?fs ! i)) \<le>
      (- intersectionArea m (?fs ! j), reading_key (?fs ! j))"
      by (simp only: first_nonzero_lex)
  qed
  moreover have "swap_victim m ?os =
      (case sort_key (\<lambda>t. (- intersectionArea m t, reading_key t))
         (filter (\<lambda>t. intersectionArea m t > 0) ?os) of [] \<Rightarrow> None | v # vs \<Rightarrow> Some v)"
    unfolding swap_victim_def more_covered_fold_best [where v = None and a = 0, simplified]
    using sorted_sortTiles [of ts] inj_on_reading_key [OF assms(1)]
    by (intro best_fold_sort) (auto simp: others_of_def sorted_filter inj_on_def)
  ultimately show ?thesis by (simp only: fs)
qed

text \<open>Replacing one tile in place, or dropping it and putting the new one in front.\<close>

lemma mset_map_one:
  assumes "distinct (map session_id ts)" "t \<in> set ts"
  shows "mset (map (\<lambda>u. if session_id u = session_id t then f u else u) ts) =
    mset (f t # others_of (session_id t) ts)"
proof -
  have "mset ts = add_mset t (mset (others_of (session_id t) ts))"
    using assms by (rule mset_others_of)
  then have "mset (map (\<lambda>u. if session_id u = session_id t then f u else u) ts) =
      add_mset (f t) (image_mset (\<lambda>u. if session_id u = session_id t then f u else u)
        (mset (others_of (session_id t) ts)))"
    by simp
  also have "image_mset (\<lambda>u. if session_id u = session_id t then f u else u)
      (mset (others_of (session_id t) ts)) = image_mset (\<lambda>u. u) (mset (others_of (session_id t) ts))"
    by (rule image_mset_cong) (simp add: others_of_def)
  finally show ?thesis by simp
qed

lemma moveTile_eq:
  assumes "valid_tiles ts"
  shows "moveTile lc ts sid x y = move ts sid x y"
proof (cases "find (\<lambda>t. session_id t = sid) (sortTiles ts)")
  case None
  then show ?thesis by (simp add: moveTile_def move_def orderedTiles_eq [OF assms])
next
  case (Some t)
  let ?s = "sortTiles ts"
  let ?m = "move_target t x y"
  let ?r = "\<lparr>gx = min (max 0 x) (24 - gw t), gy = min (max 0 y) (24 - gh t), gw = gw t, gh = gh t\<rparr>"
  have t: "t \<in> set ?s" "session_id t = sid" using find_Some_in [OF Some] by auto
  have m: "valid_rect ?m" "rect_of ?m = ?r"
    using move_target_valid valid_tilesD(4) [OF assms] t(1)
    by (auto simp: rect_of_def move_target_def clamp_def min.commute)
  have same: "overlaps_m ?r u = overlaps_m ?m u" "intersectionArea_m ?r u = intersectionArea_m ?m u"
    for u :: tile
    unfolding m(2) [symmetric] by (simp_all add: overlaps_m_def intersectionArea_m_def)
  have corner: "gx ?m = min (max 0 x) (24 - gw t)" "gy ?m = min (max 0 y) (24 - gh t)"
    by (simp_all add: move_target_def clamp_def min.commute)
  have fits: "fitsAt (others_of sid ?s) ?m (-1) \<longleftrightarrow>
      filter (\<lambda>u. session_id u \<noteq> sid \<and> overlaps_m ?m u) ?s = []"
    by (auto simp: fitsAt_all overlaps_m_eq others_of_def filter_empty_conv)
  let ?vs = "sort_by (\<lambda>a b. first_nonzero
        [intersectionArea_m ?m b - intersectionArea_m ?m a, gy a - gy b, gx a - gx b])
        (filter (\<lambda>u. session_id u \<noteq> sid \<and> overlaps_m ?m u) ?s)"
  note victim = swap_victim_eq [OF assms m(1), of sid]
  have mob: "moveTile lc ts sid x y =
      (case ?vs of
        [] \<Rightarrow> orderedTiles lc
            (map (\<lambda>u. if session_id u = sid then u\<lparr>gx := gx ?m, gy := gy ?m\<rparr> else u) ?s)
      | v # _ \<Rightarrow> orderedTiles lc (map (\<lambda>u. if session_id u = sid then with_rect u v
            else if session_id u = session_id v then with_rect u t else u) ?s))"
    unfolding moveTile_def orderedTiles_eq [OF assms] Some Let_def option.case
    by (simp add: same corner cong: list.case_cong if_cong)
  show ?thesis
  proof (cases ?vs)
    case Nil
    then have "fitsAt (others_of sid ?s) ?m (-1)" using fits by simp
    then have mv: "move ts sid x y = sortTiles (?m # others_of sid ?s)"
      using Some by (simp add: move_def)
    have "mset (map (\<lambda>u. if session_id u = sid then u\<lparr>gx := gx ?m, gy := gy ?m\<rparr> else u) ?s) =
        mset (?m # others_of sid ?s)"
      using mset_map_one [of ?s t "\<lambda>u. u\<lparr>gx := gx ?m, gy := gy ?m\<rparr>"] t valid_tilesD(2) [OF assms]
      by (simp add: move_target_def)
    moreover have "valid_tiles (?m # others_of sid ?s)"
      using move_valid_content [OF assms, of sid x y] unfolding mv valid_sortTiles by blast
    ultimately show ?thesis unfolding mv mob Nil list.case by (intro orderedTiles_mset)
  next
    case (Cons v vs)
    with victim have v: "swap_victim ?m (others_of sid ?s) = Some v" by simp
    have "\<not> fitsAt (others_of sid ?s) ?m (-1)"
    proof
      assume "fitsAt (others_of sid ?s) ?m (-1)"
      then have "?vs = []" using fits by simp
      with Cons show False by simp
    qed
    with v Some have mv: "move ts sid x y = sortTiles (map (\<lambda>u. if session_id u = sid then with_rect u v
            else if session_id u = session_id v then with_rect u t else u) ?s)"
      by (simp add: move_def)
    then have "valid_tiles (map (\<lambda>u. if session_id u = sid then with_rect u v
            else if session_id u = session_id v then with_rect u t else u) ?s)"
      using move_valid_content [OF assms, of sid x y] unfolding mv valid_sortTiles by blast
    then show ?thesis unfolding mv mob Cons list.case by (rule orderedTiles_eq)
  qed
qed

subsection \<open>Resizing and compacting\<close>

lemma resizeTile_eq:
  assumes "valid_tiles ts"
  shows "resizeTile lc ts sid w h = resize ts sid w h"
proof (cases "find (\<lambda>t. session_id t = sid) (sortTiles ts)")
  case None
  then show ?thesis by (simp add: resizeTile_def resize_def orderedTiles_eq [OF assms])
next
  case (Some t)
  let ?s = "sortTiles ts"
  let ?r = "resize_target t w h"
  have t: "t \<in> set ?s" "session_id t = sid" using find_Some_in [OF Some] by auto
  have target: "t\<lparr>gw := min (max MIN_TILE_SIZE w) (GRID_SIZE - gx t),
      gh := min (max MIN_TILE_SIZE h) (GRID_SIZE - gy t)\<rparr> = ?r"
    by (simp add: resize_target_def clamp_def min.commute)
  have mob: "resizeTile lc ts sid w h =
      (if \<not> fitsAt (others_of sid ?s) ?r (-1) then ?s
       else orderedTiles lc (map (\<lambda>c. if session_id c = sid then ?r else c) ?s))"
    unfolding resizeTile_def orderedTiles_eq [OF assms] Some Let_def option.case target
      placementFree_others ..
  show ?thesis
  proof (cases "fitsAt (others_of sid ?s) ?r (-1)")
    case True
    then have rs: "resize ts sid w h = sortTiles (?r # others_of sid ?s)"
      using Some by (simp add: resize_def)
    have "mset (map (\<lambda>c. if session_id c = sid then ?r else c) ?s) = mset (?r # others_of sid ?s)"
      using mset_map_one [of ?s t "\<lambda>_. ?r"] t valid_tilesD(2) [OF assms] by simp
    moreover have "valid_tiles (?r # others_of sid ?s)"
      using resize_valid_content [OF assms, of sid w h] unfolding rs valid_sortTiles by blast
    ultimately show ?thesis using True mob rs orderedTiles_mset by simp
  next
    case False
    then show ?thesis using Some mob by (simp add: resize_def)
  qed
qed

lemma rise_eq:
  assumes "distinct (map session_id ts)" "i < length ts" "session_id t = session_id (ts ! i)"
  shows "rise ts t = slide_up ts i t"
  using assms
proof (induction ts t rule: rise.induct)
  case (1 ts t)
  have free: "placementFree (t\<lparr>gy := gy t - 1\<rparr>) ts (Some (session_id t)) =
      fitsAt ts \<lparr>gx = gx t, gy = gy t - 1, gw = gw t, gh = gh t\<rparr> (int i)"
    using placementFree_skip [OF "1.prems", of "t\<lparr>gy := gy t - 1\<rparr>"]
    by (simp add: fitsAt_def overlaps_def)
  show ?case
  proof (cases "gy t > 0 \<and> placementFree (t\<lparr>gy := gy t - 1\<rparr>) ts (Some (session_id t))")
    case True
    with "1.IH" [OF True] "1.prems" free show ?thesis
      by (simp add: rise.simps [of ts t] slide_up.simps [of ts i t])
  next
    case False
    with free show ?thesis by (auto simp: rise.simps [of ts t] slide_up.simps [of ts i t])
  qed
qed

lemma shift_left_eq:
  assumes "distinct (map session_id ts)" "i < length ts" "session_id t = session_id (ts ! i)"
  shows "shift_left ts t = slide_left ts i t"
  using assms
proof (induction ts t rule: shift_left.induct)
  case (1 ts t)
  have free: "placementFree (t\<lparr>gx := gx t - 1\<rparr>) ts (Some (session_id t)) =
      fitsAt ts \<lparr>gx = gx t - 1, gy = gy t, gw = gw t, gh = gh t\<rparr> (int i)"
    using placementFree_skip [OF "1.prems", of "t\<lparr>gx := gx t - 1\<rparr>"]
    by (simp add: fitsAt_def overlaps_def)
  show ?case
  proof (cases "gx t > 0 \<and> placementFree (t\<lparr>gx := gx t - 1\<rparr>) ts (Some (session_id t))")
    case True
    with "1.IH" [OF True] "1.prems" free show ?thesis
      by (simp add: shift_left.simps [of ts t] slide_left.simps [of ts i t])
  next
    case False
    with free show ?thesis by (auto simp: shift_left.simps [of ts t] slide_left.simps [of ts i t])
  qed
qed

lemma session_id_slide_up [simp]: "session_id (slide_up ts i t) = session_id t"
proof (induction ts i t rule: slide_up.induct)
  case (1 ts i t)
  then show ?case by (simp add: slide_up.simps [of ts i t])
qed

lemma settle_fold_eq:
  assumes "valid_tiles ts" "\<forall>i \<in> set is. i < length ts"
  shows "foldl (\<lambda>res i. res[i := shift_left res (rise res (res ! i))]) ts is = foldl settle ts is"
  using assms
proof (induction "is" arbitrary: ts)
  case (Cons i "is")
  have i: "i < length ts" using Cons.prems(2) by simp
  have d: "distinct (map session_id ts)" using Cons.prems(1) by (rule valid_tilesD(2))
  have "ts[i := shift_left ts (rise ts (ts ! i))] = settle ts i"
    using rise_eq [OF d i refl] shift_left_eq [OF d i, of "slide_up ts i (ts ! i)"]
    by (simp add: settle_def)
  moreover have "valid_tiles (settle ts i)" using settle_spec [OF Cons.prems(1) i] by blast
  moreover have "length (settle ts i) = length ts" by (simp add: settle_def)
  ultimately show ?case using Cons.IH [of "settle ts i"] Cons.prems(2) by simp
qed simp

lemma compactTiles_eq:
  assumes "valid_tiles ts"
  shows "compactTiles lc ts = compact_tiles ts"
proof -
  let ?s = "sortTiles ts"
  have v: "valid_tiles ?s" using assms by simp
  have "foldl (\<lambda>res i. res[i := shift_left res (rise res (res ! i))]) ?s [0..<length ?s] =
      foldl settle ?s [0..<length ?s]"
    by (rule settle_fold_eq [OF v]) simp
  moreover have "valid_tiles (foldl settle ?s [0..<length ?s])"
    using settle_fold [OF v, of "[0..<length ?s]"] by simp
  ultimately show ?thesis
    by (simp add: compactTiles_def compact_tiles_def orderedTiles_eq assms)
qed

subsection \<open>Removing\<close>

lemma grow_steps_eq:
  "grow_steps t = map (\<lambda>d. (gainedStrip t d, rect_of (growOne t d))) [GRight, GDown, GLeft, GUp]"
  by (simp add: grow_steps_def rect_of_def)

lemma with_rect_growOne: "with_rect t (rect_of (growOne t d)) = growOne t d"
  by (cases d) (simp_all add: with_rect_def)

lemma find_map: "find p (map f xs) = map_option f (find (p \<circ> f) xs)"
  by (induction xs) auto

lemma try_grow_m_eq:
  assumes "distinct (map session_id ts)" "i < length ts"
  shows "try_grow_m removed (ts, g) i = try_grow (rect_of removed) (ts, g) i"
proof -
  have "can_step (rect_of removed) ts i \<circ> (\<lambda>d. (gainedStrip (ts ! i) d, rect_of (growOne (ts ! i) d))) =
      (\<lambda>d. inside (gainedStrip (ts ! i) d) removed \<and>
         placementFree (growOne (ts ! i) d) ts (Some (session_id (ts ! i))))"
    using placementFree_skip [OF assms refl]
    by (auto simp: fun_eq_iff can_step_def inside_def contains_def fitsAt_def)
  then have "find (can_step (rect_of removed) ts i) (grow_steps (ts ! i)) =
      map_option (\<lambda>d. (gainedStrip (ts ! i) d, rect_of (growOne (ts ! i) d)))
       (find (\<lambda>d. inside (gainedStrip (ts ! i) d) removed \<and>
          placementFree (growOne (ts ! i) d) ts (Some (session_id (ts ! i))))
          [GRight, GDown, GLeft, GUp])"
    unfolding grow_steps_eq find_map by (simp only:)
  then show ?thesis
    unfolding try_grow_m_def try_grow_def Let_def
    by (simp add: with_rect_growOne split: option.split del: find.simps)
qed

lemma grow_fold_eq:
  assumes "valid_tiles ts" "valid_rect removed" "\<forall>i \<in> set is. i < length ts"
  shows "foldl (try_grow_m removed) (ts, g) is = foldl (try_grow (rect_of removed)) (ts, g) is"
  using assms
proof (induction "is" arbitrary: ts g)
  case (Cons i "is")
  have i: "i < length ts" using Cons.prems(3) by simp
  obtain us g' where s: "try_grow (rect_of removed) (ts, g) i = (us, g')" by fastforce
  have "valid_tiles us" using try_grow_valid [OF Cons.prems(1) _ i s] Cons.prems(2) by simp
  moreover have "length us = length ts" using try_grow_room [OF i s] by blast
  ultimately show ?case
    using Cons.IH [of us g'] Cons.prems(2,3) s try_grow_m_eq [OF valid_tilesD(2) [OF Cons.prems(1)] i]
    by simp
qed simp

lemma absorb_m_eq:
  assumes "valid_tiles ts" "valid_rect removed"
  shows "absorb_m removed ts = absorb (rect_of removed) ts"
  using assms
proof (induction removed ts rule: absorb_m.induct)
  case (1 removed ts)
  have pass: "grow_pass_m removed ts = grow_pass (rect_of removed) ts"
    using grow_fold_eq [OF "1.prems", of "[0..<length ts]" False]
    by (simp add: grow_pass_m_def grow_pass_def)
  obtain us g where p: "grow_pass_m removed ts = (us, g)" by fastforce
  have "valid_tiles us"
    using grow_fold_valid [OF "1.prems"(1), of "rect_of removed" "[0..<length ts]" False us g]
      "1.prems"(2) p pass by (simp add: grow_pass_def)
  with "1.IH" [OF p [symmetric]] "1.prems"(2) p pass show ?case
    by (simp add: absorb_m.simps [of removed ts] absorb.simps [of "rect_of removed" ts])
qed

lemma removeTile_eq:
  assumes "valid_tiles ts"
  shows "removeTile lc ts sid = remove ts sid"
proof (cases "find (\<lambda>t. session_id t = sid) (sortTiles ts)")
  case None
  then show ?thesis by (simp add: removeTile_def remove_def orderedTiles_eq [OF assms])
next
  case (Some t)
  let ?os = "others_of sid (sortTiles ts)"
  have t: "t \<in> set (sortTiles ts)" "session_id t = sid" using find_Some_in [OF Some] by auto
  then have v: "valid_rect t" "valid_tiles ?os" using valid_tilesD(4) [OF assms] assms by simp_all
  have "valid_tiles (absorb (rect_of t) ?os)"
    using absorb_spec [OF v(2), of "rect_of t"] v(1) by simp
  with Some absorb_m_eq [OF v(2,1)] show ?thesis
    by (simp add: removeTile_def remove_def orderedTiles_eq assms others_of_def [symmetric])
qed

subsection \<open>Split trees\<close>

lemma fallbackPlacement_loop_eq:
  assumes "valid_tiles ts" "distinct ids" "[] \<notin> set ids" "set ids \<inter> session_id ` set ts = {}"
  shows "fallbackPlacement_loop lc (sortTiles ts) ids = sortTiles (fallback_loop ts ids)"
  using assms
proof (induction ids arbitrary: ts)
  case (Cons sid ids)
  have auto: "autoPlace_m lc (sortTiles ts) = autoPlace ts"
    using autoPlace_m_eq [of "sortTiles ts" lc] Cons.prems(1) by (simp add: autoPlace_sort)
  show ?case
  proof (cases "fst (autoPlace ts)")
    case None
    with auto show ?thesis by (cases "autoPlace ts") simp
  next
    case (Some spot)
    then obtain us where us: "autoPlace ts = (Some spot, us)" by (cases "autoPlace ts") simp
    let ?us = "us @ [tile_at sid spot]"
    have "valid_tiles ?us"
      using auto.place_snoc(1) [OF Cons.prems(1) us, of "tile_at sid spot"] Cons.prems
      by (auto simp: rect_of_def)
    moreover have "session_id ` set us = session_id ` set ts"
      using auto.place_ids(1) [OF Cons.prems(1) us] .
    ultimately have "fallbackPlacement_loop lc (sortTiles ?us) ids = sortTiles (fallback_loop ?us ids)"
      using Cons.prems by (intro Cons.IH) auto
    with auto us orderedTiles_eq [OF \<open>valid_tiles ?us\<close>] show ?thesis by simp
  qed
qed simp

lemma fallbackPlacement_eq:
  assumes "distinct ids" "[] \<notin> set ids"
  shows "fallbackPlacement lc ids = fallbackPlace ids"
  using fallbackPlacement_loop_eq [of "[]" ids lc] assms
  by (simp add: fallbackPlacement_def fallbackPlace_def sortTiles_def)

lemma splitLeaves_eq:
  "map (leaf_tile fl) (splitLeaves fl node r ls) =
   map (leaf_tile fl) ls @ take (MAX_TILES - length ls)
     (assignRects fl node (fx0 r) (fy0 r) (fx1 r) (fy1 r))"
proof (induction fl node r ls rule: splitLeaves.induct)
  case (1 fl agent_id r leaves)
  then show ?case by (auto simp: leaf_tile_def Let_def take_Cons')
next
  case (2 fl ratio a b r leaves)
  let ?s = "split_at fl ratio (fx0 r) (fx1 r)"
  let ?as = "assignRects fl a (fx0 r) (fy0 r) ?s (fy1 r)"
  show ?case
  proof (cases "length leaves \<ge> MAX_TILES")
    case False
    have "length (splitLeaves fl a (r\<lparr>fx1 := ?s\<rparr>) leaves) =
        length leaves + min (MAX_TILES - length leaves) (length ?as)"
      using arg_cong [OF "2.IH"(1) [OF False refl], of length] by (simp add: min.commute)
    then have "16 - length (splitLeaves fl a (r\<lparr>fx1 := ?s\<rparr>) leaves) = 16 - length leaves - length ?as"
      using False by auto
    with False "2.IH" [OF False refl] show ?thesis by (simp add: Let_def)
  qed simp
next
  case (3 fl ratio a b r leaves)
  let ?s = "split_at fl ratio (fy0 r) (fy1 r)"
  let ?as = "assignRects fl a (fx0 r) (fy0 r) (fx1 r) ?s"
  show ?case
  proof (cases "length leaves \<ge> MAX_TILES")
    case False
    have "length (splitLeaves fl a (r\<lparr>fy1 := ?s\<rparr>) leaves) =
        length leaves + min (MAX_TILES - length leaves) (length ?as)"
      using arg_cong [OF "3.IH"(1) [OF False refl], of length] by (simp add: min.commute)
    then have "16 - length (splitLeaves fl a (r\<lparr>fy1 := ?s\<rparr>) leaves) = 16 - length leaves - length ?as"
      using False by auto
    with False "3.IH" [OF False refl] show ?thesis by (simp add: Let_def)
  qed simp
qed

lemma valid_rounded_ok: "valid_tiles ts \<Longrightarrow> rounded_ok ts"
proof (induction ts)
  case (Cons t ts)
  then show ?case
    by (auto simp: valid_tiles_Cons valid_rect_def dest: overlaps_sym [THEN iffD1])
qed simp

subsection \<open>Validation\<close>

lemma sid_geometry_errors: "sid_errors i c @ geometry_errors i c = tile_errors i c"
  by (auto simp: sid_errors_def geometry_errors_def tile_errors_def raw_sid_def in_bounds_def
      split: jsval.splits option.splits)

lemma map_enumerate: "map (\<lambda>(i, x). f i x) (enumerate k xs) = map (\<lambda>i. f (k + i) (xs ! i)) [0..<length xs]"
  by (rule nth_equalityI) (simp_all add: nth_enumerate_eq)

lemma raw_sid_cases: "raw_sid c = (case js_get c ''session_id'' of JStr s \<Rightarrow> if s = [] then None else Some s | _ \<Rightarrow> None)"
  by (auto simp: raw_sid_def split: jsval.split)

text \<open>An empty session id, which the two clients count differently among the duplicates.\<close>

definition empty_sid :: "jsval \<Rightarrow> bool" where
  "empty_sid c \<longleftrightarrow> js_get c ''session_id'' = JStr []"

lemma duplicate_errors_m_eq:
  assumes "\<forall>c \<in> set cs. \<not> empty_sid c"
  shows "duplicate_errors_m (enumerate k cs) seen = duplicate_errors k (map raw_sid cs) seen"
  using assms
proof (induction cs arbitrary: k seen)
  case (Cons c cs)
  then show ?case
    by (cases "js_get c ''session_id''")
      (auto simp: raw_sid_cases empty_sid_def split: option.split)
qed simp

fun pair_errors :: "nat \<Rightarrow> rect option list \<Rightarrow> layout_error list" where
  "pair_errors k [] = []"
| "pair_errors k (None # rs) = pair_errors (Suc k) rs"
| "pair_errors k (Some a # rs) =
     concat (map (\<lambda>(j, ro). case ro of None \<Rightarrow> []
       | Some b \<Rightarrow> if overlaps a b then [lerr E_overlap (Some k) (Some j)] else [])
       (enumerate (Suc k) rs)) @ pair_errors (Suc k) rs"

definition pair_error :: "nat \<Rightarrow> rect option list \<Rightarrow> nat \<Rightarrow> nat \<Rightarrow> layout_error list" where
  "pair_error k rs i j =
     (case (rs ! i, rs ! j) of
        (Some a, Some b) \<Rightarrow> if overlaps a b then [lerr E_overlap (Some (k + i)) (Some (k + j))] else []
      | _ \<Rightarrow> [])"

lemma pair_error_Suc: "pair_error k (r # rs) (Suc i) (Suc j) = pair_error (Suc k) rs i j"
  by (auto simp: pair_error_def split: option.split)

lemma overlap_errors_pair_error:
  "overlap_errors rs =
     concat (map (\<lambda>i. concat (map (pair_error 0 rs i) [Suc i..<length rs])) [0..<length rs])"
  unfolding overlap_errors_def
proof (intro arg_cong [where f = concat] map_cong refl)
  fix i
  show "(case rs ! i of None \<Rightarrow> []
      | Some a \<Rightarrow> concat (map (\<lambda>j. case rs ! j of None \<Rightarrow> []
          | Some b \<Rightarrow> if overlaps a b then [lerr E_overlap (Some i) (Some j)] else []) [Suc i..<length rs])) =
    concat (map (pair_error 0 rs i) [Suc i..<length rs])"
  proof (cases "rs ! i")
    case None
    then show ?thesis by (simp add: pair_error_def)
  next
    case (Some a)
    then have "pair_error 0 rs i = (\<lambda>j. case rs ! j of None \<Rightarrow> []
        | Some b \<Rightarrow> if overlaps a b then [lerr E_overlap (Some i) (Some j)] else [])"
      by (auto simp: pair_error_def fun_eq_iff split: option.split)
    with Some show ?thesis by simp
  qed
qed

lemma pair_errors_eq:
  "concat (map (\<lambda>i. concat (map (pair_error k rs i) [Suc i..<length rs])) [0..<length rs]) =
   pair_errors k rs"
proof (induction rs arbitrary: k)
  case (Cons r rs)
  have split: "[0..<length (r # rs)] = 0 # map Suc [0..<length rs]"
    by (simp add: upt_conv_Cons map_Suc_upt del: upt_Suc)
  have shift: "[Suc i..<length (r # rs)] = map Suc [i..<length rs]" for i by (simp add: map_Suc_upt)
  have head: "concat (map (pair_error k (r # rs) 0) (map Suc [0..<length rs])) @ pair_errors (Suc k) rs =
      pair_errors k (r # rs)"
    by (cases r) (simp_all add: map_enumerate comp_def pair_error_def concat_map_Nil
        del: concat_eq_Nil_conv cong: map_cong option.case_cong if_cong)
  show ?case
    unfolding split shift list.map concat.simps map_map comp_def pair_error_Suc
    using Cons.IH [of "Suc k"] head by (simp add: comp_def)
qed simp

lemma overlap_errors_m_eq:
  "overlap_errors_m (concat (map inspectable (enumerate k cs))) = pair_errors k (map tile_slot cs)"
proof (induction cs arbitrary: k)
  case (Cons c cs)
  have later: "concat (map (\<lambda>b. if overlaps_m a (snd b) then [lerr E_overlap (Some i) (Some (fst b))] else [])
        (concat (map inspectable (enumerate j cs)))) =
      concat (map (\<lambda>(j, ro). case ro of None \<Rightarrow> []
         | Some b \<Rightarrow> if overlaps a b then [lerr E_overlap (Some i) (Some j)] else [])
         (enumerate j (map tile_slot cs)))" for a :: rect and i j
    by (induction cs arbitrary: j)
      (auto simp: inspectable_def tile_slot_def in_bounds_def overlaps_m_same split: option.split)
  show ?case
  proof (cases "tile_slot c")
    case None
    then have "inspectable (k, c) = []"
      by (auto simp: inspectable_def tile_slot_def in_bounds_def split: option.splits if_splits)
    with None Cons.IH show ?thesis by simp
  next
    case (Some r)
    then have "inspectable (k, c) = [(k, r)]"
      by (auto simp: inspectable_def tile_slot_def in_bounds_def split: option.splits if_splits)
    with Some Cons.IH show ?thesis by (simp add: later [symmetric] cong: if_cong)
  qed
qed simp

text \<open>The untyped tiles of a value, when it has any.\<close>

definition raw_tiles :: "jsval \<Rightarrow> jsval list" where
  "raw_tiles v = (case js_get v ''tiles'' of JArr cs \<Rightarrow> cs | _ \<Rightarrow> [])"

lemma validateGridLayout_eq:
  assumes "\<forall>c \<in> set (raw_tiles v). \<not> empty_sid c"
  shows "validateGridLayout v = validate v"
proof (cases "js_get v ''tiles''")
  case (JArr cs)
  have "\<forall>c \<in> set cs. \<not> empty_sid c" using assms by (simp add: raw_tiles_def JArr)
  then have dup: "duplicate_errors_m (enumerate 0 cs) Map.empty = duplicate_errors 0 (map raw_sid cs) Map.empty"
    by (rule duplicate_errors_m_eq)
  have ov: "overlap_errors_m (concat (map inspectable (enumerate 0 cs))) = overlap_errors (map tile_slot cs)"
    unfolding overlap_errors_m_eq overlap_errors_pair_error pair_errors_eq ..
  have each: "map (\<lambda>(i, c). sid_errors i c @ geometry_errors i c) (enumerate 0 cs) =
      map (\<lambda>i. tile_errors i (cs ! i)) [0..<length cs]"
    by (simp add: sid_geometry_errors map_enumerate)
  show ?thesis unfolding validateGridLayout_def validate_def JArr jsval.case Let_def dup ov each
    by simp
qed (simp_all add: validateGridLayout_def validate_def)

lemma empty_sid_rejected:
  assumes "c \<in> set (raw_tiles v)" "empty_sid c"
  shows "\<not> vr_ok (validate v)" "\<not> vr_ok (validateGridLayout v)"
proof -
  obtain cs where cs: "js_get v ''tiles'' = JArr cs" "c \<in> set cs"
    using assms(1) by (cases "js_get v ''tiles''") (auto simp: raw_tiles_def)
  then obtain i where i: "i < length cs" "cs ! i = c" by (metis in_set_conv_nth)
  have e: "tile_errors i c \<noteq> []"
    using assms(2) by (simp add: tile_errors_def raw_sid_cases empty_sid_def)
  then show "\<not> vr_ok (validate v)"
    using i cs(1) by (auto simp: validate_def Let_def)
  have "(i, c) \<in> set (enumerate 0 cs)" using i by (simp add: in_set_enumerate_eq)
  moreover have "sid_errors i c @ geometry_errors i c \<noteq> []" using e by (simp add: sid_geometry_errors)
  ultimately show "\<not> vr_ok (validateGridLayout v)"
    using cs(1) by (auto simp: validateGridLayout_def Let_def)
qed

lemma validateGridLayout_ok: "vr_ok (validateGridLayout v) = vr_ok (validate v)"
  by (cases "\<exists>c \<in> set (raw_tiles v). empty_sid c")
    (use empty_sid_rejected validateGridLayout_eq in \<open>blast, simp\<close>)

lemma split_tree_eq:
  assumes "distinct (collectPaneIds node)" "[] \<notin> set (collectPaneIds node)"
    and "length (collectPaneIds node) \<le> MAX_TILES"
  shows "tilesFromSplitTree lc fl (Some node) = fromSplitTree fl (Some node)"
proof -
  let ?ls = "splitLeaves fl node \<lparr>fx0 = 0, fy0 = 0, fx1 = 24, fy1 = 24\<rparr> []"
  let ?rs = "assignRects fl node 0 0 24 24"
  have len: "length ?rs = length (collectPaneIds node)"
    using arg_cong [OF assignRects_ids [of fl node 0 0 24 24], of length] by simp
  have tiles: "map (leaf_tile fl) ?ls = ?rs"
    using splitLeaves_eq [of fl node "\<lparr>fx0 = 0, fy0 = 0, fx1 = 24, fy1 = 24\<rparr>" "[]"] assms(3) len by simp
  have "map session_id (map (leaf_tile fl) ?ls) = map fst ?ls"
    by (auto simp: leaf_tile_def Let_def)
  then have ids: "map fst ?ls = collectPaneIds node" by (simp only: tiles assignRects_ids)
  have valid: "valid_tiles ?rs" if "rounded_ok ?rs"
  proof (rule rounded_ok_valid [OF that])
    show "[] \<notin> session_id ` set ?rs"
      using assms(2) assignRects_ids [of fl node 0 0 24 24] by (metis list.set_map)
  qed (use assms(1,3) len assignRects_ids [of fl node 0 0 24 24] in simp_all)
  then have ok: "vr_ok (validateGridLayout (layout_value ?rs)) \<longleftrightarrow> rounded_ok ?rs"
    unfolding validateGridLayout_ok validate_represented [OF represents_layout_value]
    using valid_rounded_ok by blast
  have "orderedTiles lc ?rs = sortTiles ?rs" if "rounded_ok ?rs"
    using orderedTiles_eq [OF valid [OF that]] .
  then show ?thesis
    using assms(3) ok ids tiles fallbackPlacement_eq [OF assms(1,2), of lc]
    by (simp add: tilesFromSplitTree_def fromSplitTree_def Let_def)
qed

subsection \<open>Properties\<close>

text \<open>
  C33: The two clients implement one grid algebra. On a valid layout the mobile client's reading
  order, placement of a new tile, move, resize, compaction and removal return exactly what the web
  client's return, for every session id, every target position and size, and whatever the device's
  locale comparison does.
\<close>

theorem mobile_grid_agrees:
  assumes "valid_tiles ts"
  shows "readingOrderIds lc ts = readingOrder ts \<and> autoPlace_m lc ts = autoPlace ts \<and>
    moveTile lc ts sid x y = move ts sid x y \<and> resizeTile lc ts sid x y = resize ts sid x y \<and>
    compactTiles lc ts = compact_tiles ts \<and> removeTile lc ts sid = remove ts sid"
  using assms
  by (simp add: readingOrderIds_def readingOrder_def orderedTiles_eq autoPlace_m_eq moveTile_eq
      resizeTile_eq compactTiles_eq removeTile_eq)

theorem mobile_grid_agrees_witness:
  "valid_tiles three_columns \<and>
   removeTile (\<lambda>_ _. 0) three_columns ''b'' =
     [tile_at ''a'' \<lparr>gx = 0, gy = 0, gw = 12, gh = 24\<rparr>,
      tile_at ''c'' \<lparr>gx = 12, gy = 0, gw = 12, gh = 24\<rparr>]"
  using mobile_grid_agrees [OF valid_three_columns, of "\<lambda>_ _. 0" "''b''" 0 0]
  by (simp add: remove_three_columns valid_three_columns)

text \<open>
  Both validators accept the same values. On a value in which no tile has an empty session id
  they also report the same errors, with the same indices and in the same order.
\<close>

theorem mobile_validation_agrees:
  "vr_ok (validateGridLayout v) = vr_ok (validate v) \<and>
   ((\<forall>c \<in> set (raw_tiles v). \<not> empty_sid c) \<longrightarrow> validateGridLayout v = validate v)"
  using validateGridLayout_ok validateGridLayout_eq by blast

theorem mobile_validation_agrees_witness:
  "validateGridLayout (layout_value three_columns) = validate (layout_value three_columns) \<and>
   vr_ok (validateGridLayout (layout_value three_columns))"
proof -
  have "\<forall>c \<in> set (raw_tiles (layout_value three_columns)). \<not> empty_sid c"
    by (simp add: layout_value_def raw_tiles_def three_columns_def empty_sid_def tile_value_def)
  moreover have "vr_ok (validate (layout_value three_columns))"
    using validate_represented [OF represents_layout_value] valid_three_columns by blast
  ultimately show ?thesis using mobile_validation_agrees [of "layout_value three_columns"] by simp
qed

text \<open>
  Where they differ: two tiles with an empty session id are one more error for the mobile client,
  which looks for duplicates among all strings.
\<close>

lemma mobile_reports_empty_duplicate:
  "let v = JObj [(''version'', JNum 3), (''tiles'', JArr [JObj [(''session_id'', JStr [])],
       JObj [(''session_id'', JStr [])]])]
   in lerr E_duplicate (Some 1) (Some 0) \<in> set (vr_errors (validateGridLayout v)) \<and>
      lerr E_duplicate (Some 1) (Some 0) \<notin> set (vr_errors (validate v))"
  by (simp add: validateGridLayout_def validate_def sid_errors_def geometry_errors_def tile_errors_def
      raw_rect_def raw_sid_def tile_slot_def inspectable_def overlap_errors_def lerr_def)

text \<open>
  Both clients migrate a split tree with at most sixteen panes, each with its own non-empty id,
  to the same grid, under any rounding of floating-point arithmetic.
\<close>

theorem mobile_split_tree_agrees:
  assumes "distinct (collectPaneIds node)" "[] \<notin> set (collectPaneIds node)"
    and "length (collectPaneIds node) \<le> MAX_TILES"
  shows "tilesFromSplitTree lc fl (Some node) = fromSplitTree fl (Some node)"
  using assms by (rule split_tree_eq)

theorem mobile_split_tree_agrees_witness:
  "tilesFromSplitTree (\<lambda>_ _. 0) exact (Some (Split Row (1 / 3) (Pane ''a'') (Pane ''b''))) =
   fromSplitTree exact (Some (Split Row (1 / 3) (Pane ''a'') (Pane ''b'')))"
  using mobile_split_tree_agrees [of "Split Row (1 / 3) (Pane ''a'') (Pane ''b'')" "\<lambda>_ _. 0" exact]
  by simp

end
