(* ===== verification/Mobile_Tabs.thy ===== *)
theory Mobile_Tabs
  imports Mobile_Agrees Tabs Docking
begin

section \<open>The mobile client's tabs\<close>

text \<open>
  \<open>mobile/src/data/layout/tabs.ts\<close> and \<open>mobile-order.ts\<close>: the tab operations of the mobile
  client and the reordering of a tab's panes from a list. The state is the web client's
  \<open>layout_v3\<close>; names that the web theory uses too carry the suffix \<open>_m\<close>. The theorems say
  what each operation does to a valid envelope, and where it agrees with the web client's.
\<close>

subsection \<open>Tab operations\<close>

definition getActiveTab :: "layout_v3 \<Rightarrow> workspace_tab option" where
  "getActiveTab layout =
     (case find (\<lambda>tab. Some (tab_id tab) = active_tab layout) (tabs layout) of
        Some tab \<Rightarrow> Some tab
      | None \<Rightarrow> (case tabs layout of [] \<Rightarrow> None | tab # _ \<Rightarrow> Some tab))"

definition setActiveTab :: "layout_v3 \<Rightarrow> string \<Rightarrow> layout_v3" where
  "setActiveTab layout tabId =
     (if \<not> list_ex (\<lambda>tab. tab_id tab = tabId) (tabs layout) \<or> active_tab layout = Some tabId
      then layout else layout\<lparr>active_tab := Some tabId\<rparr>)"

definition canAddTab :: "layout_v3 \<Rightarrow> bool" where
  "canAddTab layout \<longleftrightarrow> length (tabs layout) < MAX_TABS"

definition nextTabName_m :: "workspace_tab list \<Rightarrow> string" where
  "nextTabName_m ts = numbered ''Tab'' (first_free ''Tab'' (map tab_name ts) (length ts + 1))"

definition addTab_m :: "layout_v3 \<Rightarrow> string \<Rightarrow> string option \<Rightarrow> layout_v3 option" where
  "addTab_m layout i nameArg =
     (let name = (case nameArg of None \<Rightarrow> nextTabName_m (tabs layout) | Some n \<Rightarrow> n);
          normalizedName = take 64 (js_trim name)
      in if \<not> canAddTab layout \<or> length i = 0 \<or> list_ex (\<lambda>tab. tab_id tab = i) (tabs layout) \<or>
            normalizedName = []
         then None
         else Some (layout\<lparr>active_tab := Some i, tabs := tabs layout @
           [\<lparr>tab_id = i, tab_name = normalizedName, tab_host_id = None, tab_cwd = None,
             tab_layout = \<lparr>gl_version = 3, gl_tiles = []\<rparr>\<rparr>]\<rparr>))"

definition renameTab_m :: "layout_v3 \<Rightarrow> string \<Rightarrow> string \<Rightarrow> layout_v3" where
  "renameTab_m layout tabId name =
     (let normalized = take 64 (js_trim name) in
      if normalized = [] \<or> \<not> list_ex (\<lambda>tab. tab_id tab = tabId) (tabs layout) then layout
      else layout\<lparr>tabs := map (\<lambda>tab. if tab_id tab = tabId then tab\<lparr>tab_name := normalized\<rparr> else tab)
        (tabs layout)\<rparr>)"

definition reorderTab_m :: "layout_v3 \<Rightarrow> string \<Rightarrow> rat \<Rightarrow> layout_v3" where
  "reorderTab_m layout tabId toIndex =
     (case find_index (\<lambda>tab. tab_id tab = tabId) (tabs layout) of
        None \<Rightarrow> layout
      | Some fromIndex \<Rightarrow>
          if length (tabs layout) < 2 then layout
          else let target = nat (min (max 0 (js_trunc toIndex)) (int (length (tabs layout)) - 1)) in
            if fromIndex = target then layout
            else layout\<lparr>tabs :=
              insert_at target (tabs layout ! fromIndex) (remove_at fromIndex (tabs layout))\<rparr>)"

definition canRemoveTab :: "layout_v3 \<Rightarrow> string \<Rightarrow> bool" where
  "canRemoveTab layout tabId \<longleftrightarrow>
     length (tabs layout) > 1 \<and> list_ex (\<lambda>tab. tab_id tab = tabId) (tabs layout)"

text \<open>\<open>tabs[i]?.id\<close>\<close>

definition id_at :: "workspace_tab list \<Rightarrow> nat \<Rightarrow> string option" where
  "id_at ts i = (if i < length ts then Some (tab_id (ts ! i)) else None)"

definition removeTab_m :: "layout_v3 \<Rightarrow> string \<Rightarrow> layout_v3 option" where
  "removeTab_m layout tabId =
     (case find_index (\<lambda>tab. tab_id tab = tabId) (tabs layout) of
        None \<Rightarrow> None
      | Some index \<Rightarrow>
          if \<not> canRemoveTab layout tabId then None
          else let rest = filter (\<lambda>tab. tab_id tab \<noteq> tabId) (tabs layout);
                   active =
                     (if active_tab layout = Some tabId
                      then (case id_at rest (index - 1) of Some i \<Rightarrow> Some i | None \<Rightarrow> id_at rest 0)
                      else active_tab layout)
            in Some (layout\<lparr>active_tab := active, tabs := rest\<rparr>))"

definition allTiles_m :: "(string \<Rightarrow> string \<Rightarrow> int) \<Rightarrow> layout_v3 \<Rightarrow> tile list" where
  "allTiles_m lc layout = concat (map (\<lambda>tab. orderedTiles lc (tiles_of tab)) (tabs layout))"

fun find_pane :: "workspace_tab list \<Rightarrow> string \<Rightarrow> (workspace_tab \<times> tile) option" where
  "find_pane [] paneId = None"
| "find_pane (tab # rest) paneId =
     (case find (\<lambda>t. session_id t = paneId) (tiles_of tab) of
        Some t \<Rightarrow> Some (tab, t)
      | None \<Rightarrow> find_pane rest paneId)"

definition findPane :: "layout_v3 \<Rightarrow> string \<Rightarrow> (workspace_tab \<times> tile) option" where
  "findPane layout paneId = find_pane (tabs layout) paneId"

definition canMovePaneToTab ::
  "(string \<Rightarrow> string \<Rightarrow> int) \<Rightarrow> layout_v3 \<Rightarrow> string \<Rightarrow> string \<Rightarrow> bool" where
  "canMovePaneToTab lc layout paneId targetTabId =
     (case (findPane layout paneId, find (\<lambda>tab. tab_id tab = targetTabId) (tabs layout)) of
        (Some (source, _), Some target) \<Rightarrow>
          tab_id source \<noteq> tab_id target \<and> canAddTile lc (tiles_of target)
      | _ \<Rightarrow> False)"

text \<open>\<open>{ ...tab, layout: { ...tab.layout, tiles } }\<close>\<close>

definition put_tiles :: "tile list \<Rightarrow> workspace_tab \<Rightarrow> workspace_tab" where
  "put_tiles ts tab = tab\<lparr>tab_layout := (tab_layout tab)\<lparr>gl_tiles := ts\<rparr>\<rparr>"

definition movePaneToTab ::
  "(string \<Rightarrow> string \<Rightarrow> int) \<Rightarrow> layout_v3 \<Rightarrow> string \<Rightarrow> string \<Rightarrow> layout_v3 option" where
  "movePaneToTab lc layout paneId targetTabId =
     (case (findPane layout paneId, find (\<lambda>tab. tab_id tab = targetTabId) (tabs layout)) of
        (Some (source, t), Some target) \<Rightarrow>
          if tab_id source = tab_id target then None
          else (case autoPlace_m lc (tiles_of target) of
             (None, _) \<Rightarrow> None
           | (Some spot, placed) \<Rightarrow>
               let moved = with_rect t spot in
               Some (layout\<lparr>tabs := map (\<lambda>tab.
                 if tab_id tab = tab_id source
                 then put_tiles (removeTile lc (tiles_of tab) paneId) tab
                 else if tab_id tab = tab_id target
                 then put_tiles (orderedTiles lc (placed @ [moved])) tab
                 else tab) (tabs layout)\<rparr>))
      | _ \<Rightarrow> None)"

definition removePane :: "(string \<Rightarrow> string \<Rightarrow> int) \<Rightarrow> layout_v3 \<Rightarrow> string \<Rightarrow> layout_v3" where
  "removePane lc layout paneId =
     (case findPane layout paneId of
        None \<Rightarrow> layout
      | Some (source, _) \<Rightarrow>
          layout\<lparr>tabs := map (\<lambda>tab.
            if tab_id tab = tab_id source
            then put_tiles (removeTile lc (tiles_of tab) paneId) tab else tab) (tabs layout)\<rparr>)"

subsection \<open>Reordering the panes of a tab\<close>

definition isValidMobileOrder :: "workspace_tab \<Rightarrow> string list \<Rightarrow> bool" where
  "isValidMobileOrder tab orderedIds \<longleftrightarrow>
     length orderedIds = length (tiles_of tab) \<and>
     card (set orderedIds) = length orderedIds \<and>
     list_all (\<lambda>i. i \<in> session_id ` set (tiles_of tab)) orderedIds"

text \<open>\<open>byId.get(id)\<close>: a later entry of the list overwrites an earlier one.\<close>

definition by_id :: "tile list \<Rightarrow> string \<rightharpoonup> tile" where
  "by_id ts = map_of (rev (map (\<lambda>t. (session_id t, t)) ts))"

fun stack_rows :: "int \<Rightarrow> int \<Rightarrow> int \<Rightarrow> tile list \<Rightarrow> tile list" where
  "stack_rows baseHeight remainder y [] = []"
| "stack_rows baseHeight remainder y (t # ts) =
     (let height = baseHeight + (if remainder > 0 then 1 else 0) in
      with_rect t \<lparr>gx = 0, gy = y, gw = GRID_SIZE, gh = height\<rparr> #
        stack_rows baseHeight (max 0 (remainder - 1)) (y + height) ts)"

definition applyMobileOrder ::
  "(string \<Rightarrow> string \<Rightarrow> int) \<Rightarrow> workspace_tab \<Rightarrow> string list \<Rightarrow> workspace_tab" where
  "applyMobileOrder lc tab orderedIds =
     (if \<not> isValidMobileOrder tab orderedIds then tab
      else if length orderedIds = 0 then put_tiles [] tab
      else
        let requested = List.map_filter (by_id (tiles_of tab)) orderedIds;
            n = int (length requested);
            ts = (if n \<le> 6 then stack_rows (GRID_SIZE div n) (GRID_SIZE mod n) 0 requested
                  else map (\<lambda>(t, r). with_rect t r)
                    (zip requested (orderedTiles lc (tiles_of tab))))
        in put_tiles (orderedTiles lc ts) tab)"

subsection \<open>Agreement with the web client\<close>

text \<open>
  The clients write version numbers and the order of a tab's tile array differently, neither of
  which carries meaning: \<open>tidy\<close> puts both into one form.
\<close>

definition tidy_tab :: "workspace_tab \<Rightarrow> workspace_tab" where
  "tidy_tab tab = set_tiles (sortTiles (tiles_of tab)) tab"

definition tidy :: "layout_v3 \<Rightarrow> layout_v3" where
  "tidy L = \<lparr>lv_version = 3, active_tab = active_tab L, tabs = map tidy_tab (tabs L)\<rparr>"

lemma tidy_tab_simps [simp]:
  "tab_id (tidy_tab tab) = tab_id tab" "tiles_of (tidy_tab tab) = sortTiles (tiles_of tab)"
  by (simp_all add: tidy_tab_def)

lemma tidy_simps [simp]:
  "active_tab (tidy L) = active_tab L" "tabs (tidy L) = map tidy_tab (tabs L)"
  by (simp_all add: tidy_def)

lemma windows_concat: "windows L = (\<Sum>tab \<leftarrow> tabs L. mset (map content (tiles_of tab)))"
  by (simp add: windows_def allTiles_def mset_concat map_concat comp_def)

lemma windows_tidy [simp]: "windows (tidy L) = windows L"
  by (simp add: windows_concat comp_def)

lemma valid_tidy [simp]: "valid_envelope (tidy L) = valid_envelope L"
proof -
  have "distinct (map session_id (allTiles (tidy L))) = distinct (map session_id (allTiles L))"
    by (rule distinct_windows) simp
  moreover have "envelope_shape (tidy L) = envelope_shape L"
    by (auto simp: envelope_shape_def comp_def image_image)
  ultimately show ?thesis by (simp add: valid_envelope_shape)
qed

lemma tidy_valid_transfer:
  assumes "tidy M = tidy N"
  shows "valid_envelope M = valid_envelope N" "windows M = windows N"
  using arg_cong [OF assms, of valid_envelope] arg_cong [OF assms, of windows] by simp_all

lemma tidy_put_tiles: "tidy_tab (put_tiles ts tab) = tidy_tab (set_tiles ts tab)"
  by (simp add: tidy_tab_def put_tiles_def set_tiles_def)

lemma tidy_sorted [simp]: "tidy_tab (set_tiles (sortTiles ts) tab) = tidy_tab (set_tiles ts tab)"
  by (simp add: tidy_tab_def set_tiles_def)

lemma put_tiles_simps [simp]:
  "tab_id (put_tiles ts tab) = tab_id tab" "tiles_of (put_tiles ts tab) = ts"
  by (simp_all add: put_tiles_def)

lemma find_pane_eq:
  "find_pane us sid =
     (case find (\<lambda>tab. \<exists>t \<in> set (tiles_of tab). session_id t = sid) us of
        None \<Rightarrow> None
      | Some tab \<Rightarrow> map_option (Pair tab) (find (\<lambda>t. session_id t = sid) (tiles_of tab)))"
proof (induction us)
  case (Cons u us)
  show ?case
  proof (cases "find (\<lambda>t. session_id t = sid) (tiles_of u)")
    case None
    then have "\<not> (\<exists>t \<in> set (tiles_of u). session_id t = sid)" by (simp add: find_None_all)
    with None Cons.IH show ?thesis by simp
  next
    case (Some t)
    then have "\<exists>t \<in> set (tiles_of u). session_id t = sid" by (blast dest: find_Some_in)
    with Some show ?thesis by simp
  qed
qed simp

lemma findPane_eq:
  "findPane L sid =
     (case tabOfSession L sid of
        None \<Rightarrow> None
      | Some tab \<Rightarrow> map_option (Pair tab) (find (\<lambda>t. session_id t = sid) (tiles_of tab)))"
  by (simp add: findPane_def tabOfSession_def find_pane_eq)

lemma list_ex_tabById: "list_ex (\<lambda>tab. tab_id tab = i) (tabs L) \<longleftrightarrow> tabById L i \<noteq> None"
  by (auto simp: tabById_None list_ex_iff)

lemma map_two_tabs:
  assumes "a \<noteq> b"
  shows "map (\<lambda>u. if tab_id u = b then g u else u) (map (\<lambda>u. if tab_id u = a then set_tiles ts u else u) us) =
    map (\<lambda>u. if tab_id u = a then set_tiles ts u else if tab_id u = b then g u else u) us"
  using assms by (induction us) auto

lemma withTabTiles_twice:
  assumes "a \<noteq> b"
  shows "withTabTiles (withTabTiles L a ts) b us =
    L\<lparr>tabs := map (\<lambda>u. if tab_id u = a then set_tiles ts u else if tab_id u = b then set_tiles us u else u)
      (tabs L)\<rparr>"
  using map_two_tabs [OF assms, of "set_tiles us" ts "tabs L"] by (simp add: withTabTiles_def)

lemma movePaneToTab_tidy:
  assumes "valid_envelope L"
  shows "map_option tidy (movePaneToTab lc L sid target) = map_option tidy (moveSessionToTab L sid target)"
proof (cases "tabOfSession L sid")
  case None
  then show ?thesis by (simp add: movePaneToTab_def moveSessionToTab_def findPane_eq)
next
  case (Some s)
  note s = tabOfSession_Some [OF Some]
  then obtain w where w: "find (\<lambda>t. session_id t = sid) (tiles_of s) = Some w"
    by (cases "find (\<lambda>t. session_id t = sid) (tiles_of s)") (auto simp: find_None_all)
  then have pane: "findPane L sid = Some (s, w)" using Some by (simp add: findPane_eq)
  have w_in: "w \<in> set (tiles_of s)" "session_id w = sid" using find_Some_in [OF w] by auto
  show ?thesis
  proof (cases "tabById L target")
    case None
    then show ?thesis using pane Some by (simp add: movePaneToTab_def moveSessionToTab_def tabById_def)
  next
    case (Some t)
    then have t: "t \<in> set (tabs L)" "tab_id t = target"
      using tabById_Some [OF valid_envelopeD(3) [OF assms]] by auto
    have vt: "valid_tiles (tiles_of t)" "valid_tiles (tiles_of s)"
      using valid_envelopeD(4) [OF assms] t s by auto
    have found: "find (\<lambda>tab. tab_id tab = target) (tabs L) = Some t" using Some by (simp add: tabById_def)
    show ?thesis
    proof (cases "tab_id s = tab_id t \<or> fst (autoPlace (tiles_of t)) = None")
      case True
      then show ?thesis using pane found Some w \<open>tabOfSession L sid = Some s\<close>
        by (cases "autoPlace (tiles_of t)")
          (auto simp: movePaneToTab_def moveSessionToTab_def autoPlace_m_eq [OF vt(1)])
    next
      case False
      then obtain spot placed where p: "autoPlace (tiles_of t) = (Some spot, placed)"
        by (cases "autoPlace (tiles_of t)") auto
      have ne: "tab_id s \<noteq> tab_id t" using False by simp
      have "sid \<notin> session_id ` set (tiles_of t)"
        using tabs_disjoint [OF assms _ t(1) ne] s by blast
      then have "valid_tiles (placed @ [with_rect w spot])"
        using auto.place_snoc(1) [OF vt(1) p, of "with_rect w spot"] w_in valid_tilesD(3) [OF vt(2) w_in(1)]
        by (simp add: rect_of_def)
      then have ord: "orderedTiles lc (placed @ [with_rect w spot]) = sortTiles (placed @ [with_rect w spot])"
        by (rule orderedTiles_eq)
      have web: "moveSessionToTab L sid target = Some (L\<lparr>tabs := map (\<lambda>u.
          if tab_id u = tab_id s then set_tiles (remove (tiles_of s) sid) u
          else if tab_id u = tab_id t then set_tiles (placed @ [with_rect w spot]) u else u) (tabs L)\<rparr>)"
        using Some \<open>tabOfSession L sid = Some s\<close> w ne p
        by (simp add: moveSessionToTab_def withTabTiles_twice)
      have mob: "movePaneToTab lc L sid target = Some (L\<lparr>tabs := map (\<lambda>u.
          if tab_id u = tab_id s then put_tiles (removeTile lc (tiles_of u) sid) u
          else if tab_id u = tab_id t then put_tiles (sortTiles (placed @ [with_rect w spot])) u else u)
          (tabs L)\<rparr>)"
        using pane found ne p ord by (simp add: movePaneToTab_def autoPlace_m_eq [OF vt(1)])
      have "u = s" if "u \<in> set (tabs L)" "tab_id u = tab_id s" for u
        using that s valid_envelopeD(3) [OF assms] by (simp add: distinct_map inj_on_def)
      then have "removeTile lc (tiles_of u) sid = remove (tiles_of s) sid"
        if "u \<in> set (tabs L)" "tab_id u = tab_id s" for u
        using that removeTile_eq [OF vt(2), of lc sid] by metis
      then have "tidy_tab (if tab_id u = tab_id s then put_tiles (removeTile lc (tiles_of u) sid) u
          else if tab_id u = tab_id t then put_tiles (sortTiles (placed @ [with_rect w spot])) u else u) =
        tidy_tab (if tab_id u = tab_id s then set_tiles (remove (tiles_of s) sid) u
          else if tab_id u = tab_id t then set_tiles (placed @ [with_rect w spot]) u else u)"
        if "u \<in> set (tabs L)" for u
        using that by (simp add: tidy_put_tiles)
      then show ?thesis unfolding web mob by (simp add: tidy_def)
    qed
  qed
qed

lemma removePane_tidy:
  assumes "valid_envelope L"
  shows "tidy (removePane lc L sid) =
    (case tabOfSession L sid of None \<Rightarrow> tidy L
     | Some s \<Rightarrow> tidy (withTabTiles L (tab_id s) (remove (tiles_of s) sid)))"
proof (cases "tabOfSession L sid")
  case None
  then show ?thesis by (simp add: removePane_def findPane_eq)
next
  case (Some s)
  note s = tabOfSession_Some [OF Some]
  then obtain w where "find (\<lambda>t. session_id t = sid) (tiles_of s) = Some w"
    by (cases "find (\<lambda>t. session_id t = sid) (tiles_of s)") (auto simp: find_None_all)
  then have pane: "findPane L sid = Some (s, w)" using Some by (simp add: findPane_eq)
  have "u = s" if "u \<in> set (tabs L)" "tab_id u = tab_id s" for u
    using that s valid_envelopeD(3) [OF assms] by (simp add: distinct_map inj_on_def)
  then have "removeTile lc (tiles_of u) sid = remove (tiles_of s) sid"
    if "u \<in> set (tabs L)" "tab_id u = tab_id s" for u
    using that removeTile_eq [OF valid_envelopeD(4) [OF assms], of s lc sid] by metis
  then show ?thesis using Some pane
    by (simp add: removePane_def tidy_def withTabTiles_def tidy_put_tiles)
qed

lemma removePane_valid:
  assumes "valid_envelope L"
  shows "valid_envelope (removePane lc L sid)" "sid \<notin> session_id ` set (allTiles (removePane lc L sid))"
proof -
  have "valid_envelope (removePane lc L sid) \<and> sid \<notin> fst ` set_mset (windows (removePane lc L sid))"
  proof (cases "tabOfSession L sid")
    case None
    have "sid \<notin> fst ` set_mset (windows L)"
      using None by (fastforce simp: tabOfSession_def find_None_all windows_def allTiles_def content_def)
    moreover have "tidy (removePane lc L sid) = tidy L" using removePane_tidy [OF assms] None by simp
    ultimately show ?thesis using tidy_valid_transfer assms by metis
  next
    case (Some s)
    note s = tabOfSession_Some [OF Some]
    have vs: "valid_tiles (tiles_of s)" using valid_envelopeD(4) [OF assms] s by blast
    obtain w where w: "w \<in> set (tiles_of s)" "session_id w = sid" using s by blast
    let ?M = "withTabTiles L (tab_id s) (remove (tiles_of s) sid)"
    have win: "windows L = mset (map content [w]) + windows ?M"
    proof -
      have "windows ?M + mset (map content (tiles_of s)) =
          windows L + mset (map content (remove (tiles_of s) sid))"
        using windows_withTabTiles [of s L] s valid_envelopeD(3) [OF assms] by blast
      moreover have "mset (map content (remove (tiles_of s) sid)) =
          mset (map content (others_of sid (tiles_of s)))"
        using remove_valid_content [OF vs] by blast
      moreover have "mset (map content (tiles_of s)) =
          add_mset (content w) (mset (map content (others_of sid (tiles_of s))))"
        using content_split_others [OF vs w(1)] w(2) by simp
      ultimately show ?thesis by simp
    qed
    have "envelope_shape ?M"
      using shape_withTabTiles [of L] assms remove_valid_content [OF vs]
      by (simp add: valid_envelope_shape)
    moreover have "distinct (map session_id (allTiles ?M))"
      using distinct_drop_windows [OF win valid_envelopeD(5) [OF assms]] .
    ultimately have "valid_envelope ?M" by (simp add: valid_envelope_shape)
    moreover have "sid \<notin> fst ` set_mset (windows ?M)"
    proof -
      have "mset (map session_id (allTiles L)) = mset (sid # map session_id (allTiles ?M))"
        using arg_cong [OF win, of "image_mset fst"] w(2)
        unfolding sessions_windows mset.simps by (simp add: content_def)
      then have "distinct (sid # map session_id (allTiles ?M))"
        using valid_envelopeD(5) [OF assms] mset_eq_imp_distinct_iff by blast
      then show ?thesis by (auto simp: windows_def content_def)
    qed
    moreover have "tidy (removePane lc L sid) = tidy ?M" using removePane_tidy [OF assms] Some by simp
    ultimately show ?thesis using tidy_valid_transfer by metis
  qed
  then show "valid_envelope (removePane lc L sid)" "sid \<notin> session_id ` set (allTiles (removePane lc L sid))"
    by (auto simp: windows_def content_def image_image)
qed

lemma removeTab_m_tidy:
  assumes "valid_envelope L"
  shows "map_option tidy (removeTab_m L i) = map_option tidy (removeTab L i)"
proof (cases "i \<in> tab_id ` set (tabs L) \<and> 1 < length (tabs L)")
  case False
  show ?thesis
  proof (cases "find_index (\<lambda>tab. tab_id tab = i) (tabs L)")
    case None
    then show ?thesis by (simp add: removeTab_m_def removeTab_def)
  next
    case (Some k)
    then have "i \<in> tab_id ` set (tabs L)" using find_index_Some [OF Some] by (metis imageI nth_mem)
    with False have "\<not> 1 < length (tabs L)" by simp
    with Some show ?thesis by (simp add: removeTab_m_def removeTab_def canRemoveTab_def)
  qed
next
  case True
  then obtain tab where tab: "tab \<in> set (tabs L)" and i: "tab_id tab = i" by blast
  then have ex: "list_ex (\<lambda>u. tab_id u = i) (tabs L)" by (auto simp: list_ex_iff)
  from tab obtain xs ys where L: "tabs L = xs @ tab # ys" by (meson split_list)
  have d: "distinct (map tab_id (tabs L))" using valid_envelopeD(3) [OF assms] .
  have ne: "xs \<noteq> [] \<or> ys \<noteq> []" using True L by auto
  have idx: "find_index (\<lambda>u. tab_id u = i) (tabs L) = Some (length xs)"
    unfolding L
  proof (rule find_index_split)
    show "\<forall>x \<in> set xs. tab_id x \<noteq> i" using d i unfolding L by (auto simp: image_iff)
  qed (rule i)
  have rest: "filter (\<lambda>u. tab_id u \<noteq> i) (tabs L) = xs @ ys"
    using filter_split_key [of tab_id xs tab ys] d L i by simp
  have act: "id_at (xs @ ys) (length xs - 1) = Some (tab_id (if xs = [] then hd ys else last xs))"
    using ne by (cases "xs = []") (auto simp: id_at_def nth_append last_conv_nth hd_conv_nth less_Suc_eq_le
        intro: less_le_trans [of _ "length xs"])
  show ?thesis
    using removeTab_split [OF d L ne] i True rest idx act ex
    by (simp add: removeTab_m_def canRemoveTab_def tidy_def)
qed

lemma reorderTab_m_eq:
  "reorderTab_m L i (of_int k) = (case reorderTab L i k of None \<Rightarrow> L | Some M \<Rightarrow> M)"
proof (cases "find_index (\<lambda>tab. tab_id tab = i) (tabs L)")
  case (Some k0)
  then have "k0 < length (tabs L)" using find_index_Some by blast
  then show ?thesis using Some
    by (auto simp: reorderTab_m_def reorderTab_def Let_def max.commute)
qed (simp add: reorderTab_m_def reorderTab_def)

lemma addTab_m_tidy:
  "map_option tidy (addTab_m L i (Some name)) =
   (if i = [] \<or> take 64 (js_trim name) = [] then None
    else map_option tidy (addTab L i (take 64 (js_trim name))))"
  by (auto simp: addTab_m_def addTab_def canAddTab_def list_ex_tabById tidy_def Let_def)

lemma renameTab_m_eq:
  "renameTab_m L i name =
   (if take 64 (js_trim name) = [] \<or> tabById L i = None then L else renameTab L i (take 64 (js_trim name)))"
  by (simp add: renameTab_m_def renameTab_def list_ex_tabById Let_def)

lemma setActiveTab_eq: "setActiveTab L i = withActiveTab L i"
  by (auto simp: setActiveTab_def withActiveTab_def list_ex_tabById)

subsection \<open>The order of a tab's panes\<close>

lemma valid_order_iff:
  assumes "distinct (map session_id (tiles_of tab))"
  shows "isValidMobileOrder tab ids \<longleftrightarrow> mset ids = mset (map session_id (tiles_of tab))"
proof
  assume a: "isValidMobileOrder tab ids"
  then have d: "distinct ids" and len: "length ids = length (tiles_of tab)"
      and sub: "set ids \<subseteq> session_id ` set (tiles_of tab)"
    by (auto simp: isValidMobileOrder_def list_all_iff card_distinct)
  have "card (session_id ` set (tiles_of tab)) = length (tiles_of tab)"
    using distinct_card [OF assms] by simp
  then have "set ids = session_id ` set (tiles_of tab)"
    using sub len distinct_card [OF d] by (intro card_subset_eq) simp_all
  then show "mset ids = mset (map session_id (tiles_of tab))"
    using d assms by (intro set_eq_iff_mset_eq_distinct [THEN iffD1]) simp_all
next
  assume a: "mset ids = mset (map session_id (tiles_of tab))"
  then have "distinct ids" using assms mset_eq_imp_distinct_iff by blast
  moreover have "set ids = session_id ` set (tiles_of tab)" using mset_eq_setD [OF a] by simp
  moreover have "length ids = length (tiles_of tab)" using mset_eq_length [OF a] by simp
  ultimately show "isValidMobileOrder tab ids"
    using distinct_card [OF assms] by (simp add: isValidMobileOrder_def list_all_iff)
qed

lemma by_id_find:
  assumes "distinct (map session_id ts)"
  shows "by_id ts sid = find (\<lambda>t. session_id t = sid) ts"
proof -
  have step: "by_id (t # us) sid = (case by_id us sid of
      None \<Rightarrow> if session_id t = sid then Some t else None | Some u \<Rightarrow> Some u)" for t us
    by (auto simp: by_id_def map_add_def split: option.split)
  show ?thesis using assms
  proof (induction ts)
    case (Cons t ts)
    then show ?case
      by (cases "find (\<lambda>t. session_id t = sid) ts") (auto simp: step image_iff dest!: find_Some_in)
  qed (simp add: by_id_def)
qed

lemma with_widget_with_rect:
  assumes "find (\<lambda>t. session_id t = sid) ts = Some t"
  shows "with_widget ts (tile_at sid r) = with_rect t r"
  using assms find_Some_in [OF assms]
  by (cases t) (auto simp: with_widget_def tile_at_def with_rect_def split: option.split)

lemma requested_tiles:
  assumes "distinct (map session_id ts)" "set ids \<subseteq> session_id ` set ts"
  shows "map session_id (List.map_filter (by_id ts) ids) = ids"
    "list_all2 (\<lambda>sid t. find (\<lambda>u. session_id u = sid) ts = Some t) ids (List.map_filter (by_id ts) ids)"
proof -
  have "list_all2 (\<lambda>sid t. find (\<lambda>u. session_id u = sid) ts = Some t) ids (List.map_filter (by_id ts) ids)"
    using assms(2)
  proof (induction ids)
    case (Cons sid ids)
    then obtain t where "find (\<lambda>u. session_id u = sid) ts = Some t"
      by (cases "find (\<lambda>u. session_id u = sid) ts") (auto simp: find_None_all)
    with Cons show ?case by (simp add: map_filter_simps by_id_find [OF assms(1)])
  qed (simp add: map_filter_simps)
  then show "list_all2 (\<lambda>sid t. find (\<lambda>u. session_id u = sid) ts = Some t) ids (List.map_filter (by_id ts) ids)" .
  then show "map session_id (List.map_filter (by_id ts) ids) = ids"
    by (induction rule: list_all2_induct) (auto dest: find_Some_in)
qed

lemma stack_rows_eq:
  assumes "list_all2 (\<lambda>sid t. find (\<lambda>u. session_id u = sid) ts = Some t) ids us"
  shows "stack_rows b rm y us = stack_up ts b rm y ids"
  using assms
  by (induction arbitrary: rm y rule: list_all2_induct) (simp_all add: with_widget_with_rect Let_def)

lemma zip_rects_eq:
  assumes "list_all2 (\<lambda>sid t. find (\<lambda>u. session_id u = sid) ts = Some t) ids us" "length rs = length ids"
  shows "map (\<lambda>(t, r). with_rect t r) (zip us rs) =
    map (\<lambda>(sid, r). with_widget ts (tile_at sid r)) (zip ids (map rect_of rs))"
  using assms
proof (induction arbitrary: rs rule: list_all2_induct)
  case (Cons sid ids t us)
  then show ?case
    by (cases rs) (auto simp: with_widget_with_rect with_rect_def)
qed simp

text \<open>
  Reordering a tab's panes on the phone is the web client's repacking: when the requested order
  lists each pane of a valid tab once, the tab gets exactly the tiles \<open>repackMobileTiles\<close> computes,
  in the requested reading order; any other request leaves the tab alone.
\<close>

theorem applyMobileOrder_agrees:
  assumes "valid_tiles (tiles_of tab)" "tiles_of tab \<noteq> []"
  shows "if mset ids = mset (map session_id (tiles_of tab))
    then \<exists>us. repackMobileTiles (tiles_of tab) ids = Some us \<and> 
      applyMobileOrder lc tab ids = put_tiles (sortTiles us) tab \<and>
      valid_tiles us \<and> readingOrder us = ids
    else applyMobileOrder lc tab ids = tab"
proof (cases "mset ids = mset (map session_id (tiles_of tab))")
  case False
  then show ?thesis
    using valid_order_iff [OF valid_tilesD(2) [OF assms(1)]] by (simp add: applyMobileOrder_def)
next
  case True
  let ?ts = "tiles_of tab"
  let ?req = "List.map_filter (by_id ?ts) ids"
  have d: "distinct (map session_id ?ts)" using valid_tilesD(2) [OF assms(1)] .
  have sets: "set ids = session_id ` set ?ts" and len: "length ids = length ?ts"
    using mset_eq_setD [OF True] mset_eq_length [OF True] by simp_all
  have req: "map session_id ?req = ids"
      "list_all2 (\<lambda>sid t. find (\<lambda>u. session_id u = sid) ?ts = Some t) ids ?req"
    using requested_tiles [OF d, of ids] sets by simp_all
  have lreq: "length ?req = length ids" using arg_cong [OF req(1), of length] by simp
  from repackMobileTiles_order [OF assms True] obtain us where
      us: "repackMobileTiles ?ts ids = Some us" "valid_tiles us" "readingOrder us = ids" by blast
  have filt: "filter (\<lambda>sid. list_ex (\<lambda>t. session_id t = sid) ?ts) ids = ids"
    using sets by (auto simp: filter_id_conv list_ex_iff)
  have ne: "ids \<noteq> []" using len assms(2) by auto
  let ?new = "if int (length ids) \<le> 6
      then stack_rows (24 div int (length ids)) (24 mod int (length ids)) 0 ?req
      else map (\<lambda>(t, r). with_rect t r) (zip ?req (sortTiles ?ts))"
  have "us = ?new"
    using us(1) stack_rows_eq [OF req(2)] zip_rects_eq [OF req(2), of "sortTiles ?ts"] len ne
    by (auto simp: repackMobileTiles_def Let_def filt split: if_splits)
  moreover have "applyMobileOrder lc tab ids = put_tiles (orderedTiles lc ?new) tab"
    using valid_order_iff [OF d, of ids] True ne assms(1)
    by (simp add: applyMobileOrder_def Let_def lreq orderedTiles_eq)
  ultimately show ?thesis using True us orderedTiles_eq [OF us(2), of lc] by auto
qed

text \<open>
  C34: On a valid envelope the mobile client's tab operations do what the web client's do: moving a
  pane to another tab, closing a tab, choosing and reordering tabs give the same tabs, in the same
  order, with the same tiles and the same active tab.
\<close>

theorem mobile_tabs_agree:
  assumes "valid_envelope L"
  shows "map_option tidy (movePaneToTab lc L sid i) = map_option tidy (moveSessionToTab L sid i) \<and>
    map_option tidy (removeTab_m L i) = map_option tidy (removeTab L i) \<and>
    setActiveTab L i = withActiveTab L i \<and>
    reorderTab_m L i (of_int k) = (case reorderTab L i k of None \<Rightarrow> L | Some M \<Rightarrow> M)"
  using movePaneToTab_tidy [OF assms] removeTab_m_tidy [OF assms] setActiveTab_eq reorderTab_m_eq
  by blast

theorem mobile_tabs_agree_witness:
  "valid_envelope pair_tabs \<and>
   map_option tidy (removeTab_m pair_tabs ''t1'') = map_option tidy (removeTab pair_tabs ''t1'') \<and>
   map_option (\<lambda>M. map tab_id (tabs M)) (removeTab_m pair_tabs ''t1'') = Some [''t2'']"
proof (intro conjI)
  show "map_option tidy (removeTab_m pair_tabs ''t1'') = map_option tidy (removeTab pair_tabs ''t1'')"
    using mobile_tabs_agree [OF valid_pair_tabs, of "\<lambda>_ _. 0" "''a''" "''t1''" 0] by blast
  show "map_option (\<lambda>M. map tab_id (tabs M)) (removeTab_m pair_tabs ''t1'') = Some [''t2'']"
    by (simp add: removeTab_m_def pair_tabs_def canRemoveTab_def tab_of_def Let_def)
qed (rule valid_pair_tabs)

theorem applyMobileOrder_agrees_witness:
  "applyMobileOrder (\<lambda>_ _. 0) (tab_of ''t'' three_columns) [''c'', ''a'', ''b''] =
   tab_of ''t'' [tile_at ''c'' \<lparr>gx = 0, gy = 0, gw = 24, gh = 8\<rparr>,
     tile_at ''a'' \<lparr>gx = 0, gy = 8, gw = 24, gh = 8\<rparr>, tile_at ''b'' \<lparr>gx = 0, gy = 16, gw = 24, gh = 8\<rparr>] \<and>
   (\<exists>us. repackMobileTiles three_columns [''c'', ''a'', ''b''] = Some us \<and> valid_tiles us)"
proof
  show "\<exists>us. repackMobileTiles three_columns [''c'', ''a'', ''b''] = Some us \<and> valid_tiles us"
    using applyMobileOrder_agrees [of "tab_of ''t'' three_columns" "[''c'', ''a'', ''b'']" "\<lambda>_ _. 0"]
      valid_three_columns
    by (auto simp: three_columns_def tab_of_def)
qed code_simp

end
