(* ===== verification/Layout_V3.thy ===== *)
theory Layout_V3
  imports Mobile_Tabs
begin

section \<open>Reading and writing stored layouts\<close>

text \<open>
  \<open>mobile/src/data/layout/layout-v3.ts\<close>: the check every stored layout passes when it is read or
  written, its normalisation and its serialisation. Stored layouts are untyped values here, as in
  the source, because the code keeps the properties it does not know. \<open>JSON.parse\<close> and
  \<open>JSON.stringify\<close> belong to the language; they are parameters, with the law that parsing undoes
  printing stated where it is used.
\<close>

subsection \<open>Validation\<close>

record wl_error =
  we_path :: string
  we_message :: string

record wl_validation =
  wl_ok :: bool
  wl_errors :: "wl_error list"

definition werr :: "string \<Rightarrow> string \<Rightarrow> wl_error" where
  "werr path message = \<lparr>we_path = path, we_message = message\<rparr>"

text \<open>\<open>v ?? null\<close>\<close>

fun or_null :: "jsval \<Rightarrow> jsval" where
  "or_null JUndef = JNull"
| "or_null v = v"

fun code_str :: "layout_error_code \<Rightarrow> string" where
  "code_str E_shape = ''shape''"
| "code_str E_version = ''version''"
| "code_str E_count = ''count''"
| "code_str E_session_id = ''session_id''"
| "code_str E_integer = ''integer''"
| "code_str E_bounds = ''bounds''"
| "code_str E_size = ''size''"
| "code_str E_duplicate = ''duplicate''"
| "code_str E_overlap = ''overlap''"

definition tab_path :: "nat \<Rightarrow> string" where
  "tab_path i = ''tabs['' @ nat_str i @ '']''"

definition id_errors :: "nat \<Rightarrow> jsval \<Rightarrow> (string \<rightharpoonup> nat) \<Rightarrow> wl_error list \<times> (string \<rightharpoonup> nat)" where
  "id_errors i v tabIds =
     (case v of
        JStr s \<Rightarrow>
          if length s < 1 \<or> length s > 64
          then ([werr (tab_path i @ ''.id'') ''tab id must contain 1 to 64 characters''], tabIds)
          else (case tabIds s of
             None \<Rightarrow> ([], tabIds(s \<mapsto> i))
           | Some first \<Rightarrow>
               ([werr (tab_path i @ ''.id'') (''tab id duplicates '' @ tab_path first @ ''.id'')], tabIds))
      | _ \<Rightarrow> ([werr (tab_path i @ ''.id'') ''tab id must contain 1 to 64 characters''], tabIds))"

definition name_errors :: "nat \<Rightarrow> jsval \<Rightarrow> wl_error list" where
  "name_errors i v =
     (case v of
        JStr s \<Rightarrow> if length s < 1 \<or> length s > 64
          then [werr (tab_path i @ ''.name'') ''tab name must contain 1 to 64 characters''] else []
      | _ \<Rightarrow> [werr (tab_path i @ ''.name'') ''tab name must contain 1 to 64 characters''])"

definition host_errors :: "nat \<Rightarrow> jsval \<Rightarrow> wl_error list" where
  "host_errors i hostId =
     (if hostId \<noteq> JNull \<and> js_string hostId = None
      then [werr (tab_path i @ ''.host_id'') ''host_id must be a string or null''] else [])"

definition cwd_errors :: "nat \<Rightarrow> jsval \<Rightarrow> wl_error list" where
  "cwd_errors i cwd =
     (if cwd \<noteq> JNull \<and> (case js_string cwd of None \<Rightarrow> True | Some s \<Rightarrow> length s > 1024)
      then [werr (tab_path i @ ''.cwd'') ''cwd must be a string of at most 1024 characters or null'']
      else [])"

definition grid_errors :: "nat \<Rightarrow> jsval \<Rightarrow> wl_error list" where
  "grid_errors i v =
     map (\<lambda>e. werr (tab_path i @ ''.layout'' @
         (case le_index e of None \<Rightarrow> [] | Some k \<Rightarrow> ''.tiles['' @ nat_str k @ '']''))
         (code_str (le_code e)))
       (vr_errors (validateGridLayout v))"

fun tab_loop :: "(nat \<times> jsval) list \<Rightarrow> (string \<rightharpoonup> nat) \<Rightarrow> wl_error list \<times> (string \<rightharpoonup> nat)" where
  "tab_loop [] tabIds = ([], tabIds)"
| "tab_loop ((i, candidate) # rest) tabIds =
     (if \<not> js_is_record candidate
      then (let (es, ids) = tab_loop rest tabIds in (werr (tab_path i) ''tab must be an object'' # es, ids))
      else
        let (idErrors, tabIds') = id_errors i (js_get candidate ''id'') tabIds;
            hostId = or_null (js_get candidate ''host_id'');
            cwd = or_null (js_get candidate ''cwd'');
            (es, ids) = tab_loop rest tabIds'
        in (idErrors @ name_errors i (js_get candidate ''name'') @ host_errors i hostId @
            cwd_errors i cwd @
            (if (hostId = JNull) \<noteq> (cwd = JNull)
             then [werr (tab_path i) ''tab host_id and cwd must both be set or both be null''] else []) @
            grid_errors i (js_get candidate ''layout'') @ es, ids))"

definition head_errors :: "jsval \<Rightarrow> wl_error list" where
  "head_errors v =
     (if js_get v ''version'' \<noteq> JNum 3 then [werr ''version'' ''version must be 3''] else []) @
     (if js_get v ''active_tab'' \<noteq> JNull \<and> js_string (js_get v ''active_tab'') = None
      then [werr ''active_tab'' ''active_tab must be a string or null''] else [])"

definition validateLayoutV3 :: "jsval \<Rightarrow> wl_validation" where
  "validateLayoutV3 v =
     (if \<not> js_is_record v
      then \<lparr>wl_ok = False, wl_errors = [werr ''$'' ''layout must be an object'']\<rparr>
      else case js_get v ''tabs'' of
        JArr ts \<Rightarrow>
          let (tabErrors, tabIds) = tab_loop (enumerate 0 ts) Map.empty;
              errors = head_errors v @
                (if length ts < 1 \<or> length ts > MAX_TABS
                 then [werr ''tabs'' (''tabs must contain between 1 and '' @ nat_str MAX_TABS @ '' items'')]
                 else []) @
                tabErrors @
                (case js_get v ''active_tab'' of
                   JStr a \<Rightarrow> if tabIds a = None
                     then [werr ''active_tab'' ''active_tab must identify a tab in this envelope''] else []
                 | _ \<Rightarrow> [])
          in \<lparr>wl_ok = (errors = []), wl_errors = errors\<rparr>
      | _ \<Rightarrow> \<lparr>wl_ok = False, wl_errors = head_errors v @ [werr ''tabs'' ''tabs must be an array'']\<rparr>)"

subsection \<open>Normalisation\<close>

text \<open>\<open>{ ...record, key: value }\<close>: the key keeps its place when the record has it.\<close>

fun set_field :: "string \<Rightarrow> jsval \<Rightarrow> (string \<times> jsval) list \<Rightarrow> (string \<times> jsval) list" where
  "set_field k v [] = [(k, v)]"
| "set_field k v ((l, w) # fs) = (if l = k then (k, v) # fs else (l, w) # set_field k v fs)"

text \<open>\<open>{ ...v }\<close>: strings and arrays spread into their elements, other scalars into nothing.\<close>

fun js_spread :: "jsval \<Rightarrow> (string \<times> jsval) list" where
  "js_spread (JObj fs) = fs"
| "js_spread (JArr vs) = map (\<lambda>(i, v). (nat_str i, v)) (enumerate 0 vs)"
| "js_spread (JStr s) = map (\<lambda>(i, c). (nat_str i, JStr [c])) (enumerate 0 s)"
| "js_spread _ = []"

fun js_truthy :: "jsval \<Rightarrow> bool" where
  "js_truthy JUndef = False"
| "js_truthy JNull = False"
| "js_truthy (JBool b) = b"
| "js_truthy (JNum q) = (q \<noteq> 0)"
| "js_truthy JNaN = False"
| "js_truthy (JInf b) = True"
| "js_truthy (JStr s) = (s \<noteq> [])"
| "js_truthy _ = True"

definition cloneTile :: "jsval \<Rightarrow> jsval" where
  "cloneTile t =
     (if js_truthy (js_get t ''widget'')
      then JObj (set_field ''widget'' (JObj (js_spread (js_get t ''widget''))) (js_spread t))
      else JObj (js_spread t))"

definition js_elements :: "jsval \<Rightarrow> jsval list" where
  "js_elements v = (case v of JArr vs \<Rightarrow> vs | _ \<Rightarrow> [])"

definition normalizeGrid :: "jsval \<Rightarrow> jsval" where
  "normalizeGrid grid =
     JObj (set_field ''tiles'' (JArr (map cloneTile (js_elements (js_get grid ''tiles''))))
       (set_field ''version'' (JNum 3) (js_spread grid)))"

definition normalizeTab :: "jsval \<Rightarrow> jsval" where
  "normalizeTab tab =
     JObj (set_field ''layout'' (normalizeGrid (js_get tab ''layout''))
       (set_field ''cwd'' (or_null (js_get tab ''cwd''))
         (set_field ''host_id'' (or_null (js_get tab ''host_id'')) (js_spread tab))))"

definition normalizeLayout :: "jsval \<Rightarrow> jsval" where
  "normalizeLayout layout =
     JObj (set_field ''tabs'' (JArr (map normalizeTab (js_elements (js_get layout ''tabs''))))
       (set_field ''version'' (JNum 3) (js_spread layout)))"

subsection \<open>Parsing and serialising\<close>

text \<open>\<open>LayoutV3ParseError\<close> carries the list of errors; it is the left of the sum.\<close>

definition parse_value :: "jsval \<Rightarrow> wl_error list + jsval" where
  "parse_value value =
     (let validation = validateLayoutV3 value in
      if \<not> wl_ok validation then Inl (wl_errors validation) else Inr (normalizeLayout value))"

definition parseLayoutV3 :: "(string \<Rightarrow> jsval option) \<Rightarrow> jsval \<Rightarrow> wl_error list + jsval" where
  "parseLayoutV3 json_parse input =
     (case input of
        JStr s \<Rightarrow>
          (case json_parse s of
             None \<Rightarrow> Inl [werr ''$'' ''layout is not valid JSON'']
           | Some value \<Rightarrow> parse_value value)
      | _ \<Rightarrow> parse_value input)"

definition serializeLayoutV3 :: "(jsval \<Rightarrow> string) \<Rightarrow> jsval \<Rightarrow> wl_error list + string" where
  "serializeLayoutV3 json_string layout =
     (let validation = validateLayoutV3 layout in
      if \<not> wl_ok validation then Inl (wl_errors validation) else Inr (json_string layout))"

definition cloneLayoutV3 ::
  "(string \<Rightarrow> jsval option) \<Rightarrow> (jsval \<Rightarrow> string) \<Rightarrow> jsval \<Rightarrow> wl_error list + jsval" where
  "cloneLayoutV3 json_parse json_string layout =
     (case serializeLayoutV3 json_string layout of
        Inl es \<Rightarrow> Inl es
      | Inr s \<Rightarrow> parseLayoutV3 json_parse (JStr s))"

subsection \<open>What validation accepts\<close>

definition opt_value :: "string option \<Rightarrow> jsval" where
  "opt_value x = (case x of None \<Rightarrow> JNull | Some s \<Rightarrow> JStr s)"

definition represents_tab :: "jsval \<Rightarrow> workspace_tab \<Rightarrow> bool" where
  "represents_tab v tab \<longleftrightarrow>
     js_is_record v \<and> js_get v ''id'' = JStr (tab_id tab) \<and> js_get v ''name'' = JStr (tab_name tab) \<and>
     or_null (js_get v ''host_id'') = opt_value (tab_host_id tab) \<and>
     or_null (js_get v ''cwd'') = opt_value (tab_cwd tab) \<and>
     represents_layout (js_get v ''layout'') (tiles_of tab)"

definition represents_envelope :: "jsval \<Rightarrow> layout_v3 \<Rightarrow> bool" where
  "represents_envelope v L \<longleftrightarrow>
     js_is_record v \<and> js_get v ''version'' = JNum 3 \<and>
     js_get v ''active_tab'' = opt_value (active_tab L) \<and>
     (\<exists>raws. js_get v ''tabs'' = JArr raws \<and> list_all2 represents_tab raws (tabs L))"

definition tab_fields_ok :: "workspace_tab \<Rightarrow> bool" where
  "tab_fields_ok tab \<longleftrightarrow>
     1 \<le> length (tab_id tab) \<and> length (tab_id tab) \<le> 64 \<and>
     1 \<le> length (tab_name tab) \<and> length (tab_name tab) \<le> 64 \<and>
     (case tab_cwd tab of None \<Rightarrow> True | Some s \<Rightarrow> length s \<le> 1024) \<and>
     (tab_host_id tab = None \<longleftrightarrow> tab_cwd tab = None)"

lemma opt_value_iff: "v = JNull \<or> (\<exists>s. v = JStr s) \<longleftrightarrow> (\<exists>x. v = opt_value x)"
proof
  assume "v = JNull \<or> (\<exists>s. v = JStr s)"
  then show "\<exists>x. v = opt_value x"
  proof
    assume "v = JNull"
    then have "v = opt_value None" by (simp add: opt_value_def)
    then show ?thesis ..
  next
    assume "\<exists>s. v = JStr s"
    then obtain s where "v = opt_value (Some s)" by (auto simp: opt_value_def)
    then show ?thesis ..
  qed
qed (auto simp: opt_value_def split: option.splits)

lemma opt_value_simps [simp]:
  "opt_value x = JNull \<longleftrightarrow> x = None" "JNull = opt_value x \<longleftrightarrow> x = None"
  "opt_value x = JStr s \<longleftrightarrow> x = Some s" "opt_value x = opt_value y \<longleftrightarrow> x = y"
  by (auto simp: opt_value_def split: option.splits)

lemma js_string_opt: "v \<noteq> JNull \<and> js_string v = None \<longleftrightarrow> \<not> (\<exists>x. v = opt_value x)"
  unfolding opt_value_iff [symmetric] by (cases v) auto

lemma host_errors_Nil: "host_errors i v = [] \<longleftrightarrow> (\<exists>x. v = opt_value x)"
  by (simp add: host_errors_def js_string_opt)

lemma cwd_errors_Nil:
  "cwd_errors i v = [] \<longleftrightarrow> (\<exists>x. v = opt_value x \<and> (case x of None \<Rightarrow> True | Some s \<Rightarrow> length s \<le> 1024))"
proof -
  have "cwd_errors i v = [] \<longleftrightarrow> v = JNull \<or> (\<exists>s. v = JStr s \<and> length s \<le> 1024)"
    by (cases v) (auto simp: cwd_errors_def)
  then show ?thesis by (auto simp: opt_value_def split: option.split)
qed

lemma name_errors_Nil: "name_errors i v = [] \<longleftrightarrow> (\<exists>s. v = JStr s \<and> 1 \<le> length s \<and> length s \<le> 64)"
  by (cases v) (auto simp: name_errors_def Suc_le_eq)

lemma grid_errors_Nil: "grid_errors i v = [] \<longleftrightarrow> (\<exists>ts. represents_layout v ts \<and> valid_tiles ts)"
proof -
  have "vr_errors (validateGridLayout v) = [] \<longleftrightarrow> vr_ok (validateGridLayout v)"
    by (auto simp: validateGridLayout_def Let_def split: jsval.split)
  moreover have "vr_ok (validate v) \<longleftrightarrow> (\<exists>ts. represents_layout v ts \<and> valid_tiles ts)"
    using validate_represented validate_ok_represents by blast
  ultimately show ?thesis by (simp add: grid_errors_def validateGridLayout_ok)
qed

lemma id_errors_Nil:
  "fst (id_errors i v seen) = [] \<longleftrightarrow> (\<exists>s. v = JStr s \<and> 1 \<le> length s \<and> length s \<le> 64 \<and> seen s = None)"
  by (cases v) (auto simp: id_errors_def Suc_le_eq split: option.split)

lemma id_errors_seen: "fst (id_errors i (JStr s) seen) = [] \<Longrightarrow> snd (id_errors i (JStr s) seen) = seen(s \<mapsto> i)"
  by (auto simp: id_errors_def split: if_splits option.splits)

text \<open>One tab is accepted exactly when it represents a tab whose fields are in range.\<close>

lemma tab_accepted:
  "js_is_record c \<and> fst (id_errors i (js_get c ''id'') seen) = [] \<and> name_errors j (js_get c ''name'') = [] \<and>
   host_errors k (or_null (js_get c ''host_id'')) = [] \<and> cwd_errors l (or_null (js_get c ''cwd'')) = [] \<and>
   (or_null (js_get c ''host_id'') = JNull) = (or_null (js_get c ''cwd'') = JNull) \<and>
   grid_errors m (js_get c ''layout'') = [] \<longleftrightarrow>
   (\<exists>tab. represents_tab c tab \<and> tab_fields_ok tab \<and> valid_tiles (tiles_of tab) \<and> seen (tab_id tab) = None)"
  (is "?L \<longleftrightarrow> ?R")
proof
  assume ?L
  then obtain s n h d ts where f: "js_is_record c" "js_get c ''id'' = JStr s" "1 \<le> length s" "length s \<le> 64"
      "seen s = None" "js_get c ''name'' = JStr n" "1 \<le> length n" "length n \<le> 64"
      "or_null (js_get c ''host_id'') = opt_value h" "or_null (js_get c ''cwd'') = opt_value d"
      "case d of None \<Rightarrow> True | Some s \<Rightarrow> length s \<le> 1024" "(h = None) = (d = None)"
      "represents_layout (js_get c ''layout'') ts" "valid_tiles ts"
    unfolding id_errors_Nil name_errors_Nil host_errors_Nil cwd_errors_Nil grid_errors_Nil by fastforce
  let ?tab = "\<lparr>tab_id = s, tab_name = n, tab_host_id = h, tab_cwd = d,
      tab_layout = \<lparr>gl_version = 3, gl_tiles = ts\<rparr>\<rparr>"
  have "represents_tab c ?tab \<and> tab_fields_ok ?tab \<and> valid_tiles (tiles_of ?tab) \<and> seen (tab_id ?tab) = None"
    using f by (simp add: represents_tab_def tab_fields_ok_def)
  then show ?R ..
next
  assume ?R
  then show ?L
    unfolding id_errors_Nil name_errors_Nil host_errors_Nil cwd_errors_Nil grid_errors_Nil
    by (auto simp: represents_tab_def tab_fields_ok_def)
qed

lemma tab_loop_Cons_Nil:
  "fst (tab_loop ((i, c) # rest) seen) = [] \<longleftrightarrow>
   (\<exists>tab. represents_tab c tab \<and> tab_fields_ok tab \<and> valid_tiles (tiles_of tab) \<and> seen (tab_id tab) = None \<and>
     fst (tab_loop rest (seen(tab_id tab \<mapsto> i))) = [])"
proof (cases "js_is_record c \<and> fst (id_errors i (js_get c ''id'') seen) = []")
  case False
  then have "fst (tab_loop ((i, c) # rest) seen) \<noteq> []"
    by (auto simp: Let_def split: prod.split)
  moreover have "\<not> (represents_tab c tab \<and> tab_fields_ok tab \<and> seen (tab_id tab) = None)" for tab
    using False by (auto simp: represents_tab_def tab_fields_ok_def id_errors_Nil)
  ultimately show ?thesis by blast
next
  case True
  then obtain s where s: "js_get c ''id'' = JStr s" by (auto simp: id_errors_Nil)
  then have seen': "snd (id_errors i (js_get c ''id'') seen) = seen(s \<mapsto> i)"
    using True id_errors_seen by simp
  have "tab_id tab = s" if "represents_tab c tab" for tab
    using that s by (simp add: represents_tab_def)
  then have "(\<exists>tab. represents_tab c tab \<and> tab_fields_ok tab \<and> valid_tiles (tiles_of tab) \<and>
        seen (tab_id tab) = None \<and> fst (tab_loop rest (seen(tab_id tab \<mapsto> i))) = []) \<longleftrightarrow>
      (\<exists>tab. represents_tab c tab \<and> tab_fields_ok tab \<and> valid_tiles (tiles_of tab) \<and>
        seen (tab_id tab) = None) \<and> fst (tab_loop rest (seen(s \<mapsto> i))) = []"
    by metis
  also have "\<dots> \<longleftrightarrow> fst (tab_loop ((i, c) # rest) seen) = []"
    unfolding tab_accepted [of c i seen i i i i, symmetric]
    using True seen' by (cases "id_errors i (js_get c ''id'') seen")
      (auto simp: Let_def split: prod.split)
  finally show ?thesis by blast
qed

lemma tab_loop_Nil:
  "fst (tab_loop (enumerate k cs) seen) = [] \<longleftrightarrow>
   (\<exists>us. list_all2 represents_tab cs us \<and> (\<forall>u \<in> set us. tab_fields_ok u \<and> valid_tiles (tiles_of u)) \<and>
     distinct (map tab_id us) \<and> tab_id ` set us \<inter> dom seen = {})"
proof (induction cs arbitrary: k seen)
  case (Cons c cs)
  have step: "fst (tab_loop (enumerate k (c # cs)) seen) = [] \<longleftrightarrow>
      (\<exists>tab us. represents_tab c tab \<and> tab_fields_ok tab \<and> valid_tiles (tiles_of tab) \<and> seen (tab_id tab) = None \<and>
        list_all2 represents_tab cs us \<and> (\<forall>u \<in> set us. tab_fields_ok u \<and> valid_tiles (tiles_of u)) \<and>
        distinct (map tab_id us) \<and> tab_id ` set us \<inter> dom (seen(tab_id tab \<mapsto> k)) = {})"
    unfolding enumerate_simps tab_loop_Cons_Nil Cons.IH by blast
  show ?case
  proof
    assume "fst (tab_loop (enumerate k (c # cs)) seen) = []"
    then obtain tab us where u: "represents_tab c tab" "tab_fields_ok tab" "valid_tiles (tiles_of tab)"
        "seen (tab_id tab) = None" "list_all2 represents_tab cs us"
        "\<forall>u \<in> set us. tab_fields_ok u \<and> valid_tiles (tiles_of u)" "distinct (map tab_id us)"
        "tab_id ` set us \<inter> dom (seen(tab_id tab \<mapsto> k)) = {}"
      unfolding step by blast
    then show "\<exists>us. list_all2 represents_tab (c # cs) us \<and>
        (\<forall>u \<in> set us. tab_fields_ok u \<and> valid_tiles (tiles_of u)) \<and>
        distinct (map tab_id us) \<and> tab_id ` set us \<inter> dom seen = {}"
      by (intro exI [of _ "tab # us"]) auto
  next
    assume "\<exists>us. list_all2 represents_tab (c # cs) us \<and>
        (\<forall>u \<in> set us. tab_fields_ok u \<and> valid_tiles (tiles_of u)) \<and>
        distinct (map tab_id us) \<and> tab_id ` set us \<inter> dom seen = {}"
    then obtain tab us where u: "represents_tab c tab" "list_all2 represents_tab cs us"
        "\<forall>u \<in> set (tab # us). tab_fields_ok u \<and> valid_tiles (tiles_of u)"
        "distinct (map tab_id (tab # us))" "tab_id ` set (tab # us) \<inter> dom seen = {}"
      unfolding list_all2_Cons1 by blast
    then have "seen (tab_id tab) = None" "tab_id ` set us \<inter> dom (seen(tab_id tab \<mapsto> k)) = {}"
      by auto
    with u show "fst (tab_loop (enumerate k (c # cs)) seen) = []"
      unfolding step by (intro exI [of _ tab] exI [of _ us]) simp
  qed
qed simp

lemma tab_loop_ids:
  assumes "fst (tab_loop (enumerate k cs) seen) = []" "list_all2 represents_tab cs us"
  shows "dom (snd (tab_loop (enumerate k cs) seen)) = dom seen \<union> tab_id ` set us"
  using assms(2,1)
proof (induction arbitrary: k seen rule: list_all2_induct)
  case (Cons c cs u us)
  have rec: "js_is_record c" "js_get c ''id'' = JStr (tab_id u)"
    using Cons.hyps by (simp_all add: represents_tab_def)
  obtain es ids where ie: "id_errors k (JStr (tab_id u)) seen = (es, ids)" by fastforce
  obtain es' ids' where tl: "tab_loop (enumerate (Suc k) cs) ids = (es', ids')" by fastforce
  have nil: "es = []" "es' = []" using Cons.prems rec ie tl by (auto simp: Let_def)
  then have "ids = seen(tab_id u \<mapsto> k)" using id_errors_seen [of k "tab_id u" seen] ie by simp
  moreover have "dom ids' = dom ids \<union> tab_id ` set us"
    using Cons.IH [of "Suc k" ids] tl nil by simp
  ultimately show ?case using rec ie tl by (auto simp: Let_def)
qed simp

lemma head_errors_Nil:
  "head_errors v = [] \<longleftrightarrow> js_get v ''version'' = JNum 3 \<and> (\<exists>x. js_get v ''active_tab'' = opt_value x)"
  unfolding head_errors_def js_string_opt by simp

lemma layout_accepted:
  "wl_ok (validateLayoutV3 v) \<longleftrightarrow>
   (\<exists>L. represents_envelope v L \<and> envelope_shape L \<and> list_all tab_fields_ok (tabs L))"
proof (cases "js_get v ''tabs''")
  case (JArr cs)
  obtain es ids where tl: "tab_loop (enumerate 0 cs) Map.empty = (es, ids)" by fastforce
  have iff: "wl_ok (validateLayoutV3 v) \<longleftrightarrow> js_is_record v \<and> head_errors v = [] \<and>
      1 \<le> length cs \<and> length cs \<le> 8 \<and> es = [] \<and>
      (\<forall>a. js_get v ''active_tab'' = JStr a \<longrightarrow> a \<in> dom ids)"
    by (cases "js_get v ''active_tab''") (auto simp: validateLayoutV3_def JArr tl Let_def Suc_le_eq)
  show ?thesis
  proof
    assume "wl_ok (validateLayoutV3 v)"
    then obtain act us where a: "js_is_record v" "js_get v ''version'' = JNum 3"
        "js_get v ''active_tab'' = opt_value act" "1 \<le> length cs" "length cs \<le> 8"
        "list_all2 represents_tab cs us" "\<forall>u \<in> set us. tab_fields_ok u \<and> valid_tiles (tiles_of u)"
        "distinct (map tab_id us)" "\<forall>a. act = Some a \<longrightarrow> a \<in> dom ids" "es = []"
      using tab_loop_Nil [of 0 cs Map.empty] unfolding iff head_errors_Nil tl by auto
    moreover have "dom ids = tab_id ` set us"
      using tab_loop_ids [of 0 cs Map.empty us] a(6,10) tl by simp
    moreover have "length us = length cs" using a(6) by (simp add: list_all2_lengthD)
    ultimately have "represents_envelope v \<lparr>lv_version = 3, active_tab = act, tabs = us\<rparr> \<and>
        envelope_shape \<lparr>lv_version = 3, active_tab = act, tabs = us\<rparr> \<and>
        list_all tab_fields_ok (tabs \<lparr>lv_version = 3, active_tab = act, tabs = us\<rparr>)"
      using JArr by (auto simp: represents_envelope_def envelope_shape_def list_all_iff)
    then show "\<exists>L. represents_envelope v L \<and> envelope_shape L \<and> list_all tab_fields_ok (tabs L)" ..
  next
    assume "\<exists>L. represents_envelope v L \<and> envelope_shape L \<and> list_all tab_fields_ok (tabs L)"
    then obtain L where L: "represents_envelope v L" "envelope_shape L" "list_all tab_fields_ok (tabs L)"
      by blast
    then have rep: "list_all2 represents_tab cs (tabs L)" "js_is_record v" "js_get v ''version'' = JNum 3"
        "js_get v ''active_tab'' = opt_value (active_tab L)"
      using JArr by (auto simp: represents_envelope_def)
    have "es = []"
      using tab_loop_Nil [of 0 cs Map.empty] rep(1) L(2,3) tl
      by (auto simp: envelope_shape_def list_all_iff)
    moreover from this have "dom ids = tab_id ` set (tabs L)"
      using tab_loop_ids [of 0 cs Map.empty "tabs L"] rep(1) tl by simp
    ultimately show "wl_ok (validateLayoutV3 v)"
      unfolding iff head_errors_Nil using rep L(2) list_all2_lengthD [OF rep(1)]
      by (auto simp: envelope_shape_def)
  qed
qed (auto simp: validateLayoutV3_def represents_envelope_def)

text \<open>
  C4: Reading a stored layout accepts exactly the values that represent an envelope of one to eight
  tabs with distinct ids, an active tab that is null or one of them, names and ids of 1 to 64
  characters, a working directory of at most 1024 characters, a host and a working directory that
  are both set or both null, and a valid grid in every tab. Whether two tabs share a session is not
  looked at.
\<close>

theorem validateLayoutV3_iff:
  "wl_ok (validateLayoutV3 v) \<longleftrightarrow>
   (\<exists>L. represents_envelope v L \<and> envelope_shape L \<and> list_all tab_fields_ok (tabs L))"
  by (rule layout_accepted)

subsection \<open>Normalised layouts\<close>

lemma map_of_set_field [simp]: "map_of (set_field k v fs) l = (if l = k then Some v else map_of fs l)"
  by (induction k v fs rule: set_field.induct) auto

lemma js_get_set_field [simp]:
  "js_get (JObj (set_field k v fs)) l = (if l = k then v else js_get (JObj fs) l)"
  by simp

lemma set_field_same: "map_of fs k = Some v \<Longrightarrow> set_field k v fs = fs"
  by (induction k v fs rule: set_field.induct) (auto split: if_splits)

lemma record_spread: "js_is_record v \<Longrightarrow> JObj (js_spread v) = v"
  by (cases v) auto

lemma nat_str_digits: "set (nat_str n) \<subseteq> set ''0123456789''"
proof (induction n rule: nat_str.induct)
  case (1 n)
  have "digit k \<in> set ''0123456789''" if "k < 10" for k
    unfolding digit_def using that by (intro nth_mem) simp
  with 1 show ?case by (subst nat_str.simps) auto
qed

lemma nat_str_widget [simp]: "nat_str n \<noteq> ''widget''" "''widget'' \<noteq> nat_str n"
proof -
  show "nat_str n \<noteq> ''widget''" using nat_str_digits [of n] by (intro notI) simp
  then show "''widget'' \<noteq> nat_str n" by (rule not_sym)
qed

lemma spread_no_widget: "\<not> js_is_record v \<Longrightarrow> map_of (js_spread v) ''widget'' = None"
  by (cases v) (auto simp: map_of_eq_None_iff)

lemma cloneTile_idem: "cloneTile (cloneTile t) = cloneTile t"
proof (cases "js_is_record t")
  case True
  then show ?thesis by (cases t) (simp_all add: cloneTile_def set_field_same)
next
  case False
  moreover from this have "js_get t ''widget'' = JUndef" by (cases t) simp_all
  ultimately show ?thesis by (simp add: cloneTile_def spread_no_widget)
qed

lemma normalizeGrid_idem: "normalizeGrid (normalizeGrid g) = normalizeGrid g"
  by (simp add: normalizeGrid_def js_elements_def set_field_same cloneTile_idem comp_def)

lemma or_null_idem [simp]: "or_null (or_null v) = or_null v"
  by (cases v) auto

lemma or_null_opt [simp]: "or_null (opt_value x) = opt_value x"
  by (cases x) (simp_all add: opt_value_def)

lemma normalizeTab_idem: "normalizeTab (normalizeTab t) = normalizeTab t"
  by (simp add: normalizeTab_def set_field_same normalizeGrid_idem)

lemma normalizeLayout_idem: "normalizeLayout (normalizeLayout v) = normalizeLayout v"
  by (simp add: normalizeLayout_def js_elements_def set_field_same normalizeTab_idem comp_def)

lemma represents_tile_record: "represents_tile v t \<Longrightarrow> js_is_record v"
  by (cases v) (auto simp: represents_tile_def)

lemma represents_cloneTile: "represents_tile v t \<Longrightarrow> represents_tile (cloneTile v) t"
  using represents_tile_record [of v t] record_spread [of v]
  by (simp add: represents_tile_def cloneTile_def del: js_get.simps)

lemma represents_normalizeGrid:
  assumes "represents_layout v ts"
  shows "represents_layout (normalizeGrid v) ts"
proof -
  from assms obtain raws where "js_get v ''tiles'' = JArr raws" and r: "list_all2 represents_tile raws ts"
    by (auto simp: represents_layout_def)
  moreover have "list_all2 represents_tile (map cloneTile raws) ts"
    using r by (auto simp: list_all2_conv_all_nth represents_cloneTile)
  ultimately show ?thesis
    by (simp add: represents_layout_def normalizeGrid_def js_elements_def del: js_get.simps)
qed

lemma represents_normalizeTab:
  assumes "represents_tab v tab"
  shows "represents_tab (normalizeTab v) tab"
  using assms record_spread [of v] represents_normalizeGrid [of "js_get v ''layout''" "tiles_of tab"]
  by (simp add: represents_tab_def normalizeTab_def del: js_get.simps)

lemma represents_normalizeLayout:
  assumes "represents_envelope v L"
  shows "represents_envelope (normalizeLayout v) L"
proof -
  from assms obtain raws where "js_get v ''tabs'' = JArr raws" and r: "list_all2 represents_tab raws (tabs L)"
    by (auto simp: represents_envelope_def)
  moreover have "list_all2 represents_tab (map normalizeTab raws) (tabs L)"
    using r by (auto simp: list_all2_conv_all_nth represents_normalizeTab)
  ultimately show ?thesis
    using assms record_spread [of v]
    by (simp add: represents_envelope_def normalizeLayout_def js_elements_def del: js_get.simps)
qed

lemma wl_ok_represented:
  "wl_ok (validateLayoutV3 v) \<Longrightarrow> wl_ok (validateLayoutV3 (normalizeLayout v))"
  unfolding layout_accepted using represents_normalizeLayout by blast

lemma parse_value_result:
  "case parse_value v of Inl es \<Rightarrow> es \<noteq> []
     | Inr w \<Rightarrow> wl_ok (validateLayoutV3 w) \<and> normalizeLayout w = w"
proof (cases "wl_ok (validateLayoutV3 v)")
  case True
  then show ?thesis by (simp add: parse_value_def wl_ok_represented normalizeLayout_idem)
next
  case False
  moreover have "\<not> wl_ok (validateLayoutV3 v) \<Longrightarrow> wl_errors (validateLayoutV3 v) \<noteq> []"
    by (auto simp: validateLayoutV3_def Let_def split: if_splits jsval.splits prod.splits)
  ultimately show ?thesis by (simp add: parse_value_def)
qed

lemma parseLayoutV3_cases:
  obtains (bad) s where "input = JStr s" "json_parse s = None"
      "parseLayoutV3 json_parse input = Inl [werr ''$'' ''layout is not valid JSON'']"
  | (json) s v where "input = JStr s" "json_parse s = Some v" "parseLayoutV3 json_parse input = parse_value v"
  | (plain) "\<nexists>s. input = JStr s" "parseLayoutV3 json_parse input = parse_value input"
proof (cases "\<exists>s. input = JStr s")
  case True
  then obtain s where "input = JStr s" ..
  then show thesis using bad json by (cases "json_parse s") (auto simp: parseLayoutV3_def)
next
  case False
  then have "parseLayoutV3 json_parse input = parse_value input"
    by (cases input) (simp_all add: parseLayoutV3_def)
  with False plain show thesis by blast
qed

lemma parseLayoutV3_normal:
  assumes "parseLayoutV3 json_parse input = Inr w"
  shows "wl_ok (validateLayoutV3 w)" "normalizeLayout w = w"
proof -
  have "\<exists>v. parse_value v = Inr w"
    by (rule parseLayoutV3_cases [of input json_parse]) (use assms in auto)
  then obtain v where "parse_value v = Inr w" ..
  then show "wl_ok (validateLayoutV3 w)" "normalizeLayout w = w"
    using parse_value_result [of v] by simp_all
qed

text \<open>
  Parsing either throws a non-empty list of errors or returns a layout that passes validation
  again, in normal form. Text that is no JSON gives the one error at the root path.
\<close>

theorem parseLayoutV3_result:
  "case parseLayoutV3 json_parse input of
     Inl es \<Rightarrow> es \<noteq> [] \<and>
       (\<forall>s. input = JStr s \<and> json_parse s = None \<longrightarrow> es = [werr ''$'' ''layout is not valid JSON''])
   | Inr w \<Rightarrow> wl_ok (validateLayoutV3 w) \<and> normalizeLayout w = w"
proof (rule parseLayoutV3_cases [of input json_parse])
  fix s v
  assume "input = JStr s" "json_parse s = Some v" "parseLayoutV3 json_parse input = parse_value v"
  then show ?thesis using parse_value_result [of v] by (simp split: sum.splits)
next
  assume "\<nexists>s. input = JStr s" "parseLayoutV3 json_parse input = parse_value input"
  then show ?thesis using parse_value_result [of input] by (simp split: sum.splits)
qed simp

text \<open>
  C5: Round trip. A layout that parsing returned can be serialised, and when the platform's JSON
  parser reads back what its printer wrote for it, parsing the text gives the same layout; cloning it
  is the identity.
\<close>

theorem layout_roundtrip:
  assumes "parseLayoutV3 json_parse input = Inr w" "json_parse (json_string w) = Some w"
  shows "serializeLayoutV3 json_string w = Inr (json_string w) \<and>
    parseLayoutV3 json_parse (JStr (json_string w)) = Inr w \<and>
    cloneLayoutV3 json_parse json_string w = Inr w"
proof -
  have w: "wl_ok (validateLayoutV3 w)" "normalizeLayout w = w"
    using parseLayoutV3_normal [OF assms(1)] by simp_all
  then show ?thesis
    using assms(2)
    by (simp add: serializeLayoutV3_def parseLayoutV3_def parse_value_def cloneLayoutV3_def)
qed

text \<open>A stored layout of one empty tab, and a codec that knows it.\<close>

definition stored_layout :: jsval where
  "stored_layout =
     JObj [(''version'', JNum 3), (''active_tab'', JStr ''t''), (''tabs'', JArr
       [JObj [(''id'', JStr ''t''), (''name'', JStr ''Tab 1''), (''host_id'', JNull), (''cwd'', JNull),
         (''layout'', JObj [(''version'', JNum 3), (''tiles'', JArr [])])]])]"

lemma parse_stored_layout:
  "parseLayoutV3 (\<lambda>s. if s = ''x'' then Some stored_layout else None) (JStr ''x'') = Inr stored_layout"
  by code_simp

theorem layout_roundtrip_witness:
  "parseLayoutV3 (\<lambda>s. if s = ''x'' then Some stored_layout else None) (JStr ''x'') = Inr stored_layout \<and>
   cloneLayoutV3 (\<lambda>s. if s = ''x'' then Some stored_layout else None) (\<lambda>_. ''x'') stored_layout =
     Inr stored_layout"
  using layout_roundtrip [OF parse_stored_layout, of "\<lambda>_. ''x''"] parse_stored_layout by simp

theorem parseLayoutV3_result_witness:
  "parseLayoutV3 (\<lambda>_. None) (JStr ''{'') = Inl [werr ''$'' ''layout is not valid JSON'']"
  using parseLayoutV3_result [where json_parse = "\<lambda>_. None" and input = "JStr ''{''"] by (simp add: parseLayoutV3_def)

end
