(* ===== verification/Free_Space.thy ===== *)
theory Free_Space
  imports Seams
begin

section \<open>Empty canvas\<close>

text \<open>
  The remaining part of \<open>web/src/components/workspace/workspace-grid-helpers.ts\<close>:
  \<open>expandTileIntoEmptySpace\<close>, which grows one tile to the largest empty rectangle around it,
  and \<open>freeRects\<close>, which carves the empty canvas into placeable rectangles with the help of
  prefix sums of the occupied cells. Both searches are shown to find what they look for: the result
  is optimal among all rectangles, not only among the ones the loops visit, and the prefix-sum test
  is equivalent to looking at every cell.
\<close>

subsection \<open>Growing a tile\<close>

text \<open>The four nested loops, in the order their rectangles are tried.\<close>

definition expansions :: "tile \<Rightarrow> rect list" where
  "expansions t =
     concat (map (\<lambda>x. concat (map (\<lambda>right. concat (map (\<lambda>y. map (\<lambda>bottom.
       \<lparr>gx = x, gy = y, gw = right - x, gh = bottom - y\<rparr>)
       [gy t + gh t..GRID_SIZE]) (rev [0..gy t])))
       [gx t + gw t..GRID_SIZE])) (rev [0..gx t]))"

definition originShift :: "tile \<Rightarrow> rect \<Rightarrow> int" where
  "originShift t c = gx t - gx c + (gy t - gy c)"

definition try_expand ::
  "tile \<Rightarrow> tile list \<Rightarrow> rect \<Rightarrow> rect \<times> int \<times> int \<Rightarrow> rect \<times> int \<times> int" where
  "try_expand t others c st =
     (case st of (best, bestArea, bestOriginShift) \<Rightarrow>
        if list_ex (rectsOverlap c) others then st
        else
          let ar = gw c * gh c; shift = originShift t c in
          if ar > bestArea \<or> ar = bestArea \<and> shift < bestOriginShift then (c, ar, shift) else st)"

definition best_expansion :: "tile \<Rightarrow> tile list \<Rightarrow> rect" where
  "best_expansion t others =
     fst (fold (try_expand t others) (expansions t) (rect_of t, gw t * gh t, 0))"

definition expandTileIntoEmptySpace :: "tile list \<Rightarrow> string \<Rightarrow> tile list" where
  "expandTileIntoEmptySpace tiles sid =
     (case find (\<lambda>t. session_id t = sid) tiles of
        None \<Rightarrow> tiles
      | Some target \<Rightarrow>
          let best = best_expansion target (filter (\<lambda>t. session_id t \<noteq> sid) tiles) in
          sortTiles (set_rect sid best tiles))"

subsection \<open>Occupied cells and their prefix sums\<close>

text \<open>\<open>occupied[y][x]\<close>; cells off the canvas are never read.\<close>

type_synonym occupancy = "int \<Rightarrow> int \<Rightarrow> bool"

definition mark :: "'a rect_scheme \<Rightarrow> occupancy \<Rightarrow> occupancy" where
  "mark r occ = (\<lambda>y x. occ y x \<or>
     gy r \<le> y \<and> y < gy r + gh r \<and> 0 \<le> y \<and> y < GRID_SIZE \<and> gx r \<le> x \<and> x < gx r + gw r)"

definition occupied_by :: "tile list \<Rightarrow> occupancy" where
  "occupied_by tiles = fold mark tiles (\<lambda>y x. False)"

text \<open>One row of \<open>rebuildSums\<close>, from the row above and the entry to the left.\<close>

fun sums_row :: "(int \<Rightarrow> bool) \<Rightarrow> int \<Rightarrow> int \<Rightarrow> int list \<Rightarrow> int list" where
  "sums_row occ x left (up # up' # rest) =
     (let v = (if occ x then 1 else 0) + up' + left - up
      in v # sums_row occ (x + 1) v (up' # rest))"
| "sums_row occ x left _ = []"

fun sums_rows :: "occupancy \<Rightarrow> int \<Rightarrow> nat \<Rightarrow> int list \<Rightarrow> int list list" where
  "sums_rows occ y 0 up = []"
| "sums_rows occ y (Suc n) up =
     (let r = 0 # sums_row (occ y) 0 0 up in r # sums_rows occ (y + 1) n r)"

definition rebuildSums :: "occupancy \<Rightarrow> int list list" where
  "rebuildSums occ =
     (let zeros = replicate (nat GRID_SIZE + 1) 0 in zeros # sums_rows occ 0 (nat GRID_SIZE) zeros)"

definition isFree :: "int list list \<Rightarrow> int \<Rightarrow> int \<Rightarrow> int \<Rightarrow> int \<Rightarrow> bool" where
  "isFree tbl x y w h \<longleftrightarrow>
     tbl ! nat (y + h) ! nat (x + w) - tbl ! nat y ! nat (x + w)
       - tbl ! nat (y + h) ! nat x + tbl ! nat y ! nat x = 0"

text \<open>The rectangles the scan reaches; its \<open>break\<close>s end a \<open>takeWhile\<close>.\<close>

definition free_at :: "occupancy \<Rightarrow> int list list \<Rightarrow> int \<Rightarrow> int \<Rightarrow> rect list" where
  "free_at occ tbl y x =
     (if occ y x then []
      else concat (map (\<lambda>h. map (\<lambda>w. \<lparr>gx = x, gy = y, gw = w, gh = h\<rparr>)
          (takeWhile (\<lambda>w. isFree tbl x y w h) [MIN_TILE_SIZE..GRID_SIZE - x]))
        (takeWhile (\<lambda>h. isFree tbl x y MIN_TILE_SIZE h) [MIN_TILE_SIZE..GRID_SIZE - y])))"

definition free_candidates :: "occupancy \<Rightarrow> rect list" where
  "free_candidates occ =
     (let tbl = rebuildSums occ in
      concat (map (\<lambda>y. concat (map (free_at occ tbl y) [0..GRID_SIZE - MIN_TILE_SIZE]))
        [0..GRID_SIZE - MIN_TILE_SIZE]))"

definition larger :: "rect \<Rightarrow> rect option \<Rightarrow> rect option" where
  "larger r best =
     (case best of
        None \<Rightarrow> Some r
      | Some b \<Rightarrow> if gw r * gh r > gw b * gh b then Some r else best)"

definition largest_free :: "occupancy \<Rightarrow> rect option" where
  "largest_free occ = fold larger (free_candidates occ) None"

subsection \<open>Prefix sums count occupied cells\<close>

definition occ_count :: "occupancy \<Rightarrow> int \<Rightarrow> int \<Rightarrow> int" where
  "occ_count occ y x = int (card {(b, a). 0 \<le> b \<and> b < y \<and> 0 \<le> a \<and> a < x \<and> occ b a})"

lemma finite_occ: "finite {(b, a). lo \<le> b \<and> b < y \<and> lo' \<le> (a::int) \<and> a < x \<and> occ (b::int) a}"
proof -
  have "{(b, a). lo \<le> b \<and> b < y \<and> lo' \<le> a \<and> a < x \<and> occ b a} \<subseteq> {lo..<y} \<times> {lo'..<x}" by auto
  then show ?thesis by (rule finite_subset) simp
qed

text \<open>The cells of a rectangle, by inclusion and exclusion.\<close>

lemma occ_count_rect:
  assumes "0 \<le> x" "0 \<le> y" "0 \<le> w" "0 \<le> h"
  shows "occ_count occ (y + h) (x + w) - occ_count occ y (x + w) - occ_count occ (y + h) x + occ_count occ y x =
    int (card {(b, a). y \<le> b \<and> b < y + h \<and> x \<le> a \<and> a < x + w \<and> occ b a})"
proof -
  let ?A = "{(b, a). 0 \<le> b \<and> b < y + h \<and> 0 \<le> a \<and> a < x + w \<and> occ b a}"
  let ?B = "{(b, a). 0 \<le> b \<and> b < y \<and> 0 \<le> a \<and> a < x + w \<and> occ b a}"
  let ?C = "{(b, a). 0 \<le> b \<and> b < y + h \<and> 0 \<le> a \<and> a < x \<and> occ b a}"
  let ?R = "{(b, a). y \<le> b \<and> b < y + h \<and> x \<le> a \<and> a < x + w \<and> occ b a}"
  have fin: "finite ?B" "finite ?C" "finite ?R" by (rule finite_occ)+
  have s1: "?A = (?B \<union> ?C) \<union> ?R" using assms by force
  have s2: "(?B \<union> ?C) \<inter> ?R = {}" by auto
  have s3: "?B \<inter> ?C = {(b, a). 0 \<le> b \<and> b < y \<and> 0 \<le> a \<and> a < x \<and> occ b a}" using assms by auto
  have "card ?A = card (?B \<union> ?C) + card ?R"
    unfolding s1 by (rule card_Un_disjoint [OF finite_UnI [OF fin(1,2)] fin(3) s2])
  moreover have "card ?B + card ?C = card (?B \<union> ?C) + card (?B \<inter> ?C)"
    by (rule card_Un_Int [OF fin(1,2)])
  ultimately show ?thesis unfolding occ_count_def s3 by linarith
qed

lemma occ_count_zero [simp]: "occ_count occ 0 x = 0" "occ_count occ y 0 = 0"
proof -
  have "{(b, a). 0 \<le> b \<and> b < 0 \<and> 0 \<le> a \<and> a < x \<and> occ b a} = {}"
    "{(b, a). 0 \<le> b \<and> b < y \<and> 0 \<le> a \<and> a < 0 \<and> occ b a} = {}" by auto
  then show "occ_count occ 0 x = 0" "occ_count occ y 0 = 0" 
    unfolding occ_count_def by (simp_all only: card.empty of_nat_0)
qed

lemma occ_count_step:
  assumes "0 \<le> x" "0 \<le> y"
  shows "occ_count occ (y + 1) (x + 1) =
    (if occ y x then 1 else 0) + occ_count occ y (x + 1) + occ_count occ (y + 1) x - occ_count occ y x"
proof -
  have "{(b, a). y \<le> b \<and> b < y + 1 \<and> x \<le> a \<and> a < x + 1 \<and> occ b a} = (if occ y x then {(y, x)} else {})"
    by (auto simp: order_antisym_conv)
  then show ?thesis using occ_count_rect [of x y 1 1 occ] assms by (auto split: if_splits)
qed

lemma sums_row_count:
  assumes "0 \<le> x" "0 \<le> y"
  shows "sums_row (occ y) x (occ_count occ (y + 1) x) (map (occ_count occ y) [x..m]) =
    map (occ_count occ (y + 1)) [x + 1..m]"
  using assms(1)
proof (induction "nat (m - x)" arbitrary: x)
  case 0
  then show ?case by (cases "x = m") auto
next
  case (Suc n)
  then have x: "x + 1 \<le> m" "n = nat (m - (x + 1))" by linarith+
  have up: "[x..m] = x # (x + 1) # [x + 1 + 1..m]" "[x + 1..m] = (x + 1) # [x + 1 + 1..m]"
    using x(1) by (simp_all add: upto_rec1)
  have IH: "sums_row (occ y) (x + 1) (occ_count occ (y + 1) (x + 1)) (map (occ_count occ y) [x + 1..m]) =
      map (occ_count occ (y + 1)) [x + 1 + 1..m]"
    using Suc.hyps(1) [OF x(2)] Suc.prems by simp
  have v: "(if occ y x then 1 else 0) + occ_count occ y (x + 1) + occ_count occ (y + 1) x - occ_count occ y x =
      occ_count occ (y + 1) (x + 1)"
    using occ_count_step [OF Suc.prems assms(2)] by simp
  show ?case using IH unfolding up list.map sums_row.simps Let_def v by simp
qed

lemma sums_rows_count:
  assumes "0 \<le> m" "0 \<le> y"
  shows "sums_rows occ y n (map (occ_count occ y) [0..m]) =
    map (\<lambda>b. map (occ_count occ b) [0..m]) [y + 1..y + int n]"
  using assms(2)
proof (induction n arbitrary: y)
  case (Suc n)
  have row: "0 # sums_row (occ y) 0 0 (map (occ_count occ y) [0..m]) = map (occ_count occ (y + 1)) [0..m]"
    using sums_row_count [of 0 y occ m] Suc.prems assms(1) by (simp add: upto_rec1)
  have "[y + 1..y + int (Suc n)] = (y + 1) # [y + 1 + 1..y + 1 + int n]"
    by (simp add: upto_rec1 add.commute add.left_commute)
  with Suc.IH [of "y + 1"] Suc.prems show ?case by (simp add: row Let_def)
qed simp

lemma rebuildSums_count:
  "rebuildSums occ = map (\<lambda>b. map (occ_count occ b) [0..24]) [0..24]"
proof -
  have zeros: "replicate (nat GRID_SIZE + 1) 0 = map (occ_count occ 0) [0..24]"
    by (rule nth_equalityI) simp_all
  have "rebuildSums occ = map (occ_count occ 0) [0..24] # sums_rows occ 0 24 (map (occ_count occ 0) [0..24])"
    unfolding rebuildSums_def Let_def zeros by simp
  also have "\<dots> = map (\<lambda>b. map (occ_count occ b) [0..24]) (0 # [0 + 1..0 + int 24])"
    unfolding list.map using sums_rows_count [of 24 0 occ 24] by simp
  also have "0 # [0 + 1..0 + int 24] = [0..24]" using upto_rec1 [of 0 24] by simp
  finally show ?thesis .
qed

lemma sums_nth:
  assumes "0 \<le> y" "y \<le> 24" "0 \<le> x" "x \<le> 24"
  shows "rebuildSums occ ! nat y ! nat x = occ_count occ y x"
proof -
  have "nat y < length [0..24]" "nat x < length [0..24]" using assms by auto
  moreover have "[0..24] ! nat y = y" "[0..24] ! nat x = x" using assms nth_upto [of 0 "nat _" 24] by auto
  ultimately show ?thesis unfolding rebuildSums_count by (simp only: nth_map)
qed

text \<open>The test by prefix sums is the test of every cell.\<close>

lemma isFree_iff:
  assumes "0 \<le> x" "0 \<le> y" "0 \<le> w" "0 \<le> h" "x + w \<le> 24" "y + h \<le> 24"
  shows "isFree (rebuildSums occ) x y w h \<longleftrightarrow>
    (\<forall>b a. y \<le> b \<and> b < y + h \<and> x \<le> a \<and> a < x + w \<longrightarrow> \<not> occ b a)"
proof -
  have "isFree (rebuildSums occ) x y w h \<longleftrightarrow>
      card {(b, a). y \<le> b \<and> b < y + h \<and> x \<le> a \<and> a < x + w \<and> occ b a} = 0"
    unfolding isFree_def using assms occ_count_rect [OF assms(1-4), of occ] by (simp add: sums_nth)
  also have "\<dots> \<longleftrightarrow> {(b, a). y \<le> b \<and> b < y + h \<and> x \<le> a \<and> a < x + w \<and> occ b a} = {}"
    using finite_occ by (rule card_0_eq)
  finally show ?thesis by auto
qed

subsection \<open>What the scan finds\<close>

text \<open>A placeable rectangle none of whose cells is occupied.\<close>

definition vacant :: "occupancy \<Rightarrow> rect \<Rightarrow> bool" where
  "vacant occ r \<longleftrightarrow> valid_rect r \<and>
     (\<forall>b a. gy r \<le> b \<and> b < gy r + gh r \<and> gx r \<le> a \<and> a < gx r + gw r \<longrightarrow> \<not> occ b a)"

lemma takeWhile_upto:
  "i \<in> set (takeWhile p [m..n]) \<longleftrightarrow> m \<le> i \<and> i \<le> n \<and> (\<forall>j. m \<le> j \<and> j \<le> i \<longrightarrow> p j)"
proof (induction "nat (n - m + 1)" arbitrary: m)
  case 0
  then show ?case by auto
next
  case (Suc k)
  then have mn: "m \<le> n" "k = nat (n - (m + 1) + 1)" by linarith+
  have IH: "i \<in> set (takeWhile p [m + 1..n]) \<longleftrightarrow> m + 1 \<le> i \<and> i \<le> n \<and> (\<forall>j. m + 1 \<le> j \<and> j \<le> i \<longrightarrow> p j)"
    using Suc.hyps(1) [OF mn(2)] .
  have step: "[m..n] = m # [m + 1..n]" by (rule upto_rec1 [OF mn(1)])
  show ?case
  proof (cases "p m")
    case False
    then show ?thesis unfolding step by auto
  next
    case True
    have "(\<forall>j. m \<le> j \<and> j \<le> i \<longrightarrow> p j) \<longleftrightarrow> (\<forall>j. m + 1 \<le> j \<and> j \<le> i \<longrightarrow> p j)"
      using True by (metis zle_add1_eq_le zless_add1_eq order_le_less add1_zle_eq)
    then show ?thesis using IH True mn(1) unfolding step by auto
  qed
qed

definition open_at :: "occupancy \<Rightarrow> int \<Rightarrow> int \<Rightarrow> int \<Rightarrow> int \<Rightarrow> bool" where
  "open_at occ x y w h \<longleftrightarrow> (\<forall>b a. y \<le> b \<and> b < y + h \<and> x \<le> a \<and> a < x + w \<longrightarrow> \<not> occ b a)"

lemma open_at_mono: "open_at occ x y w h \<Longrightarrow> w' \<le> w \<Longrightarrow> h' \<le> h \<Longrightarrow> open_at occ x y w' h'"
  unfolding open_at_def by (meson add_left_mono less_le_trans)

text \<open>A scan that stops at the first failure of a test that only gets harder reaches every success.\<close>

lemma takeWhile_mono_test:
  assumes "\<And>j. m \<le> j \<Longrightarrow> j \<le> n \<Longrightarrow> p j \<longleftrightarrow> q j" "\<And>i j. q i \<Longrightarrow> j \<le> i \<Longrightarrow> q j"
  shows "i \<in> set (takeWhile p [m..n]) \<longleftrightarrow> m \<le> i \<and> i \<le> n \<and> q i"
  unfolding takeWhile_upto using assms by (meson order_refl order_trans)

lemma free_at_iff:
  assumes "0 \<le> x" "x \<le> 20" "0 \<le> y" "y \<le> 20"
  shows "r \<in> set (free_at occ (rebuildSums occ) y x) \<longleftrightarrow> vacant occ r \<and> gx r = x \<and> gy r = y"
proof -
  let ?free = "open_at occ x y" and ?tbl = "rebuildSums occ"
  have test: "isFree ?tbl x y w h \<longleftrightarrow> ?free w h"
    if "4 \<le> w" "4 \<le> h" "w \<le> 24 - x" "h \<le> 24 - y" for w h
    unfolding open_at_def using assms that by (intro isFree_iff) auto
  have hs: "h \<in> set (takeWhile (\<lambda>h. isFree ?tbl x y 4 h) [4..24 - y]) \<longleftrightarrow> 4 \<le> h \<and> h \<le> 24 - y \<and> ?free 4 h" for h
    by (rule takeWhile_mono_test) (use test [of 4] assms open_at_mono in auto)
  have ws: "w \<in> set (takeWhile (\<lambda>w. isFree ?tbl x y w h) [4..24 - x]) \<longleftrightarrow> 4 \<le> w \<and> w \<le> 24 - x \<and> ?free w h"
    if "4 \<le> h" "h \<le> 24 - y" for w h
    by (rule takeWhile_mono_test) (use test that open_at_mono in auto)
  have "r \<in> set (free_at occ ?tbl y x) \<longleftrightarrow> \<not> occ y x \<and>
      (\<exists>h \<in> set (takeWhile (\<lambda>h. isFree ?tbl x y 4 h) [4..24 - y]).
       \<exists>w \<in> set (takeWhile (\<lambda>w. isFree ?tbl x y w h) [4..24 - x]). r = \<lparr>gx = x, gy = y, gw = w, gh = h\<rparr>)"
    by (auto simp: free_at_def)
  also have "\<dots> \<longleftrightarrow> \<not> occ y x \<and> (\<exists>h w. (4 \<le> h \<and> h \<le> 24 - y \<and> ?free 4 h) \<and>
      (4 \<le> w \<and> w \<le> 24 - x \<and> ?free w h) \<and> r = \<lparr>gx = x, gy = y, gw = w, gh = h\<rparr>)"
    unfolding Bex_def hs using ws by blast
  also have "\<dots> \<longleftrightarrow> (\<exists>h w. 4 \<le> h \<and> h \<le> 24 - y \<and> 4 \<le> w \<and> w \<le> 24 - x \<and> ?free w h \<and>
        r = \<lparr>gx = x, gy = y, gw = w, gh = h\<rparr>)"
  proof -
    have "?free w h \<Longrightarrow> 4 \<le> w \<Longrightarrow> 4 \<le> h \<Longrightarrow> ?free 4 h \<and> \<not> occ y x" for w h
      using open_at_mono [of occ x y w h 4 h] by (simp add: open_at_def)
    then show ?thesis by blast
  qed
  also have "\<dots> \<longleftrightarrow> vacant occ r \<and> gx r = x \<and> gy r = y"
    using assms by (cases r) (auto simp: vacant_def valid_rect_def open_at_def)
  finally show ?thesis .
qed

lemma free_candidates_iff: "r \<in> set (free_candidates occ) \<longleftrightarrow> vacant occ r"
proof -
  have "r \<in> set (free_candidates occ) \<longleftrightarrow>
      (\<exists>y \<in> {0..20}. \<exists>x \<in> {0..20}. r \<in> set (free_at occ (rebuildSums occ) y x))"
    unfolding free_candidates_def Let_def set_concat set_map set_upto image_image by simp
  also have "\<dots> \<longleftrightarrow> (\<exists>y \<in> {0..20}. \<exists>x \<in> {0..20}. vacant occ r \<and> gx r = x \<and> gy r = y)"
    using free_at_iff by auto
  also have "\<dots> \<longleftrightarrow> vacant occ r" by (auto simp: vacant_def valid_rect_def)
  finally show ?thesis .
qed

lemma fold_larger:
  "case fold larger rs best of
     None \<Rightarrow> rs = [] \<and> best = None
   | Some b \<Rightarrow> (b \<in> set rs \<or> best = Some b) \<and>
       (\<forall>r \<in> set rs. area r \<le> area b) \<and> (\<forall>c. best = Some c \<longrightarrow> area c \<le> area b)"
proof (induction rs arbitrary: best)
  case Nil
  then show ?case by (cases best) auto
next
  case (Cons r rs)
  obtain c where c: "larger r best = Some c" by (cases best) (force simp: larger_def)+
  have "area r \<le> area c" "c = r \<or> best = Some c" "\<forall>d. best = Some d \<longrightarrow> area d \<le> area c"
    using c by (auto simp: larger_def area_def split: option.splits if_splits)
  with Cons.IH [of "larger r best"] c show ?case
    by (cases "fold larger rs (Some c)") (auto intro: order_trans)
qed

lemma largest_free_Some:
  assumes "largest_free occ = Some r"
  shows "vacant occ r" "vacant occ q \<Longrightarrow> area q \<le> area r"
  using fold_larger [of "free_candidates occ" None] assms
  by (auto simp: largest_free_def free_candidates_iff)

lemma largest_free_None: "largest_free occ = None \<longleftrightarrow> (\<forall>r. \<not> vacant occ r)"
  using fold_larger [of "free_candidates occ" None] free_candidates_iff [of _ occ]
  by (cases "largest_free occ") (auto simp: largest_free_def)

subsection \<open>Carving the empty canvas\<close>

text \<open>Every round of the outer loop takes free cells, so the loop ends.\<close>

definition free_cells :: "occupancy \<Rightarrow> (int \<times> int) set" where
  "free_cells occ = {(b, a) \<in> canvas. \<not> occ b a}"

lemma finite_free_cells [simp]: "finite (free_cells occ)"
  unfolding free_cells_def by (rule finite_subset [OF _ finite_canvas]) auto

lemma mark_iff:
  assumes "valid_rect r"
  shows "mark r occ b a \<longleftrightarrow> occ b a \<or> (a, b) \<in> cells r"
  using assms by (auto simp: mark_def cells_def valid_rect_def)

lemma free_cells_mark:
  assumes "vacant occ r"
  shows "free_cells (mark r occ) \<subset> free_cells occ"
proof
  show "free_cells (mark r occ) \<subseteq> free_cells occ" by (auto simp: free_cells_def mark_def)
  have "(gy r, gx r) \<in> free_cells occ" "(gy r, gx r) \<notin> free_cells (mark r occ)"
    using assms by (auto simp: free_cells_def mark_def canvas_def vacant_def valid_rect_def)
  then show "free_cells (mark r occ) \<noteq> free_cells occ" by blast
qed

function free_loop :: "occupancy \<Rightarrow> rect list" where
  "free_loop occ =
     (case largest_free occ of None \<Rightarrow> [] | Some r \<Rightarrow> r # free_loop (mark r occ))"
  by pat_completeness auto

termination
  by (relation "measure (\<lambda>occ. card (free_cells occ))")
    (auto intro!: psubset_card_mono free_cells_mark dest: largest_free_Some(1))

declare free_loop.simps [simp del]

definition freeRects :: "tile list \<Rightarrow> rect list" where
  "freeRects tiles = free_loop (occupied_by tiles)"

lemma occupied_by_iff:
  assumes "\<forall>t \<in> set ts. valid_rect t"
  shows "occupied_by ts b a \<longleftrightarrow> (\<exists>t \<in> set ts. (a, b) \<in> cells t)"
proof -
  have "fold mark ts occ b a \<longleftrightarrow> occ b a \<or> (\<exists>t \<in> set ts. (a, b) \<in> cells t)" for occ
    using assms by (induction ts arbitrary: occ) (auto simp: mark_iff)
  then show ?thesis by (simp add: occupied_by_def)
qed

lemma vacant_cells: "vacant occ r \<longleftrightarrow> valid_rect r \<and> (\<forall>b a. (a, b) \<in> cells r \<longrightarrow> \<not> occ b a)"
  by (auto simp: vacant_def cells_def)

lemma overlaps_point:
  assumes "valid_rect r" "valid_rect q"
  shows "overlaps r q \<longleftrightarrow> (\<exists>a b. (a, b) \<in> cells r \<and> (a, b) \<in> cells q)"
proof -
  have "overlaps r q \<longleftrightarrow> cells r \<inter> cells q \<noteq> {}"
    using assms by (intro overlaps_cells) (auto simp: valid_rect_def)
  then show ?thesis by auto
qed

lemma vacant_mark:
  assumes "valid_rect r"
  shows "vacant (mark r occ) q \<longleftrightarrow> vacant occ q \<and> \<not> overlaps r q"
  using overlaps_point [OF assms, of q] unfolding vacant_cells mark_iff [OF assms] by blast

text \<open>What the loop returns, from any occupancy.\<close>

lemma free_loop_spec:
  "(\<forall>r \<in> set (free_loop occ). vacant occ r) \<and>
   sorted_wrt (\<lambda>p q. \<not> overlaps p q \<and> area q \<le> area p) (free_loop occ) \<and>
   (\<forall>q. vacant occ q \<longrightarrow> (\<exists>r \<in> set (free_loop occ). overlaps r q))"
proof (induction occ rule: free_loop.induct)
  case (1 occ)
  show ?case
  proof (cases "largest_free occ")
    case None
    then have "free_loop occ = []" by (simp add: free_loop.simps [of occ])
    then show ?thesis using None [unfolded largest_free_None] by simp
  next
    case (Some r)
    note r = largest_free_Some [OF Some]
    have v: "valid_rect r" using r(1) by (simp add: vacant_def)
    note m = vacant_mark [OF v, of occ]
    have step: "free_loop occ = r # free_loop (mark r occ)" using Some by (simp add: free_loop.simps [of occ])
    show ?thesis using 1 [OF Some] r unfolding step m by auto
  qed
qed

text \<open>
  C32: The rectangles offered for an empty part of a valid layout are legal panes, overlap neither a
  tile nor each other, come in order of falling size with the first as large as any free rectangle
  there is, and leave no room: every legal rectangle overlaps a tile or one of them.
\<close>

theorem freeRects_spec:
  assumes "valid_tiles ts"
  shows "(\<forall>r \<in> set (freeRects ts). valid_rect r \<and> (\<forall>t \<in> set ts. \<not> overlaps t r)) \<and>
    sorted_wrt (\<lambda>p q. \<not> overlaps p q \<and> area q \<le> area p) (freeRects ts) \<and>
    (\<forall>q::rect. valid_rect q \<longrightarrow>
      (\<exists>t \<in> set ts. overlaps t q) \<or> (\<exists>r \<in> set (freeRects ts). overlaps r q)) \<and>
    (\<forall>q::rect. valid_rect q \<and> (\<forall>t \<in> set ts. \<not> overlaps t q) \<longrightarrow> area q \<le> area (hd (freeRects ts)))"
proof -
  have v: "\<forall>t \<in> set ts. valid_rect t" using valid_tilesD(4) [OF assms] by blast
  have vac: "vacant (occupied_by ts) q \<longleftrightarrow> valid_rect q \<and> (\<forall>t \<in> set ts. \<not> overlaps t q)" for q
  proof (cases "valid_rect q")
    case True
    then have "overlaps t q \<longleftrightarrow> (\<exists>a b. (a, b) \<in> cells t \<and> (a, b) \<in> cells q)" if "t \<in> set ts" for t
      using v that overlaps_point by blast
    then show ?thesis using True unfolding vacant_cells occupied_by_iff [OF v] by blast
  qed (simp add: vacant_def)
  have big: "area q \<le> area (hd (freeRects ts))" if "vacant (occupied_by ts) q" for q
  proof -
    have "largest_free (occupied_by ts) \<noteq> None" using that unfolding largest_free_None by blast
    then obtain r where r: "largest_free (occupied_by ts) = Some r" by blast
    then have "hd (freeRects ts) = r" by (simp add: freeRects_def free_loop.simps [of "occupied_by ts"])
    with largest_free_Some(2) [OF r that] show ?thesis by simp
  qed
  show ?thesis
    using free_loop_spec [of "occupied_by ts", folded freeRects_def, unfolded vac] big [unfolded vac]
    by (intro conjI) blast+
qed

subsection \<open>The largest expansion\<close>

lemma expansions_iff:
  "c \<in> set (expansions t) \<longleftrightarrow>
     0 \<le> gx c \<and> gx c \<le> gx t \<and> 0 \<le> gy c \<and> gy c \<le> gy t \<and>
     gx t + gw t \<le> gx c + gw c \<and> gx c + gw c \<le> 24 \<and>
     gy t + gh t \<le> gy c + gh c \<and> gy c + gh c \<le> 24"
proof -
  have "c \<in> set (expansions t) \<longleftrightarrow>
      (\<exists>x \<in> {0..gx t}. \<exists>right \<in> {gx t + gw t..24}. \<exists>y \<in> {0..gy t}. \<exists>bottom \<in> {gy t + gh t..24}.
        c = \<lparr>gx = x, gy = y, gw = right - x, gh = bottom - y\<rparr>)"
    unfolding expansions_def set_concat set_map set_rev set_upto image_image by auto
  also have "\<dots> \<longleftrightarrow> gx c \<in> {0..gx t} \<and> gx c + gw c \<in> {gx t + gw t..24} \<and> gy c \<in> {0..gy t} \<and>
      gy c + gh c \<in> {gy t + gh t..24}"
  proof -
    have "(\<exists>r \<in> {lo..hi}. w = r - x) \<longleftrightarrow> lo \<le> x + w \<and> x + w \<le> hi" for lo hi w x :: int
      by (auto intro: bexI [of _ "x + w"])
    then show ?thesis by (cases c) auto
  qed
  finally show ?thesis by auto
qed

text \<open>The state of the search: its best rectangle with that rectangle's area and shift.\<close>

lemma expand_fold:
  assumes "fold (try_expand t others) cs (b0, area b0, originShift t b0) = (b, ba, bs)"
  shows "ba = area b \<and> bs = originShift t b \<and>
    (b = b0 \<or> b \<in> set cs \<and> (\<forall>o' \<in> set others. \<not> overlaps b o')) \<and>
    (\<forall>c \<in> insert b0 {c \<in> set cs. \<forall>o' \<in> set others. \<not> overlaps c o'}.
       area c < area b \<or> area c = area b \<and> originShift t b \<le> originShift t c)"
  using assms
proof (induction cs arbitrary: b0)
  case (Cons c cs)
  let ?b = "if (\<forall>o' \<in> set others. \<not> overlaps c o') \<and>
      (area c > area b0 \<or> area c = area b0 \<and> originShift t c < originShift t b0) then c else b0"
  have "try_expand t others c (b0, area b0, originShift t b0) = (?b, area ?b, originShift t ?b)"
    by (auto simp: try_expand_def Let_def list_ex_iff area_def)
  with Cons.prems have "fold (try_expand t others) cs (?b, area ?b, originShift t ?b) = (b, ba, bs)" by simp
  note IH = Cons.IH [OF this]
  have step: "area d < area ?b \<or> area d = area ?b \<and> originShift t ?b \<le> originShift t d"
    if "d = b0 \<or> d = c \<and> (\<forall>o' \<in> set others. \<not> overlaps c o')" for d
    using that by auto
  have "area d < area b \<or> area d = area b \<and> originShift t b \<le> originShift t d"
    if "d \<in> insert b0 {d \<in> set (c # cs). \<forall>o' \<in> set others. \<not> overlaps d o'}" for d
  proof (cases "d \<in> set cs \<and> (\<forall>o' \<in> set others. \<not> overlaps d o')")
    case True
    with IH show ?thesis by blast
  next
    case False
    with that have "d = b0 \<or> d = c \<and> (\<forall>o' \<in> set others. \<not> overlaps c o')" by auto
    from step [OF this] IH show ?thesis by (smt (verit) insertI1)
  qed
  moreover have "b = b0 \<or> b \<in> set (c # cs) \<and> (\<forall>o' \<in> set others. \<not> overlaps b o')"
    using IH by (auto split: if_splits)
  ultimately show ?case using IH by blast
qed auto

lemma best_expansion_spec:
  assumes "valid_rect t" "\<forall>u \<in> set others. \<not> overlaps t u" "b = best_expansion t others"
  shows "b \<in> set (expansions t)" "\<forall>u \<in> set others. \<not> overlaps b u"
    "c \<in> set (expansions t) \<Longrightarrow> \<forall>u \<in> set others. \<not> overlaps c u \<Longrightarrow>
       area c < area b \<or> area c = area b \<and> originShift t b \<le> originShift t c"
proof -
  obtain ba bs where f: "fold (try_expand t others) (expansions t) (rect_of t, area (rect_of t), originShift t (rect_of t)) = (b, ba, bs)"
    using assms(3) unfolding best_expansion_def
    by (cases "fold (try_expand t others) (expansions t) (rect_of t, gw t * gh t, 0)")
      (auto simp: area_def originShift_def)
  have t: "rect_of t \<in> set (expansions t)" using assms(1) by (simp add: expansions_iff valid_rect_def)
  note e = expand_fold [OF f]
  then show "b \<in> set (expansions t)" "\<forall>u \<in> set others. \<not> overlaps b u" using t assms(2) by auto
  show "area c < area b \<or> area c = area b \<and> originShift t b \<le> originShift t c"
    if "c \<in> set (expansions t)" "\<forall>u \<in> set others. \<not> overlaps c u"
    using e that by blast
qed

text \<open>
  Expanding a tile of a valid layout changes that tile only, to a rectangle that contains it
  and overlaps no other tile; no such rectangle of the canvas is larger, and none as large keeps
  the tile's origin nearer to where it was.
\<close>

theorem expand_largest:
  assumes "valid_tiles ts" "t \<in> set ts" "b = best_expansion t (filter (\<lambda>u. session_id u \<noteq> session_id t) ts)"
  shows "valid_tiles (expandTileIntoEmptySpace ts (session_id t)) \<and>
    set (expandTileIntoEmptySpace ts (session_id t)) = insert (with_rect t b) (set ts - {t}) \<and>
    cells t \<subseteq> cells b \<and>
    (\<forall>c::rect. valid_rect c \<and> cells t \<subseteq> cells c \<and> (\<forall>u \<in> set ts - {t}. \<not> overlaps c u) \<longrightarrow>
       area c < area b \<or> area c = area b \<and> originShift t b \<le> originShift t c)"
proof -
  let ?o = "others_of (session_id t) ts"
  note d = valid_tilesD(2) [OF assms(1)]
  have o: "set ?o = set ts - {t}" by (rule set_others_of [OF d assms(2)])
  have b: "b = best_expansion t ?o" by (simp add: assms(3) others_of_def)
  have vt: "valid_rect t" using valid_tilesD(4) [OF assms(1,2)] .
  have free: "\<forall>u \<in> set ?o. \<not> overlaps t u"
    using valid_tilesD(5) [OF assms(1,2)] by (auto simp: others_of_def)
  note best = best_expansion_spec [OF vt free b]
  have vb: "valid_rect b" using best(1) vt by (simp add: expansions_iff valid_rect_def)
  have sub: "cells t \<subseteq> cells b" using best(1) by (auto simp: expansions_iff cells_def)
  let ?s = "set_rect (session_id t) b ts"
  have f: "find (\<lambda>u. session_id u = session_id t) ts = Some t" using find_tile [OF assms(1)] assms(2) by blast
  have r: "expandTileIntoEmptySpace ts (session_id t) = sortTiles ?s"
    unfolding expandTileIntoEmptySpace_def f option.case Let_def assms(3) ..
  note m = mset_set_rect [OF d assms(2), of b]
  have "valid_tiles (with_rect t b # ?o)"
    by (rule valid_tiles_replace [OF assms(1,2)]) (use vb best(2) overlaps_sym in auto)
  then have "valid_tiles ?s" using valid_tiles_mset [OF m] by blast
  moreover have "set ?s = insert (with_rect t b) (set ts - {t})"
    using mset_eq_setD [OF m] o by simp
  moreover have "area c < area b \<or> area c = area b \<and> originShift t b \<le> originShift t c"
    if c: "valid_rect c" "cells t \<subseteq> cells c" "\<forall>u \<in> set ts - {t}. \<not> overlaps c u" for c
  proof (rule best(3))
    have "(gx t, gy t) \<in> cells t" "(gx t + gw t - 1, gy t + gh t - 1) \<in> cells t"
      using vt by (simp_all add: cells_def valid_rect_def)
    with c(2) have "(gx t, gy t) \<in> cells c" "(gx t + gw t - 1, gy t + gh t - 1) \<in> cells c" by blast+
    then show "c \<in> set (expansions t)" using c(1) by (auto simp: expansions_iff cells_def valid_rect_def)
  qed (use c(3) o in blast)
  ultimately show ?thesis using sub unfolding r valid_sortTiles set_sortTiles by blast
qed

subsection \<open>Instances\<close>

theorem freeRects_spec_witness:
  "\<exists>q \<in> set (freeRects pair_layout). valid_rect q \<and> overlaps q \<lparr>gx = 12, gy = 12, gw = 4, gh = 4\<rparr>"
proof -
  let ?q = "\<lparr>gx = 12, gy = 12, gw = 4, gh = 4\<rparr>"
  have "valid_rect ?q" "\<not> (\<exists>t \<in> set pair_layout. overlaps t ?q)"
    by (auto simp: valid_rect_def overlaps_def pair_layout_def)
  with freeRects_spec [OF valid_pair_layout] show ?thesis by blast
qed

theorem expand_largest_witness:
  "valid_tiles (expandTileIntoEmptySpace pair_layout ''b'')"
proof -
  have "tile_at ''b'' \<lparr>gx = 12, gy = 0, gw = 12, gh = 12\<rparr> \<in> set pair_layout" by (simp add: pair_layout_def)
  from expand_largest [OF valid_pair_layout this refl] show ?thesis by simp
qed

end
