(* ===== verification/Pane_Writes.thy ===== *)
theory Pane_Writes
  imports Tab_Merge Layout_V3 Free_Space
begin

section \<open>What the clients write of a tab's panes\<close>

text \<open>
  The writes that change the panes of one tab. In the web client these are the gestures of
  \<open>workspace-grid.tsx\<close> and the menus that open, copy and close panes (\<open>new-session-menu.tsx\<close>,
  \<open>launcher-fab.tsx\<close>); on the phone \<open>use-workspace-actions.ts\<close> and \<open>launch-orchestrator.ts\<close>. A pane that
  belongs to a session is created by the server, so a client first writes the room for it
  (\<open>make_room\<close>) and the pane appears with the session; a files widget is part of the layout and is written whole.
\<close>

subsection \<open>Gestures on the panes of a tab\<close>

datatype gesture =
    GCompact
  | GMove string int int
  | GResize string int int
  | GDrag string int int
  | GDock string string dock_zone
  | GDivider grid_divider rat
  | GEdges string edge_targets
  | GExpand string

fun gesture_do :: "gesture \<Rightarrow> tile list \<Rightarrow> tile list" where
  "gesture_do GCompact ts = compact_tiles ts"
| "gesture_do (GMove sid x y) ts = move ts sid x y"
| "gesture_do (GResize sid w h) ts = resize ts sid w h"
| "gesture_do (GDrag sid x y) ts = movePane ts sid x y"
| "gesture_do (GDock sid targetId zone) ts =
     (case dockPane ts sid targetId zone of None \<Rightarrow> ts | Some r \<Rightarrow> r)"
| "gesture_do (GDivider d line) ts = moveDivider ts d line"
| "gesture_do (GEdges sid targets) ts = resizeEdges ts sid targets"
| "gesture_do (GExpand sid) ts = expandTileIntoEmptySpace ts sid"

text \<open>
  Where a pane opens: at a side of another pane, wherever there is room, pushed in at a cell, or exactly where it was
  dropped, if the result is valid.
\<close>

datatype pane_place = AtSide string dock_zone | Anywhere | AtSpot int int int int | Exactly rect

fun place_pane :: "pane_place \<Rightarrow> tile list \<Rightarrow> string \<Rightarrow> tile list option" where
  "place_pane (AtSide targetId zone) ts sid = dockInsert ts sid targetId zone"
| "place_pane Anywhere ts sid = addPaneTiles ts sid"
| "place_pane (AtSpot w h x y) ts sid = insertPane ts sid w h x y"
| "place_pane (Exactly r) ts sid =
     (let candidate = ts @ [tile_at sid r] in if validates candidate then Some candidate else None)"

lemma dockPane_edit:
  assumes "valid_tiles ts" "dockPane ts sid targetId zone = Some r"
  shows "valid_tiles r \<and> mset (map content r) = mset (map content ts)"
proof -
  from assms(2) obtain moved where f: "find (\<lambda>t. session_id t = sid) ts = Some moved" and ne: "sid \<noteq> targetId"
    by (auto simp: dockPane_def split: option.splits if_splits)
  then have moved: "moved \<in> set ts" "session_id moved = sid" using find_tile [OF assms(1)] by auto
  have "targetId \<in> session_id ` set ts"
  proof (cases "rebalanceBand ts moved targetId zone")
    case (Some q)
    then have "targetId \<in> session_id ` set q" using rebalanceBand_docked [OF Some] by blast
    moreover have "mset (map content q) = mset (map content ts)"
      using rebalanceBand_Some(3) [OF Some] content_replace [OF assms(1) moved(1) refl] by simp
    ultimately show ?thesis using content_ids by (metis mset_eq_setD set_map)
  next
    case None
    then obtain t where "find (\<lambda>t. session_id t = targetId) (remove ts sid) = Some t"
      using assms(2) f ne by (auto simp: dockPane_def Let_def split: option.splits)
    then have "targetId \<in> session_id ` set (remove ts sid)" by (auto simp: find_Some_iff)
    then show ?thesis using removed_rest(3) [OF assms(1) moved(1)] moved(2) by blast
  qed
  with dockPane_spec [OF assms(1) moved(1), of targetId zone] assms(2) moved(2) ne show ?thesis by simp
qed

interpretation dock_edit: tile_edit "\<lambda>ts. case dockPane ts sid targetId zone of None \<Rightarrow> ts | Some r \<Rightarrow> r"
  by unfold_locales (auto simp: dockPane_edit simp del: mset_map split: option.split)

lemma expand_edit_valid:
  assumes "valid_tiles ts"
  shows "valid_tiles (expandTileIntoEmptySpace ts sid)"
    "mset (map content (expandTileIntoEmptySpace ts sid)) = mset (map content ts)"
proof -
  have "valid_tiles (expandTileIntoEmptySpace ts sid) \<and>
    mset (map content (expandTileIntoEmptySpace ts sid)) = mset (map content ts)"
  proof (cases "find (\<lambda>t. session_id t = sid) ts")
    case None
    then show ?thesis using assms by (simp add: expandTileIntoEmptySpace_def)
  next
    case (Some t)
    then have t: "t \<in> set ts" "session_id t = sid" using find_tile [OF assms] by auto
    let ?us = "set_rect sid (best_expansion t (filter (\<lambda>t. session_id t \<noteq> sid) ts)) ts"
    have "mset (map content (expandTileIntoEmptySpace ts sid)) = mset (map content ?us)"
      using Some by (simp add: expandTileIntoEmptySpace_def Let_def del: set_rect_content)
    then have "mset (map content (expandTileIntoEmptySpace ts sid)) = mset (map content ts)"
      by (simp only: set_rect_content)
    with expand_largest [OF assms t(1) refl] t(2) show ?thesis by simp
  qed
  then show "valid_tiles (expandTileIntoEmptySpace ts sid)"
    "mset (map content (expandTileIntoEmptySpace ts sid)) = mset (map content ts)" by auto
qed

interpretation expand_edit: tile_edit "\<lambda>ts. expandTileIntoEmptySpace ts sid"
  by unfold_locales (fact expand_edit_valid)+

interpretation gesture_edit: tile_edit "gesture_do g" for g
proof
  fix ts assume v: "valid_tiles ts"
  show "valid_tiles (gesture_do g ts)"
    using v dock_edit.edit_valid
    by (cases g) (simp_all add: compact_edit.edit_valid move_edit.edit_valid resize_edit.edit_valid
      pane_edit.edit_valid divider_edit.edit_valid resize_edges_edit.edit_valid expand_edit.edit_valid)
  show "mset (map content (gesture_do g ts)) = mset (map content ts)"
    using v dock_edit.edit_content
    by (cases g) (simp_all add: compact_edit.edit_content move_edit.edit_content resize_edit.edit_content
      pane_edit.edit_content divider_edit.edit_content resize_edges_edit.edit_content expand_edit.edit_content del: mset_map)
qed

interpretation place_adder: pane_adder "place_pane p" for p
proof
  fix ts sid r
  assume a: "valid_tiles ts" "sid \<noteq> []" "sid \<notin> session_id ` set ts" "place_pane p ts sid = Some r"
  show "valid_tiles r \<and> mset (map content r) = add_mset (sid, None) (mset (map content ts))"
  proof (cases p)
    case (AtSide targetId zone)
    with a show ?thesis by (intro dock_adder.add_pane) simp_all
  next
    case Anywhere
    with a show ?thesis by (intro pane_tiles_adder.add_pane) simp_all
  next
    case (AtSpot w h x y)
    with a show ?thesis by (intro insert_adder.add_pane) simp_all
  next
    case (Exactly r)
    with a show ?thesis by (auto simp: Let_def content_def split: if_splits)
  qed
qed

subsection \<open>Writes of the web client\<close>

type_synonym window = "string \<times> tile_widget option"

definition withWidget :: "string \<Rightarrow> tile_widget \<Rightarrow> tile list \<Rightarrow> tile list" where
  "withWidget tileId wd ts = map (\<lambda>t. if session_id t = tileId then t\<lparr>widget := Some wd\<rparr> else t) ts"

text \<open>\<open>{ ...tile.widget, path }\<close>\<close>

definition changeWidgetPath :: "tile list \<Rightarrow> string \<Rightarrow> string \<Rightarrow> tile list" where
  "changeWidgetPath ts tileId path =
     map (\<lambda>t. case widget t of
        Some wd \<Rightarrow> if session_id t = tileId then t\<lparr>widget := Some (set_field ''path'' (JStr path) wd)\<rparr> else t
      | None \<Rightarrow> t) ts"

text \<open>Nothing is written when the order stays as it is.\<close>

definition moveMobile :: "tile list \<Rightarrow> string \<Rightarrow> int \<Rightarrow> tile list option" where
  "moveMobile ts sid delta =
     (let nextOrder = moveIdInOrder (readingOrder ts) sid delta
      in if nextOrder = readingOrder ts then None else repackMobileTiles ts nextOrder)"

text \<open>
  The tiles a write replaces, the windows it opens and closes, and the tiles it leaves. \<open>fresh\<close> are the ids no tile
  of the workspace has.
\<close>

inductive pane_write ::
  "(string \<Rightarrow> bool) \<Rightarrow> tile list \<Rightarrow> window multiset \<Rightarrow> window multiset \<Rightarrow> tile list \<Rightarrow> bool"
  for fresh where
  gesture: "pane_write fresh ts {#} {#} (gesture_do g ts)"
| move_mobile: "moveMobile ts sid delta = Some us \<Longrightarrow> pane_write fresh ts {#} {#} us"
| close_pane: "t \<in> set ts \<Longrightarrow> pane_write fresh ts {#} {#content t#} (remove ts (session_id t))"
| make_room: "fresh PENDING_TILE_ID \<Longrightarrow> place_pane p ts PENDING_TILE_ID = Some us \<Longrightarrow>
    pane_write fresh ts {#} {#} (filter (\<lambda>t. session_id t \<noteq> PENDING_TILE_ID) us)"
| open_pane: "fresh sid \<Longrightarrow> place_pane p ts sid = Some us \<Longrightarrow> pane_write fresh ts {#(sid, None)#} {#} us"
| open_widget: "fresh sid \<Longrightarrow> place_pane p ts sid = Some us \<Longrightarrow>
    pane_write fresh ts {#(sid, Some wd)#} {#} (withWidget sid wd us)"
| change_path: "t \<in> set ts \<Longrightarrow> widget t = Some wd \<Longrightarrow>
    pane_write fresh ts {#(session_id t, Some (set_field ''path'' (JStr path) wd))#} {#(session_id t, Some wd)#}
      (changeWidgetPath ts (session_id t) path)"

subsection \<open>Writes of the phone\<close>

definition replaceTabLayout :: "layout_v3 \<Rightarrow> string \<Rightarrow> workspace_tab \<Rightarrow> layout_v3" where
  "replaceTabLayout L tabId nextTab = L\<lparr>tabs := map (\<lambda>tab. if tab_id tab = tabId then nextTab else tab) (tabs L)\<rparr>"

definition reorderPaneLayout ::
  "(string \<Rightarrow> string \<Rightarrow> int) \<Rightarrow> layout_v3 \<Rightarrow> string \<Rightarrow> string \<Rightarrow> int \<Rightarrow> layout_v3" where
  "reorderPaneLayout lc L tabId paneId offset =
     (case find (\<lambda>tab. tab_id tab = tabId) (tabs L) of
        None \<Rightarrow> L
      | Some tab \<Rightarrow>
          let ids = map session_id (orderedTiles lc (tiles_of tab)) in
          case find_index (\<lambda>i. i = paneId) ids of
            None \<Rightarrow> L
          | Some from \<Rightarrow>
              let to = nat (min (max 0 (int from + offset)) (int (length ids) - 1)) in
              if from = to then L
              else if ids ! from = [] then L
              else replaceTabLayout L tabId
                (applyMobileOrder lc tab (insert_at to (ids ! from) (remove_at from ids))))"

text \<open>
  Copying a pane on the phone (\<open>duplicatePane\<close>, with the id of the copy and the widget it keeps), the room the
  launcher makes for a session, and the files widget it adds.
\<close>

definition duplicatePane_m :: "(string \<Rightarrow> string \<Rightarrow> int) \<Rightarrow> layout_v3 \<Rightarrow> workspace_tab \<Rightarrow> tile \<Rightarrow> layout_v3 option" where
  "duplicatePane_m lc L sourceTab t =
     (case addTile lc (tiles_of sourceTab) t of
        None \<Rightarrow> None
      | Some ts \<Rightarrow> Some (replaceTabLayout L (tab_id sourceTab) (put_tiles ts sourceTab)))"

definition launch_room :: "(string \<Rightarrow> string \<Rightarrow> int) \<Rightarrow> layout_v3 \<Rightarrow> workspace_tab \<Rightarrow> layout_v3 option" where
  "launch_room lc L target =
     (case autoPlace_m lc (tiles_of target) of
        (None, _) \<Rightarrow> None
      | (Some spot, placed) \<Rightarrow>
          Some ((replaceTabLayout L (tab_id target) (put_tiles placed target))\<lparr>active_tab := Some (tab_id target)\<rparr>))"

definition launch_widget ::
  "(string \<Rightarrow> string \<Rightarrow> int) \<Rightarrow> layout_v3 \<Rightarrow> workspace_tab \<Rightarrow> string \<Rightarrow> tile_widget \<Rightarrow> layout_v3 option" where
  "launch_widget lc L target newId wd =
     (case autoPlace_m lc (tiles_of target) of
        (None, _) \<Rightarrow> None
      | (Some spot, placed) \<Rightarrow>
          Some ((replaceTabLayout L (tab_id target)
            (put_tiles (placed @ [(tile_at newId spot)\<lparr>widget := Some wd\<rparr>]) target))\<lparr>active_tab := Some (tab_id target)\<rparr>))"

subsection \<open>What a write keeps\<close>

text \<open>Setting a widget touches neither geometry nor ids.\<close>

lemma valid_tiles_relabel:
  assumes "\<And>t. session_id (f t) = session_id t" "\<And>t. rect_of (f t) = rect_of t"
  shows "valid_tiles (map f ts) = valid_tiles ts"
proof -
  have r: "gx (f t) = gx t" "gy (f t) = gy t" "gw (f t) = gw t" "gh (f t) = gh t" for t
    using assms(2) [of t] by (simp_all add: rect_of_def)
  then have "overlaps (f a) (f b) = overlaps a b" "valid_rect (f a) = valid_rect a" for a b
    by (simp_all add: overlaps_def valid_rect_def)
  then show ?thesis
    by (simp add: valid_tiles_def disjoint_tiles_def assms(1) comp_def)
qed

lemma withWidget_valid: "valid_tiles (withWidget sid wd ts) = valid_tiles ts"
  unfolding withWidget_def by (rule valid_tiles_relabel) (simp_all add: rect_of_def)

lemma withWidget_content:
  assumes "mset (map content us) = add_mset (sid, None) (mset (map content ts))" "sid \<notin> session_id ` set ts"
  shows "mset (map content (withWidget sid wd us)) = add_mset (sid, Some wd) (mset (map content ts))"
proof -
  let ?g = "\<lambda>c. if fst c = sid then (sid, Some wd) else c"
  have "map content (withWidget sid wd us) = map ?g (map content us)"
    by (simp add: withWidget_def content_def)
  then have "mset (map content (withWidget sid wd us)) = image_mset ?g (mset (map content us))" by (simp only: mset_map)
  also have "\<dots> = add_mset (sid, Some wd) (image_mset ?g (mset (map content ts)))" unfolding assms(1) by simp
  also have "image_mset ?g (mset (map content ts)) = image_mset (\<lambda>c. c) (mset (map content ts))"
    using assms(2) by (intro image_mset_cong) (auto simp: content_def)
  finally show ?thesis by simp
qed

lemma changeWidgetPath_valid: "valid_tiles (changeWidgetPath ts sid path) = valid_tiles ts"
  unfolding changeWidgetPath_def by (rule valid_tiles_relabel) (simp_all add: rect_of_def split: option.split)

lemma changeWidgetPath_content:
  assumes "valid_tiles ts" "t \<in> set ts" "widget t = Some wd"
  shows "add_mset (content t) (mset (map content (changeWidgetPath ts (session_id t) path))) =
    add_mset (session_id t, Some (set_field ''path'' (JStr path) wd)) (mset (map content ts))"
proof -
  let ?f = "\<lambda>u. case widget u of
        Some wd \<Rightarrow> if session_id u = session_id t then u\<lparr>widget := Some (set_field ''path'' (JStr path) wd)\<rparr> else u
      | None \<Rightarrow> u"
  let ?o = "others_of (session_id t) ts"
  have ts: "mset ts = add_mset t (mset ?o)" using valid_tilesD(2) [OF assms(1)] assms(2) by (rule mset_others_of)
  have "image_mset (content \<circ> ?f) (mset ?o) = image_mset content (mset ?o)"
    by (intro image_mset_cong) (auto simp: others_of_def split: option.split)
  then have "mset (map content (changeWidgetPath ts (session_id t) path)) =
      add_mset (content (?f t)) (image_mset content (mset ?o))"
    by (simp add: changeWidgetPath_def ts image_mset.compositionality)
  moreover have "mset (map content ts) = add_mset (content t) (image_mset content (mset ?o))" by (simp add: ts)
  moreover have "content (?f t) = (session_id t, Some (set_field ''path'' (JStr path) wd))"
    using assms(3) by (simp add: content_def)
  ultimately show ?thesis by simp
qed

lemma mset_moveIdInOrder: "mset (moveIdInOrder ids sid delta) = mset ids"
proof (cases "find_index (\<lambda>i. i = sid) ids")
  case (Some k)
  have "k < length ids" using find_index_first [OF Some] by simp
  then have "mset (ids[k := ids ! nat (int k + delta), nat (int k + delta) := ids ! k]) = mset ids"
    if "\<not> int k + delta < 0" "\<not> int (length ids) \<le> int k + delta"
    using that by (intro mset_swap) (simp_all add: nat_less_iff)
  then show ?thesis using Some by (simp add: moveIdInOrder_def Let_def)
qed (simp add: moveIdInOrder_def)

lemma moveMobile_kept:
  assumes "valid_tiles ts" "moveMobile ts sid delta = Some us"
  shows "valid_tiles us \<and> mset (map content us) = mset (map content ts)"
proof -
  have next_order: "moveIdInOrder (readingOrder ts) sid delta \<noteq> readingOrder ts"
      "repackMobileTiles ts (moveIdInOrder (readingOrder ts) sid delta) = Some us"
    using assms(2) by (simp_all add: moveMobile_def Let_def split: if_splits)
  then have "ts \<noteq> []" by (auto simp: readingOrder_def moveIdInOrder_def sortTiles_def)
  moreover have "mset (moveIdInOrder (readingOrder ts) sid delta) = mset (map session_id ts)"
    by (simp add: mset_moveIdInOrder readingOrder_def)
  ultimately show ?thesis using repackMobileTiles_order [OF assms(1)] next_order(2) by fastforce
qed

lemma make_room_kept:
  assumes "valid_tiles ts" "sid \<noteq> []" "sid \<notin> session_id ` set ts" "place_pane p ts sid = Some us"
  shows "valid_tiles (filter (\<lambda>t. session_id t \<noteq> sid) us) \<and>
    mset (map content (filter (\<lambda>t. session_id t \<noteq> sid) us)) = mset (map content ts)"
proof -
  note a = place_adder.add_pane [OF assms]
  have "mset (map content (filter (\<lambda>t. session_id t \<noteq> sid) us)) = filter_mset (\<lambda>c. fst c \<noteq> sid) (mset (map content us))"
    by (induction us) (auto simp: content_def)
  also have "\<dots> = filter_mset (\<lambda>c. fst c \<noteq> sid) (mset (map content ts))" using a by (simp del: mset_map)
  also have "\<dots> = mset (map content ts)"
    using assms(3) by (auto simp: filter_mset_eq_conv content_def)
  finally show ?thesis using a valid_tiles_filter by blast
qed

text \<open>A write opens windows under fresh ids, or under the id of a window it closes.\<close>

definition opens_well :: "(string \<Rightarrow> bool) \<Rightarrow> window multiset \<Rightarrow> window multiset \<Rightarrow> bool" where
  "opens_well fresh new gone \<longleftrightarrow>
     image_mset fst new \<subseteq># image_mset fst gone \<or> (\<exists>sid wd. new = {#(sid, wd)#} \<and> gone = {#} \<and> fresh sid)"

lemma pane_write_kept:
  assumes "pane_write fresh ts new gone us" "valid_tiles ts"
    and "\<And>sid. fresh sid \<Longrightarrow> sid \<noteq> [] \<and> sid \<notin> session_id ` set ts"
  shows "valid_tiles us \<and> mset (map content us) + gone = mset (map content ts) + new \<and> opens_well fresh new gone"
  using assms(1,2)
proof cases
  case (gesture g)
  then show ?thesis
    using gesture_edit.edit_valid [OF assms(2), of g] gesture_edit.edit_content [OF assms(2), of g]
    by (simp add: opens_well_def del: mset_map)
next
  case (move_mobile sid delta)
  then show ?thesis using moveMobile_kept [OF assms(2)] by (simp add: opens_well_def del: mset_map)
next
  case (close_pane t)
  then show ?thesis
    using remove_valid_content [OF assms(2), of "session_id t"] content_split_others [OF assms(2) close_pane(4)]
    by (simp add: opens_well_def)
next
  case (make_room p vs)
  then show ?thesis
    using make_room_kept [OF assms(2)] assms(3) by (simp add: opens_well_def del: mset_map)
next
  case (open_pane sid p)
  then show ?thesis
    using place_adder.add_pane [OF assms(2), of sid p us] assms(3) [OF open_pane(3)]
    by (simp add: opens_well_def del: mset_map)
next
  case (open_widget sid p vs wd)
  note a = place_adder.add_pane [OF assms(2), of sid p vs] assms(3) [OF open_widget(4)]
  then show ?thesis
    using open_widget withWidget_content [of vs sid ts wd] by (auto simp: opens_well_def withWidget_valid simp del: mset_map)
next
  case (change_path t wd path)
  then show ?thesis
    using changeWidgetPath_content [OF assms(2) change_path(4,5), of path] assms(2)
    by (simp add: opens_well_def changeWidgetPath_valid content_def del: mset_map)
qed

lemma mobile_order_tiles:
  assumes "valid_tiles (tiles_of tab)"
  shows "\<exists>us. applyMobileOrder lc tab ids = tab \<or>
    applyMobileOrder lc tab ids = put_tiles us tab \<and> valid_tiles us \<and> mset (map content us) = mset (map content (tiles_of tab))"
proof (cases "tiles_of tab = [] \<or> mset ids \<noteq> mset (map session_id (tiles_of tab))")
  case True
  then show ?thesis
    using applyMobileOrder_agrees [OF assms, of ids lc] assms
    by (cases "tiles_of tab = []") (auto simp: applyMobileOrder_def isValidMobileOrder_def)
next
  case False
  then obtain us where us: "repackMobileTiles (tiles_of tab) ids = Some us"
      "applyMobileOrder lc tab ids = put_tiles (sortTiles us) tab" "valid_tiles us"
    using applyMobileOrder_agrees [OF assms, of ids lc] by auto
  moreover have "mset (map content us) = mset (map content (tiles_of tab))"
    using repackMobileTiles_order [OF assms, of ids] False us(1) by auto
  ultimately show ?thesis by (intro exI [of _ "sortTiles us"]) simp
qed

end
