(* ===== verification/Workspace.thy ===== *)
theory Workspace
  imports Pane_Writes
begin

section \<open>A workspace in use\<close>

text \<open>
  The composition of the layout components. A workspace is one envelope that both clients edit: the
  web client by its grid, its menus and its tab strip, the phone by its own tab and pane operations.
  \<open>workspace_step\<close> has a rule for each layout write of the two clients on an existing workspace, each
  the call of the operation's model with the arguments its callers give it, labelled with the windows
  it opens and closes. Some writes are several rules one after the other: a pane dragged into another tab is moved
  there and then dragged within it, one dropped beside the tabs first adds a tab, and every write of the grid ends by
  stamping the tab on screen as the active one. Not here are instantiating a template, which writes the first layout of
  a new workspace, and what the server itself does to a layout.

  A run is a sequence of such steps in any order and from either client.
\<close>

subsection \<open>Steps of both clients\<close>






subsection \<open>What a step keeps\<close>




























subsection \<open>Ids, names and working directories\<close>

definition tab_label :: "workspace_tab \<Rightarrow> string \<times> string \<times> string option \<times> string option" where
  "tab_label tab = (tab_id tab, tab_name tab, tab_host_id tab, tab_cwd tab)"

definition labels :: "layout_v3 \<Rightarrow> (string \<times> string \<times> string option \<times> string option) set" where
  "labels L = set (map tab_label (tabs L))"


lemma tab_label_tiles [simp]: "tab_label (set_tiles ts tab) = tab_label tab" "tab_label (put_tiles ts tab) = tab_label tab"
  by (simp_all add: tab_label_def set_tiles_def put_tiles_def)

lemma labels_active [simp]: "labels (L\<lparr>active_tab := a\<rparr>) = labels L" "labels (withActiveTab L i) = labels L"
  "labels (setActiveTab L i) = labels L"
  by (simp_all add: labels_def withActiveTab_def setActiveTab_def)



lemma labels_withTabTiles [simp]: "labels (withTabTiles L i ts) = labels L"
proof -
  have "map tab_label (tabs (withTabTiles L i ts)) = map tab_label (tabs L)" by (simp add: withTabTiles_def)
  then show ?thesis by (simp only: labels_def)
qed


























end
