(* ===== verification/Connection.thy ===== *)
theory Connection
  imports Prelude
begin

section \<open>The terminal connection's state machine\<close>

text \<open>
  \<open>mobile/src/terminal/transport/state-machine.ts\<close>: the reducer behind every terminal
  connection. A connection is ready only when five gates have opened since the last signalling
  socket did. The theorems are about all event sequences: which states are reachable, when input
  may flow, that a retired connection stays down until it is resumed, and that every state can be
  brought back to ready.

  \<open>Math.random()\<close> is an argument of the step that reads it. Each floating-point operation is
  followed by the rounding \<open>fl\<close>; the decimals \<open>0.7\<close> and \<open>0.6\<close> of the source are the
  binary fractions a program holds for them.
\<close>

subsection \<open>State and events\<close>

datatype transport_state = Idle | Signalling | Connecting | Ready | Reconnecting | Closed | Failed

record readiness_gates =
  bindingAccepted :: bool
  ptyOpen :: bool
  ctlOpen :: bool
  daemonReady :: bool
  historyReady :: bool

record connection =
  phase :: transport_state
  gates :: readiness_gates
  reconnectAttempt :: nat
  reconnectDelayMs :: "int option"
  retired :: bool

datatype readiness_gate = G_binding | G_pty | G_ctl | G_daemon | G_history

datatype transport_event =
    EOpen | ESignalOpen | EGate readiness_gate | EDisconnect | ERetry | EBackground | EResume
  | EClose | EFail

definition EMPTY_GATES :: readiness_gates where
  "EMPTY_GATES = \<lparr>bindingAccepted = False, ptyOpen = False, ctlOpen = False, daemonReady = False,
     historyReady = False\<rparr>"

definition INITIAL_CONNECTION_STATE :: connection where
  "INITIAL_CONNECTION_STATE = \<lparr>phase = Idle, gates = EMPTY_GATES, reconnectAttempt = 0,
     reconnectDelayMs = None, retired = False\<rparr>"

definition readinessComplete :: "readiness_gates \<Rightarrow> bool" where
  "readinessComplete g \<longleftrightarrow>
     bindingAccepted g \<and> ptyOpen g \<and> ctlOpen g \<and> daemonReady g \<and> historyReady g"

definition double_07 :: rat where
  "double_07 = 6305039478318694 / 2 ^ 53"

definition double_06 :: rat where
  "double_06 = 5404319552844595 / 2 ^ 53"

definition reconnectDelay :: "(rat \<Rightarrow> rat) \<Rightarrow> nat \<Rightarrow> rat \<Rightarrow> int" where
  "reconnectDelay fl attempt random =
     (let base = min 30000 (500 * 2 ^ attempt) in
      js_round (fl (base * fl (double_07 + fl (max 0 (min 1 random) * double_06)))))"

fun open_gate :: "readiness_gate \<Rightarrow> readiness_gates \<Rightarrow> readiness_gates" where
  "open_gate G_binding g = g\<lparr>bindingAccepted := True\<rparr>"
| "open_gate G_pty g = g\<lparr>ptyOpen := True\<rparr>"
| "open_gate G_ctl g = g\<lparr>ctlOpen := True\<rparr>"
| "open_gate G_daemon g = g\<lparr>daemonReady := True\<rparr>"
| "open_gate G_history g = g\<lparr>historyReady := True\<rparr>"

fun reduceConnection ::
  "(rat \<Rightarrow> rat) \<Rightarrow> rat \<Rightarrow> connection \<Rightarrow> transport_event \<Rightarrow> connection" where
  "reduceConnection fl random s EOpen =
     (if phase s \<noteq> Idle \<and> phase s \<noteq> Closed then s
      else INITIAL_CONNECTION_STATE\<lparr>phase := Signalling\<rparr>)"
| "reduceConnection fl random s ESignalOpen =
     (if phase s \<noteq> Signalling \<and> phase s \<noteq> Reconnecting \<and> phase s \<noteq> Ready then s
      else s\<lparr>phase := Connecting, gates := EMPTY_GATES, reconnectDelayMs := None\<rparr>)"
| "reduceConnection fl random s (EGate gate) =
     (if phase s \<noteq> Connecting then s
      else let g = open_gate gate (gates s); ready = readinessComplete g in
        s\<lparr>gates := g, phase := (if ready then Ready else Connecting),
          reconnectAttempt := (if ready then 0 else reconnectAttempt s),
          reconnectDelayMs := (if ready then None else reconnectDelayMs s)\<rparr>)"
| "reduceConnection fl random s EDisconnect =
     (if phase s = Closed \<or> phase s = Failed \<or> retired s then s
      else let attempt = reconnectAttempt s + 1 in
        s\<lparr>phase := Reconnecting, gates := EMPTY_GATES, reconnectAttempt := attempt,
          reconnectDelayMs := Some (reconnectDelay fl (attempt - 1) random)\<rparr>)"
| "reduceConnection fl random s ERetry =
     (if phase s \<noteq> Reconnecting then s
      else s\<lparr>phase := Signalling, gates := EMPTY_GATES, reconnectDelayMs := None\<rparr>)"
| "reduceConnection fl random s EBackground = s\<lparr>phase := Closed, gates := EMPTY_GATES, retired := True\<rparr>"
| "reduceConnection fl random s EResume =
     (if \<not> retired s then s else INITIAL_CONNECTION_STATE\<lparr>phase := Signalling\<rparr>)"
| "reduceConnection fl random s EClose = s\<lparr>phase := Closed, gates := EMPTY_GATES, retired := True\<rparr>"
| "reduceConnection fl random s EFail = s\<lparr>phase := Failed, gates := EMPTY_GATES, retired := True\<rparr>"

definition reduce_phase :: "(rat \<Rightarrow> rat) \<Rightarrow> rat \<Rightarrow> transport_state \<Rightarrow> transport_event \<Rightarrow> transport_state" where
  "reduce_phase fl random s e = phase (reduceConnection fl random (INITIAL_CONNECTION_STATE\<lparr>phase := s\<rparr>) e)"

subsection \<open>Reachable states\<close>

text \<open>A step is one event, with whatever number \<open>Math.random()\<close> returned for it.\<close>

inductive connection_step :: "(rat \<Rightarrow> rat) \<Rightarrow> connection \<Rightarrow> transport_event \<Rightarrow> connection \<Rightarrow> bool" for fl where
  step: "connection_step fl s e (reduceConnection fl random s e)"

inductive_cases connection_stepE [elim!]: "connection_step fl s e t"

inductive connection_run :: "(rat \<Rightarrow> rat) \<Rightarrow> transport_event list \<Rightarrow> connection \<Rightarrow> bool" for fl where
  init: "connection_run fl [] INITIAL_CONNECTION_STATE"
| event: "connection_run fl es s \<Longrightarrow> connection_step fl s e t \<Longrightarrow> connection_run fl (es @ [e]) t"

text \<open>What every reachable state satisfies.\<close>

definition connection_inv :: "connection \<Rightarrow> bool" where
  "connection_inv s \<longleftrightarrow>
     (phase s = Ready \<longrightarrow> readinessComplete (gates s) \<and> reconnectAttempt s = 0) \<and>
     (phase s = Connecting \<longrightarrow> \<not> readinessComplete (gates s)) \<and>
     (phase s \<notin> {Ready, Connecting} \<longrightarrow> gates s = EMPTY_GATES) \<and>
     (phase s \<in> {Closed, Failed} \<longleftrightarrow> retired s) \<and>
     (phase s = Reconnecting \<longrightarrow> reconnectDelayMs s \<noteq> None) \<and>
     (phase s \<in> {Idle, Signalling, Connecting, Ready} \<longrightarrow> reconnectDelayMs s = None)"

lemma not_ready_empty [simp]: "\<not> readinessComplete EMPTY_GATES"
  by (simp add: readinessComplete_def EMPTY_GATES_def)

lemma initial_simps [simp]:
  "phase INITIAL_CONNECTION_STATE = Idle" "gates INITIAL_CONNECTION_STATE = EMPTY_GATES"
  "reconnectAttempt INITIAL_CONNECTION_STATE = 0" "reconnectDelayMs INITIAL_CONNECTION_STATE = None"
  "\<not> retired INITIAL_CONNECTION_STATE"
  by (simp_all add: INITIAL_CONNECTION_STATE_def)

lemma step_inv:
  assumes "connection_inv s"
  shows "connection_inv (reduceConnection fl random s e)"
  using assms by (cases e; cases "phase s") (simp_all add: connection_inv_def Let_def)

lemma run_inv: "connection_run fl es s \<Longrightarrow> connection_inv s"
proof (induction rule: connection_run.induct)
  case init
  show ?case by (simp add: connection_inv_def)
next
  case (event es s e t)
  then show ?case by (auto intro: step_inv)
qed

text \<open>
  C7: Whatever events arrive in whatever order, a connection is ready only with all five gates open
  and its retry count cleared, it still waits for a gate while it is connecting, every other phase
  has all gates shut, it is retired exactly when it is closed or failed, and a retry delay is pending
  whenever it is reconnecting and never while it is coming up or ready.
\<close>

theorem connection_invariant:
  assumes "connection_run fl es s"
  shows "connection_inv s"
  using assms by (rule run_inv)

text \<open>The events that take a connection down.\<close>

definition down_events :: "transport_event set" where
  "down_events = {EDisconnect, EBackground, EClose, EFail}"

fun gate_open :: "readiness_gates \<Rightarrow> readiness_gate \<Rightarrow> bool" where
  "gate_open g G_binding = bindingAccepted g"
| "gate_open g G_pty = ptyOpen g"
| "gate_open g G_ctl = ctlOpen g"
| "gate_open g G_daemon = daemonReady g"
| "gate_open g G_history = historyReady g"

lemma gate_open_open: "gate_open (open_gate g gs) h \<longleftrightarrow> h = g \<or> gate_open gs h"
  by (cases g; cases h) simp_all

lemma gate_open_empty [simp]: "\<not> gate_open EMPTY_GATES g"
  by (cases g) (simp_all add: EMPTY_GATES_def)

lemma readiness_gates_open: "readinessComplete gs \<longleftrightarrow> (\<forall>g. gate_open gs g)"
proof
  assume "readinessComplete gs"
  then have "gate_open gs g" for g by (cases g) (simp_all add: readinessComplete_def)
  then show "\<forall>g. gate_open gs g" ..
next
  assume a: "\<forall>g. gate_open gs g"
  from a [rule_format, of G_binding] a [rule_format, of G_pty] a [rule_format, of G_ctl]
    a [rule_format, of G_daemon] a [rule_format, of G_history]
  show "readinessComplete gs" by (simp add: readinessComplete_def)
qed

definition came_up :: "transport_event list \<Rightarrow> readiness_gates \<Rightarrow> bool" where
  "came_up es gs \<longleftrightarrow>
     (\<exists>as bs. es = as @ ESignalOpen # bs \<and> (\<forall>g. gate_open gs g \<longrightarrow> EGate g \<in> set bs) \<and>
       set bs \<inter> down_events = {})"

lemma came_up_more:
  assumes "came_up es gs" "e \<notin> down_events" "\<forall>g. gate_open gs' g \<longrightarrow> gate_open gs g \<or> e = EGate g"
  shows "came_up (es @ [e]) gs'"
proof -
  from assms(1) obtain as bs where "es = as @ ESignalOpen # bs"
      "\<forall>g. gate_open gs g \<longrightarrow> EGate g \<in> set bs" "set bs \<inter> down_events = {}"
    unfolding came_up_def by blast
  with assms(2,3) show ?thesis unfolding came_up_def
    by (intro exI [of _ as] exI [of _ "bs @ [e]"]) auto
qed

lemma came_up_fresh: "came_up (es @ [ESignalOpen]) EMPTY_GATES"
  unfolding came_up_def by (intro exI [of _ es] exI [of _ "[]"]) simp

lemma step_came_up:
  assumes "connection_inv s" "phase s \<in> {Connecting, Ready} \<longrightarrow> came_up es (gates s)"
    and "phase (reduceConnection fl random s e) \<in> {Connecting, Ready}"
  shows "came_up (es @ [e]) (gates (reduceConnection fl random s e))"
proof (cases "e = ESignalOpen \<and> phase s \<noteq> Connecting")
  case True
  then show ?thesis using assms(3) came_up_fresh by (auto split: if_splits)
next
  case False
  have ret: "retired s \<Longrightarrow> phase s = Closed \<or> phase s = Failed"
    using assms(1) by (simp add: connection_inv_def)
  have down: "e \<notin> down_events"
    using assms(3) ret by (cases e) (auto simp: down_events_def Let_def split: if_splits)
  have up: "phase s \<in> {Connecting, Ready}"
    using assms(3) False by (cases e) (auto simp: Let_def split: if_splits)
  show ?thesis
  proof (rule came_up_more [OF _ down])
    show "came_up es (gates s)" using assms(2) up by blast
    show "\<forall>g. gate_open (gates (reduceConnection fl random s e)) g \<longrightarrow> gate_open (gates s) g \<or> e = EGate g"
      using False by (cases e) (auto simp: Let_def gate_open_open)
  qed
qed

text \<open>
  C8: No shortcut to ready. In any history that ends in the ready state there is a signalling-open
  event after which every one of the five gate events occurred and no disconnect, background, close
  or failure did.
\<close>

theorem ready_after_gates:
  assumes "connection_run fl es s" "phase s = Ready"
  shows "\<exists>as bs. es = as @ ESignalOpen # bs \<and> (\<forall>g. EGate g \<in> set bs) \<and> set bs \<inter> down_events = {}"
proof -
  from assms(1) have "phase s \<in> {Connecting, Ready} \<longrightarrow> came_up es (gates s)"
  proof (induction rule: connection_run.induct)
    case (event es s e t)
    then show ?case using step_came_up [OF run_inv [OF event.hyps(1)]] by blast
  qed simp
  then have "came_up es (gates s)" using assms(2) by simp
  moreover have "\<forall>g. gate_open (gates s) g"
    using run_inv [OF assms(1)] assms(2) by (simp add: connection_inv_def readiness_gates_open)
  ultimately show ?thesis unfolding came_up_def by blast
qed

text \<open>
  A retired connection stays down. From a reachable retired state no event except opening or
  resuming brings it up, and a failed one ignores opening too.
\<close>

theorem retired_stays_down:
  assumes "connection_run fl es s" "retired s" "e \<noteq> EResume" "e \<noteq> EOpen \<or> phase s = Failed"
  shows "retired (reduceConnection fl random s e) \<and> phase (reduceConnection fl random s e) \<in> {Closed, Failed}"
proof -
  have "phase s = Closed \<or> phase s = Failed" using run_inv [OF assms(1)] assms(2) by (simp add: connection_inv_def)
  then show ?thesis using assms(2-4) by (cases e) auto
qed

subsection \<open>Coming back\<close>

abbreviation reduce_all :: "(rat \<Rightarrow> rat) \<Rightarrow> rat \<Rightarrow> connection \<Rightarrow> transport_event list \<Rightarrow> connection" where
  "reduce_all fl random \<equiv> foldl (reduceConnection fl random)"

definition coming_up :: "connection \<Rightarrow> bool" where
  "coming_up s \<longleftrightarrow> phase s = (if readinessComplete (gates s) then Ready else Connecting)"

lemma gate_coming_up:
  assumes "coming_up s"
  shows "coming_up (reduceConnection fl random s (EGate g))"
    "gate_open (gates (reduceConnection fl random s (EGate g))) h \<longleftrightarrow> gate_open (gates s) h \<or> h = g"
  using assms by (auto simp: coming_up_def Let_def gate_open_open readiness_gates_open split: if_splits)

lemma gates_coming_up:
  assumes "coming_up s"
  shows "coming_up (reduce_all fl random s (map EGate gs)) \<and>
    (\<forall>h. gate_open (gates (reduce_all fl random s (map EGate gs))) h \<longleftrightarrow> gate_open (gates s) h \<or> h \<in> set gs)"
  using assms
proof (induction gs arbitrary: s)
  case (Cons g gs)
  obtain t where t: "t = reduceConnection fl random s (EGate g)" by simp
  have "coming_up t" "\<forall>h. gate_open (gates t) h \<longleftrightarrow> gate_open (gates s) h \<or> h = g"
    using gate_coming_up [OF Cons.prems] unfolding t by blast+
  with Cons.IH [of t] show ?case
    by (simp add: t [symmetric] del: reduceConnection.simps)
qed simp

lemma signalled_to_ready:
  assumes "phase s \<in> {Signalling, Reconnecting, Ready}" "\<forall>g. g \<in> set gs"
  shows "phase (reduce_all fl random s (ESignalOpen # map EGate gs)) = Ready"
proof -
  obtain t where t: "t = reduceConnection fl random s ESignalOpen" by simp
  have "coming_up t" using assms(1) unfolding t by (auto simp: coming_up_def)
  from gates_coming_up [OF this, of fl random gs] assms(2)
  have "coming_up (reduce_all fl random t (map EGate gs))"
    "readinessComplete (gates (reduce_all fl random t (map EGate gs)))"
    by (simp_all add: readiness_gates_open)
  then show ?thesis by (simp add: coming_up_def t [symmetric] del: reduceConnection.simps)
qed

text \<open>
  C9: Every connection can be brought back. From a reconnecting state, a retry, the signalling
  socket's opening and the five gates in any order lead to ready; from any state at all the same
  follows after backgrounding and resuming.
\<close>

theorem connection_recovers:
  assumes "\<forall>g. g \<in> set gs"
  shows "(phase s = Reconnecting \<longrightarrow>
      phase (reduce_all fl random s ([ERetry, ESignalOpen] @ map EGate gs)) = Ready) \<and>
    phase (reduce_all fl random s ([EBackground, EResume, ESignalOpen] @ map EGate gs)) = Ready"
proof (intro conjI impI)
  assume r: "phase s = Reconnecting"
  then have "phase (reduceConnection fl random s ERetry) = Signalling" by simp
  then show "phase (reduce_all fl random s ([ERetry, ESignalOpen] @ map EGate gs)) = Ready"
    using signalled_to_ready [OF _ assms, of "reduceConnection fl random s ERetry"]
    by (simp del: reduceConnection.simps)
next
  let ?t = "reduceConnection fl random (reduceConnection fl random s EBackground) EResume"
  have "phase ?t = Signalling" by simp
  then show "phase (reduce_all fl random s ([EBackground, EResume, ESignalOpen] @ map EGate gs)) = Ready"
    using signalled_to_ready [OF _ assms, of ?t] by (simp del: reduceConnection.simps)
qed

subsection \<open>Retry delays\<close>

text \<open>
  The doubles that matter here: an integer of at most 53 bits, divided by a power of two. Rounding
  to nearest is monotone and leaves them alone.
\<close>

definition double_value :: "rat \<Rightarrow> bool" where
  "double_value x \<longleftrightarrow> (\<exists>m k. \<bar>m\<bar> \<le> 2 ^ 53 \<and> k \<le> 1074 \<and> x = of_int m / 2 ^ k)"

definition double_rounding :: "(rat \<Rightarrow> rat) \<Rightarrow> bool" where
  "double_rounding fl \<longleftrightarrow> mono fl \<and> (\<forall>x. double_value x \<longrightarrow> fl x = x)"

lemma double_valueI: "\<bar>m\<bar> \<le> 2 ^ 53 \<Longrightarrow> k \<le> 1074 \<Longrightarrow> double_value (of_int m / 2 ^ k)"
  unfolding double_value_def by blast

lemma fl_between:
  assumes "double_rounding fl" "double_value a" "double_value b" "a \<le> x" "x \<le> b"
  shows "a \<le> fl x" "fl x \<le> b"
proof -
  have "fl a \<le> fl x" "fl x \<le> fl b"
    using assms(1,4,5) unfolding double_rounding_def by (simp_all add: monoD)
  then show "a \<le> fl x" "fl x \<le> b" using assms(1-3) unfolding double_rounding_def by auto
qed

lemma delay_factor:
  assumes "double_rounding fl"
  shows "double_07 \<le> fl (double_07 + fl (max 0 (min 1 random) * double_06))"
    "fl (double_07 + fl (max 0 (min 1 random) * double_06)) \<le> 5854679515581645 / 2 ^ 52"
proof -
  have d: "double_value double_07" "double_value double_06" "double_value 0"
      "double_value (5854679515581645 / 2 ^ 52)"
    using double_valueI [of 6305039478318694 53] double_valueI [of 5404319552844595 53]
      double_valueI [of 0 0] double_valueI [of 5854679515581645 52]
    by (simp_all add: double_07_def double_06_def)
  have "0 \<le> max 0 (min 1 random) * double_06" "max 0 (min 1 random) * double_06 \<le> double_06"
    by (simp_all add: double_06_def mult_left_le_one_le)
  from fl_between [OF assms d(3,2) this]
  have s: "double_07 \<le> double_07 + fl (max 0 (min 1 random) * double_06)"
      "double_07 + fl (max 0 (min 1 random) * double_06) \<le> 5854679515581645 / 2 ^ 52"
    by (simp_all add: double_07_def double_06_def)
  show "double_07 \<le> fl (double_07 + fl (max 0 (min 1 random) * double_06))"
    "fl (double_07 + fl (max 0 (min 1 random) * double_06)) \<le> 5854679515581645 / 2 ^ 52"
    using fl_between [OF assms d(1,4) s] by blast+
qed

text \<open>
  The delay before a retry lies between 0.7 and 1.3 times a base that doubles from 500 ms and
  stops at 30 s, so between 350 ms and 39 s, for every attempt, every random number and any
  floating-point rounding that is monotone and exact on the doubles.
\<close>

theorem reconnectDelay_bounds:
  assumes "double_rounding fl"
  shows "350 \<le> reconnectDelay fl attempt random \<and> reconnectDelay fl attempt random \<le> 39000"
proof -
  define base :: rat where "base = min 30000 (500 * 2 ^ attempt)"
  define f where "f = fl (double_07 + fl (max 0 (min 1 random) * double_06))"
  have f: "double_07 \<le> f" "f \<le> 5854679515581645 / 2 ^ 52"
    unfolding f_def by (rule delay_factor [OF assms])+
  have "(1 :: rat) \<le> 2 ^ attempt" by simp
  then have b: "500 \<le> base" "base \<le> 30000" by (simp_all add: base_def)
  have pos: "0 \<le> double_07" by (simp add: double_07_def)
  have "500 * double_07 \<le> base * f"
    by (rule mult_mono [OF b(1) f(1)]) (use b pos in simp_all)
  moreover have "base * f \<le> 30000 * (5854679515581645 / 2 ^ 52)"
    by (rule mult_mono [OF b(2) f(2)]) (use order_trans [OF pos f(1)] in simp_all)
  ultimately have bf: "699 / 2 \<le> base * f" "base * f \<le> 156001 / 4" by (simp_all add: double_07_def)
  have "double_value (699 / 2)" "double_value (156001 / 4)"
    using double_valueI [of 699 1] double_valueI [of 156001 2] by simp_all
  from fl_between [OF assms this bf]
  have "js_round (699 / 2) \<le> js_round (fl (base * f))" "js_round (fl (base * f)) \<le> js_round (156001 / 4)"
    by (simp_all add: js_round_mono)
  moreover have "js_round (699 / 2) = 350" "js_round (156001 / 4) = 39000" by code_simp+
  ultimately show ?thesis by (simp add: reconnectDelay_def Let_def base_def f_def)
qed

text \<open>
  The reducer the rest of the application reads remembers only the phase. It predicts every step of
  a reachable connection except opening a gate, which needs the gates, and resuming, which needs to
  know that the connection was retired.
\<close>

lemma reduce_phase_agrees:
  assumes "connection_run fl es s" "\<forall>g. e \<noteq> EGate g" "e \<noteq> EResume"
  shows "reduce_phase fl random (phase s) e = phase (reduceConnection fl random s e)"
proof -
  have "retired s \<longleftrightarrow> phase s \<in> {Closed, Failed}" using run_inv [OF assms(1)] by (auto simp: connection_inv_def)
  then show ?thesis using assms(2,3)
    by (cases e) (auto simp: reduce_phase_def INITIAL_CONNECTION_STATE_def Let_def)
qed

subsection \<open>One connection coming up\<close>

lemma run_events: "connection_run fl es s \<Longrightarrow> connection_run fl (es @ fs) (reduce_all fl random s fs)"
proof (induction fs arbitrary: es s)
  case (Cons f fs)
  have "connection_run fl (es @ [f]) (reduceConnection fl random s f)"
    using Cons.prems connection_step.step by (rule connection_run.event)
  from Cons.IH [OF this] show ?case by simp
qed simp

definition coming_up_events :: "transport_event list" where
  "coming_up_events = [EOpen, ESignalOpen, EGate G_pty, EGate G_ctl, EGate G_binding, EGate G_history, EGate G_daemon]"

lemma coming_up_run:
  "connection_run fl coming_up_events (reduce_all fl 0 INITIAL_CONNECTION_STATE coming_up_events)"
  using run_events [OF connection_run.init, of fl coming_up_events 0] by simp

theorem connection_invariant_witness:
  "connection_inv (reduce_all id 0 INITIAL_CONNECTION_STATE coming_up_events)"
  by (rule connection_invariant [OF coming_up_run])

theorem ready_after_gates_witness:
  "phase (reduce_all id 0 INITIAL_CONNECTION_STATE coming_up_events) = Ready \<and>
   (\<exists>as bs. coming_up_events = as @ ESignalOpen # bs \<and> (\<forall>g. EGate g \<in> set bs))"
proof
  show r: "phase (reduce_all id 0 INITIAL_CONNECTION_STATE coming_up_events) = Ready" by code_simp
  show "\<exists>as bs. coming_up_events = as @ ESignalOpen # bs \<and> (\<forall>g. EGate g \<in> set bs)"
    using ready_after_gates [OF coming_up_run r] by blast
qed

theorem retired_stays_down_witness:
  "retired (reduceConnection id 0 (reduce_all id 0 INITIAL_CONNECTION_STATE [EOpen, EFail]) EOpen)"
proof -
  have "connection_run id [EOpen, EFail] (reduce_all id 0 INITIAL_CONNECTION_STATE [EOpen, EFail])"
    using run_events [OF connection_run.init, of id "[EOpen, EFail]" 0] by simp
  then show ?thesis
    using retired_stays_down [of id "[EOpen, EFail]" "reduce_all id 0 INITIAL_CONNECTION_STATE [EOpen, EFail]" EOpen 0]
    by simp
qed

theorem connection_recovers_witness:
  "phase (reduce_all id 0 INITIAL_CONNECTION_STATE
     ([EBackground, EResume, ESignalOpen] @ map EGate [G_pty, G_ctl, G_binding, G_history, G_daemon])) = Ready"
proof -
  have "\<forall>g. g \<in> set [G_pty, G_ctl, G_binding, G_history, G_daemon]"
    using readiness_gate.exhaust by (metis list.set_intros)
  from connection_recovers [OF this, of INITIAL_CONNECTION_STATE id 0] show ?thesis by blast
qed

theorem reconnectDelay_bounds_witness:
  "350 \<le> reconnectDelay id 3 (1 / 2) \<and> reconnectDelay id 3 (1 / 2) = 4000"
proof -
  have "double_rounding id" by (simp add: double_rounding_def mono_def)
  moreover have "reconnectDelay id 3 (1 / 2) = 4000" by code_simp
  ultimately show ?thesis using reconnectDelay_bounds [of id 3 "1 / 2"] by simp
qed

end
