(* ===== verification/Text.thy ===== *)
theory Text
  imports Prelude
begin

section \<open>JavaScript text\<close>

text \<open>
  The components that read and build command lines and paths work on whole Unicode text, so they use
  JavaScript's own representation: a string is the list of its UTF-16 code units. A literal of the
  source is written \<^term>\<open>u ''abc''\<close>. The functions of the standard library that the source calls on
  strings are here, with what the proofs need of them.
\<close>

type_synonym utext = "nat list"

definition u :: "string \<Rightarrow> utext" where
  "u s = map of_char s"

lemma u_simps [simp]: "u [] = []" "u (c # cs) = of_char c # u cs"
  by (simp_all add: u_def)

text \<open>The code units of the characters the parsers treat specially.\<close>

abbreviation c_newline :: nat where "c_newline \<equiv> 10"
abbreviation c_return :: nat where "c_return \<equiv> 13"
abbreviation c_blank :: nat where "c_blank \<equiv> 32"
abbreviation c_dquote :: nat where "c_dquote \<equiv> 34"
abbreviation c_hash :: nat where "c_hash \<equiv> 35"
abbreviation c_squote :: nat where "c_squote \<equiv> 39"
abbreviation c_minus :: nat where "c_minus \<equiv> 45"
abbreviation c_dot :: nat where "c_dot \<equiv> 46"
abbreviation c_slash :: nat where "c_slash \<equiv> 47"
abbreviation c_colon :: nat where "c_colon \<equiv> 58"
abbreviation c_equals :: nat where "c_equals \<equiv> 61"
abbreviation c_backslash :: nat where "c_backslash \<equiv> 92"
abbreviation c_tilde :: nat where "c_tilde \<equiv> 126"

text \<open>White space and line terminators, the class \<open>\s\<close> and what \<open>trim\<close> removes.\<close>

definition is_space :: "nat \<Rightarrow> bool" where
  "is_space c \<longleftrightarrow>
     (9 \<le> c \<and> c \<le> 13) \<or> c = 32 \<or> c = 160 \<or> c = 5760 \<or> (8192 \<le> c \<and> c \<le> 8202) \<or> c = 8232 \<or> c = 8233 \<or>
     c = 8239 \<or> c = 8287 \<or> c = 12288 \<or> c = 65279"

text \<open>What the dot of a regular expression does not match.\<close>

definition line_terminator :: "nat \<Rightarrow> bool" where
  "line_terminator c \<longleftrightarrow> c = 10 \<or> c = 13 \<or> c = 8232 \<or> c = 8233"

definition trim :: "utext \<Rightarrow> utext" where
  "trim s = rev (dropWhile is_space (rev (dropWhile is_space s)))"

definition is_digit :: "nat \<Rightarrow> bool" where "is_digit c \<longleftrightarrow> 48 \<le> c \<and> c \<le> 57"

definition is_upper :: "nat \<Rightarrow> bool" where "is_upper c \<longleftrightarrow> 65 \<le> c \<and> c \<le> 90"

definition is_lower :: "nat \<Rightarrow> bool" where "is_lower c \<longleftrightarrow> 97 \<le> c \<and> c \<le> 122"

definition is_letter :: "nat \<Rightarrow> bool" where "is_letter c \<longleftrightarrow> is_upper c \<or> is_lower c"

lemmas char_classes = is_digit_def is_upper_def is_lower_def is_letter_def is_space_def

text \<open>
  \<open>toLowerCase\<close> follows the Unicode tables, which are an argument of the functions that call it. On
  text in the ASCII range it only changes the capital letters.
\<close>

definition ascii_lower :: "nat \<Rightarrow> nat" where
  "ascii_lower c = (if is_upper c then c + 32 else c)"

definition lower_law :: "(utext \<Rightarrow> utext) \<Rightarrow> bool" where
  "lower_law lower \<longleftrightarrow> (\<forall>s. (\<forall>c \<in> set s. c < 128) \<longrightarrow> lower s = map ascii_lower s)"

definition is_hex :: "nat \<Rightarrow> bool" where
  "is_hex c \<longleftrightarrow> is_digit c \<or> (97 \<le> c \<and> c \<le> 102) \<or> (65 \<le> c \<and> c \<le> 70)"

text \<open>
  The expression every client uses for ids: 8-4-4-4-12 hexadecimal digits in either case, between
  dashes.
\<close>

definition uuid_shape :: "utext \<Rightarrow> bool" where
  "uuid_shape v \<longleftrightarrow>
     length v = 36 \<and>
     list_all (\<lambda>e. if fst e \<in> {8, 13, 18, 23} then snd e = c_minus else is_hex (snd e)) (enumerate (0::nat) v)"

text \<open>\<open>parts.join(sep)\<close> and \<open>text.split(c)\<close> for a one-unit separator.\<close>

fun join :: "utext \<Rightarrow> utext list \<Rightarrow> utext" where
  "join sep [] = []"
| "join sep [p] = p"
| "join sep (p # ps) = p @ sep @ join sep ps"

fun split_on :: "nat \<Rightarrow> utext \<Rightarrow> utext list" where
  "split_on c [] = [[]]"
| "split_on c (x # xs) =
     (if x = c then [] # split_on c xs
      else case split_on c xs of [] \<Rightarrow> [[x]] | p # ps \<Rightarrow> (x # p) # ps)"

subsection \<open>Laws\<close>

lemma join_Cons: "ps \<noteq> [] \<Longrightarrow> join sep (p # ps) = p @ sep @ join sep ps"
  by (cases ps) simp_all

lemma join_append:
  "ps \<noteq> [] \<Longrightarrow> qs \<noteq> [] \<Longrightarrow> join sep (ps @ qs) = join sep ps @ sep @ join sep qs"
  by (induction ps rule: list_nonempty_induct) (simp_all add: join_Cons)

lemma split_on_nonempty [simp]: "split_on c xs \<noteq> []"
  by (induction xs) (auto split: list.splits)

lemma split_on_no_sep: "p \<in> set (split_on c xs) \<Longrightarrow> c \<notin> set p"
  by (induction xs arbitrary: p) (auto split: list.splits if_splits)

lemma split_on_free: "c \<notin> set p \<Longrightarrow> split_on c p = [p]"
  by (induction p) auto

lemma split_on_piece: "c \<notin> set p \<Longrightarrow> split_on c (p @ c # rest) = p # split_on c rest"
  by (induction p) (auto split: list.splits)

lemma split_on_join:
  "ps \<noteq> [] \<Longrightarrow> \<forall>p \<in> set ps. c \<notin> set p \<Longrightarrow> split_on c (join [c] ps) = ps"
  by (induction ps rule: list_nonempty_induct) (simp_all add: join_Cons split_on_free split_on_piece)

lemma join_split_on: "join [c] (split_on c xs) = xs"
proof (induction xs)
  case Nil
  show ?case by simp
next
  case (Cons x xs)
  then show ?case
  proof (cases "split_on c xs")
    case (Cons p ps)
    with \<open>join [c] (split_on c xs) = xs\<close> show ?thesis by (cases ps) (auto simp: join_Cons)
  qed simp
qed

lemma dropWhile_all: "(\<forall>x \<in> set xs. P x) \<Longrightarrow> dropWhile P (xs @ ys) = dropWhile P ys"
  by (induction xs) auto

lemma trim_inner:
  assumes "s \<noteq> []" "\<not> is_space (hd s)" "\<not> is_space (last s)" "\<forall>c \<in> set a. is_space c" "\<forall>c \<in> set b. is_space c"
  shows "trim (a @ s @ b) = s"
proof -
  have "dropWhile is_space (s @ b) = s @ b" using assms(1,2) by (cases s) simp_all
  then have "dropWhile is_space (a @ s @ b) = s @ b" using assms(4) by (simp add: dropWhile_all)
  moreover have "dropWhile is_space (rev s) = rev s"
    using assms(1,3) by (metis dropWhile.simps(2) last_rev rev.simps(1) rev_rev_ident hd_rev list.exhaust_sel)
  ultimately show ?thesis using assms(5) by (simp add: trim_def dropWhile_all)
qed

lemma trim_fixed: "s \<noteq> [] \<Longrightarrow> \<not> is_space (hd s) \<Longrightarrow> \<not> is_space (last s) \<Longrightarrow> trim s = s"
  using trim_inner [of s "[]" "[]"] by simp

lemma trim_decompose:
  obtains a b where "s = a @ trim s @ b" "\<forall>c \<in> set a. is_space c" "\<forall>c \<in> set b. is_space c"
    "trim s = [] \<or> \<not> is_space (hd (trim s)) \<and> \<not> is_space (last (trim s))"
proof -
  let ?d = "dropWhile is_space s"
  let ?t = "dropWhile is_space (rev ?d)"
  have s: "s = takeWhile is_space s @ ?d" by simp
  have d: "rev ?d = takeWhile is_space (rev ?d) @ ?t" by simp
  then have d': "?d = rev ?t @ rev (takeWhile is_space (rev ?d))" by (metis rev_append rev_rev_ident)
  have t: "trim s = rev ?t" by (simp add: trim_def)
  have hd: "\<not> is_space (hd ?d)" if "?d \<noteq> []" using that by (rule hd_dropWhile)
  have "\<not> is_space (hd (trim s)) \<and> \<not> is_space (last (trim s))" if "trim s \<noteq> []"
  proof
    have "?t \<noteq> []" using that t by simp
    then show "\<not> is_space (last (trim s))" using t hd_dropWhile by (metis last_rev)
    have "hd ?d = hd (trim s)" using d' t that by (metis hd_append2)
    moreover have "?d \<noteq> []" using that t by (metis dropWhile.simps(1) rev.simps(1))
    ultimately show "\<not> is_space (hd (trim s))" using hd by simp
  qed
  moreover have "s = takeWhile is_space s @ trim s @ rev (takeWhile is_space (rev ?d))"
    using s d' t by metis
  ultimately show thesis
    using that [of "takeWhile is_space s" "rev (takeWhile is_space (rev ?d))"]
    by (metis set_rev set_takeWhileD)
qed

lemma trim_idem [simp]: "trim (trim s) = trim s"
proof (rule trim_decompose [of s])
  assume "trim s = [] \<or> \<not> is_space (hd (trim s)) \<and> \<not> is_space (last (trim s))"
  then show ?thesis by (cases "trim s = []") (simp_all add: trim_fixed, simp add: trim_def)
qed

lemma uuid_nth:
  assumes "uuid_shape v" "n < 36"
  shows "if n \<in> {8, 13, 18, 23} then v ! n = c_minus else is_hex (v ! n)"
proof -
  have "(n, v ! n) \<in> set (enumerate 0 v)" using assms by (simp add: in_set_enumerate_eq uuid_shape_def)
  then show ?thesis using assms(1) by (auto simp: uuid_shape_def list_all_iff split: if_splits)
qed

lemma uuid_chars: "uuid_shape v \<Longrightarrow> c \<in> set v \<Longrightarrow> is_hex c \<or> c = c_minus"
  using uuid_nth [of v] by (metis uuid_shape_def in_set_conv_nth)

lemma lower_lawD: "lower_law lower \<Longrightarrow> \<forall>c \<in> set s. c < 128 \<Longrightarrow> lower s = map ascii_lower s"
  by (simp add: lower_law_def)

end
