(* ===== verification/Bytes.thy ===== *)
theory Bytes
  imports Text "HOL-Library.Word"
begin

section \<open>Bytes on the wire\<close>

text \<open>
  A \<open>Uint8Array\<close> is a list of 8-bit words. Here are the little-endian integers of a \<open>DataView\<close>, the
  hexadecimal text of ids and hashes, and the safe integers of the language, with the round trips the
  codecs rest on.
\<close>

type_synonym bytes = "8 word list"

subsection \<open>Integers\<close>

text \<open>\<open>Number.isSafeInteger\<close>, on a number and on any value.\<close>

definition safe_integer :: "int \<Rightarrow> bool" where
  "safe_integer n \<longleftrightarrow> \<bar>n\<bar> \<le> 2 ^ 53 - 1"

definition js_safe :: "jsval \<Rightarrow> int option" where
  "js_safe v = (case js_integer v of None \<Rightarrow> None | Some n \<Rightarrow> if safe_integer n then Some n else None)"

text \<open>\<open>setUint16\<close>, \<open>setUint32\<close> and their readers, little endian; a write keeps the low bits.\<close>

definition to_byte :: "nat \<Rightarrow> 8 word" where
  "to_byte n = word_of_nat n"

definition le16 :: "nat \<Rightarrow> bytes" where
  "le16 n = [to_byte n, to_byte (n div 256)]"

definition le32 :: "nat \<Rightarrow> bytes" where
  "le32 n = [to_byte n, to_byte (n div 256), to_byte (n div 65536), to_byte (n div 16777216)]"

definition get16 :: "bytes \<Rightarrow> nat \<Rightarrow> nat" where
  "get16 bs i = unat (bs ! i) + 256 * unat (bs ! (i + 1))"

definition get32 :: "bytes \<Rightarrow> nat \<Rightarrow> nat" where
  "get32 bs i = unat (bs ! i) + 256 * unat (bs ! (i + 1)) + 65536 * unat (bs ! (i + 2)) + 16777216 * unat (bs ! (i + 3))"

lemma unat_byte [simp]: "unat (to_byte n) = n mod 256"
  by (simp add: to_byte_def unat_of_nat)

lemma unat_byte_less: "unat (b :: 8 word) < 256"
  using unsigned_less [of b] by simp

lemma byte_unat [simp]: "to_byte (unat b) = b"
  by (simp add: to_byte_def)

lemma byte_low: "to_byte (unat b + 256 * n) = b"
  using unat_byte_less [of b] by (intro word_unat_eq_iff [THEN iffD2]) simp

lemma le16_value: "n < 65536 \<Longrightarrow> unat (le16 n ! 0) + 256 * unat (le16 n ! 1) = n"
  by (simp add: le16_def)

lemma le32_value:
  assumes "n < 4294967296"
  shows "unat (le32 n ! 0) + 256 * unat (le32 n ! 1) + 65536 * unat (le32 n ! 2) + 16777216 * unat (le32 n ! 3) = n"
proof -
  let ?q = "n div 256" and ?r = "n div 256 div 256" and ?t = "n div 256 div 256 div 256"
  have "n div 65536 = ?r" "n div 16777216 = ?t"
    by (simp_all flip: div_mult2_eq)
  moreover have "?t < 256" using assms by (simp flip: div_mult2_eq add: less_mult_imp_div_less)
  moreover have "n = 256 * ?q + n mod 256" "?q = 256 * ?r + ?q mod 256" "?r = 256 * ?t + ?r mod 256"
    by simp_all
  then have "n mod 256 + 256 * (?q mod 256) + 65536 * (?r mod 256) + 16777216 * ?t = n" by linarith
  ultimately show ?thesis by (simp add: le32_def)
qed

lemma length_le [simp]: "length (le16 n) = 2" "length (le32 n) = 4"
  by (simp_all add: le16_def le32_def)

lemma le16_bytes: "le16 (unat a + 256 * unat b) = [a, b]"
  using byte_low [of a "unat b"] unat_byte_less [of a] by (simp add: le16_def)

lemma le32_bytes:
  "le32 (unat a + 256 * unat b + 65536 * unat c + 16777216 * unat d) = [a, b, c, d]"
proof -
  let ?n = "unat a + 256 * (unat b + 256 * (unat c + 256 * unat d))"
  have n: "unat a + 256 * unat b + 65536 * unat c + 16777216 * unat d = ?n" by simp
  have "?n div 256 = unat b + 256 * (unat c + 256 * unat d)" using unat_byte_less [of a] by simp
  moreover have "?n div 65536 = unat c + 256 * unat d"
    using unat_byte_less [of a] unat_byte_less [of b] div_mult2_eq [of ?n 256 256] by simp
  moreover have "?n div 16777216 = unat d"
    using unat_byte_less [of a] unat_byte_less [of b] unat_byte_less [of c] div_mult2_eq [of ?n 256 65536]
      div_mult2_eq [of "unat b + 256 * (unat c + 256 * unat d)" 256 256] by simp
  ultimately show ?thesis unfolding n le32_def by (simp only: byte_low byte_unat)
qed

subsection \<open>Hexadecimal text\<close>

text \<open>The value of a digit of \<open>parseInt(_, 16)\<close>, and the digit \<open>toString(16)\<close> writes.\<close>

definition hex_val :: "nat \<Rightarrow> nat" where
  "hex_val c = (if is_digit c then c - 48 else if 97 \<le> c then c - 87 else c - 55)"

definition hex_digit :: "nat \<Rightarrow> nat" where
  "hex_digit n = (if n < 10 then 48 + n else 87 + n)"

definition parse_hex_byte :: "utext \<Rightarrow> 8 word option" where
  "parse_hex_byte s =
     (case s of
        [a, b] \<Rightarrow> if is_hex a \<and> is_hex b then Some (to_byte (16 * hex_val a + hex_val b)) else None
      | _ \<Rightarrow> None)"

text \<open>\<open>byte.toString(16).padStart(2, "0")\<close>\<close>

definition hex_byte :: "8 word \<Rightarrow> utext" where
  "hex_byte b = [hex_digit (unat b div 16), hex_digit (unat b mod 16)]"

lemma hex_val_less: "is_hex c \<Longrightarrow> hex_val c < 16"
  by (auto simp: is_hex_def hex_val_def is_digit_def)

lemma hex_digit_hex [simp]: "n < 16 \<Longrightarrow> is_hex (hex_digit n)"
  by (simp add: is_hex_def hex_digit_def is_digit_def)

lemma hex_val_digit [simp]: "n < 16 \<Longrightarrow> hex_val (hex_digit n) = n"
  by (simp add: hex_val_def hex_digit_def is_digit_def)

lemma hex_digit_val: "is_hex c \<Longrightarrow> hex_digit (hex_val c) = ascii_lower c"
  by (auto simp: is_hex_def hex_val_def hex_digit_def ascii_lower_def char_classes)

lemma hex_byte_parse: "parse_hex_byte (hex_byte b) = Some b"
  using unat_byte_less [of b]
  by (simp add: parse_hex_byte_def hex_byte_def less_mult_imp_div_less)

lemma parse_hex_byte_print:
  assumes "is_hex a" "is_hex b"
  shows "\<exists>w. parse_hex_byte [a, b] = Some w \<and> hex_byte w = [ascii_lower a, ascii_lower b]"
proof -
  have "16 * hex_val a + hex_val b < 256"
    using hex_val_less [OF assms(1)] hex_val_less [OF assms(2)] by simp
  then show ?thesis
    using assms hex_val_less [OF assms(2)]
    by (simp add: parse_hex_byte_def hex_byte_def hex_digit_val)
qed

end
