(* ===== verification/Live_Writes.thy ===== *)
theory Live_Writes
  imports Bytes "HOL-Library.Sublist"
begin

section \<open>Buffers between the wire and the terminal\<close>

text \<open>
  \<open>web/src/components/terminal/live-write-buffer.ts\<close>: the first-in first-out buffer that presents
  bursts of terminal output as one write, the tracker of the terminal's synchronized-output mode it
  consults, and the bounded buffer that holds output back during a repaint. Bytes are 8-bit words; a
  completion callback is an opaque value of type \<open>'c\<close>.
\<close>

subsection \<open>Synchronized output\<close>

definition SYNCHRONIZED_OUTPUT_PREFIX :: bytes where
  "SYNCHRONIZED_OUTPUT_PREFIX = [0x1b, 0x5b, 0x3f, 0x32, 0x30, 0x32, 0x36]"

record sync_tracker =
  prefixLength :: nat
  active :: bool

record enqueue_result =
  synchronized :: bool
  completedSynchronizedOutput :: bool

definition fresh_tracker :: sync_tracker where
  "fresh_tracker = \<lparr>prefixLength = 0, active = False\<rparr>"

text \<open>One turn of the loop over the bytes, with the flag \<open>completedSynchronizedOutput\<close>.\<close>

definition consume_byte :: "sync_tracker \<times> bool \<Rightarrow> 8 word \<Rightarrow> sync_tracker \<times> bool" where
  "consume_byte st byte =
     (case st of (t, completed) \<Rightarrow>
        let restart = (if byte = SYNCHRONIZED_OUTPUT_PREFIX ! 0 then 1 else 0) in
        if prefixLength t = length SYNCHRONIZED_OUTPUT_PREFIX
        then (if byte = 0x68 then (\<lparr>prefixLength = restart, active = True\<rparr>, completed)
              else if byte = 0x6c
              then (\<lparr>prefixLength = restart, active = False\<rparr>, completed \<or> active t)
              else (t\<lparr>prefixLength := restart\<rparr>, completed))
        else if byte = SYNCHRONIZED_OUTPUT_PREFIX ! prefixLength t
        then (t\<lparr>prefixLength := prefixLength t + 1\<rparr>, completed)
        else (t\<lparr>prefixLength := restart\<rparr>, completed))"

definition consume :: "sync_tracker \<Rightarrow> bytes \<Rightarrow> sync_tracker \<times> enqueue_result" where
  "consume t bs =
     (case foldl consume_byte (t, False) bs of (t', completed) \<Rightarrow>
        (t', \<lparr>synchronized = active t', completedSynchronizedOutput = completed\<rparr>))"

definition release :: "sync_tracker \<Rightarrow> sync_tracker" where
  "release t = \<lparr>prefixLength = 0, active = False\<rparr>"

subsection \<open>The live buffer\<close>

type_synonym 'c buffered_write = "bytes \<times> 'c option"

record 'c live_buffer =
  writes :: "'c buffered_write list"
  synchronizedOutput :: sync_tracker
  byteLength :: nat
  atomicBatchPending :: bool

definition empty_live :: "'c live_buffer" where
  "empty_live = \<lparr>writes = [], synchronizedOutput = fresh_tracker, byteLength = 0, atomicBatchPending = False\<rparr>"

definition enqueue :: "'c live_buffer \<Rightarrow> bytes \<Rightarrow> 'c option \<Rightarrow> 'c live_buffer \<times> enqueue_result" where
  "enqueue b bs onWritten =
     (if length bs = 0
      then (b, \<lparr>synchronized = active (synchronizedOutput b), completedSynchronizedOutput = False\<rparr>)
      else
        let (t, state) = consume (synchronizedOutput b) bs in
        (b\<lparr>writes := writes b @ [(bs, onWritten)], byteLength := byteLength b + length bs,
           synchronizedOutput := t,
           atomicBatchPending :=
             (if synchronized state \<or> completedSynchronizedOutput state then True else atomicBatchPending b)\<rparr>,
         state))"

text \<open>The loop of \<open>take\<close>: what it has selected, and the writes it leaves.\<close>

fun take_loop ::
  "bool \<Rightarrow> nat \<Rightarrow> 'c buffered_write list \<Rightarrow> nat \<Rightarrow> 'c buffered_write list
    \<Rightarrow> 'c buffered_write list \<times> nat \<times> 'c buffered_write list" where
  "take_loop atomic maxBytes selected n [] = (selected, n, [])"
| "take_loop atomic maxBytes selected n (next # rest) =
     (if \<not> atomic \<and> n > 0 \<and> n + length (fst next) > maxBytes then (selected, n, next # rest)
      else
        let n' = n + length (fst next) in
        if \<not> atomic \<and> n' \<ge> maxBytes then (selected @ [next], n', rest)
        else take_loop atomic maxBytes (selected @ [next]) n' rest)"

record 'c write_batch =
  batch_bytes :: bytes
  batch_onWritten :: "'c list"

definition take_live :: "'c live_buffer \<Rightarrow> nat \<Rightarrow> 'c live_buffer \<times> 'c write_batch option" where
  "take_live b maxBytes =
     (if length (writes b) = 0 \<or> active (synchronizedOutput b) then (b, None)
      else
        let (selected, selectedBytes, rest) = take_loop (atomicBatchPending b) maxBytes [] 0 (writes b) in
        (b\<lparr>writes := rest, byteLength := byteLength b - selectedBytes, atomicBatchPending := False\<rparr>,
         Some \<lparr>batch_bytes = concat (map fst selected),
               batch_onWritten = concat (map (\<lambda>w. case snd w of None \<Rightarrow> [] | Some f \<Rightarrow> [f]) selected)\<rparr>))"

definition clear_live :: "'c live_buffer \<Rightarrow> 'c live_buffer" where
  "clear_live b = b\<lparr>writes := [], byteLength := 0, atomicBatchPending := False,
     synchronizedOutput := release (synchronizedOutput b)\<rparr>"

definition releaseSynchronization :: "'c live_buffer \<Rightarrow> 'c live_buffer" where
  "releaseSynchronization b =
     (if \<not> active (synchronizedOutput b) then b
      else b\<lparr>synchronizedOutput := release (synchronizedOutput b), atomicBatchPending := True\<rparr>)"

subsection \<open>The buffer for a repaint\<close>

record geometry =
  cols :: int
  rows :: int

record held_write =
  hw_bytes :: bytes
  offsetAfter :: "int option"
  hw_geometry :: geometry

record post_buffer =
  pb_writes :: "held_write list"
  pb_byteLength :: nat
  overflowed :: bool
  maxBytes :: nat

datatype live_drain = Writes "bytes list" "int option" | Refresh

definition new_post :: "nat \<Rightarrow> post_buffer" where
  "new_post limit = \<lparr>pb_writes = [], pb_byteLength = 0, overflowed = False, maxBytes = limit\<rparr>"

definition enqueue_post :: "post_buffer \<Rightarrow> bytes \<Rightarrow> int option \<Rightarrow> geometry \<Rightarrow> post_buffer" where
  "enqueue_post b bs off g =
     (if overflowed b then b
      else if int (length bs) > int (maxBytes b) - int (pb_byteLength b)
      then b\<lparr>pb_writes := [], pb_byteLength := 0, overflowed := True\<rparr>
      else b\<lparr>pb_writes := pb_writes b @ [\<lparr>hw_bytes = bs, offsetAfter = off, hw_geometry = g\<rparr>],
             pb_byteLength := pb_byteLength b + length bs\<rparr>)"

definition clear_post :: "post_buffer \<Rightarrow> post_buffer" where
  "clear_post b = b\<lparr>pb_writes := [], pb_byteLength := 0, overflowed := False\<rparr>"

definition uncovered :: "int option \<Rightarrow> held_write \<Rightarrow> bool" where
  "uncovered covered w =
     (case covered of None \<Rightarrow> True
      | Some c \<Rightarrow> (case offsetAfter w of None \<Rightarrow> True | Some off \<Rightarrow> off > c))"

definition cover :: "int option \<Rightarrow> held_write \<Rightarrow> int option" where
  "cover covered w =
     (case offsetAfter w of
        None \<Rightarrow> covered
      | Some off \<Rightarrow> Some (max (case covered of None \<Rightarrow> 0 | Some c \<Rightarrow> c) off))"

definition drain :: "post_buffer \<Rightarrow> int option \<Rightarrow> geometry \<Rightarrow> post_buffer \<times> live_drain" where
  "drain b covered g =
     (if overflowed b then (clear_post b, Refresh)
      else
        let ws = filter (uncovered covered) (pb_writes b);
            b' = b\<lparr>pb_writes := [], pb_byteLength := 0\<rparr>
        in if list_ex (\<lambda>w. cols (hw_geometry w) \<noteq> cols g \<or> rows (hw_geometry w) \<noteq> rows g) ws
           then (b', Refresh)
           else (b', Writes (map hw_bytes ws) (foldl cover covered ws)))"

subsection \<open>What the tracker knows\<close>

text \<open>
  The mode of a whole stream, without a state machine: the most recent complete marker decides. The
  prefix followed by \<open>h\<close> sets the mode and followed by \<open>l\<close> resets it.
\<close>

abbreviation "sync_prefix \<equiv> SYNCHRONIZED_OUTPUT_PREFIX"

function mode_after :: "bytes \<Rightarrow> bool" where
  "mode_after bs =
     (if bs = [] then False
      else if suffix (sync_prefix @ [0x68]) bs then True
      else if suffix (sync_prefix @ [0x6c]) bs then False
      else mode_after (butlast bs))"
  by pat_completeness auto
termination
  by (relation "measure length") auto

declare mode_after.simps [simp del]

lemma length_sync_prefix [simp]: "length sync_prefix = 7"
  by (simp add: SYNCHRONIZED_OUTPUT_PREFIX_def)

lemma sync_prefix_nonempty [simp]: "sync_prefix \<noteq> []"
  by (simp add: SYNCHRONIZED_OUTPUT_PREFIX_def)

lemma mode_after_Nil [simp]: "\<not> mode_after []"
  by (simp add: mode_after.simps)

lemma mode_after_snoc:
  "mode_after (bs @ [b]) =
     (if suffix sync_prefix bs \<and> b = 0x68 then True
      else if suffix sync_prefix bs \<and> b = 0x6c then False else mode_after bs)"
  by (subst mode_after.simps) auto

text \<open>The prefix starts with the escape byte and has no other one.\<close>

lemma prefix_escape:
  assumes "i < 7" "sync_prefix ! i = sync_prefix ! 0"
  shows "i = 0"
proof -
  have "distinct (sync_prefix ! 0 # tl sync_prefix) \<or> sync_prefix ! 0 \<notin> set (tl sync_prefix)"
    by (simp add: SYNCHRONIZED_OUTPUT_PREFIX_def)
  then have "sync_prefix ! 0 \<notin> set (tl sync_prefix)" by auto
  moreover have "i \<noteq> 0 \<Longrightarrow> sync_prefix ! i \<in> set (tl sync_prefix)"
    using assms(1) by (cases i) (simp_all add: nth_tl [symmetric] del: nth_tl)
  ultimately show ?thesis using assms(2) by metis
qed

text \<open>
  The tracker's state against the stream it has read: the mode, and the one prefix of the marker
  that the stream ends in.
\<close>

definition tracks :: "bytes \<Rightarrow> sync_tracker \<Rightarrow> bool" where
  "tracks bs t \<longleftrightarrow>
     active t = mode_after bs \<and> prefixLength t \<le> 7 \<and>
     (\<forall>i. 0 < i \<and> i \<le> 7 \<longrightarrow> (suffix (take i sync_prefix) bs \<longleftrightarrow> i = prefixLength t))"

lemma tracks_fresh: "tracks [] fresh_tracker"
  by (auto simp: tracks_def fresh_tracker_def)

lemma suffix_take_snoc:
  assumes "tracks bs t" "i < 7"
  shows "suffix (take (Suc i) sync_prefix) (bs @ [b]) \<longleftrightarrow> sync_prefix ! i = b \<and> (i = 0 \<or> i = prefixLength t)"
proof -
  have "take (Suc i) sync_prefix = take i sync_prefix @ [sync_prefix ! i]"
    using assms(2) by (intro take_Suc_conv_app_nth) simp
  then have "suffix (take (Suc i) sync_prefix) (bs @ [b]) \<longleftrightarrow> sync_prefix ! i = b \<and> suffix (take i sync_prefix) bs"
    by (simp add: snoc_suffix_snoc)
  then show ?thesis using assms by (cases "i = 0") (auto simp: tracks_def)
qed

lemma tracks_full: "tracks bs t \<Longrightarrow> suffix sync_prefix bs \<longleftrightarrow> prefixLength t = 7"
  unfolding tracks_def using take_all [of sync_prefix 7] by fastforce

lemma tracks_length:
  assumes "tracks bs t" "k \<le> 7" "\<And>i. i < 7 \<Longrightarrow> sync_prefix ! i = b \<and> (i = 0 \<or> i = prefixLength t) \<longleftrightarrow> Suc i = k"
    and "0 < i" "i \<le> 7"
  shows "suffix (take i sync_prefix) (bs @ [b]) \<longleftrightarrow> i = k"
  using assms suffix_take_snoc [OF assms(1), of "i - 1" b] by (cases i) auto

lemma tracks_consume_byte:
  assumes "tracks bs t"
  shows "tracks (bs @ [b]) (fst (consume_byte (t, c) b))"
proof -
  let ?t = "fst (consume_byte (t, c) b)"
  have k: "prefixLength t \<le> 7" using assms by (simp add: tracks_def)
  have len: "prefixLength ?t =
      (if prefixLength t < 7 \<and> b = sync_prefix ! prefixLength t then prefixLength t + 1
       else if b = sync_prefix ! 0 then 1 else 0)"
    using k by (simp add: consume_byte_def Let_def)
  have "active ?t = mode_after (bs @ [b])"
    using assms unfolding mode_after_snoc tracks_full [OF assms]
    by (simp add: consume_byte_def Let_def tracks_def)
  moreover have "prefixLength ?t \<le> 7" using k len by auto
  moreover have "suffix (take i sync_prefix) (bs @ [b]) \<longleftrightarrow> i = prefixLength ?t" if "0 < i" "i \<le> 7" for i
  proof (rule tracks_length [OF assms _ _ that])
    show "prefixLength ?t \<le> 7" by fact
    fix i :: nat
    assume "i < 7"
    then show "sync_prefix ! i = b \<and> (i = 0 \<or> i = prefixLength t) \<longleftrightarrow> Suc i = prefixLength ?t"
    proof (cases "prefixLength t < 7 \<and> b = sync_prefix ! prefixLength t")
      case True
      then have "prefixLength ?t = prefixLength t + 1" using len by simp
      moreover have "prefixLength t = 0" if "sync_prefix ! 0 = b"
      proof (rule prefix_escape)
        show "prefixLength t < 7" "sync_prefix ! prefixLength t = sync_prefix ! 0"
          using True that by simp_all
      qed
      ultimately show ?thesis using True by (cases "i = 0") auto
    next
      case False
      have "prefixLength ?t = (if b = sync_prefix ! 0 then 1 else 0)" unfolding len if_not_P [OF False] ..
      moreover have "i \<noteq> prefixLength t" if "sync_prefix ! i = b"
        using False that \<open>i < 7\<close> by blast
      ultimately show ?thesis by (cases "i = 0") auto
    qed
  qed
  ultimately show ?thesis unfolding tracks_def by blast
qed

lemma tracks_consume: "tracks bs t \<Longrightarrow> tracks (bs @ cs) (fst (foldl consume_byte (t, c) cs))"
proof (induction cs arbitrary: bs t c)
  case (Cons b cs)
  obtain t' c' where s: "consume_byte (t, c) b = (t', c')" by fastforce
  then have "tracks (bs @ [b]) t'" using tracks_consume_byte [OF Cons.prems, of b c] by simp
  from Cons.IH [OF this, of c'] s show ?case by simp
qed simp

lemma foldl_consume_flag:
  "fst (foldl consume_byte (t, c) bs) = fst (foldl consume_byte (t, False) bs) \<and>
   snd (foldl consume_byte (t, c) bs) = (c \<or> snd (foldl consume_byte (t, False) bs))"
proof (induction bs arbitrary: t c)
  case (Cons b bs)
  obtain t' d where s: "consume_byte (t, False) b = (t', d)" by fastforce
  have "consume_byte (t, c) b = (t', c \<or> d)" using s by (auto simp: consume_byte_def Let_def split: if_splits)
  with s Cons.IH [of t' "c \<or> d"] Cons.IH [of t' d] show ?case by simp
qed simp

lemma fst_consume: "fst (consume t bs) = fst (foldl consume_byte (t, False) bs)"
  by (simp add: consume_def split: prod.split)

text \<open>
  The tracker is exact and does not see chunk boundaries. However the stream is cut into chunks,
  after reading it the tracker is active exactly when the most recent complete marker in the whole
  stream set the mode.
\<close>

theorem tracker_exact:
  "active (foldl (\<lambda>t bs. fst (consume t bs)) fresh_tracker chunks) = mode_after (concat chunks)"
proof -
  have "tracks (concat chunks) (foldl (\<lambda>t bs. fst (consume t bs)) fresh_tracker chunks)"
  proof (induction chunks rule: rev_induct)
    case (snoc bs chunks)
    from tracks_consume [OF this, of bs False] show ?case by (simp add: fst_consume [symmetric])
  qed (simp add: tracks_fresh)
  then show ?thesis by (simp add: tracks_def)
qed

subsection \<open>A queue of bytes\<close>

text \<open>
  What the terminal relies on: bytes come out in the order they went in, none lost and none twice.
\<close>

locale byte_fifo =
  fixes held :: "'q \<Rightarrow> bytes"
    and put :: "'q \<Rightarrow> bytes \<Rightarrow> 'q"
    and get :: "'q \<Rightarrow> nat \<Rightarrow> 'q \<times> bytes"
  assumes put_held: "held (put q bs) = held q @ bs"
    and get_held: "snd (get q n) @ held (fst (get q n)) = held q"
begin

fun run :: "'q \<Rightarrow> (bytes + nat) list \<Rightarrow> 'q \<times> bytes" where
  "run q [] = (q, [])"
| "run q (Inl bs # ops) = run (put q bs) ops"
| "run q (Inr n # ops) =
     (case get q n of (q', out) \<Rightarrow> (case run q' ops of (q'', outs) \<Rightarrow> (q'', out @ outs)))"

lemma fifo_order:
  "snd (run q ops) @ held (fst (run q ops)) = held q @ concat (map (case_sum id (\<lambda>_. [])) ops)"
proof (induction q ops rule: run.induct)
  case (2 q bs ops)
  then show ?case by (simp add: put_held)
next
  case (3 q n ops)
  obtain q' out where g: "get q n = (q', out)" by fastforce
  with get_held [of q n] have "held q = out @ held q'" by simp
  with 3 [OF g [symmetric]] g show ?case by (cases "run q' ops") simp
qed simp

end

definition pending :: "'c live_buffer \<Rightarrow> bytes" where
  "pending b = concat (map fst (writes b))"

definition take_bytes :: "'c live_buffer \<Rightarrow> nat \<Rightarrow> 'c live_buffer \<times> bytes" where
  "take_bytes b n =
     (case take_live b n of (b', r) \<Rightarrow> (b', case r of None \<Rightarrow> [] | Some batch \<Rightarrow> batch_bytes batch))"

lemma take_loop_spec:
  assumes "take_loop atomic m sel n ws = (sel', n', rest)"
  shows "\<exists>ys. sel' = sel @ ys \<and> ws = ys @ rest \<and> n' = n + length (concat (map fst ys)) \<and>
    (atomic \<longrightarrow> rest = []) \<and> (n = 0 \<and> ws \<noteq> [] \<longrightarrow> ys \<noteq> [])"
  using assms
proof (induction atomic m sel n ws rule: take_loop.induct)
  case (2 atomic m sel n w ws)
  consider (stop) "\<not> atomic \<and> n > 0 \<and> n + length (fst w) > m"
    | (last) "\<not> (\<not> atomic \<and> n > 0 \<and> n + length (fst w) > m)" "\<not> atomic \<and> n + length (fst w) \<ge> m"
    | (more) "\<not> (\<not> atomic \<and> n > 0 \<and> n + length (fst w) > m)" "\<not> (\<not> atomic \<and> n + length (fst w) \<ge> m)"
    by blast
  then show ?case
  proof cases
    case stop
    with "2.prems" show ?thesis by simp
  next
    case last
    with "2.prems" show ?thesis by (intro exI [of _ "[w]"]) (auto simp: Let_def)
  next
    case more
    then have "take_loop atomic m (sel @ [w]) (n + length (fst w)) ws = (sel', n', rest)"
      using "2.prems" by (simp add: Let_def split: if_splits)
    from "2.IH" [OF more(1) refl more(2) this] obtain ys where
        "sel' = (sel @ [w]) @ ys" "ws = ys @ rest" "n' = n + length (fst w) + length (concat (map fst ys))"
        "atomic \<longrightarrow> rest = []" by blast
    then show ?thesis by (intro exI [of _ "w # ys"]) simp
  qed
qed auto

lemma take_live_cases:
  obtains (none) "take_live b n = (b, None)" "writes b = [] \<or> active (synchronizedOutput b)"
  | (some) ys rest batch where "writes b = ys @ rest" "ys \<noteq> []" "\<not> active (synchronizedOutput b)"
      "atomicBatchPending b \<longrightarrow> rest = []"
      "take_live b n = (b\<lparr>writes := rest, byteLength := byteLength b - length (concat (map fst ys)),
         atomicBatchPending := False\<rparr>, Some batch)"
      "batch_bytes batch = concat (map fst ys)"
      "batch_onWritten batch = concat (map (\<lambda>w. case snd w of None \<Rightarrow> [] | Some f \<Rightarrow> [f]) ys)"
proof (cases "writes b = [] \<or> active (synchronizedOutput b)")
  case True
  then show thesis using none by (auto simp: take_live_def)
next
  case False
  obtain sel m rest where l: "take_loop (atomicBatchPending b) n [] 0 (writes b) = (sel, m, rest)"
    by (metis prod_cases3)
  from take_loop_spec [OF l] obtain ys where y: "sel = [] @ ys" "writes b = ys @ rest"
      "m = 0 + length (concat (map fst ys))" "atomicBatchPending b \<longrightarrow> rest = []"
      "(0 :: nat) = 0 \<and> writes b \<noteq> [] \<longrightarrow> ys \<noteq> []" by blast
  have ys: "sel = ys" "writes b = ys @ rest" "m = length (concat (map fst ys))"
      "atomicBatchPending b \<longrightarrow> rest = []" "ys \<noteq> []"
    using y(1,3,5) False by (simp_all add: y(2,4))
  let ?batch = "\<lparr>batch_bytes = concat (map fst ys),
      batch_onWritten = concat (map (\<lambda>w. case snd w of None \<Rightarrow> [] | Some f \<Rightarrow> [f]) ys)\<rparr>"
  have "take_live b n = (b\<lparr>writes := rest, byteLength := byteLength b - length (concat (map fst ys)),
      atomicBatchPending := False\<rparr>, Some ?batch)"
    using False unfolding take_live_def l ys(1) ys(3) by simp
  moreover have "\<not> active (synchronizedOutput b)" using False by blast
  ultimately show thesis
    by (intro some [OF ys(2,5) _ ys(4), of ?batch]) simp_all
qed

interpretation live: byte_fifo pending "\<lambda>b bs. fst (enqueue b bs cb)" take_bytes for cb
proof
  fix b bs
  show "pending (fst (enqueue b bs cb)) = pending b @ bs"
    by (simp add: pending_def enqueue_def Let_def split: prod.split)
next
  fix b :: "'a live_buffer" and n
  show "snd (take_bytes b n) @ pending (fst (take_bytes b n)) = pending b"
    by (rule take_live_cases [of b n]) (simp_all add: take_bytes_def pending_def)
qed

text \<open>
  C30: First in, first out. For any sequence of enqueued chunks and takes of any sizes, the bytes
  taken so far followed by the bytes still held are exactly the bytes enqueued, in order.
\<close>

theorem live_buffer_fifo:
  "snd (live.run cb empty_live ops) @ pending (fst (live.run cb empty_live ops)) =
   concat (map (case_sum id (\<lambda>_. [])) ops)"
  using live.fifo_order [of cb empty_live ops] by (simp add: pending_def empty_live_def)

subsection \<open>Runs of the buffer\<close>

datatype 'c live_op = LEnqueue bytes "'c option" | LTake nat | LRelease | LClear

text \<open>A run records the batches handed to the terminal since the last clear.\<close>

inductive live_run :: "'c live_op list \<Rightarrow> 'c live_buffer \<Rightarrow> 'c write_batch list \<Rightarrow> bool" where
  start: "live_run [] empty_live []"
| enq: "live_run ops b outs \<Longrightarrow> live_run (ops @ [LEnqueue bs cb]) (fst (enqueue b bs cb)) outs"
| take: "live_run ops b outs \<Longrightarrow> take_live b n = (b', r) \<Longrightarrow>
    live_run (ops @ [LTake n]) b' (outs @ (case r of None \<Rightarrow> [] | Some batch \<Rightarrow> [batch]))"
| release: "live_run ops b outs \<Longrightarrow> live_run (ops @ [LRelease]) (releaseSynchronization b) outs"
| clear: "live_run ops b outs \<Longrightarrow> live_run (ops @ [LClear]) (clear_live b) []"

abbreviation written :: "'c write_batch list \<Rightarrow> bytes" where
  "written outs \<equiv> concat (map batch_bytes outs)"

definition live_inv :: "'c live_buffer \<Rightarrow> bool" where
  "live_inv b \<longleftrightarrow> byteLength b = length (pending b) \<and> (\<forall>w \<in> set (writes b). fst w \<noteq> []) \<and>
     (active (synchronizedOutput b) \<longrightarrow> atomicBatchPending b)"

lemma live_inv_enqueue: "live_inv b \<Longrightarrow> live_inv (fst (enqueue b bs cb))"
  by (auto simp: live_inv_def enqueue_def pending_def consume_def Let_def split: prod.splits)

lemma live_inv_take:
  assumes "live_inv b" "take_live b n = (b', r)"
  shows "live_inv b'"
  by (rule take_live_cases [of b n]) (use assms in \<open>auto simp: live_inv_def pending_def\<close>)

lemma live_run_inv:
  assumes "live_run ops b outs"
  shows "live_inv b"
  using assms
proof (induction rule: live_run.induct)
  case start
  show ?case by (simp add: live_inv_def empty_live_def pending_def fresh_tracker_def)
next
  case (release ops b outs)
  then show ?case by (auto simp: live_inv_def releaseSynchronization_def release_def pending_def)
next
  case (clear ops b outs)
  then show ?case by (simp add: live_inv_def clear_live_def release_def pending_def)
qed (auto intro: live_inv_enqueue live_inv_take)

lemma take_loop_bound:
  assumes "take_loop False m sel n ws = (sel', n', rest)" "n \<le> m" "\<forall>w \<in> set ws. fst w \<noteq> []"
  shows "n' \<le> m \<or> n = 0 \<and> (\<exists>w \<in> set ws. sel' = sel @ [w])"
  using assms
proof (induction ws arbitrary: sel n)
  case (Cons w ws)
  consider (stop) "n > 0 \<and> n + length (fst w) > m"
    | (last) "\<not> (n > 0 \<and> n + length (fst w) > m)" "n + length (fst w) \<ge> m"
    | (more) "\<not> (n > 0 \<and> n + length (fst w) > m)" "n + length (fst w) < m"
    by linarith
  then show ?case
  proof cases
    case stop
    with Cons.prems show ?thesis by simp
  next
    case last
    with Cons.prems show ?thesis by (auto simp: Let_def split: if_splits)
  next
    case more
    then have "take_loop False m (sel @ [w]) (n + length (fst w)) ws = (sel', n', rest)"
      using Cons.prems(1) by (simp add: Let_def split: if_splits)
    from Cons.IH [OF this] more Cons.prems(3) show ?thesis by auto
  qed
qed simp

lemma take_live_bound:
  assumes "take_live b n = (b', Some batch)" "\<forall>w \<in> set (writes b). fst w \<noteq> []" "\<not> atomicBatchPending b"
  shows "length (batch_bytes batch) \<le> n \<or> batch_bytes batch \<in> fst ` set (writes b)"
proof -
  obtain sel m rest where l: "take_loop False n [] 0 (writes b) = (sel, m, rest)" by (metis prod_cases3)
  from take_loop_spec [OF l] have m: "m = length (concat (map fst sel))" by auto
  have "batch_bytes batch = concat (map fst sel)"
    using assms(1,3) l by (auto simp: take_live_def split: if_splits)
  with take_loop_bound [OF l _ assms(2)] m show ?thesis by (force simp: image_iff)
qed

text \<open>
  The buffer's bookkeeping holds in every run: the size it reports is the number of bytes it
  holds, it never holds an empty chunk, and while the terminal's synchronized mode is on, the whole
  backlog is marked to go out as one batch.
\<close>

theorem live_buffer_invariant:
  assumes "live_run ops b outs"
  shows "live_inv b"
  using assms by (rule live_run_inv)

subsection \<open>Repaints reach the terminal whole\<close>

text \<open>
  The stream position after the batches written so far and after the first chunks still held. While
  no repaint is pending, none of these positions is inside one.
\<close>

definition untorn :: "bytes \<Rightarrow> 'c live_buffer \<Rightarrow> bool" where
  "untorn out b \<longleftrightarrow>
     tracks (out @ pending b) (synchronizedOutput b) \<and>
     (\<not> atomicBatchPending b \<longrightarrow>
        (\<forall>ys zs. writes b = ys @ zs \<longrightarrow> \<not> mode_after (out @ concat (map fst ys))))"

lemma untorn_fresh: "untorn [] empty_live" "untorn [] (clear_live b)"
  using tracks_fresh
  by (simp_all add: untorn_def empty_live_def clear_live_def release_def pending_def fresh_tracker_def)

lemma untorn_enqueue:
  assumes "untorn out b"
  shows "untorn out (fst (enqueue b bs cb))"
proof (cases "bs = []")
  case True
  with assms show ?thesis by (simp add: enqueue_def)
next
  case False
  let ?b = "fst (enqueue b bs cb)"
  have b: "writes ?b = writes b @ [(bs, cb)]"
      "synchronizedOutput ?b = fst (foldl consume_byte (synchronizedOutput b, False) bs)"
    using False fst_consume [of "synchronizedOutput b" bs]
    by (auto simp: enqueue_def Let_def split: prod.splits)
  have t: "tracks (out @ pending ?b) (synchronizedOutput ?b)"
    using assms tracks_consume [of "out @ pending b" "synchronizedOutput b" bs False]
    by (simp add: untorn_def pending_def b)
  have "\<not> mode_after (out @ concat (map fst ys))"
    if na: "\<not> atomicBatchPending ?b" and ws: "writes ?b = ys @ zs" for ys zs
  proof (cases "zs = []")
    case True
    have "\<not> active (synchronizedOutput ?b)"
      using na False by (auto simp: enqueue_def consume_def Let_def split: prod.splits if_splits)
    then show ?thesis using t True ws by (simp add: tracks_def pending_def)
  next
    case zs: False
    have "writes b = ys @ butlast zs" using ws zs b(1) by (metis butlast_append butlast_snoc)
    moreover have "\<not> atomicBatchPending b"
      using na False by (auto simp: enqueue_def Let_def split: prod.splits if_splits)
    ultimately show ?thesis using assms by (simp add: untorn_def)
  qed
  with t show ?thesis by (simp add: untorn_def)
qed

lemma untorn_take:
  assumes "untorn out b" "take_live b n = (b', Some batch)"
  shows "untorn (out @ batch_bytes batch) b' \<and> \<not> mode_after (out @ batch_bytes batch)"
proof (rule take_live_cases [of b n])
  fix ys rest batch'
  assume c: "writes b = ys @ rest" "\<not> active (synchronizedOutput b)" "atomicBatchPending b \<longrightarrow> rest = []"
      "take_live b n = (b\<lparr>writes := rest, byteLength := byteLength b - length (concat (map fst ys)),
         atomicBatchPending := False\<rparr>, Some batch')" "batch_bytes batch' = concat (map fst ys)"
  then have b': "writes b' = rest" "synchronizedOutput b' = synchronizedOutput b"
      "\<not> atomicBatchPending b'" "batch_bytes batch = concat (map fst ys)"
    using assms(2) by auto
  have pos: "\<not> mode_after (out @ concat (map fst (ys @ us)))" if "rest = us @ vs" for us vs
  proof (cases "atomicBatchPending b")
    case True
    then have "us = []" "rest = []" using c(3) that by auto
    then show ?thesis using c(1,2) assms(1) by (simp add: untorn_def tracks_def pending_def)
  next
    case False
    moreover have "writes b = (ys @ us) @ vs" using c(1) that by simp
    ultimately show ?thesis using assms(1) unfolding untorn_def by blast
  qed
  have "tracks ((out @ batch_bytes batch) @ pending b') (synchronizedOutput b')"
    using assms(1) c(1) b' by (simp add: untorn_def pending_def)
  moreover have "\<forall>us vs. rest = us @ vs \<longrightarrow> \<not> mode_after ((out @ batch_bytes batch) @ concat (map fst us))"
    using pos b'(4) by simp
  moreover have "\<not> mode_after (out @ batch_bytes batch)" using pos [of "[]" rest] b'(4) by simp
  ultimately show ?thesis using b' by (simp add: untorn_def)
qed (use assms(2) in simp)

lemma run_untorn:
  assumes "live_run ops b outs" "LRelease \<notin> set ops"
  shows "untorn (written outs) b"
  using assms
proof (induction rule: live_run.induct)
  case start
  show ?case by (simp add: untorn_fresh)
next
  case (enq ops b outs bs cb)
  then show ?case by (simp add: untorn_enqueue)
next
  case (take ops b outs n b' r)
  then have "untorn (written outs) b" by simp
  then show ?case
  proof (cases r)
    case None
    then have "b' = b" using take.hyps(2) by (auto simp: take_live_def Let_def split: if_splits prod.splits)
    with None \<open>untorn (written outs) b\<close> show ?thesis by simp
  next
    case (Some batch)
    with untorn_take [OF \<open>untorn (written outs) b\<close>] take.hyps(2) show ?thesis by simp
  qed
qed (simp_all add: untorn_fresh)

text \<open>
  C31: No torn repaint. As long as nobody releases the synchronization by hand, every batch the
  terminal receives ends outside the synchronized-output mode of the stream: no write boundary falls
  between the marker that begins a repaint and the one that completes it, however the chunks arrived
  and whatever batch sizes were asked for.
\<close>

theorem no_torn_repaint:
  assumes "live_run ops b outs" "LRelease \<notin> set ops" "take_live b n = (b', Some batch)"
  shows "\<not> mode_after (written (outs @ [batch]))"
  using untorn_take [OF run_untorn [OF assms(1,2)] assms(3)] by simp

text \<open>
  Output is not held back needlessly: outside the synchronized mode a take returns a batch
  whenever anything is buffered, the batch is never empty, and it exceeds the requested size only
  when it is one chunk or completes a repaint.
\<close>

theorem take_progress:
  assumes "live_run ops b outs" "\<not> active (synchronizedOutput b)" "pending b \<noteq> []"
  shows "\<exists>b' batch. take_live b n = (b', Some batch) \<and> batch_bytes batch \<noteq> [] \<and>
    (length (batch_bytes batch) \<le> n \<or> atomicBatchPending b \<or> batch_bytes batch \<in> fst ` set (writes b))"
proof -
  have inv: "\<forall>w \<in> set (writes b). fst w \<noteq> []"
    using live_run_inv [OF assms(1)] by (simp add: live_inv_def)
  show ?thesis
  proof (rule take_live_cases [of b n])
    assume "writes b = [] \<or> active (synchronizedOutput b)"
    then show ?thesis using assms(2,3) by (simp add: pending_def)
  next
    fix ys rest batch
    assume c: "writes b = ys @ rest" "ys \<noteq> []"
      "take_live b n = (b\<lparr>writes := rest, byteLength := byteLength b - length (concat (map fst ys)),
         atomicBatchPending := False\<rparr>, Some batch)" "batch_bytes batch = concat (map fst ys)"
    have "batch_bytes batch \<noteq> []" using c inv by (cases ys) auto
    moreover have "length (batch_bytes batch) \<le> n \<or> atomicBatchPending b \<or> batch_bytes batch \<in> fst ` set (writes b)"
      using take_live_bound [OF c(3) inv] by blast
    ultimately show ?thesis using c(3) by blast
  qed
qed

subsection \<open>Holding output back during a repaint\<close>

definition post_inv :: "post_buffer \<Rightarrow> bool" where
  "post_inv b \<longleftrightarrow>
     pb_byteLength b = length (concat (map hw_bytes (pb_writes b))) \<and> pb_byteLength b \<le> maxBytes b \<and>
     (overflowed b \<longrightarrow> pb_writes b = [])"

datatype post_op = PEnqueue bytes "int option" geometry | PDrain "int option" geometry | PClear

fun post_step :: "post_buffer \<Rightarrow> post_op \<Rightarrow> post_buffer" where
  "post_step b (PEnqueue bs off g) = enqueue_post b bs off g"
| "post_step b (PDrain covered g) = fst (drain b covered g)"
| "post_step b PClear = clear_post b"

lemma post_step_inv: "post_inv b \<Longrightarrow> post_inv (post_step b op) \<and> maxBytes (post_step b op) = maxBytes b"
  by (cases op) (auto simp: post_inv_def enqueue_post_def drain_def clear_post_def Let_def)

text \<open>
  The buffer that holds output back during a repaint never holds more than its limit, whatever
  is enqueued, drained and cleared in whatever order, and after an overflow it holds nothing.
\<close>

theorem post_buffer_bounded:
  "post_inv (foldl post_step (new_post limit) ops) \<and>
   pb_byteLength (foldl post_step (new_post limit) ops) \<le> limit"
proof -
  have "post_inv (foldl post_step (new_post limit) ops) \<and> maxBytes (foldl post_step (new_post limit) ops) = limit"
  proof (induction ops rule: rev_induct)
    case (snoc op ops)
    then show ?case using post_step_inv by simp
  qed (simp add: post_inv_def new_post_def)
  then show ?thesis by (auto simp: post_inv_def)
qed

lemma foldl_cover:
  "foldl cover (Some c) ws = Some (Max (insert c {off. \<exists>w \<in> set ws. offsetAfter w = Some off}))"
proof (induction ws arbitrary: c)
  case (Cons w ws)
  have fin: "finite {off. \<exists>w \<in> set ws. offsetAfter w = Some off}"
    by (rule finite_subset [of _ "(\<lambda>w. the (offsetAfter w)) ` set ws"]) (force, simp)
  show ?case
  proof (cases "offsetAfter w")
    case None
    then show ?thesis using Cons.IH [of c] by (simp add: cover_def)
  next
    case (Some off)
    have "{o'. \<exists>v \<in> set (w # ws). offsetAfter v = Some o'} = insert off {o'. \<exists>v \<in> set ws. offsetAfter v = Some o'}"
      using Some by auto
    then show ?thesis using Some Cons.IH [of "max c off"] fin
      by (cases "{o'. \<exists>v \<in> set ws. offsetAfter v = Some o'} = {}") (auto simp: cover_def max.assoc)
  qed
qed simp

text \<open>
  Draining returns exactly the chunks the checkpoint does not cover, in order, when all of them
  were produced at the current geometry, and moves the covered offset to the largest it has seen;
  after an overflow or a change of geometry it asks for a fresh checkpoint instead. It always leaves
  the buffer empty.
\<close>

theorem drain_exact:
  "case drain b (Some c) g of
     (b', Refresh) \<Rightarrow> pb_writes b' = [] \<and>
       (overflowed b \<or> (\<exists>w \<in> set (pb_writes b). uncovered (Some c) w \<and>
          (cols (hw_geometry w) \<noteq> cols g \<or> rows (hw_geometry w) \<noteq> rows g)))
   | (b', Writes chunks covered) \<Rightarrow> pb_writes b' = [] \<and> \<not> overflowed b \<and>
       chunks = map hw_bytes (filter (uncovered (Some c)) (pb_writes b)) \<and>
       covered = Some (Max (insert c {off. \<exists>w \<in> set (pb_writes b). offsetAfter w = Some off}))"
proof -
  have "Max (insert c {off. \<exists>w \<in> set (filter (uncovered (Some c)) (pb_writes b)). offsetAfter w = Some off}) =
      Max (insert c {off. \<exists>w \<in> set (pb_writes b). offsetAfter w = Some off})"
  proof -
    let ?A = "{off. \<exists>w \<in> set (pb_writes b). offsetAfter w = Some off}"
    have fin: "finite ?A"
      by (rule finite_subset [of _ "(\<lambda>w. the (offsetAfter w)) ` set (pb_writes b)"]) (force, simp)
    have "{off. \<exists>w \<in> set (filter (uncovered (Some c)) (pb_writes b)). offsetAfter w = Some off} = {off \<in> ?A. off > c}"
      by (auto simp: uncovered_def)
    moreover have "Max (insert c {off \<in> ?A. off > c}) = Max (insert c ?A)"
    proof (rule Max_eq_if)
      show "\<forall>a \<in> insert c ?A. \<exists>a' \<in> insert c {off \<in> ?A. off > c}. a \<le> a'"
        by (metis (no_types, lifting) insertE insertI1 insertI2 linorder_not_le mem_Collect_eq order_refl)
    qed (use fin in auto)
    ultimately show ?thesis by simp
  qed
  then show ?thesis
    by (auto simp: drain_def clear_post_def Let_def list_ex_iff foldl_cover split: if_splits)
qed

subsection \<open>A repaint that arrives in three chunks\<close>

definition begin_marker :: bytes where
  "begin_marker = sync_prefix @ [0x68]"

definition end_marker :: bytes where
  "end_marker = sync_prefix @ [0x6c]"

definition repaint_ops :: "unit live_op list" where
  "repaint_ops = [LEnqueue (take 3 begin_marker) None, LEnqueue (drop 3 begin_marker @ [0x41]) None,
     LTake 1, LEnqueue (end_marker @ [0x42]) (Some ())]"

definition repaint_buffer :: "unit live_buffer" where
  "repaint_buffer =
     fst (enqueue (fst (take_live (fst (enqueue (fst (enqueue empty_live (take 3 begin_marker) None))
       (drop 3 begin_marker @ [0x41]) None)) 1)) (end_marker @ [0x42]) (Some ()))"

lemma repaint_run: "live_run repaint_ops repaint_buffer []"
proof -
  let ?b1 = "fst (enqueue empty_live (take 3 begin_marker) None) :: unit live_buffer"
  let ?b2 = "fst (enqueue ?b1 (drop 3 begin_marker @ [0x41]) None)"
  have "live_run ([] @ [LEnqueue (take 3 begin_marker) None]) ?b1 []"
    by (rule live_run.enq [OF live_run.start])
  from live_run.enq [OF this] have "live_run (([] @ [LEnqueue (take 3 begin_marker) None]) @
      [LEnqueue (drop 3 begin_marker @ [0x41]) None]) ?b2 []" .
  moreover have "snd (take_live ?b2 1) = None" by code_simp
  then have "take_live ?b2 1 = (fst (take_live ?b2 1), None)" by (metis prod.collapse)
  ultimately have "live_run ((([] @ [LEnqueue (take 3 begin_marker) None]) @
      [LEnqueue (drop 3 begin_marker @ [0x41]) None]) @ [LTake 1]) (fst (take_live ?b2 1))
      ([] @ (case None of None \<Rightarrow> [] | Some batch \<Rightarrow> [batch]))"
    by (rule live_run.take)
  from live_run.enq [OF this, of "end_marker @ [0x42]" "Some ()"] show ?thesis
    by (simp add: repaint_ops_def repaint_buffer_def)
qed

theorem live_buffer_invariant_witness: "live_inv repaint_buffer"
  by (rule live_buffer_invariant [OF repaint_run])

theorem no_torn_repaint_witness:
  "\<exists>b' batch. take_live repaint_buffer 1 = (b', Some batch) \<and> length (batch_bytes batch) = 18 \<and>
     \<not> mode_after (batch_bytes batch)"
proof -
  have r: "map_option (length \<circ> batch_bytes) (snd (take_live repaint_buffer 1)) = Some 18" by code_simp
  then obtain b' batch where t: "take_live repaint_buffer 1 = (b', Some batch)"
    by (cases "take_live repaint_buffer 1") auto
  from no_torn_repaint [OF repaint_run _ t] r t show ?thesis by (simp add: repaint_ops_def)
qed

theorem take_progress_witness:
  "\<exists>b' batch. take_live repaint_buffer 5 = (b', Some batch) \<and> batch_bytes batch \<noteq> []"
proof -
  have "\<not> active (synchronizedOutput repaint_buffer)" "pending repaint_buffer \<noteq> []" by code_simp+
  from take_progress [OF repaint_run this, of 5] show ?thesis by blast
qed

end
