(* ===== verification/Split_Store.thy ===== *)
theory Split_Store
  imports Prelude "HOL-Library.Countable"
begin

section \<open>The split view's store\<close>

text \<open>
  \<open>web/src/lib/split-store.ts\<close>: which two workspaces are shown side by side, where the seam is,
  which half has the keyboard. The pair and the seam survive a reload through the browser's local
  storage; what is on screen and which half is active do not.

  The store is a module singleton: its variables are the record \<open>split_store\<close>, and every method is
  a function on it. The browser is the record \<open>platform\<close>: whether there is a window at all, whether
  storage may be read and written (private browsing and full disks raise exceptions), and the JSON
  codec. A listener is called with no argument, so \<open>emit\<close> records the calls in order; a listener that
  throws (the rest would not be called) or that calls back into the store while it is being notified is
  not modelled.
\<close>

subsection \<open>State\<close>

definition SPLIT_STORAGE_KEY :: string where
  "SPLIT_STORAGE_KEY = ''spawn.workspaces.split''"

datatype split_side = SPrimary | SSecondary

record split_pair =
  primaryId :: string
  secondaryId :: string

record split_state =
  pair :: "split_pair option"
  renderedSecondaryId :: "string option"
  ratio :: rat
  activeSide :: split_side

definition MIN_RATIO :: rat where "MIN_RATIO = 1 / 4"

definition MAX_RATIO :: rat where "MAX_RATIO = 3 / 4"

definition DEFAULT_RATIO :: rat where "DEFAULT_RATIO = 1 / 2"

definition DEFAULT_STATE :: split_state where
  "DEFAULT_STATE = \<lparr>pair = None, renderedSecondaryId = None, ratio = DEFAULT_RATIO, activeSide = SPrimary\<rparr>"

text \<open>A JavaScript number that is not finite is one of the other constructors of \<^typ>\<open>jsval\<close>.\<close>

definition clampRatio :: "jsval \<Rightarrow> rat" where
  "clampRatio v = (case v of JNum q \<Rightarrow> min MAX_RATIO (max MIN_RATIO q) | _ \<Rightarrow> DEFAULT_RATIO)"

definition toPair :: "jsval \<Rightarrow> jsval \<Rightarrow> split_pair option" where
  "toPair p s =
     (case (js_string p, js_string s) of
        (Some a, Some b) \<Rightarrow>
          if a = [] \<or> b = [] \<or> a = b then None else Some \<lparr>primaryId = a, secondaryId = b\<rparr>
      | _ \<Rightarrow> None)"

text \<open>The empty id is as falsy as no id.\<close>

definition memberSide :: "split_pair option \<Rightarrow> string option \<Rightarrow> split_side option" where
  "memberSide pr wid =
     (case (pr, wid) of
        (Some q, Some w) \<Rightarrow>
          if w = [] then None
          else if primaryId q = w then Some SPrimary
          else if secondaryId q = w then Some SSecondary
          else None
      | _ \<Rightarrow> None)"

definition splitFor :: "split_pair option \<Rightarrow> string option \<Rightarrow> split_pair option" where
  "splitFor pr routed = (if memberSide pr routed \<noteq> None then pr else None)"

text \<open>\<open>typeof value === "object"\<close> holds for arrays too; they have none of the fields.\<close>

definition js_object :: "jsval \<Rightarrow> bool" where
  "js_object v = (case v of JObj _ \<Rightarrow> True | JArr _ \<Rightarrow> True | _ \<Rightarrow> False)"

definition js_number :: "jsval \<Rightarrow> bool" where
  "js_number v = (case v of JNum _ \<Rightarrow> True | JNaN \<Rightarrow> True | JInf _ \<Rightarrow> True | _ \<Rightarrow> False)"

definition normalizeSplit :: "jsval \<Rightarrow> split_state" where
  "normalizeSplit v =
     (if \<not> js_object v then DEFAULT_STATE
      else \<lparr>pair = toPair (js_get v ''primaryId'') (js_get v ''secondaryId''),
            renderedSecondaryId = None,
            ratio = clampRatio (if js_number (js_get v ''ratio'') then js_get v ''ratio'' else JNum DEFAULT_RATIO),
            activeSide = SPrimary\<rparr>)"

record platform =
  has_window :: bool
  can_read :: bool
  can_write :: bool
  json_parse :: "string \<Rightarrow> jsval option"
  json_string :: "jsval \<Rightarrow> string"

definition readStoredSplit :: "platform \<Rightarrow> string option \<Rightarrow> split_state" where
  "readStoredSplit env item =
     (if \<not> has_window env then DEFAULT_STATE
      else if \<not> can_read env then DEFAULT_STATE
      else case item of
        None \<Rightarrow> DEFAULT_STATE
      | Some text \<Rightarrow>
          if text = [] then DEFAULT_STATE
          else (case json_parse env text of None \<Rightarrow> DEFAULT_STATE | Some v \<Rightarrow> normalizeSplit v))"

subsection \<open>The store\<close>

text \<open>
  The fields up to \<open>initialised\<close> are the module's variables, \<open>stored\<close> is the item under
  \<^const>\<open>SPLIT_STORAGE_KEY\<close>, and \<open>calls\<close> lists the listeners called so far.
\<close>

record 'l split_store =
  listeners :: "'l list"
  state :: split_state
  initialised :: bool
  stored :: "string option"
  calls :: "'l list"

definition fresh_store :: "string option \<Rightarrow> 'l split_store" where
  "fresh_store item =
     \<lparr>listeners = [], state = DEFAULT_STATE, initialised = False, stored = item, calls = []\<rparr>"

definition emit :: "'l split_store \<Rightarrow> 'l split_store" where
  "emit s = s\<lparr>calls := calls s @ listeners s\<rparr>"

definition ensureInitialised :: "platform \<Rightarrow> 'l split_store \<Rightarrow> 'l split_store" where
  "ensureInitialised env s =
     (if initialised s \<or> \<not> has_window env then s
      else s\<lparr>initialised := True, state := readStoredSplit env (stored s)\<rparr>)"

definition persisted :: "split_state \<Rightarrow> jsval" where
  "persisted st =
     JObj [(''primaryId'', case pair st of None \<Rightarrow> JNull | Some p \<Rightarrow> JStr (primaryId p)),
           (''secondaryId'', case pair st of None \<Rightarrow> JNull | Some p \<Rightarrow> JStr (secondaryId p)),
           (''ratio'', JNum (ratio st))]"

definition persist :: "platform \<Rightarrow> 'l split_store \<Rightarrow> 'l split_store" where
  "persist env s =
     (if has_window env \<and> can_write env
      then s\<lparr>stored := Some (json_string env (persisted (state s)))\<rparr> else s)"

definition samePair :: "split_pair option \<Rightarrow> split_pair option \<Rightarrow> bool" where
  "samePair a b =
     (case (a, b) of
        (None, None) \<Rightarrow> True
      | (Some p, Some q) \<Rightarrow> primaryId p = primaryId q \<and> secondaryId p = secondaryId q
      | _ \<Rightarrow> False)"

definition set_state :: "platform \<Rightarrow> split_state \<Rightarrow> 'l split_store \<Rightarrow> 'l split_store" where
  "set_state env nxt s =
     (if samePair (pair nxt) (pair (state s)) \<and> renderedSecondaryId nxt = renderedSecondaryId (state s) \<and>
         ratio nxt = ratio (state s) \<and> activeSide nxt = activeSide (state s)
      then s
      else
        let persistable = (\<not> samePair (pair nxt) (pair (state s)) \<or> ratio nxt \<noteq> ratio (state s));
            s' = s\<lparr>state := nxt\<rparr>
        in emit (if persistable then persist env s' else s'))"

text \<open>\<open>splitStore.get\<close> returns the state and may initialise the store on the way.\<close>

definition store_get :: "platform \<Rightarrow> 'l split_store \<Rightarrow> 'l split_store \<times> split_state" where
  "store_get env s = (let s' = ensureInitialised env s in (s', state s'))"

definition subscribe :: "platform \<Rightarrow> 'l \<Rightarrow> 'l split_store \<Rightarrow> 'l split_store" where
  "subscribe env l s =
     (let s' = ensureInitialised env s in
      if l \<in> set (listeners s') then s' else s'\<lparr>listeners := listeners s' @ [l]\<rparr>)"

definition unsubscribe :: "'l \<Rightarrow> 'l split_store \<Rightarrow> 'l split_store" where
  "unsubscribe l s = s\<lparr>listeners := filter (\<lambda>k. k \<noteq> l) (listeners s)\<rparr>"

text \<open>A workspace id argument of type \<open>string | null\<close> as the value \<open>toPair\<close> inspects.\<close>

definition js_id :: "string option \<Rightarrow> jsval" where
  "js_id x = (case x of None \<Rightarrow> JNull | Some w \<Rightarrow> JStr w)"

definition setPair :: "platform \<Rightarrow> string option \<Rightarrow> string option \<Rightarrow> 'l split_store \<Rightarrow> 'l split_store" where
  "setPair env p q s0 =
     (let s = ensureInitialised env s0 in
      case toPair (js_id p) (js_id q) of
        None \<Rightarrow> s
      | Some pr \<Rightarrow> set_state env ((state s)\<lparr>pair := Some pr\<rparr>) s)"

definition clear :: "platform \<Rightarrow> 'l split_store \<Rightarrow> 'l split_store" where
  "clear env s0 =
     (let s = ensureInitialised env s0 in
      set_state env ((state s)\<lparr>pair := None, activeSide := SPrimary\<rparr>) s)"

definition unsplit ::
  "platform \<Rightarrow> string \<Rightarrow> string option \<Rightarrow> 'l split_store \<Rightarrow> 'l split_store \<times> string option" where
  "unsplit env keepId routedId s0 =
     (let s = ensureInitialised env s0;
          side = memberSide (pair (state s)) routedId
      in (set_state env ((state s)\<lparr>pair := None, activeSide := SPrimary\<rparr>) s,
          if side \<noteq> None \<and> routedId \<noteq> Some keepId then Some keepId else None))"

definition setRendered :: "platform \<Rightarrow> string option \<Rightarrow> 'l split_store \<Rightarrow> 'l split_store" where
  "setRendered env w s0 =
     (let s = ensureInitialised env s0 in set_state env ((state s)\<lparr>renderedSecondaryId := w\<rparr>) s)"

definition setRatio :: "platform \<Rightarrow> jsval \<Rightarrow> 'l split_store \<Rightarrow> 'l split_store" where
  "setRatio env r s0 =
     (let s = ensureInitialised env s0 in set_state env ((state s)\<lparr>ratio := clampRatio r\<rparr>) s)"

definition setActiveSide :: "platform \<Rightarrow> split_side \<Rightarrow> 'l split_store \<Rightarrow> 'l split_store" where
  "setActiveSide env side s0 =
     (let s = ensureInitialised env s0 in
      if pair (state s) = None then s else set_state env ((state s)\<lparr>activeSide := side\<rparr>) s)"

definition followRoute :: "platform \<Rightarrow> string option \<Rightarrow> 'l split_store \<Rightarrow> 'l split_store" where
  "followRoute env routedId s0 =
     (let s = ensureInitialised env s0 in
      set_state env
        ((state s)\<lparr>activeSide := (case memberSide (pair (state s)) routedId of
                                    None \<Rightarrow> SPrimary | Some side \<Rightarrow> side)\<rparr>) s)"

definition reconcile :: "platform \<Rightarrow> string list option \<Rightarrow> 'l split_store \<Rightarrow> 'l split_store" where
  "reconcile env knownIds s0 =
     (let s = ensureInitialised env s0 in
      case (pair (state s), knownIds) of
        (Some p, Some ids) \<Rightarrow>
          if primaryId p \<in> set ids \<and> secondaryId p \<in> set ids then s
          else set_state env ((state s)\<lparr>pair := None, activeSide := SPrimary\<rparr>) s
      | _ \<Rightarrow> s)"

definition useIsSplit :: "split_state \<Rightarrow> bool" where
  "useIsSplit st \<longleftrightarrow> renderedSecondaryId st \<noteq> None"

subsection \<open>Runs\<close>

text \<open>What the rest of the client may do to the store, and what it then holds.\<close>

datatype 'l split_op =
    OGet | OSubscribe 'l | OUnsubscribe 'l | OSetPair "string option" "string option" | OClear
  | OUnsplit string "string option" | OSetRendered "string option" | OSetRatio jsval
  | OSetActiveSide split_side | OFollowRoute "string option" | OReconcile "string list option"

fun split_do :: "platform \<Rightarrow> 'l split_op \<Rightarrow> 'l split_store \<Rightarrow> 'l split_store" where
  "split_do env OGet s = fst (store_get env s)"
| "split_do env (OSubscribe l) s = subscribe env l s"
| "split_do env (OUnsubscribe l) s = unsubscribe l s"
| "split_do env (OSetPair p q) s = setPair env p q s"
| "split_do env OClear s = clear env s"
| "split_do env (OUnsplit k r) s = fst (unsplit env k r s)"
| "split_do env (OSetRendered w) s = setRendered env w s"
| "split_do env (OSetRatio r) s = setRatio env r s"
| "split_do env (OSetActiveSide d) s = setActiveSide env d s"
| "split_do env (OFollowRoute r) s = followRoute env r s"
| "split_do env (OReconcile ids) s = reconcile env ids s"

inductive split_reach :: "platform \<Rightarrow> 'l split_store \<Rightarrow> bool" for env where
  load: "split_reach env (fresh_store item)"
| op: "split_reach env s \<Longrightarrow> split_reach env (split_do env op s)"

subsection \<open>What a step does\<close>

lemma samePair_eq: "samePair a b \<longleftrightarrow> a = b"
  by (auto simp: samePair_def split: option.splits)

lemma same_state:
  "(samePair (pair a) (pair b) \<and> renderedSecondaryId a = renderedSecondaryId b \<and> ratio a = ratio b \<and>
    activeSide a = activeSide b) \<longleftrightarrow> a = (b :: split_state)"
  by (cases a; cases b) (auto simp: samePair_eq)

lemma set_state_same [simp]: "set_state env (state s) s = s"
  by (simp add: set_state_def samePair_eq)

lemma set_state_fields:
  "state (set_state env nxt s) = nxt"
  "initialised (set_state env nxt s) = initialised s"
  "listeners (set_state env nxt s) = listeners s"
  "calls (set_state env nxt s) = calls s @ (if nxt = state s then [] else listeners s)"
  "stored (set_state env nxt s) =
     (if (pair nxt \<noteq> pair (state s) \<or> ratio nxt \<noteq> ratio (state s)) \<and> has_window env \<and> can_write env
      then Some (json_string env (persisted nxt)) else stored s)"
  unfolding set_state_def same_state by (auto simp: emit_def persist_def samePair_eq Let_def)

text \<open>
  The state each method hands to \<open>set_state\<close>, for all of them at once: the proofs below go through it
  instead of through every method.
\<close>

fun split_next :: "'l split_op \<Rightarrow> split_state \<Rightarrow> split_state" where
  "split_next (OSetPair p q) st =
     (case toPair (js_id p) (js_id q) of None \<Rightarrow> st | Some pr \<Rightarrow> st\<lparr>pair := Some pr\<rparr>)"
| "split_next OClear st = st\<lparr>pair := None, activeSide := SPrimary\<rparr>"
| "split_next (OUnsplit k r) st = st\<lparr>pair := None, activeSide := SPrimary\<rparr>"
| "split_next (OSetRendered w) st = st\<lparr>renderedSecondaryId := w\<rparr>"
| "split_next (OSetRatio r) st = st\<lparr>ratio := clampRatio r\<rparr>"
| "split_next (OSetActiveSide d) st = (if pair st = None then st else st\<lparr>activeSide := d\<rparr>)"
| "split_next (OFollowRoute r) st =
     st\<lparr>activeSide := (case memberSide (pair st) r of None \<Rightarrow> SPrimary | Some d \<Rightarrow> d)\<rparr>"
| "split_next (OReconcile ids) st =
     (case (pair st, ids) of
        (Some p, Some ws) \<Rightarrow>
          if primaryId p \<in> set ws \<and> secondaryId p \<in> set ws then st
          else st\<lparr>pair := None, activeSide := SPrimary\<rparr>
      | _ \<Rightarrow> st)"
| "split_next _ st = st"

lemma split_do_step:
  assumes "\<nexists>l. op = OSubscribe l \<or> op = OUnsubscribe l"
  shows "split_do env op s =
    set_state env (split_next op (state (ensureInitialised env s))) (ensureInitialised env s)"
  using assms
  by (cases op)
     (auto simp: store_get_def setPair_def clear_def unsplit_def setRendered_def setRatio_def
        setActiveSide_def followRoute_def reconcile_def Let_def split: option.splits)

lemma split_do_cases:
  obtains (step) "split_do env op s =
      set_state env (split_next op (state (ensureInitialised env s))) (ensureInitialised env s)"
  | (subs) ls where "split_do env op s = (ensureInitialised env s)\<lparr>listeners := ls\<rparr>" "\<And>st. split_next op st = st"
  | (unsubs) ls where "split_do env op s = s\<lparr>listeners := ls\<rparr>" "\<And>st. split_next op st = st"
proof (cases "\<exists>l. op = OSubscribe l \<or> op = OUnsubscribe l")
  case False
  then show thesis by (rule step [OF split_do_step])
next
  case True
  then obtain l where "op = OSubscribe l \<or> op = OUnsubscribe l" ..
  then show thesis
  proof
    assume op: "op = OSubscribe l"
    let ?e = "ensureInitialised env s"
    show thesis
      by (rule subs [of "if l \<in> set (listeners ?e) then listeners ?e else listeners ?e @ [l]"])
         (simp_all add: op subscribe_def Let_def)
  next
    assume op: "op = OUnsubscribe l"
    show thesis by (rule unsubs [of "filter (\<lambda>k. k \<noteq> l) (listeners s)"]) (simp_all add: op unsubscribe_def)
  qed
qed

lemma ensureInitialised_initialised [simp]: "initialised s \<Longrightarrow> ensureInitialised env s = s"
  by (simp add: ensureInitialised_def)

lemma split_do_initialised: "initialised s \<Longrightarrow> initialised (split_do env op s)"
  by (rule split_do_cases [of env op s]) (simp_all add: set_state_fields)

subsection \<open>The invariant\<close>

text \<open>
  A pair names two different workspaces, the seam stays where it can be dragged back, and only a
  split has a second half that could be active.
\<close>

definition pair_ok :: "split_pair \<Rightarrow> bool" where
  "pair_ok p \<longleftrightarrow> primaryId p \<noteq> [] \<and> secondaryId p \<noteq> [] \<and> primaryId p \<noteq> secondaryId p"

definition split_ok :: "split_state \<Rightarrow> bool" where
  "split_ok st \<longleftrightarrow>
     (\<forall>p. pair st = Some p \<longrightarrow> pair_ok p) \<and> MIN_RATIO \<le> ratio st \<and> ratio st \<le> MAX_RATIO \<and>
     (pair st = None \<longrightarrow> activeSide st = SPrimary)"

lemmas ratio_defs = MIN_RATIO_def MAX_RATIO_def DEFAULT_RATIO_def

lemma ratio_order: "MIN_RATIO \<le> DEFAULT_RATIO" "DEFAULT_RATIO \<le> MAX_RATIO" "MIN_RATIO \<le> MAX_RATIO"
  by (simp_all add: ratio_defs)

lemma clampRatio_bounds: "MIN_RATIO \<le> clampRatio v \<and> clampRatio v \<le> MAX_RATIO"
  by (simp add: clampRatio_def ratio_order split: jsval.splits)

lemma toPair_ok: "toPair a b = Some p \<Longrightarrow> pair_ok p"
  by (auto simp: toPair_def pair_ok_def split: option.splits if_splits)

lemma DEFAULT_ok: "split_ok DEFAULT_STATE"
  by (simp add: split_ok_def DEFAULT_STATE_def ratio_order)

lemma normalizeSplit_ok: "split_ok (normalizeSplit v)"
  by (simp add: normalizeSplit_def DEFAULT_ok) (auto simp: split_ok_def clampRatio_bounds dest: toPair_ok)

lemma readStoredSplit_ok: "split_ok (readStoredSplit env item)"
  by (simp add: readStoredSplit_def DEFAULT_ok normalizeSplit_ok split: option.splits)

lemma memberSide_None [simp]: "memberSide None r = None"
  by (simp add: memberSide_def)

lemma split_next_ok: "split_ok st \<Longrightarrow> split_ok (split_next op st)"
  by (cases op)
     (auto simp: split_ok_def clampRatio_bounds dest: toPair_ok split: option.splits)

lemma ensure_ok: "split_ok (state s) \<Longrightarrow> split_ok (state (ensureInitialised env s))"
  by (simp add: ensureInitialised_def readStoredSplit_ok)

lemma reach_ok: "split_reach env s \<Longrightarrow> split_ok (state s)"
proof (induction rule: split_reach.induct)
  case (load item)
  show ?case by (simp add: fresh_store_def DEFAULT_ok)
next
  case (op s opn)
  then show ?case
    by (cases rule: split_do_cases [of env opn s]) (simp_all add: set_state_fields split_next_ok ensure_ok)
qed

text \<open>
  The store is safe for every caller: after any sequence of its methods, whatever was in local
  storage and whether or not storage works, a pair names two different workspaces with real ids, the
  seam lies between a quarter and three quarters, and without a split the first half is the active
  one.
\<close>

theorem split_store_invariant:
  assumes "split_reach env s"
  shows "(\<forall>p. pair (state s) = Some p \<longrightarrow>
       primaryId p \<noteq> [] \<and> secondaryId p \<noteq> [] \<and> primaryId p \<noteq> secondaryId p) \<and>
    1 / 4 \<le> ratio (state s) \<and> ratio (state s) \<le> 3 / 4 \<and>
    (pair (state s) = None \<longrightarrow> activeSide (state s) = SPrimary)"
  using reach_ok [OF assms] by (auto simp: split_ok_def pair_ok_def ratio_defs)

subsection \<open>Reload\<close>

text \<open>The state a reload starts from: the pair and the seam are kept, the session's part is not.\<close>

definition reloaded :: "split_state \<Rightarrow> split_state" where
  "reloaded st = st\<lparr>renderedSecondaryId := None, activeSide := SPrimary\<rparr>"

text \<open>Storage works, and the codec reads back the records the store writes.\<close>

definition storage_works :: "platform \<Rightarrow> bool" where
  "storage_works env \<longleftrightarrow>
     has_window env \<and> can_read env \<and> can_write env \<and>
     (\<forall>a b q. let v = JObj [(''primaryId'', js_id a), (''secondaryId'', js_id b), (''ratio'', JNum q)] in
        json_string env v \<noteq> [] \<and> json_parse env (json_string env v) = Some v)"

lemma persisted_js_id:
  "persisted st = JObj [(''primaryId'', js_id (map_option primaryId (pair st))),
     (''secondaryId'', js_id (map_option secondaryId (pair st))), (''ratio'', JNum (ratio st))]"
  by (simp add: persisted_def js_id_def split: option.splits)

lemma normalizeSplit_persisted:
  assumes "split_ok st"
  shows "normalizeSplit (persisted st) = reloaded st"
proof -
  have "toPair (js_id (map_option primaryId (pair st))) (js_id (map_option secondaryId (pair st))) = pair st"
    using assms by (cases "pair st") (auto simp: toPair_def js_id_def split_ok_def pair_ok_def)
  moreover have "clampRatio (JNum (ratio st)) = ratio st"
    using assms by (simp add: clampRatio_def split_ok_def)
  ultimately show ?thesis
    by (simp add: normalizeSplit_def persisted_js_id js_object_def js_number_def reloaded_def)
qed

lemma readStored_persisted:
  assumes "storage_works env" "split_ok st"
  shows "readStoredSplit env (Some (json_string env (persisted st))) = reloaded st"
proof -
  have "json_string env (persisted st) \<noteq> [] \<and>
      json_parse env (json_string env (persisted st)) = Some (persisted st)"
    using assms(1) unfolding storage_works_def persisted_js_id Let_def by blast
  then show ?thesis
    using assms by (simp add: readStoredSplit_def storage_works_def normalizeSplit_persisted)
qed

lemma reloaded_readStored: "reloaded (readStoredSplit env item) = readStoredSplit env item"
  by (simp add: reloaded_def readStoredSplit_def normalizeSplit_def DEFAULT_STATE_def split: option.splits)

lemma reloaded_eq: "pair a = pair b \<Longrightarrow> ratio a = ratio b \<Longrightarrow> reloaded a = reloaded (b :: split_state)"
  by (cases a; cases b) (simp add: reloaded_def)

lemma ensure_stored:
  "initialised s \<longrightarrow> readStoredSplit env (stored s) = reloaded (state s) \<Longrightarrow> has_window env \<Longrightarrow>
   readStoredSplit env (stored (ensureInitialised env s)) = reloaded (state (ensureInitialised env s)) \<and>
   initialised (ensureInitialised env s)"
  by (simp add: ensureInitialised_def reloaded_readStored)

lemma reach_stored:
  assumes "storage_works env" "split_reach env s"
  shows "initialised s \<longrightarrow> readStoredSplit env (stored s) = reloaded (state s)"
  using assms(2)
proof (induction rule: split_reach.induct)
  case (load item)
  show ?case by (simp add: fresh_store_def)
next
  case (op s opn)
  have w: "has_window env" "can_write env" using assms(1) by (simp_all add: storage_works_def)
  note e = ensure_stored [OF op.IH w(1)]
  have ok: "split_ok (split_next opn (state (ensureInitialised env s)))"
    using op.hyps reach_ok by (intro split_next_ok ensure_ok)
  show ?case
  proof (cases rule: split_do_cases [of env opn s])
    case step
    then show ?thesis
      using e w by (auto simp: set_state_fields readStored_persisted [OF assms(1) ok] intro: reloaded_eq)
  next
    case (subs ls)
    then show ?thesis using e by simp
  next
    case (unsubs ls)
    then show ?thesis using op.IH by simp
  qed
qed

text \<open>
  A reload restores the split. Whatever sequence of methods ran, in a browser whose storage works
  the next page load reads exactly the pair and the seam the store held, with nothing on screen and
  the first half active, also when most methods wrote nothing.
\<close>

theorem split_reload:
  assumes "storage_works env" "split_reach env s" "initialised s"
  shows "state (split_do env OGet (fresh_store (stored s))) =
    (state s)\<lparr>renderedSecondaryId := None, activeSide := SPrimary\<rparr>"
proof -
  have "has_window env" using assms(1) by (simp add: storage_works_def)
  then show ?thesis
    using reach_stored [OF assms(1,2)] assms(3)
    by (simp add: store_get_def ensureInitialised_def fresh_store_def Let_def reloaded_def)
qed

subsection \<open>The contract\<close>

lemma notified_once:
  "initialised s \<Longrightarrow>
   calls (split_do env op s) = calls s @ (if state (split_do env op s) = state s then [] else listeners s)"
  by (rule split_do_cases [of env op s]) (simp_all add: set_state_fields)

lemma state_split_do: "initialised s \<Longrightarrow> state (split_do env op s) = split_next op (state s)"
  by (rule split_do_cases [of env op s]) (simp_all add: set_state_fields)

text \<open>
  C35: What the split view's store promises its callers. After any sequence of its methods, whatever was
  in local storage, a pair names two different workspaces with real ids, the seam lies between a quarter
  and three quarters, and without a split the first half is the active one. Asked to show two
  workspaces, it shows the first named on the left and the second on the right if both have ids and they
  differ, and changes nothing otherwise; a seam inside the bounds is taken as it is, one outside goes to
  the nearer bound; following a route makes the right half active exactly when it shows the routed
  workspace; told which workspaces exist, it keeps the pair exactly when both do. Every method calls every listener exactly once if it changed the state and none if not. And
  where storage works, the next page load finds the pair and the seam the store holds.
\<close>

theorem split_store_contract:
  fixes s :: "'l split_store"
  assumes "split_reach env s" "initialised s"
  shows "(\<forall>p. pair (state s) = Some p \<longrightarrow>
       primaryId p \<noteq> [] \<and> secondaryId p \<noteq> [] \<and> primaryId p \<noteq> secondaryId p) \<and>
    1 / 4 \<le> ratio (state s) \<and> ratio (state s) \<le> 3 / 4 \<and>
    (pair (state s) = None \<longrightarrow> activeSide (state s) = SPrimary) \<and>
    state (split_do env (OSetPair (Some a) (Some b)) s) =
      (if a \<noteq> [] \<and> b \<noteq> [] \<and> a \<noteq> b then (state s)\<lparr>pair := Some \<lparr>primaryId = a, secondaryId = b\<rparr>\<rparr> else state s) \<and>
    state (split_do env (OSetRatio (JNum q)) s) =
      (state s)\<lparr>ratio := (if q < 1 / 4 then 1 / 4 else if 3 / 4 < q then 3 / 4 else q)\<rparr> \<and>
    (activeSide (state (split_do env (OFollowRoute (Some r)) s)) = SSecondary \<longleftrightarrow>
      (\<exists>p. pair (state s) = Some p \<and> secondaryId p = r)) \<and>
    pair (state (split_do env (OReconcile (Some ids)) s)) =
      (case pair (state s) of None \<Rightarrow> None
       | Some p \<Rightarrow> if {primaryId p, secondaryId p} \<subseteq> set ids then Some p else None) \<and>
    calls (split_do env op s) = calls s @ (if state (split_do env op s) = state s then [] else listeners s) \<and>
    (storage_works env \<longrightarrow> state (split_do env OGet (fresh_store (stored s) :: 'l split_store)) =
      (state s)\<lparr>renderedSecondaryId := None, activeSide := SPrimary\<rparr>)"
proof -
  note inv = split_store_invariant [OF assms(1)]
  have "state (split_do env (OSetPair (Some a) (Some b)) s) =
      (if a \<noteq> [] \<and> b \<noteq> [] \<and> a \<noteq> b then (state s)\<lparr>pair := Some \<lparr>primaryId = a, secondaryId = b\<rparr>\<rparr> else state s)"
    unfolding state_split_do [OF assms(2)] by (simp add: toPair_def js_id_def)
  moreover have "state (split_do env (OSetRatio (JNum q)) s) =
      (state s)\<lparr>ratio := (if q < 1 / 4 then 1 / 4 else if 3 / 4 < q then 3 / 4 else q)\<rparr>"
    unfolding state_split_do [OF assms(2)] by (simp add: clampRatio_def ratio_defs min_def max_def)
  moreover have "activeSide (state (split_do env (OFollowRoute (Some r)) s)) = SSecondary \<longleftrightarrow>
      (\<exists>p. pair (state s) = Some p \<and> secondaryId p = r)"
    unfolding state_split_do [OF assms(2)] using inv by (auto simp: memberSide_def split: option.splits)
  moreover have "pair (state (split_do env (OReconcile (Some ids)) s)) =
      (case pair (state s) of None \<Rightarrow> None
       | Some p \<Rightarrow> if {primaryId p, secondaryId p} \<subseteq> set ids then Some p else None)"
    unfolding state_split_do [OF assms(2)] by (simp split: option.splits)
  ultimately show ?thesis
    using inv notified_once [OF assms(2)] split_reload [OF _ assms] by blast
qed

subsection \<open>Witnesses\<close>

text \<open>A browser with a codec for the store's records: a text is as long as the record's number.\<close>

definition text_codec :: "jsval \<Rightarrow> string" where
  "text_codec v = replicate (Suc (to_nat
     (js_string (js_get v ''primaryId''), js_string (js_get v ''secondaryId''),
      case js_get v ''ratio'' of JNum q \<Rightarrow> q | _ \<Rightarrow> 0))) CHR ''x''"

definition some_browser :: platform where
  "some_browser = \<lparr>has_window = True, can_read = True, can_write = True,
     json_parse = (\<lambda>t. case from_nat (length t - 1) of (a, b, q) \<Rightarrow>
       Some (JObj [(''primaryId'', js_id a), (''secondaryId'', js_id b), (''ratio'', JNum q)])),
     json_string = text_codec\<rparr>"

lemma js_string_id [simp]: "js_string (js_id a) = a"
  by (simp add: js_id_def split: option.splits)

lemma some_browser_works: "storage_works some_browser"
  by (simp add: storage_works_def some_browser_def text_codec_def Let_def)

definition two_apart :: "nat split_store" where
  "two_apart =
     split_do some_browser (OSetPair (Some ''a'') (Some ''b'')) (split_do some_browser (OSubscribe 7) (fresh_store None))"

lemma two_apart_reach: "split_reach some_browser two_apart"
  unfolding two_apart_def by (intro split_reach.intros)

lemma two_apart_pair:
  "initialised two_apart" "pair (state two_apart) = Some \<lparr>primaryId = ''a'', secondaryId = ''b''\<rparr>"
  "calls two_apart = [7]"
  by (simp_all add: two_apart_def setPair_def subscribe_def ensureInitialised_def fresh_store_def Let_def
      some_browser_def toPair_def js_id_def set_state_fields readStoredSplit_def DEFAULT_STATE_def)

theorem split_store_invariant_witness:
  "split_reach some_browser two_apart \<and> pair (state two_apart) \<noteq> None \<and> ratio (state two_apart) \<le> 3 / 4"
  using split_store_invariant [OF two_apart_reach] two_apart_reach two_apart_pair by simp

theorem split_store_contract_witness:
  "pair (state two_apart) \<noteq> None \<and>
   state (split_do some_browser (OSetPair (Some ''c'') (Some ''c'')) two_apart) = state two_apart \<and>
   activeSide (state (split_do some_browser (OFollowRoute (Some ''b'')) two_apart)) = SSecondary \<and>
   pair (state (split_do some_browser OGet (fresh_store (stored two_apart) :: nat split_store))) =
     Some \<lparr>primaryId = ''a'', secondaryId = ''b''\<rparr>"
  using split_store_contract [OF two_apart_reach two_apart_pair(1), of "''c''" "''c''" 0 "''b''" "[]" OGet]
    some_browser_works two_apart_pair(2) by (auto simp del: split_do.simps)

theorem split_reload_witness:
  "pair (state (split_do some_browser OGet (fresh_store (stored two_apart)))) =
     Some \<lparr>primaryId = ''a'', secondaryId = ''b''\<rparr>"
  by (simp del: split_do.simps add: split_reload [OF some_browser_works two_apart_reach two_apart_pair(1)] two_apart_pair(2))

end
