(* ===== verification/Workspace_Drag.thy ===== *)
theory Workspace_Drag
  imports Split_Store
begin

section \<open>Dragging workspaces in the sidebar\<close>

text \<open>
  \<open>web/src/components/nav/workspace-drag.ts\<close>: the geometry and the list arithmetic behind dragging
  a sidebar row, either along the rail to reorder it or onto the canvas to build a split. Viewport
  coordinates are rational numbers; a row is the list of the workspaces it holds, one or the two of a
  split.
\<close>

subsection \<open>Pointer geometry\<close>

record view_rect =
  left :: rat
  top :: rat
  right :: rat
  bottom :: rat

datatype drag_mode = Reorder | Carry

definition pointInRect :: "rat \<Rightarrow> rat \<Rightarrow> view_rect \<Rightarrow> bool" where
  "pointInRect x y r \<longleftrightarrow> x \<ge> left r \<and> x \<le> right r \<and> y \<ge> top r \<and> y \<le> bottom r"

definition dragModeAt :: "rat \<Rightarrow> rat \<Rightarrow> view_rect option \<Rightarrow> drag_mode" where
  "dragModeAt x y rail =
     (case rail of None \<Rightarrow> Reorder | Some r \<Rightarrow> if pointInRect x y r then Reorder else Carry)"

text \<open>The loop of \<open>reorderTargetIndex\<close> over the entries from \<open>index\<close> on.\<close>

definition midpoint :: "view_rect \<Rightarrow> rat" where
  "midpoint r = top r + (bottom r - top r) / 2"

fun target_loop :: "rat \<Rightarrow> nat \<Rightarrow> nat \<Rightarrow> nat \<Rightarrow> view_rect option list \<Rightarrow> nat" where
  "target_loop clientY fromIndex target index [] = target"
| "target_loop clientY fromIndex target index (r # rs) =
     target_loop clientY fromIndex
       (case r of
          None \<Rightarrow> target
        | Some q \<Rightarrow> if index = fromIndex then target
                   else if clientY > midpoint q then target + 1 else target)
       (index + 1) rs"

definition reorderTargetIndex :: "rat \<Rightarrow> view_rect option list \<Rightarrow> nat \<Rightarrow> nat" where
  "reorderTargetIndex clientY restingRects fromIndex = target_loop clientY fromIndex 0 0 restingRects"

definition reorderShift :: "nat \<Rightarrow> nat \<Rightarrow> nat \<Rightarrow> rat \<Rightarrow> rat" where
  "reorderShift index fromIndex targetIndex stride =
     (if index = fromIndex then 0
      else if fromIndex < targetIndex \<and> index > fromIndex \<and> index \<le> targetIndex then - stride
      else if fromIndex > targetIndex \<and> index < fromIndex \<and> index \<ge> targetIndex then stride
      else 0)"

subsection \<open>Dropping on the canvas\<close>

text \<open>\<open>PaneTarget\<close> and \<open>DropZone\<close> have the same two fields.\<close>

record drop_zone =
  side :: split_side
  zone_rect :: view_rect

definition dropZones :: "drop_zone list \<Rightarrow> jsval \<Rightarrow> drop_zone list" where
  "dropZones panes rat =
     (case panes of
        [only] \<Rightarrow>
          (let r = zone_rect only; seam = left r + (right r - left r) * clampRatio rat in
           [\<lparr>side = SPrimary, zone_rect = \<lparr>left = left r, top = top r, right = seam, bottom = bottom r\<rparr>\<rparr>,
            \<lparr>side = SSecondary, zone_rect = \<lparr>left = seam, top = top r, right = right r, bottom = bottom r\<rparr>\<rparr>])
      | _ \<Rightarrow> map (\<lambda>p. \<lparr>side = side p, zone_rect = zone_rect p\<rparr>) panes)"

definition zoneAt :: "rat \<Rightarrow> rat \<Rightarrow> drop_zone list \<Rightarrow> drop_zone option" where
  "zoneAt x y zones = find (\<lambda>z. pointInRect x y (zone_rect z)) zones"

record arrangement =
  primary :: "string option"
  secondary :: "string option"

text \<open>\<open>!primary\<close> holds of no workspace and of the empty id alike.\<close>

definition splitDrop :: "split_side \<Rightarrow> string \<Rightarrow> arrangement \<Rightarrow> arrangement option" where
  "splitDrop sd draggedId shown =
     (case primary shown of
        None \<Rightarrow> None
      | Some p \<Rightarrow>
          if draggedId = [] \<or> p = [] then None
          else if sd = SPrimary then
            (if draggedId = p then None
             else if secondary shown = None \<or> Some draggedId = secondary shown
                  then Some \<lparr>primary = Some draggedId, secondary = Some p\<rparr>
             else Some \<lparr>primary = Some draggedId, secondary = secondary shown\<rparr>)
          else if Some draggedId = secondary shown then None
          else if draggedId = p then
            (if secondary shown = None then None
             else Some \<lparr>primary = secondary shown, secondary = Some p\<rparr>)
          else Some \<lparr>primary = Some p, secondary = Some draggedId\<rparr>)"

definition sideOf :: "string \<Rightarrow> arrangement \<Rightarrow> split_side option" where
  "sideOf w a =
     (if Some w = primary a then Some SPrimary
      else if Some w = secondary a then Some SSecondary else None)"

subsection \<open>Rows and position writes\<close>

text \<open>\<open>xs.indexOf(x)\<close>, with \<open>None\<close> for \<open>-1\<close>.\<close>

abbreviation index_of :: "'a \<Rightarrow> 'a list \<Rightarrow> nat option" where
  "index_of x \<equiv> find_index (\<lambda>y. y = x)"

text \<open>The callback of \<open>flatMap\<close> on every element with its index.\<close>

definition pair_row :: "nat \<Rightarrow> nat \<Rightarrow> string \<Rightarrow> string \<Rightarrow> nat \<times> string \<Rightarrow> string list list" where
  "pair_row anchor absorbed p s entry =
     (if fst entry = absorbed then []
      else if fst entry = anchor then [[p, s]] else [[snd entry]])"

definition truthy_id :: "string option \<Rightarrow> string option" where
  "truthy_id w = (if w = Some [] then None else w)"

definition pairRows :: "string list \<Rightarrow> string option \<Rightarrow> string option \<Rightarrow> string list list" where
  "pairRows orderedIds pid sid =
     (case (truthy_id pid, truthy_id sid) of
        (Some p, Some s) \<Rightarrow>
          (case (index_of p orderedIds, index_of s orderedIds) of
             (Some i, Some j) \<Rightarrow>
               concat (map (pair_row (min i j) (max i j) p s) (enumerate 0 orderedIds))
           | _ \<Rightarrow> map (\<lambda>w. [w]) orderedIds)
      | _ \<Rightarrow> map (\<lambda>w. [w]) orderedIds)"

fun settled_loop :: "nat \<Rightarrow> string list \<Rightarrow> nat \<Rightarrow> nat \<Rightarrow> string list \<Rightarrow> nat" where
  "settled_loop cnt moving settled index [] = index"
| "settled_loop cnt moving settled index (w # ws) =
     (if settled = cnt \<and> w \<notin> set moving then index
      else settled_loop cnt moving (if w \<notin> set moving then settled + 1 else settled) (index + 1) ws)"

definition indexAfterSettled :: "string list \<Rightarrow> nat \<Rightarrow> string list \<Rightarrow> nat" where
  "indexAfterSettled ws cnt moving = settled_loop cnt moving 0 0 ws"

record position_write =
  pw_id :: string
  position :: nat

text \<open>One turn of the loop over the dragged row: where \<open>w\<close> goes in the list without it.\<close>

definition write_position :: "nat \<Rightarrow> string list \<Rightarrow> string option \<Rightarrow> string list \<Rightarrow> nat" where
  "write_position settledAbove moving previous without =
     (case previous of
        None \<Rightarrow> indexAfterSettled without settledAbove moving
      | Some q \<Rightarrow> (case index_of q without of None \<Rightarrow> 0 | Some i \<Rightarrow> i + 1))"

fun write_loop ::
  "nat \<Rightarrow> string list \<Rightarrow> string option \<Rightarrow> string list \<Rightarrow> string list \<Rightarrow> position_write list" where
  "write_loop settledAbove moving previous [] simulated = []"
| "write_loop settledAbove moving previous (w # ws) simulated =
     (let without = filter (\<lambda>c. c \<noteq> w) simulated;
          pos = write_position settledAbove moving previous without
      in \<lparr>pw_id = w, position = pos\<rparr>
           # write_loop settledAbove moving (Some w) ws (take pos without @ [w] @ drop pos without))"

definition reorderWrites :: "string list list \<Rightarrow> nat \<Rightarrow> nat \<Rightarrow> position_write list" where
  "reorderWrites rows fromRowIndex targetRowIndex =
     (if fromRowIndex \<ge> length rows then []
      else
        let dragged = rows ! fromRowIndex in
        if length dragged = 0 then []
        else
          let staying = map snd (filter (\<lambda>e. fst e \<noteq> fromRowIndex) (enumerate 0 rows));
              settledAbove = foldl (\<lambda>total row. total + length row) 0 (take targetRowIndex staying)
          in write_loop settledAbove dragged None dragged (concat rows))"

subsection \<open>Moving a row\<close>

text \<open>
  How the server applies a write: it takes the workspace out of the list and puts it back at the
  position, or at the end when the position is past it.
\<close>

definition apply_write :: "string list \<Rightarrow> position_write \<Rightarrow> string list" where
  "apply_write ws w = insert_at (position w) (pw_id w) (filter (\<lambda>c. c \<noteq> pw_id w) ws)"

text \<open>The rows as the gesture asks for them.\<close>

definition moved_rows :: "'a list \<Rightarrow> nat \<Rightarrow> nat \<Rightarrow> 'a list" where
  "moved_rows rows i target = insert_at target (rows ! i) (remove_at i rows)"

lemma enumerate_remove_at:
  "map snd (filter (\<lambda>e. fst e \<noteq> i + n) (enumerate n rows)) = remove_at i rows"
proof (induction rows arbitrary: i n)
  case Nil
  show ?case by (simp add: remove_at_def)
next
  case (Cons r rs)
  show ?case
  proof (cases i)
    case 0
    have "filter (\<lambda>e. fst e \<noteq> n) (enumerate (Suc n) rs) = enumerate (Suc n) rs"
      by (rule filter_True) (auto simp: in_set_enumerate_eq)
    with 0 show ?thesis by (simp add: remove_at_def)
  next
    case (Suc k)
    have "map snd (filter (\<lambda>e. fst e \<noteq> k + Suc n) (enumerate (Suc n) rs)) = remove_at k rs"
      by (rule Cons.IH)
    with Suc show ?thesis by (simp add: remove_at_def)
  qed
qed

lemma foldl_length: "foldl (\<lambda>total row. total + length row) n rows = n + length (concat rows)"
  by (induction rows arbitrary: n) simp_all

lemma reorderWrites_eq:
  assumes "i < length rows" "rows ! i \<noteq> []"
  shows "reorderWrites rows i target =
    write_loop (length (concat (take target (remove_at i rows)))) (rows ! i) None (rows ! i) (concat rows)"
  using assms enumerate_remove_at [of i 0 rows] by (simp add: reorderWrites_def foldl_length Let_def)

text \<open>The place found for the first workspace of the row leaves exactly the settled ones above it.\<close>

lemma settled_loop_spec:
  assumes "settled \<le> cnt" "cnt \<le> settled + length (filter (\<lambda>w. w \<notin> set moving) ws)"
  shows "\<exists>xs ys. ws = xs @ ys \<and> settled_loop cnt moving settled index ws = index + length xs \<and>
    settled + length (filter (\<lambda>w. w \<notin> set moving) xs) = cnt"
  using assms
proof (induction ws arbitrary: settled index)
  case Nil
  then show ?case by simp
next
  case (Cons w ws)
  show ?case
  proof (cases "settled = cnt \<and> w \<notin> set moving")
    case True
    then show ?thesis by (intro exI [of _ "[]"] exI [of _ "w # ws"]) simp
  next
    case False
    let ?s = "if w \<notin> set moving then settled + 1 else settled"
    have "?s \<le> cnt" "cnt \<le> ?s + length (filter (\<lambda>w. w \<notin> set moving) ws)"
      using False Cons.prems by (auto split: if_splits)
    from Cons.IH [OF this, of "index + 1"] obtain xs ys where
      "ws = xs @ ys" "settled_loop cnt moving ?s (index + 1) ws = index + 1 + length xs"
      "?s + length (filter (\<lambda>w. w \<notin> set moving) xs) = cnt" by blast
    with False show ?thesis by (intro exI [of _ "w # xs"] exI [of _ ys]) (auto split: if_splits)
  qed
qed

lemma index_of_middle: "x \<notin> set xs \<Longrightarrow> index_of x (xs @ x # ys) = Some (length xs)"
  by (induction xs) auto

lemma write_step:
  "foldl apply_write ws (write_loop k m prev (w # rest) ws) =
    (let without = filter (\<lambda>c. c \<noteq> w) ws; pos = write_position k m prev without;
         ws' = take pos without @ [w] @ drop pos without
     in foldl apply_write ws' (write_loop k m (Some w) rest ws'))"
  by (simp add: apply_write_def insert_at_def Let_def)

text \<open>The rest of the row follows the part already in place.\<close>

lemma write_loop_follow:
  assumes "distinct (xs @ done @ ys)" "done \<noteq> []" "distinct rest" "set done \<inter> set rest = {}"
  shows "foldl apply_write (xs @ done @ ys) (write_loop k m (Some (last done)) rest (xs @ done @ ys)) =
    filter (\<lambda>w. w \<notin> set rest) xs @ done @ rest @ filter (\<lambda>w. w \<notin> set rest) ys"
  using assms
proof (induction rest arbitrary: xs "done" ys)
  case Nil
  then show ?case by simp
next
  case (Cons w rest)
  let ?X = "filter (\<lambda>c. c \<noteq> w) xs" and ?Y = "filter (\<lambda>c. c \<noteq> w) ys"
  have w: "filter (\<lambda>c. c \<noteq> w) (xs @ done @ ys) = ?X @ done @ ?Y"
    using Cons.prems by (auto intro: filter_True)
  obtain d l where d: "done = d @ [l]" using Cons.prems(2) by (metis rev_exhaust)
  have "index_of l (?X @ done @ ?Y) = Some (length (?X @ d))"
    using Cons.prems(1) index_of_middle [of l "?X @ d" ?Y] by (auto simp: d)
  then have pos: "write_position k m (Some (last done)) (?X @ done @ ?Y) = length (?X @ done)"
    by (simp add: write_position_def d)
  have "foldl apply_write (xs @ done @ ys) (write_loop k m (Some (last done)) (w # rest) (xs @ done @ ys)) =
      foldl apply_write (?X @ (done @ [w]) @ ?Y) (write_loop k m (Some w) rest (?X @ (done @ [w]) @ ?Y))"
    by (simp add: write_step w pos Let_def del: write_loop.simps filter_append)
  also have "\<dots> = filter (\<lambda>v. v \<notin> set rest) ?X @ (done @ [w]) @ rest @ filter (\<lambda>v. v \<notin> set rest) ?Y"
    using Cons.prems Cons.IH [of ?X "done @ [w]" ?Y] by auto
  finally show ?case by (simp add: conj_commute)
qed

lemma filter_split_take:
  assumes "filter p (xs @ ys) = zs" "length (filter p xs) = k"
  shows "filter p xs = take k zs" "filter p ys = drop k zs"
  using assms by auto

lemma write_loop_moves:
  assumes "distinct ws" "distinct row" "row \<noteq> []" "set row \<subseteq> set ws"
    and "k \<le> length (filter (\<lambda>w. w \<notin> set row) ws)"
  shows "foldl apply_write ws (write_loop k row None row ws) =
    take k (filter (\<lambda>w. w \<notin> set row) ws) @ row @ drop k (filter (\<lambda>w. w \<notin> set row) ws)"
proof -
  obtain w rest where row: "row = w # rest" using assms(3) by (cases row) auto
  let ?S = "filter (\<lambda>v. v \<notin> set row) ws" and ?W = "filter (\<lambda>c. c \<noteq> w) ws"
  have S: "filter (\<lambda>v. v \<notin> set row) ?W = ?S" by (simp add: row)
  obtain xs ys where x: "?W = xs @ ys" "indexAfterSettled ?W k row = length xs"
      "length (filter (\<lambda>v. v \<notin> set row) xs) = k"
    using settled_loop_spec [of 0 k row ?W 0] assms(5) S by (auto simp: indexAfterSettled_def)
  have x2: "indexAfterSettled (xs @ ys) k (w # rest) = length xs" using x(1,2) by (simp add: row)
  have d: "distinct (xs @ ys)" "w \<notin> set (xs @ ys)"
    using assms(1) x(1) [symmetric] by simp_all
  have "foldl apply_write ws (write_loop k row None row ws) =
      foldl apply_write (xs @ [w] @ ys) (write_loop k row (Some (last [w])) rest (xs @ [w] @ ys))"
    by (simp add: row write_step write_position_def x(1) x2 Let_def del: write_loop.simps)
  also have "\<dots> = filter (\<lambda>v. v \<notin> set rest) xs @ [w] @ rest @ filter (\<lambda>v. v \<notin> set rest) ys"
    using d assms(2) by (intro write_loop_follow) (auto simp: row)
  also have "filter (\<lambda>v. v \<notin> set rest) xs = filter (\<lambda>v. v \<notin> set row) xs"
    using d by (intro filter_cong) (auto simp: row)
  also have "filter (\<lambda>v. v \<notin> set rest) ys = filter (\<lambda>v. v \<notin> set row) ys"
    using d by (intro filter_cong) (auto simp: row)
  finally show ?thesis
    using filter_split_take [OF S [unfolded x(1)] x(3)] by (simp add: row)
qed

lemma concat_remove_at:
  assumes "distinct (concat rows)" "i < length rows"
  shows "filter (\<lambda>w. w \<notin> set (rows ! i)) (concat rows) = concat (remove_at i rows)"
proof -
  have rows: "rows = take i rows @ rows ! i # drop (Suc i) rows"
    using assms(2) by (rule id_take_nth_drop)
  then have c: "concat rows = concat (take i rows) @ rows ! i @ concat (drop (Suc i) rows)"
    by (metis concat.simps(2) concat_append)
  then have "distinct (concat (take i rows) @ rows ! i @ concat (drop (Suc i) rows))" using assms(1) by simp
  then have "filter (\<lambda>w. w \<notin> set (rows ! i)) (concat (take i rows)) = concat (take i rows)"
      "filter (\<lambda>w. w \<notin> set (rows ! i)) (concat (drop (Suc i) rows)) = concat (drop (Suc i) rows)"
    by (auto intro!: filter_True)
  then show ?thesis by (subst c) (simp add: remove_at_def)
qed

lemma concat_insert_at:
  "concat (insert_at t r rows) =
    take (length (concat (take t rows))) (concat rows) @ r @ drop (length (concat (take t rows))) (concat rows)"
proof -
  have "concat rows = concat (take t rows) @ concat (drop t rows)"
    by (metis append_take_drop_id concat_append)
  then show ?thesis by (simp add: insert_at_def)
qed

lemma reorderWrites_moves:
  assumes "distinct (concat rows)" "i < length rows"
  shows "foldl apply_write (concat rows) (reorderWrites rows i target) = concat (moved_rows rows i target)"
proof (cases "rows ! i = []")
  case True
  then have "reorderWrites rows i target = []" by (simp add: reorderWrites_def)
  moreover have "concat rows = concat (remove_at i rows)"
    using concat_remove_at [OF assms] by (simp add: True)
  ultimately show ?thesis by (simp add: moved_rows_def concat_insert_at True)
next
  case False
  let ?k = "length (concat (take target (remove_at i rows)))"
  have mem: "rows ! i \<in> set rows" using assms(2) by simp
  have "concat (remove_at i rows) = concat (take target (remove_at i rows)) @ concat (drop target (remove_at i rows))"
    by (metis append_take_drop_id concat_append)
  then have "?k \<le> length (concat (remove_at i rows))" by simp
  moreover have "distinct (rows ! i)" using assms(1) mem by (simp add: distinct_concat_iff)
  moreover have "set (rows ! i) \<subseteq> set (concat rows)" using mem by auto
  ultimately have "foldl apply_write (concat rows) (write_loop ?k (rows ! i) None (rows ! i) (concat rows)) =
      take ?k (concat (remove_at i rows)) @ rows ! i @ drop ?k (concat (remove_at i rows))"
    using write_loop_moves [of "concat rows" "rows ! i" ?k] assms False
    by (simp add: concat_remove_at)
  then show ?thesis
    using False assms(2) by (simp add: reorderWrites_eq moved_rows_def concat_insert_at)
qed

text \<open>
  The position writes of a drag do what the drag shows. Applied one after another to the list of
  workspaces, each removing its workspace and inserting it at its position, they give the list of the
  rows with the dragged row moved to the target, however many workspaces it holds: a split's two
  workspaces arrive next to each other and in order, and nothing else changes its place.
\<close>

theorem reorderWrites_exact:
  assumes "distinct (concat rows)" "i < length rows"
  shows "foldl apply_write (concat rows) (reorderWrites rows i target) =
    concat (insert_at target (rows ! i) (remove_at i rows))"
  using reorderWrites_moves [OF assms] by (simp add: moved_rows_def)

theorem reorderWrites_exact_witness:
  "reorderWrites [[''a''], [''b''], [''c'', ''d''], [''e'']] 2 0 =
     [\<lparr>pw_id = ''c'', position = 0\<rparr>, \<lparr>pw_id = ''d'', position = 1\<rparr>] \<and>
   foldl apply_write [''a'', ''b'', ''c'', ''d'', ''e'']
     (reorderWrites [[''a''], [''b''], [''c'', ''d''], [''e'']] 2 0) = [''c'', ''d'', ''a'', ''b'', ''e'']"
proof -
  have "reorderWrites [[''a''], [''b''], [''c'', ''d''], [''e'']] 2 0 =
     [\<lparr>pw_id = ''c'', position = 0\<rparr>, \<lparr>pw_id = ''d'', position = 1\<rparr>]" by code_simp
  moreover have "insert_at 0 ([[''a''], [''b''], [''c'', ''d''], [''e'']] ! 2)
      (remove_at 2 [[''a''], [''b''], [''c'', ''d''], [''e'']]) = [[''c'', ''d''], [''a''], [''b''], [''e'']]"
    by code_simp
  ultimately show ?thesis
    using reorderWrites_exact [of "[[''a''], [''b''], [''c'', ''d''], [''e'']]" 2 0] by simp
qed

subsection \<open>Rows of a split\<close>

lemma truthy_id_Some: "truthy_id w = Some v \<longleftrightarrow> w = Some v \<and> v \<noteq> []"
  by (auto simp: truthy_id_def)

lemma pair_row_other:
  "n > max i j \<Longrightarrow> concat (map (pair_row i j p s) (enumerate n ws)) = map (\<lambda>w. [w]) ws"
  by (induction ws arbitrary: n) (simp_all add: pair_row_def)

lemma pair_row_between:
  "i < n \<Longrightarrow> n + length ws \<le> j \<Longrightarrow> concat (map (pair_row i j p s) (enumerate n ws)) = map (\<lambda>w. [w]) ws"
  by (induction ws arbitrary: n) (simp_all add: pair_row_def)

lemma pair_row_before:
  "n + length ws \<le> i \<Longrightarrow> i \<le> j \<Longrightarrow> concat (map (pair_row i j p s) (enumerate n ws)) = map (\<lambda>w. [w]) ws"
  by (induction ws arbitrary: n) (simp_all add: pair_row_def)

lemma pair_row_split:
  "concat (map (pair_row (length a) (length a + 1 + length b) p s) (enumerate 0 (a @ x # b @ y # c))) =
    map (\<lambda>w. [w]) a @ [p, s] # map (\<lambda>w. [w]) (b @ c)"
  by (simp add: enumerate_append_eq pair_row_before pair_row_between pair_row_other)
     (simp add: pair_row_def)

lemma two_in_list:
  assumes "distinct ws" "x \<in> set ws" "y \<in> set ws" "x \<noteq> y"
  obtains (before) a b c where "ws = a @ x # b @ y # c"
  | (after) a b c where "ws = a @ y # b @ x # c"
proof -
  obtain a r where a: "ws = a @ x # r" using assms(2) by (meson split_list)
  show thesis
  proof (cases "y \<in> set r")
    case True
    then show thesis using a before by (metis split_list)
  next
    case False
    then have "y \<in> set a" using assms(3,4) a by auto
    then show thesis using a after by (metis append.assoc append_Cons split_list)
  qed
qed

lemma pairRows_paired:
  assumes "distinct ws" "p \<in> set ws" "s \<in> set ws" "p \<noteq> s" "p \<noteq> []" "s \<noteq> []"
  shows "\<exists>a b x y c. ws = a @ x # b @ y # c \<and> {x, y} = {p, s} \<and>
    pairRows ws (Some p) (Some s) = map (\<lambda>w. [w]) a @ [p, s] # map (\<lambda>w. [w]) (b @ c)"
  using assms(1-4)
proof (cases rule: two_in_list)
  case (before a b c)
  have "index_of p ws = Some (length a)" "index_of s ws = Some (length a + 1 + length b)"
    using assms(1) before index_of_middle [of p a] index_of_middle [of s "a @ p # b"] by auto
  then have "pairRows ws (Some p) (Some s) = map (\<lambda>w. [w]) a @ [p, s] # map (\<lambda>w. [w]) (b @ c)"
    using pair_row_split [of a b p s p s c] assms(5,6) before by (simp add: pairRows_def truthy_id_def)
  with before show ?thesis by blast
next
  case (after a b c)
  have "index_of s ws = Some (length a)" "index_of p ws = Some (length a + 1 + length b)"
    using assms(1) after index_of_middle [of s a] index_of_middle [of p "a @ s # b"] by auto
  then have "pairRows ws (Some p) (Some s) = map (\<lambda>w. [w]) a @ [p, s] # map (\<lambda>w. [w]) (b @ c)"
    using pair_row_split [of a b p s s p c] assms(5,6) after by (simp add: pairRows_def truthy_id_def)
  with after show ?thesis by blast
qed

lemma pairRows_single:
  assumes "truthy_id pid = None \<or> truthy_id sid = None \<or> the pid \<notin> set ws \<or> the sid \<notin> set ws"
  shows "pairRows ws pid sid = map (\<lambda>w. [w]) ws"
  using assms
  by (auto simp: pairRows_def truthy_id_def find_index_None split: option.splits if_splits dest!: find_index_Some)

lemma concat_singletons [simp]: "concat (map (\<lambda>w. [w]) ws) = ws"
  by (induction ws) simp_all

text \<open>
  The sidebar's rows hold every workspace exactly once. When both halves of a split are in the
  list they share one row, primary first, at the place of the upper of the two, and every other
  workspace keeps a row of its own in the old order; otherwise every workspace has its own row.
\<close>

theorem pairRows_spec:
  assumes "distinct ws" "pid \<noteq> sid \<or> pid = None"
  shows "mset (concat (pairRows ws pid sid)) = mset ws \<and>
    (case (pid, sid) of
       (Some p, Some s) \<Rightarrow>
         if p \<noteq> [] \<and> s \<noteq> [] \<and> p \<in> set ws \<and> s \<in> set ws
         then \<exists>a b x y c. ws = a @ x # b @ y # c \<and> {x, y} = {p, s} \<and>
           pairRows ws pid sid = map (\<lambda>w. [w]) a @ [[p, s]] @ map (\<lambda>w. [w]) (b @ c)
         else pairRows ws pid sid = map (\<lambda>w. [w]) ws
     | _ \<Rightarrow> pairRows ws pid sid = map (\<lambda>w. [w]) ws)"
proof (cases "\<exists>p s. pid = Some p \<and> sid = Some s \<and> p \<noteq> [] \<and> s \<noteq> [] \<and> p \<in> set ws \<and> s \<in> set ws")
  case True
  then obtain p s where ps: "pid = Some p" "sid = Some s" "p \<noteq> []" "s \<noteq> []" "p \<in> set ws" "s \<in> set ws" by blast
  moreover have "p \<noteq> s" using assms(2) ps by simp
  ultimately obtain a b x y c where r: "ws = a @ x # b @ y # c" "{x, y} = {p, s}"
      "pairRows ws pid sid = map (\<lambda>w. [w]) a @ [p, s] # map (\<lambda>w. [w]) (b @ c)"
    using pairRows_paired [OF assms(1), of p s] by blast
  have "mset (concat (pairRows ws pid sid)) = mset ws"
  proof (cases "x = p")
    case True
    then have "y = s" using r(2) \<open>p \<noteq> s\<close> by (metis doubleton_eq_iff)
    with True r show ?thesis by simp
  next
    case False
    then have "x = s \<and> y = p" using r(2) by (metis doubleton_eq_iff)
    then show ?thesis using r by simp
  qed
  moreover have "\<exists>a b x y c. ws = a @ x # b @ y # c \<and> {x, y} = {p, s} \<and>
      pairRows ws pid sid = map (\<lambda>w. [w]) a @ [[p, s]] @ map (\<lambda>w. [w]) (b @ c)"
    using r by (intro exI [of _ a] exI [of _ b] exI [of _ x] exI [of _ y] exI [of _ c]) simp
  ultimately show ?thesis using ps by simp
next
  case False
  then have "pairRows ws pid sid = map (\<lambda>w. [w]) ws"
    by (intro pairRows_single) (auto simp: truthy_id_def split: option.splits)
  then show ?thesis using False by (auto split: option.splits)
qed

theorem pairRows_spec_witness:
  "pairRows [''a'', ''b'', ''c'', ''d''] (Some ''d'') (Some ''b'') = [[''a''], [''d'', ''b''], [''c'']] \<and>
   mset (concat (pairRows [''a'', ''b'', ''c'', ''d''] (Some ''d'') (Some ''b''))) = mset [''a'', ''b'', ''c'', ''d'']"
proof -
  have "pairRows [''a'', ''b'', ''c'', ''d''] (Some ''d'') (Some ''b'') = [[''a''], [''d'', ''b''], [''c'']]"
    by code_simp
  then show ?thesis using pairRows_spec [of "[''a'', ''b'', ''c'', ''d'']" "Some ''d''" "Some ''b''"] by simp
qed

subsection \<open>Carrying a workspace onto the canvas\<close>

text \<open>What may be on screen: one workspace, or two different ones.\<close>

definition shown_ok :: "arrangement \<Rightarrow> bool" where
  "shown_ok a \<longleftrightarrow> (\<exists>p. primary a = Some p \<and> p \<noteq> [] \<and> secondary a \<noteq> Some p \<and> secondary a \<noteq> Some [])"

definition members :: "arrangement \<Rightarrow> string set" where
  "members a = set_option (primary a) \<union> set_option (secondary a)"

text \<open>
  A drop goes where it was aimed. On a window showing one workspace or two different ones, a drop
  is refused exactly when the workspace already is where it was aimed, or is alone on screen; otherwise
  the window afterwards shows two different workspaces, the dragged one in the half it was dropped on,
  nothing that was not there before, and when the dragged workspace was on screen or there was room,
  nothing is lost. The store accepts the resulting pair.
\<close>

theorem splitDrop_exact:
  assumes "shown_ok shown" "w \<noteq> []"
  shows "(splitDrop sd w shown = None \<longleftrightarrow>
      sideOf w shown = Some sd \<or> (Some w = primary shown \<and> secondary shown = None)) \<and>
    (\<forall>after. splitDrop sd w shown = Some after \<longrightarrow>
      sideOf w after = Some sd \<and> card (members after) = 2 \<and> members after \<subseteq> insert w (members shown) \<and>
      (w \<in> members shown \<or> secondary shown = None \<longrightarrow> members after = insert w (members shown)) \<and>
      toPair (js_id (primary after)) (js_id (secondary after)) \<noteq> None)"
  using assms
  by (cases sd; cases shown)
     (auto simp: splitDrop_def sideOf_def shown_ok_def members_def toPair_def js_id_def card_insert_if
        split: if_splits option.splits)

theorem splitDrop_exact_witness:
  "splitDrop SSecondary ''a'' \<lparr>primary = Some ''a'', secondary = Some ''b''\<rparr> =
     Some \<lparr>primary = Some ''b'', secondary = Some ''a''\<rparr> \<and>
   members \<lparr>primary = Some ''b'', secondary = Some ''a''\<rparr> =
     insert ''a'' (members \<lparr>primary = Some ''a'', secondary = Some ''b''\<rparr>)"
proof -
  have "splitDrop SSecondary ''a'' \<lparr>primary = Some ''a'', secondary = Some ''b''\<rparr> =
     Some \<lparr>primary = Some ''b'', secondary = Some ''a''\<rparr>" by (simp add: splitDrop_def)
  then show ?thesis
    using splitDrop_exact [of "\<lparr>primary = Some ''a'', secondary = Some ''b''\<rparr>" "''a''" SSecondary]
    by (simp add: shown_ok_def members_def)
qed

lemma zone_seam_bounds:
  assumes "left r \<le> right r"
  shows "left r \<le> left r + (right r - left r) * clampRatio v \<and>
    left r + (right r - left r) * clampRatio v \<le> right r"
proof -
  have c: "0 \<le> clampRatio v" "clampRatio v \<le> 1"
    using clampRatio_bounds [of v] by (simp_all add: ratio_defs)
  have "(right r - left r) * clampRatio v \<le> (right r - left r) * 1"
    using assms c by (intro mult_left_mono) simp_all
  then show ?thesis using assms c by simp
qed

text \<open>
  No dead pixel on the canvas. With one workspace on screen every point of its rectangle lies in
  one of the two drop zones and no point outside does, and the zone names the half on whose side of
  the future seam the point lies, wherever the seam is asked for.
\<close>

theorem single_pane_zones:
  assumes "left (zone_rect only) \<le> right (zone_rect only)"
  shows "let r = zone_rect only; seam = left r + (right r - left r) * clampRatio v in
    map_option side (zoneAt x y (dropZones [only] v)) =
      (if pointInRect x y r then Some (if x \<le> seam then SPrimary else SSecondary) else None)"
  using zone_seam_bounds [OF assms, of v] by (auto simp: zoneAt_def dropZones_def pointInRect_def Let_def)

theorem single_pane_zones_witness:
  "map_option side (zoneAt 60 10 (dropZones
     [\<lparr>side = SPrimary, zone_rect = \<lparr>left = 0, top = 0, right = 100, bottom = 50\<rparr>\<rparr>] JNaN)) = Some SSecondary"
  using single_pane_zones [of "\<lparr>side = SPrimary, zone_rect = \<lparr>left = 0, top = 0, right = 100, bottom = 50\<rparr>\<rparr>" JNaN 60 10]
  by (simp add: clampRatio_def DEFAULT_RATIO_def pointInRect_def Let_def)

subsection \<open>The preview of a reorder\<close>

lemma target_loop_step:
  obtains u where "target_loop y i t n (r # rs) = target_loop y i u (n + 1) rs" "u \<le> t + 1" "n = i \<Longrightarrow> u = t"
  by (cases r) simp_all

lemma target_loop_bound:
  "target_loop y i t n rs \<le> t + length rs \<and>
   (n \<le> i \<and> i < n + length rs \<longrightarrow> target_loop y i t n rs < t + length rs)"
proof (induction rs arbitrary: t n)
  case Nil
  show ?case by simp
next
  case (Cons r rs)
  obtain u where u: "target_loop y i t n (r # rs) = target_loop y i u (n + 1) rs" "u \<le> t + 1" "n = i \<Longrightarrow> u = t"
    using target_loop_step by blast
  then show ?case using Cons.IH [of u "n + 1"] by (cases "n = i") (auto simp del: target_loop.simps)
qed

lemma nth_insert_at_cases:
  "t \<le> length ys \<Longrightarrow> j \<le> length ys \<Longrightarrow>
   insert_at t x ys ! j = (if j < t then ys ! j else if j = t then x else ys ! (j - 1))"
  by (auto simp: insert_at_def nth_append min_def nth_Cons')

lemma nth_remove_at:
  "i < length xs \<Longrightarrow> j < length xs - 1 \<Longrightarrow> remove_at i xs ! j = (if j < i then xs ! j else xs ! Suc j)"
  by (simp add: remove_at_def nth_append min_def)

lemma length_remove_at: "i < length xs \<Longrightarrow> length (remove_at i xs) = length xs - 1"
  by (simp add: remove_at_def)

lemma nth_moved_rows:
  assumes "i < length xs" "t < length xs" "k < length xs" "k \<noteq> i"
  shows "moved_rows xs i t ! (if i < t \<and> i < k \<and> k \<le> t then k - 1 else if t < i \<and> k < i \<and> t \<le> k then k + 1 else k)
    = xs ! k"
proof -
  consider "k < i" "k < t" | "k < i" "t \<le> k" | "i < k" "k \<le> t" | "i < k" "t < k" using assms(4) by linarith
  then show ?thesis
    using assms by cases (auto simp: moved_rows_def nth_insert_at_cases nth_remove_at length_remove_at)
qed

text \<open>
  The preview of a reorder shows the drop. A row released anywhere gets a target inside the list;
  every other row is drawn shifted to exactly the slot it has after the drop, one stride per row, and
  the slot of the dragged row is the gap that opens.
\<close>

theorem reorder_preview:
  assumes "i < length rows" "length rects = length rows"
  shows "let t = reorderTargetIndex y rects i in
    t < length rows \<and> moved_rows rows i t ! t = rows ! i \<and>
    (\<forall>k < length rows. k \<noteq> i \<longrightarrow>
      (\<exists>j < length rows. moved_rows rows i t ! j = rows ! k \<and>
         rat_of_nat j * stride = rat_of_nat k * stride + reorderShift k i t stride))"
proof -
  let ?t = "reorderTargetIndex y rects i"
  have t: "?t < length rows"
    using target_loop_bound [of y i 0 0 rects] assms by (simp add: reorderTargetIndex_def)
  have "\<exists>j < length rows. moved_rows rows i ?t ! j = rows ! k \<and>
      rat_of_nat j * stride = rat_of_nat k * stride + reorderShift k i ?t stride"
    if k: "k < length rows" "k \<noteq> i" for k
  proof -
    let ?j = "if i < ?t \<and> i < k \<and> k \<le> ?t then k - 1 else if ?t < i \<and> k < i \<and> ?t \<le> k then k + 1 else k"
    have "?j < length rows" using assms k by auto
    moreover have "rat_of_nat ?j * stride = rat_of_nat k * stride + reorderShift k i ?t stride"
      using k by (auto simp: reorderShift_def algebra_simps of_nat_diff)
    ultimately show ?thesis using nth_moved_rows [OF assms(1) t k] by blast
  qed
  moreover have "moved_rows rows i ?t ! ?t = rows ! i"
    using t assms by (simp add: moved_rows_def nth_insert_at remove_at_def)
  ultimately show ?thesis using t by (simp add: Let_def)
qed

definition even_rows :: "view_rect option list" where
  "even_rows = map (\<lambda>n. Some \<lparr>left = 0, top = of_nat n * 30, right = 200, bottom = of_nat n * 30 + 30\<rparr>) [0..<4]"

theorem reorder_preview_witness:
  "reorderTargetIndex 50 even_rows 3 = 2 \<and>
   moved_rows [''a'', ''b'', ''c'', ''d''] 3 2 ! 2 = ''d''"
proof -
  have "reorderTargetIndex 50 even_rows 3 = 2" by code_simp
  moreover have "length even_rows = 4" by (simp add: even_rows_def)
  ultimately show ?thesis
    using reorder_preview [of 3 "[''a'', ''b'', ''c'', ''d'']" even_rows 50 30] by (simp add: Let_def)
qed

end
