(* ===== verification/Command_Text.thy ===== *)
theory Command_Text
  imports Text "HOL-Library.AList"
begin

section \<open>Command lines and environments\<close>

text \<open>
  \<open>web/src/lib/argv.ts\<close>: typographic characters back to the ones a shell knows, splitting a command
  line into words with both kinds of quotes and backslashes, and reading \<open>KEY=value\<close> lines. The
  exceptions of the source are values of \<open>argv_error\<close> and \<open>env_error\<close>.
\<close>

subsection \<open>Typographic characters\<close>

definition replace_chars :: "(nat \<Rightarrow> bool) \<Rightarrow> utext \<Rightarrow> utext \<Rightarrow> utext" where
  "replace_chars p r s = concat (map (\<lambda>c. if p c then r else [c]) s)"

definition normalizeCommandText :: "utext \<Rightarrow> utext" where
  "normalizeCommandText v =
     replace_chars (\<lambda>c. c = 8220 \<or> c = 8221) [c_dquote]
       (replace_chars (\<lambda>c. c = 8216 \<or> c = 8217) [c_squote]
         (replace_chars (\<lambda>c. c = 8211) [c_minus]
           (replace_chars (\<lambda>c. c = 8212) [c_minus, c_minus] v)))"

subsection \<open>Splitting into words\<close>

datatype quote_mark = SingleQ | DoubleQ

datatype argv_error = TrailingEscape | Unterminated quote_mark

record scanner =
  args :: "utext list"
  current :: utext
  quote :: "quote_mark option"
  escaped :: bool
  started :: bool

text \<open>One turn of the loop over the characters.\<close>

definition scan_char :: "scanner \<Rightarrow> nat \<Rightarrow> scanner" where
  "scan_char s c =
     (if escaped s then s\<lparr>current := current s @ [c], escaped := False, started := True\<rparr>
      else if quote s = Some SingleQ then
        (if c = c_squote then s\<lparr>quote := None, started := True\<rparr>
         else s\<lparr>current := current s @ [c], started := True\<rparr>)
      else if quote s = Some DoubleQ then
        (if c = c_backslash then s\<lparr>escaped := True, started := True\<rparr>
         else if c = c_dquote then s\<lparr>quote := None, started := True\<rparr>
         else s\<lparr>current := current s @ [c], started := True\<rparr>)
      else if is_space c then
        (if started s then s\<lparr>args := args s @ [current s], current := [], started := False\<rparr> else s)
      else if c = c_squote then s\<lparr>quote := Some SingleQ, started := True\<rparr>
      else if c = c_dquote then s\<lparr>quote := Some DoubleQ, started := True\<rparr>
      else if c = c_backslash then s\<lparr>escaped := True, started := True\<rparr>
      else s\<lparr>current := current s @ [c], started := True\<rparr>)"

definition scan_end :: "scanner \<Rightarrow> argv_error + utext list" where
  "scan_end s =
     (if escaped s then Inl TrailingEscape
      else case quote s of
        Some q \<Rightarrow> Inl (Unterminated q)
      | None \<Rightarrow> Inr (if started s then args s @ [current s] else args s))"

abbreviation between :: "utext list \<Rightarrow> utext \<Rightarrow> bool \<Rightarrow> scanner" where
  "between as cur st \<equiv> \<lparr>args = as, current = cur, quote = None, escaped = False, started = st\<rparr>"

definition parseArgv :: "utext \<Rightarrow> argv_error + utext list" where
  "parseArgv v =
     (let input = trim (normalizeCommandText v) in
      if input = [] then Inr [] else scan_end (foldl scan_char (between [] [] False) input))"

subsection \<open>Environment lines\<close>

text \<open>
  \<open>split(/\r?\n/)\<close>: the pieces between line feeds, each but the last without a carriage return at its
  end.
\<close>

definition drop_return :: "utext \<Rightarrow> utext" where
  "drop_return p = (if p \<noteq> [] \<and> last p = c_return then butlast p else p)"

definition split_lines :: "utext \<Rightarrow> utext list" where
  "split_lines s = (let ps = split_on c_newline s in map drop_return (butlast ps) @ [last ps])"

definition env_key :: "utext \<Rightarrow> bool" where
  "env_key k \<longleftrightarrow>
     (case k of
        [] \<Rightarrow> False
      | c # cs \<Rightarrow> (is_letter c \<or> c = 95) \<and> list_all (\<lambda>d. is_letter d \<or> is_digit d \<or> d = 95) cs)"

datatype env_error = NotKeyValue nat | InvalidKey nat

text \<open>
  \<open>env[key] = value\<close> on an object literal: a new key goes to the end, an old one keeps its place, and
  an assignment to \<open>__proto__\<close> sets no property, since its setter ignores a string.
\<close>

definition assign :: "(utext \<times> utext) list \<Rightarrow> utext \<Rightarrow> utext \<Rightarrow> (utext \<times> utext) list" where
  "assign env k v = (if k = u ''__proto__'' then env else AList.update k v env)"

definition env_line :: "nat \<Rightarrow> utext \<Rightarrow> (utext \<times> utext) list \<Rightarrow> env_error + (utext \<times> utext) list" where
  "env_line index line env =
     (let trimmed = trim line in
      if trimmed = [] \<or> hd trimmed = c_hash then Inr env
      else
        case find_index (\<lambda>c. c = c_equals) trimmed of
          None \<Rightarrow> Inl (NotKeyValue (index + 1))
        | Some eq \<Rightarrow>
            if eq = 0 then Inl (NotKeyValue (index + 1))
            else
              let key = trim (take eq trimmed) in
              if \<not> env_key key then Inl (InvalidKey (index + 1))
              else Inr (assign env key (drop (eq + 1) trimmed)))"

fun env_loop :: "nat \<Rightarrow> utext list \<Rightarrow> (utext \<times> utext) list \<Rightarrow> env_error + (utext \<times> utext) list" where
  "env_loop index [] env = Inr env"
| "env_loop index (line # lines) env =
     (case env_line index line env of Inl e \<Rightarrow> Inl e | Inr env' \<Rightarrow> env_loop (index + 1) lines env')"

definition parseEnvLines :: "utext \<Rightarrow> env_error + (utext \<times> utext) list" where
  "parseEnvLines v = env_loop 0 (split_lines (normalizeCommandText v)) []"

subsection \<open>Text without typographic characters\<close>

definition plain_text :: "utext \<Rightarrow> bool" where
  "plain_text s \<longleftrightarrow> set s \<inter> {8211, 8212, 8216, 8217, 8220, 8221} = {}"

lemma replace_chars_append [simp]: "replace_chars p r (a @ b) = replace_chars p r a @ replace_chars p r b"
  by (simp add: replace_chars_def)

lemma replace_chars_same: "\<forall>c \<in> set s. \<not> p c \<Longrightarrow> replace_chars p r s = s"
  by (induction s) (simp_all add: replace_chars_def)

lemma normalize_append [simp]:
  "normalizeCommandText (a @ b) = normalizeCommandText a @ normalizeCommandText b"
  by (simp add: normalizeCommandText_def)

lemma normalize_plain: "plain_text s \<Longrightarrow> normalizeCommandText s = s"
  unfolding normalizeCommandText_def plain_text_def by (subst replace_chars_same, fastforce)+ (rule refl)

lemma plain_text_simps [simp]:
  "plain_text []" "plain_text (a @ b) \<longleftrightarrow> plain_text a \<and> plain_text b"
  "plain_text (c # s) \<longleftrightarrow> c \<notin> {8211, 8212, 8216, 8217, 8220, 8221} \<and> plain_text s"
  by (auto simp: plain_text_def)

lemma plain_text_mono: "set s \<subseteq> set t \<union> {39, 92} \<Longrightarrow> plain_text t \<Longrightarrow> plain_text s"
  by (auto simp: plain_text_def)

lemma plain_text_join: "plain_text sep \<Longrightarrow> \<forall>p \<in> set ps. plain_text p \<Longrightarrow> plain_text (join sep ps)"
  by (induction sep ps rule: join.induct) simp_all

subsection \<open>Scanning\<close>

abbreviation scan :: "scanner \<Rightarrow> utext \<Rightarrow> scanner" where
  "scan \<equiv> foldl scan_char"

text \<open>A character that stands for itself outside quotes.\<close>

definition bare :: "nat \<Rightarrow> bool" where
  "bare c \<longleftrightarrow> \<not> is_space c \<and> c \<notin> {c_squote, c_dquote, c_backslash}"

lemma scan_bare: "\<forall>c \<in> set s. bare c \<Longrightarrow> scan (between A C b) s = between A (C @ s) (b \<or> s \<noteq> [])"
  by (induction s arbitrary: C b) (simp_all add: scan_char_def bare_def)

lemma scan_quoted:
  "c_squote \<notin> set s \<Longrightarrow>
   scan \<lparr>args = A, current = C, quote = Some SingleQ, escaped = False, started = True\<rparr> s =
     \<lparr>args = A, current = C @ s, quote = Some SingleQ, escaped = False, started = True\<rparr>"
  by (induction s arbitrary: C) (simp_all add: scan_char_def)

lemma scan_spaces:
  "\<forall>c \<in> set s. is_space c \<Longrightarrow>
   scan (between A C b) s =
     (if s \<noteq> [] \<and> b then between (A @ [C]) [] False else between A C b)"
  by (induction s arbitrary: A C b) (simp_all add: scan_char_def)

text \<open>
  The scanner never looks back: what it has already collected only goes in front of what it collects
  next.
\<close>

definition prepend :: "utext list \<Rightarrow> scanner \<Rightarrow> scanner" where
  "prepend A s = s\<lparr>args := A @ args s\<rparr>"

lemma scan_char_prepend: "scan_char (prepend A s) c = prepend A (scan_char s c)"
  by (simp add: scan_char_def prepend_def)

lemma scan_prepend: "scan (prepend A s) xs = prepend A (scan s xs)"
  by (induction xs arbitrary: s) (simp_all add: scan_char_prepend)

lemma prepend_between: "prepend A (between B C b) = between (A @ B) C b"
  by (simp add: prepend_def)

text \<open>A text that parses leaves the scanner between words or inside an unquoted one.\<close>

definition flushed :: "scanner \<Rightarrow> utext list" where
  "flushed s = (if started s then args s @ [current s] else args s)"

lemma scan_end_Inr: "scan_end s = Inr ws \<longleftrightarrow> \<not> escaped s \<and> quote s = None \<and> flushed s = ws"
  by (auto simp: scan_end_def flushed_def split: option.splits)

lemma clean_scanner: "\<not> escaped s \<Longrightarrow> quote s = None \<Longrightarrow> s = between (args s) (current s) (started s)"
  by (cases s) simp

lemma scan_started: "started s \<or> current s = [] \<Longrightarrow> started (scan s xs) \<or> current (scan s xs) = []"
proof (induction xs arbitrary: s)
  case (Cons x xs)
  then have "started (scan_char s x) \<or> current (scan_char s x) = []" by (auto simp: scan_char_def)
  with Cons.IH show ?case by simp
qed simp

lemma parse_scan:
  assumes "parseArgv v = Inr ws"
  obtains B C b where "scan (between A [] False) (normalizeCommandText v) = between B C b"
    "flushed (between B C b) = A @ ws" "b \<or> C = []"
proof (rule trim_decompose [of "normalizeCommandText v"])
  fix x y
  let ?t = "trim (normalizeCommandText v)"
  assume v: "normalizeCommandText v = x @ ?t @ y" and xy: "\<forall>c \<in> set x. is_space c" "\<forall>c \<in> set y. is_space c"
  define s where "s = scan (between [] [] False) ?t"
  have s: "\<not> escaped s \<and> quote s = None \<and> flushed s = ws"
    using assms scan_end_Inr [of s ws] by (auto simp: parseArgv_def s_def flushed_def Let_def split: if_splits)
  then have b: "s = between (args s) (current s) (started s)" by (intro clean_scanner) simp_all
  have "scan (between A [] False) ?t = prepend A s"
    using scan_prepend [of A "between [] [] False" ?t] by (simp add: s_def prepend_between)
  also have "\<dots> = between (A @ args s) (current s) (started s)" by (subst b) (rule prepend_between)
  finally have "scan (between A [] False) (normalizeCommandText v) =
      scan (between (A @ args s) (current s) (started s)) y"
    by (subst v) (simp add: scan_spaces [OF xy(1)])
  moreover have "flushed (between (A @ args s) (current s) (started s)) = A @ ws"
    using s by (auto simp: flushed_def)
  moreover have "started s \<or> current s = []" unfolding s_def by (rule scan_started) simp
  ultimately show thesis
    using scan_spaces [OF xy(2)] that by (auto simp: flushed_def split: if_splits)
qed

lemma parse_intro:
  assumes "trim (normalizeCommandText v) = normalizeCommandText v"
    and "scan (between [] [] False) (normalizeCommandText v) = between B C b" "flushed (between B C b) = ws"
  shows "parseArgv v = Inr ws"
  using assms by (auto simp: parseArgv_def scan_end_def flushed_def Let_def)

lemma normalize_char:
  "normalizeCommandText [c] \<noteq> [] \<and> (\<not> is_space c \<longrightarrow> (\<forall>d \<in> set (normalizeCommandText [c]). \<not> is_space d))"
proof (cases "plain_text [c]")
  case True
  then show ?thesis by (simp add: normalize_plain)
next
  case False
  then have "c = 8211 \<or> c = 8212 \<or> c = 8216 \<or> c = 8217 \<or> c = 8220 \<or> c = 8221" by auto
  then have "normalizeCommandText [c] \<in> {[c_minus], [c_minus, c_minus], [c_squote], [c_dquote]}"
    by (elim disjE) (simp_all add: normalizeCommandText_def replace_chars_def)
  moreover have "\<not> is_space c_minus" "\<not> is_space c_squote" "\<not> is_space c_dquote" by (simp_all add: is_space_def)
  ultimately show ?thesis by auto
qed

lemma normalize_ends:
  assumes "s \<noteq> []"
  shows "normalizeCommandText s \<noteq> []"
    and "\<not> is_space (hd s) \<Longrightarrow> \<not> is_space (hd (normalizeCommandText s))"
    and "\<not> is_space (last s) \<Longrightarrow> \<not> is_space (last (normalizeCommandText s))"
proof -
  obtain c r where "s = [c] @ r" using assms by (cases s) auto
  then have l: "normalizeCommandText s = normalizeCommandText [c] @ normalizeCommandText r" "hd s = c"
    using normalize_append [of "[c]" r] by simp_all
  obtain i d where "s = i @ [d]" using assms by (cases s rule: rev_cases) auto
  then have r: "normalizeCommandText s = normalizeCommandText i @ normalizeCommandText [d]" "last s = d"
    using normalize_append [of i "[d]"] by simp_all
  show "normalizeCommandText s \<noteq> []" using l normalize_char [of c] by simp
  show "\<not> is_space (hd (normalizeCommandText s))" if "\<not> is_space (hd s)"
    using l normalize_char [of c] that by (simp add: hd_append)
  show "\<not> is_space (last (normalizeCommandText s))" if "\<not> is_space (last s)"
    using r normalize_char [of d] that by simp
qed

text \<open>A text without blanks at its ends.\<close>

definition tight :: "utext \<Rightarrow> bool" where
  "tight s \<longleftrightarrow> s \<noteq> [] \<and> \<not> is_space (hd s) \<and> \<not> is_space (last s)"

lemma tight_append: "tight a \<Longrightarrow> tight b \<Longrightarrow> tight (a @ s @ b)"
  by (simp add: tight_def)

lemma tight_trim: "tight s \<longleftrightarrow> s \<noteq> [] \<and> trim s = s"
proof
  assume "s \<noteq> [] \<and> trim s = s"
  then show "tight s" unfolding tight_def by (rule_tac trim_decompose [of s]) auto
qed (simp add: tight_def trim_fixed)

lemma tight_normalize: "tight s \<Longrightarrow> trim (normalizeCommandText s) = normalizeCommandText s"
  unfolding tight_def by (intro trim_fixed) (auto simp: normalize_ends)

text \<open>Two texts that parse also parse with a blank between them, word after word.\<close>

lemma parse_append:
  assumes "tight a" "tight b" "parseArgv a = Inr ws" "parseArgv b = Inr vs"
  shows "parseArgv (a @ c_blank # b) = Inr (ws @ vs)"
proof -
  obtain B C st where a: "scan (between [] [] False) (normalizeCommandText a) = between B C st"
      "flushed (between B C st) = ws" "st \<or> C = []"
    using parse_scan [OF assms(3), of "[]"] by (metis append_Nil)
  have "scan_char (between B C st) c_blank = between ws [] False"
    using a(2,3) by (auto simp: scan_char_def is_space_def flushed_def)
  moreover obtain B' C' st' where b: "scan (between ws [] False) (normalizeCommandText b) = between B' C' st'"
      "flushed (between B' C' st') = ws @ vs"
    using parse_scan [OF assms(4), of ws] by metis
  moreover have n: "normalizeCommandText (a @ c_blank # b) = normalizeCommandText a @ c_blank # normalizeCommandText b"
    using normalize_append [of "[c_blank]" b] by (simp add: normalize_plain)
  moreover have "trim (normalizeCommandText (a @ c_blank # b)) = normalizeCommandText (a @ c_blank # b)"
    using tight_append [OF assms(1,2), of "[c_blank]"] by (simp add: tight_normalize del: normalize_append)
  ultimately show ?thesis
    using a(1) by (intro parse_intro [of _ B' C' st']) (simp_all del: normalize_append)
qed

subsection \<open>Quoting\<close>

text \<open>
  A text quotes a word: wherever the scanner stands outside quotes, reading the text appends exactly
  the word. It has no blanks at its ends and adds only single quotes and backslashes.
\<close>

definition quotes :: "utext \<Rightarrow> utext \<Rightarrow> bool" where
  "quotes t w \<longleftrightarrow>
     (\<forall>A C b. scan (between A C b) t = between A (C @ w) True) \<and> tight t \<and> set t \<subseteq> set w \<union> {39, 92}"

lemma quotes_append: "quotes s v \<Longrightarrow> quotes t w \<Longrightarrow> quotes (s @ t) (v @ w)"
  using tight_append [of s t "[]"] by (auto simp: quotes_def)

lemma quotes_bare: "w \<noteq> [] \<Longrightarrow> \<forall>c \<in> set w. bare c \<Longrightarrow> quotes w w"
  by (auto simp: quotes_def scan_bare tight_def bare_def)

lemma quotes_plain: "quotes t w \<Longrightarrow> plain_text w \<Longrightarrow> plain_text t"
  by (auto simp: quotes_def intro: plain_text_mono)

lemma parse_quotes:
  assumes "quotes t w" "plain_text w"
  shows "parseArgv t = Inr [w]" "tight t"
proof -
  show t: "tight t" using assms(1) by (simp add: quotes_def)
  have n: "normalizeCommandText t = t" by (rule normalize_plain [OF quotes_plain [OF assms]])
  show "parseArgv t = Inr [w]"
    using assms(1) tight_normalize [OF t] n
    by (intro parse_intro [of _ "[]" w True]) (simp_all add: quotes_def flushed_def)
qed

lemma parse_words:
  assumes "list_all2 quotes ts ws" "\<forall>w \<in> set ws. plain_text w"
  shows "parseArgv (join [c_blank] ts) = Inr ws \<and> (ts \<noteq> [] \<longrightarrow> tight (join [c_blank] ts))"
  using assms
proof (induction rule: list_all2_induct)
  case Nil
  show ?case by (simp add: parseArgv_def trim_def normalize_plain)
next
  case (Cons t ts w ws)
  show ?case
  proof (cases "ts = []")
    case True
    with Cons show ?thesis by (simp add: parse_quotes)
  next
    case False
    with Cons show ?thesis
      using parse_append [of t "join [c_blank] ts" "[w]" ws] tight_append [of t "join [c_blank] ts" "[c_blank]"]
      by (simp add: join_Cons parse_quotes)
  qed
qed

text \<open>A quoting function, as the launchers of both clients have one.\<close>

locale word_quoting =
  fixes q :: "utext \<Rightarrow> utext"
  assumes quotes_q: "quotes (q v) v"
begin

lemma words_roundtrip:
  assumes "\<forall>w \<in> set ws. plain_text w"
  shows "parseArgv (join [c_blank] (map q ws)) = Inr ws"
  using parse_words [of "map q ws" ws] assms by (simp add: list_all2_map1 list_all2_same quotes_q)

lemma assignment_quotes:
  assumes "env_key k"
  shows "quotes (k @ c_equals # q v) (k @ c_equals # v)"
proof -
  have "bare c" if "c \<in> set k" for c
    using that assms by (cases k) (auto simp: env_key_def bare_def char_classes list_all_iff)
  then have "quotes (k @ [c_equals]) (k @ [c_equals])"
    by (intro quotes_bare) (auto simp: bare_def is_space_def)
  from quotes_append [OF this quotes_q [of v]] show ?thesis by simp
qed

end

subsection \<open>Environment lines\<close>

text \<open>A line of an environment as a user would write it.\<close>

definition env_text :: "(utext \<times> utext) list \<Rightarrow> utext" where
  "env_text env = join [c_newline] (map (\<lambda>e. fst e @ c_equals # snd e) env)"

text \<open>What a value may be: plain text on one line that does not end in white space.\<close>

definition env_value :: "utext \<Rightarrow> bool" where
  "env_value v \<longleftrightarrow> plain_text v \<and> c_newline \<notin> set v \<and> (v \<noteq> [] \<longrightarrow> \<not> is_space (last v))"

lemma env_key_chars: "env_key k \<Longrightarrow> c \<in> set k \<Longrightarrow> is_letter c \<or> is_digit c \<or> c = 95"
  by (auto simp: env_key_def list_all_iff split: list.splits)

lemma env_key_plain:
  assumes "env_key k"
  shows "plain_text k" "c_equals \<notin> set k" "c_newline \<notin> set k" "k \<noteq> []" "trim k = k" "\<not> is_space (hd k)" "hd k \<noteq> c_hash"
proof -
  have c: "c \<in> set k \<Longrightarrow> 48 \<le> c \<and> c \<le> 122 \<and> c \<noteq> 61" for c
    using env_key_chars [OF assms, of c] by (auto simp: char_classes)
  show k: "k \<noteq> []" using assms by (auto simp: env_key_def)
  show "plain_text k" "c_equals \<notin> set k" "c_newline \<notin> set k" using c by (fastforce simp: plain_text_def)+
  have "48 \<le> hd k \<and> hd k \<le> 122" "48 \<le> last k \<and> last k \<le> 122" using c k by simp_all
  then show "trim k = k" "\<not> is_space (hd k)" "hd k \<noteq> c_hash"
    using k by (auto simp: is_space_def intro!: trim_fixed)
qed

lemma find_index_middle: "c \<notin> set k \<Longrightarrow> find_index (\<lambda>d. d = c) (k @ c # v) = Some (length k)"
  by (induction k) auto

lemma env_line_assign:
  assumes "env_key k" "env_value v"
  shows "env_line n (k @ c_equals # v) env = Inr (assign env k v)"
proof -
  note k = env_key_plain [OF assms(1)]
  have t: "trim (k @ c_equals # v) = k @ c_equals # v"
    using k assms(2) by (intro trim_fixed) (auto simp: env_value_def is_space_def)
  show ?thesis
    using k assms(1) find_index_middle [OF k(2), of v] unfolding env_line_def t
    by (simp add: Let_def hd_append)
qed

lemma env_loop_assigns:
  assumes "\<forall>e \<in> set env. env_key (fst e) \<and> env_value (snd e)"
  shows "env_loop n (map (\<lambda>e. fst e @ c_equals # snd e) env) acc = Inr (foldl (\<lambda>a e. assign a (fst e) (snd e)) acc env)"
  using assms by (induction env arbitrary: n acc) (simp_all add: env_line_assign)

lemma update_new: "k \<notin> fst ` set env \<Longrightarrow> AList.update k v env = env @ [(k, v)]"
  by (induction env) auto

lemma assigns_distinct:
  assumes "distinct (map fst (acc @ env))" "u ''__proto__'' \<notin> fst ` set env"
  shows "foldl (\<lambda>a e. assign a (fst e) (snd e)) acc env = acc @ env"
  using assms
proof (induction env arbitrary: acc)
  case Nil
  then show ?case by simp
next
  case (Cons e env)
  then have "assign acc (fst e) (snd e) = acc @ [e]"
    by (simp add: assign_def update_new image_iff) (metis prod.collapse)
  with Cons show ?case by simp
qed

lemma split_lines_text:
  assumes "env \<noteq> []" "\<forall>e \<in> set env. env_key (fst e) \<and> env_value (snd e)"
  shows "split_lines (env_text env) = map (\<lambda>e. fst e @ c_equals # snd e) env"
proof -
  let ?ls = "map (\<lambda>e. fst e @ c_equals # snd e) env"
  have nl: "\<forall>p \<in> set ?ls. c_newline \<notin> set p"
    using assms(2) env_key_plain(3) by (auto simp: env_value_def)
  have "drop_return p = p" if p: "p \<in> set ?ls" for p
  proof -
    obtain e where "p = fst e @ c_equals # snd e" "env_value (snd e)" using assms(2) p by auto
    then show ?thesis by (auto simp: drop_return_def env_value_def is_space_def)
  qed
  then have "map drop_return (butlast ?ls) = butlast ?ls" by (intro map_idI) (metis in_set_butlastD)
  then show ?thesis
    using split_on_join [OF _ nl] assms(1) by (simp add: split_lines_def env_text_def Let_def)
qed

text \<open>
  An environment survives being written as lines. For any environment with valid, different keys
  and one-line values that do not end in white space, parsing its \<open>KEY=value\<close> lines returns the same
  entries in the same order.
\<close>

theorem env_lines_roundtrip:
  assumes "\<forall>e \<in> set env. env_key (fst e) \<and> env_value (snd e)"
    and "distinct (map fst env)" "u ''__proto__'' \<notin> fst ` set env"
  shows "parseEnvLines (env_text env) = Inr env"
proof (cases "env = []")
  case True
  then show ?thesis
    by (simp add: parseEnvLines_def env_text_def normalize_plain split_lines_def env_line_def trim_def)
next
  case False
  have "normalizeCommandText (env_text env) = env_text env"
    unfolding env_text_def using assms(1) env_key_plain(1)
    by (intro normalize_plain plain_text_join) (auto simp: env_value_def)
  then show ?thesis
    using env_loop_assigns [OF assms(1), of 0 "[]"] assigns_distinct [of "[]" env] assms(2,3)
    by (simp add: parseEnvLines_def split_lines_text [OF False assms(1)])
qed

definition two_vars :: "(utext \<times> utext) list" where
  "two_vars = [(u ''PATH'', u ''/bin:/usr/bin''), (u ''_X1'', u ''a = b'')]"

theorem env_lines_roundtrip_witness:
  "parseEnvLines (env_text two_vars) = Inr two_vars"
  by (rule env_lines_roundtrip) (simp_all add: two_vars_def env_key_def env_value_def char_classes)

text \<open>
  What is wrong with a line, said without reference to the parser: a line that is neither blank nor a
  comment needs a key before its first equals sign, and the key must be an identifier.
\<close>

definition line_error :: "nat \<Rightarrow> utext \<Rightarrow> env_error option" where
  "line_error n line =
     (let t = trim line in
      if t = [] \<or> hd t = c_hash then None
      else if c_equals \<notin> set t \<or> hd t = c_equals then Some (NotKeyValue (n + 1))
      else if env_key (trim (takeWhile (\<lambda>c. c \<noteq> c_equals) t)) then None
      else Some (InvalidKey (n + 1)))"

lemma find_index_takeWhile:
  "find_index (\<lambda>d. d = c) s = Some i \<Longrightarrow> take i s = takeWhile (\<lambda>d. d \<noteq> c) s"
  by (induction s arbitrary: i) (auto split: if_splits)

lemma find_index_hd: "find_index (\<lambda>d. d = c) s = Some i \<Longrightarrow> s \<noteq> [] \<and> c \<in> set s \<and> (i = 0 \<longleftrightarrow> hd s = c)"
  by (induction s arbitrary: i) (auto split: if_splits)

lemma env_line_error: "env_line n line env = Inl e \<longleftrightarrow> line_error n line = Some e"
proof (cases "find_index (\<lambda>c. c = c_equals) (trim line)")
  case None
  then have "c_equals \<notin> set (trim line)" by (auto simp: find_index_None)
  with None show ?thesis by (simp add: env_line_def line_error_def Let_def)
next
  case (Some eq)
  note find_index_hd [OF Some] find_index_takeWhile [OF Some]
  with Some show ?thesis by (simp add: env_line_def line_error_def Let_def)
qed

lemma env_loop_error:
  "env_loop n ls env = Inl e \<longleftrightarrow>
   (\<exists>k < length ls. line_error (n + k) (ls ! k) = Some e \<and> (\<forall>j < k. line_error (n + j) (ls ! j) = None))"
proof (induction ls arbitrary: n env)
  case Nil
  show ?case by simp
next
  case (Cons l ls)
  show ?case
  proof (cases "env_line n l env")
    case (Inl e')
    then have "line_error n l = Some e'" by (simp add: env_line_error)
    with Inl show ?thesis by (auto simp: Ex_less_Suc2 All_less_Suc2)
  next
    case (Inr env')
    then have "line_error n l = None" using env_line_error [of n l env] by (cases "line_error n l") auto
    with Inr Cons.IH [of "n + 1" env'] show ?thesis by (auto simp: Ex_less_Suc2 All_less_Suc2)
  qed
qed

text \<open>
  The environment parser complains about the first bad line and about nothing else. It fails
  exactly when some line is neither blank, nor a comment, nor an assignment to an identifier, and the
  error names the number of the first such line and what is wrong with it.
\<close>

theorem env_lines_error:
  "parseEnvLines v = Inl e \<longleftrightarrow>
   (let ls = split_lines (normalizeCommandText v) in
    \<exists>k < length ls. line_error k (ls ! k) = Some e \<and> (\<forall>j < k. line_error j (ls ! j) = None))"
  using env_loop_error [of 0] by (simp add: parseEnvLines_def Let_def)

definition bad_second_line :: utext where
  "bad_second_line = u ''A=1'' @ 10 # u ''=2''"

theorem env_lines_error_witness: "parseEnvLines bad_second_line = Inl (NotKeyValue 2)"
proof -
  have "normalizeCommandText bad_second_line = bad_second_line"
    by (rule normalize_plain) (simp add: bad_second_line_def plain_text_def)
  then have "split_lines (normalizeCommandText bad_second_line) = [u ''A=1'', u ''=2'']"
    by (simp add: split_lines_def bad_second_line_def drop_return_def)
  moreover have "line_error 0 (u ''A=1'') = None" "line_error 1 (u ''=2'') = Some (NotKeyValue 2)"
    by (simp_all add: line_error_def trim_def char_classes env_key_def)
  ultimately show ?thesis
    by (simp add: env_lines_error Let_def exI [of _ 1])
qed

end
