(* ===== verification/Shell.thy ===== *)
theory Shell
  imports Text
begin

section \<open>How a POSIX shell reads a line\<close>

text \<open>
  What the clients type into a terminal is read by a shell. This theory is a specification and
  translates no code: it reads a command line by the quoting rules of the POSIX shell command language
  (section 2.2, and 2.9.1 for the assignments before a command), and gives a line a meaning only if a
  shell does nothing with it but split it into words. A line with an unquoted character that a shell
  acts on, an open quote, a substitution or a trailing backslash has none.

  \<open>sh_active\<close> are the characters POSIX lists as needing quotes, with the braces and the exclamation
  mark that interactive shells act on as well; \<open>=\<close> and \<open>%\<close>, which POSIX lists too, act only where an
  assignment or a job is expected. Every character that is not printable ASCII is only read inside
  quotes. Whether a character stood inside quotes is kept with it, since a quoted name assigns nothing.
\<close>

type_synonym sh_text = "(nat \<times> bool) list"

abbreviation sh_string :: "sh_text \<Rightarrow> utext" where
  "sh_string \<equiv> map fst"

definition sh_active :: "nat \<Rightarrow> bool" where
  "sh_active c \<longleftrightarrow>
     c \<in> set (u ''|&;<>()$`*?[#~{}!'') \<or> c \<in> {9, 10, 32, 34, 39, 92}"

definition sh_plain :: "nat \<Rightarrow> bool" where
  "sh_plain c \<longleftrightarrow> 32 < c \<and> c < 127 \<and> \<not> sh_active c"

definition sofar :: "sh_text option \<Rightarrow> sh_text" where
  "sofar w = (case w of None \<Rightarrow> [] | Some x \<Rightarrow> x)"

definition finished :: "sh_text option \<Rightarrow> sh_text list" where
  "finished w = (case w of None \<Rightarrow> [] | Some x \<Rightarrow> [x])"

text \<open>
  The reader has the word it is in, if it is in one. Inside single quotes every character stands for
  itself; inside double quotes those do that start no expansion and are no backslash.
\<close>

fun sh_read :: "sh_text option \<Rightarrow> utext \<Rightarrow> sh_text list option"
  and sh_single :: "sh_text \<Rightarrow> utext \<Rightarrow> sh_text list option"
  and sh_double :: "sh_text \<Rightarrow> utext \<Rightarrow> sh_text list option" where
  "sh_read w [] = Some (finished w)"
| "sh_read w (c # cs) =
     (if c = 32 \<or> c = 9 then map_option ((@) (finished w)) (sh_read None cs)
      else if c = 39 then sh_single (sofar w) cs
      else if c = 34 then sh_double (sofar w) cs
      else if c = 92 then
        (case cs of [] \<Rightarrow> None | d # ds \<Rightarrow> if d = 10 then None else sh_read (Some (sofar w @ [(d, True)])) ds)
      else if sh_plain c then sh_read (Some (sofar w @ [(c, False)])) cs
      else None)"
| "sh_single x [] = None"
| "sh_single x (c # cs) = (if c = 39 then sh_read (Some x) cs else sh_single (x @ [(c, True)]) cs)"
| "sh_double x [] = None"
| "sh_double x (c # cs) =
     (if c = 34 then sh_read (Some x) cs
      else if c \<in> {33, 36, 92, 96} then None
      else sh_double (x @ [(c, True)]) cs)"

definition sh_words :: "utext \<Rightarrow> sh_text list option" where
  "sh_words line = sh_read None line"

text \<open>
  A simple command: the words before the first one that is no assignment set variables, the rest is
  the program and its arguments. A word assigns if it starts with an unquoted name and an unquoted
  equals sign.
\<close>

definition sh_name :: "sh_text \<Rightarrow> bool" where
  "sh_name n \<longleftrightarrow>
     n \<noteq> [] \<and> (\<forall>p \<in> set n. \<not> snd p \<and> (fst p = 95 \<or> 48 \<le> fst p \<and> fst p \<le> 57 \<or>
       65 \<le> fst p \<and> fst p \<le> 90 \<or> 97 \<le> fst p \<and> fst p \<le> 122)) \<and> \<not> (48 \<le> fst (hd n) \<and> fst (hd n) \<le> 57)"

abbreviation sh_identifier :: "utext \<Rightarrow> bool" where
  "sh_identifier k \<equiv> sh_name (map (\<lambda>c. (c, False)) k)"

definition sh_target :: "sh_text \<Rightarrow> sh_text" where
  "sh_target w = takeWhile (\<lambda>p. p \<noteq> (61, False)) w"

definition sh_assigns :: "sh_text \<Rightarrow> bool" where
  "sh_assigns w \<longleftrightarrow> length (sh_target w) < length w \<and> sh_name (sh_target w)"

definition sh_setting :: "sh_text \<Rightarrow> utext \<times> utext" where
  "sh_setting w = (sh_string (sh_target w), sh_string (drop (length (sh_target w) + 1) w))"

definition sh_command :: "utext \<Rightarrow> ((utext \<times> utext) list \<times> utext list) option" where
  "sh_command line =
     map_option (\<lambda>ws. (map sh_setting (takeWhile sh_assigns ws), map sh_string (dropWhile sh_assigns ws)))
       (sh_words line)"

subsection \<open>Lines one after the other\<close>

lemma sh_read_append:
  "sh_read w xs = Some as \<Longrightarrow> sh_read w (xs @ 32 # ys) = map_option ((@) as) (sh_read None ys)"
  "sh_single x xs = Some as \<Longrightarrow> sh_single x (xs @ 32 # ys) = map_option ((@) as) (sh_read None ys)"
  "sh_double x xs = Some as \<Longrightarrow> sh_double x (xs @ 32 # ys) = map_option ((@) as) (sh_read None ys)"
proof (induction w xs and x xs and x xs arbitrary: as and as and as rule: sh_read_sh_single_sh_double.induct)
  case (2 w c cs)
  consider "c = 32 \<or> c = 9" | "c = 39" | "c = 34" | "c = 92" | "c \<notin> {32, 9, 39, 34, 92}" by auto
  then show ?case
  proof cases
    case 1
    with 2(6) obtain bs where "sh_read None cs = Some bs" "as = finished w @ bs" by auto
    with 1 2(1) [OF 1] show ?thesis by (auto simp: option.map_comp comp_def)
  next
    case 4
    with 2(6) obtain d ds where "cs = d # ds" "d \<noteq> 10" by (cases cs) (simp_all split: if_splits)
    with 4 2(4) [of d ds] 2(6) show ?thesis by simp
  next
    case 5
    with 2(6) have "sh_plain c" by (simp split: if_splits)
    with 5 2(5) 2(6) show ?thesis by simp
  qed (use 2(2,3,6) in simp_all)
qed (simp_all add: finished_def split: if_splits)

lemma sh_words_append:
  "sh_words xs = Some as \<Longrightarrow> sh_words ys = Some bs \<Longrightarrow> sh_words (xs @ 32 # ys) = Some (as @ bs)"
  by (simp add: sh_words_def sh_read_append)

lemma sh_words_Nil [simp]: "sh_words [] = Some []"
  by (simp add: sh_words_def finished_def)

text \<open>A text reads as a value if it adds exactly that value to the word it stands in.\<close>

definition reads_as :: "utext \<Rightarrow> sh_text \<Rightarrow> bool" where
  "reads_as t v \<longleftrightarrow> (\<forall>w rest. sh_read w (t @ rest) = sh_read (Some (sofar w @ v)) rest)"

lemma reads_asD: "reads_as t v \<Longrightarrow> sh_read w (t @ rest) = sh_read (Some (sofar w @ v)) rest"
  by (simp add: reads_as_def)

lemma reads_as_word: "reads_as t v \<Longrightarrow> sh_words t = Some [v]"
  using reads_asD [of t v None "[]"] by (simp add: sh_words_def sofar_def finished_def)

lemma reads_as_append: "reads_as s v \<Longrightarrow> reads_as t w \<Longrightarrow> reads_as (s @ t) (v @ w)"
  by (simp add: reads_as_def sofar_def)

lemma reads_as_plain: "v \<noteq> [] \<Longrightarrow> list_all sh_plain v \<Longrightarrow> reads_as v (map (\<lambda>c. (c, False)) v)"
proof (induction v rule: list_nonempty_induct)
  case (single c)
  then show ?case by (auto simp: reads_as_def sh_plain_def sh_active_def)
next
  case (cons c v)
  then have "reads_as ([c] @ v) ([(c, False)] @ map (\<lambda>c. (c, False)) v)"
    by (intro reads_as_append) (auto simp: reads_as_def sh_plain_def sh_active_def)
  then show ?case by simp
qed

lemma reads_as_lines:
  "list_all2 reads_as ts vs \<Longrightarrow> sh_words (join [32] ts) = Some vs"
proof (induction rule: list_all2_induct)
  case (Cons t ts v vs)
  then show ?case
    using sh_words_append [OF reads_as_word [OF Cons(1)] Cons(3)]
    by (cases "ts = []") (simp_all add: join_Cons reads_as_word)
qed simp

lemma identifier_plain:
  assumes "sh_identifier k"
  shows "list_all sh_plain k" "61 \<notin> set k"
proof -
  have c: "c = 95 \<or> 48 \<le> c \<and> c \<le> 57 \<or> 65 \<le> c \<and> c \<le> 90 \<or> 97 \<le> c \<and> c \<le> 122" if "c \<in> set k" for c
    using assms that by (auto simp: sh_name_def)
  then show "61 \<notin> set k" by force
  have "sh_plain c" if "c \<in> set k" for c using c [OF that] by (auto simp: sh_plain_def sh_active_def)
  then show "list_all sh_plain k" by (simp add: list_all_iff)
qed

subsection \<open>Quoting functions\<close>

text \<open>
  What a quoting function promises: its result adds exactly the value to the word it is typed in,
  for any value.
\<close>

locale shell_quoting =
  fixes q :: "utext \<Rightarrow> utext"
  assumes reads: "\<exists>x. sh_string x = v \<and> reads_as (q v) x"
begin

lemma quoted_values:
  "\<exists>xs. sh_words (join [32] (map q vs)) = Some xs \<and> map sh_string xs = vs"
proof -
  from reads obtain r where r: "\<And>v. sh_string (r v) = v \<and> reads_as (q v) (r v)" by metis
  then have "list_all2 reads_as (map q vs) (map r vs)"
    by (simp add: list_all2_map1 list_all2_map2 list_all2_same)
  then show ?thesis using reads_as_lines r by (auto simp: comp_def)
qed

lemma setting_reads:
  assumes "sh_identifier k"
  shows "\<exists>x. reads_as (k @ 61 # q v) x \<and> sh_assigns x \<and> sh_setting x = (k, v)"
proof -
  from reads [of v] obtain x where x: "sh_string x = v" "reads_as (q v) x" by blast
  let ?k = "map (\<lambda>c. (c, False)) k"
  have "k \<noteq> []" using assms by (auto simp: sh_name_def)
  moreover note identifier_plain [OF assms]
  moreover have "sh_plain 61" by (simp add: sh_plain_def sh_active_def)
  ultimately have "reads_as (k @ [61] @ q v) (?k @ [(61, False)] @ x)"
    using reads_as_plain [of "[61]"] by (intro reads_as_append reads_as_plain x) simp_all
  moreover have "sh_target (?k @ [(61, False)] @ x) = ?k"
    using identifier_plain(2) [OF assms] unfolding sh_target_def by (subst takeWhile_append2) auto
  ultimately show ?thesis
    using assms x(1) by (intro exI [of _ "?k @ [(61, False)] @ x"]) (simp add: sh_assigns_def sh_setting_def comp_def)
qed

text \<open>Assignments typed before a command set exactly those variables.\<close>

lemma settings_read:
  assumes "\<forall>e \<in> set es. sh_identifier (fst e)"
  shows "\<exists>xs. sh_words (join [32] (map (\<lambda>e. fst e @ 61 # q (snd e)) es)) = Some xs \<and>
    (\<forall>x \<in> set xs. sh_assigns x) \<and> map sh_setting xs = es"
proof -
  have "\<forall>e \<in> set es. \<exists>x. reads_as (fst e @ 61 # q (snd e)) x \<and> sh_assigns x \<and> sh_setting x = e"
    using setting_reads assms by fastforce
  then obtain r where r: "\<forall>e \<in> set es. reads_as (fst e @ 61 # q (snd e)) (r e) \<and> sh_assigns (r e) \<and> sh_setting (r e) = e"
    by metis
  then have "list_all2 reads_as (map (\<lambda>e. fst e @ 61 # q (snd e)) es) (map r es)"
    by (simp add: list_all2_map1 list_all2_map2 list_all2_same)
  moreover have "map sh_setting (map r es) = es" using r by (simp add: map_idI)
  ultimately show ?thesis
    using reads_as_lines r by (intro exI [of _ "map r es"]) auto
qed

end

text \<open>A command typed after assignments keeps its own words and settings.\<close>

lemma sh_command_prefix:
  assumes "sh_words p = Some xs" "\<forall>x \<in> set xs. sh_assigns x" "sh_command c = Some (as, ws)"
  shows "sh_command (p @ 32 # c) = Some (map sh_setting xs @ as, ws)"
proof -
  from assms(3) obtain ys where y: "sh_words c = Some ys" "as = map sh_setting (takeWhile sh_assigns ys)"
    "ws = map sh_string (dropWhile sh_assigns ys)" by (auto simp: sh_command_def)
  show ?thesis
    using sh_words_append [OF assms(1) y(1)] assms(2) y(2,3)
    by (simp add: sh_command_def takeWhile_append2 dropWhile_append2)
qed

text \<open>Arguments typed after a command that runs a program are arguments of it.\<close>

lemma sh_command_suffix:
  assumes "sh_command c = Some (as, ws)" "ws \<noteq> []" "sh_words a = Some xs"
  shows "sh_command (c @ 32 # a) = Some (as, ws @ map sh_string xs)"
proof -
  from assms(1) obtain ys where y: "sh_words c = Some ys" "as = map sh_setting (takeWhile sh_assigns ys)"
    "ws = map sh_string (dropWhile sh_assigns ys)" by (auto simp: sh_command_def)
  have "dropWhile sh_assigns ys \<noteq> []" using assms(2) y(3) by auto
  then obtain y where "y \<in> set ys" "\<not> sh_assigns y" by (auto simp: dropWhile_eq_Nil_conv)
  then show ?thesis
    using sh_words_append [OF y(1) assms(3)] y(2,3)
    by (simp add: sh_command_def takeWhile_append1 dropWhile_append1)
qed

end
