(* ===== verification/Agent_Command.thy ===== *)
theory Agent_Command
  imports Command_Text Shell
begin

section \<open>The commands typed into a shell\<close>

text \<open>
  Starting or resuming an agent types a command line into a terminal. It is built by
  \<open>web/src/components/workspace/agent-command.ts\<close> in the browser, by
  \<open>mobile/src/data/selectors/agent.ts\<close> and \<open>mobile/src/components/launcher/agent-command.ts\<close> on the
  phone; conversation ids are checked by \<open>web/src/lib/conversation.ts\<close> and
  \<open>mobile/src/terminal/transport/conversation-id.ts\<close>, and pasted paths are quoted by
  \<open>mobile/src/components/terminal-ui/attachment-paste.ts\<close>.

  An environment is the list of its entries in the object's order. \<open>toLowerCase\<close> is the argument
  \<open>lower\<close>.
\<close>

subsection \<open>Quoting\<close>

definition safe_char :: "nat \<Rightarrow> bool" where
  "safe_char c \<longleftrightarrow>
     is_letter c \<or> is_digit c \<or>
     c \<in> {95, 64, 37, 43, 61, 58, 44, 46, 47, 45}"

definition SAFE_WORD :: "utext \<Rightarrow> bool" where
  "SAFE_WORD v \<longleftrightarrow> v \<noteq> [] \<and> list_all safe_char v"

text \<open>\<open>value.replaceAll("'", "'\\''")\<close> between single quotes.\<close>

definition escape_quote :: "utext \<Rightarrow> utext" where
  "escape_quote v =
     c_squote # replace_chars (\<lambda>c. c = c_squote) [c_squote, c_backslash, c_squote, c_squote] v @ [c_squote]"

definition shellQuote :: "utext \<Rightarrow> utext" where
  "shellQuote v = (if v \<noteq> [] \<and> SAFE_WORD v then v else escape_quote v)"

definition shellQuote_m :: "utext \<Rightarrow> utext" where
  "shellQuote_m v = (if v \<noteq> [] \<and> SAFE_WORD v then v else escape_quote v)"

definition quoteShell :: "utext \<Rightarrow> utext" where
  "quoteShell v = (if SAFE_WORD v then v else escape_quote v)"

definition path_char :: "nat \<Rightarrow> bool" where
  "path_char c \<longleftrightarrow> is_letter c \<or> is_digit c \<or> c \<in> {95, 46, 47, 58, 45}"

definition shellQuotePath :: "utext \<Rightarrow> utext" where
  "shellQuotePath p = (if p \<noteq> [] \<and> list_all path_char p then p else escape_quote p)"

definition bracketedPaste :: "utext \<Rightarrow> utext" where
  "bracketedPaste t = 27 # u ''[200~'' @ t @ 27 # u ''[201~''"

definition attachmentPasteSequence :: "utext \<Rightarrow> utext" where
  "attachmentPasteSequence path = bracketedPaste (shellQuotePath path)"

subsection \<open>Agents\<close>

type_synonym uenv = "(utext \<times> utext) list"

record agent =
  command :: utext
  env :: uenv
  kind :: "utext option"
  install :: "utext option"
  yolo :: bool
  yolo_args :: "utext option"
  yolo_env :: "uenv option"

definition envPrefix :: "uenv \<Rightarrow> utext" where
  "envPrefix es =
     concat (map (\<lambda>e. fst e @ [c_equals] @ shellQuote (snd e) @ [c_blank]) (filter (\<lambda>e. env_key (fst e)) es))"

text \<open>\<open>agent.yolo_args?.trim()\<close>, with the empty string for \<open>undefined\<close>, which is as falsy.\<close>

definition trimmed_args :: "agent \<Rightarrow> utext" where
  "trimmed_args a = (case yolo_args a of None \<Rightarrow> [] | Some s \<Rightarrow> trim s)"

definition yolo_entries :: "agent \<Rightarrow> uenv" where
  "yolo_entries a = (case yolo_env a of None \<Rightarrow> [] | Some es \<Rightarrow> es)"

definition agentYoloAvailable :: "agent \<Rightarrow> bool" where
  "agentYoloAvailable a \<longleftrightarrow> trimmed_args a \<noteq> [] \<or> length (yolo_entries a) > 0"

definition yoloOn :: "agent \<Rightarrow> bool" where
  "yoloOn a \<longleftrightarrow> yolo a \<and> agentYoloAvailable a"

text \<open>\<open>{ ...a, ...b }\<close>: entries of \<open>b\<close> replace those of \<open>a\<close> in place, new ones follow.\<close>

definition spread :: "uenv \<Rightarrow> uenv \<Rightarrow> uenv" where
  "spread a b = foldl (\<lambda>es e. AList.update (fst e) (snd e) es) a b"

definition agentRunCommand :: "agent \<Rightarrow> utext" where
  "agentRunCommand a =
     (let on = yoloOn a;
          es = (if on then spread (env a) (yolo_entries a) else env a);
          as = (if on then trimmed_args a else [])
      in envPrefix es @ command a @ (if as \<noteq> [] then c_blank # as else []))"

subsection \<open>Conversations\<close>

definition UUID :: "utext \<Rightarrow> bool" where
  "UUID v \<longleftrightarrow> uuid_shape v"

definition canonicalConversationId :: "(utext \<Rightarrow> utext) \<Rightarrow> utext option \<Rightarrow> utext option" where
  "canonicalConversationId lower v =
     (case v of None \<Rightarrow> None | Some s \<Rightarrow> if UUID s then Some (lower s) else None)"

definition canonicalConversationId_m :: "(utext \<Rightarrow> utext) \<Rightarrow> utext option \<Rightarrow> utext option" where
  "canonicalConversationId_m lower v =
     (case v of None \<Rightarrow> None | Some s \<Rightarrow> if UUID s then Some (lower s) else None)"

record grammar =
  launch :: "(utext \<Rightarrow> utext) option"
  resume :: "(utext \<Rightarrow> utext) option"
  continueLatest :: "utext option"

text \<open>
  Indexing the table by a name that every object inherits yields an object without the three fields;
  of the inherited names only these two are in lower case.
\<close>

definition CONVERSATION_GRAMMARS :: "utext \<Rightarrow> grammar option" where
  "CONVERSATION_GRAMMARS k =
     (if k = u ''claude-code'' then
        Some \<lparr>launch = Some (\<lambda>i. u ''--session-id '' @ i), resume = Some (\<lambda>i. u ''--resume '' @ i),
              continueLatest = Some (u ''--continue'')\<rparr>
      else if k = u ''codex'' then
        Some \<lparr>launch = None, resume = Some (\<lambda>i. u ''resume '' @ i), continueLatest = Some (u ''resume --last'')\<rparr>
      else if k = u ''constructor'' \<or> k = u ''__proto__'' then
        Some \<lparr>launch = None, resume = None, continueLatest = None\<rparr>
      else None)"

definition agentConversationGrammar :: "(utext \<Rightarrow> utext) \<Rightarrow> utext option \<Rightarrow> grammar option" where
  "agentConversationGrammar lower k =
     (case k of None \<Rightarrow> None | Some s \<Rightarrow> if s = [] then None else CONVERSATION_GRAMMARS (lower (trim s)))"

definition agentCanResume :: "(utext \<Rightarrow> utext) \<Rightarrow> utext option \<Rightarrow> bool" where
  "agentCanResume lower k =
     (case agentConversationGrammar lower k of
        None \<Rightarrow> False
      | Some g \<Rightarrow> resume g \<noteq> None \<or> (case continueLatest g of None \<Rightarrow> False | Some c \<Rightarrow> c \<noteq> []))"

text \<open>\<open>crypto.randomUUID()\<close> is the argument \<open>fresh\<close>.\<close>

definition newAgentConversationId :: "(utext \<Rightarrow> utext) \<Rightarrow> utext \<Rightarrow> utext option \<Rightarrow> utext option" where
  "newAgentConversationId lower fresh k =
     (case agentConversationGrammar lower k of
        None \<Rightarrow> None | Some g \<Rightarrow> if launch g \<noteq> None then Some fresh else None)"

definition agentLaunchCommand :: "(utext \<Rightarrow> utext) \<Rightarrow> agent \<Rightarrow> utext option \<Rightarrow> utext" where
  "agentLaunchCommand lower a conversationId =
     (let run = agentRunCommand a;
          launch = (case agentConversationGrammar lower (kind a) of None \<Rightarrow> None | Some g \<Rightarrow> launch g)
      in case (launch, canonicalConversationId lower conversationId) of
           (Some f, Some i) \<Rightarrow> if i \<noteq> [] then run @ c_blank # f i else run
         | _ \<Rightarrow> run)"

definition agentInstallAndRunCommand ::
  "(utext \<Rightarrow> utext) \<Rightarrow> agent \<Rightarrow> utext option \<Rightarrow> utext option" where
  "agentInstallAndRunCommand lower a conversationId =
     (case install a of
        None \<Rightarrow> None
      | Some s \<Rightarrow> if trim s = [] then None
                 else Some (trim s @ u '' && '' @ agentLaunchCommand lower a conversationId))"

definition agentResumeCommand :: "(utext \<Rightarrow> utext) \<Rightarrow> agent \<Rightarrow> utext option \<Rightarrow> utext option" where
  "agentResumeCommand lower a conversationId =
     (case agentConversationGrammar lower (kind a) of
        None \<Rightarrow> None
      | Some g \<Rightarrow>
          let run = agentRunCommand a;
              latest = (case continueLatest g of
                          Some c \<Rightarrow> if c \<noteq> [] then Some (run @ c_blank # c) else None
                        | None \<Rightarrow> None)
          in case (canonicalConversationId lower conversationId, resume g) of
               (Some i, Some f) \<Rightarrow> if i \<noteq> [] then Some (run @ c_blank # f i) else latest
             | _ \<Rightarrow> latest)"

subsection \<open>The phone\<close>

text \<open>The phone's agent definition always has a \<open>yolo_env\<close>.\<close>

definition agentYoloAvailable_m :: "agent \<Rightarrow> bool" where
  "agentYoloAvailable_m a \<longleftrightarrow> trimmed_args a \<noteq> [] \<or> length (yolo_entries a) > 0"

definition envPrefix_m :: "uenv \<Rightarrow> utext" where
  "envPrefix_m es =
     (let assignments = map (\<lambda>e. fst e @ [c_equals] @ quoteShell (snd e)) (filter (\<lambda>e. env_key (fst e)) es)
      in if length assignments > 0 then join [c_blank] assignments @ [c_blank] else [])"

definition agentRunCommand_m :: "agent \<Rightarrow> utext" where
  "agentRunCommand_m a =
     (let useYolo = yolo a \<and> agentYoloAvailable_m a;
          es = (if useYolo then spread (env a) (yolo_entries a) else env a);
          as = (if useYolo then trimmed_args a else [])
      in envPrefix_m es @ command a @ (if as \<noteq> [] then c_blank # as else []))"

definition agentLaunchCommand_m :: "(utext \<Rightarrow> utext) \<Rightarrow> agent \<Rightarrow> utext option \<Rightarrow> utext" where
  "agentLaunchCommand_m lower a conversationId =
     (let run = agentRunCommand_m a;
          launch = (case agentConversationGrammar lower (kind a) of None \<Rightarrow> None | Some g \<Rightarrow> launch g)
      in case (launch, canonicalConversationId_m lower conversationId) of
           (Some f, Some i) \<Rightarrow> if i \<noteq> [] then run @ c_blank # f i else run
         | _ \<Rightarrow> run)"

definition agentInstallAndLaunchCommand_m ::
  "(utext \<Rightarrow> utext) \<Rightarrow> agent \<Rightarrow> utext option \<Rightarrow> utext option" where
  "agentInstallAndLaunchCommand_m lower a conversationId =
     (case install a of
        None \<Rightarrow> None
      | Some s \<Rightarrow> if trim s = [] then None
                 else Some (trim s @ u '' && '' @ agentLaunchCommand_m lower a conversationId))"

definition agentResumeCommand_m :: "(utext \<Rightarrow> utext) \<Rightarrow> agent \<Rightarrow> utext option \<Rightarrow> utext option" where
  "agentResumeCommand_m lower a conversationId =
     (case agentConversationGrammar lower (kind a) of
        None \<Rightarrow> None
      | Some g \<Rightarrow>
          let run = agentRunCommand_m a;
              latest = (case continueLatest g of
                          Some c \<Rightarrow> if c \<noteq> [] then Some (run @ c_blank # c) else None
                        | None \<Rightarrow> None)
          in case (canonicalConversationId_m lower conversationId, resume g) of
               (Some i, Some f) \<Rightarrow> if i \<noteq> [] then Some (run @ c_blank # f i) else latest
             | _ \<Rightarrow> latest)"

subsection \<open>Quoting is exact\<close>

text \<open>
  What the clients type is read here by the shell of theory Shell, whose active characters are POSIX's
  and not the code's. Letters, digits and the marks the code leaves unquoted are plain characters of it.
\<close>

lemma safe_plain: "list_all safe_char v \<Longrightarrow> list_all sh_plain v"
proof -
  have "sh_plain c" if "safe_char c" for c
    using that by (auto simp: safe_char_def char_classes sh_plain_def sh_active_def)
  then show "list_all safe_char v \<Longrightarrow> list_all sh_plain v" by (simp add: list_all_iff)
qed

lemma sh_single_escaped:
  "sh_single x (replace_chars (\<lambda>c. c = c_squote) [c_squote, c_backslash, c_squote, c_squote] v @ c_squote # rest) =
    sh_read (Some (x @ map (\<lambda>c. (c, True)) v)) rest"
  by (induction v arbitrary: x) (simp_all add: replace_chars_def sofar_def)

lemma escape_reads: "reads_as (escape_quote v) (map (\<lambda>c. (c, True)) v)"
  by (simp add: reads_as_def escape_quote_def sh_single_escaped)

lemma quoting_reads:
  assumes "q = (if v \<noteq> [] \<and> list_all safe_char v then v else escape_quote v)"
  shows "\<exists>x. sh_string x = v \<and> reads_as q x"
proof (cases "v \<noteq> [] \<and> list_all safe_char v")
  case True
  then show ?thesis
    using assms reads_as_plain [OF _ safe_plain] by (intro exI [of _ "map (\<lambda>c. (c, False)) v"]) (simp add: comp_def)
next
  case False
  then show ?thesis
    using assms escape_reads by (intro exI [of _ "map (\<lambda>c. (c, True)) v"]) (auto simp: comp_def)
qed

lemma path_safe: "list_all path_char v \<Longrightarrow> list_all safe_char v"
  by (auto simp: list_all_iff path_char_def safe_char_def)

lemma safe_bare: "list_all safe_char v \<Longrightarrow> \<forall>c \<in> set v. bare c"
proof
  fix c
  assume "list_all safe_char v" "c \<in> set v"
  then have "safe_char c" by (simp add: list_all_iff)
  then show "bare c" by (auto simp: bare_def safe_char_def char_classes)
qed

lemma scan_escaped:
  "scan \<lparr>args = A, current = C, quote = Some SingleQ, escaped = False, started = True\<rparr>
     (replace_chars (\<lambda>c. c = c_squote) [c_squote, c_backslash, c_squote, c_squote] v) =
   \<lparr>args = A, current = C @ v, quote = Some SingleQ, escaped = False, started = True\<rparr>"
  by (induction v arbitrary: C) (simp_all add: replace_chars_def scan_char_def is_space_def)

lemma set_replace_chars: "set (replace_chars p r s) \<subseteq> set s \<union> set r"
  by (auto simp: replace_chars_def)

lemma quotes_escape: "quotes (escape_quote v) v"
proof -
  have "scan (between A C b) (escape_quote v) = between A (C @ v) True" for A C b
    by (simp add: escape_quote_def scan_escaped scan_char_def is_space_def)
  moreover have "tight (escape_quote v)" by (simp add: tight_def escape_quote_def is_space_def)
  moreover have "set (escape_quote v) \<subseteq> set v \<union> {39, 92}"
    using set_replace_chars [of "\<lambda>c. c = c_squote" "[c_squote, c_backslash, c_squote, c_squote]" v]
    by (auto simp: escape_quote_def)
  ultimately show ?thesis by (simp add: quotes_def)
qed

lemma quotes_safe: "v \<noteq> [] \<Longrightarrow> list_all safe_char v \<Longrightarrow> quotes v v"
  by (intro quotes_bare safe_bare)

interpretation web: word_quoting shellQuote
  by unfold_locales (simp add: shellQuote_def SAFE_WORD_def quotes_escape quotes_safe)

interpretation phone: word_quoting quoteShell
  by unfold_locales (simp add: quoteShell_def SAFE_WORD_def quotes_escape quotes_safe)

interpretation launcher: word_quoting shellQuote_m
  by unfold_locales (simp add: shellQuote_m_def SAFE_WORD_def quotes_escape quotes_safe)

interpretation attachment: word_quoting shellQuotePath
  by unfold_locales (simp add: shellQuotePath_def quotes_escape quotes_safe path_safe)

interpretation web_shell: shell_quoting shellQuote
  by unfold_locales (rule quoting_reads, simp add: shellQuote_def SAFE_WORD_def)

interpretation phone_shell: shell_quoting quoteShell
  by unfold_locales (rule quoting_reads, simp add: quoteShell_def SAFE_WORD_def)

interpretation launcher_shell: shell_quoting shellQuote_m
  by unfold_locales (rule quoting_reads, simp add: shellQuote_m_def SAFE_WORD_def)

lemma path_reads: "\<exists>x. sh_string x = v \<and> reads_as (shellQuotePath v) x"
proof (cases "v \<noteq> [] \<and> list_all path_char v")
  case True
  then show ?thesis using path_safe by (intro quoting_reads) (simp add: shellQuotePath_def)
next
  case False
  then show ?thesis
    using escape_reads by (intro exI [of _ "map (\<lambda>c. (c, True)) v"]) (auto simp: shellQuotePath_def comp_def)
qed

interpretation attachment_shell: shell_quoting shellQuotePath
  by unfold_locales (rule path_reads)

text \<open>
  C36: Quoting is exact and inert. For every list of values, whatever quotes, blanks, dollar signs or
  newlines are in them, what each of the four quoting functions returns for them, typed with blanks
  between, is read by a POSIX shell as exactly those values, one word each: outside quotes it has no
  character a shell acts on.
\<close>

theorem quoted_word:
  "map_option (map sh_string) (sh_words (join [c_blank] (map shellQuote vs))) = Some vs \<and>
   map_option (map sh_string) (sh_words (join [c_blank] (map quoteShell vs))) = Some vs \<and>
   map_option (map sh_string) (sh_words (join [c_blank] (map shellQuote_m vs))) = Some vs \<and>
   map_option (map sh_string) (sh_words (join [c_blank] (map shellQuotePath vs))) = Some vs"
  using web_shell.quoted_values phone_shell.quoted_values launcher_shell.quoted_values
    attachment_shell.quoted_values by fastforce

text \<open>
  Round trip of command lines. Words quoted by either client and joined with blanks parse back to
  the same words, whatever they contain except the typographic characters the parser rewrites.
\<close>

theorem quoted_words_roundtrip:
  assumes "\<forall>w \<in> set ws. plain_text w"
  shows "parseArgv (join [c_blank] (map shellQuote ws)) = Inr ws \<and>
    parseArgv (join [c_blank] (map quoteShell ws)) = Inr ws"
  using web.words_roundtrip [OF assms] phone.words_roundtrip [OF assms] by simp

theorem quoted_words_roundtrip_witness:
  "parseArgv (join [c_blank] (map shellQuote [u ''it'' @ c_squote # u ''s $HOME'', [], u ''a b''])) =
    Inr [u ''it'' @ c_squote # u ''s $HOME'', [], u ''a b'']"
  using quoted_words_roundtrip [of "[u ''it'' @ c_squote # u ''s $HOME'', [], u ''a b'']"]
  by (simp add: plain_text_def)

subsection \<open>What a launch types\<close>

text \<open>The environment a launch sets, and the arguments it adds.\<close>

definition effective_env :: "agent \<Rightarrow> uenv" where
  "effective_env a = filter (\<lambda>e. env_key (fst e)) (if yoloOn a then spread (env a) (yolo_entries a) else env a)"

definition extra_args :: "agent \<Rightarrow> utext" where
  "extra_args a = (if yoloOn a then trimmed_args a else [])"

lemma concat_join:
  "concat (map (\<lambda>e. f e @ [c_blank]) es) = (if es = [] then [] else join [c_blank] (map f es) @ [c_blank])"
  by (induction es) (auto simp: join_Cons)

lemma envPrefix_join:
  "envPrefix es = (let es' = filter (\<lambda>e. env_key (fst e)) es in
     if es' = [] then [] else join [c_blank] (map (\<lambda>e. fst e @ c_equals # shellQuote (snd e)) es') @ [c_blank])"
  using concat_join [of "\<lambda>e. fst e @ c_equals # shellQuote (snd e)" "filter (\<lambda>e. env_key (fst e)) es"]
  by (simp add: envPrefix_def Let_def)

lemma agentRunCommand_parts:
  "agentRunCommand a =
     (if effective_env a = [] then []
      else join [c_blank] (map (\<lambda>e. fst e @ c_equals # shellQuote (snd e)) (effective_env a)) @ [c_blank]) @
     command a @ (if extra_args a = [] then [] else c_blank # extra_args a)"
  by (simp add: agentRunCommand_def effective_env_def extra_args_def envPrefix_join Let_def)

lemma env_key_identifier: "env_key k \<longleftrightarrow> sh_identifier k"
  by (cases k) (auto simp: env_key_def sh_name_def char_classes list_all_iff)

text \<open>
  C37: A launch types exactly what it means. When the configured command is one a shell reads as
  settings and a program with its arguments, and the extra arguments are words to it, a shell reads the
  typed line as one command: it sets the agent's variables in order, each to exactly its value whatever
  that contains, then whatever the command itself sets, and runs the command's program with its
  arguments followed by the extra ones. So no value can add a word, a setting or a command. Entries
  whose key is no shell name are left out, and no others.
\<close>

theorem agentRunCommand_words:
  assumes "sh_command (command a) = Some (as, p # ws)" "sh_words (extra_args a) = Some vs"
  shows "sh_command (agentRunCommand a) =
    Some (filter (\<lambda>e. sh_identifier (fst e)) (if yoloOn a then spread (env a) (yolo_entries a) else env a) @ as,
      p # ws @ map sh_string vs)"
proof -
  let ?c = "command a @ (if extra_args a = [] then [] else c_blank # extra_args a)"
  have c: "sh_command ?c = Some (as, p # ws @ map sh_string vs)"
    using sh_command_suffix [OF assms(1) _ assms(2)] assms by (cases "extra_args a = []") simp_all
  have e: "effective_env a =
      filter (\<lambda>e. sh_identifier (fst e)) (if yoloOn a then spread (env a) (yolo_entries a) else env a)"
    by (simp add: effective_env_def env_key_identifier)
  have "\<forall>e \<in> set (effective_env a). sh_identifier (fst e)" by (simp add: e)
  from web_shell.settings_read [OF this] obtain xs where
    "sh_words (join [32] (map (\<lambda>e. fst e @ 61 # shellQuote (snd e)) (effective_env a))) = Some xs"
    "\<forall>x \<in> set xs. sh_assigns x" "map sh_setting xs = effective_env a" by blast
  then have "sh_command (agentRunCommand a) = Some (effective_env a @ as, p # ws @ map sh_string vs)"
    using sh_command_prefix [OF _ _ c, of _ xs] c by (simp add: agentRunCommand_parts)
  then show ?thesis by (simp add: e)
qed

definition careful_agent :: agent where
  "careful_agent = \<lparr>command = u ''go x'', env = [(u ''M'', u ''a;b $(x)'' @ [8217, 39]), (u ''1'', u ''c'')],
     kind = Some (u ''claude-code''), install = None, yolo = True, yolo_args = Some (u '' -y ''), yolo_env = None\<rparr>"

lemmas careful_defs = careful_agent_def yoloOn_def agentYoloAvailable_def yolo_entries_def trimmed_args_def
  trim_def is_space_def

lemma careful_reads:
  "sh_command (command careful_agent) = Some ([], [u ''go'', u ''x''])"
  "sh_words (extra_args careful_agent) = Some [[(45, False), (121, False)]]"
  by (simp_all add: careful_defs extra_args_def sh_command_def sh_words_def sh_plain_def sh_active_def sofar_def
      finished_def sh_assigns_def sh_target_def)

lemma careful_env:
  "filter (\<lambda>e. sh_identifier (fst e)) (if yoloOn careful_agent
     then spread (env careful_agent) (yolo_entries careful_agent) else env careful_agent) =
   [(u ''M'', u ''a;b $(x)'' @ [8217, 39])]"
  by (simp add: careful_defs spread_def sh_name_def)

theorem agentRunCommand_words_witness:
  "sh_command (command careful_agent) = Some ([], [u ''go'', u ''x'']) \<and>
   sh_command (agentRunCommand careful_agent) =
     Some ([(u ''M'', u ''a;b $(x)'' @ [8217, 39])], [u ''go'', u ''x'', u ''-y''])"
  using agentRunCommand_words [OF careful_reads] careful_reads(1) unfolding careful_env by simp

subsection \<open>Conversation ids\<close>






text \<open>A launch with an id, in full.\<close>

lemma launch_with_id:
  "agentLaunchCommand (map ascii_lower) careful_agent (Some (u ''01234567-89AB-cdef-0123-456789abcdef'')) =
   agentRunCommand careful_agent @ u '' --session-id 01234567-89ab-cdef-0123-456789abcdef''"
  by (simp add: agentLaunchCommand_def agentConversationGrammar_def CONVERSATION_GRAMMARS_def
      canonicalConversationId_def UUID_def uuid_shape_def is_hex_def ascii_lower_def char_classes careful_agent_def trim_def)

subsection \<open>Both clients\<close>

lemma quoteShell_eq: "quoteShell = shellQuote"
  by (intro ext) (simp add: quoteShell_def shellQuote_def SAFE_WORD_def)

lemma envPrefix_m_eq: "envPrefix_m es = envPrefix es"
  by (simp add: envPrefix_m_def envPrefix_join quoteShell_eq Let_def)

lemma agentRunCommand_m_eq: "agentRunCommand_m a = agentRunCommand a"
  by (simp add: agentRunCommand_m_def agentRunCommand_def envPrefix_m_eq agentYoloAvailable_m_def
      agentYoloAvailable_def yoloOn_def Let_def)

text \<open>
  The browser and the phone type the same command for the same agent, whether they launch,
  install and launch, or resume it.
\<close>

theorem clients_type_alike:
  "agentRunCommand_m a = agentRunCommand a \<and>
   agentLaunchCommand_m lower a v = agentLaunchCommand lower a v \<and>
   agentInstallAndLaunchCommand_m lower a v = agentInstallAndRunCommand lower a v \<and>
   agentResumeCommand_m lower a v = agentResumeCommand lower a v"
proof -
  have c: "canonicalConversationId_m = canonicalConversationId"
    by (intro ext) (simp add: canonicalConversationId_m_def canonicalConversationId_def)
  have l: "agentLaunchCommand_m lower a v = agentLaunchCommand lower a v"
      and r: "agentResumeCommand_m lower a v = agentResumeCommand lower a v"
    unfolding agentLaunchCommand_m_def agentLaunchCommand_def agentResumeCommand_m_def
      agentResumeCommand_def agentRunCommand_m_eq c by (rule refl)+
  have "agentInstallAndLaunchCommand_m lower a v = agentInstallAndRunCommand lower a v"
    unfolding agentInstallAndLaunchCommand_m_def agentInstallAndRunCommand_def l by (rule refl)
  with l r show ?thesis by (simp add: agentRunCommand_m_eq)
qed

end
