(* ===== verification/Session_Ctl.thy ===== *)
theory Session_Ctl
  imports Bytes "HOL-Library.AList"
begin

section \<open>The session control channel\<close>

text \<open>
  \<open>mobile/src/terminal/transport/ctl-codec.ts\<close>: the messages of a terminal's control channel. Binary
  frames carry replays and uploads in chunks behind a header of 28 bytes; text messages are JSON; a
  replay arrives as chunks in any order and is put together by the \<open>ReplayAssembler\<close>.

  A string of a text message is the list of its UTF-8 bytes, what \<open>TextEncoder\<close> makes of it; ids in
  frames are lists of code units. \<open>JSON.parse\<close> and \<open>JSON.stringify\<close> are arguments, with \<open>None\<close> for an
  exception.
\<close>

subsection \<open>Limits\<close>

definition SESSION_CTL_VERSION :: nat where "SESSION_CTL_VERSION = 1"

definition SESSION_CTL_MAX_TEXT_BYTES :: nat where "SESSION_CTL_MAX_TEXT_BYTES = 16 * 1024"

definition SESSION_CTL_MAX_REPLAY_BYTES :: int where "SESSION_CTL_MAX_REPLAY_BYTES = 12 * 1024 * 1024"

definition SESSION_CTL_CHUNK_PAYLOAD_BYTES :: int where "SESSION_CTL_CHUNK_PAYLOAD_BYTES = 48 * 1024"

definition SESSION_CTL_MIN_REPLAY_CHUNK_PAYLOAD_BYTES :: int where
  "SESSION_CTL_MIN_REPLAY_CHUNK_PAYLOAD_BYTES = 1024"

definition SESSION_CTL_MAX_UPLOAD_BYTES :: int where "SESSION_CTL_MAX_UPLOAD_BYTES = 20 * 1024 * 1024"

definition PTY_INPUT_CHUNK_BYTES :: nat where "PTY_INPUT_CHUNK_BYTES = 16 * 1024"

definition SPCT_HEADER_BYTES :: nat where "SPCT_HEADER_BYTES = 28"

definition SPCT_MAGIC :: bytes where "SPCT_MAGIC = [0x53, 0x50, 0x43, 0x54]"

subsection \<open>Ids\<close>

definition isControlId :: "utext \<Rightarrow> bool" where
  "isControlId v \<longleftrightarrow> uuid_shape v"

text \<open>The loop over the sixteen bytes fails as soon as one pair of digits does.\<close>

definition uuidToBytes :: "utext \<Rightarrow> bytes option" where
  "uuidToBytes v =
     (if \<not> isControlId v then None
      else
        let compact_v = filter (\<lambda>c. c \<noteq> c_minus) v
        in those (map (\<lambda>i. parse_hex_byte (take 2 (drop (i * 2) compact_v))) [0..<16]))"

definition bytesToUuid :: "bytes \<Rightarrow> utext option" where
  "bytesToUuid bs =
     (if length bs \<noteq> 16 then None
      else
        let hex = concat (map hex_byte bs) in
        Some (take 8 hex @ [c_minus] @ take 4 (drop 8 hex) @ [c_minus] @ take 4 (drop 12 hex) @ [c_minus] @
              take 4 (drop 16 hex) @ [c_minus] @ drop 20 hex))"

subsection \<open>Frames\<close>

datatype frame_kind = FReplay | FUpload

record spct_frame =
  f_kind :: frame_kind
  f_requestId :: utext
  f_sequence :: int
  f_last :: bool
  f_payload :: bytes

text \<open>The buffer is filled at ascending offsets, so it is the parts in order.\<close>

definition encodeSpctFrame :: "spct_frame \<Rightarrow> bytes option" where
  "encodeSpctFrame f =
     (case uuidToBytes (f_requestId f) of
        None \<Rightarrow> None
      | Some requestId \<Rightarrow>
          if \<not> safe_integer (f_sequence f) \<or> f_sequence f < 0 \<or> f_sequence f > 0xffffffff \<or>
             length (f_payload f) = 0 \<or> int (length (f_payload f)) > SESSION_CTL_CHUNK_PAYLOAD_BYTES
          then None
          else Some (SPCT_MAGIC @ [word_of_nat SESSION_CTL_VERSION, if f_kind f = FReplay then 1 else 2] @
                     le16 (if f_last f then 1 else 0) @ requestId @ le32 (nat (f_sequence f)) @ f_payload f))"

definition decodeSpctFrame :: "bytes \<Rightarrow> spct_frame option" where
  "decodeSpctFrame bs =
     (if length bs < SPCT_HEADER_BYTES \<or>
         int (length bs) > int SPCT_HEADER_BYTES + SESSION_CTL_CHUNK_PAYLOAD_BYTES then None
      else if take (length SPCT_MAGIC) bs \<noteq> SPCT_MAGIC then None
      else if bs ! 4 \<noteq> word_of_nat SESSION_CTL_VERSION \<or> (bs ! 5 \<noteq> 1 \<and> bs ! 5 \<noteq> 2) then None
      else
        let flags = get16 bs 6 in
        case bytesToUuid (take 16 (drop 8 bs)) of
          None \<Rightarrow> None
        | Some requestId \<Rightarrow>
            if flags div 2 \<noteq> 0 then None
            else Some \<lparr>f_kind = (if bs ! 5 = 1 then FReplay else FUpload), f_requestId = requestId,
                       f_sequence = int (get32 bs 24), f_last = (flags mod 2 \<noteq> 0),
                       f_payload = drop SPCT_HEADER_BYTES bs\<rparr>)"

subsection \<open>Text messages\<close>

datatype ctl_operation =
    OpHistory | OpSnapshot | OpResize | OpScroll | OpRedraw | OpTakeControl | OpFocusView
  | OpUploadStart | OpUploadCancel | OpUploadComplete | OpHistorySubscribe

fun operation_name :: "ctl_operation \<Rightarrow> string" where
  "operation_name OpHistory = ''history''"
| "operation_name OpSnapshot = ''snapshot''"
| "operation_name OpResize = ''resize''"
| "operation_name OpScroll = ''scroll''"
| "operation_name OpRedraw = ''redraw''"
| "operation_name OpTakeControl = ''take_control''"
| "operation_name OpFocusView = ''focus_view''"
| "operation_name OpUploadStart = ''upload_start''"
| "operation_name OpUploadCancel = ''upload_cancel''"
| "operation_name OpUploadComplete = ''upload_complete''"
| "operation_name OpHistorySubscribe = ''history_subscribe''"

text \<open>\<open>{ ...parameters, version, kind, request_id, operation }\<close>\<close>

definition request_value :: "string \<Rightarrow> ctl_operation \<Rightarrow> (string \<times> jsval) list \<Rightarrow> jsval" where
  "request_value requestId operation parameters =
     JObj (foldl (\<lambda>fields e. AList.update (fst e) (snd e) fields) parameters
       [(''version'', JNum (of_nat SESSION_CTL_VERSION)), (''kind'', JStr ''request''),
        (''request_id'', JStr requestId), (''operation'', JStr (operation_name operation))])"

definition makeSessionCtlRequest ::
  "(jsval \<Rightarrow> string option) \<Rightarrow> string \<Rightarrow> ctl_operation \<Rightarrow> (string \<times> jsval) list \<Rightarrow> string option" where
  "makeSessionCtlRequest json_string requestId operation parameters =
     (if \<not> isControlId (u requestId) then None
      else case json_string (request_value requestId operation parameters) of
        None \<Rightarrow> None
      | Some text \<Rightarrow> if length text \<le> SESSION_CTL_MAX_TEXT_BYTES then Some text else None)"

record upload_start =
  us_capability :: string
  us_uploadId :: string
  us_sessionGeneration :: int
  us_name :: string
  us_mimeType :: string
  us_destination :: string
  us_totalBytes :: int
  us_chunks :: int
  us_sha256 :: string

text \<open>
  A control character of a name, in UTF-8: one byte up to 31 or 127, or one of the code points 128 to
  159, which are the byte 194 and one of the bytes 128 to 159.
\<close>

fun control_char :: "utext \<Rightarrow> bool" where
  "control_char [] = False"
| "control_char (c # cs) =
     (c \<le> 31 \<or> c = 127 \<or> (c = 194 \<and> cs \<noteq> [] \<and> 128 \<le> hd cs \<and> hd cs \<le> 159) \<or> control_char cs)"

definition ceil_div :: "int \<Rightarrow> int \<Rightarrow> int" where
  "ceil_div n d = - ((- n) div d)"

definition upload_ok :: "upload_start \<Rightarrow> bool" where
  "upload_ok s \<longleftrightarrow>
     isControlId (u (us_capability s)) \<and> isControlId (u (us_uploadId s)) \<and>
     safe_integer (us_sessionGeneration s) \<and> us_sessionGeneration s > 0 \<and>
     safe_integer (us_totalBytes s) \<and> us_totalBytes s > 0 \<and> us_totalBytes s \<le> SESSION_CTL_MAX_UPLOAD_BYTES \<and>
     us_chunks s = ceil_div (us_totalBytes s) SESSION_CTL_CHUNK_PAYLOAD_BYTES \<and>
     length (us_name s) \<ge> 1 \<and> length (us_name s) \<le> 255 \<and>
     us_name s \<noteq> ''.'' \<and> us_name s \<noteq> ''..'' \<and> \<not> control_char (u (us_name s)) \<and>
     c_slash \<notin> set (u (us_name s)) \<and> c_backslash \<notin> set (u (us_name s)) \<and>
     (us_destination s = ''attachments'' \<or> us_destination s = ''cwd'') \<and>
     length (us_mimeType s) \<ge> 1 \<and> length (us_mimeType s) \<le> 128 \<and>
     list_all (\<lambda>c. 33 \<le> c \<and> c \<le> 126) (u (us_mimeType s)) \<and> 59 \<notin> set (u (us_mimeType s)) \<and>
     length (us_sha256 s) = 64 \<and> list_all (\<lambda>c. is_digit c \<or> 97 \<le> c \<and> c \<le> 102) (u (us_sha256 s))"

definition makeUploadStart :: "(jsval \<Rightarrow> string option) \<Rightarrow> upload_start \<Rightarrow> string option" where
  "makeUploadStart json_string s =
     (if \<not> upload_ok s then None
      else makeSessionCtlRequest json_string (us_uploadId s) OpUploadStart
        [(''capability'', JStr (us_capability s)),
         (''agent_generation'', JNum (of_int (us_sessionGeneration s))),
         (''name'', JStr (us_name s)), (''mime_type'', JStr (us_mimeType s)),
         (''destination'', JStr (us_destination s)), (''total_bytes'', JNum (of_int (us_totalBytes s))),
         (''chunks'', JNum (of_int (us_chunks s))), (''sha256'', JStr (us_sha256 s))])"

definition validGrid :: "jsval \<Rightarrow> int \<Rightarrow> int \<Rightarrow> bool" where
  "validGrid v lo hi \<longleftrightarrow>
     v = JNull \<or> (case js_safe v of None \<Rightarrow> False | Some n \<Rightarrow> lo \<le> n \<and> n \<le> hi)"

text \<open>The test of a response's \<open>request_id\<close>: absent, null or an id.\<close>

definition request_id_ok :: "jsval \<Rightarrow> bool" where
  "request_id_ok v \<longleftrightarrow>
     v = JUndef \<or> v = JNull \<or> (case js_string v of None \<Rightarrow> False | Some s \<Rightarrow> isControlId (u s))"

definition js_boolean :: "jsval \<Rightarrow> bool" where
  "js_boolean v = (case v of JBool _ \<Rightarrow> True | _ \<Rightarrow> False)"

definition ready_event :: "jsval \<Rightarrow> bool" where
  "ready_event v \<longleftrightarrow>
     (case js_string (js_get v ''upload_capability'') of None \<Rightarrow> False | Some s \<Rightarrow> isControlId (u s)) \<and>
     (case js_safe (js_get v ''agent_generation'') of None \<Rightarrow> False | Some n \<Rightarrow> n > 0) \<and>
     js_get v ''upload_max_bytes'' = JNum (of_int SESSION_CTL_MAX_UPLOAD_BYTES) \<and>
     js_get v ''upload_chunk_bytes'' = JNum (of_int SESSION_CTL_CHUNK_PAYLOAD_BYTES)"

definition display_event :: "jsval \<Rightarrow> bool" where
  "display_event v \<longleftrightarrow>
     js_boolean (js_get v ''owner'') \<and>
     (case js_safe (js_get v ''viewers'') of None \<Rightarrow> False | Some n \<Rightarrow> n \<ge> 1) \<and>
     validGrid (js_get v ''cols'') 20 400 \<and> validGrid (js_get v ''rows'') 5 200 \<and>
     (js_get v ''cols'' = JNull) = (js_get v ''rows'' = JNull)"

definition valid_epoch :: "jsval \<Rightarrow> bool" where
  "valid_epoch v \<longleftrightarrow>
     (case js_string (js_get v ''history_epoch'') of
        None \<Rightarrow> False
      | Some s \<Rightarrow> 1 \<le> length s \<and> length s \<le> 20 \<and> list_all is_digit (u s))"

definition delta_event :: "jsval \<Rightarrow> bool" where
  "delta_event v \<longleftrightarrow>
     valid_epoch v \<and>
     (case js_safe (js_get v ''history_offset'') of None \<Rightarrow> False | Some n \<Rightarrow> n \<ge> 0) \<and>
     js_string (js_get v ''data'') \<noteq> None"

definition parseSessionCtlText :: "(string \<Rightarrow> jsval option) \<Rightarrow> string \<Rightarrow> jsval option" where
  "parseSessionCtlText json_parse raw =
     (if length raw > SESSION_CTL_MAX_TEXT_BYTES then None
      else case json_parse raw of
        None \<Rightarrow> None
      | Some v \<Rightarrow>
          if \<not> js_is_record v \<or> js_get v ''version'' \<noteq> JNum (of_nat SESSION_CTL_VERSION) then None
          else if js_get v ''kind'' = JStr ''response'' \<and> js_boolean (js_get v ''ok'') then
            (if request_id_ok (js_get v ''request_id'') then Some v else None)
          else if js_get v ''kind'' \<noteq> JStr ''event'' \<or> js_string (js_get v ''event'') = None then None
          else if js_get v ''event'' = JStr ''ready'' \<and> ready_event v then Some v
          else if js_get v ''event'' = JStr ''display_state'' \<and> display_event v then Some v
          else if js_get v ''event'' = JStr ''history_gap'' then Some v
          else if js_get v ''event'' = JStr ''history_wipe'' \<and> valid_epoch v then Some v
          else if js_get v ''event'' = JStr ''history_delta'' \<and> delta_event v then Some v
          else None)"

subsection \<open>Terminal input and output\<close>

text \<open>The loop of \<open>chunkPtyInput\<close> from \<open>offset\<close> on.\<close>

function input_chunks :: "bytes \<Rightarrow> nat \<Rightarrow> bytes list" where
  "input_chunks bs offset =
     (if offset < length bs
      then take PTY_INPUT_CHUNK_BYTES (drop offset bs) # input_chunks bs (offset + PTY_INPUT_CHUNK_BYTES)
      else [])"
  by pat_completeness auto

termination
  by (relation "measure (\<lambda>(bs, offset). length bs - offset)") (auto simp: PTY_INPUT_CHUNK_BYTES_def)

declare input_chunks.simps [simp del]

definition chunkPtyInput :: "bytes \<Rightarrow> bytes list" where
  "chunkPtyInput bs = input_chunks bs 0"

record anchored_slice =
  as_bytes :: "bytes option"
  as_anchor :: "int option"

definition slicePtyChunkAfterAnchor :: "bytes \<Rightarrow> int \<Rightarrow> int option \<Rightarrow> anchored_slice" where
  "slicePtyChunkAfterAnchor bs offsetAfter anchor =
     (case anchor of
        None \<Rightarrow> \<lparr>as_bytes = Some bs, as_anchor = None\<rparr>
      | Some a \<Rightarrow>
          if offsetAfter \<le> a
          then \<lparr>as_bytes = None, as_anchor = (if offsetAfter = a then None else Some a)\<rparr>
          else
            let start = offsetAfter - int (length bs) in
            \<lparr>as_bytes = Some (if start < a then drop (nat (a - start)) bs else bs), as_anchor = None\<rparr>)"

subsection \<open>Replays\<close>

definition replayChunkCountIsPlausible :: "int \<Rightarrow> int \<Rightarrow> bool" where
  "replayChunkCountIsPlausible totalBytes chunks \<longleftrightarrow>
     (if chunks = 0 then totalBytes = 0
      else if totalBytes = 0 then False
      else if chunks = 1 then totalBytes \<le> SESSION_CTL_CHUNK_PAYLOAD_BYTES
      else (chunks - 1) * SESSION_CTL_MIN_REPLAY_CHUNK_PAYLOAD_BYTES < totalBytes \<and>
           totalBytes \<le> chunks * SESSION_CTL_CHUNK_PAYLOAD_BYTES)"

text \<open>The fields of a response the assembler reads; a number field holds any value.\<close>

record ctl_response =
  cr_request_id :: "utext option"
  cr_total_bytes :: jsval
  cr_chunks :: jsval

datatype replay_error =
    MetadataMismatch | ChunkOutOfRange | FinalMismatch | SizeCannotCarry | NotOneSize | TooLarge
  | MissingChunk | ByteCountMismatch

datatype replay_result = ReplayPending | ReplayComplete bytes | ReplayInvalid replay_error

record assembler =
  ra_chunks :: "(int \<times> bytes) list"
  ra_response :: ctl_response
  ra_bufferedBytes :: int
  ra_chunkPayloadBytes :: "int option"

definition new_assembler :: "ctl_response \<Rightarrow> assembler" where
  "new_assembler r = \<lparr>ra_chunks = [], ra_response = r, ra_bufferedBytes = 0, ra_chunkPayloadBytes = None\<rparr>"

text \<open>The first test of \<open>accept\<close>, with the two numbers it establishes.\<close>

definition accept_metadata :: "assembler \<Rightarrow> spct_frame \<Rightarrow> (int \<times> int) option" where
  "accept_metadata a f =
     (case (js_safe (cr_total_bytes (ra_response a)), js_safe (cr_chunks (ra_response a))) of
        (Some totalBytes, Some expectedChunks) \<Rightarrow>
          if f_kind f \<noteq> FReplay \<or> Some (f_requestId f) \<noteq> cr_request_id (ra_response a) \<or>
             totalBytes < 0 \<or> totalBytes > SESSION_CTL_MAX_REPLAY_BYTES \<or>
             \<not> replayChunkCountIsPlausible totalBytes expectedChunks \<or>
             f_sequence f \<ge> expectedChunks \<or> map_of (ra_chunks a) (f_sequence f) \<noteq> None
          then None else Some (totalBytes, expectedChunks)
      | _ \<Rightarrow> None)"

text \<open>The loop that puts the chunks together from \<open>sequence\<close> on, \<open>n\<close> chunks before the end.\<close>

fun gather :: "(int \<times> bytes) list \<Rightarrow> int \<Rightarrow> int \<Rightarrow> bytes \<Rightarrow> nat \<Rightarrow> bytes option" where
  "gather held totalBytes sequence out 0 = Some out"
| "gather held totalBytes sequence out (Suc n) =
     (case map_of held sequence of
        None \<Rightarrow> None
      | Some chunk \<Rightarrow>
          if int (length out) + int (length chunk) > totalBytes then None
          else gather held totalBytes (sequence + 1) (out @ chunk) n)"

text \<open>
  The size test: \<open>Inl\<close> for a refusal, otherwise the framing size known from now on.
\<close>

definition accept_size :: "assembler \<Rightarrow> spct_frame \<Rightarrow> int \<Rightarrow> int \<Rightarrow> replay_error + int option" where
  "accept_size a f totalBytes expectedChunks =
     (let finalSequence = expectedChunks - 1;
          len = int (length (f_payload f));
          sz = ra_chunkPayloadBytes a
      in if f_sequence f = finalSequence then
           (let expected = (case sz of
                              None \<Rightarrow> if expectedChunks = 1 then Some totalBytes else None
                            | Some c \<Rightarrow> Some (totalBytes - c * finalSequence))
            in if expected \<noteq> None \<and> Some len \<noteq> expected then Inl FinalMismatch else Inr sz)
         else case sz of
           None \<Rightarrow>
             if len < SESSION_CTL_MIN_REPLAY_CHUNK_PAYLOAD_BYTES \<or> len * finalSequence \<ge> totalBytes \<or>
                len * expectedChunks < totalBytes
             then Inl SizeCannotCarry
             else (case map_of (ra_chunks a) finalSequence of
                     Some held \<Rightarrow> if int (length held) \<noteq> totalBytes - len * finalSequence
                                  then Inl FinalMismatch else Inr (Some len)
                   | None \<Rightarrow> Inr (Some len))
         | Some c \<Rightarrow> if len \<noteq> c then Inl NotOneSize else Inr sz)"

definition accept :: "assembler \<Rightarrow> spct_frame \<Rightarrow> assembler \<times> replay_result" where
  "accept a f =
     (case accept_metadata a f of
        None \<Rightarrow> (a, ReplayInvalid MetadataMismatch)
      | Some (totalBytes, expectedChunks) \<Rightarrow>
          let len = int (length (f_payload f)) in
          if f_last f \<noteq> (f_sequence f = expectedChunks - 1) \<or> len = 0 \<or> len > SESSION_CTL_CHUNK_PAYLOAD_BYTES
          then (a, ReplayInvalid ChunkOutOfRange)
          else case accept_size a f totalBytes expectedChunks of
            Inl e \<Rightarrow> (a, ReplayInvalid e)
          | Inr sz \<Rightarrow>
              let a1 = a\<lparr>ra_chunkPayloadBytes := sz, ra_bufferedBytes := ra_bufferedBytes a + len\<rparr> in
              if ra_bufferedBytes a1 > SESSION_CTL_MAX_REPLAY_BYTES then (a1, ReplayInvalid TooLarge)
              else
                let a2 = a1\<lparr>ra_chunks := ra_chunks a1 @ [(f_sequence f, f_payload f)]\<rparr> in
                if int (length (ra_chunks a2)) \<noteq> expectedChunks then (a2, ReplayPending)
                else case gather (ra_chunks a2) totalBytes 0 [] (nat expectedChunks) of
                  None \<Rightarrow> (a2, ReplayInvalid MissingChunk)
                | Some bs \<Rightarrow>
                    (a2, if int (length bs) = totalBytes then ReplayComplete bs
                         else ReplayInvalid ByteCountMismatch))"

subsection \<open>Ids are sixteen bytes\<close>

definition hex_text :: "utext \<Rightarrow> bool" where
  "hex_text s \<longleftrightarrow> (\<forall>c \<in> set s. is_hex c)"

definition dashed :: "utext \<Rightarrow> utext \<Rightarrow> utext \<Rightarrow> utext \<Rightarrow> utext \<Rightarrow> utext" where
  "dashed a b c d e = a @ c_minus # b @ c_minus # c @ c_minus # d @ c_minus # e"

lemma cut_at: "i + k < length v \<Longrightarrow> drop i v = take k (drop i v) @ v ! (i + k) # drop (Suc (i + k)) v"
  using id_take_nth_drop [of k "drop i v"] by (simp add: add.commute)

lemma mem_cut: "c \<in> set (take k (drop i v)) \<Longrightarrow> \<exists>n. i \<le> n \<and> n < i + k \<and> n < length v \<and> c = v ! n"
  by (auto simp: in_set_conv_nth) (metis add_less_cancel_left le_add1 less_diff_conv add.commute)

lemma uuid_dashed:
  assumes "uuid_shape v"
  obtains a b c d e where "v = dashed a b c d e" "hex_text (a @ b @ c @ d @ e)"
    "length a = 8" "length b = 4" "length c = 4" "length d = 4" "length e = 12"
proof -
  have len: "length v = 36" using assms by (simp add: uuid_shape_def)
  have dash: "v ! 8 = c_minus" "v ! 13 = c_minus" "v ! 18 = c_minus" "v ! 23 = c_minus"
    using uuid_nth [OF assms, of 8] uuid_nth [OF assms, of 13] uuid_nth [OF assms, of 18]
      uuid_nth [OF assms, of 23] by simp_all
  have hex: "hex_text (take k (drop i v))" if "\<forall>n. i \<le> n \<and> n < i + k \<longrightarrow> n \<notin> {8, 13, 18, 23}" for i k
    using that mem_cut [of _ k i v] uuid_nth [OF assms] len unfolding hex_text_def by metis
  have "v = dashed (take 8 (drop 0 v)) (take 4 (drop 9 v)) (take 4 (drop 14 v)) (take 4 (drop 19 v)) (take 12 (drop 24 v))"
    using cut_at [of 0 8 v] cut_at [of 9 4 v] cut_at [of 14 4 v] cut_at [of 19 4 v] len dash
    by (simp add: dashed_def)
  moreover have "hex_text (take 8 (drop 0 v)) \<and> hex_text (take 4 (drop 9 v)) \<and> hex_text (take 4 (drop 14 v)) \<and>
      hex_text (take 4 (drop 19 v)) \<and> hex_text (take 12 (drop 24 v))"
    by (intro conjI hex) auto
  ultimately show thesis
    using len by (intro that [of "take 8 (drop 0 v)" "take 4 (drop 9 v)" "take 4 (drop 14 v)"
          "take 4 (drop 19 v)" "take 12 (drop 24 v)"]) (auto simp: hex_text_def)
qed

lemma uuid_shapeI:
  "length v = 36 \<Longrightarrow> (\<And>n. n < 36 \<Longrightarrow> if n \<in> {8, 13, 18, 23} then v ! n = c_minus else is_hex (v ! n)) \<Longrightarrow> uuid_shape v"
  by (auto simp: uuid_shape_def list_all_iff in_set_enumerate_eq split: if_splits)

lemma dashed_uuid:
  assumes "hex_text (a @ b @ c @ d @ e)" "length a = 8" "length b = 4" "length c = 4" "length d = 4" "length e = 12"
  shows "uuid_shape (dashed a b c d e)" "filter (\<lambda>x. x \<noteq> c_minus) (dashed a b c d e) = a @ b @ c @ d @ e"
proof -
  have not: "is_hex x \<Longrightarrow> x \<noteq> c_minus" for x by (auto simp: is_hex_def is_digit_def)
  have "filter (\<lambda>x. x \<noteq> c_minus) s = s" if "hex_text s" for s
    using that not by (auto simp: hex_text_def intro!: filter_True)
  then show "filter (\<lambda>x. x \<noteq> c_minus) (dashed a b c d e) = a @ b @ c @ d @ e"
    using assms(1) by (simp add: dashed_def hex_text_def)
  have hex: "is_hex (s ! n)" if "hex_text s" "n < length s" for s n
    using that by (simp add: hex_text_def)
  have h: "hex_text a" "hex_text b" "hex_text c" "hex_text d" "hex_text e"
    using assms(1) by (simp_all add: hex_text_def)
  have "if n \<in> {8, 13, 18, 23} then dashed a b c d e ! n = c_minus else is_hex (dashed a b c d e ! n)"
    if "n < 36" for n
    using that assms(2-6) h by (auto simp: dashed_def nth_append nth_Cons' hex)
  moreover have "length (dashed a b c d e) = 36" using assms(2-6) by (simp add: dashed_def)
  ultimately show "uuid_shape (dashed a b c d e)" by (intro uuid_shapeI) auto
qed

lemma hex_pairs:
  assumes "hex_text xs" "length xs = 2 * n"
  shows "\<exists>bs. those (map (\<lambda>i. parse_hex_byte (take 2 (drop (i * 2) xs))) [0..<n]) = Some bs \<and> length bs = n \<and>
    concat (map hex_byte bs) = map ascii_lower xs"
  using assms
proof (induction n arbitrary: xs)
  case 0
  then show ?case by simp
next
  case (Suc n)
  then obtain a b ys where xs: "xs = a # b # ys" "length ys = 2 * n" by (auto simp: length_Suc_conv)
  then have "is_hex a" "is_hex b" "hex_text ys" using Suc.prems(1) by (simp_all add: hex_text_def)
  then obtain w bs where "parse_hex_byte [a, b] = Some w" "hex_byte w = [ascii_lower a, ascii_lower b]"
      "those (map (\<lambda>i. parse_hex_byte (take 2 (drop (i * 2) ys))) [0..<n]) = Some bs" "length bs = n"
      "concat (map hex_byte bs) = map ascii_lower ys"
    using parse_hex_byte_print Suc.IH [OF _ xs(2)] by blast
  then show ?case by (simp add: xs map_upt_Suc del: upt_Suc)
qed

lemma pairs_hex:
  "those (map (\<lambda>i. parse_hex_byte (take 2 (drop (i * 2) (concat (map hex_byte bs))))) [0..<length bs]) = Some bs"
proof (induction bs)
  case (Cons b bs)
  have h: "hex_byte b @ ys = hd (hex_byte b) # hd (tl (hex_byte b)) # ys" for ys by (simp add: hex_byte_def)
  have "[hd (hex_byte b), hd (tl (hex_byte b))] = hex_byte b" by (simp add: hex_byte_def)
  with Cons show ?case by (simp add: h map_upt_Suc hex_byte_parse del: upt_Suc)
qed simp

lemma length_hex [simp]: "length (concat (map hex_byte bs)) = 2 * length bs"
  by (induction bs) (simp_all add: hex_byte_def)

lemma hex_text_bytes: "hex_text (concat (map hex_byte bs))"
  by (induction bs) (auto simp: hex_text_def hex_byte_def unat_byte_less less_mult_imp_div_less)

lemma bytesToUuid_dashed:
  assumes "length bs = 16"
  shows "bytesToUuid bs = Some (let h = concat (map hex_byte bs) in
    dashed (take 8 h) (take 4 (drop 8 h)) (take 4 (drop 12 h)) (take 4 (drop 16 h)) (drop 20 h))"
  using assms by (simp add: bytesToUuid_def dashed_def Let_def)

lemma take_drop_parts:
  "take 8 h @ take 4 (drop 8 h) @ take 4 (drop 12 h) @ take 4 (drop 16 h) @ drop 20 h = h"
  using take_add [of 8 4 h] take_add [of 12 4 h] take_add [of 16 4 h] append_take_drop_id [of 20 h]
  by (simp del: append_take_drop_id)

text \<open>An id and its bytes determine each other, up to the case of the digits.\<close>

lemma uuid_bytes:
  assumes "isControlId v"
  obtains bs where "uuidToBytes v = Some bs" "length bs = 16" "bytesToUuid bs = Some (map ascii_lower v)"
proof -
  obtain a b c d e where v: "v = dashed a b c d e" "hex_text (a @ b @ c @ d @ e)"
    "length a = 8" "length b = 4" "length c = 4" "length d = 4" "length e = 12"
    using assms unfolding isControlId_def by (rule uuid_dashed)
  obtain bs where bs: "those (map (\<lambda>i. parse_hex_byte (take 2 (drop (i * 2) (a @ b @ c @ d @ e)))) [0..<16]) = Some bs"
      "length bs = 16" "concat (map hex_byte bs) = map ascii_lower (a @ b @ c @ d @ e)"
    using hex_pairs [OF v(2), of 16] v(3-7) by auto
  have "uuidToBytes v = Some bs"
    using assms bs(1) dashed_uuid(2) [OF v(2-7)] v(1) by (simp add: uuidToBytes_def)
  moreover have "bytesToUuid bs = Some (map ascii_lower v)"
    using v(3-7) by (simp add: bytesToUuid_dashed bs dashed_def v(1) ascii_lower_def is_upper_def)
  ultimately show thesis using bs(2) that by blast
qed

lemma bytes_uuid:
  assumes "length bs = 16"
  obtains v where "bytesToUuid bs = Some v" "isControlId v" "uuidToBytes v = Some bs" "map ascii_lower v = v"
proof -
  let ?h = "concat (map hex_byte bs)"
  let ?v = "dashed (take 8 ?h) (take 4 (drop 8 ?h)) (take 4 (drop 12 ?h)) (take 4 (drop 16 ?h)) (drop 20 ?h)"
  have len: "length ?h = 32" using assms by simp
  have hex: "hex_text (take 8 ?h @ take 4 (drop 8 ?h) @ take 4 (drop 12 ?h) @ take 4 (drop 16 ?h) @ drop 20 ?h)"
    unfolding take_drop_parts by (rule hex_text_bytes)
  note d = dashed_uuid [OF hex]
  have id: "isControlId ?v" using d(1) len by (simp add: isControlId_def)
  have "uuidToBytes ?v = Some bs"
    using id d(2) len pairs_hex [of bs] assms by (simp add: uuidToBytes_def take_drop_parts)
  moreover have "bytesToUuid bs = Some ?v" using bytesToUuid_dashed [OF assms] by (simp add: Let_def)
  moreover from this obtain bs' where "uuidToBytes ?v = Some bs'" "bytesToUuid bs' = Some (map ascii_lower ?v)"
    using uuid_bytes [OF id] by blast
  ultimately show thesis using id that by (metis option.inject)
qed

subsection \<open>Frames survive the wire\<close>

definition frame_bytes :: "8 word \<Rightarrow> nat \<Rightarrow> bytes \<Rightarrow> nat \<Rightarrow> bytes \<Rightarrow> bytes" where
  "frame_bytes k flags rid sq p = SPCT_MAGIC @ [1, k] @ le16 flags @ rid @ le32 sq @ p"

lemma length_magic [simp]: "length SPCT_MAGIC = 4"
  by (simp add: SPCT_MAGIC_def)

lemma frame_bytes_fields:
  assumes "length rid = 16" "flags < 65536" "sq < 4294967296"
  shows "length (frame_bytes k flags rid sq p) = 28 + length p"
    and "take 4 (frame_bytes k flags rid sq p) = SPCT_MAGIC"
    and "frame_bytes k flags rid sq p ! 4 = 1" "frame_bytes k flags rid sq p ! 5 = k"
    and "get16 (frame_bytes k flags rid sq p) 6 = flags"
    and "take 16 (drop 8 (frame_bytes k flags rid sq p)) = rid"
    and "get32 (frame_bytes k flags rid sq p) 24 = sq"
    and "drop 28 (frame_bytes k flags rid sq p) = p"
  using assms le16_value [OF assms(2)] le32_value [OF assms(3)]
  by (simp_all add: frame_bytes_def get16_def get32_def nth_append)

lemma bytes_frame:
  assumes "28 \<le> length bs" "take 4 bs = SPCT_MAGIC" "bs ! 4 = 1"
  shows "bs = frame_bytes (bs ! 5) (get16 bs 6) (take 16 (drop 8 bs)) (get32 bs 24) (drop 28 bs)"
proof -
  have c: "i < 28 \<Longrightarrow> drop i bs = bs ! i # drop (Suc i) bs" for i
    using assms(1) by (simp add: Cons_nth_drop_Suc)
  have "bs = SPCT_MAGIC @ drop 4 bs" using append_take_drop_id [of 4 bs] assms(2) by simp
  also have "drop 4 bs = [1, bs ! 5, bs ! 6, bs ! 7] @ drop 8 bs"
    using c [of 4] c [of 5] c [of 6] c [of 7] assms(3) by simp
  also have "drop 8 bs = take 16 (drop 8 bs) @ drop 24 bs"
    using append_take_drop_id [of 16 "drop 8 bs"] by simp
  also have "drop 24 bs = [bs ! 24, bs ! 25, bs ! 26, bs ! 27] @ drop 28 bs"
    using c [of 24] c [of 25] c [of 26] c [of 27] by simp
  finally show ?thesis
    by (simp add: frame_bytes_def get16_def get32_def le16_bytes le32_bytes)
qed

lemmas spct_limits = SPCT_HEADER_BYTES_def SESSION_CTL_CHUNK_PAYLOAD_BYTES_def SESSION_CTL_VERSION_def

lemma encode_frame_bytes:
  "encodeSpctFrame f = Some bs \<longleftrightarrow>
   (\<exists>rid. uuidToBytes (f_requestId f) = Some rid \<and> 0 \<le> f_sequence f \<and> f_sequence f \<le> 0xffffffff \<and>
     f_payload f \<noteq> [] \<and> int (length (f_payload f)) \<le> 49152 \<and>
     bs = frame_bytes (if f_kind f = FReplay then 1 else 2) (if f_last f then 1 else 0) rid (nat (f_sequence f)) (f_payload f))"
  by (auto simp: encodeSpctFrame_def spct_limits safe_integer_def frame_bytes_def split: option.splits)

lemma decode_frame_bytes:
  "decodeSpctFrame bs = Some f \<longleftrightarrow>
   28 \<le> length bs \<and> length bs \<le> 49180 \<and> take 4 bs = SPCT_MAGIC \<and> bs ! 4 = 1 \<and> (bs ! 5 = 1 \<or> bs ! 5 = 2) \<and>
   get16 bs 6 < 2 \<and> bytesToUuid (take 16 (drop 8 bs)) = Some (f_requestId f) \<and>
   f_kind f = (if bs ! 5 = 1 then FReplay else FUpload) \<and> f_sequence f = int (get32 bs 24) \<and>
   f_last f = (get16 bs 6 = 1) \<and> f_payload f = drop 28 bs"
proof -
  have flag: "(get16 bs 6 div 2 \<noteq> 0) = (\<not> get16 bs 6 < 2)" by auto
  show ?thesis
    by (cases f) (auto simp: decodeSpctFrame_def spct_limits Let_def flag split: option.splits if_splits)
qed

lemma get32_less: "get32 bs i < 4294967296"
  using unat_byte_less [of "bs ! i"] unat_byte_less [of "bs ! (i + 1)"] unat_byte_less [of "bs ! (i + 2)"]
    unat_byte_less [of "bs ! (i + 3)"] by (simp add: get32_def)

text \<open>
  C11: Frames survive the wire in both directions. Every frame the encoder accepts decodes to the same
  frame, with its id in lower case; and every buffer the decoder accepts, unless its payload is empty,
  is exactly what encoding the decoded frame gives, so no two buffers mean the same frame.
\<close>

theorem spct_roundtrip:
  "(encodeSpctFrame f = Some bs \<longrightarrow>
      decodeSpctFrame bs = Some (f\<lparr>f_requestId := map ascii_lower (f_requestId f)\<rparr>)) \<and>
   (decodeSpctFrame bs = Some g \<and> f_payload g \<noteq> [] \<longrightarrow> encodeSpctFrame g = Some bs)"
proof (intro conjI impI)
  assume "encodeSpctFrame f = Some bs"
  then obtain rid where e: "uuidToBytes (f_requestId f) = Some rid" "0 \<le> f_sequence f" "f_sequence f \<le> 0xffffffff"
      "f_payload f \<noteq> []" "int (length (f_payload f)) \<le> 49152"
      "bs = frame_bytes (if f_kind f = FReplay then 1 else 2) (if f_last f then 1 else 0) rid (nat (f_sequence f)) (f_payload f)"
    by (auto simp: encode_frame_bytes)
  then have "isControlId (f_requestId f)" by (auto simp: uuidToBytes_def split: if_splits)
  then have rid: "length rid = 16" "bytesToUuid rid = Some (map ascii_lower (f_requestId f))"
    using e(1) uuid_bytes by (metis option.inject)+
  have "nat (f_sequence f) < 4294967296" using e(3) by simp
  note frame_bytes_fields [OF rid(1) _ this, of "if f_last f then 1 else 0" "if f_kind f = FReplay then 1 else 2" "f_payload f"]
  then show "decodeSpctFrame bs = Some (f\<lparr>f_requestId := map ascii_lower (f_requestId f)\<rparr>)"
    using e(2,5) rid(2) unfolding decode_frame_bytes e(6)
    by (cases f; cases "f_kind f") auto
next
  assume "decodeSpctFrame bs = Some g \<and> f_payload g \<noteq> []"
  then have d: "28 \<le> length bs" "length bs \<le> 49180" "take 4 bs = SPCT_MAGIC" "bs ! 4 = 1" "bs ! 5 = 1 \<or> bs ! 5 = 2"
      "get16 bs 6 < 2" "bytesToUuid (take 16 (drop 8 bs)) = Some (f_requestId g)" "f_payload g \<noteq> []"
    and g: "f_kind g = (if bs ! 5 = 1 then FReplay else FUpload)" "f_sequence g = int (get32 bs 24)"
      "f_last g = (get16 bs 6 = 1)" "f_payload g = drop 28 bs"
    unfolding decode_frame_bytes by blast+
  have "length (take 16 (drop 8 bs)) = 16" using d(1) by simp
  then have rid: "uuidToBytes (f_requestId g) = Some (take 16 (drop 8 bs))"
    using bytes_uuid d(7) by (metis option.inject)
  have "(if f_kind g = FReplay then 1 else 2) = bs ! 5" "(if f_last g then 1 else 0) = get16 bs 6"
    using d(5,6) g by auto
  then show "encodeSpctFrame g = Some bs"
    using rid g d(2,8) get32_less [of bs 24] bytes_frame [OF d(1,3,4)] by (auto simp: encode_frame_bytes)
qed

end
