(* ===== verification/Replay.thy ===== *)
theory Replay
  imports Session_Ctl
begin

section \<open>Streams on the control channel\<close>

text \<open>
  What the stream functions of \<open>ctl-codec.ts\<close> achieve: terminal input is cut into bounded chunks and
  nothing is lost, output after a checkpoint's anchor is delivered exactly once, and a replay is put
  together correctly from chunks in any order, whatever else arrives.
\<close>

subsection \<open>Input\<close>

lemma input_chunks_spec:
  "concat (input_chunks bs offset) = drop offset bs \<and>
   (\<forall>c \<in> set (input_chunks bs offset). c \<noteq> [] \<and> length c \<le> 16384) \<and>
   length (input_chunks bs offset) = (length bs - offset + 16383) div 16384"
proof (induction bs offset rule: input_chunks.induct)
  case (1 bs offset)
  show ?case
  proof (cases "offset < length bs")
    case True
    let ?n = "length bs - (offset + 16384)"
    have e: "input_chunks bs offset = take 16384 (drop offset bs) # input_chunks bs (offset + 16384)"
      using True by (simp add: input_chunks.simps [of bs offset] PTY_INPUT_CHUNK_BYTES_def)
    have IH: "concat (input_chunks bs (offset + 16384)) = drop (offset + 16384) bs"
        "\<forall>c \<in> set (input_chunks bs (offset + 16384)). c \<noteq> [] \<and> length c \<le> 16384"
        "length (input_chunks bs (offset + 16384)) = (?n + 16383) div 16384"
      using 1 [OF True] by (simp_all add: PTY_INPUT_CHUNK_BYTES_def)
    have "take 16384 (drop offset bs) @ drop (offset + 16384) bs = drop offset bs"
      using append_take_drop_id [of 16384 "drop offset bs"] by (simp add: add.commute)
    moreover have "Suc ((?n + 16383) div 16384) = (length bs - offset + 16383) div 16384"
    proof (cases "length bs \<le> offset + 16384")
      case True
      then have "(length bs - offset + 16383) div 16384 = 1"
        using \<open>offset < length bs\<close> by (intro div_nat_eqI) auto
      with True show ?thesis by simp
    next
      case False
      then have "length bs - offset + 16383 = ?n + 16383 + 16384" by linarith
      moreover have "(?n + 16383 + 16384) div 16384 = (?n + 16383) div 16384 + 1" by (rule div_add_self2) simp
      ultimately show ?thesis by (simp only: Suc_eq_plus1)
    qed
    ultimately show ?thesis using IH True by (simp add: e)
  next
    case False
    then show ?thesis by (simp add: input_chunks.simps [of bs offset])
  qed
qed

text \<open>
  C40: Cutting terminal input into chunks ends and loses nothing: the loop makes exactly as many chunks
  as the input needs, their concatenation is the input, and each has between 1 and 16384 bytes.
\<close>

theorem chunkPtyInput_exact:
  "length (chunkPtyInput bs) = (length bs + 16383) div 16384 \<and> concat (chunkPtyInput bs) = bs \<and>
   list_all (\<lambda>c. 0 < length c \<and> length c \<le> 16384) (chunkPtyInput bs)"
  using input_chunks_spec [of bs 0] by (simp add: chunkPtyInput_def list_all_iff)

subsection \<open>Output after an anchor\<close>

text \<open>What is written when the chunks of a stream arrive, the first one starting at \<open>start\<close>.\<close>

fun deliver :: "int \<Rightarrow> int option \<Rightarrow> bytes list \<Rightarrow> bytes" where
  "deliver start anchor [] = []"
| "deliver start anchor (c # cs) =
     (let r = slicePtyChunkAfterAnchor c (start + int (length c)) anchor
      in (case as_bytes r of None \<Rightarrow> [] | Some b \<Rightarrow> b) @ deliver (start + int (length c)) (as_anchor r) cs)"

lemma deliver_None: "deliver start None cs = concat cs"
  by (induction cs arbitrary: start) (simp_all add: slicePtyChunkAfterAnchor_def)

lemma deliver_anchored: "deliver start (Some a) cs = drop (nat (a - start)) (concat cs)"
proof (induction cs arbitrary: start)
  case (Cons c cs)
  let ?e = "start + int (length c)"
  consider "?e < a" | "?e = a" | "a < ?e" by linarith
  then show ?case
  proof cases
    case 1
    have "length c \<le> nat (a - start)" "nat (a - start) - length c = nat (a - ?e)" using 1 by linarith+
    with 1 show ?thesis using Cons.IH [of ?e] by (simp add: slicePtyChunkAfterAnchor_def)
  next
    case 2
    then have "nat (a - start) = length c" by linarith
    with 2 show ?thesis by (simp add: slicePtyChunkAfterAnchor_def deliver_None)
  next
    case 3
    then have "nat (a - start) \<le> length c" by linarith
    with 3 show ?thesis by (simp add: slicePtyChunkAfterAnchor_def deliver_None Let_def)
  qed
qed simp

text \<open>
  No byte is lost or repeated at a checkpoint. When a stream's chunks arrive in order, what the
  slices deliver after an anchor is exactly the stream from the anchor on, wherever the anchor falls
  inside, between, before or behind the chunks; without an anchor it is the whole stream.
\<close>

theorem anchored_stream_exact:
  "deliver start (Some a) cs = drop (nat (a - start)) (concat cs) \<and> deliver start None cs = concat cs"
  by (simp add: deliver_anchored deliver_None)

subsection \<open>Any frames\<close>

lemmas replay_limits = SESSION_CTL_MAX_REPLAY_BYTES_def SESSION_CTL_CHUNK_PAYLOAD_BYTES_def
  SESSION_CTL_MIN_REPLAY_CHUNK_PAYLOAD_BYTES_def

abbreviation feed :: "assembler \<Rightarrow> spct_frame list \<Rightarrow> assembler" where
  "feed \<equiv> foldl (\<lambda>a f. fst (accept a f))"

definition held_bytes :: "assembler \<Rightarrow> int" where
  "held_bytes a = sum_list (map (\<lambda>e. int (length (snd e))) (ra_chunks a))"

definition wanted :: "ctl_response \<Rightarrow> spct_frame \<Rightarrow> bool" where
  "wanted r f \<longleftrightarrow> f_kind f = FReplay \<and> Some (f_requestId f) = cr_request_id r"

text \<open>
  What holds of an assembler however it was fed: every chunk it holds is the payload of a wanted frame
  under its own sequence number, and it holds no more than the limit.
\<close>

definition assembler_inv :: "ctl_response \<Rightarrow> spct_frame list \<Rightarrow> assembler \<Rightarrow> bool" where
  "assembler_inv r fs a \<longleftrightarrow>
     ra_response a = r \<and> distinct (map fst (ra_chunks a)) \<and>
     (\<forall>e \<in> set (ra_chunks a). \<exists>f \<in> set fs. wanted r f \<and> e = (f_sequence f, f_payload f)) \<and>
     held_bytes a \<le> ra_bufferedBytes a \<and> held_bytes a \<le> SESSION_CTL_MAX_REPLAY_BYTES"

text \<open>The five ways \<open>accept\<close> ends.\<close>

lemma accept_cases:
  obtains (refused) e where "accept a f = (a, ReplayInvalid e)"
  | (overflow) sz where "accept a f =
      (a\<lparr>ra_chunkPayloadBytes := sz, ra_bufferedBytes := ra_bufferedBytes a + int (length (f_payload f))\<rparr>, ReplayInvalid TooLarge)"
  | (stored) T n sz res where "accept_metadata a f = Some (T, n)"
    "accept a f =
      (a\<lparr>ra_chunkPayloadBytes := sz, ra_bufferedBytes := ra_bufferedBytes a + int (length (f_payload f)),
         ra_chunks := ra_chunks a @ [(f_sequence f, f_payload f)]\<rparr>, res)"
    "ra_bufferedBytes a + int (length (f_payload f)) \<le> SESSION_CTL_MAX_REPLAY_BYTES"
    "\<And>bs. res = ReplayComplete bs \<Longrightarrow>
       int (length (ra_chunks a @ [(f_sequence f, f_payload f)])) = n \<and> int (length bs) = T \<and>
       gather (ra_chunks a @ [(f_sequence f, f_payload f)]) T 0 [] (nat n) = Some bs"
proof (cases "accept_metadata a f")
  case None
  then show thesis by (intro refused [of MetadataMismatch]) (simp add: accept_def)
next
  case (Some m)
  obtain T n where m: "m = (T, n)" by (cases m)
  let ?len = "int (length (f_payload f))"
  show thesis
  proof (cases "f_last f \<noteq> (f_sequence f = n - 1) \<or> ?len = 0 \<or> ?len > SESSION_CTL_CHUNK_PAYLOAD_BYTES")
    case True
    then show thesis using Some m by (intro refused [of ChunkOutOfRange]) (auto simp: accept_def Let_def)
  next
    case ok: False
    show thesis
    proof (cases "accept_size a f T n")
      case (Inl e)
      then show thesis using Some m ok by (intro refused [of e]) (auto simp: accept_def Let_def)
    next
      case (Inr sz)
      show thesis
      proof (cases "ra_bufferedBytes a + ?len > SESSION_CTL_MAX_REPLAY_BYTES")
        case True
        then show thesis using Some m ok Inr by (intro overflow [of sz]) (auto simp: accept_def Let_def)
      next
        case False
        let ?held = "ra_chunks a @ [(f_sequence f, f_payload f)]"
        let ?res = "if int (length ?held) \<noteq> n then ReplayPending
          else case gather ?held T 0 [] (nat n) of None \<Rightarrow> ReplayInvalid MissingChunk
            | Some bs \<Rightarrow> if int (length bs) = T then ReplayComplete bs else ReplayInvalid ByteCountMismatch"
        show thesis
          by (rule stored [of T n sz ?res])
             (use Some m ok Inr False in \<open>auto simp: accept_def Let_def split: option.splits if_splits\<close>)
      qed
    qed
  qed
qed

lemma accept_inv:
  assumes "assembler_inv r fs a"
  shows "assembler_inv r (fs @ [f]) (fst (accept a f))"
proof (cases rule: accept_cases [of a f])
  case (refused e)
  then show ?thesis using assms by (auto simp: assembler_inv_def)
next
  case (overflow sz)
  then show ?thesis using assms by (auto simp: assembler_inv_def held_bytes_def)
next
  case (stored T n sz res)
  have m: "wanted r f" "f_sequence f \<notin> fst ` set (ra_chunks a)"
    using stored(1) assms
    by (auto simp: accept_metadata_def assembler_inv_def wanted_def image_iff split: option.splits if_splits)
  then show ?thesis
    using assms stored(3) unfolding stored(2)
    by (auto simp: assembler_inv_def held_bytes_def)
qed

lemma feed_inv: "assembler_inv r fs (feed (new_assembler r) fs)"
proof (induction fs rule: rev_induct)
  case Nil
  show ?case by (simp add: assembler_inv_def new_assembler_def held_bytes_def replay_limits)
next
  case (snoc f fs)
  then show ?case using accept_inv by simp
qed

lemma gather_Some:
  "gather held T k out n = Some bs \<Longrightarrow>
   \<exists>cs. length cs = n \<and> (\<forall>i < n. map_of held (k + int i) = Some (cs ! i)) \<and> bs = out @ concat cs"
proof (induction n arbitrary: k out)
  case (Suc n)
  then obtain c where c: "map_of held k = Some c" "gather held T (k + 1) (out @ c) n = Some bs"
    by (auto split: option.splits if_splits)
  from Suc.IH [OF c(2)] obtain cs where
    cs: "length cs = n" "\<forall>i < n. map_of held (k + 1 + int i) = Some (cs ! i)" "bs = (out @ c) @ concat cs"
    by blast
  have "map_of held (k + int i) = Some ((c # cs) ! i)" if "i < Suc n" for i
    using that c(1) cs(2) by (cases i) (auto simp: algebra_simps)
  with cs show ?case by (intro exI [of _ "c # cs"]) simp
qed simp

text \<open>
  C10: A completed replay is what was sent, whoever else writes to the channel. Whatever frames were
  fed to an assembler before, if the next one completes the replay then the result has exactly the
  announced number of bytes and is the concatenation of the payloads of frames with the response's id
  and the sequence numbers 0, 1, 2 and so on up to the announced count. At no time does the assembler
  hold more than 12 MiB.
\<close>

theorem replay_sound:
  "held_bytes (feed (new_assembler r) fs) \<le> 12 * 1024 * 1024 \<and>
   (snd (accept (feed (new_assembler r) fs) f) = ReplayComplete bs \<longrightarrow>
     js_safe (cr_total_bytes r) = Some (int (length bs)) \<and>
     (\<exists>gs. js_safe (cr_chunks r) = Some (int (length gs)) \<and> set gs \<subseteq> set (fs @ [f]) \<and> list_all (wanted r) gs \<and>
        map f_sequence gs = map int [0..<length gs] \<and> bs = concat (map f_payload gs)))"
proof -
  let ?a = "feed (new_assembler r) fs"
  have inv: "assembler_inv r fs ?a" by (rule feed_inv)
  then have "held_bytes ?a \<le> 12 * 1024 * 1024" by (simp add: assembler_inv_def replay_limits)
  moreover have inv': "assembler_inv r (fs @ [f]) (fst (accept ?a f))" by (rule accept_inv [OF inv])
  have "js_safe (cr_total_bytes r) = Some (int (length bs)) \<and>
     (\<exists>gs. js_safe (cr_chunks r) = Some (int (length gs)) \<and> set gs \<subseteq> set (fs @ [f]) \<and> list_all (wanted r) gs \<and>
        map f_sequence gs = map int [0..<length gs] \<and> bs = concat (map f_payload gs))"
    if fin: "snd (accept ?a f) = ReplayComplete bs"
  proof (cases rule: accept_cases [of ?a f])
    case (stored T n sz res)
    let ?held = "ra_chunks ?a @ [(f_sequence f, f_payload f)]"
    have g: "int (length ?held) = n" "int (length bs) = T" "gather ?held T 0 [] (nat n) = Some bs"
      using stored(4) [of bs] fin stored(2) by simp_all
    have m: "js_safe (cr_total_bytes r) = Some T" "js_safe (cr_chunks r) = Some n"
      using stored(1) inv by (auto simp: accept_metadata_def assembler_inv_def split: option.splits if_splits)
    from gather_Some [OF g(3)] obtain cs where
      cs: "length cs = nat n" "\<forall>i < nat n. map_of ?held (int i) = Some (cs ! i)" "bs = concat cs" by auto
    have "\<exists>h \<in> set (fs @ [f]). wanted r h \<and> f_sequence h = int i \<and> f_payload h = cs ! i" if "i < nat n" for i
    proof -
      have "(int i, cs ! i) \<in> set ?held" using cs(2) that by (meson map_of_SomeD)
      then show ?thesis using inv' stored(2) by (fastforce simp: assembler_inv_def)
    qed
    then obtain h where h: "\<And>i. i < nat n \<Longrightarrow>
        h i \<in> set (fs @ [f]) \<and> wanted r (h i) \<and> f_sequence (h i) = int i \<and> f_payload (h i) = cs ! i"
      by metis
    let ?gs = "map h [0..<nat n]"
    have "map f_payload ?gs = map (\<lambda>i. cs ! i) [0..<nat n]" using h by simp
    then have "bs = concat (map f_payload ?gs)" using cs(1,3) map_nth [of cs] by (metis (no_types))
    moreover have "js_safe (cr_chunks r) = Some (int (length ?gs))" "js_safe (cr_total_bytes r) = Some (int (length bs))"
      using m g(1,2) by simp_all
    moreover have "set ?gs \<subseteq> set (fs @ [f])" using h by (simp add: image_subset_iff)
    moreover have "list_all (wanted r) ?gs" using h by (simp add: list_all_iff)
    moreover have "map f_sequence ?gs = map int [0..<length ?gs]" using h by simp
    ultimately show ?thesis by blast
  qed (use fin in auto)
  ultimately show ?thesis by blast
qed

subsection \<open>Chunks in any order\<close>

text \<open>
  How the daemon frames a replay: chunks of one size, the last one shorter if need be.
\<close>

definition framed :: "bytes \<Rightarrow> nat \<Rightarrow> nat \<Rightarrow> bool" where
  "framed bs c n \<longleftrightarrow>
     1024 \<le> c \<and> c \<le> 48 * 1024 \<and> length bs \<le> 12 * 1024 * 1024 \<and> (n - 1) * c < length bs \<and> length bs \<le> n * c"

definition chunk :: "bytes \<Rightarrow> nat \<Rightarrow> nat \<Rightarrow> bytes" where
  "chunk bs c i = take c (drop (i * c) bs)"

definition replay_frame :: "utext \<Rightarrow> bytes \<Rightarrow> nat \<Rightarrow> nat \<Rightarrow> nat \<Rightarrow> spct_frame" where
  "replay_frame rid bs c n i =
     \<lparr>f_kind = FReplay, f_requestId = rid, f_sequence = int i, f_last = (i = n - 1), f_payload = chunk bs c i\<rparr>"

definition replay_response :: "utext \<Rightarrow> bytes \<Rightarrow> nat \<Rightarrow> ctl_response" where
  "replay_response rid bs n =
     \<lparr>cr_request_id = Some rid, cr_total_bytes = JNum (of_nat (length bs)), cr_chunks = JNum (of_nat n)\<rparr>"

text \<open>The assembler after the chunks with the numbers in \<open>is\<close>.\<close>

definition after_chunks :: "utext \<Rightarrow> bytes \<Rightarrow> nat \<Rightarrow> nat \<Rightarrow> nat list \<Rightarrow> assembler" where
  "after_chunks rid bs c n ks =
     \<lparr>ra_chunks = map (\<lambda>i. (int i, chunk bs c i)) ks, ra_response = replay_response rid bs n,
      ra_bufferedBytes = int (sum_list (map (\<lambda>i. length (chunk bs c i)) ks)),
      ra_chunkPayloadBytes = (if \<exists>i \<in> set ks. i \<noteq> n - 1 then Some (int c) else None)\<rparr>"

lemma framed_pos: "framed bs c n \<Longrightarrow> 0 < n \<and> 0 < length bs"
  by (cases n) (auto simp: framed_def)

lemma chunk_length:
  assumes "framed bs c n" "i < n"
  shows "int (length (chunk bs c i)) = (if i = n - 1 then int (length bs) - int c * (int n - 1) else int c)"
    and "chunk bs c i \<noteq> []" "length (chunk bs c i) \<le> c"
proof -
  have n: "int n - 1 = int (n - 1)" using assms(2) by simp
  have last: "(n - 1) * c < length bs" "length bs - (n - 1) * c \<le> c"
    using assms framed_pos [OF assms(1)] by (auto simp: framed_def diff_mult_distrib)
  have inner: "(i + 1) * c \<le> length bs" if "i \<noteq> n - 1"
  proof -
    have "(i + 1) * c \<le> (n - 1) * c" using that assms(2) by (intro mult_le_mono1) linarith
    then show ?thesis using last by linarith
  qed
  show "length (chunk bs c i) \<le> c" by (simp add: chunk_def)
  have c: "0 < c" using assms(1) by (simp add: framed_def)
  have "i * c < length bs"
  proof (cases "i = n - 1")
    case True
    then show ?thesis using last(1) by (simp only:)
  next
    case False
    have "(i + 1) * c = i * c + c" by simp
    then show ?thesis using inner [OF False] c by linarith
  qed
  with c show "chunk bs c i \<noteq> []" by (simp add: chunk_def)
  show "int (length (chunk bs c i)) = (if i = n - 1 then int (length bs) - int c * (int n - 1) else int c)"
  proof (cases "i = n - 1")
    case True
    then have "length (chunk bs c i) = length bs - (n - 1) * c" using last(2) unfolding chunk_def by simp
    then have "int (length (chunk bs c i)) = int (length bs) - int ((n - 1) * c)" using last(1) by linarith
    then show ?thesis by (simp only: n if_P [OF True] of_nat_mult mult.commute)
  next
    case False
    have "i * c + c \<le> length bs" using inner [OF False] by simp
    then have "length (chunk bs c i) = c" by (simp add: chunk_def)
    with False show ?thesis by simp
  qed
qed

lemma concat_chunks: "concat (map (chunk bs c) [0..<n]) = take (n * c) bs"
  by (induction n) (simp_all add: chunk_def take_add add.commute [of c])

lemma sum_chunks:
  assumes "framed bs c n" "distinct ks" "set ks \<subseteq> {0..<n}"
  shows "sum_list (map (\<lambda>i. length (chunk bs c i)) ks) \<le> length bs"
proof -
  have "sum_list (map (\<lambda>i. length (chunk bs c i)) ks) = (\<Sum>i \<in> set ks. length (chunk bs c i))"
    using assms(2) by (simp add: sum_list_distinct_conv_sum_set)
  also have "\<dots> \<le> (\<Sum>i \<in> {0..<n}. length (chunk bs c i))"
    using assms(3) by (intro sum_mono2) auto
  also have "\<dots> = length (concat (map (chunk bs c) [0..<n]))"
    by (simp add: length_concat sum_list_distinct_conv_sum_set comp_def interv_sum_list_conv_sum_set_nat)
  also have "\<dots> \<le> length bs" by (simp add: concat_chunks)
  finally show ?thesis .
qed

lemma map_of_chunks:
  "map_of (map (\<lambda>i. (int i, chunk bs c i)) ks) (int k) = (if k \<in> set ks then Some (chunk bs c k) else None)"
  by (induction ks) auto

lemma gather_chunks:
  assumes "framed bs c n" "set ks = {0..<n}" "k + m = n"
  shows "gather (map (\<lambda>i. (int i, chunk bs c i)) ks) (int (length bs)) (int k) (concat (map (chunk bs c) [0..<k])) m = Some bs"
  using assms(3)
proof (induction m arbitrary: k)
  case 0
  then show ?case using assms(1) by (simp add: concat_chunks framed_def)
next
  case (Suc m)
  have k: "k \<in> set ks" using Suc.prems assms(2) by simp
  have e: "concat (map (chunk bs c) [0..<k]) @ chunk bs c k = concat (map (chunk bs c) [0..<k + 1])" by simp
  have "length (concat (map (chunk bs c) [0..<k]) @ chunk bs c k) \<le> length bs"
    unfolding e unfolding concat_chunks by simp
  then have "length (concat (map (chunk bs c) [0..<k])) + length (chunk bs c k) \<le> length bs"
    by (simp only: length_append)
  moreover have "gather (map (\<lambda>i. (int i, chunk bs c i)) ks) (int (length bs)) (int k + 1)
      (concat (map (chunk bs c) [0..<k]) @ chunk bs c k) m = Some bs"
    unfolding e using Suc.IH [of "k + 1"] Suc.prems by (simp add: add.commute)
  ultimately show ?case using k by (simp add: map_of_chunks)
qed

text \<open>The same bounds over the integers, with the number of the last chunk.\<close>

lemma framed_int:
  assumes "framed bs c n"
  obtains m where "n = Suc m" "int c * int m < int (length bs)" "int (length bs) \<le> int c * (int m + 1)"
    "1024 \<le> int c" "int c \<le> 49152" "int (length bs) \<le> 12582912" "1024 * int m \<le> int c * int m"
    "int c * (int m + 1) \<le> 49152 * (int m + 1)"
proof -
  obtain m where m: "n = Suc m" using framed_pos [OF assms] by (cases n) auto
  have f: "m * c < length bs" "length bs \<le> (m + 1) * c" "1024 \<le> c" "c \<le> 49152" "length bs \<le> 12582912"
    using assms m by (simp_all add: framed_def)
  have "int (m * c) < int (length bs)" "int (length bs) \<le> int ((m + 1) * c)" using f(1,2) by linarith+
  then have "int c * int m < int (length bs)" "int (length bs) \<le> int c * (int m + 1)"
    by (simp_all add: algebra_simps)
  moreover have "1024 \<le> int c" "int c \<le> 49152" "int (length bs) \<le> 12582912" using f by simp_all
  moreover from this have "1024 * int m \<le> int c * int m" "int c * (int m + 1) \<le> 49152 * (int m + 1)"
    by (intro mult_right_mono; simp)+
  ultimately show thesis using m that by blast
qed

lemma plausible_framed:
  assumes "framed bs c n"
  shows "replayChunkCountIsPlausible (int (length bs)) (int n)"
proof -
  have "0 < length bs" using framed_pos [OF assms] by simp
  then show ?thesis
    by (rule_tac framed_int [OF assms])
       (auto simp: replayChunkCountIsPlausible_def replay_limits algebra_simps)
qed

lemma js_safe_nat: "int m \<le> 2 ^ 53 - 1 \<Longrightarrow> js_safe (JNum (of_nat m)) = Some (int m)"
  using js_integer_of_int [of "int m"] by (simp add: js_safe_def safe_integer_def)

lemma accept_metadata_framed:
  assumes "framed bs c n" "i < n" "i \<notin> set ks"
  shows "accept_metadata (after_chunks rid bs c n ks) (replay_frame rid bs c n i) = Some (int (length bs), int n)"
proof -
  have "int (length bs) \<le> 12582912 \<and> int n \<le> 12582912"
    by (rule framed_int [OF assms(1)]) linarith
  then show ?thesis
    using assms(2,3) plausible_framed [OF assms(1)]
    by (simp add: accept_metadata_def after_chunks_def replay_frame_def replay_response_def js_safe_nat
        map_of_chunks replay_limits)
qed

lemma accept_size_first:
  assumes "f_sequence f \<noteq> N - 1" "ra_chunkPayloadBytes a = None"
    and "\<not> int (length (f_payload f)) < 1024" "\<not> T \<le> int (length (f_payload f)) * (N - 1)"
    and "\<not> int (length (f_payload f)) * N < T"
    and "\<And>held. map_of (ra_chunks a) (N - 1) = Some held \<Longrightarrow> int (length held) = T - int (length (f_payload f)) * (N - 1)"
  shows "accept_size a f T N = Inr (Some (int (length (f_payload f))))"
  using assms by (cases "map_of (ra_chunks a) (N - 1)") (auto simp: accept_size_def Let_def replay_limits)

lemma accept_size_framed:
  assumes "framed bs c n" "i < n" "i \<notin> set ks" "set ks \<subseteq> {0..<n}"
  shows "accept_size (after_chunks rid bs c n ks) (replay_frame rid bs c n i) (int (length bs)) (int n) =
    Inr (if \<exists>k \<in> set (ks @ [i]). k \<noteq> n - 1 then Some (int c) else None)"
proof -
  obtain m where m: "n = Suc m" "int c * int m < int (length bs)" "int (length bs) \<le> int c * (int m + 1)" "1024 \<le> int c"
    using framed_int [OF assms(1)] by metis
  have len: "int (length (chunk bs c m)) = int (length bs) - int c * int m"
      "i \<noteq> m \<Longrightarrow> int (length (chunk bs c i)) = int c"
    using chunk_length(1) [OF assms(1), of m] chunk_length(1) [OF assms(1,2)] m(1) by simp_all
  show ?thesis
  proof (cases "i = m")
    case True
    have "m = 0 \<Longrightarrow> ks = []" using assms(3,4) m(1) True by (cases ks) auto
    moreover have "(\<exists>k \<in> set ks. k \<noteq> m) \<or> ks = []" using assms(3) True by (cases ks) auto
    ultimately show ?thesis
      using True len(1) m(1)
      by (auto simp: accept_size_def after_chunks_def replay_frame_def Let_def)
  next
    case False
    show ?thesis
    proof (cases "\<exists>k \<in> set ks. k \<noteq> m")
      case True
      with False len(2) m(1) show ?thesis
        by (simp add: accept_size_def after_chunks_def replay_frame_def Let_def)
    next
      case none: False
      have "\<not> int c < 1024" "\<not> int (length bs) \<le> int c * int m" "\<not> int c * int n < int (length bs)"
        using m by (simp_all add: add.commute)
      moreover have nm: "int n - 1 = int m" "n - 1 = m" using m(1) by simp_all
      moreover have "ra_chunkPayloadBytes (after_chunks rid bs c n ks) = None"
        using none unfolding after_chunks_def nm by simp
      moreover have "map_of (ra_chunks (after_chunks rid bs c n ks)) (int m) = (if m \<in> set ks then Some (chunk bs c m) else None)"
        by (simp add: after_chunks_def map_of_chunks)
      moreover have "f_sequence (replay_frame rid bs c n i) = int i" "f_payload (replay_frame rid bs c n i) = chunk bs c i"
        by (simp_all add: replay_frame_def)
      ultimately have "accept_size (after_chunks rid bs c n ks) (replay_frame rid bs c n i) (int (length bs)) (int n) = Inr (Some (int c))"
        using len False accept_size_first [of "replay_frame rid bs c n i" "int n" "after_chunks rid bs c n ks" "int (length bs)"]
        by (simp split: if_splits)
      then show ?thesis using False nm(2) by simp
    qed
  qed
qed

lemma accept_framed:
  assumes "framed bs c n" "distinct (ks @ [i])" "set (ks @ [i]) \<subseteq> {0..<n}"
  shows "accept (after_chunks rid bs c n ks) (replay_frame rid bs c n i) =
    (after_chunks rid bs c n (ks @ [i]), if length (ks @ [i]) = n then ReplayComplete bs else ReplayPending)"
proof -
  have i: "i < n" "i \<notin> set ks" "set ks \<subseteq> {0..<n}" using assms(2,3) by auto
  let ?a = "after_chunks rid bs c n ks" and ?f = "replay_frame rid bs c n i"
  have len: "int (length (f_payload ?f)) \<noteq> 0" "int (length (f_payload ?f)) \<le> SESSION_CTL_CHUNK_PAYLOAD_BYTES"
    using chunk_length(2,3) [OF assms(1) i(1)] assms(1) by (auto simp: replay_frame_def framed_def replay_limits)
  have flag: "f_last ?f = (f_sequence ?f = int n - 1)" using i(1) by (auto simp: replay_frame_def)
  have "sum_list (map (\<lambda>i. length (chunk bs c i)) (ks @ [i])) \<le> length bs"
    using sum_chunks [OF assms] .
  then have buf: "ra_bufferedBytes ?a + int (length (f_payload ?f)) \<le> SESSION_CTL_MAX_REPLAY_BYTES"
    using assms(1) by (simp add: after_chunks_def replay_frame_def framed_def replay_limits)
  have a2: "?a\<lparr>ra_chunkPayloadBytes := if \<exists>k \<in> set (ks @ [i]). k \<noteq> n - 1 then Some (int c) else None,
      ra_bufferedBytes := ra_bufferedBytes ?a + int (length (f_payload ?f)),
      ra_chunks := ra_chunks ?a @ [(f_sequence ?f, f_payload ?f)]\<rparr> = after_chunks rid bs c n (ks @ [i])"
    by (simp add: after_chunks_def replay_frame_def)
  have gat: "gather (ra_chunks (after_chunks rid bs c n (ks @ [i]))) (int (length bs)) 0 [] (nat (int n)) = Some bs"
    if "length (ks @ [i]) = n"
  proof -
    have "set (ks @ [i]) = {0..<n}"
      using assms(2,3) that by (metis card_atLeastLessThan card_subset_eq diff_zero distinct_card finite_atLeastLessThan)
    from gather_chunks [OF assms(1) this, of 0 n] show ?thesis by (simp add: after_chunks_def)
  qed
  show ?thesis
    unfolding accept_def accept_metadata_framed [OF assms(1) i(1,2)] option.case prod.case Let_def
      accept_size_framed [OF assms(1) i] sum.case
    using len flag buf gat a2 by (auto simp: after_chunks_def)
qed

lemma feed_framed:
  assumes "framed bs c n" "distinct ks" "set ks \<subseteq> {0..<n}"
  shows "feed (new_assembler (replay_response rid bs n)) (map (replay_frame rid bs c n) ks) = after_chunks rid bs c n ks"
  using assms(2,3)
proof (induction ks rule: rev_induct)
  case Nil
  show ?case by (simp add: new_assembler_def after_chunks_def)
next
  case (snoc i ks)
  then show ?case using accept_framed [OF assms(1) snoc.prems, of rid] by simp
qed

text \<open>
  A replay completes in any order. However the daemon cuts a replay into chunks of one accepted
  size, and in whatever order each chunk arrives once, every chunk but the last to arrive is taken as
  pending and the last one completes the replay with exactly the bytes that were sent.
\<close>

theorem replay_any_order:
  assumes "1024 \<le> c" "c \<le> 48 * 1024" "length bs \<le> 12 * 1024 * 1024" "(n - 1) * c < length bs" "length bs \<le> n * c"
    and "distinct (ks @ [i])" "set (ks @ [i]) = {0..<n}"
  shows "snd (accept (feed (new_assembler (replay_response rid bs n)) (map (replay_frame rid bs c n) ks))
      (replay_frame rid bs c n i)) = ReplayComplete bs \<and>
    (\<forall>as k bs'. ks = as @ k # bs' \<longrightarrow>
      snd (accept (feed (new_assembler (replay_response rid bs n)) (map (replay_frame rid bs c n) as))
        (replay_frame rid bs c n k)) = ReplayPending)"
proof -
  have f: "framed bs c n" using assms(1-5) by (simp add: framed_def)
  have len: "length (ks @ [i]) = n" using distinct_card [OF assms(6)] assms(7) by simp
  have "snd (accept (feed (new_assembler (replay_response rid bs n)) (map (replay_frame rid bs c n) ks))
      (replay_frame rid bs c n i)) = ReplayComplete bs"
  proof -
    have "set ks \<subseteq> {0..<n}" "distinct ks" "set (ks @ [i]) \<subseteq> {0..<n}" using assms(6,7) by auto
    then show ?thesis using feed_framed [OF f, of ks rid] accept_framed [OF f assms(6), of rid] len by simp
  qed
  moreover have "snd (accept (feed (new_assembler (replay_response rid bs n)) (map (replay_frame rid bs c n) as))
      (replay_frame rid bs c n k)) = ReplayPending" if ks: "ks = as @ k # bs'" for as k bs'
  proof -
    have "distinct (as @ [k])" "set (as @ [k]) \<subseteq> {0..<n}" "length (as @ [k]) \<noteq> n"
      using assms(6,7) len ks by auto
    then show ?thesis using feed_framed [OF f, of as rid] accept_framed [OF f, of as k rid] by auto
  qed
  ultimately show ?thesis by blast
qed

subsection \<open>Witnesses\<close>

definition some_id :: utext where
  "some_id = u ''01234567-89ab-cdef-0123-456789abcdef''"

lemma some_id_control: "isControlId some_id" "map ascii_lower some_id = some_id"
  by (simp_all add: some_id_def isControlId_def uuid_shape_def is_hex_def is_digit_def ascii_lower_def is_upper_def)

definition some_frame :: spct_frame where
  "some_frame = \<lparr>f_kind = FUpload, f_requestId = some_id, f_sequence = 7, f_last = True, f_payload = [1, 2, 3]\<rparr>"

theorem spct_roundtrip_witness:
  "\<exists>bs. encodeSpctFrame some_frame = Some bs \<and> decodeSpctFrame bs = Some some_frame"
proof -
  obtain rid where "uuidToBytes some_id = Some rid" using uuid_bytes [OF some_id_control(1)] by blast
  then obtain bs where "encodeSpctFrame some_frame = Some bs"
    by (simp add: encode_frame_bytes some_frame_def)
  with spct_roundtrip [of some_frame bs some_frame] show ?thesis
    by (auto simp: some_frame_def some_id_control(2))
qed

theorem replay_any_order_witness:
  "snd (accept (feed (new_assembler (replay_response some_id (replicate 1500 5) 2)) [replay_frame some_id (replicate 1500 5) 1024 2 1])
     (replay_frame some_id (replicate 1500 5) 1024 2 0)) = ReplayComplete (replicate 1500 5)"
proof -
  have "set ([1] @ [0]) = {0..<2::nat}" by auto
  with replay_any_order [of 1024 "replicate 1500 5" 2 "[1]" 0 some_id] show ?thesis by simp
qed

theorem replay_sound_witness:
  "js_safe (cr_total_bytes (replay_response some_id (replicate 9 5) 1)) = Some 9"
proof -
  have "snd (accept (feed (new_assembler (replay_response some_id (replicate 9 5) 1)) [])
      (replay_frame some_id (replicate 9 5) 1024 1 0)) = ReplayComplete (replicate 9 5)"
    using feed_framed [of "replicate 9 5" 1024 1 "[]" some_id] accept_framed [of "replicate 9 5" 1024 1 "[]" 0 some_id]
    by (simp add: framed_def)
  with replay_sound [of "replay_response some_id (replicate 9 5) 1" "[]" "replay_frame some_id (replicate 9 5) 1024 1 0" "replicate 9 5"]
  show ?thesis by simp
qed

end
