(* ===== verification/Web_Ctl.thy ===== *)
theory Web_Ctl
  imports Replay
begin

section \<open>The web client's control channel\<close>

text \<open>
  \<open>web/src/lib/session-ctl.ts\<close>, the functions on messages: the browser's own implementation of the
  channel that \<open>Session_Ctl\<close> models for the phone. Both talk to the same daemon, so the lemmas below
  relate the two clients, function by function. Names that both files use carry the suffix \<open>_w\<close> here.

  As there, a string of a text message is the list of its UTF-8 bytes, an id in a frame a list of code
  units, and \<open>JSON.parse\<close> and \<open>JSON.stringify\<close> are arguments.
\<close>

subsection \<open>Limits\<close>

definition SESSION_CTL_MAX_REQUEST_BYTES :: nat where "SESSION_CTL_MAX_REQUEST_BYTES = 16 * 1024"

definition SESSION_CTL_MAX_REPLAY_BYTES_w :: int where "SESSION_CTL_MAX_REPLAY_BYTES_w = 12 * 1024 * 1024"

definition SESSION_CTL_CHUNK_PAYLOAD_BYTES_w :: int where "SESSION_CTL_CHUNK_PAYLOAD_BYTES_w = 48 * 1024"

definition SESSION_CTL_MIN_REPLAY_CHUNK_PAYLOAD_BYTES_w :: int where
  "SESSION_CTL_MIN_REPLAY_CHUNK_PAYLOAD_BYTES_w = 1024"

definition SESSION_CTL_MAX_REPLAY_CHUNKS :: int where
  "SESSION_CTL_MAX_REPLAY_CHUNKS =
     ceil_div SESSION_CTL_MAX_REPLAY_BYTES_w SESSION_CTL_MIN_REPLAY_CHUNK_PAYLOAD_BYTES_w"

definition SESSION_CTL_MAX_OUTSTANDING_REQUESTS :: nat where "SESSION_CTL_MAX_OUTSTANDING_REQUESTS = 128"

definition SESSION_CTL_MAX_UPLOAD_BYTES_w :: int where "SESSION_CTL_MAX_UPLOAD_BYTES_w = 20 * 1024 * 1024"

definition SESSION_CTL_UPLOAD_CHUNK_BYTES :: int where "SESSION_CTL_UPLOAD_CHUNK_BYTES = 48 * 1024"

definition SESSION_PTY_INPUT_CHUNK_BYTES :: nat where "SESSION_PTY_INPUT_CHUNK_BYTES = 16 * 1024"

definition SESSION_PTY_INPUT_BUFFER_HIGH_WATER :: nat where
  "SESSION_PTY_INPUT_BUFFER_HIGH_WATER = 128 * 1024"

definition CHUNK_HEADER_BYTES :: nat where "CHUNK_HEADER_BYTES = 28"

definition CHUNK_MAGIC :: bytes where "CHUNK_MAGIC = [0x53, 0x50, 0x43, 0x54]"

lemmas web_limits = SESSION_CTL_MAX_REQUEST_BYTES_def SESSION_CTL_MAX_REPLAY_BYTES_w_def
  SESSION_CTL_CHUNK_PAYLOAD_BYTES_w_def SESSION_CTL_MIN_REPLAY_CHUNK_PAYLOAD_BYTES_w_def
  SESSION_CTL_MAX_UPLOAD_BYTES_w_def SESSION_CTL_UPLOAD_CHUNK_BYTES_def SESSION_PTY_INPUT_CHUNK_BYTES_def
  CHUNK_HEADER_BYTES_def CHUNK_MAGIC_def

lemmas phone_limits = SESSION_CTL_MAX_TEXT_BYTES_def SESSION_CTL_MAX_REPLAY_BYTES_def
  SESSION_CTL_CHUNK_PAYLOAD_BYTES_def SESSION_CTL_MIN_REPLAY_CHUNK_PAYLOAD_BYTES_def
  SESSION_CTL_MAX_UPLOAD_BYTES_def PTY_INPUT_CHUNK_BYTES_def SPCT_HEADER_BYTES_def SPCT_MAGIC_def

subsection \<open>Terminal input\<close>

function pty_chunks :: "bytes \<Rightarrow> nat \<Rightarrow> bytes list" where
  "pty_chunks bs offset =
     (if offset < length bs
      then take SESSION_PTY_INPUT_CHUNK_BYTES (drop offset bs) #
        pty_chunks bs (offset + SESSION_PTY_INPUT_CHUNK_BYTES)
      else [])"
  by pat_completeness auto

termination
  by (relation "measure (\<lambda>(bs, offset). length bs - offset)") (auto simp: SESSION_PTY_INPUT_CHUNK_BYTES_def)

declare pty_chunks.simps [simp del]

definition sessionPtyInputChunks :: "bytes \<Rightarrow> bytes list" where
  "sessionPtyInputChunks bs = pty_chunks bs 0"

text \<open>
  What the loop of \<open>writeSessionPtyInput\<close> sees of the channel before each send: whether it is open, how
  much it still buffers, and whether \<open>send\<close> would throw. The channel is an argument, one look for each
  chunk; a look that never comes is a closed channel.
\<close>

record channel_look =
  is_open :: bool
  bufferedAmount :: nat
  send_throws :: bool

fun write_chunks :: "channel_look list \<Rightarrow> bytes list \<Rightarrow> nat \<Rightarrow> bytes list \<Rightarrow> nat \<times> bytes list" where
  "write_chunks ls [] offset sent = (offset, sent)"
| "write_chunks [] (c # cs) offset sent = (offset, sent)"
| "write_chunks (l # ls) (c # cs) offset sent =
     (if \<not> is_open l \<or> bufferedAmount l > SESSION_PTY_INPUT_BUFFER_HIGH_WATER then (offset, sent)
      else if send_throws l then (offset, sent)
      else write_chunks ls cs (offset + length c) (sent @ [c]))"

text \<open>The offset it returns and the messages the channel took.\<close>

definition writeSessionPtyInput :: "channel_look list \<Rightarrow> bytes \<Rightarrow> nat \<times> bytes list" where
  "writeSessionPtyInput ls bs = write_chunks ls (sessionPtyInputChunks bs) 0 []"

definition slicePtyChunkAfterAnchor_w :: "bytes \<Rightarrow> int \<Rightarrow> int option \<Rightarrow> anchored_slice" where
  "slicePtyChunkAfterAnchor_w bs offsetAfter anchor =
     (case anchor of
        None \<Rightarrow> \<lparr>as_bytes = Some bs, as_anchor = None\<rparr>
      | Some a \<Rightarrow>
          if offsetAfter \<le> a
          then \<lparr>as_bytes = None, as_anchor = (if offsetAfter = a then None else Some a)\<rparr>
          else
            let start = offsetAfter - int (length bs) in
            \<lparr>as_bytes = Some (if start < a then drop (nat (a - start)) bs else bs), as_anchor = None\<rparr>)"

subsection \<open>Ids and frames\<close>

definition isSessionCtlRequestId :: "utext \<Rightarrow> bool" where
  "isSessionCtlRequestId v \<longleftrightarrow> uuid_shape v"

definition uuidToBytes_w :: "utext \<Rightarrow> bytes option" where
  "uuidToBytes_w v =
     (if \<not> isSessionCtlRequestId v then None
      else
        let hex = filter (\<lambda>c. c \<noteq> c_minus) v
        in those (map (\<lambda>i. parse_hex_byte (take 2 (drop (i * 2) hex))) [0..<16]))"

definition bytesToUuid_w :: "bytes \<Rightarrow> utext option" where
  "bytesToUuid_w bs =
     (if length bs \<noteq> 16 then None
      else
        let hex = concat (map hex_byte bs) in
        Some (take 8 hex @ [c_minus] @ take 4 (drop 8 hex) @ [c_minus] @ take 4 (drop 12 hex) @ [c_minus] @
              take 4 (drop 16 hex) @ [c_minus] @ drop 20 hex))"

text \<open>
  A new id: the browser's own when it has one of the right shape, otherwise sixteen random bytes with the
  version and variant bits of a random UUID set. Both sources of randomness are arguments.
\<close>

unbundle bit_operations_syntax

definition fresh_id :: "bytes \<Rightarrow> utext" where
  "fresh_id random =
     (let bs = random[6 := (random ! 6 AND 0x0f) OR 0x40];
          bs = bs[8 := (bs ! 8 AND 0x3f) OR 0x80]
      in case bytesToUuid_w bs of
        Some i \<Rightarrow> i
      | None \<Rightarrow> u ''00000000-0000-4000-8000-000000000000'')"

definition newSessionCtlRequestId :: "utext option \<Rightarrow> bytes \<Rightarrow> utext" where
  "newSessionCtlRequestId randomUUID random =
     (case randomUUID of
        Some requestId \<Rightarrow> if isSessionCtlRequestId requestId then requestId else fresh_id random
      | None \<Rightarrow> fresh_id random)"

record ctl_chunk =
  ch_requestId :: utext
  ch_sequence :: int
  ch_last :: bool
  ch_payload :: bytes

definition encodeSessionCtlUploadChunk :: "utext \<Rightarrow> int \<Rightarrow> bool \<Rightarrow> bytes \<Rightarrow> bytes option" where
  "encodeSessionCtlUploadChunk uploadId sequence lst payload =
     (if \<not> isSessionCtlRequestId uploadId \<or> \<not> safe_integer sequence \<or> sequence < 0 \<or>
         sequence > 0xffffffff \<or> length payload = 0 \<or>
         int (length payload) > SESSION_CTL_UPLOAD_CHUNK_BYTES
      then None
      else case uuidToBytes_w uploadId of
        None \<Rightarrow> None
      | Some requestBytes \<Rightarrow>
          Some (CHUNK_MAGIC @ [word_of_nat SESSION_CTL_VERSION, 2] @ le16 (if lst then 1 else 0) @
                requestBytes @ le32 (nat sequence) @ payload))"

definition decodeSessionCtlChunk :: "bytes \<Rightarrow> ctl_chunk option" where
  "decodeSessionCtlChunk bs =
     (if length bs < CHUNK_HEADER_BYTES \<or>
         int (length bs) > int CHUNK_HEADER_BYTES + SESSION_CTL_CHUNK_PAYLOAD_BYTES_w then None
      else if take (length CHUNK_MAGIC) bs \<noteq> CHUNK_MAGIC then None
      else if bs ! 4 \<noteq> word_of_nat SESSION_CTL_VERSION \<or> bs ! 5 \<noteq> 1 then None
      else
        let flags = get16 bs 6 in
        if flags div 2 \<noteq> 0 then None
        else case bytesToUuid_w (take 16 (drop 8 bs)) of
          None \<Rightarrow> None
        | Some requestId \<Rightarrow>
            Some \<lparr>ch_requestId = requestId, ch_sequence = int (get32 bs 24), ch_last = (flags mod 2 \<noteq> 0),
                  ch_payload = drop CHUNK_HEADER_BYTES bs\<rparr>)"

subsection \<open>Text messages\<close>

definition makeSessionCtlRequest_w ::
  "(jsval \<Rightarrow> string option) \<Rightarrow> string \<Rightarrow> ctl_operation \<Rightarrow> (string \<times> jsval) list \<Rightarrow> string option" where
  "makeSessionCtlRequest_w json_string requestId operation parameters =
     (if \<not> isSessionCtlRequestId (u requestId) then None
      else case json_string (request_value requestId operation parameters) of
        None \<Rightarrow> None
      | Some text \<Rightarrow> if length text \<le> SESSION_CTL_MAX_REQUEST_BYTES then Some text else None)"

definition upload_refused :: "upload_start \<Rightarrow> bool" where
  "upload_refused s \<longleftrightarrow>
     \<not> isSessionCtlRequestId (u (us_capability s)) \<or> \<not> isSessionCtlRequestId (u (us_uploadId s)) \<or>
     \<not> safe_integer (us_sessionGeneration s) \<or> us_sessionGeneration s \<le> 0 \<or>
     \<not> safe_integer (us_totalBytes s) \<or> us_totalBytes s \<le> 0 \<or>
     us_totalBytes s > SESSION_CTL_MAX_UPLOAD_BYTES_w \<or>
     us_chunks s \<noteq> ceil_div (us_totalBytes s) SESSION_CTL_UPLOAD_CHUNK_BYTES \<or>
     length (us_name s) = 0 \<or> length (us_name s) > 255 \<or> us_name s = ''.'' \<or> us_name s = ''..'' \<or>
     control_char (u (us_name s)) \<or> c_slash \<in> set (u (us_name s)) \<or> c_backslash \<in> set (u (us_name s)) \<or>
     (us_destination s \<noteq> ''attachments'' \<and> us_destination s \<noteq> ''cwd'') \<or>
     length (us_mimeType s) = 0 \<or> length (us_mimeType s) > 128 \<or>
     \<not> list_all (\<lambda>c. 33 \<le> c \<and> c \<le> 126) (u (us_mimeType s)) \<or> 59 \<in> set (u (us_mimeType s)) \<or>
     \<not> (length (us_sha256 s) = 64 \<and> list_all (\<lambda>c. is_digit c \<or> 97 \<le> c \<and> c \<le> 102) (u (us_sha256 s)))"

definition makeSessionCtlUploadStart :: "(jsval \<Rightarrow> string option) \<Rightarrow> upload_start \<Rightarrow> string option" where
  "makeSessionCtlUploadStart json_string s =
     (if upload_refused s then None
      else makeSessionCtlRequest_w json_string (us_uploadId s) OpUploadStart
        [(''capability'', JStr (us_capability s)),
         (''agent_generation'', JNum (of_int (us_sessionGeneration s))),
         (''name'', JStr (us_name s)), (''mime_type'', JStr (us_mimeType s)),
         (''destination'', JStr (us_destination s)), (''total_bytes'', JNum (of_int (us_totalBytes s))),
         (''chunks'', JNum (of_int (us_chunks s))), (''sha256'', JStr (us_sha256 s))])"

definition makeSessionCtlUploadCancel ::
  "(jsval \<Rightarrow> string option) \<Rightarrow> string \<Rightarrow> string \<Rightarrow> string \<Rightarrow> int \<Rightarrow> string option" where
  "makeSessionCtlUploadCancel json_string requestId uploadId capability sessionGeneration =
     (if \<not> isSessionCtlRequestId (u uploadId) \<or> \<not> isSessionCtlRequestId (u capability) \<or>
         \<not> safe_integer sessionGeneration \<or> sessionGeneration \<le> 0
      then None
      else makeSessionCtlRequest_w json_string requestId OpUploadCancel
        [(''capability'', JStr capability), (''agent_generation'', JNum (of_int sessionGeneration)),
         (''upload_id'', JStr uploadId)])"

definition isSessionCtlOperation :: "jsval \<Rightarrow> bool" where
  "isSessionCtlOperation v \<longleftrightarrow>
     v \<in> {JStr ''history'', JStr ''snapshot'', JStr ''resize'', JStr ''scroll'', JStr ''redraw'',
          JStr ''take_control'', JStr ''focus_view'', JStr ''upload_start'', JStr ''upload_cancel'',
          JStr ''upload_complete'', JStr ''history_subscribe''}"

definition safe_from :: "jsval \<Rightarrow> int \<Rightarrow> bool" where
  "safe_from v lo \<longleftrightarrow> (case js_safe v of None \<Rightarrow> False | Some n \<Rightarrow> lo \<le> n)"

definition ready_event_w :: "jsval \<Rightarrow> bool" where
  "ready_event_w v \<longleftrightarrow>
     (case js_string (js_get v ''upload_capability'') of
        None \<Rightarrow> False | Some s \<Rightarrow> isSessionCtlRequestId (u s)) \<and>
     safe_from (js_get v ''agent_generation'') 1 \<and>
     js_get v ''upload_max_bytes'' = JNum (of_int SESSION_CTL_MAX_UPLOAD_BYTES_w) \<and>
     js_get v ''upload_chunk_bytes'' = JNum (of_int SESSION_CTL_UPLOAD_CHUNK_BYTES)"

definition delta_event_w :: "jsval \<Rightarrow> bool" where
  "delta_event_w v \<longleftrightarrow>
     valid_epoch v \<and> safe_from (js_get v ''history_offset'') 0 \<and> js_string (js_get v ''data'') \<noteq> None"

definition display_event_w :: "jsval \<Rightarrow> bool" where
  "display_event_w v \<longleftrightarrow>
     js_boolean (js_get v ''owner'') \<and> safe_from (js_get v ''viewers'') 1 \<and>
     (js_get v ''cols'' = JNull \<or>
      (case js_safe (js_get v ''cols'') of None \<Rightarrow> False | Some n \<Rightarrow> 20 \<le> n \<and> n \<le> 400)) \<and>
     (js_get v ''rows'' = JNull \<or>
      (case js_safe (js_get v ''rows'') of None \<Rightarrow> False | Some n \<Rightarrow> 5 \<le> n \<and> n \<le> 200)) \<and>
     (js_get v ''cols'' = JNull) = (js_get v ''rows'' = JNull)"

definition parseSessionCtlText_w :: "(string \<Rightarrow> jsval option) \<Rightarrow> string \<Rightarrow> jsval option" where
  "parseSessionCtlText_w json_parse raw =
     (if length raw > SESSION_CTL_MAX_REQUEST_BYTES then None
      else case json_parse raw of
        None \<Rightarrow> None
      | Some v \<Rightarrow>
          let kind = js_get v ''kind''; event = js_get v ''event'' in
          if v = JNull \<or> js_get v ''version'' \<noteq> JNum (of_nat SESSION_CTL_VERSION) then None
          else if kind = JStr ''response'' \<and> js_boolean (js_get v ''ok'') \<and>
            (js_get v ''request_id'' = JNull \<or> js_get v ''request_id'' = JUndef \<or>
             (case js_string (js_get v ''request_id'') of None \<Rightarrow> False | Some s \<Rightarrow> isSessionCtlRequestId (u s))) \<and>
            (js_get v ''operation'' = JUndef \<or> isSessionCtlOperation (js_get v ''operation''))
          then Some v
          else if kind = JStr ''event'' \<and> event = JStr ''ready'' \<and> ready_event_w v then Some v
          else if kind = JStr ''event'' \<and> event = JStr ''history_delta'' then
            (if \<not> delta_event_w v then None else Some v)
          else if kind = JStr ''event'' \<and> event = JStr ''history_wipe'' then (if valid_epoch v then Some v else None)
          else if kind = JStr ''event'' \<and> event = JStr ''history_gap'' then Some v
          else if kind = JStr ''event'' \<and> event = JStr ''pty_gap'' \<and> safe_from (js_get v ''offset'') 0 then Some v
          else if kind = JStr ''event'' \<and> event = JStr ''display_state'' \<and> display_event_w v then Some v
          else None)"

subsection \<open>Answers to an upload\<close>

text \<open>\<open>v || fallback\<close> takes the fallback for every value that counts as false.\<close>

fun js_truthy :: "jsval \<Rightarrow> bool" where
  "js_truthy JUndef = False"
| "js_truthy JNull = False"
| "js_truthy (JBool b) = b"
| "js_truthy (JNum q) = (q \<noteq> 0)"
| "js_truthy JNaN = False"
| "js_truthy (JStr s) = (s \<noteq> [])"
| "js_truthy _ = True"

definition js_or :: "jsval \<Rightarrow> jsval \<Rightarrow> jsval" where
  "js_or v fallback = (if js_truthy v then v else fallback)"

record upload_result =
  ur_uploadId :: string
  ur_path :: string
  ur_totalBytes :: int
  ur_sha256 :: string

datatype upload_answer = UploadReady int int | UploadComplete upload_result | UploadError jsval jsval

text \<open>The state of an upload the daemon reports before it takes chunks.\<close>

definition upload_progress :: "jsval \<Rightarrow> upload_start \<Rightarrow> (int \<times> int) option" where
  "upload_progress response expected =
     (case (js_safe (js_get response ''next_sequence''), js_safe (js_get response ''received_bytes'')) of
        (Some next_sequence, Some received) \<Rightarrow>
          if js_get response ''operation'' = JStr ''upload_start'' \<and> js_get response ''state'' = JStr ''ready'' \<and>
             next_sequence \<ge> 0 \<and> next_sequence \<le> us_chunks expected \<and>
             received \<ge> 0 \<and> received \<le> us_totalBytes expected \<and>
             received = min (next_sequence * SESSION_CTL_UPLOAD_CHUNK_BYTES) (us_totalBytes expected)
          then Some (next_sequence, received) else None
      | _ \<Rightarrow> None)"

definition upload_finished :: "jsval \<Rightarrow> upload_start \<Rightarrow> string option" where
  "upload_finished response expected =
     (case js_string (js_get response ''path'') of
        None \<Rightarrow> None
      | Some path \<Rightarrow>
          if js_get response ''operation'' = JStr ''upload_complete'' \<and> js_get response ''state'' = JStr ''complete'' \<and>
             length path > 0 \<and> length path \<le> 4096 \<and>
             js_get response ''total_bytes'' = JNum (of_int (us_totalBytes expected)) \<and>
             js_get response ''sha256'' = JStr (us_sha256 expected)
          then Some path else None)"

definition parseSessionCtlUploadResponse :: "jsval \<Rightarrow> upload_start \<Rightarrow> upload_answer option" where
  "parseSessionCtlUploadResponse response expected =
     (if js_get response ''request_id'' \<noteq> JStr (us_uploadId expected) then None
      else if \<not> js_truthy (js_get response ''ok'') then
        Some (UploadError (js_or (js_get (js_get response ''error'') ''code'') (JStr ''upload_failed''))
          (js_or (js_get (js_get response ''error'') ''detail'') (JStr ''Upload failed.'')))
      else case upload_progress response expected of
        Some (next_sequence, received) \<Rightarrow> Some (UploadReady next_sequence received)
      | None \<Rightarrow>
          (case upload_finished response expected of
             Some path \<Rightarrow>
               Some (UploadComplete \<lparr>ur_uploadId = us_uploadId expected, ur_path = path,
                 ur_totalBytes = us_totalBytes expected, ur_sha256 = us_sha256 expected\<rparr>)
           | None \<Rightarrow> None))"

subsection \<open>The two clients agree\<close>

lemma pty_chunks_eq: "pty_chunks bs offset = input_chunks bs offset"
  by (induction bs offset rule: pty_chunks.induct)
    (subst pty_chunks.simps, subst input_chunks.simps, simp add: web_limits phone_limits)

lemma uuid_codecs_eq: "uuidToBytes_w v = uuidToBytes v" "bytesToUuid_w bs = bytesToUuid bs"
  by (simp_all add: uuidToBytes_w_def uuidToBytes_def isSessionCtlRequestId_def isControlId_def
    bytesToUuid_w_def bytesToUuid_def)

lemma request_eq: "makeSessionCtlRequest_w js i op ps = makeSessionCtlRequest js i op ps"
  by (simp add: makeSessionCtlRequest_w_def makeSessionCtlRequest_def isSessionCtlRequestId_def
    isControlId_def web_limits phone_limits split: option.split)

lemma upload_refused_iff: "upload_refused s \<longleftrightarrow> \<not> upload_ok s"
proof -
  have "length (us_name s) = 0 \<longleftrightarrow> \<not> length (us_name s) \<ge> 1" "length (us_mimeType s) = 0 \<longleftrightarrow> \<not> length (us_mimeType s) \<ge> 1"
    by linarith+
  then show ?thesis
    unfolding upload_refused_def upload_ok_def isSessionCtlRequestId_def isControlId_def web_limits phone_limits
      not_le [symmetric] by blast
qed

lemma upload_start_eq: "makeSessionCtlUploadStart js s = makeUploadStart js s"
  by (simp add: makeSessionCtlUploadStart_def makeUploadStart_def upload_refused_iff request_eq)

definition upload_frame :: "utext \<Rightarrow> int \<Rightarrow> bool \<Rightarrow> bytes \<Rightarrow> spct_frame" where
  "upload_frame i n lst p = \<lparr>f_kind = FUpload, f_requestId = i, f_sequence = n, f_last = lst, f_payload = p\<rparr>"

lemma upload_chunk_eq: "encodeSessionCtlUploadChunk i n lst p = encodeSpctFrame (upload_frame i n lst p)"
  by (auto simp: encodeSessionCtlUploadChunk_def encodeSpctFrame_def upload_frame_def uuid_codecs_eq
    uuidToBytes_def isSessionCtlRequestId_def isControlId_def web_limits phone_limits split: option.splits)

definition chunk_of :: "spct_frame \<Rightarrow> ctl_chunk" where
  "chunk_of f = \<lparr>ch_requestId = f_requestId f, ch_sequence = f_sequence f, ch_last = f_last f, ch_payload = f_payload f\<rparr>"

definition replay_chunk :: "spct_frame \<Rightarrow> ctl_chunk option" where
  "replay_chunk f = (if f_kind f = FReplay then Some (chunk_of f) else None)"

lemma decode_chunk_eq: "decodeSessionCtlChunk bs = Option.bind (decodeSpctFrame bs) replay_chunk"
  by (auto simp: decodeSessionCtlChunk_def decodeSpctFrame_def Let_def uuid_codecs_eq replay_chunk_def chunk_of_def
    web_limits phone_limits split: option.splits)

lemma slice_eq: "slicePtyChunkAfterAnchor_w bs k a = slicePtyChunkAfterAnchor bs k a"
  by (simp add: slicePtyChunkAfterAnchor_w_def slicePtyChunkAfterAnchor_def)

definition known_operation :: "jsval \<Rightarrow> bool" where
  "known_operation v \<longleftrightarrow> js_get v ''operation'' = JUndef \<or> isSessionCtlOperation (js_get v ''operation'')"

definition gap_event :: "jsval \<Rightarrow> bool" where
  "gap_event v \<longleftrightarrow>
     js_get v ''version'' = JNum 1 \<and> js_get v ''kind'' = JStr ''event'' \<and> js_get v ''event'' = JStr ''pty_gap'' \<and>
     safe_from (js_get v ''offset'') 0"

lemma version_record: "js_get v ''version'' = JNum q \<Longrightarrow> js_is_record v \<and> v \<noteq> JNull"
  by (cases v) simp_all

lemma parse_text_response:
  assumes "json_parse raw = Some v" "length raw \<le> 16 * 1024" "js_get v ''version'' = JNum 1"
    and "js_get v ''kind'' = JStr ''response''"
  shows "parseSessionCtlText_w json_parse raw =
    (if parseSessionCtlText json_parse raw = Some v \<and> known_operation v then Some v else None)"
  using assms version_record [OF assms(3)]
  by (auto simp: parseSessionCtlText_w_def parseSessionCtlText_def web_limits phone_limits
    SESSION_CTL_VERSION_def Let_def request_id_ok_def known_operation_def isSessionCtlRequestId_def isControlId_def
    split: option.splits)

lemma events_eq: "ready_event_w v = ready_event v" "delta_event_w v = delta_event v" "display_event_w v = display_event v"
proof -
  have one: "1 \<le> n \<longleftrightarrow> 0 < n" for n :: int by linarith
  show "ready_event_w v = ready_event v"
    by (simp add: ready_event_w_def ready_event_def safe_from_def one isSessionCtlRequestId_def isControlId_def
      web_limits phone_limits split: option.split)
  show "delta_event_w v = delta_event v" by (simp add: delta_event_w_def delta_event_def safe_from_def)
  show "display_event_w v = display_event v"
    by (simp add: display_event_w_def display_event_def safe_from_def validGrid_def)
qed

lemma parse_text_event:
  assumes "json_parse raw = Some v" "length raw \<le> 16 * 1024" "js_get v ''version'' = JNum 1"
    and "js_get v ''kind'' = JStr ''event''"
  shows "parseSessionCtlText_w json_parse raw =
    (if parseSessionCtlText json_parse raw = Some v \<or> gap_event v then Some v else None)"
proof (cases "js_get v ''event''")
  case (JStr e)
  then show ?thesis
    using assms version_record [OF assms(3)]
    by (simp add: parseSessionCtlText_w_def parseSessionCtlText_def web_limits phone_limits
        SESSION_CTL_VERSION_def Let_def gap_event_def events_eq)
qed (use assms version_record [OF assms(3)] in \<open>simp_all add: parseSessionCtlText_w_def parseSessionCtlText_def
  web_limits phone_limits SESSION_CTL_VERSION_def Let_def gap_event_def\<close>)

lemma parse_text_other:
  assumes "json_parse raw = Some v"
    and "js_get v ''version'' \<noteq> JNum 1 \<or> js_get v ''kind'' \<noteq> JStr ''response'' \<and> js_get v ''kind'' \<noteq> JStr ''event''"
  shows "parseSessionCtlText_w json_parse raw = None" "parseSessionCtlText json_parse raw = None"
  using assms
  by (auto simp: parseSessionCtlText_w_def parseSessionCtlText_def SESSION_CTL_VERSION_def Let_def)

lemma parse_text_eq:
  assumes "json_parse raw = Some v" "length raw \<le> 16 * 1024"
  shows "parseSessionCtlText_w json_parse raw = Some v \<longleftrightarrow>
    (parseSessionCtlText json_parse raw = Some v \<and> (js_get v ''kind'' = JStr ''response'' \<longrightarrow> known_operation v)) \<or>
    gap_event v"
proof -
  consider "js_get v ''version'' = JNum 1" "js_get v ''kind'' = JStr ''response''"
    | "js_get v ''version'' = JNum 1" "js_get v ''kind'' = JStr ''event''"
    | "js_get v ''version'' \<noteq> JNum 1 \<or> js_get v ''kind'' \<noteq> JStr ''response'' \<and> js_get v ''kind'' \<noteq> JStr ''event''"
    by blast
  then show ?thesis
  proof cases
    case 1
    then show ?thesis using parse_text_response [of json_parse, OF assms 1] by (auto simp: gap_event_def)
  next
    case 2
    then show ?thesis using parse_text_event [of json_parse, OF assms 2] by auto
  next
    case 3
    then show ?thesis using parse_text_other [of json_parse, OF assms(1) 3] by (auto simp: gap_event_def)
  qed
qed

text \<open>
  C27: The two clients speak one protocol. On every input the browser and the phone cut terminal input into
  the same messages, skip the same bytes before an anchor, make the same requests and upload requests and
  the same upload frames, and read a binary frame alike, except that the browser ignores upload frames.
  A text the limits admit is read alike up to two differences: the browser ignores a response whose
  operation it does not know, and only the browser takes the event that announces a gap in the terminal
  output.
\<close>

theorem web_codec_agrees:
  assumes "json_parse raw = Some v" "length raw \<le> 16 * 1024"
  shows "sessionPtyInputChunks bs = chunkPtyInput bs \<and>
    slicePtyChunkAfterAnchor_w bs k anchor = slicePtyChunkAfterAnchor bs k anchor \<and>
    makeSessionCtlRequest_w json_string i op ps = makeSessionCtlRequest json_string i op ps \<and>
    makeSessionCtlUploadStart json_string s = makeUploadStart json_string s \<and>
    encodeSessionCtlUploadChunk i' n lst bs = encodeSpctFrame (upload_frame i' n lst bs) \<and>
    decodeSessionCtlChunk bs = Option.bind (decodeSpctFrame bs) replay_chunk \<and>
    (parseSessionCtlText_w json_parse raw = Some v \<longleftrightarrow>
      (parseSessionCtlText json_parse raw = Some v \<and> (js_get v ''kind'' = JStr ''response'' \<longrightarrow> known_operation v)) \<or>
      gap_event v)"
  using parse_text_eq [of json_parse, OF assms]
  by (simp add: sessionPtyInputChunks_def chunkPtyInput_def pty_chunks_eq slice_eq request_eq upload_start_eq
    upload_chunk_eq decode_chunk_eq)

definition gap_message :: jsval where
  "gap_message = JObj [(''version'', JNum 1), (''kind'', JStr ''event''), (''event'', JStr ''pty_gap''),
     (''offset'', JNum 7)]"

theorem web_codec_agrees_witness:
  "parseSessionCtlText_w (\<lambda>_. Some gap_message) ''x'' = Some gap_message"
proof -
  have "gap_event gap_message"
    by (simp add: gap_event_def gap_message_def safe_from_def js_safe_def safe_integer_def)
  then show ?thesis
    using web_codec_agrees [of "\<lambda>_. Some gap_message" "''x''" gap_message] by simp
qed

subsection \<open>What is written and what is left\<close>

lemma write_chunks_spec:
  assumes "write_chunks ls cs n sent = (k, out)"
  shows "\<exists>m. out = sent @ take m cs \<and> k = n + length (concat (take m cs)) \<and>
    ((\<forall>l \<in> set ls. is_open l \<and> bufferedAmount l \<le> SESSION_PTY_INPUT_BUFFER_HIGH_WATER \<and> \<not> send_throws l) \<and>
      length cs \<le> length ls \<longrightarrow> take m cs = cs)"
  using assms
proof (induction ls cs n sent rule: write_chunks.induct)
  case (1 ls n sent)
  then show ?case by simp
next
  case (2 c cs n sent)
  then show ?case by (intro exI [of _ 0]) simp
next
  case (3 l ls c cs n sent)
  show ?case
  proof (cases "is_open l \<and> bufferedAmount l \<le> SESSION_PTY_INPUT_BUFFER_HIGH_WATER \<and> \<not> send_throws l")
    case True
    then have p: "\<not> (\<not> is_open l \<or> bufferedAmount l > SESSION_PTY_INPUT_BUFFER_HIGH_WATER)" "\<not> send_throws l"
      by auto
    then have "write_chunks ls cs (n + length c) (sent @ [c]) = (k, out)" using 3(2) by simp
    from 3(1) [OF p this] obtain m where
      "out = (sent @ [c]) @ take m cs \<and> k = n + length c + length (concat (take m cs)) \<and>
      ((\<forall>l \<in> set ls. is_open l \<and> bufferedAmount l \<le> SESSION_PTY_INPUT_BUFFER_HIGH_WATER \<and> \<not> send_throws l) \<and>
      length cs \<le> length ls \<longrightarrow> take m cs = cs)" by blast
    then show ?thesis by (intro exI [of _ "Suc m"]) simp
  next
    case False
    with 3(2) show ?thesis by (intro exI [of _ 0]) (auto split: if_splits)
  qed
qed

lemma concat_take_prefix: "concat (take m cs) = take (length (concat (take m cs))) (concat cs)"
  by (metis append_eq_conv_conj append_take_drop_id concat_append)

text \<open>
  Nothing typed is lost or sent twice. Whatever state the channel is in before each message, the
  messages it took are exactly the first bytes of the input, as many as the offset that is returned, so
  the rest is what the caller still has to send; a channel that stays open and drained takes it all.
\<close>

theorem pty_input_exact:
  assumes "writeSessionPtyInput ls bs = (k, sent)"
  shows "concat sent @ drop k bs = bs \<and> k \<le> length bs \<and> (\<forall>m \<in> set sent. length m \<le> 16384) \<and>
    ((\<forall>l \<in> set ls. is_open l \<and> bufferedAmount l \<le> 131072 \<and> \<not> send_throws l) \<and>
      length bs \<le> 16384 * length ls \<longrightarrow> k = length bs)"
proof -
  let ?cs = "sessionPtyInputChunks bs"
  have cs: "concat ?cs = bs" "\<forall>c \<in> set ?cs. length c \<le> 16384" "length ?cs = (length bs + 16383) div 16384"
    using input_chunks_spec [of bs 0] by (simp_all add: sessionPtyInputChunks_def pty_chunks_eq)
  from write_chunks_spec [OF assms [unfolded writeSessionPtyInput_def]] obtain m where
    m: "sent = take m ?cs" "k = length (concat (take m ?cs))"
    and all: "(\<forall>l \<in> set ls. is_open l \<and> bufferedAmount l \<le> SESSION_PTY_INPUT_BUFFER_HIGH_WATER \<and> \<not> send_throws l) \<Longrightarrow>
      length ?cs \<le> length ls \<Longrightarrow> take m ?cs = ?cs" by auto
  have p: "concat sent = take k bs" using concat_take_prefix [of m ?cs] cs(1) m by simp
  have k: "k \<le> length bs" using arg_cong [OF p, of length] m by simp
  have "k = length bs" if "\<forall>l \<in> set ls. is_open l \<and> bufferedAmount l \<le> 131072 \<and> \<not> send_throws l"
      "length bs \<le> 16384 * length ls"
  proof -
    have "length ?cs \<le> length ls" using that(2) cs(3) by simp
    with all that(1) have "take m ?cs = ?cs" by (simp add: SESSION_PTY_INPUT_BUFFER_HIGH_WATER_def)
    then show ?thesis using m(2) cs(1) by simp
  qed
  with p k cs(2) show ?thesis unfolding m(1) by (auto dest: in_set_takeD)
qed

theorem pty_input_exact_witness:
  "writeSessionPtyInput [\<lparr>is_open = True, bufferedAmount = 9, send_throws = False\<rparr>] [1, 2, 3] = (3, [[1, 2, 3]]) \<and>
   drop 3 [1, 2, 3 :: 8 word] = []"
proof -
  let ?ls = "[\<lparr>is_open = True, bufferedAmount = 9, send_throws = False\<rparr>]"
  obtain k sent where w: "writeSessionPtyInput ?ls [1, 2, 3] = (k, sent)" by fastforce
  from pty_input_exact [OF this] have "k = 3" by simp
  moreover have "sent = [[1, 2, 3]]"
    using w by (auto simp: writeSessionPtyInput_def sessionPtyInputChunks_def pty_chunks.simps web_limits
      SESSION_PTY_INPUT_BUFFER_HIGH_WATER_def)
  ultimately show ?thesis using w by simp
qed

lemma fresh_id_control:
  assumes "length random = 16"
  shows "isSessionCtlRequestId (fresh_id random)"
proof -
  let ?b = "random[6 := (random ! 6 AND 0x0f) OR 0x40]"
  let ?bs = "?b[8 := (?b ! 8 AND 0x3f) OR 0x80]"
  have "length ?bs = 16" using assms by simp
  then obtain v where "bytesToUuid ?bs = Some v" "isControlId v" by (rule bytes_uuid)
  then show ?thesis
    by (simp add: fresh_id_def Let_def uuid_codecs_eq isSessionCtlRequestId_def isControlId_def)
qed

end
