(* ===== verification/Request_Tracker.thy ===== *)
theory Request_Tracker
  imports Web_Ctl
begin

section \<open>Requests on the control channel\<close>

text \<open>
  \<open>SessionCtlRequestTracker\<close> of \<open>web/src/lib/session-ctl.ts\<close>: the browser's table of the requests it has
  sent and not yet seen answered, with the chunks of the replays that are arriving. A \<open>Map\<close> is the
  association list of its entries in insertion order. A response is the JSON value the parser let
  through.

  The lemmas show that the table stays within its limits and counts the bytes it holds exactly, and that
  for each request it behaves as the phone's \<open>ReplayAssembler\<close> (theory \<open>Session_Ctl\<close>).
\<close>

subsection \<open>State\<close>

record pending_request =
  pr_operation :: ctl_operation
  pr_metadata :: "jsval option"
  pr_chunks :: "(int \<times> bytes) list"
  pr_chunkPayloadBytes :: "int option"

record request_tracker =
  rt_pending :: "(utext \<times> pending_request) list"
  rt_bufferedBytes :: int

datatype reject_reason =
    BadMetadata | BadFlagOrLength | FinalNotTotal | CannotCarry | SizesDiffer | OverLimit | NotAssembled

datatype tracked_result =
    TrackedResponse jsval
  | TrackedReplay jsval bytes
  | TrackedRejected utext ctl_operation reject_reason

definition empty_tracker :: request_tracker where
  "empty_tracker = \<lparr>rt_pending = [], rt_bufferedBytes = 0\<rparr>"

definition chunk_bytes :: "(int \<times> bytes) list \<Rightarrow> int" where
  "chunk_bytes cs = sum_list (map (\<lambda>e. int (length (snd e))) cs)"

subsection \<open>Operations\<close>

definition register :: "request_tracker \<Rightarrow> utext \<Rightarrow> ctl_operation \<Rightarrow> request_tracker \<times> bool" where
  "register t requestId operation =
     (if \<not> isSessionCtlRequestId requestId \<or> map_of (rt_pending t) requestId \<noteq> None \<or>
         length (rt_pending t) \<ge> SESSION_CTL_MAX_OUTSTANDING_REQUESTS
      then (t, False)
      else (t\<lparr>rt_pending := AList.update requestId
               \<lparr>pr_operation = operation, pr_metadata = None, pr_chunks = [], pr_chunkPayloadBytes = None\<rparr>
               (rt_pending t)\<rparr>, True))"

text \<open>The private method \<open>#remove\<close>.\<close>

definition remove_request :: "request_tracker \<Rightarrow> utext \<Rightarrow> request_tracker" where
  "remove_request t requestId =
     (case map_of (rt_pending t) requestId of
        None \<Rightarrow> t
      | Some p \<Rightarrow> \<lparr>rt_pending = AList.delete requestId (rt_pending t),
                    rt_bufferedBytes = rt_bufferedBytes t - chunk_bytes (pr_chunks p)\<rparr>)"

definition reject_request ::
  "request_tracker \<Rightarrow> utext \<Rightarrow> pending_request \<Rightarrow> reject_reason \<Rightarrow> request_tracker \<times> tracked_result option" where
  "reject_request t requestId p reason =
     (remove_request t requestId, Some (TrackedRejected requestId (pr_operation p) reason))"

definition cancel_request :: "request_tracker \<Rightarrow> utext \<Rightarrow> request_tracker" where
  "cancel_request t requestId = remove_request t requestId"

definition clear_tracker :: "request_tracker \<Rightarrow> request_tracker" where
  "clear_tracker t = \<lparr>rt_pending = [], rt_bufferedBytes = 0\<rparr>"

definition replayChunkCountIsPlausible_w :: "int \<Rightarrow> int \<Rightarrow> bool" where
  "replayChunkCountIsPlausible_w totalBytes chunks \<longleftrightarrow>
     (if chunks = 0 then totalBytes = 0
      else if totalBytes = 0 then False
      else if chunks = 1 then totalBytes \<le> SESSION_CTL_CHUNK_PAYLOAD_BYTES_w
      else (chunks - 1) * SESSION_CTL_MIN_REPLAY_CHUNK_PAYLOAD_BYTES_w < totalBytes \<and>
           totalBytes \<le> chunks * SESSION_CTL_CHUNK_PAYLOAD_BYTES_w)"

text \<open>The test of a replay's announcement, with the number of chunks when it passes.\<close>

definition replay_metadata :: "jsval \<Rightarrow> int option" where
  "replay_metadata response =
     (case (js_safe (js_get response ''total_bytes''), js_safe (js_get response ''chunks'')) of
        (Some totalBytes, Some chunks) \<Rightarrow>
          if totalBytes < 0 \<or> totalBytes > SESSION_CTL_MAX_REPLAY_BYTES_w \<or>
             chunks < 0 \<or> chunks > SESSION_CTL_MAX_REPLAY_CHUNKS \<or>
             \<not> replayChunkCountIsPlausible_w totalBytes chunks \<or>
             \<not> js_boolean (js_get response ''plain'') \<or>
             (js_get response ''pty_offset'' \<noteq> JNull \<and> js_get response ''pty_offset'' \<noteq> JUndef \<and>
              \<not> safe_from (js_get response ''pty_offset'') 0)
          then None else Some chunks
      | _ \<Rightarrow> None)"

text \<open>\<open>{ ...response, operation }\<close>\<close>

definition with_operation :: "jsval \<Rightarrow> ctl_operation \<Rightarrow> jsval" where
  "with_operation response operation =
     JObj (AList.update ''operation'' (JStr (operation_name operation))
       (case response of JObj fs \<Rightarrow> fs | _ \<Rightarrow> []))"

definition acceptResponse :: "request_tracker \<Rightarrow> jsval \<Rightarrow> request_tracker \<times> tracked_result option" where
  "acceptResponse t response =
     (case js_string (js_get response ''request_id'') of
        None \<Rightarrow> (t, None)
      | Some rid \<Rightarrow>
          let requestId = u rid in
          if \<not> isSessionCtlRequestId requestId then (t, None)
          else case map_of (rt_pending t) requestId of
            None \<Rightarrow> (t, None)
          | Some p \<Rightarrow>
              if \<not> js_truthy (js_get response ''ok'') then
                (remove_request t requestId, Some (TrackedResponse (with_operation response (pr_operation p))))
              else if js_get response ''operation'' \<noteq> JStr (operation_name (pr_operation p)) \<or> pr_metadata p \<noteq> None
              then (t, None)
              else if pr_operation p \<noteq> OpHistory \<and> pr_operation p \<noteq> OpSnapshot then
                (remove_request t requestId, Some (TrackedResponse response))
              else (case replay_metadata response of
                 None \<Rightarrow> reject_request t requestId p BadMetadata
               | Some chunks \<Rightarrow>
                   let t1 = t\<lparr>rt_pending := AList.update requestId (p\<lparr>pr_metadata := Some response\<rparr>) (rt_pending t)\<rparr> in
                   if chunks \<noteq> 0 then (t1, None)
                   else (remove_request t1 requestId, Some (TrackedReplay response []))))"

text \<open>The loop of \<open>combineSessionCtlChunks\<close> from \<open>sequence\<close> on, \<open>n\<close> chunks before the end.\<close>

fun combine_loop :: "(int \<times> bytes) list \<Rightarrow> int \<Rightarrow> int \<Rightarrow> bytes \<Rightarrow> nat \<Rightarrow> bytes option" where
  "combine_loop chunks expectedBytes sequence out 0 = Some out"
| "combine_loop chunks expectedBytes sequence out (Suc n) =
     (case map_of chunks sequence of
        None \<Rightarrow> None
      | Some piece \<Rightarrow>
          if int (length out) + int (length piece) > expectedBytes then None
          else combine_loop chunks expectedBytes (sequence + 1) (out @ piece) n)"

definition combineSessionCtlChunks :: "(int \<times> bytes) list \<Rightarrow> int \<Rightarrow> int \<Rightarrow> bytes option" where
  "combineSessionCtlChunks chunks expectedChunks expectedBytes =
     (if \<not> safe_integer expectedChunks \<or> expectedChunks < 0 \<or> expectedChunks > SESSION_CTL_MAX_REPLAY_CHUNKS \<or>
         \<not> safe_integer expectedBytes \<or> expectedBytes < 0 \<or> expectedBytes > SESSION_CTL_MAX_REPLAY_BYTES_w \<or>
         int (length chunks) \<noteq> expectedChunks
      then None
      else case combine_loop chunks expectedBytes 0 [] (nat expectedChunks) of
        None \<Rightarrow> None
      | Some output \<Rightarrow> if int (length output) = expectedBytes then Some output else None)"

text \<open>The size test: \<open>Inl\<close> for a rejection, otherwise the chunk size known from now on.\<close>

definition chunk_size :: "pending_request \<Rightarrow> ctl_chunk \<Rightarrow> int \<Rightarrow> int \<Rightarrow> reject_reason + int option" where
  "chunk_size p c expectedChunks expectedBytes =
     (let finalSequence = expectedChunks - 1;
          len = int (length (ch_payload c));
          sz = pr_chunkPayloadBytes p
      in if ch_sequence c = finalSequence then
           (let expected = (case sz of
                              None \<Rightarrow> if expectedChunks = 1 then Some expectedBytes else None
                            | Some n \<Rightarrow> Some (expectedBytes - n * finalSequence))
            in if expected \<noteq> None \<and> Some len \<noteq> expected then Inl FinalNotTotal else Inr sz)
         else case sz of
           None \<Rightarrow>
             if len < SESSION_CTL_MIN_REPLAY_CHUNK_PAYLOAD_BYTES_w \<or> len * finalSequence \<ge> expectedBytes \<or>
                len * expectedChunks < expectedBytes
             then Inl CannotCarry
             else (case map_of (pr_chunks p) finalSequence of
                     Some held \<Rightarrow> if int (length held) \<noteq> expectedBytes - len * finalSequence
                                  then Inl FinalNotTotal else Inr (Some len)
                   | None \<Rightarrow> Inr (Some len))
         | Some n \<Rightarrow> if len \<noteq> n then Inl SizesDiffer else Inr sz)"

text \<open>
  The two counts of \<open>pending.metadata\<close> are read with the test they passed when it was stored, which is
  stronger than the \<open>typeof\<close> test here.
\<close>

definition acceptChunk :: "request_tracker \<Rightarrow> ctl_chunk \<Rightarrow> request_tracker \<times> tracked_result option" where
  "acceptChunk t c =
     (case map_of (rt_pending t) (ch_requestId c) of
        None \<Rightarrow> (t, None)
      | Some p \<Rightarrow>
          (case pr_metadata p of
             None \<Rightarrow> (t, None)
           | Some metadata \<Rightarrow>
               if map_of (pr_chunks p) (ch_sequence c) \<noteq> None then (t, None)
               else (case (js_safe (js_get metadata ''chunks''), js_safe (js_get metadata ''total_bytes'')) of
                  (Some expectedChunks, Some expectedBytes) \<Rightarrow>
                    if ch_sequence c \<ge> expectedChunks then (t, None)
                    else
                      let len = int (length (ch_payload c)) in
                      if ch_last c \<noteq> (ch_sequence c = expectedChunks - 1) \<or> len = 0 \<or>
                         len > SESSION_CTL_CHUNK_PAYLOAD_BYTES_w
                      then reject_request t (ch_requestId c) p BadFlagOrLength
                      else (case chunk_size p c expectedChunks expectedBytes of
                         Inl reason \<Rightarrow> reject_request t (ch_requestId c) p reason
                       | Inr sz \<Rightarrow>
                           if rt_bufferedBytes t + len > SESSION_CTL_MAX_REPLAY_BYTES_w
                           then reject_request t (ch_requestId c) p OverLimit
                           else
                             let p2 = p\<lparr>pr_chunkPayloadBytes := sz,
                                        pr_chunks := pr_chunks p @ [(ch_sequence c, ch_payload c)]\<rparr>;
                                 t2 = \<lparr>rt_pending = AList.update (ch_requestId c) p2 (rt_pending t),
                                       rt_bufferedBytes = rt_bufferedBytes t + len\<rparr>
                             in if int (length (pr_chunks p2)) \<noteq> expectedChunks then (t2, None)
                                else (case combineSessionCtlChunks (pr_chunks p2) expectedChunks expectedBytes of
                                   None \<Rightarrow> reject_request t2 (ch_requestId c) p2 NotAssembled
                                 | Some bs \<Rightarrow>
                                     (remove_request t2 (ch_requestId c), Some (TrackedReplay metadata bs))))
                | _ \<Rightarrow> (t, None))))"

subsection \<open>What the table holds\<close>

definition held_for :: "pending_request \<Rightarrow> int" where
  "held_for p = chunk_bytes (pr_chunks p)"

definition held_in :: "(utext \<times> pending_request) list \<Rightarrow> int" where
  "held_in ps = sum_list (map (\<lambda>e. held_for (snd e)) ps)"

definition held_at :: "(utext \<times> pending_request) list \<Rightarrow> utext \<Rightarrow> int" where
  "held_at ps i = (case map_of ps i of None \<Rightarrow> 0 | Some p \<Rightarrow> held_for p)"

lemma chunk_bytes_simps [simp]:
  "chunk_bytes [] = 0" "chunk_bytes (cs @ [e]) = chunk_bytes cs + int (length (snd e))" "0 \<le> chunk_bytes cs"
  by (simp_all add: chunk_bytes_def) (induction cs; simp)

lemma held_for_nonneg [simp]: "0 \<le> held_for p"
  by (simp add: held_for_def)

lemma held_in_simps [simp]: "held_in [] = 0" "held_in (e # ps) = held_for (snd e) + held_in ps"
  by (simp_all add: held_in_def)

lemma held_in_nonneg [simp]: "0 \<le> held_in ps"
  by (induction ps) simp_all

lemma held_in_update: "held_in (AList.update i p ps) = held_in ps - held_at ps i + held_for p"
  by (induction ps) (auto simp: held_at_def)

lemma delete_absent: "i \<notin> fst ` set ps \<Longrightarrow> AList.delete i ps = ps"
  by (induction ps) (auto simp: AList.delete_eq)

lemma held_in_delete:
  "distinct (map fst ps) \<Longrightarrow> held_in (AList.delete i ps) = held_in ps - held_at ps i"
  by (induction ps) (auto simp: held_at_def AList.delete_eq delete_absent [unfolded AList.delete_eq])

lemma held_at_le: "held_at ps i \<le> held_in ps"
proof (induction ps)
  case (Cons e ps)
  then show ?case by (cases "fst e = i") (auto simp: held_at_def add_increasing split: option.splits)
qed (simp add: held_at_def)

lemma length_update: "length (AList.update i p ps) = (if map_of ps i = None then Suc (length ps) else length ps)"
  by (induction ps) auto

lemma set_update_subset: "set (AList.update i p ps) \<subseteq> insert (i, p) (set ps)"
  by (induction ps) auto

definition pending_ok :: "pending_request \<Rightarrow> bool" where
  "pending_ok p \<longleftrightarrow>
     distinct (map fst (pr_chunks p)) \<and>
     (case pr_metadata p of
        None \<Rightarrow> pr_chunks p = []
      | Some m \<Rightarrow> replay_metadata m \<noteq> None \<and> pr_operation p \<in> {OpHistory, OpSnapshot})"

definition tracker_inv :: "request_tracker \<Rightarrow> bool" where
  "tracker_inv t \<longleftrightarrow>
     distinct (map fst (rt_pending t)) \<and> length (rt_pending t) \<le> 128 \<and>
     (\<forall>(i, p) \<in> set (rt_pending t). isSessionCtlRequestId i \<and> pending_ok p) \<and>
     rt_bufferedBytes t = held_in (rt_pending t) \<and> rt_bufferedBytes t \<le> 12 * 1024 * 1024"

lemma tracker_invD:
  assumes "tracker_inv t"
  shows "distinct (map fst (rt_pending t))" "length (rt_pending t) \<le> 128"
    "map_of (rt_pending t) i = Some p \<Longrightarrow> isSessionCtlRequestId i \<and> pending_ok p"
    "rt_bufferedBytes t = held_in (rt_pending t)" "rt_bufferedBytes t \<le> 12 * 1024 * 1024"
  using assms by (auto simp: tracker_inv_def dest!: map_of_SomeD)

lemma remove_inv:
  assumes "tracker_inv t"
  shows "tracker_inv (remove_request t i)"
proof (cases "map_of (rt_pending t) i")
  case None
  then show ?thesis using assms by (simp add: remove_request_def)
next
  case (Some p)
  let ?ps = "AList.delete i (rt_pending t)"
  have "held_in ?ps = rt_bufferedBytes t - chunk_bytes (pr_chunks p)"
    using held_in_delete [OF tracker_invD(1) [OF assms]] tracker_invD(4) [OF assms] Some
    by (simp add: held_at_def held_for_def)
  moreover have sub: "set ?ps \<subseteq> set (rt_pending t)" by (auto simp: AList.delete_eq)
  moreover have "length ?ps \<le> length (rt_pending t)" by (simp add: AList.delete_eq)
  moreover have "rt_bufferedBytes t - chunk_bytes (pr_chunks p) \<le> 12582912"
    using tracker_invD(5) [OF assms] chunk_bytes_simps(3) [of "pr_chunks p"] by linarith
  moreover have "\<forall>(j, q) \<in> set ?ps. isSessionCtlRequestId j \<and> pending_ok q"
    using sub assms unfolding tracker_inv_def by blast
  ultimately show ?thesis
    using tracker_invD(1,2,5) [OF assms] Some by (simp add: tracker_inv_def remove_request_def AList.distinct_delete)
qed

lemma update_inv:
  assumes "tracker_inv t" "isSessionCtlRequestId i" "pending_ok p"
    and "map_of (rt_pending t) i = None \<Longrightarrow> length (rt_pending t) < 128"
    and "n = rt_bufferedBytes t - held_at (rt_pending t) i + held_for p" "n \<le> 12 * 1024 * 1024"
  shows "tracker_inv \<lparr>rt_pending = AList.update i p (rt_pending t), rt_bufferedBytes = n\<rparr>"
proof -
  have "length (AList.update i p (rt_pending t)) \<le> 128"
    using assms(4) tracker_invD(2) [OF assms(1)] by (auto simp: length_update)
  moreover have "\<forall>(j, q) \<in> set (AList.update i p (rt_pending t)). isSessionCtlRequestId j \<and> pending_ok q"
    using set_update_subset [of i p "rt_pending t"] assms(1-3) by (fastforce simp: tracker_inv_def)
  ultimately show ?thesis
    using assms(1,5,6) by (simp add: tracker_inv_def held_in_update AList.distinct_update)
qed

lemma register_inv:
  assumes "tracker_inv t"
  shows "tracker_inv (fst (register t i op))"
proof (cases "\<not> isSessionCtlRequestId i \<or> map_of (rt_pending t) i \<noteq> None \<or> length (rt_pending t) \<ge> 128")
  case True
  then show ?thesis using assms by (simp add: register_def SESSION_CTL_MAX_OUTSTANDING_REQUESTS_def)
next
  case False
  let ?p = "\<lparr>pr_operation = op, pr_metadata = None, pr_chunks = [], pr_chunkPayloadBytes = None\<rparr>"
  have "tracker_inv \<lparr>rt_pending = AList.update i ?p (rt_pending t), rt_bufferedBytes = rt_bufferedBytes t\<rparr>"
    by (rule update_inv [OF assms]) (use False tracker_invD(5) [OF assms] in
      \<open>auto simp: pending_ok_def held_at_def held_for_def\<close>)
  with False show ?thesis by (cases t) (simp add: register_def SESSION_CTL_MAX_OUTSTANDING_REQUESTS_def)
qed

lemma acceptResponse_inv:
  assumes "tracker_inv t"
  shows "tracker_inv (fst (acceptResponse t r))"
proof -
  have "tracker_inv \<lparr>rt_pending = AList.update i (p\<lparr>pr_metadata := Some r\<rparr>) (rt_pending t),
      rt_bufferedBytes = rt_bufferedBytes t\<rparr>"
    if p: "map_of (rt_pending t) i = Some p" "replay_metadata r = Some n" "pr_operation p \<in> {OpHistory, OpSnapshot}"
    for i p n
    by (rule update_inv [OF assms]) (use tracker_invD(3) [OF assms p(1)] p tracker_invD(5) [OF assms] in
      \<open>auto simp: pending_ok_def held_at_def held_for_def split: option.splits\<close>)
  then have stored: "tracker_inv (t\<lparr>rt_pending := AList.update i (p\<lparr>pr_metadata := Some r\<rparr>) (rt_pending t)\<rparr>)"
    if "map_of (rt_pending t) i = Some p" "replay_metadata r = Some n" "pr_operation p \<in> {OpHistory, OpSnapshot}"
    for i p n using that by (cases t) simp
  show ?thesis
    using assms stored remove_inv
    by (auto simp: acceptResponse_def reject_request_def Let_def split: option.splits)
qed

text \<open>A chunk whose request is known and announced, and that is not there yet, with the two counts.\<close>

definition awaited :: "request_tracker \<Rightarrow> ctl_chunk \<Rightarrow> pending_request \<Rightarrow> jsval \<Rightarrow> int \<Rightarrow> int \<Rightarrow> bool" where
  "awaited t c p m n T \<longleftrightarrow>
     map_of (rt_pending t) (ch_requestId c) = Some p \<and> pr_metadata p = Some m \<and>
     map_of (pr_chunks p) (ch_sequence c) = None \<and>
     js_safe (js_get m ''chunks'') = Some n \<and> js_safe (js_get m ''total_bytes'') = Some T"

definition with_chunk :: "pending_request \<Rightarrow> ctl_chunk \<Rightarrow> int option \<Rightarrow> pending_request" where
  "with_chunk p c sz =
     p\<lparr>pr_chunkPayloadBytes := sz, pr_chunks := pr_chunks p @ [(ch_sequence c, ch_payload c)]\<rparr>"

definition chunk_stored :: "request_tracker \<Rightarrow> ctl_chunk \<Rightarrow> pending_request \<Rightarrow> request_tracker" where
  "chunk_stored t c p =
     \<lparr>rt_pending = AList.update (ch_requestId c) p (rt_pending t),
      rt_bufferedBytes = rt_bufferedBytes t + int (length (ch_payload c))\<rparr>"

lemma unawaited_chunk: "\<not> (\<exists>p m n T. awaited t c p m n T) \<Longrightarrow> acceptChunk t c = (t, None)"
  by (auto simp: acceptChunk_def awaited_def split: option.splits)

lemma awaited_chunk:
  assumes "awaited t c p m n T"
  shows "acceptChunk t c =
    (if ch_sequence c \<ge> n then (t, None)
     else if ch_last c \<noteq> (ch_sequence c = n - 1) \<or> ch_payload c = [] \<or>
       int (length (ch_payload c)) > SESSION_CTL_CHUNK_PAYLOAD_BYTES_w
     then reject_request t (ch_requestId c) p BadFlagOrLength
     else case chunk_size p c n T of
       Inl reason \<Rightarrow> reject_request t (ch_requestId c) p reason
     | Inr sz \<Rightarrow>
         if rt_bufferedBytes t + int (length (ch_payload c)) > SESSION_CTL_MAX_REPLAY_BYTES_w
         then reject_request t (ch_requestId c) p OverLimit
         else if int (length (pr_chunks (with_chunk p c sz))) \<noteq> n then (chunk_stored t c (with_chunk p c sz), None)
         else (case combineSessionCtlChunks (pr_chunks (with_chunk p c sz)) n T of
            None \<Rightarrow> reject_request (chunk_stored t c (with_chunk p c sz)) (ch_requestId c) (with_chunk p c sz) NotAssembled
          | Some bs \<Rightarrow> (remove_request (chunk_stored t c (with_chunk p c sz)) (ch_requestId c), Some (TrackedReplay m bs))))"
  using assms unfolding acceptChunk_def awaited_def with_chunk_def chunk_stored_def Let_def by simp

lemma stored_inv:
  assumes "tracker_inv t" "awaited t c p m n T"
    and "rt_bufferedBytes t + int (length (ch_payload c)) \<le> SESSION_CTL_MAX_REPLAY_BYTES_w"
  shows "tracker_inv (chunk_stored t c (with_chunk p c sz))"
proof -
  have p: "map_of (rt_pending t) (ch_requestId c) = Some p" using assms(2) by (simp add: awaited_def)
  have "pending_ok (with_chunk p c sz)"
    using tracker_invD(3) [OF assms(1) p] assms(2)
    by (auto simp: pending_ok_def with_chunk_def awaited_def map_of_eq_None_iff split: option.splits)
  then show ?thesis
    unfolding chunk_stored_def
    by (intro update_inv [OF assms(1)]) (use p tracker_invD(3) [OF assms(1) p] assms(3) in
      \<open>simp_all add: held_at_def held_for_def with_chunk_def web_limits\<close>)
qed

lemma acceptChunk_inv:
  assumes "tracker_inv t"
  shows "tracker_inv (fst (acceptChunk t c))"
proof (cases "\<exists>p m n T. awaited t c p m n T")
  case True
  then obtain p m n T where a: "awaited t c p m n T" by blast
  show ?thesis
    unfolding awaited_chunk [OF a]
    using assms remove_inv [OF assms] remove_inv [OF stored_inv [OF assms a]] stored_inv [OF assms a]
    by (auto simp: reject_request_def split: sum.splits option.splits)
qed (use assms unawaited_chunk in simp)

subsection \<open>The invariant\<close>

datatype tracker_op =
    Register utext ctl_operation
  | Cancel utext
  | ClearAll
  | Response jsval
  | Arrives ctl_chunk

fun tracker_do :: "request_tracker \<Rightarrow> tracker_op \<Rightarrow> request_tracker" where
  "tracker_do t (Register i op) = fst (register t i op)"
| "tracker_do t (Cancel i) = cancel_request t i"
| "tracker_do t ClearAll = clear_tracker t"
| "tracker_do t (Response r) = fst (acceptResponse t r)"
| "tracker_do t (Arrives c) = fst (acceptChunk t c)"

lemma empty_inv [simp]: "tracker_inv empty_tracker" "tracker_inv (clear_tracker t)"
  by (simp_all add: tracker_inv_def empty_tracker_def clear_tracker_def)

lemma tracker_do_inv: "tracker_inv t \<Longrightarrow> tracker_inv (tracker_do t x)"
  by (cases x) (simp_all add: register_inv remove_inv cancel_request_def acceptResponse_inv acceptChunk_inv)

lemma tracker_run_inv: "tracker_inv t \<Longrightarrow> tracker_inv (foldl tracker_do t xs)"
  by (induction xs arbitrary: t) (simp_all add: tracker_do_inv)

text \<open>
  C12: A hostile or broken daemon cannot make the browser hold more than it means to. Whatever requests,
  cancellations, responses and chunks follow one another, at most 128 requests are open, each once and
  under a well-formed id; the byte counter is exactly the number of bytes held, and never above 12 MiB;
  chunks are held only for replays whose announcement was accepted.
\<close>

theorem tracker_bounded:
  "case foldl tracker_do empty_tracker xs of t \<Rightarrow>
     length (rt_pending t) \<le> 128 \<and> distinct (map fst (rt_pending t)) \<and>
     list_all (\<lambda>(i, p). isSessionCtlRequestId i) (rt_pending t) \<and>
     rt_bufferedBytes t = sum_list (map (\<lambda>(i, p). chunk_bytes (pr_chunks p)) (rt_pending t)) \<and>
     rt_bufferedBytes t \<le> 12 * 1024 * 1024 \<and>
     list_all (\<lambda>(i, p). case pr_metadata p of None \<Rightarrow> pr_chunks p = [] | Some m \<Rightarrow> True) (rt_pending t)"
proof -
  have inv: "tracker_inv (foldl tracker_do empty_tracker xs)" (is "tracker_inv ?t") by (rule tracker_run_inv) simp
  have "case pr_metadata p of None \<Rightarrow> pr_chunks p = [] | Some m \<Rightarrow> True" if "(i, p) \<in> set (rt_pending ?t)" for i p
    using inv that by (auto simp: tracker_inv_def pending_ok_def split: option.splits)
  moreover have "rt_bufferedBytes ?t = sum_list (map (\<lambda>(i, p). chunk_bytes (pr_chunks p)) (rt_pending ?t))"
    using tracker_invD(4) [OF inv] by (simp add: held_in_def held_for_def case_prod_beta')
  ultimately show ?thesis
    using inv by (auto simp: tracker_inv_def list_all_iff)
qed

subsection \<open>Each request is the phone's assembler\<close>

definition assembler_of :: "utext \<Rightarrow> jsval \<Rightarrow> pending_request \<Rightarrow> assembler" where
  "assembler_of i m p =
     \<lparr>ra_chunks = pr_chunks p,
      ra_response = \<lparr>cr_request_id = Some i, cr_total_bytes = js_get m ''total_bytes'', cr_chunks = js_get m ''chunks''\<rparr>,
      ra_bufferedBytes = held_for p, ra_chunkPayloadBytes = pr_chunkPayloadBytes p\<rparr>"

definition frame_of :: "ctl_chunk \<Rightarrow> spct_frame" where
  "frame_of c = \<lparr>f_kind = FReplay, f_requestId = ch_requestId c, f_sequence = ch_sequence c, f_last = ch_last c,
     f_payload = ch_payload c\<rparr>"

fun reason_of :: "replay_error \<Rightarrow> reject_reason" where
  "reason_of ChunkOutOfRange = BadFlagOrLength"
| "reason_of FinalMismatch = FinalNotTotal"
| "reason_of SizeCannotCarry = CannotCarry"
| "reason_of NotOneSize = SizesDiffer"
| "reason_of TooLarge = OverLimit"
| "reason_of MissingChunk = NotAssembled"
| "reason_of ByteCountMismatch = NotAssembled"
| "reason_of MetadataMismatch = BadMetadata"

lemma chunk_size_eq:
  "chunk_size p c n T = map_sum reason_of (\<lambda>sz. sz) (accept_size (assembler_of i m p) (frame_of c) T n)"
  by (auto simp: chunk_size_def accept_size_def assembler_of_def frame_of_def Let_def web_limits phone_limits
    split: option.splits)

lemma combine_loop_eq: "combine_loop cs T k out n = gather cs T k out n"
  by (induction n arbitrary: k out) (auto split: option.split)

lemma plausible_eq: "replayChunkCountIsPlausible_w T n = replayChunkCountIsPlausible T n"
  by (simp add: replayChunkCountIsPlausible_w_def replayChunkCountIsPlausible_def web_limits phone_limits)

lemma delete_update: "AList.delete i (AList.update i p ps) = AList.delete i ps"
  by (induction ps) (auto simp: AList.delete_eq)

lemma remove_stored:
  assumes "map_of (rt_pending t) (ch_requestId c) = Some p"
  shows "remove_request (chunk_stored t c (with_chunk p c sz)) (ch_requestId c) = remove_request t (ch_requestId c)"
  using assms
  by (simp add: remove_request_def chunk_stored_def with_chunk_def delete_update AList.update_conv')

lemma assembler_with_chunk:
  "assembler_of (ch_requestId c) m (with_chunk p c sz) =
   (assembler_of (ch_requestId c) m p)\<lparr>ra_chunkPayloadBytes := sz,
     ra_bufferedBytes := held_for p + int (length (ch_payload c)),
     ra_chunks := pr_chunks p @ [(ch_sequence c, ch_payload c)]\<rparr>"
  by (simp add: assembler_of_def with_chunk_def held_for_def)

lemma replay_metadata_counts:
  assumes "replay_metadata m \<noteq> None"
  shows "\<exists>n T. js_safe (js_get m ''chunks'') = Some n \<and> js_safe (js_get m ''total_bytes'') = Some T"
  using assms by (auto simp: replay_metadata_def split: option.splits)

lemma replay_metadata_bounds:
  assumes "replay_metadata m \<noteq> None" "js_safe (js_get m ''chunks'') = Some n" "js_safe (js_get m ''total_bytes'') = Some T"
  shows "0 \<le> T" "T \<le> 12 * 1024 * 1024" "replayChunkCountIsPlausible T n"
    "safe_integer n" "safe_integer T" "0 \<le> n" "n \<le> SESSION_CTL_MAX_REPLAY_CHUNKS"
proof -
  have safe: "js_safe v = Some k \<Longrightarrow> safe_integer k" for v k
    by (auto simp: js_safe_def split: option.splits if_splits)
  show "safe_integer n" "safe_integer T" using assms(2,3) safe by blast+
  show "0 \<le> T" "T \<le> 12 * 1024 * 1024" "replayChunkCountIsPlausible T n" "0 \<le> n" "n \<le> SESSION_CTL_MAX_REPLAY_CHUNKS"
    using assms by (simp_all add: replay_metadata_def plausible_eq web_limits split: if_splits)
qed

lemma metadata_awaited:
  assumes "awaited t c p m n T" "replay_metadata m \<noteq> None" "ch_sequence c < n"
  shows "accept_metadata (assembler_of (ch_requestId c) m p) (frame_of c) = Some (T, n)"
proof -
  have a: "map_of (pr_chunks p) (ch_sequence c) = None" "js_safe (js_get m ''chunks'') = Some n"
    "js_safe (js_get m ''total_bytes'') = Some T" using assms(1) by (simp_all add: awaited_def)
  from replay_metadata_bounds [OF assms(2) a(2,3)] a assms(3) show ?thesis
    by (simp add: accept_metadata_def assembler_of_def frame_of_def phone_limits)
qed

lemma combine_eq:
  assumes "replay_metadata m \<noteq> None" "js_safe (js_get m ''chunks'') = Some n" "js_safe (js_get m ''total_bytes'') = Some T"
    and "int (length cs) = n"
  shows "combineSessionCtlChunks cs n T =
    (case gather cs T 0 [] (nat n) of None \<Rightarrow> None | Some bs \<Rightarrow> if int (length bs) = T then Some bs else None)"
  using replay_metadata_bounds [OF assms(1-3)] assms(4)
  by (simp add: combineSessionCtlChunks_def combine_loop_eq web_limits)

lemma unawaited_metadata:
  assumes "map_of (rt_pending t) (ch_requestId c) = Some p" "pr_metadata p = Some m"
    and "\<not> (\<exists>n T. awaited t c p m n T \<and> ch_sequence c < n)"
  shows "accept_metadata (assembler_of (ch_requestId c) m p) (frame_of c) = None"
  using assms by (auto simp: accept_metadata_def awaited_def assembler_of_def frame_of_def split: option.splits)

lemma awaited_accept:
  assumes "awaited t c p m n T" "replay_metadata m \<noteq> None" "ch_sequence c < n"
    and room: "held_for p + int (length (ch_payload c)) \<le> SESSION_CTL_MAX_REPLAY_BYTES"
  shows "accept (assembler_of (ch_requestId c) m p) (frame_of c) =
    (if ch_last c \<noteq> (ch_sequence c = n - 1) \<or> ch_payload c = [] \<or>
       int (length (ch_payload c)) > SESSION_CTL_CHUNK_PAYLOAD_BYTES
     then (assembler_of (ch_requestId c) m p, ReplayInvalid ChunkOutOfRange)
     else case accept_size (assembler_of (ch_requestId c) m p) (frame_of c) T n of
       Inl e \<Rightarrow> (assembler_of (ch_requestId c) m p, ReplayInvalid e)
     | Inr sz \<Rightarrow> (assembler_of (ch_requestId c) m (with_chunk p c sz),
         if int (length (pr_chunks (with_chunk p c sz))) \<noteq> n then ReplayPending
         else case gather (pr_chunks (with_chunk p c sz)) T 0 [] (nat n) of
           None \<Rightarrow> ReplayInvalid MissingChunk
         | Some bs \<Rightarrow> if int (length bs) = T then ReplayComplete bs else ReplayInvalid ByteCountMismatch))"
proof -
  have f: "f_payload (frame_of c) = ch_payload c" "f_sequence (frame_of c) = ch_sequence c" "f_last (frame_of c) = ch_last c"
    by (simp_all add: frame_of_def)
  have a: "ra_bufferedBytes (assembler_of (ch_requestId c) m p) = held_for p"
    "ra_chunks (assembler_of (ch_requestId c) m p) = pr_chunks p" by (simp_all add: assembler_of_def)
  show ?thesis
    using room unfolding accept_def metadata_awaited [OF assms(1-3)] option.case prod.case Let_def assembler_with_chunk
    by (simp add: f a with_chunk_def split: sum.split option.split)
qed

lemma held_for_le:
  assumes "tracker_inv t" "map_of (rt_pending t) i = Some p"
  shows "held_for p \<le> rt_bufferedBytes t"
  using held_at_le [of "rt_pending t" i] tracker_invD(4) [OF assms(1)] assms(2) by (simp add: held_at_def)

lemma refines_ignored:
  assumes "map_of (rt_pending t) (ch_requestId c) = Some p" "pr_metadata p = Some m"
    and "\<not> (\<exists>n T. awaited t c p m n T \<and> ch_sequence c < n)"
  shows "acceptChunk t c = (t, None)"
proof (cases "\<exists>p m n T. awaited t c p m n T")
  case True
  then obtain n T where a: "awaited t c p m n T" using assms(1,2) by (auto simp: awaited_def)
  then have "n \<le> ch_sequence c" using assms(3) not_le by blast
  then show ?thesis by (simp add: awaited_chunk [OF a])
qed (simp add: unawaited_chunk)

lemma tracker_refines_step:
  assumes "tracker_inv t" "map_of (rt_pending t) (ch_requestId c) = Some p" "pr_metadata p = Some m"
    and "rt_bufferedBytes t + int (length (ch_payload c)) \<le> 12 * 1024 * 1024"
  shows "case accept (assembler_of (ch_requestId c) m p) (frame_of c) of
      (a, ReplayPending) \<Rightarrow>
        \<exists>sz. acceptChunk t c = (chunk_stored t c (with_chunk p c sz), None) \<and>
          a = assembler_of (ch_requestId c) m (with_chunk p c sz)
    | (a, ReplayComplete bs) \<Rightarrow>
        acceptChunk t c = (remove_request t (ch_requestId c), Some (TrackedReplay m bs))
    | (a, ReplayInvalid e) \<Rightarrow>
        if e = MetadataMismatch then acceptChunk t c = (t, None)
        else acceptChunk t c = (remove_request t (ch_requestId c),
          Some (TrackedRejected (ch_requestId c) (pr_operation p) (reason_of e)))"
proof (cases "\<exists>n T. awaited t c p m n T \<and> ch_sequence c < n")
  case False
  then have "accept (assembler_of (ch_requestId c) m p) (frame_of c) =
      (assembler_of (ch_requestId c) m p, ReplayInvalid MetadataMismatch)"
    using unawaited_metadata [OF assms(2,3)] by (simp add: accept_def)
  with refines_ignored [OF assms(2,3) False] show ?thesis by simp
next
  case True
  then obtain n T where a: "awaited t c p m n T" "ch_sequence c < n" by blast
  have m: "replay_metadata m \<noteq> None"
    using tracker_invD(3) [OF assms(1,2)] assms(3) by (simp add: pending_ok_def)
  have counts: "js_safe (js_get m ''chunks'') = Some n" "js_safe (js_get m ''total_bytes'') = Some T"
    using a(1) by (simp_all add: awaited_def)
  have room: "held_for p + int (length (ch_payload c)) \<le> SESSION_CTL_MAX_REPLAY_BYTES"
    using held_for_le [OF assms(1,2)] assms(4) by (simp add: phone_limits)
  have ne: "accept_size (assembler_of (ch_requestId c) m p) (frame_of c) T n \<noteq> Inl MetadataMismatch"
    by (auto simp: accept_size_def Let_def split: option.splits if_splits)
  show ?thesis
    unfolding awaited_accept [OF a(1) m a(2) room] awaited_chunk [OF a(1)] chunk_size_eq [of p c n T "ch_requestId c" m]
    using a(2) assms(4) ne combine_eq [OF m counts] remove_stored [OF assms(2)]
    by (auto simp: web_limits phone_limits reject_request_def with_chunk_def
      split: sum.splits option.splits if_splits)
qed

text \<open>
  C13: The browser's table is the phone's assembler, once per request. For a request whose announcement was
  accepted, and as long as the bytes held for all requests leave room, a chunk that the assembler would
  keep is kept, one that completes the replay removes the request and delivers the same bytes, one that is
  a duplicate or out of range is ignored, and one that the assembler calls invalid removes the request and
  reports the reason. In every case only this request changes.
\<close>

theorem tracker_refines:
  assumes "tracker_inv t" "map_of (rt_pending t) (ch_requestId c) = Some p" "pr_metadata p = Some m"
    and "rt_bufferedBytes t + int (length (ch_payload c)) \<le> 12 * 1024 * 1024"
  shows "case accept (assembler_of (ch_requestId c) m p) (frame_of c) of
      (a, ReplayPending) \<Rightarrow>
        \<exists>sz. acceptChunk t c = (chunk_stored t c (with_chunk p c sz), None) \<and>
          a = assembler_of (ch_requestId c) m (with_chunk p c sz)
    | (a, ReplayComplete bs) \<Rightarrow>
        acceptChunk t c = (remove_request t (ch_requestId c), Some (TrackedReplay m bs))
    | (a, ReplayInvalid e) \<Rightarrow>
        if e = MetadataMismatch then acceptChunk t c = (t, None)
        else acceptChunk t c = (remove_request t (ch_requestId c),
          Some (TrackedRejected (ch_requestId c) (pr_operation p) (reason_of e)))"
  using assms by (rule tracker_refines_step)

subsection \<open>Replays in any order\<close>

definition replay_piece :: "utext \<Rightarrow> bytes \<Rightarrow> nat \<Rightarrow> nat \<Rightarrow> nat \<Rightarrow> ctl_chunk" where
  "replay_piece rid bs c n i = chunk_of (replay_frame rid bs c n i)"

definition receiving ::
  "request_tracker \<Rightarrow> utext \<Rightarrow> jsval \<Rightarrow> bytes \<Rightarrow> nat \<Rightarrow> nat \<Rightarrow> nat list \<Rightarrow> int \<Rightarrow> bool" where
  "receiving t rid m bs c n ks others \<longleftrightarrow>
     tracker_inv t \<and>
     (\<exists>p. map_of (rt_pending t) rid = Some p \<and> pr_metadata p = Some m \<and>
        assembler_of rid m p = after_chunks rid bs c n ks \<and> rt_bufferedBytes t = others + held_for p)"

lemma frame_of_piece [simp]: "frame_of (replay_piece rid bs c n i) = replay_frame rid bs c n i"
  "ch_requestId (replay_piece rid bs c n i) = rid" "ch_payload (replay_piece rid bs c n i) = chunk bs c i"
  by (simp_all add: frame_of_def replay_piece_def chunk_of_def replay_frame_def)

lemma held_after:
  assumes "framed bs c n" "distinct (ks @ [i])" "set (ks @ [i]) \<subseteq> {0..<n}"
    and "assembler_of rid m p = after_chunks rid bs c n ks"
  shows "held_for p + int (length (chunk bs c i)) \<le> int (length bs)"
proof -
  have "held_for p = int (sum_list (map (\<lambda>i. length (chunk bs c i)) ks))"
    using arg_cong [OF assms(4), of ra_bufferedBytes] by (simp add: assembler_of_def after_chunks_def)
  then show ?thesis using sum_chunks [OF assms(1-3)] by simp
qed

lemma receive_piece:
  assumes "receiving t rid m bs c n ks others" "framed bs c n" "distinct (ks @ [i])" "set (ks @ [i]) \<subseteq> {0..<n}"
    and "others + int (length bs) \<le> 12 * 1024 * 1024"
  shows "if length (ks @ [i]) = n
    then acceptChunk t (replay_piece rid bs c n i) = (remove_request t rid, Some (TrackedReplay m bs))
    else snd (acceptChunk t (replay_piece rid bs c n i)) = None \<and>
      receiving (fst (acceptChunk t (replay_piece rid bs c n i))) rid m bs c n (ks @ [i]) others"
proof -
  let ?c = "replay_piece rid bs c n i"
  obtain p where p: "map_of (rt_pending t) rid = Some p" "pr_metadata p = Some m"
    "assembler_of rid m p = after_chunks rid bs c n ks" "rt_bufferedBytes t = others + held_for p"
    and inv: "tracker_inv t" using assms(1) unfolding receiving_def by blast
  have room: "rt_bufferedBytes t + int (length (ch_payload ?c)) \<le> 12 * 1024 * 1024"
    using held_after [OF assms(2-4) p(3)] p(4) assms(5) by simp
  have acc: "accept (assembler_of (ch_requestId ?c) m p) (frame_of ?c) =
      (after_chunks rid bs c n (ks @ [i]), if length (ks @ [i]) = n then ReplayComplete bs else ReplayPending)"
    using accept_framed [OF assms(2-4)] p(3) by simp
  note r = tracker_refines_step [OF inv _ p(2) room, unfolded acc]
  show ?thesis
  proof (cases "length (ks @ [i]) = n")
    case True
    with r p(1) show ?thesis by simp
  next
    case False
    with r p(1) obtain sz where s: "acceptChunk t ?c = (chunk_stored t ?c (with_chunk p ?c sz), None)"
      "after_chunks rid bs c n (ks @ [i]) = assembler_of rid m (with_chunk p ?c sz)" by auto
    have "tracker_inv (fst (acceptChunk t ?c))" by (rule acceptChunk_inv [OF inv])
    then have "receiving (fst (acceptChunk t ?c)) rid m bs c n (ks @ [i]) others"
      unfolding receiving_def s fst_conv
      by (auto simp: chunk_stored_def AList.update_conv' with_chunk_def p(2,4) held_for_def s(2)
        intro!: exI [of _ "with_chunk p ?c sz"])
    with False s(1) show ?thesis by simp
  qed
qed

lemma receive_pieces:
  assumes "receiving t rid m bs c n [] others" "framed bs c n" "others + int (length bs) \<le> 12 * 1024 * 1024"
    and "distinct ks" "set ks \<subseteq> {0..<n}" "length ks < n"
  shows "receiving (foldl (\<lambda>t k. fst (acceptChunk t (replay_piece rid bs c n k))) t ks) rid m bs c n ks others"
  using assms(4-6)
proof (induction ks rule: rev_induct)
  case Nil
  then show ?case using assms(1) by simp
next
  case (snoc k ks)
  then have "receiving (foldl (\<lambda>t k. fst (acceptChunk t (replay_piece rid bs c n k))) t ks) rid m bs c n ks others"
    by simp
  from receive_piece [OF this assms(2) snoc.prems(1,2) assms(3)] snoc.prems(3) show ?case by simp
qed

text \<open>
  C14: A replay completes in the browser too. Once its announcement is accepted, and if the bytes held for
  other requests leave room for it, a replay that the daemon cut into chunks of one accepted size is
  delivered, exactly as it was sent, by the chunk that arrives last, in whatever order they come; the
  request is then closed.
\<close>

theorem tracker_any_order:
  assumes "tracker_inv t" "map_of (rt_pending t) rid = Some p" "pr_metadata p = Some m" "pr_chunks p = []"
    and "pr_chunkPayloadBytes p = None" "js_get m ''total_bytes'' = JNum (of_nat (length bs))"
    and "js_get m ''chunks'' = JNum (of_nat n)" "rt_bufferedBytes t + int (length bs) \<le> 12 * 1024 * 1024"
    and "1024 \<le> c" "c \<le> 48 * 1024" "(n - 1) * c < length bs" "length bs \<le> n * c"
    and "distinct (ks @ [i])" "set (ks @ [i]) = {0..<n}"
  shows "case acceptChunk (foldl (\<lambda>t k. fst (acceptChunk t (replay_piece rid bs c n k))) t ks)
      (replay_piece rid bs c n i) of
    (t', result) \<Rightarrow> result = Some (TrackedReplay m bs) \<and> map_of (rt_pending t') rid = None"
proof -
  have "0 \<le> rt_bufferedBytes t" using tracker_invD(4) [OF assms(1)] by simp
  then have framed: "framed bs c n" using assms(8-12) by (simp add: framed_def)
  have start: "receiving t rid m bs c n [] (rt_bufferedBytes t)"
    using assms(1-7)
    by (auto simp: receiving_def assembler_of_def after_chunks_def replay_response_def held_for_def)
  have "card (set (ks @ [i])) = n" using assms(14) by simp
  then have len: "length (ks @ [i]) = n" using distinct_card [OF assms(13)] by simp
  let ?t = "foldl (\<lambda>t k. fst (acceptChunk t (replay_piece rid bs c n k))) t ks"
  have "receiving ?t rid m bs c n ks (rt_bufferedBytes t)"
    by (rule receive_pieces [OF start framed assms(8)]) (use assms(13,14) len in auto)
  from receive_piece [OF this framed assms(13) equalityD1 [OF assms(14)] assms(8)] len
  have "acceptChunk ?t (replay_piece rid bs c n i) = (remove_request ?t rid, Some (TrackedReplay m bs))" by simp
  moreover have "map_of (rt_pending (remove_request ?t rid)) rid = None"
    by (auto simp: remove_request_def AList.delete_conv' split: option.split)
  ultimately show ?thesis by simp
qed

subsection \<open>Instances\<close>

definition small_replay :: jsval where
  "small_replay = JObj [(''total_bytes'', JNum (of_nat 3)), (''chunks'', JNum (of_nat 1)), (''plain'', JBool True)]"

definition one_request :: request_tracker where
  "one_request = \<lparr>rt_pending = [(some_id, \<lparr>pr_operation = OpSnapshot, pr_metadata = Some small_replay, pr_chunks = [],
     pr_chunkPayloadBytes = None\<rparr>)], rt_bufferedBytes = 0\<rparr>"

lemma one_request_inv: "tracker_inv one_request"
proof -
  have "replay_metadata small_replay = Some 1"
    by (simp add: replay_metadata_def small_replay_def js_safe_def safe_integer_def web_limits ceil_div_def
      SESSION_CTL_MAX_REPLAY_CHUNKS_def replayChunkCountIsPlausible_w_def js_boolean_def)
  then show ?thesis
    using some_id_control(1)
    by (simp add: tracker_inv_def one_request_def pending_ok_def held_for_def isSessionCtlRequestId_def isControlId_def)
qed

lemma one_request_simps [simp]: "rt_bufferedBytes one_request = 0"
  "map_of (rt_pending one_request) some_id = Some \<lparr>pr_operation = OpSnapshot, pr_metadata = Some small_replay,
     pr_chunks = [], pr_chunkPayloadBytes = None\<rparr>"
  by (simp_all add: one_request_def)

theorem tracker_refines_witness:
  "acceptChunk one_request (replay_piece some_id [1, 2, 3] 1024 1 0) =
    (remove_request one_request some_id, Some (TrackedReplay small_replay [1, 2, 3]))"
proof -
  let ?c = "replay_piece some_id [1, 2, 3] 1024 1 0"
  let ?p = "\<lparr>pr_operation = OpSnapshot, pr_metadata = Some small_replay, pr_chunks = [], pr_chunkPayloadBytes = None\<rparr>"
  have "assembler_of some_id small_replay ?p = after_chunks some_id [1, 2, 3] 1024 1 []"
    by (simp add: assembler_of_def after_chunks_def replay_response_def held_for_def small_replay_def)
  then have a: "accept (assembler_of (ch_requestId ?c) small_replay ?p) (frame_of ?c) =
      (after_chunks some_id [1, 2, 3] 1024 1 [0], ReplayComplete [1, 2, 3])"
    using accept_framed [of "[1, 2, 3]" 1024 1 "[]" 0 some_id] by (simp add: framed_def)
  show ?thesis
    using tracker_refines [OF one_request_inv, of ?c ?p small_replay, unfolded a] by (simp add: chunk_def)
qed

theorem tracker_any_order_witness:
  "snd (acceptChunk one_request (replay_piece some_id [1, 2, 3] 1024 1 0)) = Some (TrackedReplay small_replay [1, 2, 3])"
  using tracker_any_order [OF one_request_inv, of some_id _ small_replay "[1, 2, 3]" 1 1024 "[]" 0]
  by (auto simp: small_replay_def)

end
