(* ===== verification/Input_Queue.thy ===== *)
theory Input_Queue
  imports Bytes
begin

section \<open>Queues of the terminal connection\<close>

text \<open>
  The two queues of \<open>web/src/lib/session-ctl.ts\<close>. \<open>SessionGenerationInputQueue\<close> holds what was typed
  while the terminal was not connected, for one generation of the session and for a limited time.
  \<open>OrderedAsyncQueue\<close> chains the decoding of messages so that they are delivered in the order they came.

  Times are integers, a maximal age is \<open>None\<close> for \<open>Number.POSITIVE_INFINITY\<close>. The arrays are lists; the
  loop of \<open>prune\<close> that compacts its array in place is modelled with its two indices.
\<close>

subsection \<open>Input held for a generation\<close>

record queue_entry =
  qe_generation :: int
  qe_bytes :: bytes
  qe_enqueuedAt :: int

record input_queue =
  iq_entries :: "queue_entry list"
  iq_bytes :: nat
  iq_maxBytes :: nat

definition new_queue :: "nat \<Rightarrow> input_queue" where
  "new_queue maxBytes = \<lparr>iq_entries = [], iq_bytes = 0, iq_maxBytes = maxBytes\<rparr>"

definition enqueue_input :: "input_queue \<Rightarrow> int \<Rightarrow> bytes \<Rightarrow> int \<Rightarrow> input_queue \<times> bool" where
  "enqueue_input q generation bs enqueuedAt =
     (if iq_bytes q + length bs > iq_maxBytes q then (q, False)
      else (q\<lparr>iq_entries := iq_entries q @
                [\<lparr>qe_generation = generation, qe_bytes = bs, qe_enqueuedAt = enqueuedAt\<rparr>],
              iq_bytes := iq_bytes q + length bs\<rparr>, True))"

definition clear_input :: "input_queue \<Rightarrow> input_queue" where
  "clear_input q = q\<lparr>iq_entries := [], iq_bytes := 0\<rparr>"

definition too_old :: "int option \<Rightarrow> int \<Rightarrow> queue_entry \<Rightarrow> bool" where
  "too_old maxAgeMs now e \<longleftrightarrow> (case maxAgeMs of None \<Rightarrow> False | Some ms \<Rightarrow> now - qe_enqueuedAt e > ms)"

definition take_input ::
  "input_queue \<Rightarrow> int \<Rightarrow> int option \<Rightarrow> int \<Rightarrow> input_queue \<times> (bytes \<times> int) list" where
  "take_input q generation maxAgeMs now =
     (let matching = filter (\<lambda>e. qe_generation e = generation \<and> \<not> too_old maxAgeMs now e) (iq_entries q)
      in (clear_input q, map (\<lambda>e. (qe_bytes e, qe_enqueuedAt e)) matching))"

definition drain_input :: "input_queue \<Rightarrow> int \<Rightarrow> int option \<Rightarrow> int \<Rightarrow> input_queue \<times> bytes list" where
  "drain_input q generation maxAgeMs now =
     (case take_input q generation maxAgeMs now of (q', entries) \<Rightarrow> (q', map fst entries))"

text \<open>
  The loop over the array: \<open>read\<close> is where the iteration stands, \<open>write\<close> where the next kept entry goes.
\<close>

function prune_loop ::
  "int \<Rightarrow> int option \<Rightarrow> int \<Rightarrow> nat \<Rightarrow> nat \<Rightarrow> nat \<Rightarrow> queue_entry list \<Rightarrow> nat \<times> nat \<times> queue_entry list" where
  "prune_loop generation maxAgeMs now read write bytes entries =
     (if read < length entries then
        let entry = entries ! read in
        if qe_generation entry \<noteq> generation \<or> too_old maxAgeMs now entry
        then prune_loop generation maxAgeMs now (read + 1) write bytes entries
        else prune_loop generation maxAgeMs now (read + 1) (write + 1) (bytes + length (qe_bytes entry))
               (entries[write := entry])
      else (write, bytes, entries))"
  by pat_completeness auto

termination
  by (relation "measure (\<lambda>(_, _, _, read, _, _, entries). length entries - read)") auto

declare prune_loop.simps [simp del]

definition prune_input :: "input_queue \<Rightarrow> int \<Rightarrow> int option \<Rightarrow> int \<Rightarrow> input_queue" where
  "prune_input q generation maxAgeMs now =
     (case prune_loop generation maxAgeMs now 0 0 0 (iq_entries q) of
        (write, bytes, entries) \<Rightarrow> q\<lparr>iq_entries := take write entries, iq_bytes := bytes\<rparr>)"

definition count_input :: "input_queue \<Rightarrow> int \<Rightarrow> nat" where
  "count_input q generation = length (filter (\<lambda>e. qe_generation e = generation) (iq_entries q))"

definition bytes_input :: "input_queue \<Rightarrow> int \<Rightarrow> nat" where
  "bytes_input q generation =
     foldl (\<lambda>total e. total + length (qe_bytes e)) 0 (filter (\<lambda>e. qe_generation e = generation) (iq_entries q))"

definition oldestEnqueuedAt :: "input_queue \<Rightarrow> int \<Rightarrow> int option" where
  "oldestEnqueuedAt q generation =
     map_option qe_enqueuedAt (find (\<lambda>e. qe_generation e = generation) (iq_entries q))"

subsection \<open>The loop keeps what it should\<close>

definition entry_bytes :: "queue_entry list \<Rightarrow> nat" where
  "entry_bytes es = sum_list (map (\<lambda>e. length (qe_bytes e)) es)"

definition current_entry :: "int \<Rightarrow> int option \<Rightarrow> int \<Rightarrow> queue_entry \<Rightarrow> bool" where
  "current_entry generation maxAgeMs now e \<longleftrightarrow> qe_generation e = generation \<and> \<not> too_old maxAgeMs now e"

lemma entry_bytes_simps [simp]:
  "entry_bytes [] = 0" "entry_bytes (e # es) = length (qe_bytes e) + entry_bytes es"
  "entry_bytes (es @ fs) = entry_bytes es + entry_bytes fs"
  by (simp_all add: entry_bytes_def)

lemma entry_bytes_filter: "entry_bytes (filter P es) \<le> entry_bytes es"
  by (induction es) auto

lemma prune_loop_spec:
  assumes "prune_loop g age now r w n es = (w', b, xs)" "w \<le> r"
  shows "w' = w + length (filter (current_entry g age now) (drop r es)) \<and>
    b = n + entry_bytes (filter (current_entry g age now) (drop r es)) \<and>
    take w' xs = take w es @ filter (current_entry g age now) (drop r es)"
  using assms
proof (induction g age now r w n es rule: prune_loop.induct)
  case (1 g age now r w n es)
  show ?case
  proof (cases "r < length es")
    case False
    then show ?thesis using 1(3) by (simp add: prune_loop.simps [of g age now r])
  next
    case True
    then have d: "drop r es = es ! r # drop (Suc r) es" by (simp add: Cons_nth_drop_Suc)
    show ?thesis
    proof (cases "current_entry g age now (es ! r)")
      case False
      then have "prune_loop g age now (r + 1) w n es = (w', b, xs)"
        using True 1(3) by (simp add: prune_loop.simps [of g age now r] current_entry_def)
      then show ?thesis
        using 1(1) [OF True refl] False 1(4) d by (auto simp: current_entry_def)
    next
      case keep: True
      let ?es = "es[w := es ! r]"
      have step: "prune_loop g age now (r + 1) (w + 1) (n + length (qe_bytes (es ! r))) ?es = (w', b, xs)"
        using True keep 1(3) by (simp add: prune_loop.simps [of g age now r] current_entry_def Let_def)
      have "drop (Suc r) ?es = drop (Suc r) es" using 1(4) by simp
      moreover have "take (Suc w) ?es = take w es @ [es ! r]"
        using True 1(4) by (simp add: take_Suc_conv_app_nth)
      ultimately show ?thesis
        using 1(2) [OF True refl _ step] keep 1(4) d by (auto simp: current_entry_def)
    qed
  qed
qed

lemma prune_input_fields:
  "iq_entries (prune_input q g age now) = filter (current_entry g age now) (iq_entries q)"
  "iq_bytes (prune_input q g age now) = entry_bytes (filter (current_entry g age now) (iq_entries q))"
  "iq_maxBytes (prune_input q g age now) = iq_maxBytes q"
proof -
  obtain w b xs where p: "prune_loop g age now 0 0 0 (iq_entries q) = (w, b, xs)" by (metis prod_cases3)
  from prune_loop_spec [OF this] p show
    "iq_entries (prune_input q g age now) = filter (current_entry g age now) (iq_entries q)"
    "iq_bytes (prune_input q g age now) = entry_bytes (filter (current_entry g age now) (iq_entries q))"
    "iq_maxBytes (prune_input q g age now) = iq_maxBytes q"
    by (auto simp: prune_input_def)
qed

subsection \<open>What the queue promises\<close>

datatype queue_op =
    QEnqueue int bytes int
  | QTake int "int option" int
  | QPrune int "int option" int
  | QClear

fun queue_do :: "input_queue \<Rightarrow> queue_op \<Rightarrow> input_queue" where
  "queue_do q (QEnqueue g bs since) = fst (enqueue_input q g bs since)"
| "queue_do q (QTake g age now) = fst (take_input q g age now)"
| "queue_do q (QPrune g age now) = prune_input q g age now"
| "queue_do q QClear = clear_input q"

text \<open>The abstract queue: the entries alone, with every operation in one step.\<close>

fun spec_do :: "nat \<Rightarrow> queue_entry list \<Rightarrow> queue_op \<Rightarrow> queue_entry list" where
  "spec_do maxBytes es (QEnqueue g bs since) =
     (if entry_bytes es + length bs > maxBytes then es
      else es @ [\<lparr>qe_generation = g, qe_bytes = bs, qe_enqueuedAt = since\<rparr>])"
| "spec_do maxBytes es (QTake g age now) = []"
| "spec_do maxBytes es (QPrune g age now) = filter (current_entry g age now) es"
| "spec_do maxBytes es QClear = []"

definition queue_inv :: "input_queue \<Rightarrow> bool" where
  "queue_inv q \<longleftrightarrow> iq_bytes q = entry_bytes (iq_entries q) \<and> iq_bytes q \<le> iq_maxBytes q"

lemma queue_step:
  assumes "queue_inv q"
  shows "queue_inv (queue_do q x)" "iq_maxBytes (queue_do q x) = iq_maxBytes q"
    "iq_entries (queue_do q x) = spec_do (iq_maxBytes q) (iq_entries q) x"
proof -
  have "entry_bytes (filter (current_entry g age now) (iq_entries q)) \<le> iq_maxBytes q" for g age now
    using assms entry_bytes_filter le_trans unfolding queue_inv_def by metis
  then show "queue_inv (queue_do q x)"
    using assms by (cases x) (simp_all add: queue_inv_def enqueue_input_def take_input_def clear_input_def prune_input_fields Let_def)
  show "iq_maxBytes (queue_do q x) = iq_maxBytes q" "iq_entries (queue_do q x) = spec_do (iq_maxBytes q) (iq_entries q) x"
    using assms by (cases x; simp add: queue_inv_def enqueue_input_def take_input_def clear_input_def prune_input_fields Let_def)+
qed

lemma queue_run:
  assumes "queue_inv q"
  shows "queue_inv (foldl queue_do q xs) \<and> iq_maxBytes (foldl queue_do q xs) = iq_maxBytes q \<and>
    iq_entries (foldl queue_do q xs) = foldl (spec_do (iq_maxBytes q)) (iq_entries q) xs"
  using assms by (induction xs arbitrary: q) (simp_all add: queue_step)

lemma foldl_entry_bytes: "foldl (\<lambda>n e. n + length (qe_bytes e)) k es = k + entry_bytes es"
  by (induction es arbitrary: k) simp_all

text \<open>
  C29: Typed input waits only for its own session and only for so long. After any sequence of operations the
  queue holds exactly what the plain list of entries would hold, its byte counter is exact and within the
  limit, and what a take delivers are the bytes of the entries of the asked generation that are not too
  old, in the order they were typed; pruning first with the same arguments changes nothing about that.
\<close>

theorem input_queue_refines:
  "let q = foldl queue_do (new_queue maxBytes) xs; es = foldl (spec_do maxBytes) [] xs in
   iq_entries q = es \<and> iq_bytes q = entry_bytes es \<and> iq_bytes q \<le> maxBytes \<and>
   snd (drain_input q g age now) = map qe_bytes (filter (current_entry g age now) es) \<and>
   snd (drain_input (prune_input q g age now) g age now) = snd (drain_input q g age now) \<and>
   bytes_input q g = entry_bytes (filter (\<lambda>e. qe_generation e = g) es) \<and>
   iq_entries (fst (drain_input q g age now)) = []"
proof -
  define q es where "q = foldl queue_do (new_queue maxBytes) xs" and "es = foldl (spec_do maxBytes) [] xs"
  have "queue_inv (new_queue maxBytes)" by (simp add: queue_inv_def new_queue_def)
  from queue_run [OF this, of xs] have q: "queue_inv q" "iq_maxBytes q = maxBytes" "iq_entries q = es"
    by (simp_all add: q_def es_def new_queue_def)
  have d: "snd (drain_input q' g age now) = map qe_bytes (filter (current_entry g age now) (iq_entries q'))" for q'
    by (simp add: drain_input_def take_input_def current_entry_def [abs_def] Let_def comp_def)
  show ?thesis
    unfolding q_def [symmetric] es_def [symmetric] Let_def
    using q d [of q] d [of "prune_input q g age now"]
    by (simp add: queue_inv_def prune_input_fields bytes_input_def foldl_entry_bytes drain_input_def take_input_def
      clear_input_def Let_def)
qed

subsection \<open>Decoding in order\<close>

text \<open>
  A queue of jobs, each a decode and its delivery. The promise chain \<open>#tail\<close> starts a job only when the
  one before it has settled, so the chain is the list of the jobs that have not settled, and its head is the
  one that is running. A job that settles, with a value or an exception, gives back its bytes and its
  place; an exception stops nobody behind it.
\<close>

record 'j async_queue =
  aq_chain :: "('j \<times> nat) list"
  aq_bytes :: nat
  aq_messages :: nat

definition new_async :: "'j async_queue" where
  "new_async = \<lparr>aq_chain = [], aq_bytes = 0, aq_messages = 0\<rparr>"

definition enqueue_async :: "nat \<Rightarrow> nat \<Rightarrow> 'j async_queue \<Rightarrow> 'j \<Rightarrow> nat \<Rightarrow> 'j async_queue \<times> bool" where
  "enqueue_async maxBytes maxMessages q job n =
     (if aq_bytes q + n > maxBytes \<or> aq_messages q \<ge> maxMessages then (q, False)
      else (q\<lparr>aq_chain := aq_chain q @ [(job, n)], aq_bytes := aq_bytes q + n, aq_messages := aq_messages q + 1\<rparr>, True))"

definition settle_async :: "'j async_queue \<Rightarrow> 'j async_queue \<times> 'j option" where
  "settle_async q =
     (case aq_chain q of
        [] \<Rightarrow> (q, None)
      | (job, n) # rest \<Rightarrow>
          (q\<lparr>aq_chain := rest, aq_bytes := aq_bytes q - n, aq_messages := aq_messages q - 1\<rparr>, Some job))"

inductive async_run :: "nat \<Rightarrow> nat \<Rightarrow> 'j async_queue \<Rightarrow> 'j list \<Rightarrow> 'j list \<Rightarrow> bool" for maxBytes maxMessages where
  idle: "async_run maxBytes maxMessages new_async [] []"
| accepts: "async_run maxBytes maxMessages q taken settled \<Longrightarrow>
    enqueue_async maxBytes maxMessages q job n = (q', True) \<Longrightarrow>
    async_run maxBytes maxMessages q' (taken @ [job]) settled"
| refuses: "async_run maxBytes maxMessages q taken settled \<Longrightarrow>
    enqueue_async maxBytes maxMessages q job n = (q', False) \<Longrightarrow>
    async_run maxBytes maxMessages q' taken settled"
| settles: "async_run maxBytes maxMessages q taken settled \<Longrightarrow> settle_async q = (q', Some job) \<Longrightarrow>
    async_run maxBytes maxMessages q' taken (settled @ [job])"

definition async_inv :: "nat \<Rightarrow> nat \<Rightarrow> 'j async_queue \<Rightarrow> bool" where
  "async_inv maxBytes maxMessages q \<longleftrightarrow>
     aq_bytes q = sum_list (map snd (aq_chain q)) \<and> aq_messages q = length (aq_chain q) \<and>
     aq_bytes q \<le> maxBytes \<and> aq_messages q \<le> maxMessages"

lemma async_run_inv:
  "async_run maxBytes maxMessages q taken settled \<Longrightarrow>
   async_inv maxBytes maxMessages q \<and> taken = settled @ map fst (aq_chain q)"
  by (induction rule: async_run.induct)
    (auto simp: async_inv_def new_async_def enqueue_async_def settle_async_def split: if_splits list.splits prod.splits)

text \<open>
  Messages are delivered in the order they came and the queue is bounded: at every moment the jobs that
  have settled are the first of the jobs that were accepted, in the same order, none is skipped or run
  twice, and the accepted jobs that are still waiting hold no more bytes and messages than the limits.
\<close>

theorem async_queue_order:
  assumes "async_run maxBytes maxMessages q taken settled"
  shows "settled = take (length settled) taken \<and> length taken - length settled \<le> maxMessages \<and>
    sum_list (map snd (aq_chain q)) \<le> maxBytes \<and>
    (settled \<noteq> taken \<longrightarrow> (\<exists>q' job. settle_async q = (q', Some job) \<and> taken ! length settled = job))"
proof -
  have inv: "async_inv maxBytes maxMessages q" "taken = settled @ map fst (aq_chain q)"
    using async_run_inv [OF assms] by auto
  have "\<exists>q' job. settle_async q = (q', Some job) \<and> taken ! length settled = job" if "settled \<noteq> taken"
    using that inv(2) by (cases "aq_chain q") (auto simp: settle_async_def nth_append)
  with inv show ?thesis by (simp add: async_inv_def)
qed

theorem async_queue_order_witness:
  "\<exists>q. async_run 10 2 q [''a'', ''b''] [''a''] \<and> [''a''] = take 1 [''a'', ''b'']"
proof -
  let ?q = "\<lparr>aq_chain = [(''b'', 4)], aq_bytes = 4, aq_messages = 1\<rparr>"
  have a: "async_run 10 2 \<lparr>aq_chain = [(''a'', 3)], aq_bytes = 3, aq_messages = 1\<rparr> [''a''] []"
    using accepts [OF idle, of 10 2 "''a''" 3] by (simp add: enqueue_async_def new_async_def)
  have b: "async_run 10 2 \<lparr>aq_chain = [(''a'', 3), (''b'', 4)], aq_bytes = 7, aq_messages = 2\<rparr> [''a'', ''b''] []"
    using accepts [OF a, of "''b''" 4] by (simp add: enqueue_async_def numeral_2_eq_2)
  have "async_run 10 2 ?q [''a'', ''b''] [''a'']"
    using settles [OF b] by (simp add: settle_async_def)
  with async_queue_order [OF this] show ?thesis by auto
qed

end
