(* ===== verification/Paths.thy ===== *)
theory Paths
  imports Command_Text "HOL-Library.Sublist"
begin

section \<open>Paths of a host\<close>

text \<open>
  \<open>web/src/lib/paths.ts\<close>: the paths of files on a host, in the POSIX and the Windows notation. The
  functions work on strings; the theorems relate them to what a path means, the list of the names from
  the root on.

  The regular expressions of the source are small enough to be written out: \<open>drive_root\<close>,
  \<open>drive_relative\<close> and \<open>unc_parts\<close> return the groups of a match. \<open>toLowerCase\<close> and \<open>toUpperCase\<close> are
  arguments.
\<close>

datatype path_flavor = Posix | Windows

definition pathSeparator :: "path_flavor \<Rightarrow> nat" where
  "pathSeparator flavor = (if flavor = Windows then c_backslash else c_slash)"

definition pathFlavorForHostOS :: "(utext \<Rightarrow> utext) \<Rightarrow> utext option \<Rightarrow> path_flavor" where
  "pathFlavorForHostOS lower os =
     (case os of
        None \<Rightarrow> Posix
      | Some s \<Rightarrow> if lower (trim s) = u ''windows'' then Windows else Posix)"

text \<open>\<open>path.replace(/\//gu, "\\")\<close>, and cutting a run of separators off either end.\<close>

definition back_slashes :: "utext \<Rightarrow> utext" where
  "back_slashes path = map (\<lambda>c. if c = c_slash then c_backslash else c) path"

definition strip_end :: "(nat \<Rightarrow> bool) \<Rightarrow> utext \<Rightarrow> utext" where
  "strip_end P s = rev (dropWhile P (rev s))"

definition is_sep :: "nat \<Rightarrow> bool" where
  "is_sep c \<longleftrightarrow> c = c_backslash \<or> c = c_slash"

text \<open>\<open>/^([A-Za-z]):(?:\\|$)/\<close>: the letter and what follows the match.\<close>

fun drive_root :: "utext \<Rightarrow> (nat \<times> utext) option" where
  "drive_root (l # c # rest) =
     (if is_letter l \<and> c = c_colon \<and> (rest = [] \<or> hd rest = c_backslash) then Some (l, tl rest) else None)"
| "drive_root _ = None"

text \<open>\<open>/^([A-Za-z]):(.*)$/\<close>\<close>

fun drive_relative :: "utext \<Rightarrow> (nat \<times> utext) option" where
  "drive_relative (l # c # rest) =
     (if is_letter l \<and> c = c_colon \<and> list_all (\<lambda>d. \<not> line_terminator d) rest then Some (l, rest) else None)"
| "drive_relative _ = None"

text \<open>\<open>/^\\\\([^\\]+)\\([^\\]+)(?:\\|$)/\<close>: server, share and what follows the match.\<close>

definition unc_parts :: "utext \<Rightarrow> (utext \<times> utext \<times> utext) option" where
  "unc_parts s =
     (let not_sep = (\<lambda>c. c \<noteq> c_backslash); s2 = drop 2 s; a = takeWhile not_sep s2; s3 = dropWhile not_sep s2;
          b = takeWhile not_sep (tl s3); s4 = dropWhile not_sep (tl s3)
      in if take 2 s = [c_backslash, c_backslash] \<and> a \<noteq> [] \<and> s3 \<noteq> [] \<and> b \<noteq> []
         then Some (a, b, tl s4) else None)"

subsection \<open>Normal form\<close>

text \<open>One turn of the loop over the parts of a path.\<close>

definition resolve_part :: "utext list \<Rightarrow> utext \<Rightarrow> utext list" where
  "resolve_part parts part =
     (if part = [] \<or> part = [c_dot] then parts
      else if part = [c_dot, c_dot] then butlast parts
      else parts @ [part])"

definition normalizeAbsolutePath :: "path_flavor \<Rightarrow> utext \<Rightarrow> utext" where
  "normalizeAbsolutePath flavor path =
     (case flavor of
        Posix \<Rightarrow>
          let absolute = (if take 1 path = [c_slash] then path else c_slash # path);
              parts = foldl resolve_part [] (split_on c_slash absolute)
          in c_slash # join [c_slash] parts
      | Windows \<Rightarrow>
          let canonical = back_slashes path;
              (root, rest) =
                (case unc_parts canonical of
                   Some (a, b, rest) \<Rightarrow> ([c_backslash, c_backslash] @ a @ [c_backslash] @ b, rest)
                 | None \<Rightarrow>
                     (case drive_root canonical of
                        Some (l, rest) \<Rightarrow> ([l, c_colon, c_backslash], rest)
                      | None \<Rightarrow>
                          (case drive_relative canonical of
                             Some (l, rest) \<Rightarrow> ([l, c_colon, c_backslash], rest)
                           | None \<Rightarrow> ([c_backslash], dropWhile (\<lambda>c. c = c_backslash) canonical))));
              parts = foldl resolve_part [] (split_on c_backslash rest)
          in if parts = [] then root
             else root @ (if last root = c_backslash then [] else [c_backslash]) @ join [c_backslash] parts)"

definition pathRoot :: "path_flavor \<Rightarrow> utext \<Rightarrow> utext" where
  "pathRoot flavor path =
     (case flavor of
        Posix \<Rightarrow> [c_slash]
      | Windows \<Rightarrow>
          let canonical = back_slashes path in
          case drive_root canonical of
            Some (l, _) \<Rightarrow> [l, c_colon, c_backslash]
          | None \<Rightarrow>
              (case unc_parts canonical of
                 Some (a, b, _) \<Rightarrow> [c_backslash, c_backslash] @ a @ [c_backslash] @ b
               | None \<Rightarrow> [c_backslash]))"

definition trimTrailingSlash :: "(utext \<Rightarrow> utext) \<Rightarrow> path_flavor \<Rightarrow> utext \<Rightarrow> utext" where
  "trimTrailingSlash lower flavor path =
     (case flavor of
        Posix \<Rightarrow> if length path > 1 then strip_end (\<lambda>c. c = c_slash) path else path
      | Windows \<Rightarrow>
          if length path = 3 \<and> is_letter (path ! 0) \<and> path ! 1 = c_colon \<and> is_sep (path ! 2)
          then [path ! 0, c_colon, c_backslash]
          else
            let normalizedSeparators = back_slashes path;
                root = pathRoot Windows normalizedSeparators
            in if lower normalizedSeparators = lower root then root
               else strip_end (\<lambda>c. c = c_backslash) normalizedSeparators)"

definition pathsEqual :: "(utext \<Rightarrow> utext) \<Rightarrow> path_flavor \<Rightarrow> utext \<Rightarrow> utext \<Rightarrow> bool" where
  "pathsEqual lower flavor left right =
     (let a = trimTrailingSlash lower flavor (normalizeAbsolutePath flavor left);
          b = trimTrailingSlash lower flavor (normalizeAbsolutePath flavor right)
      in if flavor = Windows then lower a = lower b else a = b)"

subsection \<open>Parents, names and joining\<close>

text \<open>\<open>text.lastIndexOf(c)\<close>\<close>

definition last_index :: "nat \<Rightarrow> utext \<Rightarrow> int" where
  "last_index c s =
     (if c \<in> set s then int (length s) - 1 - int (length (takeWhile (\<lambda>d. d \<noteq> c) (rev s))) else - 1)"

definition or_else :: "utext \<Rightarrow> utext \<Rightarrow> utext" where
  "or_else s fallback = (if s = [] then fallback else s)"

definition root_text :: "path_flavor \<Rightarrow> utext" where
  "root_text flavor = (if flavor = Windows then [c_backslash] else [c_slash])"

definition parentDir :: "(utext \<Rightarrow> utext) \<Rightarrow> path_flavor \<Rightarrow> utext \<Rightarrow> utext" where
  "parentDir lower flavor path =
     (let normalized = trimTrailingSlash lower flavor
            (normalizeAbsolutePath flavor (or_else path (root_text flavor)));
          root = pathRoot flavor normalized
      in if pathsEqual lower flavor normalized root then root
         else
           let idx = last_index (pathSeparator flavor) normalized in
           if idx < int (length root) then root
           else or_else (take (nat idx) normalized) root)"

definition basename :: "(utext \<Rightarrow> utext) \<Rightarrow> path_flavor \<Rightarrow> utext \<Rightarrow> utext" where
  "basename lower flavor path =
     (let normalized = trimTrailingSlash lower flavor path in
      if pathsEqual lower flavor normalized (pathRoot flavor normalized) then []
      else drop (nat (last_index (pathSeparator flavor) normalized + 1)) normalized)"

text \<open>\<open>rest.replace(/[\\/]+/gu, separator)\<close>: every run of separators becomes one.\<close>

fun squeeze_seps :: "utext \<Rightarrow> utext" where
  "squeeze_seps [] = []"
| "squeeze_seps (c # cs) =
     (if is_sep c then (if cs \<noteq> [] \<and> is_sep (hd cs) then squeeze_seps cs else c_backslash # squeeze_seps cs)
      else c # squeeze_seps cs)"

definition joinPath :: "(utext \<Rightarrow> utext) \<Rightarrow> path_flavor \<Rightarrow> utext \<Rightarrow> utext \<Rightarrow> utext" where
  "joinPath lower flavor base rest =
     (if rest = [] then base
      else
        let separator = pathSeparator flavor;
            cleanRest =
              (if flavor = Windows then squeeze_seps (dropWhile is_sep rest)
               else dropWhile (\<lambda>c. c = c_slash) rest);
            cleanBase = trimTrailingSlash lower flavor base
        in if flavor = Windows
           then cleanBase @ (if cleanBase \<noteq> [] \<and> last cleanBase = separator then [] else [separator]) @ cleanRest
           else cleanBase @ [separator] @ cleanRest)"

definition unc_start :: "utext \<Rightarrow> bool" where
  "unc_start path \<longleftrightarrow>
     (take 2 path = [c_backslash, c_backslash] \<or> take 2 path = [c_slash, c_slash]) \<and>
     (let s2 = drop 2 path; s3 = dropWhile (\<lambda>c. \<not> is_sep c) s2
      in takeWhile (\<lambda>c. \<not> is_sep c) s2 \<noteq> [] \<and> s3 \<noteq> [] \<and> takeWhile (\<lambda>c. \<not> is_sep c) (tl s3) \<noteq> [])"

definition isAbsolutePath :: "path_flavor \<Rightarrow> utext \<Rightarrow> bool" where
  "isAbsolutePath flavor path \<longleftrightarrow>
     (case flavor of
        Posix \<Rightarrow> take 1 path = [c_slash]
      | Windows \<Rightarrow>
          (length path \<ge> 3 \<and> is_letter (path ! 0) \<and> path ! 1 = c_colon \<and> is_sep (path ! 2)) \<or> unc_start path)"

definition isPathWithin :: "(utext \<Rightarrow> utext) \<Rightarrow> path_flavor \<Rightarrow> utext \<Rightarrow> utext \<Rightarrow> bool" where
  "isPathWithin lower flavor path rootPath =
     (let target = trimTrailingSlash lower flavor (normalizeAbsolutePath flavor path);
          normalizedRoot = trimTrailingSlash lower flavor (normalizeAbsolutePath flavor rootPath)
      in pathsEqual lower flavor target normalizedRoot \<or>
         (let separator = pathSeparator flavor;
              boundary = normalizedRoot @
                (if normalizedRoot \<noteq> [] \<and> last normalizedRoot = separator then [] else [separator])
          in if flavor = Windows then prefix (lower boundary) (lower target) else prefix boundary target))"

definition withTrailingSlash :: "path_flavor \<Rightarrow> utext \<Rightarrow> utext" where
  "withTrailingSlash flavor path =
     (let normalized = normalizeAbsolutePath flavor (or_else (trim path) (root_text flavor));
          root = pathRoot flavor normalized
      in if normalized = root \<and> root \<noteq> [] \<and> last root = pathSeparator flavor then normalized
         else normalized @ [pathSeparator flavor])"

subsection \<open>Directories typed by a person\<close>

text \<open>\<open>/^(?<drive>[A-Za-z]):(?<rest>[^\\/].*)$/\<close>\<close>

fun typed_drive :: "utext \<Rightarrow> (nat \<times> utext) option" where
  "typed_drive (l # c # d # rest) =
     (if is_letter l \<and> c = c_colon \<and> \<not> is_sep d \<and> list_all (\<lambda>e. \<not> line_terminator e) rest
      then Some (l, d # rest) else None)"
| "typed_drive _ = None"

definition home_drive :: "utext \<Rightarrow> nat option" where
  "home_drive home =
     (case home of
        l # c # _ \<Rightarrow> if is_letter l \<and> c = c_colon then Some l else None
      | _ \<Rightarrow> None)"

definition home_of :: "(utext \<Rightarrow> utext) \<Rightarrow> path_flavor \<Rightarrow> utext \<Rightarrow> utext" where
  "home_of lower flavor homeDir =
     or_else (trimTrailingSlash lower flavor
       (normalizeAbsolutePath flavor (or_else (trim (normalizeCommandText homeDir)) (root_text flavor))))
       (root_text flavor)"

definition normalizeCwdForHost :: "(utext \<Rightarrow> utext) \<Rightarrow> path_flavor \<Rightarrow> utext \<Rightarrow> utext \<Rightarrow> utext" where
  "normalizeCwdForHost lower flavor v homeDir =
     (let home = home_of lower flavor homeDir;
          raw = trim (normalizeCommandText v);
          joined = (\<lambda>rest. normalizeAbsolutePath flavor (joinPath lower flavor home rest));
          otherwise = (if isAbsolutePath flavor raw then normalizeAbsolutePath flavor raw else joined raw)
      in if raw = [] \<or> raw = [c_tilde] then home
         else if length raw \<ge> 2 \<and> raw ! 0 = c_tilde \<and> is_sep (raw ! 1) then joined (drop 2 raw)
         else if flavor = Windows then
           (case typed_drive raw of
              Some (l, rest) \<Rightarrow>
                if (case home_drive home of None \<Rightarrow> False | Some h \<Rightarrow> lower [h] = lower [l]) then joined rest
                else normalizeAbsolutePath flavor raw
            | None \<Rightarrow> otherwise)
         else otherwise)"

definition splitForDirectorySuggestions ::
  "(utext \<Rightarrow> utext) \<Rightarrow> path_flavor \<Rightarrow> utext \<Rightarrow> utext \<Rightarrow> utext \<times> utext" where
  "splitForDirectorySuggestions lower flavor v homeDir =
     (let raw = trim (normalizeCommandText v);
          resolved = normalizeCwdForHost lower flavor v homeDir
      in if raw = [] \<or> (if flavor = Windows then is_sep (last raw) else last raw = c_slash) then (resolved, [])
         else (parentDir lower flavor resolved, basename lower flavor resolved))"

definition reserved_names :: "utext list" where
  "reserved_names = map u ([''CON'', ''PRN'', ''AUX'', ''NUL''] @
     map (\<lambda>d. ''COM'' @ [d]) ''123456789'' @ map (\<lambda>d. ''LPT'' @ [d]) ''123456789'')"

definition isValidPathLeafName :: "(utext \<Rightarrow> utext) \<Rightarrow> path_flavor \<Rightarrow> utext \<Rightarrow> bool" where
  "isValidPathLeafName upper flavor v \<longleftrightarrow>
     v \<noteq> [] \<and> v \<noteq> [c_dot] \<and> v \<noteq> [c_dot, c_dot] \<and> c_slash \<notin> set v \<and>
     (flavor = Posix \<or>
      \<not> list_ex (\<lambda>c. c < 32) v \<and> \<not> list_ex (\<lambda>c. c \<in> set (u ''<>:/|?*'') \<or> c = c_dquote \<or> c = c_backslash) v \<and>
      last v \<noteq> c_dot \<and> last v \<noteq> c_blank \<and> upper (hd (split_on c_dot v)) \<notin> set reserved_names)"

subsection \<open>Names of a path\<close>

text \<open>What may stand between two separators of a normal path.\<close>

definition path_name :: "nat \<Rightarrow> utext \<Rightarrow> bool" where
  "path_name sep n \<longleftrightarrow> n \<noteq> [] \<and> n \<noteq> [c_dot] \<and> n \<noteq> [c_dot, c_dot] \<and> sep \<notin> set n"

lemma resolve_names:
  assumes "\<forall>n \<in> set ns. path_name sep n" "\<forall>p \<in> set ps. sep \<notin> set p"
  shows "\<forall>n \<in> set (foldl resolve_part ns ps). path_name sep n"
  using assms
proof (induction ps arbitrary: ns)
  case (Cons p ps)
  have "\<forall>n \<in> set (resolve_part ns p). path_name sep n"
    using Cons.prems by (auto simp: resolve_part_def path_name_def dest: in_set_butlastD)
  with Cons show ?case by simp
qed simp

lemma resolve_plain:
  "\<forall>n \<in> set ns. path_name sep n \<Longrightarrow> foldl resolve_part ms ns = ms @ ns"
  by (induction ns arbitrary: ms) (simp_all add: resolve_part_def path_name_def)

lemma split_on_append:
  "split_on c (xs @ c # ys) = split_on c xs @ split_on c ys"
  by (induction xs) (auto split: list.splits)

lemma resolve_empty [simp]: "resolve_part ns [] = ns"
  by (simp add: resolve_part_def)

definition posix_parts :: "utext \<Rightarrow> utext list" where
  "posix_parts path = foldl resolve_part [] (split_on c_slash path)"

definition posix_print :: "utext list \<Rightarrow> utext" where
  "posix_print ns = c_slash # join [c_slash] ns"

lemma posix_parts_names: "\<forall>n \<in> set (posix_parts p). path_name c_slash n"
  unfolding posix_parts_def by (rule resolve_names) (use split_on_no_sep in auto)

lemma posix_parts_slash [simp]: "posix_parts (c_slash # p) = posix_parts p"
  by (simp add: posix_parts_def)

lemma normalize_posix: "normalizeAbsolutePath Posix path = posix_print (posix_parts path)"
  by (auto simp: normalizeAbsolutePath_def posix_print_def posix_parts_def Let_def)

lemma posix_parts_join:
  assumes "\<forall>n \<in> set ns. path_name c_slash n"
  shows "posix_parts (join [c_slash] ns) = ns"
proof (cases ns)
  case (Cons m ms)
  then have "split_on c_slash (join [c_slash] ns) = ns"
    by (intro split_on_join) (use assms in \<open>auto simp: path_name_def\<close>)
  then show ?thesis using resolve_plain [OF assms, of "[]"] by (simp add: posix_parts_def)
qed (simp add: posix_parts_def)

lemma posix_parts_print [simp]: "\<forall>n \<in> set ns. path_name c_slash n \<Longrightarrow> posix_parts (posix_print ns) = ns"
  by (simp add: posix_print_def posix_parts_join)

lemma join_last:
  assumes "ns \<noteq> []" "last ns \<noteq> []"
  shows "join sep ns \<noteq> []" "last (join sep ns) = last (last ns)"
proof -
  have "join sep ns \<noteq> [] \<and> last (join sep ns) = last (last ns)"
    using assms by (induction ns rule: list_nonempty_induct) (auto simp: join_Cons)
  then show "join sep ns \<noteq> []" "last (join sep ns) = last (last ns)" by auto
qed

lemma strip_end_fixed: "s = [] \<or> \<not> P (last s) \<Longrightarrow> strip_end P s = s"
  by (cases s rule: rev_cases) (auto simp: strip_end_def)

lemma print_last:
  assumes "ns \<noteq> []" "\<forall>n \<in> set ns. path_name c_slash n"
  shows "last (posix_print ns) \<noteq> c_slash"
proof -
  have n: "path_name c_slash (last ns)" using assms by simp
  then have "last (join [c_slash] ns) = last (last ns)" "join [c_slash] ns \<noteq> []"
    using join_last assms(1) by (auto simp: path_name_def)
  then show ?thesis using n last_in_set unfolding posix_print_def path_name_def by (metis last_ConsR)
qed

lemma trim_print [simp]:
  assumes "\<forall>n \<in> set ns. path_name c_slash n"
  shows "trimTrailingSlash lower Posix (posix_print ns) = posix_print ns"
proof (cases ns)
  case Nil
  then show ?thesis by (simp add: trimTrailingSlash_def posix_print_def)
next
  case (Cons m ms)
  then show ?thesis
    using print_last [OF _ assms] strip_end_fixed by (simp add: trimTrailingSlash_def)
qed

lemma posix_print_inj:
  assumes "\<forall>n \<in> set ns. path_name c_slash n" "\<forall>n \<in> set ms. path_name c_slash n"
  shows "posix_print ns = posix_print ms \<longleftrightarrow> ns = ms"
  using posix_parts_print [OF assms(1)] posix_parts_print [OF assms(2)] by metis

lemma pathsEqual_posix: "pathsEqual lower Posix p q \<longleftrightarrow> posix_parts p = posix_parts q"
  by (simp add: pathsEqual_def normalize_posix posix_parts_names posix_print_inj)

subsection \<open>Containment\<close>

lemma split_print:
  assumes "\<forall>n \<in> set ns. path_name c_slash n"
  shows "split_on c_slash (posix_print ns) = [] # (if ns = [] then [[]] else ns)"
  using assms split_on_join [of ns c_slash] by (auto simp: posix_print_def path_name_def)

lemma boundary_prefix:
  assumes "\<forall>n \<in> set ps. path_name c_slash n" "\<forall>n \<in> set rs. path_name c_slash n" "rs \<noteq> []"
  shows "prefix (posix_print rs @ [c_slash]) (posix_print ps) \<longleftrightarrow> strict_prefix rs ps"
proof
  assume "prefix (posix_print rs @ [c_slash]) (posix_print ps)"
  then obtain t where "posix_print ps = posix_print rs @ c_slash # t" by (auto elim: prefixE)
  then have eq: "[] # (if ps = [] then [[]] else ps) = ([] # rs) @ split_on c_slash t"
    using split_print [OF assms(1)] split_print [OF assms(2)] assms(3) split_on_append by metis
  have "ps \<noteq> []"
  proof
    assume "ps = []"
    with eq assms(3) have "[] \<in> set rs" by (cases rs) auto
    with assms(2) show False by (auto simp: path_name_def)
  qed
  with eq have "ps = rs @ split_on c_slash t" by simp
  then show "strict_prefix rs ps" by (simp add: strict_prefix_def)
next
  assume "strict_prefix rs ps"
  then obtain zs where "ps = rs @ zs" "zs \<noteq> []" by (auto simp: strict_prefix_def elim: prefixE)
  then show "prefix (posix_print rs @ [c_slash]) (posix_print ps)"
    using assms(3) by (simp add: posix_print_def join_append)
qed

lemma isPathWithin_posix: "isPathWithin lower Posix p r \<longleftrightarrow> prefix (posix_parts r) (posix_parts p)"
proof -
  note names = posix_parts_names [of p] posix_parts_names [of r]
  let ?p = "posix_print (posix_parts p)" and ?r = "posix_print (posix_parts r)"
  have eq: "pathsEqual lower Posix ?p ?r \<longleftrightarrow> posix_parts p = posix_parts r"
    using names by (simp add: pathsEqual_posix)
  have "?r \<noteq> []" by (simp add: posix_print_def)
  then have within: "isPathWithin lower Posix p r \<longleftrightarrow>
      posix_parts p = posix_parts r \<or> prefix (?r @ (if last ?r = c_slash then [] else [c_slash])) ?p"
    unfolding isPathWithin_def normalize_posix trim_print [OF names(1)] trim_print [OF names(2)] Let_def eq
    by (simp add: pathSeparator_def)
  show ?thesis
  proof (cases "posix_parts r = []")
    case True
    then have r: "?r = [c_slash]" by (simp add: posix_print_def)
    have "prefix [c_slash] ?p" by (simp add: posix_print_def)
    then show ?thesis unfolding within r by (simp add: True)
  next
    case False
    then have "last ?r \<noteq> c_slash" by (rule print_last) (fact names(2))
    then have "isPathWithin lower Posix p r \<longleftrightarrow>
        posix_parts p = posix_parts r \<or> strict_prefix (posix_parts r) (posix_parts p)"
      unfolding within using boundary_prefix [OF names False] by simp
    then show ?thesis unfolding prefix_order.le_less by auto
  qed
qed

text \<open>
  The names a path leads to, read from its end: a name counts unless two dots further on cancel it.
\<close>

fun surviving :: "nat \<Rightarrow> utext list \<Rightarrow> utext list" where
  "surviving k [] = []"
| "surviving k (n # ns) =
     (if n = [] \<or> n = u ''.'' then surviving k ns
      else if n = u ''..'' then surviving (Suc k) ns
      else if k = 0 then n # surviving 0 ns
      else surviving (k - 1) ns)"

definition path_names :: "utext \<Rightarrow> utext list" where
  "path_names p = rev (surviving 0 (rev (split_on c_slash p)))"

lemma surviving_resolve:
  "rev (surviving k (rev ns)) = take (length (foldl resolve_part [] ns) - k) (foldl resolve_part [] ns)"
proof (induction ns arbitrary: k rule: rev_induct)
  case (snoc n ns)
  have "u ''.'' = [c_dot]" "u ''..'' = [c_dot, c_dot]" by (simp_all add: u_def)
  then show ?case
    by (cases k) (auto simp: snoc.IH resolve_part_def take_butlast butlast_conv_take Suc_diff_le min_def split: nat.split)
qed simp

lemma path_names_parts: "path_names p = posix_parts p"
  using surviving_resolve [of 0] by (simp add: path_names_def posix_parts_def)

text \<open>
  C39: A path is inside a directory exactly when its names start with the names of the directory. On a POSIX
  host this holds for every pair of strings, however many dots, doubled slashes or trailing slashes they
  have; in particular \<open>/home/al\<close> does not contain \<open>/home/alice\<close>, and going up with two dots does not
  escape the test. Two paths are equal exactly when their names are, and the normal form has the same
  names and is its own normal form.
\<close>

theorem posix_containment:
  "(isPathWithin lower Posix p r \<longleftrightarrow> prefix (path_names r) (path_names p)) \<and>
   (pathsEqual lower Posix p r \<longleftrightarrow> path_names p = path_names r) \<and>
   path_names (normalizeAbsolutePath Posix p) = path_names p \<and>
   normalizeAbsolutePath Posix (normalizeAbsolutePath Posix p) = normalizeAbsolutePath Posix p"
  by (simp add: path_names_parts isPathWithin_posix pathsEqual_posix normalize_posix posix_parts_names)

subsection \<open>Parents, names and joining\<close>

lemma last_index_split:
  assumes "c \<notin> set n"
  shows "last_index c (pre @ c # n) = int (length pre)"
proof -
  have "takeWhile (\<lambda>d. d \<noteq> c) (rev n @ c # rev pre) = rev n"
    by (subst takeWhile_append2) (use assms in auto)
  then show ?thesis by (simp add: last_index_def)
qed

lemma print_snoc: "posix_print (ns @ [n]) = (if ns = [] then [] else posix_print ns) @ c_slash # n"
  by (simp add: posix_print_def join_append)

lemma leading_slashes:
  "foldl resolve_part ns (split_on c_slash (dropWhile (\<lambda>c. c = c_slash) s)) = foldl resolve_part ns (split_on c_slash s)"
  by (induction s) simp_all

lemma join_posix:
  assumes "\<forall>n \<in> set hs. path_name c_slash n"
  shows "posix_parts (joinPath lower Posix (posix_print hs) rest) = foldl resolve_part hs (split_on c_slash rest)"
proof (cases "rest = []")
  case True
  then show ?thesis using assms by (simp add: joinPath_def)
next
  case False
  let ?r = "dropWhile (\<lambda>c. c = c_slash) rest"
  have "joinPath lower Posix (posix_print hs) rest = posix_print hs @ c_slash # ?r"
    using False assms by (simp add: joinPath_def pathSeparator_def)
  then have "posix_parts (joinPath lower Posix (posix_print hs) rest) =
      foldl resolve_part (posix_parts (posix_print hs)) (split_on c_slash ?r)"
    by (simp add: posix_parts_def split_on_append)
  then show ?thesis using assms by (simp add: leading_slashes)
qed

lemma parent_posix:
  assumes "posix_parts p = ns @ [n]"
  shows "parentDir lower Posix p = posix_print ns" "basename lower Posix (posix_print (ns @ [n])) = n"
proof -
  have names: "\<forall>m \<in> set (ns @ [n]). path_name c_slash m" using posix_parts_names [of p] assms by simp
  then have n: "c_slash \<notin> set n" by (simp add: path_name_def)
  let ?pre = "if ns = [] then [] else posix_print ns"
  have idx: "last_index c_slash (posix_print (ns @ [n])) = int (length ?pre)"
    unfolding print_snoc by (rule last_index_split [OF n])
  have norm: "trimTrailingSlash lower Posix (normalizeAbsolutePath Posix (or_else p (root_text Posix))) =
      posix_print (ns @ [n])"
    using names assms by (cases p) (simp_all add: normalize_posix or_else_def posix_parts_def)
  have noroot: "\<not> pathsEqual lower Posix (posix_print (ns @ [n])) (pathRoot Posix (posix_print (ns @ [n])))"
    using names by (simp add: pathsEqual_posix pathRoot_def posix_parts_def [of "[]"])
  show "parentDir lower Posix p = posix_print ns"
    using noroot idx unfolding parentDir_def norm Let_def
    by (auto simp: pathSeparator_def pathRoot_def or_else_def print_snoc) (auto simp: posix_print_def)
  have "basename lower Posix (posix_print (ns @ [n])) =
      drop (nat (last_index c_slash (posix_print (ns @ [n])) + 1)) (posix_print (ns @ [n]))"
    using noroot trim_print [OF names] by (simp add: basename_def Let_def pathSeparator_def)
  then show "basename lower Posix (posix_print (ns @ [n])) = n"
    unfolding idx by (simp add: print_snoc nat_add_distrib)
qed

text \<open>
  The parent of a path and its name make up the path. On a POSIX host the parent of a path with names has
  all of them but the last, the base name of its normal form is the last, and joining the two gives the
  path again; the root is its own parent and has no name.
\<close>

theorem posix_parent:
  "case posix_parts p of
     [] \<Rightarrow> parentDir lower Posix p = [c_slash] \<and> basename lower Posix (normalizeAbsolutePath Posix p) = []
   | _ \<Rightarrow>
       posix_parts (parentDir lower Posix p) = butlast (posix_parts p) \<and>
       basename lower Posix (normalizeAbsolutePath Posix p) = last (posix_parts p) \<and>
       normalizeAbsolutePath Posix (joinPath lower Posix (parentDir lower Posix p)
         (basename lower Posix (normalizeAbsolutePath Posix p))) = normalizeAbsolutePath Posix p"
proof (cases "posix_parts p" rule: rev_cases)
  case Nil
  have "posix_parts (or_else p (root_text Posix)) = []"
    using Nil by (auto simp: or_else_def root_text_def posix_parts_def)
  with Nil show ?thesis
    by (simp add: parentDir_def basename_def normalize_posix pathsEqual_posix pathRoot_def Let_def posix_parts_def [of "[]"])
next
  case (snoc ns n)
  have names: "\<forall>m \<in> set ns. path_name c_slash m" "path_name c_slash n"
    using posix_parts_names [of p] snoc by simp_all
  note pb = parent_posix [OF snoc, of lower]
  have "foldl resolve_part ns (split_on c_slash n) = ns @ [n]"
    using names(2) by (simp add: path_name_def split_on_free resolve_part_def)
  then have "posix_parts (joinPath lower Posix (posix_print ns) n) = ns @ [n]"
    using join_posix [OF names(1)] by simp
  with pb names(1) snoc show ?thesis by (cases ns) (simp_all add: normalize_posix)
qed

subsection \<open>Directories typed by a person\<close>

lemma parts_or_root: "posix_parts (or_else p (root_text Posix)) = posix_parts p"
  by (simp add: or_else_def root_text_def posix_parts_def)

lemma home_posix: "home_of lower Posix homeDir = posix_print (posix_parts (trim (normalizeCommandText homeDir)))"
proof -
  have "posix_print ns \<noteq> []" for ns by (simp add: posix_print_def)
  then show ?thesis
    by (simp add: home_of_def normalize_posix parts_or_root posix_parts_names or_else_def [of "posix_print _"])
qed

text \<open>
  A directory means what a shell would take it for. On a POSIX host, whatever is typed, the result is a
  normal absolute path: nothing or a tilde is the home directory, a path that starts with a tilde and a
  slash is resolved from the home directory, one that starts with a slash from the root, and any other from
  the home directory.
\<close>

theorem posix_cwd:
  "let raw = trim (normalizeCommandText v);
       home = posix_parts (trim (normalizeCommandText homeDir));
       from_home = (\<lambda>rest. foldl resolve_part home (split_on c_slash rest))
   in normalizeCwdForHost lower Posix v homeDir = posix_print
     (if raw = [] \<or> raw = [c_tilde] then home
      else if prefix [c_tilde, c_slash] raw \<or> prefix [c_tilde, c_backslash] raw then from_home (drop 2 raw)
      else if prefix [c_slash] raw then posix_parts raw
      else from_home raw)"
proof -
  have tilde: "length raw \<ge> 2 \<and> raw ! 0 = c_tilde \<and> is_sep (raw ! 1) \<longleftrightarrow>
      prefix [c_tilde, c_slash] raw \<or> prefix [c_tilde, c_backslash] raw" for raw
    by (cases raw; cases "tl raw") (auto simp: is_sep_def)
  have slash: "take 1 raw = [c_slash] \<longleftrightarrow> prefix [c_slash] raw" for raw by (cases raw) auto
  show ?thesis
    unfolding normalizeCwdForHost_def home_posix Let_def tilde isAbsolutePath_def slash
    using join_posix [OF posix_parts_names] by (simp add: normalize_posix)
qed

subsection \<open>Windows\<close>

text \<open>
  The three kinds of roots: a share of a server, a drive, and the root of the current drive, each with the
  names of a normal path behind it.
\<close>

definition windows_print :: "utext \<Rightarrow> utext list \<Rightarrow> utext" where
  "windows_print r ns =
     (if ns = [] then r
      else r @ (if last r = c_backslash then [] else [c_backslash]) @ join [c_backslash] ns)"

definition windows_root :: "utext \<Rightarrow> bool" where
  "windows_root r \<longleftrightarrow>
     r = [c_backslash] \<or> (\<exists>l. is_letter l \<and> r = [l, c_colon, c_backslash]) \<or>
     (\<exists>a b. a \<noteq> [] \<and> b \<noteq> [] \<and> c_backslash \<notin> set a \<and> c_backslash \<notin> set b \<and> c_slash \<notin> set (a @ b) \<and>
        r = [c_backslash, c_backslash] @ a @ [c_backslash] @ b)"

lemma tl_dropWhile_in: "x \<in> set (tl (dropWhile P xs)) \<Longrightarrow> x \<in> set xs"
  by (induction xs) (auto split: if_splits)

lemma unc_parts_Some:
  assumes "unc_parts s = Some (a, b, rest)"
  shows "a \<noteq> []" "b \<noteq> []" "c_backslash \<notin> set a" "c_backslash \<notin> set b" "set a \<union> set b \<union> set rest \<subseteq> set s"
proof -
  let ?n = "\<lambda>c. c \<noteq> c_backslash"
  have d: "a = takeWhile ?n (drop 2 s)" "b = takeWhile ?n (tl (dropWhile ?n (drop 2 s)))"
    "rest = tl (dropWhile ?n (tl (dropWhile ?n (drop 2 s))))" "a \<noteq> []" "b \<noteq> []"
    using assms by (auto simp: unc_parts_def Let_def split: if_splits)
  then show "a \<noteq> []" "b \<noteq> []" by auto
  show "c_backslash \<notin> set a" "c_backslash \<notin> set b" unfolding d(1,2) by (auto dest: set_takeWhileD)
  have "set a \<subseteq> set s" "set b \<subseteq> set s" "set rest \<subseteq> set s"
    unfolding d(1-3) by (auto dest!: tl_dropWhile_in set_takeWhileD in_set_dropD)
  then show "set a \<union> set b \<union> set rest \<subseteq> set s" by blast
qed

lemma unc_parts_root:
  assumes "a \<noteq> []" "b \<noteq> []" "c_backslash \<notin> set a" "c_backslash \<notin> set b"
    and "rest = [] \<or> hd rest = c_backslash"
  shows "unc_parts ([c_backslash, c_backslash] @ a @ [c_backslash] @ b @ rest) = Some (a, b, tl rest)"
proof -
  let ?n = "\<lambda>c. c \<noteq> c_backslash"
  have n: "\<forall>c \<in> set a. ?n c" "\<forall>c \<in> set b. ?n c" using assms(3,4) by auto
  have 1: "takeWhile ?n (a @ c_backslash # b @ rest) = a" "dropWhile ?n (a @ c_backslash # b @ rest) = c_backslash # b @ rest"
    using n(1) by (simp_all add: takeWhile_append2 dropWhile_append2)
  have 2: "takeWhile ?n (b @ rest) = b" "dropWhile ?n (b @ rest) = rest"
    using n(2) assms(5) by (cases rest; simp add: takeWhile_append2 dropWhile_append2)+
  show ?thesis using assms(1,2) 1 2 by (simp add: unc_parts_def Let_def)
qed

lemma resolve_all:
  "\<forall>n \<in> set ns. P n \<Longrightarrow> \<forall>p \<in> set ps. P p \<Longrightarrow> \<forall>n \<in> set (foldl resolve_part ns ps). P n"
proof (induction ps arbitrary: ns)
  case (Cons p ps)
  have "\<forall>n \<in> set (resolve_part ns p). P n"
    using Cons.prems by (auto simp: resolve_part_def dest: in_set_butlastD)
  with Cons show ?case by simp
qed simp

lemma split_on_subset: "p \<in> set (split_on c xs) \<Longrightarrow> set p \<subseteq> set xs"
proof (induction xs arbitrary: p)
  case (Cons x xs)
  show ?case
  proof (cases "x = c \<or> p \<in> set (split_on c xs)")
    case True
    with Cons show ?thesis by fastforce
  next
    case False
    with Cons.prems obtain q qs where "split_on c xs = q # qs" "p = x # q"
      by (cases "split_on c xs") auto
    with Cons.IH [of q] show ?thesis by auto
  qed
qed simp

lemma back_slashes_clean: "c_slash \<notin> set (back_slashes s)"
  by (auto simp: back_slashes_def)

lemma back_slashes_fixed: "c_slash \<notin> set s \<Longrightarrow> back_slashes s = s"
  by (induction s) (auto simp: back_slashes_def)

lemma windows_parts_names:
  assumes "c_slash \<notin> set rest"
  shows "\<forall>n \<in> set (foldl resolve_part [] (split_on c_backslash rest)). path_name c_backslash n \<and> c_slash \<notin> set n"
  using resolve_names [of "[]" c_backslash] split_on_no_sep
    resolve_all [of "[]" "\<lambda>n. c_slash \<notin> set n" "split_on c_backslash rest"] split_on_subset assms
  by (metis empty_iff list.set(1) subsetD)

definition windows_split :: "utext \<Rightarrow> utext \<times> utext" where
  "windows_split canonical =
     (case unc_parts canonical of
        Some (a, b, rest) \<Rightarrow> ([c_backslash, c_backslash] @ a @ [c_backslash] @ b, rest)
      | None \<Rightarrow>
          (case drive_root canonical of
             Some (l, rest) \<Rightarrow> ([l, c_colon, c_backslash], rest)
           | None \<Rightarrow>
               (case drive_relative canonical of
                  Some (l, rest) \<Rightarrow> ([l, c_colon, c_backslash], rest)
                | None \<Rightarrow> ([c_backslash], dropWhile (\<lambda>c. c = c_backslash) canonical))))"

lemma normalize_windows:
  "normalizeAbsolutePath Windows path =
    (case windows_split (back_slashes path) of
       (r, rest) \<Rightarrow> windows_print r (foldl resolve_part [] (split_on c_backslash rest)))"
  unfolding normalizeAbsolutePath_def windows_split_def windows_print_def Let_def path_flavor.case ..

lemma drive_Some:
  "drive_root s = Some (l, rest) \<Longrightarrow> is_letter l \<and> set rest \<subseteq> set s"
  "drive_relative s = Some (l, rest) \<Longrightarrow> is_letter l \<and> set rest \<subseteq> set s"
proof -
  have tl: "set (tl xs) \<subseteq> set xs" for xs :: utext by (cases xs) auto
  show "drive_root s = Some (l, rest) \<Longrightarrow> is_letter l \<and> set rest \<subseteq> set s"
    using tl by (cases s rule: drive_root.cases) (fastforce split: if_splits)+
  show "drive_relative s = Some (l, rest) \<Longrightarrow> is_letter l \<and> set rest \<subseteq> set s"
    by (cases s rule: drive_relative.cases) (auto split: if_splits)
qed

lemma windows_split_root:
  assumes "windows_split s = (r, rest)" "c_slash \<notin> set s"
  shows "windows_root r" "c_slash \<notin> set rest"
proof -
  have "windows_root r \<and> c_slash \<notin> set rest"
  proof (cases "unc_parts s")
    case (Some abr)
    obtain a b rest' where abr: "abr = (a, b, rest')" by (cases abr)
    note u = unc_parts_Some [OF Some [unfolded abr]]
    have "c_slash \<notin> set (a @ b)" "c_slash \<notin> set rest'" using u(5) assms(2) by auto
    moreover have "r = [c_backslash, c_backslash] @ a @ [c_backslash] @ b" "rest = rest'"
      using assms(1) Some abr by (simp_all add: windows_split_def)
    ultimately show ?thesis using u(1-4) unfolding windows_root_def by blast
  next
    case None
    show ?thesis
    proof (cases "drive_root s")
      case (Some lr)
      then show ?thesis
        using None assms drive_Some(1) [of s "fst lr" "snd lr"]
        by (cases lr) (auto simp: windows_split_def windows_root_def)
    next
      case drive: None
      show ?thesis
      proof (cases "drive_relative s")
        case (Some lr)
        then show ?thesis
          using None drive assms drive_Some(2) [of s "fst lr" "snd lr"]
          by (cases lr) (auto simp: windows_split_def windows_root_def)
      next
        case nothing: None
        then show ?thesis
          using None drive assms by (auto simp: windows_split_def windows_root_def dest: set_dropWhileD)
      qed
    qed
  qed
  then show "windows_root r" "c_slash \<notin> set rest" by auto
qed

lemma join_names:
  assumes "ns \<noteq> []" "\<forall>n \<in> set ns. path_name c_backslash n"
  shows "join [c_backslash] ns \<noteq> []" "hd (join [c_backslash] ns) \<noteq> c_backslash"
    "foldl resolve_part [] (split_on c_backslash (join [c_backslash] ns)) = ns"
proof -
  obtain m ms where ns: "ns = m # ms" using assms(1) by (cases ns) auto
  have m: "m \<noteq> []" "c_backslash \<notin> set m" using assms(2) ns by (auto simp: path_name_def)
  then have h: "join [c_backslash] ns \<noteq> [] \<and> hd (join [c_backslash] ns) = hd m" unfolding ns by (cases ms) auto
  then show "join [c_backslash] ns \<noteq> []" by blast
  show "hd (join [c_backslash] ns) \<noteq> c_backslash" using h m hd_in_set by metis
  have "split_on c_backslash (join [c_backslash] ns) = ns"
    using split_on_join [OF assms(1)] assms(2) by (auto simp: path_name_def)
  then show "foldl resolve_part [] (split_on c_backslash (join [c_backslash] ns)) = ns"
    using resolve_plain [OF assms(2), of "[]"] by simp
qed

lemma windows_split_print:
  assumes "windows_root r" "\<forall>n \<in> set ns. path_name c_backslash n"
  shows "windows_split (windows_print r ns) = (r, join [c_backslash] ns)"
proof -
  let ?j = "join [c_backslash] ns"
  have j: "ns \<noteq> [] \<Longrightarrow> ?j \<noteq> [] \<and> hd ?j \<noteq> c_backslash" using join_names(1,2) assms(2) by blast
  have colon: "c_colon \<noteq> c_backslash" by simp
  consider "r = [c_backslash]" | l where "is_letter l" "r = [l, c_colon, c_backslash]"
    | a b where "a \<noteq> []" "b \<noteq> []" "c_backslash \<notin> set a" "c_backslash \<notin> set b"
        "r = [c_backslash, c_backslash] @ a @ [c_backslash] @ b"
    using assms(1) unfolding windows_root_def by blast
  then show ?thesis
  proof cases
    case 1
    have p: "windows_print r ns = c_backslash # ?j" using 1 by (simp add: windows_print_def)
    have "unc_parts (c_backslash # ?j) = None" using j by (cases ns; cases ?j) (auto simp: unc_parts_def Let_def)
    moreover have "\<not> is_letter c_backslash" by (simp add: is_letter_def is_upper_def is_lower_def)
    then have "drive_root (c_backslash # ?j) = None" "drive_relative (c_backslash # ?j) = None" by (cases ?j; simp)+
    moreover have "dropWhile (\<lambda>c. c = c_backslash) ?j = ?j" using j by (cases ns; cases ?j) auto
    ultimately show ?thesis using 1 unfolding p by (simp add: windows_split_def)
  next
    case 2
    have p: "windows_print r ns = l # c_colon # c_backslash # ?j" using 2 by (simp add: windows_print_def)
    have "unc_parts (l # c_colon # c_backslash # ?j) = None" using colon by (simp add: unc_parts_def Let_def)
    then show ?thesis using 2 unfolding p by (simp add: windows_split_def)
  next
    case 3
    have "last b \<noteq> c_backslash" using 3(2,4) last_in_set by metis
    then have l: "last r \<noteq> c_backslash" using 3(2,5) by simp
    show ?thesis
    proof (cases "ns = []")
      case True
      then show ?thesis using unc_parts_root [OF 3(1-4), of "[]"] 3(5) by (simp add: windows_print_def windows_split_def)
    next
      case False
      have "windows_print r ns = [c_backslash, c_backslash] @ a @ [c_backslash] @ b @ (c_backslash # ?j)"
        using False l 3(5) by (simp add: windows_print_def)
      then show ?thesis using unc_parts_root [OF 3(1-4), of "c_backslash # ?j"] 3(5) by (simp add: windows_split_def)
    qed
  qed
qed

lemma windows_normal:
  obtains r ns where "windows_root r" "\<forall>n \<in> set ns. path_name c_backslash n \<and> c_slash \<notin> set n"
    "normalizeAbsolutePath Windows p = windows_print r ns"
proof (cases "windows_split (back_slashes p)")
  case (Pair r rest)
  note w = windows_split_root [OF Pair back_slashes_clean]
  show ?thesis
    by (rule that [OF w(1) windows_parts_names [OF w(2)]]) (simp add: normalize_windows Pair)
qed

lemma windows_print_clean:
  assumes "windows_root r" "\<forall>n \<in> set ns. c_slash \<notin> set n"
  shows "c_slash \<notin> set (windows_print r ns)"
proof -
  have "c_slash \<notin> set (join [c_backslash] ns)" using assms(2) by (induction "[c_backslash]" ns rule: join.induct) auto
  moreover have "c_slash \<notin> set r"
    using assms(1) by (auto simp: windows_root_def is_letter_def is_upper_def is_lower_def)
  ultimately show ?thesis by (auto simp: windows_print_def)
qed

lemma normalize_windows_print:
  assumes "windows_root r" "\<forall>n \<in> set ns. path_name c_backslash n \<and> c_slash \<notin> set n"
  shows "normalizeAbsolutePath Windows (windows_print r ns) = windows_print r ns"
proof -
  have names: "\<forall>n \<in> set ns. path_name c_backslash n" using assms(2) by blast
  have "foldl resolve_part [] (split_on c_backslash (join [c_backslash] ns)) = ns"
    using join_names(3) names by (cases "ns = []") (auto simp: resolve_part_def)
  then show ?thesis
    using windows_split_print [OF assms(1) names] back_slashes_fixed windows_print_clean assms
    by (simp add: normalize_windows)
qed

text \<open>
  A Windows path has one normal form: a root (a share, a drive or the root of the current drive) and proper
  names after it, which no name leads back out of, and normalizing it again changes nothing.
\<close>

theorem windows_normal_form:
  "(\<exists>r ns. windows_root r \<and> list_all (path_name c_backslash) ns \<and>
      normalizeAbsolutePath Windows p = windows_print r ns) \<and>
   normalizeAbsolutePath Windows (normalizeAbsolutePath Windows p) = normalizeAbsolutePath Windows p"
  by (rule windows_normal [of p]) (auto simp: normalize_windows_print list_all_iff)

end
