(* ===== verification/Mobile_Paths.thy ===== *)
theory Mobile_Paths
  imports Paths
begin

section \<open>The file browser of the phone\<close>

text \<open>
  \<open>mobile/src/components/files/paths.ts\<close>: the paths the phone's file browser walks through. It starts in the
  home directory of the host and stays there: every path it is asked to show is brought back inside, going
  up stops at the home directory, and the breadcrumbs lead from it to the current directory.

  Definitions that have a namesake in \<open>web/src/lib/paths.ts\<close> end in \<open>_f\<close>; \<open>toLocaleLowerCase\<close> and
  \<open>toLocaleUpperCase\<close> are arguments.
\<close>

subsection \<open>Paths\<close>

definition normalizedSegments :: "utext list \<Rightarrow> utext list" where
  "normalizedSegments parts = foldl resolve_part [] parts"

datatype root_kind = DriveRoot | UncRoot

record windows_root_info =
  wr_root :: utext
  wr_rest :: utext
  wr_kind :: root_kind

definition windowsRoot :: "utext \<Rightarrow> windows_root_info option" where
  "windowsRoot path =
     (let canonical = back_slashes path in
      if length canonical \<ge> 3 \<and> is_letter (canonical ! 0) \<and> canonical ! 1 = c_colon \<and> canonical ! 2 = c_backslash
      then Some \<lparr>wr_root = [canonical ! 0, c_colon, c_backslash], wr_rest = drop 3 canonical, wr_kind = DriveRoot\<rparr>
      else if take 2 canonical \<noteq> [c_backslash, c_backslash] then None
      else
        let parts = split_on c_backslash (drop 2 canonical) in
        if length parts < 2 \<or> parts ! 0 = [] \<or> parts ! 1 = [] then None
        else Some \<lparr>wr_root = [c_backslash, c_backslash] @ parts ! 0 @ [c_backslash] @ parts ! 1,
                   wr_rest = join [c_backslash] (drop 2 parts), wr_kind = UncRoot\<rparr>)"

text \<open>\<open>/^([A-Za-z]:)(?!\\)(.*)$/\<close>\<close>

fun drive_name :: "utext \<Rightarrow> (utext \<times> utext) option" where
  "drive_name (l # c # rest) =
     (if is_letter l \<and> c = c_colon \<and> (rest = [] \<or> hd rest \<noteq> c_backslash) \<and> list_all (\<lambda>d. \<not> line_terminator d) rest
      then Some ([l, c], rest) else None)"
| "drive_name _ = None"

definition normalizeWindowsPath :: "utext \<Rightarrow> utext" where
  "normalizeWindowsPath path =
     (let canonical = back_slashes path in
      case windowsRoot canonical of
        Some wr \<Rightarrow>
          let rest = join [c_backslash] (normalizedSegments (split_on c_backslash (wr_rest wr))) in
          if rest = [] then wr_root wr
          else if wr_kind wr = DriveRoot then wr_root wr @ rest else wr_root wr @ [c_backslash] @ rest
      | None \<Rightarrow>
          (case drive_name canonical of
             Some (drive, rest) \<Rightarrow> drive @ join [c_backslash] (normalizedSegments (split_on c_backslash rest))
           | None \<Rightarrow> join [c_backslash] (normalizedSegments (split_on c_backslash canonical))))"

definition pathFlavorForHostOS_f :: "(utext \<Rightarrow> utext) \<Rightarrow> utext option \<Rightarrow> path_flavor" where
  "pathFlavorForHostOS_f lower os =
     (case os of None \<Rightarrow> Posix | Some s \<Rightarrow> if lower (trim s) = u ''windows'' then Windows else Posix)"

definition trimTrailingSlash_f :: "path_flavor \<Rightarrow> utext \<Rightarrow> utext" where
  "trimTrailingSlash_f flavor path =
     (if flavor = Windows then
        let normalized = normalizeWindowsPath path in
        case windowsRoot normalized of
          Some wr \<Rightarrow> if normalized = wr_root wr then normalized else strip_end (\<lambda>c. c = c_backslash) normalized
        | None \<Rightarrow> strip_end (\<lambda>c. c = c_backslash) normalized
      else if length path > 1 then strip_end (\<lambda>c. c = c_slash) path else path)"

definition normalizeAbsolutePath_f :: "path_flavor \<Rightarrow> utext \<Rightarrow> utext" where
  "normalizeAbsolutePath_f flavor path =
     (if flavor = Windows then normalizeWindowsPath path
      else
        let absolute = (if take 1 path = [c_slash] then path else c_slash # path);
            parts = normalizedSegments (split_on c_slash absolute)
        in c_slash # join [c_slash] parts)"

definition basename_f :: "path_flavor \<Rightarrow> utext \<Rightarrow> utext" where
  "basename_f flavor path =
     (let normalized = trimTrailingSlash_f flavor (normalizeAbsolutePath_f flavor path) in
      if flavor = Windows then
        (case windowsRoot normalized of
           Some wr \<Rightarrow> if normalized = wr_root wr then wr_root wr else last (split_on c_backslash normalized)
         | None \<Rightarrow> last (split_on c_backslash normalized))
      else if normalized = [c_slash] then [c_slash] else last (split_on c_slash normalized))"

definition parentDir_f :: "path_flavor \<Rightarrow> utext \<Rightarrow> utext" where
  "parentDir_f flavor path =
     (let normalized = trimTrailingSlash_f flavor (normalizeAbsolutePath_f flavor path) in
      if flavor = Windows then
        (case windowsRoot normalized of
           None \<Rightarrow> normalized
         | Some wr \<Rightarrow>
             if normalized = wr_root wr then wr_root wr
             else
               let slash = last_index c_backslash normalized in
               if slash < int (length (wr_root wr)) then wr_root wr
               else
                 let parent = take (nat slash) normalized in
                 if parent = (if last (wr_root wr) = c_backslash then butlast (wr_root wr) else wr_root wr)
                 then wr_root wr else parent)
      else if normalized = [c_slash] then [c_slash]
      else
        let slash = last_index c_slash normalized in
        if slash \<le> 0 then [c_slash] else take (nat slash) normalized)"

definition joinDirectory :: "path_flavor \<Rightarrow> utext \<Rightarrow> utext \<Rightarrow> utext" where
  "joinDirectory flavor path name =
     normalizeAbsolutePath_f flavor (trimTrailingSlash_f flavor path @ [pathSeparator flavor] @ name)"

definition homeRoot :: "path_flavor \<Rightarrow> utext \<Rightarrow> utext" where
  "homeRoot flavor homeDir = trimTrailingSlash_f flavor (normalizeAbsolutePath_f flavor homeDir)"

definition pathEquals :: "(utext \<Rightarrow> utext) \<Rightarrow> path_flavor \<Rightarrow> utext \<Rightarrow> utext \<Rightarrow> bool" where
  "pathEquals lower flavor left right =
     (let a = trimTrailingSlash_f flavor (normalizeAbsolutePath_f flavor left);
          b = trimTrailingSlash_f flavor (normalizeAbsolutePath_f flavor right)
      in if flavor = Windows then lower a = lower b else a = b)"

definition isWithinHome :: "(utext \<Rightarrow> utext) \<Rightarrow> path_flavor \<Rightarrow> utext \<Rightarrow> utext \<Rightarrow> bool" where
  "isWithinHome lower flavor path homeDir =
     (let home = homeRoot flavor homeDir;
          candidate = trimTrailingSlash_f flavor (normalizeAbsolutePath_f flavor path);
          separator = pathSeparator flavor;
          comparableHome = (if flavor = Windows then lower home else home);
          comparableCandidate = (if flavor = Windows then lower candidate else candidate);
          homePrefix = comparableHome @
            (if comparableHome \<noteq> [] \<and> last comparableHome = separator then [] else [separator])
      in comparableCandidate = comparableHome \<or> prefix homePrefix comparableCandidate)"

text \<open>\<open>/^~[\\/]/\<close> or \<open>/^~\//\<close>\<close>

definition home_relative :: "path_flavor \<Rightarrow> utext \<Rightarrow> bool" where
  "home_relative flavor path \<longleftrightarrow>
     length path \<ge> 2 \<and> path ! 0 = c_tilde \<and> (if flavor = Windows then is_sep (path ! 1) else path ! 1 = c_slash)"

definition normalizeCwdForHost_f :: "(utext \<Rightarrow> utext) \<Rightarrow> path_flavor \<Rightarrow> utext option \<Rightarrow> utext \<Rightarrow> utext" where
  "normalizeCwdForHost_f lower flavor path homeDir =
     (let home = homeRoot flavor homeDir in
      case path of
        None \<Rightarrow> home
      | Some p \<Rightarrow>
          if p = [] \<or> p = [c_tilde] then home
          else
            let resolved = (if home_relative flavor p then joinDirectory flavor home (drop 2 p) else p) in
            if isWithinHome lower flavor resolved home
            then trimTrailingSlash_f flavor (normalizeAbsolutePath_f flavor resolved) else home)"

definition parentWithinHome :: "(utext \<Rightarrow> utext) \<Rightarrow> path_flavor \<Rightarrow> utext \<Rightarrow> utext \<Rightarrow> utext option" where
  "parentWithinHome lower flavor path homeDir =
     (let current = normalizeCwdForHost_f lower flavor (Some path) homeDir;
          home = homeRoot flavor homeDir
      in if pathEquals lower flavor current home then None
         else
           let parent = parentDir_f flavor current in
           if pathEquals lower flavor parent home then Some home
           else Some (if isWithinHome lower flavor parent home then parent else home))"

record breadcrumb =
  bc_label :: utext
  bc_path :: utext

text \<open>The loop over the names below the home directory.\<close>

fun crumb_loop :: "path_flavor \<Rightarrow> utext \<Rightarrow> utext list \<Rightarrow> breadcrumb list" where
  "crumb_loop flavor cursor [] = []"
| "crumb_loop flavor cursor (part # parts) =
     (let cursor' = joinDirectory flavor cursor part
      in \<lparr>bc_label = part, bc_path = cursor'\<rparr> # crumb_loop flavor cursor' parts)"

definition breadcrumbParts :: "(utext \<Rightarrow> utext) \<Rightarrow> path_flavor \<Rightarrow> utext \<Rightarrow> utext \<Rightarrow> breadcrumb list" where
  "breadcrumbParts lower flavor path homeDir =
     (let home = homeRoot flavor homeDir;
          current = normalizeCwdForHost_f lower flavor (Some path) home;
          windowsHomeIsRoot = (flavor = Windows \<and> (case windowsRoot home of None \<Rightarrow> False | Some r \<Rightarrow> wr_root r = home));
          first = \<lparr>bc_label = (if home = [c_slash] \<or> windowsHomeIsRoot then home else u ''Home''), bc_path = home\<rparr>
      in if pathEquals lower flavor current home then [first]
         else
           let relative = dropWhile (\<lambda>c. if flavor = Windows then is_sep c else c = c_slash) (drop (length home) current)
           in first # crumb_loop flavor home (filter (\<lambda>p. p \<noteq> []) (split_on (pathSeparator flavor) relative)))"

subsection \<open>Entries and names\<close>

definition visibleEntries :: "utext list \<Rightarrow> bool \<Rightarrow> utext list" where
  "visibleEntries entries showDotfiles = filter (\<lambda>name. showDotfiles \<or> take 1 name \<noteq> [c_dot]) entries"

text \<open>The length of what \<open>TextEncoder\<close> makes of a string, a lone surrogate being replaced.\<close>

fun utf8_length :: "utext \<Rightarrow> nat" where
  "utf8_length [] = 0"
| "utf8_length (c # rest) =
     (if c < 0x80 then 1 + utf8_length rest
      else if c < 0x800 then 2 + utf8_length rest
      else if 0xd800 \<le> c \<and> c \<le> 0xdbff \<and> (case rest of [] \<Rightarrow> False | d # _ \<Rightarrow> 0xdc00 \<le> d \<and> d \<le> 0xdfff)
      then 4 + utf8_length (tl rest)
      else 3 + utf8_length rest)"

datatype leaf_error =
  EnterName | ChooseDifferent | WindowsReserved | DotOrSpace | Slashes | ControlCharacters | TooLong

definition windows_reserved_char :: "nat \<Rightarrow> bool" where
  "windows_reserved_char c \<longleftrightarrow> c \<in> set (u ''<>:\"/|?*'') \<or> c = c_backslash"

definition control_point :: "nat \<Rightarrow> bool" where
  "control_point c \<longleftrightarrow> c \<le> 0x1f \<or> (0x7f \<le> c \<and> c \<le> 0x9f)"

definition validateLeafName :: "(utext \<Rightarrow> utext) \<Rightarrow> path_flavor \<Rightarrow> utext \<Rightarrow> leaf_error option" where
  "validateLeafName upper flavor name =
     (let candidate = (if flavor = Windows then name else trim name) in
      if candidate = [] \<or> trim candidate = [] then Some EnterName
      else if candidate = [c_dot] \<or> candidate = [c_dot, c_dot] then Some ChooseDifferent
      else if flavor = Windows \<and> list_ex windows_reserved_char candidate then Some WindowsReserved
      else if flavor = Windows \<and> (last candidate = c_dot \<or> last candidate = c_blank) then Some DotOrSpace
      else if flavor = Windows \<and> upper (hd (split_on c_dot candidate)) \<in> set reserved_names then Some ChooseDifferent
      else if flavor = Posix \<and> (c_slash \<in> set candidate \<or> c_backslash \<in> set candidate) then Some Slashes
      else if list_ex control_point candidate then Some ControlCharacters
      else if utf8_length candidate > 255 then Some TooLong
      else None)"

subsection \<open>POSIX paths as lists of names\<close>

lemma normalize_f: "normalizeAbsolutePath_f Posix path = posix_print (posix_parts path)"
  by (auto simp: normalizeAbsolutePath_f_def normalizedSegments_def posix_print_def posix_parts_def Let_def)

lemma trim_f: "\<forall>n \<in> set ns. path_name c_slash n \<Longrightarrow> trimTrailingSlash_f Posix (posix_print ns) = posix_print ns"
  using trim_print [of ns] by (simp add: trimTrailingSlash_f_def trimTrailingSlash_def)

lemma home_f: "homeRoot Posix h = posix_print (posix_parts h)"
  by (simp add: homeRoot_def normalize_f trim_f posix_parts_names)

lemma pathEquals_f: "pathEquals lower Posix a b \<longleftrightarrow> posix_parts a = posix_parts b"
  by (simp add: pathEquals_def normalize_f trim_f posix_parts_names posix_print_inj)

lemma joinDirectory_f:
  assumes "\<forall>n \<in> set hs. path_name c_slash n"
  shows "joinDirectory Posix (posix_print hs) name = posix_print (foldl resolve_part hs (split_on c_slash name))"
proof -
  have "posix_parts (posix_print hs @ c_slash # name) = foldl resolve_part (posix_parts (posix_print hs)) (split_on c_slash name)"
    by (simp add: posix_parts_def split_on_append)
  then show ?thesis using assms by (simp add: joinDirectory_def normalize_f trim_f pathSeparator_def)
qed

lemma isWithinHome_f: "isWithinHome lower Posix p h \<longleftrightarrow> prefix (posix_parts h) (posix_parts p)"
proof -
  let ?h = "posix_print (posix_parts h)" and ?p = "posix_print (posix_parts p)"
  have "isPathWithin lower Posix p h \<longleftrightarrow>
      ?p = ?h \<or> prefix (?h @ (if ?h \<noteq> [] \<and> last ?h = c_slash then [] else [c_slash])) ?p"
    by (simp add: isPathWithin_def normalize_posix posix_parts_names pathsEqual_posix posix_print_inj pathSeparator_def)
  then show ?thesis
    using isPathWithin_posix [of lower p h]
    unfolding isWithinHome_def home_f normalize_f trim_f [OF posix_parts_names] Let_def by (simp add: pathSeparator_def)
qed

text \<open>Where a path leads: resolved from the home directory, and the home directory itself if that is outside.\<close>

definition shown_parts :: "utext list \<Rightarrow> utext option \<Rightarrow> utext list" where
  "shown_parts hs path =
     (case path of
        None \<Rightarrow> hs
      | Some p \<Rightarrow>
          if p = [] \<or> p = [c_tilde] then hs
          else
            let ps = (if home_relative Posix p then foldl resolve_part hs (split_on c_slash (drop 2 p)) else posix_parts p)
            in if prefix hs ps then ps else hs)"

lemma resolved_names:
  "\<forall>n \<in> set hs. path_name c_slash n \<Longrightarrow> \<forall>n \<in> set (foldl resolve_part hs (split_on c_slash r)). path_name c_slash n"
  by (rule resolve_names) (use split_on_no_sep in auto)

lemma shown_names: "\<forall>n \<in> set hs. path_name c_slash n \<Longrightarrow> \<forall>n \<in> set (shown_parts hs path). path_name c_slash n"
  using resolved_names posix_parts_names by (auto simp: shown_parts_def Let_def split: option.splits)

lemma shown_prefix: "prefix hs (shown_parts hs path)"
  by (auto simp: shown_parts_def Let_def split: option.splits)

lemma cwd_f: "normalizeCwdForHost_f lower Posix path homeDir = posix_print (shown_parts (posix_parts homeDir) path)"
proof -
  let ?hs = "posix_parts homeDir"
  note names = posix_parts_names [of homeDir]
  have join: "posix_parts (joinDirectory Posix (posix_print ?hs) r) = foldl resolve_part ?hs (split_on c_slash r)" for r
    using joinDirectory_f [OF names] resolved_names [OF names] by simp
  show ?thesis
    unfolding normalizeCwdForHost_f_def shown_parts_def home_f isWithinHome_f normalize_f Let_def
    using names join by (auto simp: trim_f posix_parts_names resolved_names split: option.splits)
qed

lemma parent_f:
  assumes "\<forall>m \<in> set (ns @ [n]). path_name c_slash m"
  shows "parentDir_f Posix (posix_print (ns @ [n])) = posix_print ns"
proof -
  have n: "c_slash \<notin> set n" using assms by (simp add: path_name_def)
  let ?pre = "if ns = [] then [] else posix_print ns"
  have idx: "last_index c_slash (posix_print (ns @ [n])) = int (length ?pre)"
    unfolding print_snoc by (rule last_index_split [OF n])
  have "posix_print (ns @ [n]) \<noteq> [c_slash]"
    using posix_print_inj [OF assms, of "[]"] by (simp add: posix_print_def)
  moreover have "trimTrailingSlash_f Posix (normalizeAbsolutePath_f Posix (posix_print (ns @ [n]))) = posix_print (ns @ [n])"
    using assms trim_f [OF assms] by (simp add: normalize_f)
  ultimately show ?thesis
    using idx by (auto simp: parentDir_f_def Let_def print_snoc) (auto simp: posix_print_def)
qed

lemma crumbs_f:
  "\<forall>n \<in> set (hs @ zs). path_name c_slash n \<Longrightarrow>
   map bc_path (crumb_loop Posix (posix_print hs) zs) = map (\<lambda>i. posix_print (take i (hs @ zs))) [Suc (length hs)..<Suc (length hs + length zs)]"
proof (induction zs arbitrary: hs)
  case (Cons z zs)
  have z: "path_name c_slash z" and hs: "\<forall>n \<in> set hs. path_name c_slash n" using Cons.prems by auto
  have "foldl resolve_part hs (split_on c_slash z) = hs @ [z]"
    using z by (simp add: path_name_def split_on_free resolve_part_def)
  then have "joinDirectory Posix (posix_print hs) z = posix_print (hs @ [z])" using joinDirectory_f [OF hs] by simp
  then show ?case
    using Cons.IH [of "hs @ [z]"] Cons.prems by (simp add: Let_def upt_conv_Cons del: upt_Suc)
qed simp

lemma relative_names:
  assumes "\<forall>n \<in> set (hs @ zs). path_name c_slash n"
  shows "filter (\<lambda>p. p \<noteq> []) (split_on c_slash
    (dropWhile (\<lambda>c. c = c_slash) (drop (length (posix_print hs)) (posix_print (hs @ zs))))) = zs"
proof (cases "zs = []")
  case True
  then show ?thesis by simp
next
  case False
  have zs: "\<forall>n \<in> set zs. path_name c_slash n" using assms by auto
  have "drop (length (posix_print hs)) (posix_print (hs @ zs)) = (if hs = [] then [] else [c_slash]) @ join [c_slash] zs"
    using False by (simp add: posix_print_def join_append)
  moreover have "dropWhile (\<lambda>c. c = c_slash) (join [c_slash] zs) = join [c_slash] zs"
  proof -
    obtain m ms where m: "zs = m # ms" using False by (cases zs) auto
    then have "m \<noteq> []" "c_slash \<notin> set m" using zs by (simp_all add: path_name_def)
    then have "m \<noteq> []" "hd m \<noteq> c_slash" using hd_in_set by metis+
    then show ?thesis unfolding m by (cases m; cases ms) auto
  qed
  moreover have "split_on c_slash (join [c_slash] zs) = zs"
    by (rule split_on_join [OF False]) (use zs in \<open>auto simp: path_name_def\<close>)
  moreover have "filter (\<lambda>p. p \<noteq> []) zs = zs" using zs by (auto simp: path_name_def intro: filter_True)
  ultimately show ?thesis by simp
qed

text \<open>
  C25: The file browser does not leave the home directory. On a POSIX host, whatever path it is given, dots and
  doubled slashes included, the directory it shows is the home directory or below it; going up gives the
  parent and stops at the home directory, where there is nothing to go up to; and the breadcrumbs are
  exactly the directories from the home directory down to the one shown, each one name longer than the one
  before.
\<close>

theorem home_confined:
  "let home = posix_parts homeDir; shown = shown_parts home (Some p)
   in normalizeCwdForHost_f lower Posix (Some p) homeDir = posix_print shown \<and> prefix home shown \<and>
      parentWithinHome lower Posix p homeDir = (if shown = home then None else Some (posix_print (butlast shown))) \<and>
      map bc_path (breadcrumbParts lower Posix p homeDir) =
        map (\<lambda>i. posix_print (take i shown)) [length home..<Suc (length shown)]"
proof -
  let ?hs = "posix_parts homeDir"
  let ?s = "shown_parts ?hs (Some p)"
  note names = posix_parts_names [of homeDir] shown_names [OF posix_parts_names, of homeDir "Some p"]
  obtain zs where zs: "?s = ?hs @ zs" using shown_prefix by (metis prefixE)
  have cur: "posix_parts (posix_print ?s) = ?s" "posix_parts (posix_print ?hs) = ?hs" using names by simp_all
  have up: "parentWithinHome lower Posix p homeDir = (if ?s = ?hs then None else Some (posix_print (butlast ?s)))"
  proof (cases zs rule: rev_cases)
    case Nil
    then show ?thesis using zs cur by (simp add: parentWithinHome_def cwd_f home_f pathEquals_f)
  next
    case (snoc ys y)
    have s: "?s = (?hs @ ys) @ [y]" using zs snoc by simp
    have ns: "\<forall>m \<in> set ((?hs @ ys) @ [y]). path_name c_slash m" using names(2) unfolding s .
    have "parentDir_f Posix (posix_print ?s) = posix_print (?hs @ ys)" unfolding s by (rule parent_f [OF ns])
    moreover have "posix_parts (posix_print (?hs @ ys)) = ?hs @ ys" using ns by simp
    ultimately show ?thesis
      using cur s by (simp add: parentWithinHome_def cwd_f home_f pathEquals_f isWithinHome_f Let_def butlast_append)
  qed
  have crumbs: "map bc_path (breadcrumbParts lower Posix p homeDir) =
      map (\<lambda>i. posix_print (take i ?s)) [length ?hs..<Suc (length ?s)]"
  proof (cases "zs = []")
    case True
    then show ?thesis using zs cur by (simp add: breadcrumbParts_def cwd_f home_f pathEquals_f Let_def)
  next
    case False
    then have ne: "?s \<noteq> ?hs" using zs by simp
    have "[length ?hs..<Suc (length ?s)] = length ?hs # [Suc (length ?hs)..<Suc (length ?hs + length zs)]"
      using zs by (simp add: upt_conv_Cons del: upt_Suc)
    then show ?thesis
      using ne cur relative_names [of ?hs zs] crumbs_f [of ?hs zs] names(2) unfolding zs
      by (simp add: breadcrumbParts_def cwd_f home_f pathEquals_f Let_def pathSeparator_def zs del: upt_Suc)
  qed
  show ?thesis using up crumbs cwd_f shown_prefix by (simp add: Let_def)
qed

end
