(* ===== verification/Sha256.thy ===== *)
theory Sha256
  imports Bytes
begin

unbundle bit_operations_syntax

section \<open>Incremental SHA-256\<close>

text \<open>
  \<open>web/src/lib/sha256.ts\<close>: the hash behind file transfers, fed chunk by chunk as a file streams through.
  The class \<open>Sha256\<close> is a record; its scratch array \<open>words\<close> is overwritten by every compression before it
  is read, so it is a value of \<open>compress\<close>. The bitwise operators of the language work modulo \<open>2 ^ 32\<close> and
  every sum is reduced by \<open>>>> 0\<close> or by the store into a \<open>Uint32Array\<close>, so the arithmetic is that of
  \<open>32 word\<close>. An exception is \<open>None\<close>.

  The result is compared with the definition of the hash in FIPS 180-4: pad the whole message, cut it into
  blocks, fold the compression over them.
\<close>

subsection \<open>The class\<close>

definition SHA_K :: "32 word list" where
  "SHA_K = concat [
    [0x428a2f98, 0x71374491, 0xb5c0fbcf, 0xe9b5dba5], [0x3956c25b, 0x59f111f1, 0x923f82a4, 0xab1c5ed5],
    [0xd807aa98, 0x12835b01, 0x243185be, 0x550c7dc3], [0x72be5d74, 0x80deb1fe, 0x9bdc06a7, 0xc19bf174],
    [0xe49b69c1, 0xefbe4786, 0x0fc19dc6, 0x240ca1cc], [0x2de92c6f, 0x4a7484aa, 0x5cb0a9dc, 0x76f988da],
    [0x983e5152, 0xa831c66d, 0xb00327c8, 0xbf597fc7], [0xc6e00bf3, 0xd5a79147, 0x06ca6351, 0x14292967],
    [0x27b70a85, 0x2e1b2138, 0x4d2c6dfc, 0x53380d13], [0x650a7354, 0x766a0abb, 0x81c2c92e, 0x92722c85],
    [0xa2bfe8a1, 0xa81a664b, 0xc24b8b70, 0xc76c51a3], [0xd192e819, 0xd6990624, 0xf40e3585, 0x106aa070],
    [0x19a4c116, 0x1e376c08, 0x2748774c, 0x34b0bcb5], [0x391c0cb3, 0x4ed8aa4a, 0x5b9cca4f, 0x682e6ff3],
    [0x748f82ee, 0x78a5636f, 0x84c87814, 0x8cc70208], [0x90befffa, 0xa4506ceb, 0xbef9a3f7, 0xc67178f2]]"

definition SHA_H :: "32 word list" where
  "SHA_H = [0x6a09e667, 0xbb67ae85, 0x3c6ef372, 0xa54ff53a, 0x510e527f, 0x9b05688c, 0x1f83d9ab, 0x5be0cd19]"

definition rotateRight :: "32 word \<Rightarrow> nat \<Rightarrow> 32 word" where
  "rotateRight v n = drop_bit n v OR push_bit (32 - n) v"

record sha256 =
  sh_state :: "32 word list"
  sh_block :: bytes
  sh_blockLength :: nat
  sh_bytesHashed :: nat
  sh_finished :: bool

definition new_sha256 :: sha256 where
  "new_sha256 = \<lparr>sh_state = SHA_H, sh_block = replicate 64 0, sh_blockLength = 0, sh_bytesHashed = 0,
     sh_finished = False\<rparr>"

text \<open>The first sixteen words of the schedule, and one turn of the loop that extends it.\<close>

definition block_word :: "bytes \<Rightarrow> nat \<Rightarrow> 32 word" where
  "block_word block i =
     push_bit 24 (ucast (block ! (4 * i))) OR push_bit 16 (ucast (block ! (4 * i + 1))) OR
     push_bit 8 (ucast (block ! (4 * i + 2))) OR ucast (block ! (4 * i + 3))"

definition extend_words :: "32 word list \<Rightarrow> nat \<Rightarrow> 32 word list" where
  "extend_words ws i =
     (let x = ws ! (i - 15); y = ws ! (i - 2);
          s0 = rotateRight x 7 XOR rotateRight x 18 XOR drop_bit 3 x;
          s1 = rotateRight y 17 XOR rotateRight y 19 XOR drop_bit 10 y
      in ws @ [ws ! (i - 16) + s0 + ws ! (i - 7) + s1])"

type_synonym sha_vars = "32 word \<times> 32 word \<times> 32 word \<times> 32 word \<times> 32 word \<times> 32 word \<times> 32 word \<times> 32 word"

definition sha_round :: "32 word list \<Rightarrow> sha_vars \<Rightarrow> nat \<Rightarrow> sha_vars" where
  "sha_round ws v i =
     (let (a, b, c, d, e, f, g, h) = v;
          s1 = rotateRight e 6 XOR rotateRight e 11 XOR rotateRight e 25;
          choice = (e AND f) XOR (NOT e AND g);
          temp1 = h + s1 + choice + SHA_K ! i + ws ! i;
          s0 = rotateRight a 2 XOR rotateRight a 13 XOR rotateRight a 22;
          majority = (a AND b) XOR (a AND c) XOR (b AND c);
          temp2 = s0 + majority
      in (temp1 + temp2, a, b, c, d + temp1, e, f, g))"

definition to_vars :: "32 word list \<Rightarrow> sha_vars" where
  "to_vars st = (st ! 0, st ! 1, st ! 2, st ! 3, st ! 4, st ! 5, st ! 6, st ! 7)"

fun of_vars :: "sha_vars \<Rightarrow> 32 word list" where
  "of_vars (a, b, c, d, e, f, g, h) = [a, b, c, d, e, f, g, h]"

definition compress_block :: "32 word list \<Rightarrow> bytes \<Rightarrow> 32 word list" where
  "compress_block st block =
     (let ws = foldl extend_words (map (block_word block) [0..<16]) [16..<64];
          v = foldl (sha_round ws) (to_vars st) [0..<64]
      in map2 (+) st (of_vars v))"

definition compress :: "sha256 \<Rightarrow> sha256" where
  "compress s = s\<lparr>sh_state := compress_block (sh_state s) (sh_block s)\<rparr>"

text \<open>\<open>block.set(part, at)\<close> for a part that fits.\<close>

definition set_at :: "bytes \<Rightarrow> nat \<Rightarrow> bytes \<Rightarrow> bytes" where
  "set_at block i part = take i block @ part @ drop (i + length part) block"

text \<open>
  The loop of \<open>update\<close>, on the part of the input from \<open>offset\<close> on. A part that does not fit makes
  \<open>block.set\<close> throw.
\<close>

function update_loop :: "sha256 \<Rightarrow> bytes \<Rightarrow> sha256 option" where
  "update_loop s input =
     (if input = [] then Some s
      else
        let n = min (64 - sh_blockLength s) (length input) in
        if sh_blockLength s + n > 64 then None
        else
          let s1 = s\<lparr>sh_block := set_at (sh_block s) (sh_blockLength s) (take n input),
                     sh_blockLength := sh_blockLength s + n\<rparr>;
              s2 = (if sh_blockLength s1 = 64 then (compress s1)\<lparr>sh_blockLength := 0\<rparr> else s1)
          in update_loop s2 (drop n input))"
  by pat_completeness auto

termination
proof (relation "measures [\<lambda>(s, input). length input, \<lambda>(s, input). sh_blockLength s]", goal_cases)
  case (2 s input n s1 s2)
  then show ?case by (cases "sh_blockLength s = 64") (auto simp: compress_def min_def)
qed simp

declare update_loop.simps [simp del]

definition update :: "sha256 \<Rightarrow> bytes \<Rightarrow> sha256 option" where
  "update s input =
     (if sh_finished s then None
      else update_loop (s\<lparr>sh_bytesHashed := sh_bytesHashed s + length input\<rparr>) input)"

text \<open>\<open>word.toString(16).padStart(8, "0")\<close>\<close>

definition hex_word :: "32 word \<Rightarrow> utext" where
  "hex_word w = map (\<lambda>i. hex_digit (nat (uint w div 16 ^ i mod 16))) (rev [0..<8])"

definition finish :: "sha256 \<Rightarrow> sha256" where
  "finish s =
     (let bitLength = int (sh_bytesHashed s) * 8;
          s1 = s\<lparr>sh_block := (sh_block s)[sh_blockLength s := 0x80], sh_blockLength := sh_blockLength s + 1\<rparr>;
          s2 = (if sh_blockLength s1 > 56
                then (compress (s1\<lparr>sh_block := take (sh_blockLength s1) (sh_block s1) @
                        replicate (64 - sh_blockLength s1) 0\<rparr>))\<lparr>sh_blockLength := 0\<rparr>
                else s1);
          b3 = take (sh_blockLength s2) (sh_block s2) @ replicate (56 - sh_blockLength s2) 0 @ drop 56 (sh_block s2);
          b4 = foldl (\<lambda>b i. b[63 - i := word_of_int (bitLength div 256 ^ i)]) b3 [0..<8]
      in (compress (s2\<lparr>sh_block := b4\<rparr>))\<lparr>sh_finished := True\<rparr>)"

definition digestHex :: "sha256 \<Rightarrow> utext \<times> sha256" where
  "digestHex s =
     (let s' = (if sh_finished s then s else finish s) in (concat (map hex_word (sh_state s')), s'))"

text \<open>
  The reads of a stream: \<open>None\<close> is one that fails. The lock on the reader is released on every path and
  holds no data.
\<close>

fun hash_reads :: "sha256 \<Rightarrow> bytes option list \<Rightarrow> sha256 option" where
  "hash_reads s [] = Some s"
| "hash_reads s (None # rest) = None"
| "hash_reads s (Some part # rest) =
     (case update s part of None \<Rightarrow> None | Some s' \<Rightarrow> hash_reads s' rest)"

definition hashStream :: "bytes option list \<Rightarrow> utext option" where
  "hashStream stream =
     (case hash_reads new_sha256 stream of None \<Rightarrow> None | Some s \<Rightarrow> Some (fst (digestHex s)))"

subsection \<open>The standard\<close>

text \<open>
  FIPS 180-4, sections 4.1.2, 5.1.1, 5.3.3 and 6.2: rotations of words, the schedule as a recursive
  function, the padded message.
\<close>

definition fips_rotr :: "nat \<Rightarrow> 32 word \<Rightarrow> 32 word" where
  "fips_rotr n x = word_rotr n x"

fun fips_W :: "bytes \<Rightarrow> nat \<Rightarrow> 32 word" where
  "fips_W block t =
     (if t < 16 then word_of_nat (unat (block ! (4 * t)) * 2 ^ 24 + unat (block ! (4 * t + 1)) * 2 ^ 16 +
        unat (block ! (4 * t + 2)) * 2 ^ 8 + unat (block ! (4 * t + 3)))
      else
        (let y = fips_W block (t - 2); x = fips_W block (t - 15) in
         (fips_rotr 17 y XOR fips_rotr 19 y XOR drop_bit 10 y) + fips_W block (t - 7) +
         (fips_rotr 7 x XOR fips_rotr 18 x XOR drop_bit 3 x) + fips_W block (t - 16)))"

declare fips_W.simps [simp del]

definition fips_round :: "bytes \<Rightarrow> nat \<Rightarrow> sha_vars \<Rightarrow> sha_vars" where
  "fips_round block t v =
     (case v of (a, b, c, d, e, f, g, h) \<Rightarrow>
        let T1 = h + (fips_rotr 6 e XOR fips_rotr 11 e XOR fips_rotr 25 e) + ((e AND f) XOR (NOT e AND g)) +
              SHA_K ! t + fips_W block t;
            T2 = (fips_rotr 2 a XOR fips_rotr 13 a XOR fips_rotr 22 a) + ((a AND b) XOR (a AND c) XOR (b AND c))
        in (T1 + T2, a, b, c, d + T1, e, f, g))"

definition fips_compress :: "32 word list \<Rightarrow> bytes \<Rightarrow> 32 word list" where
  "fips_compress H block = map2 (+) H (of_vars (fold (fips_round block) [0..<64] (to_vars H)))"

definition fips_pad :: "bytes \<Rightarrow> bytes" where
  "fips_pad m =
     (let l = length m; k = (if l mod 64 \<le> 55 then 55 - l mod 64 else 119 - l mod 64)
      in m @ [0x80] @ replicate k 0 @ map (\<lambda>i. word_of_int (8 * int l div 256 ^ i)) (rev [0..<8]))"

function fips_blocks :: "bytes \<Rightarrow> bytes list" where
  "fips_blocks m = (if length m < 64 then [] else take 64 m # fips_blocks (drop 64 m))"
  by pat_completeness auto
termination by (relation "measure length") auto

declare fips_blocks.simps [simp del]

definition fips_sha256 :: "bytes \<Rightarrow> 32 word list" where
  "fips_sha256 m = foldl fips_compress SHA_H (fips_blocks (fips_pad m))"


subsection \<open>The compression is the standard's\<close>

lemma rotateRight_rotr:
  assumes "0 < n" "n < 32"
  shows "rotateRight v n = fips_rotr n v"
proof (rule bit_word_eqI)
  fix k assume k: "k < LENGTH(32)"
  show "bit (rotateRight v n) k = bit (fips_rotr n v) k"
  proof (cases "k + n < 32")
    case True
    then have "\<not> 32 - n \<le> k" by linarith
    with True show ?thesis using k assms
      by (simp add: rotateRight_def fips_rotr_def bit_word_rotr_iff bit_or_iff bit_push_bit_iff bit_drop_bit_eq add.commute)
  next
    case False
    then have "(k + n) mod 32 = k + n - 32" using k assms by (simp add: mod_if)
    moreover have "\<not> bit v (n + k)" using False by (auto dest: bit_imp_le_length)
    ultimately show ?thesis using k assms False
      by (auto simp: rotateRight_def fips_rotr_def bit_word_rotr_iff bit_or_iff bit_push_bit_iff bit_drop_bit_eq
          intro: arg_cong [where f = "bit v"] elim: back_subst [where P = "bit v"])
  qed
qed

lemma bit_small: "bit (ucast (b :: 8 word) :: 32 word) n \<Longrightarrow> n < 8"
  by (auto simp: bit_ucast_iff dest: bit_imp_le_length)

lemma block_word_W:
  assumes "t < 16"
  shows "block_word block t = fips_W block t"
proof -
  let ?b = "\<lambda>j. ucast (block ! (4 * t + j)) :: 32 word"
  have disjoint: "push_bit 24 (?b 0) + push_bit 16 (?b 1) = push_bit 24 (?b 0) OR push_bit 16 (?b 1)"
    "(push_bit 24 (?b 0) OR push_bit 16 (?b 1)) + push_bit 8 (?b 2) = (push_bit 24 (?b 0) OR push_bit 16 (?b 1)) OR push_bit 8 (?b 2)"
    "((push_bit 24 (?b 0) OR push_bit 16 (?b 1)) OR push_bit 8 (?b 2)) + ?b 3 =
      ((push_bit 24 (?b 0) OR push_bit 16 (?b 1)) OR push_bit 8 (?b 2)) OR ?b 3"
    by (rule disjunctive_add, auto simp: bit_or_iff bit_push_bit_iff dest!: bit_small)+
  have u: "word_of_nat (unat b) = (ucast b :: 32 word)" for b :: "8 word" by simp
  have "fips_W block t = ?b 0 * 2 ^ 24 + ?b 1 * 2 ^ 16 + ?b 2 * 2 ^ 8 + ?b 3"
    using assms by (subst fips_W.simps) (simp del: of_nat_unat add: u)
  also have "\<dots> = push_bit 24 (?b 0) + push_bit 16 (?b 1) + push_bit 8 (?b 2) + ?b 3"
    by (simp only: push_bit_eq_mult)
  also have "\<dots> = ((push_bit 24 (?b 0) OR push_bit 16 (?b 1)) OR push_bit 8 (?b 2)) OR ?b 3"
    by (simp only: disjoint)
  also have "\<dots> = block_word block t" by (simp add: block_word_def or.assoc)
  finally show ?thesis by simp
qed

lemma extend_words_W:
  assumes "16 \<le> n"
  shows "extend_words (map (fips_W block) [0..<n]) n = map (fips_W block) [0..<Suc n]"
proof -
  have "extend_words (map (fips_W block) [0..<n]) n = map (fips_W block) [0..<n] @ [fips_W block n]"
    using assms unfolding extend_words_def Let_def fips_W.simps [of block n]
    by (simp add: rotateRight_rotr ac_simps)
  then show ?thesis by simp
qed

lemma schedule_W:
  "16 \<le> n \<Longrightarrow> foldl extend_words (map (block_word block) [0..<16]) [16..<n] = map (fips_W block) [0..<n]"
proof (induction n rule: dec_induct)
  case base
  then show ?case using block_word_W by simp
next
  case (step n)
  then show ?case using extend_words_W [of n block] by (simp add: upt_conv_Cons)
qed

lemma sha_round_fips:
  "i < 64 \<Longrightarrow> sha_round (map (fips_W block) [0..<64]) v i = fips_round block i v"
  by (cases v) (simp add: sha_round_def fips_round_def rotateRight_rotr Let_def)

lemma compress_block_fips: "compress_block st block = fips_compress st block"
proof -
  have rounds: "foldl (sha_round (map (fips_W block) [0..<64])) v ts = fold (fips_round block) ts v"
    if "set ts \<subseteq> {..<64}" for ts v
    using that by (induction ts arbitrary: v) (simp_all add: sha_round_fips)
  have all: "foldl (sha_round (map (fips_W block) [0..<64])) v [0..<64] = fold (fips_round block) [0..<64] v" for v
    by (rule rounds) auto
  have schedule: "foldl extend_words (map (block_word block) [0..<16]) [16..<64] = map (fips_W block) [0..<64]"
    by (rule schedule_W) simp
  show ?thesis unfolding compress_block_def fips_compress_def Let_def schedule all ..
qed

subsection \<open>Feeding the hash in parts\<close>

text \<open>
  What an unfinished object has absorbed: the blocks already compressed and the bytes waiting in the
  buffer.
\<close>

definition absorbed :: "sha256 \<Rightarrow> bytes list \<Rightarrow> bytes \<Rightarrow> bool" where
  "absorbed s bs p \<longleftrightarrow>
     list_all (\<lambda>b. length b = 64) bs \<and> length p < 64 \<and> \<not> sh_finished s \<and> length (sh_block s) = 64 \<and>
     sh_state s = foldl fips_compress SHA_H bs \<and> sh_blockLength s = length p \<and>
     take (length p) (sh_block s) = p"

lemma set_at_take:
  "length block = 64 \<Longrightarrow> i + length part \<le> 64 \<Longrightarrow>
   length (set_at block i part) = 64 \<and> take (i + length part) (set_at block i part) = take i block @ part"
  by (simp add: set_at_def)

lemma absorbed_step:
  assumes "absorbed s bs p" "length part + length p \<le> 64"
  shows "\<exists>bs2 p2. absorbed
      (let s1 = s\<lparr>sh_block := set_at (sh_block s) (sh_blockLength s) part, sh_blockLength := sh_blockLength s + length part\<rparr>
       in if sh_blockLength s1 = 64 then (compress s1)\<lparr>sh_blockLength := 0\<rparr> else s1) bs2 p2 \<and>
    concat bs2 @ p2 = concat bs @ p @ part"
proof -
  note ab = assms(1) [unfolded absorbed_def]
  have blk: "length (set_at (sh_block s) (length p) part) = 64"
    "take (length p + length part) (set_at (sh_block s) (length p) part) = p @ part"
    using set_at_take [of "sh_block s" "length p" part] ab assms(2) by simp_all
  show ?thesis
  proof (cases "length p + length part = 64")
    case True
    then have full: "set_at (sh_block s) (length p) part = p @ part" using blk by simp
    show ?thesis
      using ab True full blk(1)
      by (intro exI [of _ "bs @ [p @ part]"] exI [of _ "[]"]) (simp add: absorbed_def compress_def compress_block_fips Let_def)
  next
    case False
    then show ?thesis
      using ab blk assms(2) by (intro exI [of _ bs] exI [of _ "p @ part"]) (simp add: absorbed_def Let_def)
  qed
qed

lemma update_loop_absorbs:
  "absorbed s bs p \<Longrightarrow>
   \<exists>s' bs' p'. update_loop s input = Some s' \<and> absorbed s' bs' p' \<and> concat bs' @ p' = concat bs @ p @ input \<and>
     sh_bytesHashed s' = sh_bytesHashed s"
proof (induction s input arbitrary: bs p rule: update_loop.induct)
  case (1 s input)
  define n where "n = min (64 - sh_blockLength s) (length input)"
  let ?s1 = "s\<lparr>sh_block := set_at (sh_block s) (sh_blockLength s) (take n input), sh_blockLength := sh_blockLength s + n\<rparr>"
  let ?s2 = "if sh_blockLength ?s1 = 64 then (compress ?s1)\<lparr>sh_blockLength := 0\<rparr> else ?s1"
  have bl: "sh_blockLength s = length p" "length p < 64" using "1.prems" by (simp_all add: absorbed_def)
  have n: "length (take n input) = n" "n + length p \<le> 64" using bl by (simp_all add: n_def)
  show ?case
  proof (cases "input = []")
    case True
    then show ?thesis using "1.prems"
      by (intro exI [of _ s] exI [of _ bs] exI [of _ p]) (simp add: update_loop.simps)
  next
    case False
    have fits: "\<not> sh_blockLength s + n > 64" using n bl by simp
    have loop: "update_loop s input = update_loop ?s2 (drop n input)"
      using False fits unfolding n_def by (subst update_loop.simps) (simp only: Let_def if_False)
    have "\<exists>bs2 p2. absorbed ?s2 bs2 p2 \<and> concat bs2 @ p2 = concat bs @ p @ take n input"
      using absorbed_step [OF "1.prems", of "take n input"] n unfolding n(1) Let_def by simp
    then obtain bs2 p2 where two: "absorbed ?s2 bs2 p2" "concat bs2 @ p2 = concat bs @ p @ take n input" by blast
    obtain s' bs' p' where "update_loop ?s2 (drop n input) = Some s'" "absorbed s' bs' p'"
      "concat bs' @ p' = concat bs2 @ p2 @ drop n input" "sh_bytesHashed s' = sh_bytesHashed ?s2"
      using "1.IH" [OF False n_def fits refl refl two(1)] by blast
    moreover have "sh_bytesHashed ?s2 = sh_bytesHashed s" by (simp add: compress_def)
    moreover have "concat bs2 @ p2 @ drop n input = concat bs @ p @ input"
      using arg_cong [OF two(2), of "\<lambda>x. x @ drop n input"] by simp
    ultimately show ?thesis unfolding loop by metis
  qed
qed

subsection \<open>The digest\<close>

lemma fips_blocks_append:
  "list_all (\<lambda>b. length b = 64) bs \<Longrightarrow> fips_blocks (concat bs @ q) = bs @ fips_blocks q"
proof (induction bs)
  case (Cons b bs)
  then show ?case by (subst fips_blocks.simps) simp
qed simp

lemma fips_blocks_short: "length b < 64 \<Longrightarrow> fips_blocks b = []"
  by (simp add: fips_blocks.simps)

lemma fips_blocks_block: "length b = 64 \<Longrightarrow> fips_blocks (b @ q) = b # fips_blocks q"
  using fips_blocks_append [of "[b]" q] by simp

lemma blocks_length: "list_all (\<lambda>b. length b = 64) bs \<Longrightarrow> length (concat bs) = 64 * length bs"
  by (induction bs) auto

definition length_bytes :: "nat \<Rightarrow> bytes" where
  "length_bytes l = map (\<lambda>i. word_of_int (8 * int l div 256 ^ i)) (rev [0..<8])"

lemma write_length:
  assumes "length front = 56" "length back = 8"
  shows "foldl (\<lambda>b i. b[63 - i := word_of_int (int l * 8 div 256 ^ i)]) (front @ back) [0..<8] = front @ length_bytes l"
proof -
  obtain a b c d e f g h where "back = [a, b, c, d, e, f, g, h]"
    using assms(2) by (auto simp: length_Suc_conv eval_nat_numeral)
  then show ?thesis
    using assms(1) by (simp add: upt_rec list_update_append length_bytes_def mult.commute [of 8])
qed

lemma fips_pad_tail:
  assumes "list_all (\<lambda>b. length b = 64) bs" "length p < 64"
  shows "fips_pad (concat bs @ p) = concat bs @ p @ [0x80] @
    replicate (if length p \<le> 55 then 55 - length p else (63 - length p) + 56) 0 @ length_bytes (length (concat bs @ p))"
  using assms by (auto simp: fips_pad_def length_bytes_def Let_def blocks_length mult.commute [of 8])

lemma finish_digest:
  assumes "absorbed s bs p" "sh_bytesHashed s = length (concat bs @ p)"
  shows "sh_state (finish s) = fips_sha256 (concat bs @ p)" "sh_finished (finish s)"
proof -
  note ab = assms(1) [unfolded absorbed_def]
  let ?l = "length (concat bs @ p)"
  let ?b = "(sh_block s)[length p := 0x80]"
  have front: "take (Suc (length p)) ?b = p @ [0x80]"
    using ab by (simp add: take_Suc_conv_app_nth)
  have len: "length (length_bytes n) = 8" for n by (simp add: length_bytes_def)
  have bs: "list_all (\<lambda>b. length b = 64) bs" "length p < 64" using ab by auto
  show "sh_state (finish s) = fips_sha256 (concat bs @ p)"
  proof (cases "length p \<le> 55")
    case True
    let ?f = "p @ [0x80] @ replicate (55 - length p) 0"
    have blk: "fips_blocks (?f @ length_bytes ?l) = [?f @ length_bytes ?l]"
      using fips_blocks_block [of "?f @ length_bytes ?l" "[]"] fips_blocks_short [of "[]"] True len by simp
    have "foldl (\<lambda>b i. b[63 - i := word_of_int (int ?l * 8 div 256 ^ i)]) (?f @ drop 56 ?b) [0..<8] = ?f @ length_bytes ?l"
      by (rule write_length) (use True ab in auto)
    then have "sh_state (finish s) = fips_compress (sh_state s) (?f @ length_bytes ?l)"
      using True ab front assms(2) unfolding finish_def Let_def by (simp add: compress_def compress_block_fips)
    then show ?thesis
      using ab True blk unfolding fips_sha256_def fips_pad_tail [OF bs]
      by (simp add: fips_blocks_append)
  next
    case False
    let ?f = "p @ [0x80] @ replicate (63 - length p) 0" and ?g = "replicate 56 0 :: bytes"
    have "fips_blocks (?g @ length_bytes ?l) = [?g @ length_bytes ?l]"
      using fips_blocks_block [of "?g @ length_bytes ?l" "[]"] fips_blocks_short [of "[]"] len by simp
    then have blk: "fips_blocks (?f @ ?g @ length_bytes ?l) = [?f, ?g @ length_bytes ?l]"
      using fips_blocks_block [of ?f "?g @ length_bytes ?l"] False bs(2) by simp
    have "foldl (\<lambda>b i. b[63 - i := word_of_int (int ?l * 8 div 256 ^ i)]) (?g @ drop 56 ?f) [0..<8] = ?g @ length_bytes ?l"
      by (rule write_length) (use False bs(2) in auto)
    then have "sh_state (finish s) = fips_compress (fips_compress (sh_state s) ?f) (?g @ length_bytes ?l)"
      using False ab front assms(2) unfolding finish_def Let_def by (simp add: compress_def compress_block_fips)
    moreover have "fips_pad (concat bs @ p) = concat bs @ ?f @ ?g @ length_bytes ?l"
      using fips_pad_tail [OF bs] False by (simp add: replicate_add)
    ultimately show ?thesis
      using ab blk unfolding fips_sha256_def by (simp add: fips_blocks_append)
  qed
  show "sh_finished (finish s)" by (simp add: finish_def Let_def)
qed

lemma update_absorbs:
  assumes "absorbed s bs p" "sh_bytesHashed s = length (concat bs @ p)"
  obtains s' bs' p' where "update s input = Some s'" "absorbed s' bs' p'" "concat bs' @ p' = concat bs @ p @ input"
    "sh_bytesHashed s' = length (concat bs' @ p')"
proof -
  let ?s = "s\<lparr>sh_bytesHashed := sh_bytesHashed s + length input\<rparr>"
  have "absorbed ?s bs p" using assms(1) by (simp add: absorbed_def)
  then obtain s' bs' p' where "update_loop ?s input = Some s'" "absorbed s' bs' p'" "concat bs' @ p' = concat bs @ p @ input"
    "sh_bytesHashed s' = sh_bytesHashed ?s"
    using update_loop_absorbs by blast
  moreover have "\<not> sh_finished s" using assms(1) by (simp add: absorbed_def)
  moreover have "sh_bytesHashed ?s = length (concat bs' @ p')"
    using assms(2) arg_cong [OF calculation(3), of length] by simp
  ultimately show ?thesis using that by (simp add: update_def)
qed

lemma hash_reads_absorbs:
  "absorbed s bs p \<Longrightarrow> sh_bytesHashed s = length (concat bs @ p) \<Longrightarrow>
   \<exists>s' bs' p'. hash_reads s (map Some parts) = Some s' \<and> absorbed s' bs' p' \<and>
     concat bs' @ p' = concat bs @ p @ concat parts \<and> sh_bytesHashed s' = length (concat bs' @ p')"
proof (induction parts arbitrary: s bs p)
  case Nil
  then show ?case by (intro exI [of _ s] exI [of _ bs] exI [of _ p]) simp
next
  case (Cons part parts)
  obtain s1 bs1 p1 where 1: "update s part = Some s1" "absorbed s1 bs1 p1" "concat bs1 @ p1 = concat bs @ p @ part"
    "sh_bytesHashed s1 = length (concat bs1 @ p1)"
    by (rule update_absorbs [OF Cons.prems, of part]) blast
  from Cons.IH [OF 1(2,4)] obtain s' bs' p' where
    "hash_reads s1 (map Some parts) = Some s'" "absorbed s' bs' p'" "concat bs' @ p' = concat bs1 @ p1 @ concat parts"
    "sh_bytesHashed s' = length (concat bs' @ p')" by blast
  moreover from this(3) have "concat bs' @ p' = concat bs @ p @ concat (part # parts)"
    using 1(3) by (metis append.assoc concat.simps(2))
  ultimately show ?case using 1(1) by (intro exI [of _ s'] exI [of _ bs'] exI [of _ p']) simp
qed

lemma new_absorbed: "absorbed new_sha256 [] []"
  by (simp add: absorbed_def new_sha256_def)

text \<open>
  C22: However a file is cut into the parts of a stream, empty parts and parts that end inside a block included,
  the incremental hash is SHA-256 of the whole file as FIPS 180-4 defines it. Reading the digest again
  gives the same one and leaves the object as it is, and a digested object takes no more data.
\<close>

theorem sha256_incremental:
  "hashStream (map Some parts) = Some (concat (map hex_word (fips_sha256 (concat parts)))) \<and>
   digestHex (snd (digestHex s)) = (fst (digestHex s), snd (digestHex s)) \<and>
   update (snd (digestHex s)) input = None"
proof -
  have "sh_bytesHashed new_sha256 = length (concat [] @ [])" by (simp add: new_sha256_def)
  note fed = hash_reads_absorbs [OF new_absorbed this, of parts]
  obtain s' bs' p' where s': "hash_reads new_sha256 (map Some parts) = Some s'" "absorbed s' bs' p'"
    "concat bs' @ p' = concat parts" "sh_bytesHashed s' = length (concat bs' @ p')"
    using fed unfolding concat.simps append_Nil by blast
  have "\<not> sh_finished s'" using s'(2) by (simp add: absorbed_def)
  then have "hashStream (map Some parts) = Some (concat (map hex_word (fips_sha256 (concat parts))))"
    using finish_digest [OF s'(2,4)] s'(1,3) by (simp add: hashStream_def digestHex_def Let_def)
  moreover have "sh_finished (finish s)" by (simp add: finish_def Let_def)
  ultimately show ?thesis by (simp add: digestHex_def update_def Let_def)
qed

end
