(* ===== verification/Crypto_Bytes.thy ===== *)
theory Crypto_Bytes
  imports Session_Ctl "HOL-Library.Sublist"
begin

unbundle bit_operations_syntax

section \<open>Text encodings of keys, ids and messages\<close>

text \<open>
  \<open>mobile/src/lib/crypto/bytes.ts\<close>: the encodings everything that is signed goes through, and the base64 of
  the worker bridge (\<open>mobile/src/terminal/transport/bridge.ts\<close>). Strings are lists of UTF-16 code units. An
  exception is \<open>None\<close>. The bitwise operators of the language are those of \<open>int\<close>: all operands stay inside
  32 bits.

  A signature covers bytes, not the strings they came from. So what matters is that every encoding is
  canonical: at most one string decodes to given bytes, and it is the one that encoding them gives.
\<close>

subsection \<open>Bytes and hexadecimal\<close>

definition concatBytes :: "bytes list \<Rightarrow> bytes" where
  "concatBytes parts = concat parts"

text \<open>The loop accumulates the differences of all pairs, so that its time does not depend on them.\<close>

definition equalBytes :: "bytes \<Rightarrow> bytes \<Rightarrow> bool" where
  "equalBytes left right =
     (if length left \<noteq> length right then False
      else foldl (\<lambda>difference (l, r). difference OR (l XOR r)) 0 (zip left right) = 0)"

definition encodeHex :: "bytes \<Rightarrow> utext" where
  "encodeHex v = concat (map hex_byte v)"

definition is_hex_lower :: "nat \<Rightarrow> bool" where
  "is_hex_lower c \<longleftrightarrow> is_digit c \<or> (97 \<le> c \<and> c \<le> 102)"

fun hex_pairs :: "utext \<Rightarrow> bytes" where
  "hex_pairs (a # b # rest) = to_byte (16 * hex_val a + hex_val b) # hex_pairs rest"
| "hex_pairs _ = []"

definition decodeHex :: "utext \<Rightarrow> bytes option" where
  "decodeHex v = (if even (length v) \<and> list_all is_hex_lower v then Some (hex_pairs v) else None)"

subsection \<open>Base64\<close>

definition BASE64_ALPHABET :: utext where
  "BASE64_ALPHABET = u ''ABCDEFGHIJKLMNOPQRSTUVWXYZabcdefghijklmnopqrstuvwxyz0123456789+/''"

definition alphabet_at :: "int \<Rightarrow> nat" where
  "alphabet_at i = BASE64_ALPHABET ! nat i"

text \<open>\<open>BASE64_ALPHABET.indexOf(c)\<close>\<close>

definition alphabet_index :: "nat \<Rightarrow> int" where
  "alphabet_index c =
     (let k = length (takeWhile (\<lambda>x. x \<noteq> c) BASE64_ALPHABET) in if k < length BASE64_ALPHABET then int k else - 1)"

definition byte_or_zero :: "bytes \<Rightarrow> nat \<Rightarrow> int" where
  "byte_or_zero v i = (if i < length v then uint (v ! i) else 0)"

function encodeBase64 :: "bytes \<Rightarrow> utext" where
  "encodeBase64 v =
     (if v = [] then []
      else
        let first = byte_or_zero v 0; hasSecond = 1 < length v; hasThird = 2 < length v;
            second = byte_or_zero v 1; third = byte_or_zero v 2;
            packed = push_bit 16 first OR push_bit 8 second OR third
        in [alphabet_at (drop_bit 18 packed AND 63), alphabet_at (drop_bit 12 packed AND 63),
            if hasSecond then alphabet_at (drop_bit 6 packed AND 63) else c_equals,
            if hasThird then alphabet_at (packed AND 63) else c_equals] @ encodeBase64 (drop 3 v))"
  by pat_completeness auto
termination by (relation "measure length") auto

declare encodeBase64.simps [simp del]

text \<open>One turn of the decoding loop, and the loop; \<open>value[i] ?? "A"\<close> is \<open>unit_or_A\<close>.\<close>

definition unit_or_A :: "utext \<Rightarrow> nat \<Rightarrow> nat" where
  "unit_or_A v i = (if i < length v then v ! i else 65)"

definition decode_group :: "utext \<Rightarrow> bytes" where
  "decode_group v =
     (let sextet = (\<lambda>i. if i < length v \<and> v ! i = c_equals then 0 else alphabet_index (unit_or_A v i));
          packed = push_bit 18 (alphabet_index (unit_or_A v 0)) OR push_bit 12 (alphabet_index (unit_or_A v 1)) OR
            push_bit 6 (sextet 2) OR sextet 3
      in [word_of_int (drop_bit 16 packed AND 0xff), word_of_int (drop_bit 8 packed AND 0xff),
          word_of_int (packed AND 0xff)])"

function decode_groups :: "utext \<Rightarrow> bytes" where
  "decode_groups v = (if v = [] then [] else decode_group v @ decode_groups (drop 4 v))"
  by pat_completeness auto
termination by (relation "measure length") auto

declare decode_groups.simps [simp del]

definition padding_of :: "utext \<Rightarrow> nat" where
  "padding_of v = (if suffix [c_equals, c_equals] v then 2 else if suffix [c_equals] v then 1 else 0)"

text \<open>The writes stop at the end of the output, whose size is computed first.\<close>

definition decodeBase64Unchecked :: "utext \<Rightarrow> bytes" where
  "decodeBase64Unchecked v = take (length v * 3 div 4 - padding_of v) (decode_groups v)"

definition is_b64 :: "nat \<Rightarrow> bool" where
  "is_b64 c \<longleftrightarrow> is_letter c \<or> is_digit c \<or> c = 43 \<or> c = c_slash"

text \<open>\<open>/^(?:[A-Za-z0-9+/]{4})*(?:[A-Za-z0-9+/]{2}==|[A-Za-z0-9+/]{3}=)?$/\<close>\<close>

definition BASE64_PATTERN :: "utext \<Rightarrow> bool" where
  "BASE64_PATTERN v \<longleftrightarrow>
     length v mod 4 = 0 \<and>
     (list_all is_b64 v \<or>
      v \<noteq> [] \<and> list_all is_b64 (take (length v - 1) v) \<and> drop (length v - 1) v = [c_equals] \<or>
      v \<noteq> [] \<and> list_all is_b64 (take (length v - 2) v) \<and> drop (length v - 2) v = [c_equals, c_equals])"

definition decodeBase64 :: "utext \<Rightarrow> bytes option" where
  "decodeBase64 v =
     (if \<not> BASE64_PATTERN v then None
      else let decoded = decodeBase64Unchecked v in
        if encodeBase64 decoded \<noteq> v then None else Some decoded)"

definition url_char :: "nat \<Rightarrow> nat" where
  "url_char c = (if c = 43 then 45 else if c = c_slash then 95 else c)"

definition standard_char :: "nat \<Rightarrow> nat" where
  "standard_char c = (if c = 45 then 43 else if c = 95 then c_slash else c)"

definition encodeBase64Url :: "bytes \<Rightarrow> utext" where
  "encodeBase64Url v = rev (dropWhile (\<lambda>c. c = c_equals) (rev (map url_char (encodeBase64 v))))"

definition is_b64url :: "nat \<Rightarrow> bool" where
  "is_b64url c \<longleftrightarrow> is_letter c \<or> is_digit c \<or> c = 95 \<or> c = 45"

definition decodeBase64Url :: "utext \<Rightarrow> bytes option" where
  "decodeBase64Url v =
     (if \<not> list_all is_b64url v \<or> length v mod 4 = 1 then None
      else
        let paddingLength = (4 - length v mod 4) mod 4;
            standard = map standard_char v @ replicate paddingLength c_equals;
            decoded = decodeBase64Unchecked standard
        in if encodeBase64Url decoded \<noteq> v then None else Some decoded)"

definition decodeBase64UrlExact :: "utext \<Rightarrow> nat \<Rightarrow> bytes option" where
  "decodeBase64UrlExact v n =
     (case decodeBase64Url v of
        None \<Rightarrow> None
      | Some decoded \<Rightarrow> if length decoded \<noteq> n then None else Some decoded)"

subsection \<open>The base64 of the worker bridge\<close>

function encodeBridgeBytes :: "bytes \<Rightarrow> utext" where
  "encodeBridgeBytes v =
     (if v = [] then []
      else
        let a = byte_or_zero v 0; b = byte_or_zero v 1; c = byte_or_zero v 2
        in [alphabet_at (drop_bit 2 a), alphabet_at (push_bit 4 (a AND 3) OR drop_bit 4 b),
            if 1 < length v then alphabet_at (push_bit 2 (b AND 15) OR drop_bit 6 c) else c_equals,
            if 2 < length v then alphabet_at (c AND 63) else c_equals] @ encodeBridgeBytes (drop 3 v))"
  by pat_completeness auto
termination by (relation "measure length") auto

declare encodeBridgeBytes.simps [simp del]

text \<open>
  \<open>BASE64_ALPHABET.indexOf(s ?? "")\<close>: the empty string is at index 0. A store into the output keeps the low
  eight bits.
\<close>

definition bridge_group :: "utext \<Rightarrow> bytes option" where
  "bridge_group v =
     (let unit_index = (\<lambda>i. if i < length v then alphabet_index (v ! i) else 0);
          sextet = (\<lambda>i. if i < length v \<and> v ! i = c_equals then 0 else unit_index i);
          a = unit_index 0; b = unit_index 1; c = sextet 2; d = sextet 3
      in if a < 0 \<or> b < 0 \<or> c < 0 \<or> d < 0 then None
         else Some [word_of_int (push_bit 2 a OR drop_bit 4 b), word_of_int (push_bit 4 (b AND 15) OR drop_bit 2 c),
                    word_of_int (push_bit 6 (c AND 3) OR d)])"

function bridge_groups :: "utext \<Rightarrow> bytes option" where
  "bridge_groups v =
     (if v = [] then Some []
      else case bridge_group v of
        None \<Rightarrow> None
      | Some part \<Rightarrow> map_option (\<lambda>rest. part @ rest) (bridge_groups (drop 4 v)))"
  by pat_completeness auto
termination by (relation "measure length") auto

declare bridge_groups.simps [simp del]

definition decodeBridgeBytes :: "utext \<Rightarrow> bytes option" where
  "decodeBridgeBytes encoded =
     (if length encoded mod 4 \<noteq> 0 \<or> \<not> BASE64_PATTERN encoded then None
      else map_option (take (length encoded * 3 div 4 - padding_of encoded)) (bridge_groups encoded))"

subsection \<open>Ids\<close>

definition parseCanonicalUuid :: "utext \<Rightarrow> utext option" where
  "parseCanonicalUuid v = (if uuid_shape v \<and> list_all (\<lambda>c. \<not> is_upper c) v then Some v else None)"

definition uuidToBytes_c :: "utext \<Rightarrow> bytes option" where
  "uuidToBytes_c v =
     (case parseCanonicalUuid v of None \<Rightarrow> None | Some s \<Rightarrow> decodeHex (filter (\<lambda>c. c \<noteq> c_minus) s))"

definition bytesToUuid_c :: "bytes \<Rightarrow> utext option" where
  "bytesToUuid_c v =
     (if length v \<noteq> 16 then None
      else
        let hex = encodeHex v in
        Some (take 8 hex @ [c_minus] @ take 4 (drop 8 hex) @ [c_minus] @ take 4 (drop 12 hex) @ [c_minus] @
              take 4 (drop 16 hex) @ [c_minus] @ drop 20 hex))"


subsection \<open>Bitwise operators as arithmetic\<close>

lemma push_or:
  fixes a b :: int
  assumes "0 \<le> b" "b < 2 ^ n"
  shows "push_bit n a OR b = a * 2 ^ n + b"
proof -
  have small: "bit b k \<Longrightarrow> k < n" for k
    using assms by (metis bit_take_bit_iff take_bit_int_eq_self)
  have "push_bit n a + b = push_bit n a OR b"
    by (intro disjunctive_add) (auto simp: bit_push_bit_iff dest!: small)
  then show ?thesis by (simp add: push_bit_eq_mult)
qed

lemma and_masks:
  fixes x :: int
  shows "x AND 3 = x mod 4" "x AND 7 = x mod 8" "x AND 15 = x mod 16" "x AND 31 = x mod 32"
    "x AND 63 = x mod 64" "x AND 255 = x mod 256"
proof -
  have m: "x AND mask n = x mod 2 ^ n" for n by (simp add: take_bit_eq_mask [symmetric] take_bit_eq_mod)
  have "(mask 2 :: int) = 3" "(mask 3 :: int) = 7" "(mask 4 :: int) = 15" "(mask 5 :: int) = 31"
    "(mask 6 :: int) = 63" "(mask 8 :: int) = 255" by (simp_all add: mask_eq_exp_minus_1)
  then show "x AND 3 = x mod 4" "x AND 7 = x mod 8" "x AND 15 = x mod 16" "x AND 31 = x mod 32"
    "x AND 63 = x mod 64" "x AND 255 = x mod 256"
    using m [of 2] m [of 3] m [of 4] m [of 5] m [of 6] m [of 8] by simp_all
qed

lemma and_top: "x AND 0xc0 = (x div 64 mod 4) * 64" for x :: int
proof -
  have "x AND push_bit 6 y = push_bit 6 (drop_bit 6 x AND y)" for y
    by (rule bit_eqI) (auto simp: bit_and_iff bit_push_bit_iff bit_drop_bit_eq)
  from this [of 3] show ?thesis by (simp add: and_masks drop_bit_eq_div push_bit_eq_mult)
qed

lemma lead_or:
  fixes x :: int
  shows "0 \<le> x \<Longrightarrow> x < 64 \<Longrightarrow> 0x80 OR x = 0x80 + x" "0 \<le> x \<Longrightarrow> x < 32 \<Longrightarrow> 0xc0 OR x = 0xc0 + x"
    "0 \<le> x \<Longrightarrow> x < 16 \<Longrightarrow> 0xe0 OR x = 0xe0 + x" "0 \<le> x \<Longrightarrow> x < 8 \<Longrightarrow> 0xf0 OR x = 0xf0 + x"
  using push_or [of x 6 2] push_or [of x 5 6] push_or [of x 4 14] push_or [of x 3 30]
  by (simp_all add: push_bit_eq_mult)

lemma uint_byte: "0 \<le> uint b" "uint b < 256" for b :: "8 word"
  using uint_lt2p [of b] by simp_all

lemma byte_or_zero_range: "0 \<le> byte_or_zero v i" "byte_or_zero v i < 256"
  using uint_byte by (simp_all add: byte_or_zero_def)

lemma uint_word_byte: "0 \<le> n \<Longrightarrow> n < 256 \<Longrightarrow> uint (word_of_int n :: 8 word) = n"
  by (simp add: uint_word_of_int)

lemma pack_bytes:
  fixes a b c :: int
  assumes "0 \<le> b" "b < 256" "0 \<le> c" "c < 256"
  shows "push_bit 16 a OR push_bit 8 b OR c = (a * 256 + b) * 256 + c"
proof -
  have 1: "push_bit 8 b OR c = b * 256 + c" using push_or [of c 8 b] assms by simp
  have "0 \<le> b * 256 + c" "b * 256 + c < 2 ^ 16" using assms by simp_all
  from push_or [OF this, of a] show ?thesis unfolding 1 by simp
qed

lemma pack_sextets:
  fixes a b c d :: int
  assumes "0 \<le> b" "b < 64" "0 \<le> c" "c < 64" "0 \<le> d" "d < 64"
  shows "push_bit 18 a OR push_bit 12 b OR push_bit 6 c OR d = ((a * 64 + b) * 64 + c) * 64 + d"
proof -
  have 1: "push_bit 6 c OR d = c * 64 + d" using push_or [of d 6 c] assms by simp
  have "0 \<le> c * 64 + d" "c * 64 + d < 2 ^ 12" using assms by simp_all
  note 2 = push_or [OF this, of b]
  have "0 \<le> b * 4096 + (c * 64 + d)" "b * 4096 + (c * 64 + d) < 2 ^ 18" using assms by simp_all
  from push_or [OF this, of a] show ?thesis unfolding 1 using 2 by simp
qed

subsection \<open>Hexadecimal\<close>

lemma zip_difference_zero:
  "foldl (\<lambda>d (l, r). d OR (l XOR r)) acc (zip xs ys) = 0 \<longleftrightarrow> acc = (0 :: 8 word) \<and> (\<forall>(l, r) \<in> set (zip xs ys). l = r)"
proof (induction "zip xs ys" arbitrary: xs ys acc)
  case Nil
  then show ?case by (simp flip: Nil)
next
  case (Cons e es)
  then obtain x xs' y ys' where e: "xs = x # xs'" "ys = y # ys'" "es = zip xs' ys'"
    by (cases xs; cases ys) auto
  have x: "x XOR y = 0 \<longleftrightarrow> x = y" by (metis xor_self_eq xor.assoc xor.left_neutral)
  have o: "a OR b = 0 \<longleftrightarrow> a = 0 \<and> b = 0" for a b :: "8 word"
    by (metis or.left_neutral or.left_idem or_eq_0_iff)
  show ?case using Cons.hyps(1) [OF e(3), of "acc OR (x XOR y)"] x o e by auto
qed

lemma equalBytes_iff: "equalBytes a b \<longleftrightarrow> a = b"
  unfolding equalBytes_def zip_difference_zero
  by (auto simp: list_eq_iff_nth_eq set_zip)

lemma hex_lower_digit: "n < 16 \<Longrightarrow> is_hex_lower (hex_digit n)"
  by (simp add: is_hex_lower_def hex_digit_def is_digit_def)

lemma hex_lower_val: "is_hex_lower c \<Longrightarrow> hex_val c < 16 \<and> hex_digit (hex_val c) = c"
  by (auto simp: is_hex_lower_def hex_digit_def hex_val_def is_digit_def)

lemma hex_pairs_encode [simp]: "hex_pairs (encodeHex bs) = bs"
proof (induction bs)
  case (Cons b bs)
  have "unat b div 16 < 16" "unat b mod 16 < 16" using unat_byte_less [of b] by (simp_all add: less_mult_imp_div_less)
  with Cons show ?case by (simp add: encodeHex_def hex_byte_def)
qed (simp add: encodeHex_def)

lemma encodeHex_lower: "even (length (encodeHex bs)) \<and> list_all is_hex_lower (encodeHex bs)"
proof (induction bs)
  case (Cons b bs)
  have "unat b div 16 < 16" "unat b mod 16 < 16" using unat_byte_less [of b] by (simp_all add: less_mult_imp_div_less)
  with Cons show ?case by (simp add: encodeHex_def hex_byte_def hex_lower_digit)
qed (simp add: encodeHex_def)

lemma encode_hex_pairs: "even (length v) \<Longrightarrow> list_all is_hex_lower v \<Longrightarrow> encodeHex (hex_pairs v) = v"
proof (induction v rule: hex_pairs.induct)
  case (1 a b rest)
  then have "hex_val a < 16" "hex_val b < 16" "hex_digit (hex_val a) = a" "hex_digit (hex_val b) = b"
    using hex_lower_val by simp_all
  then have "hex_byte (to_byte (16 * hex_val a + hex_val b)) = [a, b]" by (simp add: hex_byte_def)
  with 1 show ?case by (simp add: encodeHex_def)
qed (simp_all add: encodeHex_def)

lemma decodeHex_iff: "decodeHex v = Some bs \<longleftrightarrow> encodeHex bs = v"
  using encodeHex_lower encode_hex_pairs by (auto simp: decodeHex_def)

subsection \<open>Base64 is canonical\<close>

lemma takeWhile_distinct: "distinct xs \<Longrightarrow> i < length xs \<Longrightarrow> length (takeWhile (\<lambda>x. x \<noteq> xs ! i) xs) = i"
proof (induction xs arbitrary: i)
  case (Cons x xs)
  then show ?case by (cases i) auto
qed simp

lemma alphabet_list:
  "length BASE64_ALPHABET = 64" "distinct BASE64_ALPHABET" "list_all is_b64 BASE64_ALPHABET"
  by (simp_all add: BASE64_ALPHABET_def is_b64_def char_classes)

lemma alphabet:
  assumes "0 \<le> i" "i < 64"
  shows "alphabet_index (alphabet_at i) = i" "is_b64 (alphabet_at i)"
proof -
  have "nat i < length BASE64_ALPHABET" using assms alphabet_list(1) by simp
  then show "alphabet_index (alphabet_at i) = i" "is_b64 (alphabet_at i)"
    using takeWhile_distinct [OF alphabet_list(2)] alphabet_list(1,3) assms
    by (simp_all add: alphabet_index_def alphabet_at_def list_all_length)
qed

lemma b64_not_equals: "is_b64 c \<Longrightarrow> c \<noteq> c_equals"
  by (auto simp: is_b64_def char_classes)

lemma alphabet_not_equals [simp]: "0 \<le> i \<Longrightarrow> i < 64 \<Longrightarrow> alphabet_at i \<noteq> c_equals"
  using alphabet(2) b64_not_equals by blast

text \<open>Three bytes are one number, and so are four sextets.\<close>

definition pack3 :: "int \<Rightarrow> int \<Rightarrow> int \<Rightarrow> int" where
  "pack3 a b c = (a * 256 + b) * 256 + c"

definition bytes3 :: "int \<Rightarrow> bytes" where
  "bytes3 p = [word_of_int (p div 65536 mod 256), word_of_int (p div 256 mod 256), word_of_int (p mod 256)]"

definition sextets :: "int \<Rightarrow> nat list" where
  "sextets p = map alphabet_at [p div 262144 mod 64, p div 4096 mod 64, p div 64 mod 64, p mod 64]"

lemma pack3_range:
  assumes "0 \<le> a" "a < 256" "0 \<le> b" "b < 256" "0 \<le> c" "c < 256"
  shows "0 \<le> pack3 a b c" "pack3 a b c < 16777216"
  using assms by (simp_all add: pack3_def)

lemma digits4:
  fixes p :: int
  assumes "0 \<le> p" "p < 16777216"
  shows "((p div 262144 mod 64 * 64 + p div 4096 mod 64) * 64 + p div 64 mod 64) * 64 + p mod 64 = p"
proof -
  have d: "p div 4096 = p div 64 div 64" "p div 262144 = p div 64 div 64 div 64"
    by (simp_all add: zdiv_zmult2_eq [symmetric])
  have top: "p div 64 div 64 div 64 mod 64 = p div 64 div 64 div 64"
    using assms unfolding d(2) [symmetric] by (intro mod_pos_pos_trivial) simp_all
  show ?thesis unfolding d top by (simp only: div_mult_mod_eq)
qed

lemma bytes3_pack:
  "bytes3 (pack3 (uint a) (uint b) (uint c)) = [a, b, c]" for a b c :: "8 word"
proof -
  note r = uint_byte [of a] uint_byte [of b] uint_byte [of c]
  let ?p = "pack3 (uint a) (uint b) (uint c)"
  have low: "0 \<le> c \<Longrightarrow> c < 256 \<Longrightarrow> (x * 256 + c) mod 256 = c" "0 \<le> c \<Longrightarrow> c < 256 \<Longrightarrow> (x * 256 + c) div 256 = x" for x c :: int
    by simp_all
  have 1: "?p mod 256 = uint c" "?p div 256 = uint a * 256 + uint b"
    using low r unfolding pack3_def by blast+
  have "?p div 65536 = ?p div 256 div 256" by (simp add: zdiv_zmult2_eq [symmetric])
  then have "?p div 65536 = uint a" unfolding 1 using r by simp
  then show ?thesis using r unfolding bytes3_def 1 by simp
qed

lemma encode_packed:
  assumes "v \<noteq> []"
  shows "encodeBase64 v =
    (let p = pack3 (byte_or_zero v 0) (byte_or_zero v 1) (byte_or_zero v 2)
     in take (min 4 (length v + 1)) (sextets p) @ replicate (3 - length v) c_equals @ encodeBase64 (drop 3 v))"
proof -
  let ?p = "pack3 (byte_or_zero v 0) (byte_or_zero v 1) (byte_or_zero v 2)"
  note r = byte_or_zero_range [of v 0] byte_or_zero_range [of v 1] byte_or_zero_range [of v 2]
  have p: "push_bit 16 (byte_or_zero v 0) OR push_bit 8 (byte_or_zero v 1) OR byte_or_zero v 2 = ?p"
    using pack_bytes r by (simp add: pack3_def)
  have e: "drop_bit 18 ?p AND 63 = ?p div 262144 mod 64" "drop_bit 12 ?p AND 63 = ?p div 4096 mod 64"
    "drop_bit 6 ?p AND 63 = ?p div 64 mod 64" "?p AND 63 = ?p mod 64"
    by (simp_all add: and_masks drop_bit_eq_div)
  have "encodeBase64 v =
      [alphabet_at (?p div 262144 mod 64), alphabet_at (?p div 4096 mod 64),
       if 1 < length v then alphabet_at (?p div 64 mod 64) else c_equals,
       if 2 < length v then alphabet_at (?p mod 64) else c_equals] @ encodeBase64 (drop 3 v)"
    using assms by (subst encodeBase64.simps) (simp only: Let_def p e if_False)
  moreover have "length v = 1 \<or> length v = 2 \<or> 2 < length v" using assms by (cases v; cases "tl v") auto
  ultimately show ?thesis by (auto simp: Let_def sextets_def numeral_eq_Suc take_Cons')
qed

definition sextet_of :: "nat \<Rightarrow> int" where
  "sextet_of c = (if c = c_equals then 0 else alphabet_index c)"

lemma decode_group_value:
  assumes "sextet_of a \<in> {0..<64}" "sextet_of b \<in> {0..<64}" "sextet_of c \<in> {0..<64}" "sextet_of d \<in> {0..<64}"
    and "a \<noteq> c_equals" "b \<noteq> c_equals"
  shows "decode_group (a # b # c # d # r) =
    bytes3 (((sextet_of a * 64 + sextet_of b) * 64 + sextet_of c) * 64 + sextet_of d)"
proof -
  let ?p = "((sextet_of a * 64 + sextet_of b) * 64 + sextet_of c) * 64 + sextet_of d"
  have p: "push_bit 18 (sextet_of a) OR push_bit 12 (sextet_of b) OR push_bit 6 (sextet_of c) OR sextet_of d = ?p"
    by (rule pack_sextets) (use assms in auto)
  have u: "unit_or_A (a # b # c # d # r) 0 = a" "unit_or_A (a # b # c # d # r) 1 = b"
    "unit_or_A (a # b # c # d # r) 2 = c" "unit_or_A (a # b # c # d # r) 3 = d"
    by (simp_all add: unit_or_A_def)
  have s: "alphabet_index a = sextet_of a" "alphabet_index b = sextet_of b"
    "(if 2 < length (a # b # c # d # r) \<and> (a # b # c # d # r) ! 2 = c_equals then 0 else alphabet_index c) = sextet_of c"
    "(if 3 < length (a # b # c # d # r) \<and> (a # b # c # d # r) ! 3 = c_equals then 0 else alphabet_index d) = sextet_of d"
    using assms(5,6) by (simp_all add: sextet_of_def)
  show ?thesis
    unfolding decode_group_def Let_def u s p by (simp add: bytes3_def and_masks drop_bit_eq_div)
qed

lemma sextet_alphabet: "0 \<le> i \<Longrightarrow> i < 64 \<Longrightarrow> sextet_of (alphabet_at i) = i"
  using alphabet(1) by (simp add: sextet_of_def)

lemma sextet_equals [simp]: "sextet_of c_equals = 0"
  by (simp add: sextet_of_def)

lemma decode_digits:
  assumes "a \<in> {0..<64}" "b \<in> {0..<64}" "c \<in> {0..<64}" "d \<in> {0..<64}"
    and "x = alphabet_at c \<or> x = c_equals \<and> c = 0" "y = alphabet_at d \<or> y = c_equals \<and> d = 0"
  shows "decode_group (alphabet_at a # alphabet_at b # x # y # r) = bytes3 (((a * 64 + b) * 64 + c) * 64 + d)"
proof -
  have s: "sextet_of (alphabet_at a) = a" "sextet_of (alphabet_at b) = b" "sextet_of x = c" "sextet_of y = d"
    using assms sextet_alphabet by auto
  show ?thesis
    using decode_group_value [of "alphabet_at a" "alphabet_at b" x y r, unfolded s] assms(1-4) by simp
qed

text \<open>The zeros that fill the last group decode to zeros.\<close>

lemma decode_encoded_group:
  assumes "v \<noteq> []"
  defines "p \<equiv> pack3 (byte_or_zero v 0) (byte_or_zero v 1) (byte_or_zero v 2)"
  shows "decode_group (take (min 4 (length v + 1)) (sextets p) @ replicate (3 - length v) c_equals @ r) = bytes3 p"
proof -
  note r = byte_or_zero_range [of v 0] byte_or_zero_range [of v 1] byte_or_zero_range [of v 2]
  let ?a = "p div 262144 mod 64" and ?b = "p div 4096 mod 64" and ?c = "p div 64 mod 64" and ?d = "p mod 64"
  have range: "0 \<le> p" "p < 16777216" unfolding p_def using r by (intro pack3_range; simp)+
  note digits = digits4 [OF range]
  have m: "x mod 64 \<in> {0..<64}" for x :: int by simp
  have group: "decode_group (alphabet_at ?a # alphabet_at ?b # x # y # r) = bytes3 p"
    if "x = alphabet_at ?c \<or> x = c_equals \<and> ?c = 0" "y = alphabet_at ?d \<or> y = c_equals \<and> ?d = 0" for x y
    using decode_digits [OF m [of "p div 262144"] m [of "p div 4096"] m m that, of r] unfolding digits .
  have d0: "length v \<le> 2 \<Longrightarrow> ?d = 0" by (simp add: p_def pack3_def byte_or_zero_def)
  have c0: "length v \<le> 1 \<Longrightarrow> ?c = 0"
  proof -
    assume "length v \<le> 1"
    then have "p = byte_or_zero v 0 * 1024 * 64" by (simp add: p_def pack3_def byte_or_zero_def)
    then have "p div 64 = byte_or_zero v 0 * 16 * 64" by simp
    then show "?c = 0" by simp
  qed
  consider "length v = 1" | "length v = 2" | "2 < length v" using assms(1) by (cases v; cases "tl v") auto
  then show ?thesis
  proof cases
    case 1
    then have "take (min 4 (length v + 1)) (sextets p) @ replicate (3 - length v) c_equals @ r =
        alphabet_at ?a # alphabet_at ?b # c_equals # c_equals # r"
      by (simp add: sextets_def numeral_2_eq_2)
    with group show ?thesis using c0 d0 1 by (metis order_refl one_le_numeral)
  next
    case 2
    then have "take (min 4 (length v + 1)) (sextets p) @ replicate (3 - length v) c_equals @ r =
        alphabet_at ?a # alphabet_at ?b # alphabet_at ?c # c_equals # r"
      by (simp add: sextets_def)
    with group show ?thesis using d0 2 by (metis order_refl)
  next
    case 3
    then have "take (min 4 (length v + 1)) (sextets p) @ replicate (3 - length v) c_equals @ r =
        alphabet_at ?a # alphabet_at ?b # alphabet_at ?c # alphabet_at ?d # r"
      by (simp add: sextets_def)
    with group show ?thesis by metis
  qed
qed

lemma bytes3_take:
  assumes "v \<noteq> []"
  shows "bytes3 (pack3 (byte_or_zero v 0) (byte_or_zero v 1) (byte_or_zero v 2)) = take 3 v @ replicate (3 - length v) 0"
proof -
  let ?w = "\<lambda>i. if i < length v then v ! i else 0"
  have "byte_or_zero v i = uint (?w i)" for i by (simp add: byte_or_zero_def)
  then have "bytes3 (pack3 (byte_or_zero v 0) (byte_or_zero v 1) (byte_or_zero v 2)) = [?w 0, ?w 1, ?w 2]"
    using bytes3_pack by simp
  moreover have "\<dots> = take 3 v @ replicate (3 - length v) 0"
    using assms by (cases v; cases "tl v"; cases "tl (tl v)") (auto simp: numeral_2_eq_2)
  ultimately show ?thesis by simp
qed

lemma decode_groups_encode:
  "decode_groups (encodeBase64 v) = v @ replicate ((3 - length v mod 3) mod 3) 0"
proof (induction v rule: encodeBase64.induct)
  case (1 v)
  show ?case
  proof (cases "v = []")
    case True
    then show ?thesis by (simp add: encodeBase64.simps decode_groups.simps)
  next
    case False
    let ?p = "pack3 (byte_or_zero v 0) (byte_or_zero v 1) (byte_or_zero v 2)"
    let ?h = "take (min 4 (length v + 1)) (sextets ?p) @ replicate (3 - length v) c_equals"
    have enc: "encodeBase64 v = ?h @ encodeBase64 (drop 3 v)" using encode_packed [OF False] by (simp add: Let_def)
    have h: "length ?h = 4" using False by (cases v; cases "tl v") (auto simp: sextets_def)
    have IH: "decode_groups (encodeBase64 (drop 3 v)) = drop 3 v @ replicate ((3 - (length v - 3) mod 3) mod 3) 0"
      using "1.IH" False by simp
    have "decode_groups (encodeBase64 v) = decode_group (?h @ encodeBase64 (drop 3 v)) @ decode_groups (encodeBase64 (drop 3 v))"
      unfolding enc using h by (subst decode_groups.simps) auto
    also have "\<dots> = take 3 v @ replicate (3 - length v) 0 @ drop 3 v @ replicate ((3 - (length v - 3) mod 3) mod 3) 0"
      unfolding IH using decode_encoded_group [OF False] bytes3_take [OF False] by simp
    also have "\<dots> = v @ replicate ((3 - length v mod 3) mod 3) 0"
    proof (cases "length v < 3")
      case True
      then show ?thesis using False by (cases v) auto
    next
      case False
      then have "(length v - 3) mod 3 = length v mod 3" by (metis le_mod_geq not_less)
      then show ?thesis using False by (simp flip: append_assoc)
    qed
    finally show ?thesis .
  qed
qed

lemma encode_shape:
  "\<exists>body. encodeBase64 v = body @ replicate ((3 - length v mod 3) mod 3) c_equals \<and> list_all is_b64 body \<and>
     length body + (3 - length v mod 3) mod 3 = 4 * ((length v + 2) div 3)"
proof (induction v rule: encodeBase64.induct)
  case (1 v)
  show ?case
  proof (cases "v = []")
    case False
    let ?p = "pack3 (byte_or_zero v 0) (byte_or_zero v 1) (byte_or_zero v 2)"
    let ?h = "take (min 4 (length v + 1)) (sextets ?p)"
    have enc: "encodeBase64 v = ?h @ replicate (3 - length v) c_equals @ encodeBase64 (drop 3 v)"
      using encode_packed [OF False] by (simp add: Let_def)
    have "list_all is_b64 (sextets p)" for p by (simp add: sextets_def alphabet(2))
    then have h: "list_all is_b64 ?h" by (metis append_take_drop_id list_all_append)
    obtain body where IH: "encodeBase64 (drop 3 v) = body @ replicate ((3 - length (drop 3 v) mod 3) mod 3) c_equals"
      "list_all is_b64 body" "length body + (3 - length (drop 3 v) mod 3) mod 3 = 4 * ((length (drop 3 v) + 2) div 3)"
      using "1.IH" [OF False refl refl refl refl refl refl] by blast
    show ?thesis
    proof (cases "length v < 3")
      case True
      then have "drop 3 v = []" "length v = 1 \<or> length v = 2" using False by (auto simp: Suc_lessI less_Suc_eq numeral_3_eq_3)
      then have "(3 - length v mod 3) mod 3 = 3 - length v" "length ?h = length v + 1" "(length v + 2) div 3 = 1"
        by (auto simp: sextets_def)
      moreover have "encodeBase64 v = ?h @ replicate (3 - length v) c_equals"
        using enc \<open>drop 3 v = []\<close> by (simp add: encodeBase64.simps)
      ultimately show ?thesis using h True by (intro exI [of _ ?h]) simp
    next
      case ge: False
      then have "(length v - 3) mod 3 = length v mod 3" "(length v + 2) div 3 = Suc ((length v - 3 + 2) div 3)"
        by (simp_all add: le_mod_geq)
      then show ?thesis
        using enc IH h ge by (intro exI [of _ "?h @ body"]) (simp add: sextets_def)
    qed
  qed (simp add: encodeBase64.simps)
qed

lemma decode_unchecked_encode: "decodeBase64Unchecked (encodeBase64 v) = v"
proof -
  let ?k = "(3 - length v mod 3) mod 3"
  obtain body where b: "encodeBase64 v = body @ replicate ?k c_equals" "list_all is_b64 body"
    "length body + ?k = 4 * ((length v + 2) div 3)"
    using encode_shape by blast
  have last: "body = [] \<or> last body \<noteq> c_equals" using b(2) b64_not_equals by (metis last_in_set list_all_iff)
  have "?k < 3" by simp
  then consider "?k = 0" | "?k = 1" | "?k = 2" by linarith
  then have pad: "padding_of (encodeBase64 v) = ?k"
  proof cases
    case 1
    then show ?thesis using b(1) last by (cases body rule: rev_cases) (auto simp: padding_of_def suffix_def)
  next
    case 2
    then show ?thesis using b(1) last by (cases body rule: rev_cases) (auto simp: padding_of_def suffix_def)
  next
    case 3
    then have "encodeBase64 v = body @ [c_equals, c_equals]" using b(1) by (simp add: numeral_2_eq_2)
    then show ?thesis using 3 by (simp add: padding_of_def suffix_def)
  qed
  have "length (encodeBase64 v) = 4 * ((length v + 2) div 3)" using b(1,3) by simp
  then have "length (encodeBase64 v) * 3 div 4 = 3 * ((length v + 2) div 3)" by simp
  moreover have "3 * ((length v + 2) div 3) - ?k = length v"
  proof -
    have "length v = 3 * (length v div 3) + length v mod 3" by simp
    then obtain q r where q: "length v = 3 * q + r" "r < 3" by (metis mod_less_divisor zero_less_numeral)
    from q(2) consider "r = 0" | "r = 1" | "r = 2" by linarith
    moreover have "length v mod 3 = r" "(length v + 2) div 3 = q + (r + 2) div 3"
      unfolding q(1) using q(2) by (simp, metis add.assoc add.commute div_mult_self2 zero_neq_numeral)
    ultimately show ?thesis using q(1) by cases simp_all
  qed
  ultimately have "length (encodeBase64 v) * 3 div 4 - ?k = length v" by simp
  then show ?thesis by (simp add: decodeBase64Unchecked_def decode_groups_encode pad)
qed

lemma pattern_encode: "BASE64_PATTERN (encodeBase64 v)"
proof -
  let ?k = "(3 - length v mod 3) mod 3"
  obtain body where b: "encodeBase64 v = body @ replicate ?k c_equals" "list_all is_b64 body"
    "length body + ?k = 4 * ((length v + 2) div 3)"
    using encode_shape by blast
  have len: "length (encodeBase64 v) mod 4 = 0" using b(1,3) by simp
  have "?k < 3" by simp
  then consider "?k = 0" | "?k = 1" | "?k = 2" by linarith
  then show ?thesis
  proof cases
    case 1
    then show ?thesis using b(1,2) len by (simp add: BASE64_PATTERN_def)
  next
    case 2
    then have "encodeBase64 v = body @ [c_equals]" using b(1) by simp
    then show ?thesis using b(2) len by (simp add: BASE64_PATTERN_def)
  next
    case 3
    then have "encodeBase64 v = body @ [c_equals, c_equals]" using b(1) by (simp add: numeral_2_eq_2)
    then show ?thesis using b(2) len by (simp add: BASE64_PATTERN_def)
  qed
qed

lemma decodeBase64_iff: "decodeBase64 s = Some v \<longleftrightarrow> encodeBase64 v = s"
  using pattern_encode decode_unchecked_encode by (auto simp: decodeBase64_def Let_def)

lemma url_standard:
  "is_b64 c \<Longrightarrow> standard_char (url_char c) = c \<and> is_b64url (url_char c) \<and> url_char c \<noteq> c_equals"
  by (auto simp: is_b64_def is_b64url_def url_char_def standard_char_def char_classes)

lemma pad_length:
  fixes k l t :: nat
  assumes "k < 3" "l + k = 4 * t"
  shows "(4 - l mod 4) mod 4 = k" "l mod 4 \<noteq> 1"
proof -
  have "(4 - l mod 4) mod 4 = k \<and> l mod 4 \<noteq> 1"
  proof (cases "k = 0")
    case True
    then show ?thesis using assms(2) by simp
  next
    case False
    then obtain s where "t = Suc s" using assms(2) by (cases t) auto
    then have "l = 4 * s + (4 - k)" using assms False by simp
    then have "l mod 4 = 4 - k" using False by simp
    then show ?thesis using assms(1) False by auto
  qed
  then show "(4 - l mod 4) mod 4 = k" "l mod 4 \<noteq> 1" by auto
qed

lemma decodeBase64Url_encode: "decodeBase64Url (encodeBase64Url v) = Some v"
proof -
  let ?k = "(3 - length v mod 3) mod 3"
  obtain body where b: "encodeBase64 v = body @ replicate ?k c_equals" "list_all is_b64 body"
    "length body + ?k = 4 * ((length v + 2) div 3)"
    using encode_shape by blast
  have eq: "url_char c_equals = c_equals" by (simp add: url_char_def)
  have "dropWhile (\<lambda>c. c = c_equals) (rev (map url_char body)) = rev (map url_char body)"
    using b(2) url_standard by (cases body rule: rev_cases) auto
  then have url: "encodeBase64Url v = map url_char body"
    using dropWhile_all [of "replicate ?k c_equals" "\<lambda>c. c = c_equals"]
    by (simp add: encodeBase64Url_def b(1) eq)
  have chars: "list_all is_b64url (map url_char body)" "map standard_char (map url_char body) = body"
    using b(2) url_standard by (induction body) auto
  have "?k < 3" by simp
  note pad = pad_length [OF this b(3)]
  show ?thesis
    using chars pad decode_unchecked_encode [of v] url b(1)
    by (simp add: decodeBase64Url_def Let_def)
qed

lemma decodeBase64Url_iff: "decodeBase64Url s = Some v \<longleftrightarrow> encodeBase64Url v = s"
proof
  show "decodeBase64Url s = Some v \<Longrightarrow> encodeBase64Url v = s"
    by (auto simp: decodeBase64Url_def Let_def split: if_splits)
  show "encodeBase64Url v = s \<Longrightarrow> decodeBase64Url s = Some v" using decodeBase64Url_encode by blast
qed

lemma decodeExact_iff: "decodeBase64UrlExact s n = Some v \<longleftrightarrow> encodeBase64Url v = s \<and> length v = n"
proof -
  have "decodeBase64UrlExact s n = Some v \<longleftrightarrow> decodeBase64Url s = Some v \<and> length v = n"
    by (auto simp: decodeBase64UrlExact_def split: option.splits)
  then show ?thesis unfolding decodeBase64Url_iff .
qed

subsection \<open>The two base64 codecs agree\<close>

lemma low_digit:
  fixes x c m :: int
  assumes "0 \<le> c" "c < m"
  shows "(x * m + c) mod m = c" "(x * m + c) div m = x"
  using assms by (simp_all add: div_pos_pos_trivial)

lemma two_digits:
  fixes x q m n :: int
  assumes "0 \<le> q" "q < m" "0 < n"
  shows "(x * m + q) mod (m * n) = x mod n * m + q"
proof -
  have "x * m + q = (x div n * n + x mod n) * m + q" by simp
  also have "\<dots> = x div n * (m * n) + (x mod n * m + q)" by (simp only: ring_distribs ac_simps)
  finally have e: "x * m + q = x div n * (m * n) + (x mod n * m + q)" .
  have m: "0 < m" "0 \<le> x mod n" "x mod n \<le> n - 1" using assms by simp_all
  then have "x mod n * m \<le> (n - 1) * m" by (intro mult_right_mono) auto
  then have "x mod n * m + q < m * n" using assms(2) by (simp add: algebra_simps)
  moreover have "0 \<le> x mod n * m + q" using m assms(1) by simp
  ultimately show ?thesis unfolding e by (rule low_digit(1) [rotated])
qed

lemma div_part:
  fixes x c m n :: int
  assumes "0 < n"
  shows "(x * (m * n) + c) div n = x * m + c div n"
  unfolding mult.assoc [symmetric] by (rule div_mult_self3) (use assms in simp)

lemma mod_part: "(a * 256 + b) mod 16 = b mod 16" for a b :: int
  using mod_mult_self3 [of "a * 16" 16 b] by (simp add: mult.commute [of a])

lemma bridge_sextets:
  fixes a b c :: int
  assumes "0 \<le> a" "a < 256" "0 \<le> b" "b < 256" "0 \<le> c" "c < 256"
  defines "p \<equiv> pack3 a b c"
  shows "p div 262144 mod 64 = a div 4" "p div 4096 mod 64 = a mod 4 * 16 + b div 16"
    "p div 64 mod 64 = b mod 16 * 4 + c div 64" "p mod 64 = c mod 64"
proof -
  have p12: "p div 256 = a * 256 + b" "p mod 256 = c"
    unfolding p_def pack3_def by (rule low_digit [OF assms(5,6)])+
  have "p = (a * 256 + b) * (4 * 64) + c" by (simp add: p_def pack3_def)
  note p = p12 this
  have "p div 65536 = p div 256 div 256" by (simp add: zdiv_zmult2_eq [symmetric])
  then have top: "p div 65536 = a" unfolding p(1) using low_digit(2) [of b 256 a] assms(3,4) by (simp only:)
  have "p div 262144 = p div 65536 div 4" by (simp add: zdiv_zmult2_eq [symmetric])
  then show "p div 262144 mod 64 = a div 4" unfolding top using assms by simp
  have "p div 4096 = (a * (16 * 16) + b) div 16" using p(1) by (simp add: zdiv_zmult2_eq [symmetric])
  also have "\<dots> = a * 16 + b div 16" by (rule div_part) simp
  finally show "p div 4096 mod 64 = a mod 4 * 16 + b div 16"
    using two_digits [of "b div 16" 16 4 a] assms by simp
  show "p mod 64 = c mod 64" unfolding p(2) [symmetric] by (simp add: mod_mod_cancel)
  have "p div 64 = (a * 256 + b) * 4 + c div 64" unfolding p(3) by (rule div_part) simp
  moreover have "(a * 256 + b) mod 16 = b mod 16" by (rule mod_part)
  ultimately show "p div 64 mod 64 = b mod 16 * 4 + c div 64"
    using two_digits [of "c div 64" 4 16 "a * 256 + b"] assms by simp
qed


lemma encodeBridge_eq: "encodeBridgeBytes v = encodeBase64 v"
proof (induction v rule: encodeBridgeBytes.induct)
  case (1 v)
  show ?case
  proof (cases "v = []")
    case True
    then show ?thesis by (simp add: encodeBase64.simps encodeBridgeBytes.simps)
  next
    case False
    let ?a = "byte_or_zero v 0" and ?b = "byte_or_zero v 1" and ?c = "byte_or_zero v 2"
    note r = byte_or_zero_range [of v 0] byte_or_zero_range [of v 1] byte_or_zero_range [of v 2]
    note six = bridge_sextets [OF r]
    have p: "push_bit 16 ?a OR push_bit 8 ?b OR ?c = pack3 ?a ?b ?c"
      using pack_bytes r by (simp add: pack3_def)
    have n: "?b div 16 < 2 ^ 4" "?c div 64 < 2 ^ 2" "0 \<le> ?b div 16" "0 \<le> ?c div 64" using r by simp_all
    have or: "push_bit 4 (?a AND 3) OR drop_bit 4 ?b = ?a mod 4 * 16 + ?b div 16"
      "push_bit 2 (?b AND 15) OR drop_bit 6 ?c = ?b mod 16 * 4 + ?c div 64"
      using push_or [OF n(3,1), of "?a mod 4"] push_or [OF n(4,2), of "?b mod 16"]
      by (simp_all add: and_masks drop_bit_eq_div)
    have pow: "(2 :: int) ^ 18 = 262144" "(2 :: int) ^ 12 = 4096" "(2 :: int) ^ 6 = 64" "(2 :: int) ^ 2 = 4" by simp_all
    have e: "drop_bit 18 (pack3 ?a ?b ?c) AND 63 = ?a div 4" "drop_bit 12 (pack3 ?a ?b ?c) AND 63 = ?a mod 4 * 16 + ?b div 16"
      "drop_bit 6 (pack3 ?a ?b ?c) AND 63 = ?b mod 16 * 4 + ?c div 64" "pack3 ?a ?b ?c AND 63 = ?c mod 64"
      "drop_bit 2 ?a = ?a div 4" "?c AND 63 = ?c mod 64"
      unfolding and_masks drop_bit_eq_div pow six by (rule refl)+
    have IH: "encodeBridgeBytes (drop 3 v) = encodeBase64 (drop 3 v)"
      using "1.IH" [OF False refl refl refl] by simp
    show ?thesis
      using False by (subst encodeBase64.simps, subst encodeBridgeBytes.simps) (simp only: Let_def if_False p or e IH)
  qed
qed

lemma bridge_bytes:
  fixes a b c d :: int
  assumes "a \<in> {0..<64}" "b \<in> {0..<64}" "c \<in> {0..<64}" "d \<in> {0..<64}"
  shows "[word_of_int (push_bit 2 a OR drop_bit 4 b), word_of_int (push_bit 4 (b AND 15) OR drop_bit 2 c),
      word_of_int (push_bit 6 (c AND 3) OR d)] = bytes3 (((a * 64 + b) * 64 + c) * 64 + d)"
proof -
  let ?p = "((a * 64 + b) * 64 + c) * 64 + d"
  have n: "0 \<le> b div 16" "b div 16 < 2 ^ 2" "0 \<le> c div 4" "c div 4 < 2 ^ 4" using assms by auto
  have or: "push_bit 2 a OR drop_bit 4 b = a * 4 + b div 16" "push_bit 4 (b AND 15) OR drop_bit 2 c = b mod 16 * 16 + c div 4"
    "push_bit 6 (c AND 3) OR d = c mod 4 * 64 + d"
    using push_or [OF n(1,2), of a] push_or [OF n(3,4), of "b mod 16"] push_or [of d 6 "c mod 4"] assms(4)
    by (simp_all add: and_masks drop_bit_eq_div)
  have p64: "?p div 64 = (a * 64 + b) * 64 + c"
    using low_digit(2) [of d 64 "(a * 64 + b) * 64 + c"] assms(4) by (simp only: atLeastLessThan_iff)
  have "?p div 4096 = ?p div 64 div 64" by (simp add: zdiv_zmult2_eq [symmetric])
  then have p4096: "?p div 4096 = a * 64 + b"
    unfolding p64 using low_digit(2) [of c 64 "a * 64 + b"] assms(3) by (simp only: atLeastLessThan_iff)
  have "?p div 65536 = ?p div 4096 div 16" by (simp add: zdiv_zmult2_eq [symmetric])
  also have "\<dots> = a * 4 + b div 16" unfolding p4096 using div_part [of 16 a 4 b] by simp
  finally have 1: "?p div 65536 = a * 4 + b div 16" .
  have "?p div 256 = ?p div 64 div 4" by (simp add: zdiv_zmult2_eq [symmetric])
  also have "\<dots> = (a * 64 + b) * 16 + c div 4" unfolding p64 using div_part [of 4 "a * 64 + b" 16 c] by simp
  finally have 2: "?p div 256 mod 256 = (a * 64 + b) mod 16 * 16 + c div 4"
    using two_digits [of "c div 4" 16 16 "a * 64 + b"] n(3,4) by simp
  have b: "(a * 64 + b) mod 16 = b mod 16" using mod_mult_self3 [of "a * 4" 16 b] by (simp add: mult.commute [of a])
  have 3: "?p mod 256 = ((a * 64 + b) * 64 + c) mod 4 * 64 + d"
    using two_digits [of d 64 4 "(a * 64 + b) * 64 + c"] assms(4) by auto
  have c: "((a * 64 + b) * 64 + c) mod 4 = c mod 4"
    using mod_mult_self3 [of "(a * 64 + b) * 16" 4 c] by (simp add: mult.commute [of b])
  have top: "(a * 4 + b div 16) mod 256 = a * 4 + b div 16"
    using assms(1) n(1,2) by (intro mod_pos_pos_trivial) auto
  show ?thesis unfolding bytes3_def or 1 2 3 b c top ..
qed

lemma bridge_group_value:
  assumes "a \<in> {0..<64}" "b \<in> {0..<64}" "c \<in> {0..<64}" "d \<in> {0..<64}"
    and "x = alphabet_at c \<or> x = c_equals \<and> c = 0" "y = alphabet_at d \<or> y = c_equals \<and> d = 0"
  shows "bridge_group (alphabet_at a # alphabet_at b # x # y # r) = Some (decode_group (alphabet_at a # alphabet_at b # x # y # r))"
proof -
  let ?v = "alphabet_at a # alphabet_at b # x # y # r"
  have s: "(if 0 < length ?v then alphabet_index (?v ! 0) else 0) = a" "(if 1 < length ?v then alphabet_index (?v ! 1) else 0) = b"
    using assms(1,2) alphabet(1) by simp_all
  have v: "?v ! 2 = x" "?v ! 3 = y" "2 < length ?v" "3 < length ?v" by simp_all
  have "(if x = c_equals then 0 else alphabet_index x) = c" "(if y = c_equals then 0 else alphabet_index y) = d"
    using assms alphabet(1) by auto
  then have xy: "(if 2 < length ?v \<and> ?v ! 2 = c_equals then 0 else if 2 < length ?v then alphabet_index (?v ! 2) else 0) = c"
    "(if 3 < length ?v \<and> ?v ! 3 = c_equals then 0 else if 3 < length ?v then alphabet_index (?v ! 3) else 0) = d"
    unfolding v(1,2) using v(3,4) by (simp_all only: simp_thms if_True)
  have "\<not> (a < 0 \<or> b < 0 \<or> c < 0 \<or> d < 0)" using assms(1-4) by auto
  then have "bridge_group ?v = Some [word_of_int (push_bit 2 a OR drop_bit 4 b),
      word_of_int (push_bit 4 (b AND 15) OR drop_bit 2 c), word_of_int (push_bit 6 (c AND 3) OR d)]"
    unfolding bridge_group_def Let_def s xy by (simp only: if_False)
  then show ?thesis unfolding bridge_bytes [OF assms(1-4)] decode_digits [OF assms] .
qed

lemma bridge_encoded_group:
  assumes "v \<noteq> []"
  defines "p \<equiv> pack3 (byte_or_zero v 0) (byte_or_zero v 1) (byte_or_zero v 2)"
  shows "bridge_group (take (min 4 (length v + 1)) (sextets p) @ replicate (3 - length v) c_equals @ r) =
    Some (decode_group (take (min 4 (length v + 1)) (sextets p) @ replicate (3 - length v) c_equals @ r))"
proof -
  let ?a = "p div 262144 mod 64" and ?b = "p div 4096 mod 64"
  have m: "x mod 64 \<in> {0..<64}" for x :: int by simp
  obtain c d x y where "c \<in> {0..<64}" "d \<in> {0..<64}" "x = alphabet_at c \<or> x = c_equals \<and> c = 0"
    "y = alphabet_at d \<or> y = c_equals \<and> d = 0"
    "take (min 4 (length v + 1)) (sextets p) @ replicate (3 - length v) c_equals @ r = alphabet_at ?a # alphabet_at ?b # x # y # r"
  proof -
    consider "length v = 1" | "length v = 2" | "2 < length v" using assms(1) by (cases v; cases "tl v") auto
    then show thesis
    proof cases
      case 1
      then show thesis using that [of 0 0 c_equals c_equals] by (simp add: sextets_def numeral_2_eq_2)
    next
      case 2
      then show thesis using that [OF m [of "p div 64"], of 0 _ c_equals] by (simp add: sextets_def)
    next
      case 3
      then show thesis using that [OF m [of "p div 64"] m [of p]] by (simp add: sextets_def)
    qed
  qed
  with bridge_group_value [OF m [of "p div 262144"] m [of "p div 4096"]] show ?thesis by metis
qed

lemma bridge_groups_encode: "bridge_groups (encodeBase64 v) = Some (decode_groups (encodeBase64 v))"
proof (induction v rule: encodeBase64.induct)
  case (1 v)
  show ?case
  proof (cases "v = []")
    case True
    then show ?thesis by (simp add: encodeBase64.simps decode_groups.simps bridge_groups.simps)
  next
    case False
    let ?p = "pack3 (byte_or_zero v 0) (byte_or_zero v 1) (byte_or_zero v 2)"
    let ?h = "take (min 4 (length v + 1)) (sextets ?p) @ replicate (3 - length v) c_equals"
    have enc: "encodeBase64 v = ?h @ encodeBase64 (drop 3 v)" using encode_packed [OF False] by (simp add: Let_def)
    have h: "length ?h = 4" using False by (cases v; cases "tl v") (auto simp: sextets_def)
    then have ne: "encodeBase64 v \<noteq> []" unfolding enc by auto
    have d: "drop 4 (encodeBase64 v) = encodeBase64 (drop 3 v)" unfolding enc using h by simp
    have g: "bridge_group (encodeBase64 v) = Some (decode_group (encodeBase64 v))"
      unfolding enc using bridge_encoded_group [OF False] by simp
    have IH: "bridge_groups (encodeBase64 (drop 3 v)) = Some (decode_groups (encodeBase64 (drop 3 v)))"
      using "1.IH" [OF False refl refl refl refl refl refl] .
    have "bridge_groups (encodeBase64 v) = Some (decode_group (encodeBase64 v) @ decode_groups (encodeBase64 (drop 3 v)))"
      using ne by (subst bridge_groups.simps) (simp add: g d IH)
    then show ?thesis using ne d by (subst decode_groups.simps) simp
  qed
qed

lemma decodeBridge_encode: "decodeBridgeBytes (encodeBase64 v) = Some v"
proof -
  have "length (encodeBase64 v) mod 4 = 0" using pattern_encode by (simp add: BASE64_PATTERN_def)
  then show ?thesis
    using pattern_encode decode_unchecked_encode [of v]
    by (simp add: decodeBridgeBytes_def bridge_groups_encode decodeBase64Unchecked_def)
qed

text \<open>
  C23: Each text encoding has one form. A string decodes to given bytes exactly when it is what encoding those
  bytes writes, for hexadecimal, base64 and unpadded base64url: no second string with other padding, other
  letters or stray bits in the last character is accepted for the same bytes. The base64 of the bridge
  writes the same text and reads back what either of the two wrote.
\<close>

theorem encodings_canonical:
  "(decodeHex s = Some v \<longleftrightarrow> encodeHex v = s) \<and>
   (decodeBase64 s = Some v \<longleftrightarrow> encodeBase64 v = s) \<and>
   (decodeBase64Url s = Some v \<longleftrightarrow> encodeBase64Url v = s) \<and>
   (decodeBase64UrlExact s n = Some v \<longleftrightarrow> encodeBase64Url v = s \<and> length v = n) \<and>
   encodeBridgeBytes v = encodeBase64 v \<and> decodeBridgeBytes (encodeBridgeBytes v) = Some v"
  by (simp add: decodeHex_iff decodeBase64_iff decodeBase64Url_iff decodeExact_iff encodeBridge_eq decodeBridge_encode)

text \<open>The check of the bridge does not see stray bits: two strings decode to the same byte.\<close>

lemma bridge_not_canonical:
  "decodeBridgeBytes (u ''AA=='') = Some [0]" "decodeBridgeBytes (u ''AB=='') = Some [0]" "decodeBase64 (u ''AB=='') = None"
  by code_simp+

subsection \<open>Ids\<close>

lemma canonical_lower: "list_all (\<lambda>c. \<not> is_upper c) v \<longleftrightarrow> map ascii_lower v = v"
  by (induction v) (auto simp: ascii_lower_def)

lemma uuid_iff: "uuidToBytes_c v = Some bs \<longleftrightarrow> bytesToUuid_c bs = Some v"
proof
  assume "uuidToBytes_c v = Some bs"
  then have v: "uuid_shape v" "list_all (\<lambda>c. \<not> is_upper c) v" "encodeHex bs = filter (\<lambda>c. c \<noteq> c_minus) v"
    by (auto simp: uuidToBytes_c_def parseCanonicalUuid_def decodeHex_iff split: if_splits)
  obtain a b c d e where d: "v = dashed a b c d e" "hex_text (a @ b @ c @ d @ e)"
    "length a = 8" "length b = 4" "length c = 4" "length d = 4" "length e = 12"
    using v(1) by (rule uuid_dashed)
  have h: "encodeHex bs = a @ b @ c @ d @ e" using v(3) dashed_uuid(2) [OF d(2-)] d(1) by simp
  have "length (encodeHex bs) = 2 * length bs" for bs by (induction bs) (simp_all add: encodeHex_def hex_byte_def)
  from this [of bs] have "length bs = 16" using d(3-) unfolding h by simp
  then show "bytesToUuid_c bs = Some v" using h d by (simp add: bytesToUuid_c_def Let_def dashed_def)
next
  assume "bytesToUuid_c bs = Some v"
  then have 1: "length bs = 16" "bytesToUuid bs = Some v"
    by (auto simp: bytesToUuid_c_def bytesToUuid_def encodeHex_def split: if_splits)
  then obtain v' where v': "bytesToUuid bs = Some v'" "isControlId v'" "map ascii_lower v' = v'"
    by (metis bytes_uuid)
  then have v: "uuid_shape v" "list_all (\<lambda>c. \<not> is_upper c) v" using 1 canonical_lower by (auto simp: isControlId_def)
  let ?h = "encodeHex bs"
  have "hex_text (take 8 ?h @ take 4 (drop 8 ?h) @ take 4 (drop 12 ?h) @ take 4 (drop 16 ?h) @ drop 20 ?h)"
    unfolding take_drop_parts encodeHex_def by (rule hex_text_bytes)
  moreover have "length ?h = 32" using 1(1) by (simp add: encodeHex_def)
  ultimately have "filter (\<lambda>c. c \<noteq> c_minus) v = ?h"
    using dashed_uuid(2) [of "take 8 ?h" "take 4 (drop 8 ?h)" "take 4 (drop 12 ?h)" "take 4 (drop 16 ?h)" "drop 20 ?h"]
      1 bytesToUuid_dashed [OF 1(1)] by (simp add: take_drop_parts Let_def encodeHex_def)
  then show "uuidToBytes_c v = Some bs"
    using v by (simp add: uuidToBytes_c_def parseCanonicalUuid_def decodeHex_iff)
qed

end
