(* ===== verification/Utf8.thy ===== *)
theory Utf8
  imports Crypto_Bytes
begin

unbundle bit_operations_syntax

section \<open>UTF-8\<close>

text \<open>
  The conversions between strings and UTF-8 of \<open>mobile/src/lib/crypto/bytes.ts\<close>. A string is a list of
  UTF-16 code units, so a character outside the basic plane is two units; the encoder refuses a unit of
  such a pair on its own, the decoder refuses overlong forms, encoded surrogates and anything past the last
  code point.
\<close>

subsection \<open>The conversions\<close>

definition high_surrogate :: "nat \<Rightarrow> bool" where
  "high_surrogate c \<longleftrightarrow> 0xd800 \<le> c \<and> c \<le> 0xdbff"

definition low_surrogate :: "nat \<Rightarrow> bool" where
  "low_surrogate c \<longleftrightarrow> 0xdc00 \<le> c \<and> c \<le> 0xdfff"

fun assertValidUtf16 :: "utext \<Rightarrow> bool" where
  "assertValidUtf16 [] = True"
| "assertValidUtf16 (code # rest) =
     (if high_surrogate code then
        (case rest of
           [] \<Rightarrow> False
         | next # rest' \<Rightarrow> if next < 0xdc00 \<or> next > 0xdfff then False else assertValidUtf16 rest')
      else if low_surrogate code then False
      else assertValidUtf16 rest)"

definition utf8_bytes :: "int \<Rightarrow> bytes" where
  "utf8_bytes codePoint =
     map word_of_int
      (if codePoint \<le> 0x7f then [codePoint]
       else if codePoint \<le> 0x7ff then [0xc0 OR drop_bit 6 codePoint, 0x80 OR (codePoint AND 0x3f)]
       else if codePoint \<le> 0xffff then
         [0xe0 OR drop_bit 12 codePoint, 0x80 OR (drop_bit 6 codePoint AND 0x3f), 0x80 OR (codePoint AND 0x3f)]
       else
         [0xf0 OR drop_bit 18 codePoint, 0x80 OR (drop_bit 12 codePoint AND 0x3f),
          0x80 OR (drop_bit 6 codePoint AND 0x3f), 0x80 OR (codePoint AND 0x3f)])"

text \<open>The loop over a string that has passed the check.\<close>

fun utf8_loop :: "utext \<Rightarrow> bytes" where
  "utf8_loop [] = []"
| "utf8_loop (code # rest) =
     (if high_surrogate code then
        (case rest of
           [] \<Rightarrow> []
         | low # rest' \<Rightarrow>
             utf8_bytes (0x10000 + push_bit 10 (int code - 0xd800) + (int low - 0xdc00)) @ utf8_loop rest')
      else utf8_bytes (int code) @ utf8_loop rest)"

definition encodeUtf8 :: "utext \<Rightarrow> bytes option" where
  "encodeUtf8 v = (if assertValidUtf16 v then Some (utf8_loop v) else None)"

text \<open>The width and the bits of a leading byte.\<close>

definition utf8_lead :: "int \<Rightarrow> (int \<times> nat) option" where
  "utf8_lead first =
     (if first \<le> 0x7f then Some (first, 1)
      else if first \<ge> 0xc2 \<and> first \<le> 0xdf then Some (first AND 0x1f, 2)
      else if first \<ge> 0xe0 \<and> first \<le> 0xef then Some (first AND 0x0f, 3)
      else if first \<ge> 0xf0 \<and> first \<le> 0xf4 then Some (first AND 0x07, 4)
      else None)"

fun utf8_continue :: "int \<Rightarrow> bytes \<Rightarrow> int option" where
  "utf8_continue codePoint [] = Some codePoint"
| "utf8_continue codePoint (b # bs) =
     (if uint b AND 0xc0 \<noteq> 0x80 then None
      else utf8_continue (push_bit 6 codePoint OR (uint b AND 0x3f)) bs)"

text \<open>\<open>String.fromCodePoint\<close>\<close>

definition fromCodePoint :: "int \<Rightarrow> utext" where
  "fromCodePoint c =
     (if c \<le> 0xffff then [nat c]
      else [0xd800 + nat ((c - 0x10000) div 0x400), 0xdc00 + nat ((c - 0x10000) mod 0x400)])"

definition utf8_step :: "bytes \<Rightarrow> (utext \<times> nat) option" where
  "utf8_step v =
     (case utf8_lead (uint (hd v)) of
        None \<Rightarrow> None
      | Some (bits, width) \<Rightarrow>
          if width > length v then None
          else case utf8_continue bits (take (width - 1) (tl v)) of
            None \<Rightarrow> None
          | Some codePoint \<Rightarrow>
              let minimum = (if width = 1 then 0 else if width = 2 then 0x80 else if width = 3 then 0x800 else 0x10000)
              in if codePoint < minimum \<or> codePoint > 0x10ffff \<or> (codePoint \<ge> 0xd800 \<and> codePoint \<le> 0xdfff) then None
                 else Some (fromCodePoint codePoint, width))"

lemma utf8_lead_width: "utf8_lead b = Some (bits, width) \<Longrightarrow> 0 < width"
  by (auto simp: utf8_lead_def split: if_splits)

function decodeUtf8 :: "bytes \<Rightarrow> utext option" where
  "decodeUtf8 v =
     (if v = [] then Some []
      else case utf8_step v of
        None \<Rightarrow> None
      | Some (units, width) \<Rightarrow> map_option (\<lambda>rest. units @ rest) (decodeUtf8 (drop width v)))"
  by pat_completeness auto
termination
proof (relation "measure length", goal_cases)
  case (2 v step units width)
  then have "0 < width"
    by (auto simp: utf8_step_def Let_def split: option.splits prod.splits if_splits dest: utf8_lead_width)
  with 2 show ?case by simp
qed simp

declare decodeUtf8.simps [simp del]



subsection \<open>One character\<close>

definition scalar :: "int \<Rightarrow> bool" where
  "scalar c \<longleftrightarrow> 0 \<le> c \<and> c \<le> 0x10ffff \<and> \<not> (0xd800 \<le> c \<and> c \<le> 0xdfff)"

lemma utf8_bytes_digits:
  assumes "scalar c"
  shows "utf8_bytes c = map word_of_int
    (if c \<le> 0x7f then [c]
     else if c \<le> 0x7ff then [0xc0 + c div 64, 0x80 + c mod 64]
     else if c \<le> 0xffff then [0xe0 + c div 4096, 0x80 + c div 64 mod 64, 0x80 + c mod 64]
     else [0xf0 + c div 262144, 0x80 + c div 4096 mod 64, 0x80 + c div 64 mod 64, 0x80 + c mod 64])"
proof -
  have c: "0 \<le> c" "c \<le> 0x10ffff" using assms by (auto simp: scalar_def)
  have tail: "0x80 OR (x AND 0x3f) = 0x80 + x mod 64" for x :: int
    unfolding and_masks by (rule lead_or(1)) simp_all
  have lead: "c \<le> 0x7ff \<Longrightarrow> 0xc0 OR c div 64 = 0xc0 + c div 64" "c \<le> 0xffff \<Longrightarrow> 0xe0 OR c div 4096 = 0xe0 + c div 4096"
    "0xf0 OR c div 262144 = 0xf0 + c div 262144"
    using c by (auto intro!: lead_or)
  have pow: "drop_bit 6 c = c div 64" "drop_bit 12 c = c div 4096" "drop_bit 18 c = c div 262144"
    by (simp_all add: drop_bit_eq_div)
  show ?thesis using lead unfolding utf8_bytes_def tail pow by auto
qed

lemma continue_step:
  assumes "0 \<le> y" "y < 64"
  shows "utf8_continue x (word_of_int (0x80 + y) # bs) = utf8_continue (x * 64 + y) bs"
proof -
  have b: "uint (word_of_int (0x80 + y) :: 8 word) = 0x80 + y" using assms by (intro uint_word_byte) auto
  have "(0x80 + y) div 64 = 2" "(0x80 + y) mod 64 = y" using assms low_digit [of y 64 2] by simp_all
  then have "(0x80 + y) AND 0xc0 = 0x80" "(0x80 + y) AND 0x3f = y" by (simp_all add: and_top and_masks)
  then show ?thesis using push_or [of y 6 x] assms unfolding utf8_continue.simps b by simp
qed

lemma lead_values:
  fixes x :: int
  shows "0 \<le> x \<Longrightarrow> x \<le> 0x7f \<Longrightarrow> utf8_lead x = Some (x, 1)"
    "2 \<le> x \<Longrightarrow> x < 32 \<Longrightarrow> utf8_lead (0xc0 + x) = Some (x, 2)"
    "0 \<le> x \<Longrightarrow> x < 16 \<Longrightarrow> utf8_lead (0xe0 + x) = Some (x, 3)"
    "0 \<le> x \<Longrightarrow> x \<le> 4 \<Longrightarrow> utf8_lead (0xf0 + x) = Some (x, 4)"
  using low_digit(1) [of x 32 6] low_digit(1) [of x 16 14] low_digit(1) [of x 8 30]
  by (simp_all add: utf8_lead_def and_masks)

lemma utf8_step_intro:
  assumes "utf8_lead f = Some (bits, Suc (length ys))" "0 \<le> f" "f < 256" "scalar c"
    and "utf8_continue bits (map word_of_int ys) = Some c"
    and "(if ys = [] then 0 else if length ys = 1 then 0x80 else if length ys = 2 then 0x800 else 0x10000) \<le> c"
  shows "utf8_step (map word_of_int (f # ys) @ r) = Some (fromCodePoint c, Suc (length ys))"
proof -
  have "uint (hd (map word_of_int (f # ys) @ r) :: 8 word) = f" using uint_word_byte assms(2,3) by simp
  moreover have "take (Suc (length ys) - 1) (tl (map word_of_int (f # ys) @ r)) = map word_of_int ys" by simp
  ultimately show ?thesis
    using assms(1,4-6) unfolding utf8_step_def by (auto simp: Let_def scalar_def split: if_splits)
qed

lemma utf8_step_bytes:
  assumes "scalar c"
  shows "utf8_step (utf8_bytes c @ r) = Some (fromCodePoint c, length (utf8_bytes c))"
proof -
  have c: "0 \<le> c" "c \<le> 0x10ffff" "\<not> (0xd800 \<le> c \<and> c \<le> 0xdfff)" using assms by (auto simp: scalar_def)
  have u: "0 \<le> n \<Longrightarrow> n < 256 \<Longrightarrow> uint (word_of_int n :: 8 word) = n" for n by (rule uint_word_byte)
  have m: "0 \<le> x mod 64 \<and> x mod 64 < 64" for x :: int by simp
  note cont = continue_step [OF conjunct1 [OF m] conjunct2 [OF m]]
  have d2: "c div 64 * 64 + c mod 64 = c" by simp
  have d3: "(c div 4096 * 64 + c div 64 mod 64) * 64 + c mod 64 = c"
    using zdiv_zmult2_eq [of 64 c 64] div_mult_mod_eq [of "c div 64" 64] by simp
  have d4: "((c div 262144 * 64 + c div 4096 mod 64) * 64 + c div 64 mod 64) * 64 + c mod 64 = c"
    using d3 zdiv_zmult2_eq [of 64 c 4096] zdiv_zmult2_eq [of 64 c 64] zdiv_zmult2_eq [of 64 "c div 64" 64]
      div_mult_mod_eq [of "c div 4096" 64] by simp
  consider "c \<le> 0x7f" | "0x7f < c" "c \<le> 0x7ff" | "0x7ff < c" "c \<le> 0xffff" | "0xffff < c" by linarith
  then show ?thesis
  proof cases
    case 1
    then have "utf8_step (map word_of_int [c] @ r) = Some (fromCodePoint c, Suc (length ([] :: int list)))"
      using c by (intro utf8_step_intro [OF _ _ _ assms]) (simp_all add: lead_values)
    then show ?thesis using 1 by (simp add: utf8_bytes_digits [OF assms])
  next
    case 2
    then have r: "2 \<le> c div 64" "c div 64 < 32" using c by simp_all
    have "utf8_continue (c div 64) (map word_of_int [0x80 + c mod 64]) = Some c"
      unfolding list.map cont d2 by simp
    then have "utf8_step (map word_of_int [0xc0 + c div 64, 0x80 + c mod 64] @ r) =
        Some (fromCodePoint c, Suc (length [0x80 + c mod 64]))"
      using r 2 by (intro utf8_step_intro [OF _ _ _ assms]) (simp_all add: lead_values)
    then show ?thesis unfolding utf8_bytes_digits [OF assms] using 2 by simp
  next
    case 3
    then have r: "0 \<le> c div 4096" "c div 4096 < 16" using c by simp_all
    have "utf8_continue (c div 4096) (map word_of_int [0x80 + c div 64 mod 64, 0x80 + c mod 64]) = Some c"
      unfolding list.map cont d3 by simp
    then have "utf8_step (map word_of_int [0xe0 + c div 4096, 0x80 + c div 64 mod 64, 0x80 + c mod 64] @ r) =
        Some (fromCodePoint c, Suc (length [0x80 + c div 64 mod 64, 0x80 + c mod 64]))"
      using r 3 by (intro utf8_step_intro [OF _ _ _ assms]) (simp_all add: lead_values)
    then show ?thesis unfolding utf8_bytes_digits [OF assms] using 3 by simp
  next
    case 4
    then have r: "0 \<le> c div 262144" "c div 262144 \<le> 4" using c by simp_all
    have "utf8_continue (c div 262144) (map word_of_int [0x80 + c div 4096 mod 64, 0x80 + c div 64 mod 64, 0x80 + c mod 64]) = Some c"
      unfolding list.map cont d4 by simp
    then have "utf8_step (map word_of_int [0xf0 + c div 262144, 0x80 + c div 4096 mod 64, 0x80 + c div 64 mod 64, 0x80 + c mod 64] @ r) =
        Some (fromCodePoint c, Suc (length [0x80 + c div 4096 mod 64, 0x80 + c div 64 mod 64, 0x80 + c mod 64]))"
      using r 4 by (intro utf8_step_intro [OF _ _ _ assms]) (simp_all add: lead_values)
    then show ?thesis unfolding utf8_bytes_digits [OF assms] using 4 by simp
  qed
qed

lemma continue_inverse:
  assumes "utf8_continue x (b # bs) = Some c"
  obtains y where "0 \<le> y" "y < 64" "b = word_of_int (0x80 + y)" "utf8_continue (x * 64 + y) bs = Some c"
proof -
  have top: "(uint b div 64 mod 4) * 64 = 0x80" and rest: "utf8_continue (push_bit 6 x OR (uint b AND 0x3f)) bs = Some c"
    using assms by (auto simp: and_top split: if_splits)
  let ?y = "uint b mod 64"
  have "uint b div 64 < 4" "0 \<le> uint b div 64" using uint_byte [of b] by (simp, simp add: pos_imp_zdiv_nonneg_iff)
  then have "uint b div 64 = 2" using top by simp
  then have "uint b = 0x80 + ?y" using div_mult_mod_eq [of "uint b" 64] by simp
  then have b: "b = word_of_int (0x80 + ?y)" by (metis word_of_int_uint)
  have "push_bit 6 x OR (uint b AND 0x3f) = x * 64 + ?y" using push_or [of ?y 6 x] by (simp add: and_masks)
  then show thesis using that [of ?y] b rest by simp
qed

lemma lead_inverse:
  assumes "utf8_lead f = Some (bits, w)" "0 \<le> f" "f < 256"
  shows "w = 1 \<and> bits = f \<and> f \<le> 0x7f \<or> w = 2 \<and> f = 0xc0 + bits \<and> 2 \<le> bits \<and> bits < 32 \<or>
    w = 3 \<and> f = 0xe0 + bits \<and> 0 \<le> bits \<and> bits < 16 \<or> w = 4 \<and> f = 0xf0 + bits \<and> 0 \<le> bits \<and> bits \<le> 4"
proof -
  have m: "0xc0 \<le> f \<Longrightarrow> f \<le> 0xdf \<Longrightarrow> f mod 32 = f - 0xc0" "0xe0 \<le> f \<Longrightarrow> f \<le> 0xef \<Longrightarrow> f mod 16 = f - 0xe0"
    "0xf0 \<le> f \<Longrightarrow> f \<le> 0xf4 \<Longrightarrow> f mod 8 = f - 0xf0"
    using low_digit(1) [of "f - 0xc0" 32 6] low_digit(1) [of "f - 0xe0" 16 14] low_digit(1) [of "f - 0xf0" 8 30] by simp_all
  show ?thesis using assms(1) m by (auto simp: utf8_lead_def and_masks split: if_splits)
qed

lemma utf8_step_inverse:
  assumes "utf8_step v = Some (us, w)" "v \<noteq> []"
  obtains c where "scalar c" "us = fromCodePoint c" "v = utf8_bytes c @ drop w v" "w = length (utf8_bytes c)"
proof -
  define ys where "ys = take (w - 1) (tl v)"
  obtain bits c where lead: "utf8_lead (uint (hd v)) = Some (bits, w)" "w \<le> length v"
    and cont: "utf8_continue bits ys = Some c" and us: "us = fromCodePoint c"
    and min: "(if w = 1 then 0 else if w = 2 then 0x80 else if w = 3 then 0x800 else 0x10000) \<le> c"
    and c: "c \<le> 0x10ffff" "\<not> (0xd800 \<le> c \<and> c \<le> 0xdfff)"
    using assms(1) by (auto simp: utf8_step_def ys_def Let_def split: option.splits prod.splits if_splits)
  have sc: "scalar c" using min c by (auto simp: scalar_def split: if_splits)
  have hd: "hd v = word_of_int (uint (hd v))" by simp
  note inv = lead_inverse [OF lead(1) uint_byte]
  have dec: "v = hd v # ys @ drop w v" if "0 < w"
    using assms(2) that unfolding ys_def by (cases v; cases w) simp_all
  have len: "length ys = w - 1" using lead(2) by (simp add: ys_def)
  from inv consider "w = 1" "bits = uint (hd v)" "bits \<le> 0x7f"
    | "w = 2" "uint (hd v) = 0xc0 + bits" "2 \<le> bits" "bits < 32"
    | "w = 3" "uint (hd v) = 0xe0 + bits" "0 \<le> bits" "bits < 16"
    | "w = 4" "uint (hd v) = 0xf0 + bits" "0 \<le> bits" "bits \<le> 4" by blast
  then have "hd v # ys = utf8_bytes c"
  proof cases
    case 1
    then have "ys = []" using len by simp
    then have "c = uint (hd v)" using cont 1(2) by simp
    then have "utf8_bytes c = [hd v]" using 1(2,3) unfolding utf8_bytes_digits [OF sc] by simp
    then show ?thesis using \<open>ys = []\<close> by simp
  next
    case 2
    then obtain b where bs: "ys = [b]" using len by (auto simp: length_Suc_conv)
    obtain y where y: "0 \<le> y" "y < 64" "b = word_of_int (0x80 + y)" "c = bits * 64 + y"
      using cont unfolding bs by (elim continue_inverse) auto
    have "c div 64 = bits" "c mod 64 = y" unfolding y(4) using low_digit [OF y(1,2)] by simp_all
    moreover have "0x7f < c" "c \<le> 0x7ff" using 2 min y by simp_all
    ultimately show ?thesis using bs y(3) 2(2) by (subst hd) (simp add: utf8_bytes_digits [OF sc])
  next
    case 3
    then obtain b1 b2 where bs: "ys = [b1, b2]" using len by (auto simp: length_Suc_conv eval_nat_numeral)
    obtain y z where y: "0 \<le> y" "y < 64" "b1 = word_of_int (0x80 + y)"
      and z: "0 \<le> z" "z < 64" "b2 = word_of_int (0x80 + z)" "c = (bits * 64 + y) * 64 + z"
      using cont unfolding bs by (elim continue_inverse) auto
    have c64: "c div 64 = bits * 64 + y" "c mod 64 = z" unfolding z(4) using low_digit [OF z(1,2)] by blast+
    have "c div 4096 = c div 64 div 64" by (simp add: zdiv_zmult2_eq [symmetric])
    then have "c div 4096 = bits" "c div 64 mod 64 = y" unfolding c64 using low_digit [OF y(1,2)] by simp_all
    moreover have "0x7ff < c" "c \<le> 0xffff" using 3 min y z by simp_all
    ultimately show ?thesis using bs y(3) z(3) 3(2) c64(2) by (subst hd) (simp add: utf8_bytes_digits [OF sc])
  next
    case 4
    then obtain b1 b2 b3 where bs: "ys = [b1, b2, b3]" using len by (auto simp: length_Suc_conv eval_nat_numeral)
    obtain x y z where x: "0 \<le> x" "x < 64" "b1 = word_of_int (0x80 + x)" and y: "0 \<le> y" "y < 64" "b2 = word_of_int (0x80 + y)"
      and z: "0 \<le> z" "z < 64" "b3 = word_of_int (0x80 + z)" "c = ((bits * 64 + x) * 64 + y) * 64 + z"
      using cont unfolding bs by (elim continue_inverse) auto
    have c64: "c div 64 = (bits * 64 + x) * 64 + y" "c mod 64 = z" unfolding z(4) using low_digit [OF z(1,2)] by blast+
    have "c div 4096 = c div 64 div 64" by (simp add: zdiv_zmult2_eq [symmetric])
    then have c4096: "c div 4096 = bits * 64 + x" "c div 64 mod 64 = y" unfolding c64
      using low_digit [OF y(1,2), of "bits * 64 + x"] by (simp_all only:)
    have "c div 262144 = c div 4096 div 64" by (simp add: zdiv_zmult2_eq [symmetric])
    then have "c div 262144 = bits" "c div 4096 mod 64 = x" unfolding c4096 using low_digit [OF x(1,2)] by simp_all
    moreover have "0xffff < c" using 4 min by simp
    ultimately show ?thesis using bs x(3) y(3) z(3) 4(2) c64(2) c4096(2) by (subst hd) (simp add: utf8_bytes_digits [OF sc])
  qed
  moreover have "0 < w" using lead(1) by (rule utf8_lead_width)
  moreover from this have "w = length (hd v # ys)" using len by simp
  ultimately show thesis using that [OF sc us] dec by (metis append_Cons)
qed

subsection \<open>Strings\<close>

lemma units_encode:
  assumes "scalar c"
  shows "utf8_loop (fromCodePoint c @ r) = utf8_bytes c @ utf8_loop r"
    "assertValidUtf16 (fromCodePoint c @ r) \<longleftrightarrow> assertValidUtf16 r"
    "list_all (\<lambda>x. x < 65536) (fromCodePoint c)"
proof -
  have c: "0 \<le> c" "c \<le> 0x10ffff" "\<not> (0xd800 \<le> c \<and> c \<le> 0xdfff)" using assms by (auto simp: scalar_def)
  have "utf8_loop (fromCodePoint c @ r) = utf8_bytes c @ utf8_loop r \<and>
    (assertValidUtf16 (fromCodePoint c @ r) \<longleftrightarrow> assertValidUtf16 r) \<and> list_all (\<lambda>x. x < 65536) (fromCodePoint c)"
  proof (cases "c \<le> 0xffff")
    case True
    then have "\<not> high_surrogate (nat c)" "\<not> low_surrogate (nat c)"
      using c by (auto simp: high_surrogate_def low_surrogate_def)
    with True c show ?thesis by (simp add: fromCodePoint_def)
  next
    case False
    let ?h = "(c - 0x10000) div 0x400" and ?l = "(c - 0x10000) mod 0x400"
    have r: "0 \<le> ?h" "?h < 0x400" "0 \<le> ?l" "?l < 0x400" using c False by simp_all
    have "?h * 0x400 + ?l = c - 0x10000" by (rule div_mult_mod_eq)
    then have "0x10000 + push_bit 10 (int (0xd800 + nat ?h) - 0xd800) + (int (0xdc00 + nat ?l) - 0xdc00) = c"
      using r by (simp add: push_bit_eq_mult)
    moreover have "high_surrogate (0xd800 + nat ?h)" "0xdc00 \<le> 0xdc00 + nat ?l" "0xdc00 + nat ?l \<le> 0xdfff"
      using r by (auto simp: high_surrogate_def)
    ultimately show ?thesis using False r by (simp add: fromCodePoint_def)
  qed
  then show "utf8_loop (fromCodePoint c @ r) = utf8_bytes c @ utf8_loop r"
    "assertValidUtf16 (fromCodePoint c @ r) \<longleftrightarrow> assertValidUtf16 r" "list_all (\<lambda>x. x < 65536) (fromCodePoint c)"
    by blast+
qed

lemma units_decompose:
  assumes "assertValidUtf16 s" "list_all (\<lambda>x. x < 65536) s" "s \<noteq> []"
  obtains c r where "scalar c" "s = fromCodePoint c @ r"
proof -
  obtain a t where s: "s = a # t" using assms(3) by (cases s) auto
  show thesis
  proof (cases "high_surrogate a")
    case False
    then have "scalar (int a)" "fromCodePoint (int a) = [a]"
      using assms s by (auto simp: scalar_def fromCodePoint_def high_surrogate_def low_surrogate_def split: if_splits)
    then show thesis using that [of "int a" t] s by simp
  next
    case True
    then obtain l r where t: "t = l # r" "0xdc00 \<le> l" "l \<le> 0xdfff"
      using assms(1) s by (cases t) (auto split: if_splits)
    define c where "c = 0x10000 + ((int a - 0xd800) * 0x400 + (int l - 0xdc00))"
    have a: "0 \<le> int a - 0xd800" "int a - 0xd800 < 0x400" using True by (auto simp: high_surrogate_def)
    have l: "0 \<le> int l - 0xdc00" "int l - 0xdc00 < 0x400" using t by auto
    have "(c - 0x10000) div 0x400 = int a - 0xd800" "(c - 0x10000) mod 0x400 = int l - 0xdc00"
      unfolding c_def add_diff_cancel_left' by (rule low_digit [OF l])+
    moreover have "scalar c" "\<not> c \<le> 0xffff" using a l by (auto simp: c_def scalar_def)
    ultimately have "scalar c" "fromCodePoint c = [a, l]" using a l by (auto simp: fromCodePoint_def)
    then show thesis using that [of c r] s t by simp
  qed
qed

lemma utf8_bytes_nonempty [simp]: "utf8_bytes c \<noteq> []"
  by (simp add: utf8_bytes_def)

lemma decodeUtf8_bytes: "scalar c \<Longrightarrow> decodeUtf8 (utf8_bytes c @ r) = map_option (\<lambda>t. fromCodePoint c @ t) (decodeUtf8 r)"
  by (subst decodeUtf8.simps) (simp add: utf8_step_bytes)

lemma fromCodePoint_nonempty [simp]: "fromCodePoint c \<noteq> []"
  by (simp add: fromCodePoint_def)

lemma decode_encode_utf8:
  "assertValidUtf16 s \<Longrightarrow> list_all (\<lambda>x. x < 65536) s \<Longrightarrow> decodeUtf8 (utf8_loop s) = Some s"
proof (induction s rule: length_induct)
  case (1 s)
  show ?case
  proof (cases "s = []")
    case True
    then show ?thesis by (simp add: decodeUtf8.simps)
  next
    case False
    obtain c r where c: "scalar c" "s = fromCodePoint c @ r" using units_decompose [OF "1.prems" False] .
    note e = units_encode [OF c(1)]
    have "assertValidUtf16 r" "list_all (\<lambda>x. x < 65536) r" "length r < length s"
      using "1.prems" c e by simp_all
    then have "decodeUtf8 (utf8_loop r) = Some r" using "1.IH" by blast
    then show ?thesis using e(1) c by (simp add: decodeUtf8_bytes)
  qed
qed

lemma encode_decode_utf8:
  "decodeUtf8 bs = Some s \<Longrightarrow> assertValidUtf16 s \<and> utf8_loop s = bs \<and> list_all (\<lambda>x. x < 65536) s"
proof (induction bs arbitrary: s rule: length_induct)
  case (1 bs)
  show ?case
  proof (cases "bs = []")
    case True
    then show ?thesis using "1.prems" by (simp add: decodeUtf8.simps)
  next
    case False
    then obtain us w where step: "utf8_step bs = Some (us, w)"
      using "1.prems" by (subst (asm) decodeUtf8.simps) (auto split: option.splits)
    obtain c where c: "scalar c" "us = fromCodePoint c" "bs = utf8_bytes c @ drop w bs" "w = length (utf8_bytes c)"
      using utf8_step_inverse [OF step False] .
    obtain t where t: "decodeUtf8 (drop w bs) = Some t" "s = fromCodePoint c @ t"
      using "1.prems" decodeUtf8_bytes [OF c(1), of "drop w bs"] unfolding c(3) [symmetric]
      by (cases "decodeUtf8 (drop w bs)") auto
    have "0 < w" using c(4) by simp
    then have "length (drop w bs) < length bs" using False by simp
    then have "assertValidUtf16 t \<and> utf8_loop t = drop w bs \<and> list_all (\<lambda>x. x < 65536) t" using "1.IH" t(1) by blast
    then show ?thesis using units_encode(1,2) [OF c(1), of t] units_encode(3) [OF c(1)] t(2) c(3) by simp
  qed
qed

lemma utf8_iff: "decodeUtf8 bs = Some s \<longleftrightarrow> encodeUtf8 s = Some bs \<and> list_all (\<lambda>x. x < 65536) s"
  using encode_decode_utf8 [of bs s] decode_encode_utf8 [of s] by (auto simp: encodeUtf8_def)

text \<open>
  C24: Strict UTF-8 is a bijection. Bytes decode to a string exactly when the string is well-formed UTF-16 and
  encoding it gives those bytes, so no two byte sequences decode to the same string and no two strings
  encode to the same bytes.
\<close>

theorem utf8_bijective:
  "decodeUtf8 bs = Some s \<longleftrightarrow> encodeUtf8 s = Some bs \<and> list_all (\<lambda>x. x < 65536) s"
  by (rule utf8_iff)

end
