(* ===== verification/Transcripts.thy ===== *)
theory Transcripts
  imports Utf8
begin

section \<open>What a device signs\<close>

text \<open>
  \<open>mobile/src/lib/crypto/ed25519.ts\<close> and \<open>mobile/src/lib/crypto/transcripts.ts\<close>: the statements a device
  signs when it registers, pairs with a host, proves that it holds a code, and vouches for another device.
  Each is a list of bytes made of a name of the statement, a version and its fields.

  The curve is a library: \<open>ed_lib\<close> holds the four functions the code calls, with \<open>None\<close> for an exception of
  the verification. Everything else about keys and signatures is here.
\<close>

record ed_lib =
  ed_point :: "bytes \<Rightarrow> bool"
  ed_getPublicKey :: "bytes \<Rightarrow> bytes"
  ed_sign :: "bytes \<Rightarrow> bytes \<Rightarrow> bytes"
  ed_verify :: "bytes \<Rightarrow> bytes \<Rightarrow> bytes \<Rightarrow> bool option"

subsection \<open>Keys and signatures\<close>

definition ED25519_SEED_BYTES :: nat where "ED25519_SEED_BYTES = 32"

definition ED25519_PUBLIC_KEY_BYTES :: nat where "ED25519_PUBLIC_KEY_BYTES = 32"

definition ED25519_SIGNATURE_BYTES :: nat where "ED25519_SIGNATURE_BYTES = 64"

text \<open>\<open>ed_point\<close> is a canonical point of the curve that is valid and has no small order.\<close>

definition assertStrictEd25519PublicKey :: "ed_lib \<Rightarrow> bytes \<Rightarrow> bool" where
  "assertStrictEd25519PublicKey ed key \<longleftrightarrow> length key = ED25519_PUBLIC_KEY_BYTES \<and> ed_point ed key"

definition deriveEd25519PublicKey :: "ed_lib \<Rightarrow> bytes \<Rightarrow> bytes option" where
  "deriveEd25519PublicKey ed seed =
     (if length seed \<noteq> ED25519_SEED_BYTES then None
      else let key = ed_getPublicKey ed seed in
        if assertStrictEd25519PublicKey ed key then Some key else None)"

definition signPureEd25519 :: "ed_lib \<Rightarrow> bytes \<Rightarrow> bytes \<Rightarrow> bytes option" where
  "signPureEd25519 ed seed message =
     (if length seed \<noteq> ED25519_SEED_BYTES then None else Some (ed_sign ed message seed))"

definition verifyPureEd25519Strict :: "ed_lib \<Rightarrow> bytes \<Rightarrow> bytes \<Rightarrow> bytes \<Rightarrow> bool" where
  "verifyPureEd25519Strict ed key message signature =
     (if length signature \<noteq> ED25519_SIGNATURE_BYTES then False
      else if \<not> assertStrictEd25519PublicKey ed key then False
      else ed_verify ed signature message key = Some True)"

subsection \<open>The statements\<close>

definition magic :: "string \<Rightarrow> bytes" where
  "magic name = utf8_loop (u name)"

definition REGISTRATION_MAGIC :: bytes where "REGISTRATION_MAGIC = magic ''SPAWN-BROWSER-REGISTER-V2''"

definition APPROVAL_MAGIC :: bytes where "APPROVAL_MAGIC = magic ''SPAWN-HOST-PAIR-APPROVE-V1''"

definition POSSESSION_MAGIC :: bytes where "POSSESSION_MAGIC = magic ''SPAWN-HOST-PAIR-POSSESSION-V1''"

definition ENDORSEMENT_MAGIC :: bytes where "ENDORSEMENT_MAGIC = magic ''SPAWN-BROWSER-ENDORSE-V1''"

definition ACCT_ENDORSEMENT_MAGIC :: bytes where "ACCT_ENDORSEMENT_MAGIC = magic ''SPAWN-ACCT-ENDORSE-V1''"

definition publicKey :: "ed_lib \<Rightarrow> utext \<Rightarrow> bytes option" where
  "publicKey ed v =
     (case decodeBase64UrlExact v 32 of
        None \<Rightarrow> None
      | Some key \<Rightarrow> if assertStrictEd25519PublicKey ed key then Some key else None)"

record registration =
  rg_accountId :: utext
  rg_browserPublicKey :: utext
  rg_isRoot :: bool

record approval =
  ap_accountId :: utext
  ap_approvalNonce :: utext
  ap_hostPublicKey :: utext
  ap_browserPublicKey :: utext

record possession =
  po_deviceCode :: utext
  po_approvalNonce :: utext
  po_hostPublicKey :: utext

record endorsement =
  en_accountId :: utext
  en_hostPublicKey :: utext
  en_endorserPublicKey :: utext
  en_endorsedPublicKey :: utext
  en_endorsedDeviceId :: utext

record account_endorsement =
  ae_accountId :: utext
  ae_endorserPublicKey :: utext
  ae_endorsedPublicKey :: utext
  ae_endorsedDeviceId :: utext

text \<open>The parts of a statement, all of which must be well-formed, one after the other.\<close>

definition fields_concat :: "bytes option list \<Rightarrow> bytes option" where
  "fields_concat parts = map_option concatBytes (those parts)"

definition encodeBrowserRegistrationV2 :: "ed_lib \<Rightarrow> registration \<Rightarrow> bytes option" where
  "encodeBrowserRegistrationV2 ed t = fields_concat
     [Some REGISTRATION_MAGIC, Some [2], uuidToBytes_c (rg_accountId t), Some [if rg_isRoot t then 1 else 0],
      publicKey ed (rg_browserPublicKey t)]"

definition encodeHostPairApprovalV1 :: "ed_lib \<Rightarrow> approval \<Rightarrow> bytes option" where
  "encodeHostPairApprovalV1 ed t = fields_concat
     [Some APPROVAL_MAGIC, Some [1], uuidToBytes_c (ap_accountId t), decodeBase64UrlExact (ap_approvalNonce t) 32,
      publicKey ed (ap_hostPublicKey t), publicKey ed (ap_browserPublicKey t)]"

definition encodeHostPairPossessionV1 :: "ed_lib \<Rightarrow> possession \<Rightarrow> bytes option" where
  "encodeHostPairPossessionV1 ed t = fields_concat
     [Some POSSESSION_MAGIC, Some [1], decodeBase64UrlExact (po_deviceCode t) 32,
      decodeBase64UrlExact (po_approvalNonce t) 32, publicKey ed (po_hostPublicKey t)]"

definition encodeBrowserEndorsementV1 :: "ed_lib \<Rightarrow> endorsement \<Rightarrow> bytes option" where
  "encodeBrowserEndorsementV1 ed t = fields_concat
     [Some ENDORSEMENT_MAGIC, Some [1], uuidToBytes_c (en_accountId t), publicKey ed (en_hostPublicKey t),
      publicKey ed (en_endorserPublicKey t), publicKey ed (en_endorsedPublicKey t),
      uuidToBytes_c (en_endorsedDeviceId t)]"

definition encodeAccountEndorsementV1 :: "ed_lib \<Rightarrow> account_endorsement \<Rightarrow> bytes option" where
  "encodeAccountEndorsementV1 ed t =
     (if ae_endorserPublicKey t = ae_endorsedPublicKey t then None
      else fields_concat
        [Some ACCT_ENDORSEMENT_MAGIC, Some [1], uuidToBytes_c (ae_accountId t), publicKey ed (ae_endorserPublicKey t),
         publicKey ed (ae_endorsedPublicKey t), uuidToBytes_c (ae_endorsedDeviceId t)])"

text \<open>Any of the five statements; signing and verifying go through its bytes.\<close>

datatype transcript =
    Registration registration
  | Approval approval
  | Possession possession
  | Endorsement endorsement
  | AccountEndorsement account_endorsement

fun encode_transcript :: "ed_lib \<Rightarrow> transcript \<Rightarrow> bytes option" where
  "encode_transcript ed (Registration t) = encodeBrowserRegistrationV2 ed t"
| "encode_transcript ed (Approval t) = encodeHostPairApprovalV1 ed t"
| "encode_transcript ed (Possession t) = encodeHostPairPossessionV1 ed t"
| "encode_transcript ed (Endorsement t) = encodeBrowserEndorsementV1 ed t"
| "encode_transcript ed (AccountEndorsement t) = encodeAccountEndorsementV1 ed t"

definition sign_transcript :: "ed_lib \<Rightarrow> bytes \<Rightarrow> transcript \<Rightarrow> bytes option" where
  "sign_transcript ed seed t =
     (case encode_transcript ed t of None \<Rightarrow> None | Some message \<Rightarrow> signPureEd25519 ed seed message)"

text \<open>A statement that cannot be encoded makes the verification throw.\<close>

definition verify_transcript :: "ed_lib \<Rightarrow> bytes \<Rightarrow> transcript \<Rightarrow> bytes \<Rightarrow> bool option" where
  "verify_transcript ed key t signature =
     (case encode_transcript ed t of
        None \<Rightarrow> None
      | Some message \<Rightarrow> Some (verifyPureEd25519Strict ed key message signature))"

subsection \<open>A statement is determined by its bytes\<close>

lemma fields_concat_Some:
  "fields_concat [] = Some m \<longleftrightarrow> m = []"
  "fields_concat (p # ps) = Some m \<longleftrightarrow> (\<exists>b r. p = Some b \<and> fields_concat ps = Some r \<and> m = b @ r)"
  by (auto simp: fields_concat_def concatBytes_def split: option.splits)

lemma uuid_field:
  "uuidToBytes_c v = Some b \<Longrightarrow> length b = 16"
  "uuidToBytes_c v = Some b \<Longrightarrow> uuidToBytes_c v' = Some b \<Longrightarrow> v = v'"
  by (auto simp: uuid_iff bytesToUuid_c_def split: if_splits)

lemma base64_field:
  "decodeBase64UrlExact v n = Some b \<Longrightarrow> length b = n"
  "decodeBase64UrlExact v n = Some b \<Longrightarrow> decodeBase64UrlExact v' n = Some b \<Longrightarrow> v = v'"
  by (simp_all add: decodeExact_iff)

lemma key_field:
  "publicKey ed v = Some b \<Longrightarrow> length b = 32"
  "publicKey ed v = Some b \<Longrightarrow> publicKey ed v' = Some b \<Longrightarrow> v = v'"
  unfolding publicKey_def by (auto simp: decodeExact_iff split: option.splits if_splits)

definition same_length :: "bytes option \<Rightarrow> bytes option \<Rightarrow> bool" where
  "same_length p q \<longleftrightarrow> (\<forall>b c. p = Some b \<longrightarrow> q = Some c \<longrightarrow> length b = length c)"

lemma same_lengths [simp]:
  "same_length (Some b) (Some c) \<longleftrightarrow> length b = length c"
  "same_length (uuidToBytes_c v) (uuidToBytes_c v')"
  "same_length (decodeBase64UrlExact v n) (decodeBase64UrlExact v' n)"
  "same_length (publicKey ed v) (publicKey ed v')"
  using uuid_field(1) base64_field(1) key_field(1) by (auto simp: same_length_def)

lemma fields_concat_inject:
  "fields_concat ps = Some m \<Longrightarrow> fields_concat qs = Some m \<Longrightarrow> list_all2 same_length ps qs \<Longrightarrow> ps = qs \<and> None \<notin> set ps"
proof (induction ps arbitrary: qs m)
  case (Cons p ps)
  then obtain q qs' where qs: "qs = q # qs'" "same_length p q" "list_all2 same_length ps qs'"
    by (auto simp: list_all2_Cons1)
  from Cons.prems(1) obtain b r where p: "p = Some b" "fields_concat ps = Some r" "m = b @ r"
    by (auto simp: fields_concat_Some)
  from Cons.prems(2) qs(1) obtain c s where q: "q = Some c" "fields_concat qs' = Some s" "m = c @ s"
    by (auto simp: fields_concat_Some)
  have "length b = length c" using qs(2) p(1) q(1) by simp
  then have "b = c" "r = s" using p(3) q(3) by auto
  then show ?case using Cons.IH [OF p(2) _ qs(3)] q p(1) qs(1) by auto
qed (auto simp: list_all2_Nil2)

lemma field_inject:
  "uuidToBytes_c v = uuidToBytes_c v' \<Longrightarrow> None \<noteq> uuidToBytes_c v' \<Longrightarrow> v = v'"
  "decodeBase64UrlExact v n = decodeBase64UrlExact v' n \<Longrightarrow> None \<noteq> decodeBase64UrlExact v' n \<Longrightarrow> v = v'"
  "publicKey ed v = publicKey ed v' \<Longrightarrow> None \<noteq> publicKey ed v' \<Longrightarrow> v = v'"
  using uuid_field(2) base64_field(2) key_field(2) by (metis option.exhaust)+

lemma registration_inject:
  "encodeBrowserRegistrationV2 ed t = Some m \<Longrightarrow> encodeBrowserRegistrationV2 ed t' = Some m \<Longrightarrow> t = t'"
  unfolding encodeBrowserRegistrationV2_def
  by (drule (1) fields_concat_inject) (auto intro!: registration.equality dest: field_inject split: if_splits)

lemma approval_inject:
  "encodeHostPairApprovalV1 ed t = Some m \<Longrightarrow> encodeHostPairApprovalV1 ed t' = Some m \<Longrightarrow> t = t'"
  unfolding encodeHostPairApprovalV1_def
  by (drule (1) fields_concat_inject) (auto intro!: approval.equality dest: field_inject)

lemma possession_inject:
  "encodeHostPairPossessionV1 ed t = Some m \<Longrightarrow> encodeHostPairPossessionV1 ed t' = Some m \<Longrightarrow> t = t'"
  unfolding encodeHostPairPossessionV1_def
  by (drule (1) fields_concat_inject) (auto intro!: possession.equality dest: field_inject)

lemma endorsement_inject:
  "encodeBrowserEndorsementV1 ed t = Some m \<Longrightarrow> encodeBrowserEndorsementV1 ed t' = Some m \<Longrightarrow> t = t'"
  unfolding encodeBrowserEndorsementV1_def
  by (drule (1) fields_concat_inject) (auto intro!: endorsement.equality dest: field_inject)

lemma account_endorsement_inject:
  assumes "encodeAccountEndorsementV1 ed t = Some m" "encodeAccountEndorsementV1 ed t' = Some m"
  shows "t = t'"
proof -
  let ?f = "\<lambda>t. [Some ACCT_ENDORSEMENT_MAGIC, Some [1], uuidToBytes_c (ae_accountId t), publicKey ed (ae_endorserPublicKey t),
    publicKey ed (ae_endorsedPublicKey t), uuidToBytes_c (ae_endorsedDeviceId t)]"
  have "fields_concat (?f t) = Some m" "fields_concat (?f t') = Some m"
    using assms by (auto simp: encodeAccountEndorsementV1_def split: if_splits)
  from fields_concat_inject [OF this] show ?thesis
    by (auto intro!: account_endorsement.equality dest: field_inject)
qed

lemma magic_bytes:
  "magic s = map (\<lambda>c. word_of_nat (of_char c)) s" if "list_all (\<lambda>c. (of_char c :: nat) < 128) s"
  using that
proof (induction s)
  case (Cons c s)
  then have "\<not> high_surrogate (of_char c)" "utf8_bytes (int (of_char c)) = [word_of_nat (of_char c)]"
    by (auto simp: high_surrogate_def utf8_bytes_def)
  with Cons show ?case by (simp add: magic_def)
qed (simp add: magic_def)

lemmas magics = REGISTRATION_MAGIC_def APPROVAL_MAGIC_def POSSESSION_MAGIC_def ENDORSEMENT_MAGIC_def
  ACCT_ENDORSEMENT_MAGIC_def

fun kind_magic :: "transcript \<Rightarrow> bytes" where
  "kind_magic (Registration t) = REGISTRATION_MAGIC"
| "kind_magic (Approval t) = APPROVAL_MAGIC"
| "kind_magic (Possession t) = POSSESSION_MAGIC"
| "kind_magic (Endorsement t) = ENDORSEMENT_MAGIC"
| "kind_magic (AccountEndorsement t) = ACCT_ENDORSEMENT_MAGIC"

lemma encode_starts: "encode_transcript ed t = Some m \<Longrightarrow> \<exists>r. m = kind_magic t @ r"
  by (cases t)
    (auto simp: encodeBrowserRegistrationV2_def encodeHostPairApprovalV1_def encodeHostPairPossessionV1_def
      encodeBrowserEndorsementV1_def encodeAccountEndorsementV1_def fields_concat_Some split: if_splits)

lemma magics_apart:
  "distinct (map (take 17) [REGISTRATION_MAGIC, APPROVAL_MAGIC, POSSESSION_MAGIC, ENDORSEMENT_MAGIC, ACCT_ENDORSEMENT_MAGIC])"
  "list_all (\<lambda>m. 17 \<le> length m) [REGISTRATION_MAGIC, APPROVAL_MAGIC, POSSESSION_MAGIC, ENDORSEMENT_MAGIC, ACCT_ENDORSEMENT_MAGIC]"
  by (simp_all add: magics magic_bytes)

lemma same_magic:
  assumes "kind_magic t @ r = kind_magic t' @ r'"
  shows "kind_magic t = kind_magic t'"
proof -
  have "17 \<le> length (kind_magic t)" for t using magics_apart(2) by (cases t) simp_all
  then have "take 17 (kind_magic t) = take 17 (kind_magic t')"
    using arg_cong [OF assms, of "take 17"] by simp
  then show ?thesis using magics_apart(1) by (cases t; cases t') simp_all
qed

text \<open>
  C21: No two statements have the same bytes. Whatever their kinds, two statements that encode to the same
  message are the same statement, field by field as the strings they were given as: a signature made for
  one purpose or for one account, key or device counts for no other. No statement lets a device endorse
  itself for its account.
\<close>

theorem transcripts_bind:
  "inj_on (encode_transcript ed) {t. encode_transcript ed t \<noteq> None} \<and>
   encode_transcript ed (AccountEndorsement
     \<lparr>ae_accountId = a, ae_endorserPublicKey = k, ae_endorsedPublicKey = k, ae_endorsedDeviceId = d\<rparr>) = None"
proof
  show "inj_on (encode_transcript ed) {t. encode_transcript ed t \<noteq> None}"
  proof (rule inj_onI)
    fix t t' assume "t \<in> {t. encode_transcript ed t \<noteq> None}" "encode_transcript ed t = encode_transcript ed t'"
    then obtain m where m: "encode_transcript ed t = Some m" "encode_transcript ed t' = Some m" by auto
    then have "kind_magic t = kind_magic t'" using encode_starts same_magic by metis
    then show "t = t'"
      using m magics_apart(1) registration_inject approval_inject possession_inject endorsement_inject
        account_endorsement_inject
      by (cases t; cases t') auto
  qed
qed (simp add: encodeAccountEndorsementV1_def)

end
