(* ===== verification/Signed_Signal.thy ===== *)
theory Signed_Signal
  imports Transcripts "HOL-Library.Monad_Syntax" "HOL-Library.List_Lexorder"
begin

section \<open>Signed connection offers\<close>

text \<open>
  \<open>mobile/src/lib/crypto/signed-signal.ts\<close>: the offer and the answer that set up a connection between a
  phone and a daemon travel through a server that is not trusted with them. Each is signed over a binary
  transcript of all its fields. The transcript has a decoder of its own; the envelope is the JSON object on
  the wire.

  Strings are lists of UTF-16 code units. The values of the three enumerations are datatypes, so the
  exception for an unknown one remains only where bytes or JSON are read.
\<close>

datatype signal_kind = Offer | Answer

datatype signal_scope = SessionScope | HostScope

datatype signal_role = BrowserRole | DaemonRole

record signal =
  sg_signalKind :: signal_kind
  sg_protocolVersion :: int
  sg_sessionId :: utext
  sg_scopeType :: signal_scope
  sg_scopeId :: utext
  sg_senderRole :: signal_role
  sg_intendedPeerPublicKey :: utext
  sg_sdp :: utext

subsection \<open>The transcript\<close>

definition SIGNAL_MAGIC :: bytes where "SIGNAL_MAGIC = magic ''SPAWN-RTC-SIGNAL-SIG-V1''"

definition REVISION :: "8 word" where "REVISION = 2"

definition MAX_SDP_BYTES :: nat where "MAX_SDP_BYTES = 1048576"

fun kind_code :: "signal_kind \<Rightarrow> 8 word" where
  "kind_code Offer = 1"
| "kind_code Answer = 2"

fun scope_code :: "signal_scope \<Rightarrow> 8 word" where
  "scope_code SessionScope = 1"
| "scope_code HostScope = 2"

fun role_code :: "signal_role \<Rightarrow> 8 word" where
  "role_code BrowserRole = 1"
| "role_code DaemonRole = 2"

text \<open>\<open>setUint16\<close> and \<open>setUint32\<close>, big endian: the low bits of the number.\<close>

definition be16 :: "int \<Rightarrow> bytes" where
  "be16 n = [word_of_int (n div 256), word_of_int n]"

definition be32 :: "int \<Rightarrow> bytes" where
  "be32 n = [word_of_int (n div 16777216), word_of_int (n div 65536), word_of_int (n div 256), word_of_int n]"

definition checkedText :: "utext \<Rightarrow> nat \<Rightarrow> bytes option" where
  "checkedText v maximum =
     (case encodeUtf8 v of
        None \<Rightarrow> None
      | Some bs \<Rightarrow> if length bs < 1 \<or> length bs > maximum then None else if 0 \<in> set v then None else Some bs)"

definition encodeSignedSignalV2 :: "ed_lib \<Rightarrow> signal \<Rightarrow> bytes option" where
  "encodeSignedSignalV2 ed t =
     (if sg_protocolVersion t < 1 \<or> sg_protocolVersion t > 0xffffffff then None
      else do {
        sid \<leftarrow> parseCanonicalUuid (sg_sessionId t);
        sessionId \<leftarrow> encodeUtf8 sid;
        cid \<leftarrow> parseCanonicalUuid (sg_scopeId t);
        scopeId \<leftarrow> encodeUtf8 cid;
        intendedPeer \<leftarrow> publicKey ed (sg_intendedPeerPublicKey t);
        sdp \<leftarrow> checkedText (sg_sdp t) MAX_SDP_BYTES;
        Some (concatBytes
          [SIGNAL_MAGIC, [REVISION], [kind_code (sg_signalKind t)], be32 (sg_protocolVersion t),
           be16 (int (length sessionId)), sessionId, [scope_code (sg_scopeType t)],
           be16 (int (length scopeId)), scopeId, [role_code (sg_senderRole t)], intendedPeer,
           be32 (int (length sdp)), sdp])
      })"

text \<open>
  The class \<open>Reader\<close>: what has not been read yet is passed along. A read that is too long throws.
\<close>

definition read_bytes :: "nat \<Rightarrow> bytes \<Rightarrow> (bytes \<times> bytes) option" where
  "read_bytes n bs = (if n > length bs then None else Some (take n bs, drop n bs))"

definition read_byte :: "bytes \<Rightarrow> (8 word \<times> bytes) option" where
  "read_byte bs = (case read_bytes 1 bs of None \<Rightarrow> None | Some (b, rest) \<Rightarrow> Some (hd b, rest))"

definition read_uint :: "nat \<Rightarrow> bytes \<Rightarrow> (int \<times> bytes) option" where
  "read_uint n bs =
     (case read_bytes n bs of
        None \<Rightarrow> None
      | Some (b, rest) \<Rightarrow> Some (foldl (\<lambda>acc w. acc * 256 + uint w) 0 b, rest))"

fun kind_value :: "8 word \<Rightarrow> signal_kind option" where
  "kind_value c = (if c = 1 then Some Offer else if c = 2 then Some Answer else None)"

fun scope_value :: "8 word \<Rightarrow> signal_scope option" where
  "scope_value c = (if c = 1 then Some SessionScope else if c = 2 then Some HostScope else None)"

fun role_value :: "8 word \<Rightarrow> signal_role option" where
  "role_value c = (if c = 1 then Some BrowserRole else if c = 2 then Some DaemonRole else None)"

definition decodeSignedSignalV2 :: "ed_lib \<Rightarrow> bytes \<Rightarrow> signal option" where
  "decodeSignedSignalV2 ed bs = do {
     (found, bs1) \<leftarrow> read_bytes (length SIGNAL_MAGIC) bs;
     (revision, bs2) \<leftarrow> (if equalBytes found SIGNAL_MAGIC then read_byte bs1 else None);
     (k, bs3) \<leftarrow> (if revision = REVISION then read_byte bs2 else None);
     signalKind \<leftarrow> kind_value k;
     (protocolVersion, bs4) \<leftarrow> read_uint 4 bs3;
     (n1, bs5) \<leftarrow> (if protocolVersion = 0 then None else read_uint 2 bs4);
     (raw1, bs6) \<leftarrow> read_bytes (nat n1) bs5;
     text1 \<leftarrow> decodeUtf8 raw1;
     sessionId \<leftarrow> parseCanonicalUuid text1;
     (s, bs7) \<leftarrow> read_byte bs6;
     scopeType \<leftarrow> scope_value s;
     (n2, bs8) \<leftarrow> read_uint 2 bs7;
     (raw2, bs9) \<leftarrow> read_bytes (nat n2) bs8;
     text2 \<leftarrow> decodeUtf8 raw2;
     scopeId \<leftarrow> parseCanonicalUuid text2;
     (r, bs10) \<leftarrow> read_byte bs9;
     senderRole \<leftarrow> role_value r;
     (intendedPeer, bs11) \<leftarrow> read_bytes 32 bs10;
     (n3, bs12) \<leftarrow> (if assertStrictEd25519PublicKey ed intendedPeer then read_uint 4 bs11 else None);
     (sdpBytes, bs13) \<leftarrow> read_bytes (nat n3) bs12;
     sdp \<leftarrow> (if length sdpBytes < 1 \<or> length sdpBytes > MAX_SDP_BYTES then None else decodeUtf8 sdpBytes);
     (if 0 \<in> set sdp then None
      else if bs13 \<noteq> [] then None
      else Some \<lparr>sg_signalKind = signalKind, sg_protocolVersion = protocolVersion, sg_sessionId = sessionId,
        sg_scopeType = scopeType, sg_scopeId = scopeId, sg_senderRole = senderRole,
        sg_intendedPeerPublicKey = encodeBase64Url intendedPeer, sg_sdp = sdp\<rparr>)
   }"

definition signSignedSignalV2 :: "ed_lib \<Rightarrow> bytes \<Rightarrow> signal \<Rightarrow> bytes option" where
  "signSignedSignalV2 ed seed t =
     (case encodeSignedSignalV2 ed t of None \<Rightarrow> None | Some m \<Rightarrow> signPureEd25519 ed seed m)"

definition verifySignedSignalV2 :: "ed_lib \<Rightarrow> bytes \<Rightarrow> signal \<Rightarrow> bytes \<Rightarrow> bool option" where
  "verifySignedSignalV2 ed key t signature =
     (case encodeSignedSignalV2 ed t of
        None \<Rightarrow> None
      | Some m \<Rightarrow> Some (verifyPureEd25519Strict ed key m signature))"

subsection \<open>The envelope\<close>

text \<open>A value read from JSON, as far as the parser looks into it; the keys of an object are distinct.\<close>

datatype wire_value =
    WText utext
  | WNumber rat
  | WOther
  | WRecord "(utext \<times> wire_value) list"

datatype signal_protocol = PtyProtocol | HostProtocol

record signal_envelope =
  ev_type :: signal_kind
  ev_sender_identity_public_key :: utext
  ev_intended_peer_identity_public_key :: utext
  ev_protocol :: signal_protocol
  ev_protocol_version :: int
  ev_session_id :: utext
  ev_scope_type :: signal_scope
  ev_scope_id :: utext
  ev_sender_role :: signal_role
  ev_sdp :: utext
  ev_signature :: utext

definition ENVELOPE_KEYS :: "utext list" where
  "ENVELOPE_KEYS = map u
     [''intended_peer_identity_public_key'', ''protocol'', ''protocol_version'', ''scope_id'', ''scope_type'', ''sdp'',
      ''sender_identity_public_key'', ''sender_role'', ''session_id'', ''signature'', ''signature_algorithm'', ''type'']"

definition requireString :: "wire_value option \<Rightarrow> utext option" where
  "requireString v = (case v of Some (WText s) \<Rightarrow> Some s | _ \<Rightarrow> None)"

definition requireInteger :: "wire_value option \<Rightarrow> int option" where
  "requireInteger v = (case v of Some (WNumber q) \<Rightarrow> if of_int \<lfloor>q\<rfloor> = q then Some \<lfloor>q\<rfloor> else None | _ \<Rightarrow> None)"

definition one_of :: "utext \<Rightarrow> (utext \<times> 'a) list \<Rightarrow> 'a option" where
  "one_of s options = map_of options s"

definition assertEnvelopeTopology :: "signal_envelope \<Rightarrow> bool" where
  "assertEnvelopeTopology e \<longleftrightarrow>
     ev_sender_role e = (if ev_type e = Offer then BrowserRole else DaemonRole) \<and>
     (if ev_protocol e = PtyProtocol
      then ev_protocol_version e = 2 \<and> ev_scope_type e = SessionScope
      else ev_protocol_version e \<in> {1, 2} \<and> ev_scope_type e = HostScope)"

definition envelopeToTranscript :: "signal_envelope \<Rightarrow> signal" where
  "envelopeToTranscript e =
     \<lparr>sg_signalKind = ev_type e, sg_protocolVersion = ev_protocol_version e, sg_sessionId = ev_session_id e,
      sg_scopeType = ev_scope_type e, sg_scopeId = ev_scope_id e, sg_senderRole = ev_sender_role e,
      sg_intendedPeerPublicKey = ev_intended_peer_identity_public_key e, sg_sdp = ev_sdp e\<rparr>"

text \<open>The fields of an object that has the right keys.\<close>

definition envelope_fields :: "(utext \<times> wire_value) list \<Rightarrow> signal_envelope option" where
  "envelope_fields fs =
     (let field = (\<lambda>k. map_of fs (u k)) in
      do {
        type \<leftarrow> requireString (field ''type'');
        signatureAlgorithm \<leftarrow> requireString (field ''signature_algorithm'');
        protocol \<leftarrow> requireString (field ''protocol'');
        scopeType \<leftarrow> requireString (field ''scope_type'');
        senderRole \<leftarrow> requireString (field ''sender_role'');
        t \<leftarrow> one_of type [(u ''rtc.offer'', Offer), (u ''rtc.answer'', Answer)];
        algorithm \<leftarrow> one_of signatureAlgorithm [(u ''ed25519'', ())];
        p \<leftarrow> one_of protocol [(u ''spawn.pty'', PtyProtocol), (u ''spawn.host.ctl'', HostProtocol)];
        s \<leftarrow> one_of scopeType [(u ''session'', SessionScope), (u ''host'', HostScope)];
        r \<leftarrow> one_of senderRole [(u ''browser'', BrowserRole), (u ''daemon'', DaemonRole)];
        sender \<leftarrow> requireString (field ''sender_identity_public_key'');
        peer \<leftarrow> requireString (field ''intended_peer_identity_public_key'');
        version \<leftarrow> requireInteger (field ''protocol_version'');
        sid \<leftarrow> requireString (field ''session_id'');
        session_id \<leftarrow> parseCanonicalUuid sid;
        cid \<leftarrow> requireString (field ''scope_id'');
        scope_id \<leftarrow> parseCanonicalUuid cid;
        sdp \<leftarrow> requireString (field ''sdp'');
        signature \<leftarrow> requireString (field ''signature'');
        Some \<lparr>ev_type = t, ev_sender_identity_public_key = sender, ev_intended_peer_identity_public_key = peer,
          ev_protocol = p, ev_protocol_version = version, ev_session_id = session_id, ev_scope_type = s,
          ev_scope_id = scope_id, ev_sender_role = r, ev_sdp = sdp, ev_signature = signature\<rparr>
      })"

definition parseSignedSignalEnvelope :: "ed_lib \<Rightarrow> wire_value \<Rightarrow> signal_envelope option" where
  "parseSignedSignalEnvelope ed v =
     (case v of
        WRecord fs \<Rightarrow>
          if sort (map fst fs) \<noteq> ENVELOPE_KEYS then None
          else do {
            e \<leftarrow> envelope_fields fs;
            senderKey \<leftarrow> publicKey ed (ev_sender_identity_public_key e);
            peerKey \<leftarrow> publicKey ed (ev_intended_peer_identity_public_key e);
            signature \<leftarrow> decodeBase64UrlExact (ev_signature e) 64;
            transcript \<leftarrow> (if assertEnvelopeTopology e then encodeSignedSignalV2 ed (envelopeToTranscript e) else None);
            Some e
          }
      | _ \<Rightarrow> None)"

definition verifySignedSignalEnvelope :: "ed_lib \<Rightarrow> wire_value \<Rightarrow> utext option \<Rightarrow> signal_envelope option" where
  "verifySignedSignalEnvelope ed v trusted = do {
     e \<leftarrow> parseSignedSignalEnvelope ed v;
     key \<leftarrow> (if trusted \<noteq> None \<and> trusted \<noteq> Some (ev_sender_identity_public_key e) then None
             else decodeBase64UrlExact (ev_sender_identity_public_key e) 32);
     signature \<leftarrow> decodeBase64UrlExact (ev_signature e) 64;
     (if verifySignedSignalV2 ed key (envelopeToTranscript e) signature = Some True then Some e else None)
   }"

subsection \<open>Reading back\<close>

lemma be_value:
  fixes v :: int
  shows "0 \<le> v \<Longrightarrow> v < 65536 \<Longrightarrow> foldl (\<lambda>acc w. acc * 256 + uint w) 0 (be16 v) = v"
    "0 \<le> v \<Longrightarrow> v < 4294967296 \<Longrightarrow> foldl (\<lambda>acc w. acc * 256 + uint w) 0 (be32 v) = v"
proof -
  have b: "uint (word_of_int x :: 8 word) = x mod 256" for x by (simp add: uint_word_of_int)
  have d: "v div 65536 = v div 256 div 256" "v div 16777216 = v div 256 div 256 div 256"
    by (simp_all add: zdiv_zmult2_eq [symmetric])
  have m: "x div 256 * 256 + x mod 256 = x" for x :: int by (rule div_mult_mod_eq)
  show "foldl (\<lambda>acc w. acc * 256 + uint w) 0 (be16 v) = v" if "0 \<le> v" "v < 65536"
  proof -
    have "v div 256 mod 256 = v div 256" using that by (intro mod_pos_pos_trivial) simp_all
    then show ?thesis using m [of v] unfolding be16_def foldl_Cons foldl_Nil b by simp
  qed
  show "foldl (\<lambda>acc w. acc * 256 + uint w) 0 (be32 v) = v" if "0 \<le> v" "v < 4294967296"
  proof -
    have "v div 256 div 256 div 256 mod 256 = v div 256 div 256 div 256"
      using that unfolding d(2) [symmetric] by (intro mod_pos_pos_trivial) simp_all
    then show ?thesis
      using m [of v] m [of "v div 256"] m [of "v div 256 div 256"]
      unfolding be32_def foldl_Cons foldl_Nil b d by (simp only: mult_zero_left add_0)
  qed
qed

lemma be_bytes:
  "be16 (foldl (\<lambda>acc w. acc * 256 + uint w) 0 [a, b]) = [a, b]"
  "be32 (foldl (\<lambda>acc w. acc * 256 + uint w) 0 [a, b, c, d]) = [a, b, c, d]" for a b c d :: "8 word"
proof -
  have w: "word_of_int (x * 256 + uint y) = y" "(x * 256 + uint y) div 256 = x" for x and y :: "8 word"
  proof -
    have "(word_of_int (x * 256 + uint y) :: 8 word) = word_of_int x * word_of_int 256 + y" by simp
    also have "(word_of_int 256 :: 8 word) = 0" by (simp add: word_of_int_eq_iff take_bit_eq_mod)
    finally show "word_of_int (x * 256 + uint y) = y" by simp
    show "(x * 256 + uint y) div 256 = x" by (rule low_digit(2)) (simp_all add: uint_byte)
  qed
  show "be16 (foldl (\<lambda>acc w. acc * 256 + uint w) 0 [a, b]) = [a, b]"
    unfolding be16_def foldl_Cons foldl_Nil w by simp
  have d: "x div 65536 = x div 256 div 256" "x div 16777216 = x div 256 div 256 div 256" for x :: int
    by (simp_all add: zdiv_zmult2_eq [symmetric])
  show "be32 (foldl (\<lambda>acc w. acc * 256 + uint w) 0 [a, b, c, d]) = [a, b, c, d]"
    unfolding be32_def foldl_Cons foldl_Nil d w by simp
qed

lemma be_range:
  "0 \<le> foldl (\<lambda>acc w. acc * 256 + uint w) 0 (bs :: bytes) \<and> foldl (\<lambda>acc w. acc * 256 + uint w) 0 bs < 256 ^ length bs"
proof (induction bs rule: rev_induct)
  case (snoc b bs)
  then show ?case using uint_byte [of b] by (simp; linarith)
qed simp

lemma be_length [simp]: "length (be16 n) = 2" "length (be32 n) = 4"
  by (simp_all add: be16_def be32_def)

lemma read_bytes_iff: "read_bytes n bs = Some (a, r) \<longleftrightarrow> bs = a @ r \<and> length a = n"
  by (auto simp: read_bytes_def)

lemma read_byte_iff: "read_byte bs = Some (b, r) \<longleftrightarrow> bs = b # r"
  by (cases bs) (auto simp: read_byte_def read_bytes_def)

lemma read_uint2_iff: "read_uint 2 bs = Some (v, r) \<longleftrightarrow> bs = be16 v @ r \<and> 0 \<le> v \<and> v < 65536"
proof
  assume "read_uint 2 bs = Some (v, r)"
  then obtain x where x: "bs = x @ r" "length x = 2" "v = foldl (\<lambda>acc w. acc * 256 + uint w) 0 x"
    by (auto simp: read_uint_def read_bytes_iff split: option.splits)
  then obtain a b where "x = [a, b]" by (auto simp: length_Suc_conv eval_nat_numeral)
  then have "be16 v = x" using x(3) be_bytes(1) by simp
  moreover have "0 \<le> v" "v < 65536" using be_range [of x] x(2,3) by simp_all
  ultimately show "bs = be16 v @ r \<and> 0 \<le> v \<and> v < 65536" using x(1) by simp
qed (simp add: read_uint_def read_bytes_def be_value)

lemma read_uint4_iff: "read_uint 4 bs = Some (v, r) \<longleftrightarrow> bs = be32 v @ r \<and> 0 \<le> v \<and> v < 4294967296"
proof
  assume "read_uint 4 bs = Some (v, r)"
  then obtain x where x: "bs = x @ r" "length x = 4" "v = foldl (\<lambda>acc w. acc * 256 + uint w) 0 x"
    by (auto simp: read_uint_def read_bytes_iff split: option.splits)
  then obtain a b c d where "x = [a, b, c, d]" by (auto simp: length_Suc_conv eval_nat_numeral)
  then have "be32 v = x" using x(3) be_bytes(2) by simp
  moreover have "0 \<le> v" "v < 4294967296" using be_range [of x] x(2,3) by simp_all
  ultimately show "bs = be32 v @ r \<and> 0 \<le> v \<and> v < 4294967296" using x(1) by simp
qed (simp add: read_uint_def read_bytes_def be_value)

lemma kind_iff: "kind_value c = Some k \<longleftrightarrow> c = kind_code k"
  by (cases k) auto

lemma scope_iff: "scope_value c = Some s \<longleftrightarrow> c = scope_code s"
  by (cases s) auto

lemma role_iff: "role_value c = Some r \<longleftrightarrow> c = role_code r"
  by (cases r) auto

lemmas code_iff = kind_iff scope_iff role_iff

lemma utf8_ascii: "list_all (\<lambda>c. c < 128) s \<Longrightarrow> utf8_loop s = map word_of_nat s"
proof (induction s)
  case (Cons c s)
  then have "\<not> high_surrogate c" "utf8_bytes (int c) = [word_of_nat c]"
    by (auto simp: high_surrogate_def utf8_bytes_def)
  with Cons show ?case by simp
qed simp

lemma uuid_utf8:
  assumes "parseCanonicalUuid v = Some w"
  shows "w = v" "encodeUtf8 v = Some b \<Longrightarrow> length b = 36" "list_all (\<lambda>x. x < 65536) v"
proof -
  have v: "w = v" "uuid_shape v" using assms by (auto simp: parseCanonicalUuid_def split: if_splits)
  then show "w = v" by simp
  have "is_hex c \<or> c = c_minus \<Longrightarrow> c < 128" for c by (auto simp: is_hex_def is_digit_def)
  then have "\<forall>c \<in> set v. c < 128" using uuid_chars [OF v(2)] by blast
  then have "list_all (\<lambda>c. c < 128) v" "list_all (\<lambda>c. c < 65536) v" by (auto simp: list_all_iff)
  then show "encodeUtf8 v = Some b \<Longrightarrow> length b = 36" "list_all (\<lambda>x. x < 65536) v"
    using v(2) utf8_ascii by (auto simp: encodeUtf8_def uuid_shape_def split: if_splits)
qed


text \<open>What an encoded signal consists of.\<close>

definition signal_layout :: "signal \<Rightarrow> bytes \<Rightarrow> bytes \<Rightarrow> bytes \<Rightarrow> bytes \<Rightarrow> bytes" where
  "signal_layout t sid cid peer sdp =
     SIGNAL_MAGIC @ REVISION # kind_code (sg_signalKind t) # be32 (sg_protocolVersion t) @
     be16 (int (length sid)) @ sid @ scope_code (sg_scopeType t) # be16 (int (length cid)) @ cid @
     role_code (sg_senderRole t) # peer @ be32 (int (length sdp)) @ sdp"

definition signal_parts :: "ed_lib \<Rightarrow> signal \<Rightarrow> bytes \<Rightarrow> bytes \<Rightarrow> bytes \<Rightarrow> bytes \<Rightarrow> bool" where
  "signal_parts ed t sid cid peer sdp \<longleftrightarrow>
     1 \<le> sg_protocolVersion t \<and> sg_protocolVersion t \<le> 0xffffffff \<and>
     parseCanonicalUuid (sg_sessionId t) = Some (sg_sessionId t) \<and> encodeUtf8 (sg_sessionId t) = Some sid \<and>
     parseCanonicalUuid (sg_scopeId t) = Some (sg_scopeId t) \<and> encodeUtf8 (sg_scopeId t) = Some cid \<and>
     publicKey ed (sg_intendedPeerPublicKey t) = Some peer \<and>
     encodeUtf8 (sg_sdp t) = Some sdp \<and> sdp \<noteq> [] \<and> length sdp \<le> MAX_SDP_BYTES \<and> 0 \<notin> set (sg_sdp t)"

lemma encode_parts:
  "encodeSignedSignalV2 ed t = Some m \<longleftrightarrow>
   (\<exists>sid cid peer sdp. signal_parts ed t sid cid peer sdp \<and> m = signal_layout t sid cid peer sdp)"
proof -
  have c: "checkedText v n = Some b \<longleftrightarrow> encodeUtf8 v = Some b \<and> b \<noteq> [] \<and> length b \<le> n \<and> 0 \<notin> set v" for v n b
    by (auto simp: checkedText_def split: option.splits)
  have p: "parseCanonicalUuid v = Some w \<longleftrightarrow> w = v \<and> parseCanonicalUuid v = Some v" for v w
    by (auto simp: parseCanonicalUuid_def)
  show ?thesis
    unfolding encodeSignedSignalV2_def signal_parts_def signal_layout_def concatBytes_def
    by (auto simp: Option.bind_eq_Some_conv c) (auto simp: parseCanonicalUuid_def split: if_splits)
qed

lemma parts_lengths:
  assumes "signal_parts ed t sid cid peer sdp"
  shows "length sid = 36" "length cid = 36" "length peer = 32" "length sdp < 4294967296"
  using assms uuid_utf8(2) key_field(1) by (auto simp: signal_parts_def MAX_SDP_BYTES_def)

lemma peer_key: "publicKey ed v = Some b \<longleftrightarrow> encodeBase64Url b = v \<and> assertStrictEd25519PublicKey ed b"
proof -
  have "publicKey ed v = Some b \<longleftrightarrow> decodeBase64UrlExact v 32 = Some b \<and> assertStrictEd25519PublicKey ed b"
    by (auto simp: publicKey_def split: option.splits)
  then show ?thesis
    unfolding decodeExact_iff by (auto simp: assertStrictEd25519PublicKey_def ED25519_PUBLIC_KEY_BYTES_def)
qed

lemma decode_layout:
  assumes "signal_parts ed t sid cid peer sdp" "list_all (\<lambda>x. x < 65536) (sg_sdp t)"
  shows "decodeSignedSignalV2 ed (signal_layout t sid cid peer sdp) = Some t"
proof -
  note len = parts_lengths [OF assms(1)]
  note p = assms(1) [unfolded signal_parts_def]
  have read: "read_bytes n (a @ r) = Some (a, r)" if "length a = n" for a r n using that by (simp add: read_bytes_iff)
  have byte: "read_byte (b # r) = Some (b, r)" for b r by (simp add: read_byte_iff)
  have u2: "0 \<le> v \<Longrightarrow> v < 65536 \<Longrightarrow> read_uint 2 (be16 v @ r) = Some (v, r)" for v r by (simp add: read_uint2_iff)
  have u4: "0 \<le> v \<Longrightarrow> v < 4294967296 \<Longrightarrow> read_uint 4 (be32 v @ r) = Some (v, r)" for v r by (simp add: read_uint4_iff)
  have ids: "list_all (\<lambda>x. x < 65536) (sg_sessionId t)" "list_all (\<lambda>x. x < 65536) (sg_scopeId t)"
    using p uuid_utf8(3) by blast+
  have utf: "decodeUtf8 sid = Some (sg_sessionId t)" "decodeUtf8 cid = Some (sg_scopeId t)" "decodeUtf8 sdp = Some (sg_sdp t)"
    using p ids assms(2) by (simp_all add: utf8_iff)
  have last: "read_bytes (length sdp) sdp = Some (sdp, [])" by (simp add: read_bytes_iff)
  have codes: "kind_value (kind_code k) = Some k" "scope_value (scope_code s) = Some s" "role_value (role_code r) = Some r" for k s r
    by (simp_all only: code_iff)
  show ?thesis
    unfolding decodeSignedSignalV2_def signal_layout_def
    using p len utf last by (simp add: read byte u2 u4 codes equalBytes_iff peer_key del: kind_value.simps scope_value.simps role_value.simps)
qed

lemma decode_inverse:
  assumes "decodeSignedSignalV2 ed m = Some t"
  shows "encodeSignedSignalV2 ed t = Some m \<and> list_all (\<lambda>x. x < 65536) (sg_sdp t)"
proof -
  have ifs: "(if P then x else None) = Some y \<longleftrightarrow> P \<and> x = Some y" "(if P then None else x) = Some y \<longleftrightarrow> \<not> P \<and> x = Some y"
    for P and x :: "'b option" and y by simp_all
  have canonical: "parseCanonicalUuid v = Some w \<Longrightarrow> w = v" for v w using uuid_utf8(1) .
  obtain found bs1 rev bs2 k bs3 kind pv bs4 n1 bs5 raw1 bs6 text1 sid s bs7 scope n2 bs8 raw2 bs9 text2 cid r bs10 role
      peer bs11 n3 bs12 sdp bs13 sdpText where
    d: "read_bytes (length SIGNAL_MAGIC) m = Some (found, bs1)" "equalBytes found SIGNAL_MAGIC" "read_byte bs1 = Some (rev, bs2)"
      "rev = REVISION" "read_byte bs2 = Some (k, bs3)" "kind_value k = Some kind"
      "read_uint 4 bs3 = Some (pv, bs4)" "pv \<noteq> 0"
      "read_uint 2 bs4 = Some (n1, bs5)" "read_bytes (nat n1) bs5 = Some (raw1, bs6)" "decodeUtf8 raw1 = Some text1"
      "parseCanonicalUuid text1 = Some sid" "read_byte bs6 = Some (s, bs7)" "scope_value s = Some scope"
      "read_uint 2 bs7 = Some (n2, bs8)" "read_bytes (nat n2) bs8 = Some (raw2, bs9)" "decodeUtf8 raw2 = Some text2"
      "parseCanonicalUuid text2 = Some cid" "read_byte bs9 = Some (r, bs10)" "role_value r = Some role"
      "read_bytes 32 bs10 = Some (peer, bs11)" "assertStrictEd25519PublicKey ed peer" "read_uint 4 bs11 = Some (n3, bs12)"
      "read_bytes (nat n3) bs12 = Some (sdp, bs13)" "\<not> (length sdp < 1 \<or> length sdp > MAX_SDP_BYTES)"
      "decodeUtf8 sdp = Some sdpText" "0 \<notin> set sdpText" "\<not> bs13 \<noteq> []"
      "\<lparr>sg_signalKind = kind, sg_protocolVersion = pv, sg_sessionId = sid, sg_scopeType = scope, sg_scopeId = cid,
        sg_senderRole = role, sg_intendedPeerPublicKey = encodeBase64Url peer, sg_sdp = sdpText\<rparr> = t"
    using assms unfolding decodeSignedSignalV2_def Option.bind_eq_Some_conv split_paired_Ex prod.case ifs option.inject
    by (elim exE conjE) (rule that; assumption)
  note ids = canonical [OF d(12)] canonical [OF d(18)]
  note d' = d [unfolded read_bytes_iff read_byte_iff read_uint2_iff read_uint4_iff code_iff utf8_iff equalBytes_iff]
  have n: "n1 = int (length raw1)" "n2 = int (length raw2)" "n3 = int (length sdp)" using d'(9,10,15,16,23,24) by auto
  have t: "sg_signalKind t = kind" "sg_protocolVersion t = pv" "sg_sessionId t = sid" "sg_scopeType t = scope" "sg_scopeId t = cid"
    "sg_senderRole t = role" "sg_intendedPeerPublicKey t = encodeBase64Url peer" "sg_sdp t = sdpText"
    unfolding d(29) [symmetric] by simp_all
  have "m = signal_layout t raw1 raw2 peer sdp"
    using d'(1-7,9,10,13-16,19-21,23,24,28) unfolding n signal_layout_def t by simp
  moreover have "signal_parts ed t raw1 raw2 peer sdp"
    using d'(7,8,11,17,22,25-27) d(12,18) ids unfolding signal_parts_def t by (auto simp: peer_key)
  ultimately show ?thesis using d'(26) encode_parts t(8) by auto
qed

lemma signal_iff:
  "decodeSignedSignalV2 ed m = Some t \<longleftrightarrow>
   encodeSignedSignalV2 ed t = Some m \<and> list_all (\<lambda>x. x < 65536) (sg_sdp t)"
proof
  assume "encodeSignedSignalV2 ed t = Some m \<and> list_all (\<lambda>x. x < 65536) (sg_sdp t)"
  then show "decodeSignedSignalV2 ed m = Some t" using decode_layout unfolding encode_parts by blast
qed (rule decode_inverse)

text \<open>
  C20: The transcript of a signal has one reading. Bytes decode to a signal exactly when the signal encodes to
  those bytes: every accepted transcript is the canonical one, with nothing before, between or behind its
  fields, and two different signals never share one.
\<close>

theorem signal_transcript_exact:
  "decodeSignedSignalV2 ed m = Some t \<longleftrightarrow>
   encodeSignedSignalV2 ed t = Some m \<and> list_all (\<lambda>x. x < 65536) (sg_sdp t)"
  by (rule signal_iff)

subsection \<open>Accepted envelopes\<close>

definition utf16 :: "utext \<Rightarrow> bool" where
  "utf16 s \<longleftrightarrow> list_all (\<lambda>x. x < 65536) s"

text \<open>No signal has the bytes of one of the statements of theory Transcripts.\<close>

lemma signal_apart:
  assumes "encodeSignedSignalV2 ed t = Some m"
  shows "encode_transcript ed t' \<noteq> Some m"
proof
  assume "encode_transcript ed t' = Some m"
  then obtain r where "m = kind_magic t' @ r" using encode_starts by blast
  moreover obtain r' where "m = SIGNAL_MAGIC @ r'"
    using assms by (auto simp: encode_parts signal_layout_def)
  ultimately have "take 17 (kind_magic t' @ r) = take 17 (SIGNAL_MAGIC @ r')" by simp
  then show False
    by (cases t') (simp_all add: magics SIGNAL_MAGIC_def magic_bytes)
qed

lemma envelope_parsed:
  assumes "parseSignedSignalEnvelope ed v = Some e"
  shows "assertEnvelopeTopology e" "encodeSignedSignalV2 ed (envelopeToTranscript e) \<noteq> None"
    "\<exists>fs. v = WRecord fs \<and> sort (map fst fs) = ENVELOPE_KEYS"
proof -
  obtain fs where v: "v = WRecord fs" using assms by (cases v) (simp_all add: parseSignedSignalEnvelope_def)
  then have keys: "sort (map fst fs) = ENVELOPE_KEYS"
    using assms unfolding parseSignedSignalEnvelope_def by (cases "sort (map fst fs) = ENVELOPE_KEYS") simp_all
  then show "\<exists>fs. v = WRecord fs \<and> sort (map fst fs) = ENVELOPE_KEYS" using v by blast
  from assms keys v obtain m where
    "(if assertEnvelopeTopology e then encodeSignedSignalV2 ed (envelopeToTranscript e) else None) = Some m"
    unfolding parseSignedSignalEnvelope_def
    by (simp only: wire_value.case if_False simp_thms Option.bind_eq_Some_conv option.inject) blast
  then show "assertEnvelopeTopology e" "encodeSignedSignalV2 ed (envelopeToTranscript e) \<noteq> None"
    by (simp_all split: if_splits)
qed

lemma envelope_verified:
  assumes "verifySignedSignalEnvelope ed v (Some trusted) = Some e"
  obtains key signature m where "parseSignedSignalEnvelope ed v = Some e" "trusted = ev_sender_identity_public_key e"
    "trusted = encodeBase64Url key" "encodeSignedSignalV2 ed (envelopeToTranscript e) = Some m"
    "decodeBase64UrlExact (ev_signature e) 64 = Some signature" "assertStrictEd25519PublicKey ed key"
    "ed_verify ed signature m key = Some True"
proof -
  from assms obtain e' key signature where v: "parseSignedSignalEnvelope ed v = Some e'"
    "(if Some trusted \<noteq> None \<and> Some trusted \<noteq> Some (ev_sender_identity_public_key e') then None
      else decodeBase64UrlExact (ev_sender_identity_public_key e') 32) = Some key"
    "(if verifySignedSignalV2 ed key (envelopeToTranscript e') signature = Some True then Some e' else None) = Some e"
    "decodeBase64UrlExact (ev_signature e') 64 = Some signature"
    unfolding verifySignedSignalEnvelope_def Option.bind_eq_Some_conv by blast
  have trusted: "trusted = ev_sender_identity_public_key e'" "trusted = encodeBase64Url key"
    using v(2) by (simp_all add: decodeExact_iff split: if_splits)
  have e: "e' = e" "verifySignedSignalV2 ed key (envelopeToTranscript e) signature = Some True"
    using v(3) by (simp_all split: if_splits)
  then obtain m where "encodeSignedSignalV2 ed (envelopeToTranscript e) = Some m"
    "verifyPureEd25519Strict ed key m signature"
    by (auto simp: verifySignedSignalV2_def split: option.splits)
  moreover from this(2) have "ed_verify ed signature m key = Some True" "assertStrictEd25519PublicKey ed key"
    by (simp_all add: verifyPureEd25519Strict_def split: if_splits)
  ultimately show thesis using that v(1,4) trusted unfolding e(1) by blast
qed

lemma key_unique: "encodeBase64Url a = encodeBase64Url b \<Longrightarrow> a = b"
  using decodeBase64Url_iff by (metis option.inject)

text \<open>
  C15: An accepted signal is what one statement of the trusted key says. Whatever the server in between
  delivers: when the verification against a trusted key succeeds, the envelope names that key as its sender,
  the key is one the strict rules admit, and the signature the envelope carries verifies under exactly that
  key for one message. That message determines every field that decides anything: any signal with those
  bytes has the envelope's kind, protocol version, session, scope, role, intended peer and session
  description, and none of the other statements an identity key signs has them. And an offer comes from a
  browser, an answer from a daemon, in the version and scope of its protocol.
\<close>

theorem signal_authentic:
  assumes "verifySignedSignalEnvelope ed v (Some (encodeBase64Url key)) = Some e" "utf16 (ev_sdp e)"
  shows "\<exists>m signature.
    decodeBase64UrlExact (ev_signature e) 64 = Some signature \<and> assertStrictEd25519PublicKey ed key \<and>
    ed_verify ed signature m key = Some True \<and> ev_sender_identity_public_key e = encodeBase64Url key \<and>
    encodeSignedSignalV2 ed (envelopeToTranscript e) = Some m \<and>
    (\<forall>t. encodeSignedSignalV2 ed t = Some m \<and> utf16 (sg_sdp t) \<longrightarrow>
       sg_signalKind t = ev_type e \<and> sg_protocolVersion t = ev_protocol_version e \<and> sg_sessionId t = ev_session_id e \<and>
       sg_scopeType t = ev_scope_type e \<and> sg_scopeId t = ev_scope_id e \<and> sg_senderRole t = ev_sender_role e \<and>
       sg_intendedPeerPublicKey t = ev_intended_peer_identity_public_key e \<and> sg_sdp t = ev_sdp e) \<and>
    (\<forall>t. encode_transcript ed t \<noteq> Some m) \<and>
    (ev_type e = Offer \<longleftrightarrow> ev_sender_role e = BrowserRole) \<and>
    (ev_protocol e = PtyProtocol \<longleftrightarrow> ev_scope_type e = SessionScope) \<and>
    ev_protocol_version e \<in> (if ev_protocol e = PtyProtocol then {2} else {1, 2})"
proof -
  obtain key' signature m where e: "parseSignedSignalEnvelope ed v = Some e"
    "encodeBase64Url key = ev_sender_identity_public_key e" "encodeBase64Url key = encodeBase64Url key'"
    "encodeSignedSignalV2 ed (envelopeToTranscript e) = Some m"
    "decodeBase64UrlExact (ev_signature e) 64 = Some signature" "assertStrictEd25519PublicKey ed key'"
    "ed_verify ed signature m key' = Some True"
    using assms(1) by (rule envelope_verified)
  have key: "key' = key" using e(3) key_unique by metis
  have "decodeSignedSignalV2 ed m = Some (envelopeToTranscript e)"
    using e(4) assms(2) by (simp add: signal_iff utf16_def envelopeToTranscript_def)
  then have "t = envelopeToTranscript e" if "encodeSignedSignalV2 ed t = Some m \<and> utf16 (sg_sdp t)" for t
    using that signal_iff [of ed m t] by (simp add: utf16_def)
  then have "\<forall>t. encodeSignedSignalV2 ed t = Some m \<and> utf16 (sg_sdp t) \<longrightarrow>
       sg_signalKind t = ev_type e \<and> sg_protocolVersion t = ev_protocol_version e \<and> sg_sessionId t = ev_session_id e \<and>
       sg_scopeType t = ev_scope_type e \<and> sg_scopeId t = ev_scope_id e \<and> sg_senderRole t = ev_sender_role e \<and>
       sg_intendedPeerPublicKey t = ev_intended_peer_identity_public_key e \<and> sg_sdp t = ev_sdp e"
    by (fastforce simp: envelopeToTranscript_def)
  moreover have "(ev_type e = Offer \<longleftrightarrow> ev_sender_role e = BrowserRole) \<and>
      (ev_protocol e = PtyProtocol \<longleftrightarrow> ev_scope_type e = SessionScope) \<and>
      ev_protocol_version e \<in> (if ev_protocol e = PtyProtocol then {2} else {1, 2})"
    using envelope_parsed(1) [OF e(1)] by (auto simp: assertEnvelopeTopology_def split: if_splits)
  ultimately show ?thesis
    using e(2) [symmetric] e(4-7) signal_apart [OF e(4)] unfolding key
    by - (rule exI [of _ m], rule exI [of _ signature], blast)
qed

text \<open>A signal, and a library that accepts one signature, over that signal, under one key.\<close>

definition some_uuid :: utext where
  "some_uuid = replicate 8 48 @ [c_minus] @ replicate 4 48 @ [c_minus] @ replicate 4 48 @ [c_minus] @ replicate 4 48 @
     [c_minus] @ replicate 12 48"

definition some_signal :: signal where
  "some_signal = \<lparr>sg_signalKind = Offer, sg_protocolVersion = 2, sg_sessionId = some_uuid, sg_scopeType = SessionScope,
     sg_scopeId = some_uuid, sg_senderRole = BrowserRole, sg_intendedPeerPublicKey = encodeBase64Url (replicate 32 0),
     sg_sdp = u ''v=0''\<rparr>"

definition blind_lib :: ed_lib where
  "blind_lib = \<lparr>ed_point = (\<lambda>k. True), ed_getPublicKey = (\<lambda>s. s), ed_sign = (\<lambda>m s. replicate 64 0),
     ed_verify = (\<lambda>sig m k. None)\<rparr>"

definition one_signal_lib :: ed_lib where
  "one_signal_lib = blind_lib\<lparr>ed_verify := (\<lambda>sig m k.
     Some (sig = replicate 64 0 \<and> k = replicate 32 0 \<and> encodeSignedSignalV2 blind_lib some_signal = Some m))\<rparr>"

definition some_envelope :: signal_envelope where
  "some_envelope = \<lparr>ev_type = Offer, ev_sender_identity_public_key = encodeBase64Url (replicate 32 0),
     ev_intended_peer_identity_public_key = encodeBase64Url (replicate 32 0), ev_protocol = PtyProtocol,
     ev_protocol_version = 2, ev_session_id = some_uuid, ev_scope_type = SessionScope, ev_scope_id = some_uuid,
     ev_sender_role = BrowserRole, ev_sdp = u ''v=0'', ev_signature = encodeBase64Url (replicate 64 0)\<rparr>"

definition some_wire :: wire_value where
  "some_wire = WRecord (zip ENVELOPE_KEYS
     [WText (encodeBase64Url (replicate 32 0)), WText (u ''spawn.pty''), WNumber 2, WText some_uuid, WText (u ''session''),
      WText (u ''v=0''), WText (encodeBase64Url (replicate 32 0)), WText (u ''browser''), WText some_uuid,
      WText (encodeBase64Url (replicate 64 0)), WText (u ''ed25519''), WText (u ''rtc.offer'')])"

lemma ascii_valid: "list_all (\<lambda>c. c < 128) s \<Longrightarrow> assertValidUtf16 s"
  by (induction s) (auto simp: high_surrogate_def low_surrogate_def)

lemma some_uuid_ok: "parseCanonicalUuid some_uuid = Some some_uuid" "\<exists>b. encodeUtf8 some_uuid = Some b"
proof -
  have "hex_text (replicate 8 48 @ replicate 4 48 @ replicate 4 48 @ replicate 4 48 @ replicate 12 48)"
    by (simp add: hex_text_def is_hex_def is_digit_def)
  from dashed_uuid(1) [OF this] have "uuid_shape some_uuid" by (simp add: some_uuid_def dashed_def)
  moreover have "list_all (\<lambda>c. \<not> is_upper c) some_uuid" "list_all (\<lambda>c. c < 128) some_uuid"
    by (auto simp: some_uuid_def list_all_iff is_upper_def)
  ultimately show "parseCanonicalUuid some_uuid = Some some_uuid" "\<exists>b. encodeUtf8 some_uuid = Some b"
    by (simp_all add: parseCanonicalUuid_def encodeUtf8_def ascii_valid)
qed

lemma encode_lib: "encodeSignedSignalV2 (ed\<lparr>ed_verify := f\<rparr>) t = encodeSignedSignalV2 ed t"
proof -
  have "publicKey (ed\<lparr>ed_verify := f\<rparr>) v = publicKey ed v" for v
    by (simp add: publicKey_def assertStrictEd25519PublicKey_def cong: option.case_cong)
  then show ?thesis by (simp add: encodeSignedSignalV2_def)
qed

lemma some_signal_encodes: "\<exists>m. encodeSignedSignalV2 blind_lib some_signal = Some m"
proof -
  obtain b where b: "encodeUtf8 some_uuid = Some b" using some_uuid_ok(2) by blast
  have "encodeUtf8 (u ''v=0'') = Some [118, 61, 48]"
    by (simp add: encodeUtf8_def high_surrogate_def low_surrogate_def utf8_bytes_def)
  then have "signal_parts blind_lib some_signal b b (replicate 32 0) [118, 61, 48]"
    using b some_uuid_ok(1)
    by (simp add: signal_parts_def some_signal_def peer_key assertStrictEd25519PublicKey_def ED25519_PUBLIC_KEY_BYTES_def
        blind_lib_def MAX_SDP_BYTES_def)
  then show ?thesis using encode_parts by blast
qed

lemma some_keys: "sort ENVELOPE_KEYS = ENVELOPE_KEYS"
  by (rule sorted_sort_id) (simp add: ENVELOPE_KEYS_def)

lemma one_lib:
  "ed_point one_signal_lib k" "encodeSignedSignalV2 one_signal_lib t = encodeSignedSignalV2 blind_lib t"
  "ed_verify one_signal_lib s m k =
     Some (s = replicate 64 0 \<and> k = replicate 32 0 \<and> encodeSignedSignalV2 blind_lib some_signal = Some m)"
  by (simp_all add: one_signal_lib_def encode_lib) (simp add: blind_lib_def)

lemma some_transcript: "envelopeToTranscript some_envelope = some_signal"
  by (simp add: envelopeToTranscript_def some_envelope_def some_signal_def)

lemma some_wire_verified: "verifySignedSignalEnvelope one_signal_lib some_wire (Some (encodeBase64Url (replicate 32 0))) = Some some_envelope"
proof -
  note t = some_transcript
  obtain m where m: "encodeSignedSignalV2 one_signal_lib some_signal = Some m"
    using some_signal_encodes by (auto simp: one_signal_lib_def encode_lib)
  have "envelope_fields (zip ENVELOPE_KEYS
     [WText (encodeBase64Url (replicate 32 0)), WText (u ''spawn.pty''), WNumber 2, WText some_uuid, WText (u ''session''),
      WText (u ''v=0''), WText (encodeBase64Url (replicate 32 0)), WText (u ''browser''), WText some_uuid,
      WText (encodeBase64Url (replicate 64 0)), WText (u ''ed25519''), WText (u ''rtc.offer'')]) = Some some_envelope"
    by (simp add: envelope_fields_def ENVELOPE_KEYS_def requireString_def requireInteger_def one_of_def some_uuid_ok some_envelope_def)
  moreover have "publicKey one_signal_lib (encodeBase64Url (replicate 32 0)) = Some (replicate 32 0)"
    by (simp add: peer_key assertStrictEd25519PublicKey_def ED25519_PUBLIC_KEY_BYTES_def one_signal_lib_def blind_lib_def)
  moreover have dec: "decodeBase64UrlExact (encodeBase64Url (replicate n 0)) n = Some (replicate n 0)" for n
    by (simp add: decodeExact_iff)
  moreover have "assertEnvelopeTopology some_envelope" by (simp add: assertEnvelopeTopology_def some_envelope_def)
  ultimately have p: "parseSignedSignalEnvelope one_signal_lib some_wire = Some some_envelope"
    using m t some_keys unfolding parseSignedSignalEnvelope_def some_wire_def wire_value.case
    by (simp add: some_envelope_def ENVELOPE_KEYS_def)
  have "verifySignedSignalV2 one_signal_lib (replicate 32 0) some_signal (replicate 64 0) = Some True"
    using m one_lib by (simp add: verifySignedSignalV2_def verifyPureEd25519Strict_def ED25519_SIGNATURE_BYTES_def
        assertStrictEd25519PublicKey_def ED25519_PUBLIC_KEY_BYTES_def)
  then show ?thesis
    using p t by (simp add: verifySignedSignalEnvelope_def some_envelope_def dec)
qed

theorem signal_authentic_witness:
  "ev_sender_identity_public_key some_envelope = encodeBase64Url (replicate 32 0) \<and>
   (\<exists>m. encodeSignedSignalV2 one_signal_lib some_signal = Some m \<and>
      ed_verify one_signal_lib (replicate 64 0) m (replicate 32 0) = Some True)"
proof -
  have "utf16 (ev_sdp some_envelope)" by (simp add: some_envelope_def utf16_def)
  from signal_authentic [OF some_wire_verified this] obtain m signature where *:
    "decodeBase64UrlExact (ev_signature some_envelope) 64 = Some signature"
    "ed_verify one_signal_lib signature m (replicate 32 0) = Some True"
    "ev_sender_identity_public_key some_envelope = encodeBase64Url (replicate 32 0)"
    "encodeSignedSignalV2 one_signal_lib some_signal = Some m"
    unfolding some_transcript by blast
  have "ev_signature some_envelope = encodeBase64Url (replicate 64 0)" by (simp add: some_envelope_def)
  with * have "signature = replicate 64 0"
    using decodeExact_iff [of "encodeBase64Url (replicate 64 0)" 64 "replicate 64 0"] by simp
  with * show ?thesis by blast
qed

end
