(* ===== verification/Sas.thy ===== *)
theory Sas
  imports Signed_Signal
begin

unbundle bit_operations_syntax

section \<open>The number compared when a device is added\<close>

text \<open>
  \<open>mobile/src/lib/crypto/sas.ts\<close>: two devices that meet through the server show a short number which a
  person compares. Each contributes a key and a nonce; the initiator commits to its nonce first. The hash is
  the library's, an argument \<open>hash\<close> that returns 32 bytes.
\<close>

definition COMMIT_DOMAIN :: bytes where "COMMIT_DOMAIN = magic ''SPAWN-SAS-COMMIT-V1''"

definition SAS_DOMAIN :: bytes where "SAS_DOMAIN = magic ''SPAWN-SAS-V1''"

definition SAS_FIELD_BYTES :: nat where "SAS_FIELD_BYTES = 32"

definition CEREMONY_SAS_DIGITS :: nat where "CEREMONY_SAS_DIGITS = 4"

definition sasCommit :: "(bytes \<Rightarrow> bytes) \<Rightarrow> bytes \<Rightarrow> bytes \<Rightarrow> bytes" where
  "sasCommit hash key nonce = hash (concatBytes [COMMIT_DOMAIN, key, nonce])"

definition verifySasCommit :: "(bytes \<Rightarrow> bytes) \<Rightarrow> bytes \<Rightarrow> bytes \<Rightarrow> bytes \<Rightarrow> bool" where
  "verifySasCommit hash commitment key nonce = equalBytes (sasCommit hash key nonce) commitment"

text \<open>\<open>code.toString().padStart(digits, "0")\<close>\<close>

definition padded :: "nat \<Rightarrow> nat \<Rightarrow> utext" where
  "padded digits code = (let s = u (nat_str code) in replicate (digits - length s) 48 @ s)"

definition sas_input :: "bytes \<Rightarrow> bytes \<Rightarrow> bytes \<Rightarrow> bytes \<Rightarrow> bytes" where
  "sas_input initiatorKey joinerKey initiatorNonce joinerNonce =
     concatBytes [SAS_DOMAIN, initiatorKey, joinerKey, initiatorNonce, joinerNonce]"

text \<open>
  \<open>((d0 << 24) | (d1 << 16) | (d2 << 8) | d3) >>> 0\<close> is the number the first four bytes spell; digits of the
  digest that are missing count as zero. Rounding the half up is integer division.
\<close>

definition sas :: "(bytes \<Rightarrow> bytes) \<Rightarrow> bytes \<Rightarrow> bytes \<Rightarrow> bytes \<Rightarrow> bytes \<Rightarrow> nat \<Rightarrow> utext" where
  "sas hash initiatorKey joinerKey initiatorNonce joinerNonce digits =
     (let digest = hash (sas_input initiatorKey joinerKey initiatorNonce joinerNonce);
          n = ((byte_or_zero digest 0 * 256 + byte_or_zero digest 1) * 256 + byte_or_zero digest 2) * 256 +
            byte_or_zero digest 3;
          text = padded digits (nat (n mod 10 ^ digits));
          half = (digits + 1) div 2
      in if digits \<le> 4 then text else take half text @ [c_blank] @ drop half text)"

definition field :: "utext \<Rightarrow> bytes option" where
  "field v = decodeBase64UrlExact v SAS_FIELD_BYTES"

definition commitWire :: "(bytes \<Rightarrow> bytes) \<Rightarrow> utext \<Rightarrow> bytes \<Rightarrow> utext option" where
  "commitWire hash key nonce = map_option (\<lambda>k. encodeBase64Url (sasCommit hash k nonce)) (field key)"

definition verifyCommitWire :: "(bytes \<Rightarrow> bytes) \<Rightarrow> utext \<Rightarrow> utext \<Rightarrow> utext \<Rightarrow> bool" where
  "verifyCommitWire hash commitment key nonce =
     (case (field commitment, field key, field nonce) of
        (Some c, Some k, Some n) \<Rightarrow> verifySasCommit hash c k n
      | _ \<Rightarrow> False)"

definition ceremonySas :: "(bytes \<Rightarrow> bytes) \<Rightarrow> utext \<Rightarrow> utext \<Rightarrow> utext \<Rightarrow> utext \<Rightarrow> utext option" where
  "ceremonySas hash initiatorKey joinerKey initiatorNonce joinerNonce = do {
     ik \<leftarrow> field initiatorKey; jk \<leftarrow> field joinerKey; i \<leftarrow> field initiatorNonce; j \<leftarrow> field joinerNonce;
     Some (sas hash ik jk i j CEREMONY_SAS_DIGITS)
   }"

subsection \<open>The number and the commitment\<close>

lemma decimal_digits: "n < 10 ^ Suc d \<Longrightarrow> length (nat_str n) \<le> Suc d"
proof (induction d arbitrary: n)
  case 0
  then show ?case by (simp add: nat_str.simps)
next
  case (Suc d)
  show ?case
  proof (cases "n < 10")
    case True
    then show ?thesis by (simp add: nat_str.simps)
  next
    case False
    have "n div 10 < 10 ^ Suc d" using Suc.prems by (simp add: less_mult_imp_div_less mult.commute)
    from Suc.IH [OF this] False show ?thesis by (subst nat_str.simps) simp
  qed
qed

lemma nat_str_chars: "list_all is_digit (u (nat_str n))"
proof (induction n rule: nat_str.induct)
  case (1 n)
  have "list_all (\<lambda>c. is_digit (of_char c)) ''0123456789''" by (simp add: is_digit_def)
  then have d: "is_digit (of_char (digit k))" if "k < 10" for k using that by (simp add: digit_def list_all_length)
  show ?case
  proof (cases "n < 10")
    case True
    then show ?thesis using d by (simp add: nat_str.simps)
  next
    case False
    then show ?thesis using 1 [OF False] d [of "n mod 10"] by (subst nat_str.simps) (simp add: u_def)
  qed
qed

lemma padded_digits:
  assumes "code < 10 ^ Suc d"
  shows "length (padded (Suc d) code) = Suc d" "list_all is_digit (padded (Suc d) code)"
  using decimal_digits [OF assms] nat_str_chars [of code]
  by (auto simp: padded_def Let_def u_def list_all_iff is_digit_def)

lemma ceremonySas_digits:
  assumes "ceremonySas hash ik jk i j = Some s"
  shows "length s = 4 \<and> list_all is_digit s"
proof -
  obtain n :: int where n: "s = padded 4 (nat (n mod 10 ^ 4))"
    using assms unfolding ceremonySas_def sas_def CEREMONY_SAS_DIGITS_def Option.bind_eq_Some_conv Let_def by auto
  have "nat (n mod 10 ^ 4) < 10 ^ Suc 3" using pos_mod_bound [of "10 ^ 4" n] by (simp add: nat_less_iff)
  from padded_digits [OF this] show ?thesis unfolding n by simp
qed

text \<open>
  Keys and nonces of 32 bytes are determined by what is hashed, and what is hashed for a commitment is never
  what is hashed for the number.
\<close>

lemma sas_input_inject:
  assumes "length ik = 32" "length jk = 32" "length i = 32" "length ik' = 32" "length jk' = 32" "length i' = 32"
  shows "sas_input ik jk i j = sas_input ik' jk' i' j' \<longleftrightarrow> ik = ik' \<and> jk = jk' \<and> i = i' \<and> j = j'"
  using assms by (auto simp: sas_input_def concatBytes_def)

lemma domains_apart: "concatBytes [COMMIT_DOMAIN, k, n] \<noteq> sas_input ik jk i j"
proof
  assume "concatBytes [COMMIT_DOMAIN, k, n] = sas_input ik jk i j"
  then have "take 11 (concatBytes [COMMIT_DOMAIN, k, n]) = take 11 (sas_input ik jk i j)" by simp
  then show False
    by (simp add: sas_input_def concatBytes_def COMMIT_DOMAIN_def SAS_DOMAIN_def magic_bytes)
qed

text \<open>
  An opened commitment is the hash of one key and one nonce. Verification succeeds exactly when the three
  texts are 32 bytes each and the commitment is the hash of the marked key and nonce; what an honest
  initiator commits to opens with its key and its nonce.
\<close>

theorem commitment_opens:
  "verifyCommitWire hash c key nonce \<longleftrightarrow>
   (\<exists>k n. length k = 32 \<and> length n = 32 \<and> length (hash (COMMIT_DOMAIN @ k @ n)) = 32 \<and>
      key = encodeBase64Url k \<and> nonce = encodeBase64Url n \<and> commitWire hash key n = Some c)"
proof -
  have f: "field v = Some b \<longleftrightarrow> v = encodeBase64Url b \<and> length b = 32" for v b
    by (auto simp: field_def SAS_FIELD_BYTES_def decodeExact_iff)
  have "verifyCommitWire hash c key nonce \<longleftrightarrow>
      (\<exists>d k n. field c = Some d \<and> field key = Some k \<and> field nonce = Some n \<and> hash (COMMIT_DOMAIN @ k @ n) = d)"
    by (auto simp: verifyCommitWire_def verifySasCommit_def equalBytes_iff sasCommit_def concatBytes_def split: option.splits)
  also have "\<dots> \<longleftrightarrow> (\<exists>k n. length k = 32 \<and> length n = 32 \<and> length (hash (COMMIT_DOMAIN @ k @ n)) = 32 \<and>
      key = encodeBase64Url k \<and> nonce = encodeBase64Url n \<and> c = encodeBase64Url (hash (COMMIT_DOMAIN @ k @ n)))"
    unfolding f by blast
  also have "\<dots> \<longleftrightarrow> (\<exists>k n. length k = 32 \<and> length n = 32 \<and> length (hash (COMMIT_DOMAIN @ k @ n)) = 32 \<and>
      key = encodeBase64Url k \<and> nonce = encodeBase64Url n \<and> commitWire hash key n = Some c)"
  proof -
    have "length k = 32 \<Longrightarrow> commitWire hash (encodeBase64Url k) n = Some c \<longleftrightarrow> c = encodeBase64Url (hash (COMMIT_DOMAIN @ k @ n))" for k n
      using f [of "encodeBase64Url k" k] by (auto simp: commitWire_def sasCommit_def concatBytes_def)
    then show ?thesis by blast
  qed
  finally show ?thesis .
qed

end
