(* ===== verification/Host_Codec.thy ===== *)
theory Host_Codec
  imports Crypto_Bytes Agent_Command
begin

section \<open>What a host says\<close>

text \<open>
  \<open>mobile/src/terminal/transport/host-ctl-codec.ts\<close> (its parsers) and \<open>conversation-codec.ts\<close>: the frames of a
  host's control channel as the phone reads them. They arrive as JSON values from a machine that may run any
  version of the daemon; each parser checks every field it hands on.

  An exception of type \<open>HostControlTransportError\<close> is \<open>Inl\<close> of its code; the messages for people are left out.
  A string is the list of its UTF-8 bytes.
\<close>

type_synonym 'a checked = "string + 'a"

subsection \<open>Limits\<close>

definition HOST_CONTROL_FRAME_BYTES :: int where "HOST_CONTROL_FRAME_BYTES = 16 * 1024"

definition HOST_STREAM_CHUNK_BYTES :: nat where "HOST_STREAM_CHUNK_BYTES = 8 * 1024"

definition HOST_STREAM_WINDOW_CHUNKS :: int where "HOST_STREAM_WINDOW_CHUNKS = 8"

definition HOST_FILE_MAX_BYTES :: int where "HOST_FILE_MAX_BYTES = 512 * 1024 * 1024"

definition HOST_RANGE_MAX_BYTES :: int where "HOST_RANGE_MAX_BYTES = 16 * 1024 * 1024"

definition HOST_PREVIEW_MAX_BYTES :: int where "HOST_PREVIEW_MAX_BYTES = 2 * 1024 * 1024"

definition HOST_PREVIEW_PIXELS :: "int list" where "HOST_PREVIEW_PIXELS = [128, 256, 512, 1024]"

definition HOST_CONTROL_VERSION :: int where "HOST_CONTROL_VERSION = 1"

definition TRANSCRIPT_ROLES :: "string list" where "TRANSCRIPT_ROLES = [''conversation'', ''subagent'', ''input'']"

text \<open>\<open>/^[0-9a-f]{64}$/\<close>\<close>

definition SHA256_PATTERN :: "string \<Rightarrow> bool" where
  "SHA256_PATTERN s \<longleftrightarrow> length s = 64 \<and> list_all is_hex_lower (u s)"

definition js_array :: "jsval \<Rightarrow> jsval list option" where
  "js_array v = (case v of JArr vs \<Rightarrow> Some vs | _ \<Rightarrow> None)"

subsection \<open>The hello\<close>

definition boundedPositiveInt :: "jsval \<Rightarrow> int \<Rightarrow> int \<Rightarrow> int" where
  "boundedPositiveInt v fallback cap =
     (case js_safe v of Some n \<Rightarrow> if n > 0 then min n cap else fallback | None \<Rightarrow> fallback)"

definition optionalPositiveInt :: "jsval \<Rightarrow> int option" where
  "optionalPositiveInt v = (case js_safe v of Some n \<Rightarrow> if n > 0 then Some n else None | None \<Rightarrow> None)"

record host_limits =
  hl_frameBytes :: int
  hl_chunkBytes :: int
  hl_fileBytes :: int
  hl_rangeBytes :: int
  hl_previewBytes :: int
  hl_previewPixels :: "int list"
  hl_normalQueue :: "int option"
  hl_fastQueue :: "int option"

text \<open>A value that is not a record has no fields, as \<open>limits?.[_]\<close> reads it.\<close>

definition parseLimits :: "jsval \<Rightarrow> host_limits" where
  "parseLimits v =
     (let limits = (if js_is_record v then v else JNull);
          pixels = (case js_array (js_get limits ''preview_pixels'') of
              Some advertised \<Rightarrow> filter (\<lambda>p. JNum (of_int p) \<in> set advertised) HOST_PREVIEW_PIXELS
            | None \<Rightarrow> HOST_PREVIEW_PIXELS)
      in \<lparr>hl_frameBytes = boundedPositiveInt (js_get limits ''frame_bytes'') HOST_CONTROL_FRAME_BYTES HOST_CONTROL_FRAME_BYTES,
          hl_chunkBytes = boundedPositiveInt (js_get limits ''chunk_bytes'') (int HOST_STREAM_CHUNK_BYTES) (int HOST_STREAM_CHUNK_BYTES),
          hl_fileBytes = boundedPositiveInt (js_get limits ''file_bytes'') HOST_FILE_MAX_BYTES HOST_FILE_MAX_BYTES,
          hl_rangeBytes = boundedPositiveInt (js_get limits ''range_bytes'') HOST_RANGE_MAX_BYTES HOST_RANGE_MAX_BYTES,
          hl_previewBytes = boundedPositiveInt (js_get limits ''preview_bytes'') HOST_PREVIEW_MAX_BYTES HOST_PREVIEW_MAX_BYTES,
          hl_previewPixels = pixels,
          hl_normalQueue = optionalPositiveInt (js_get limits ''normal_queue''),
          hl_fastQueue = optionalPositiveInt (js_get limits ''fast_queue'')\<rparr>)"

record host_capabilities =
  hc_operations :: "string list"
  hc_limits :: host_limits

text \<open>\<open>[...new Set(values)]\<close>: every value once, at its first position.\<close>

fun unique :: "'a list \<Rightarrow> 'a list" where
  "unique [] = []"
| "unique (x # xs) = x # filter (\<lambda>y. y \<noteq> x) (unique xs)"

definition parseHostHello :: "jsval \<Rightarrow> host_capabilities checked" where
  "parseHostHello v =
     (if \<not> js_is_record v \<or> js_get v ''version'' \<noteq> JNum (of_int HOST_CONTROL_VERSION) \<or>
         js_get v ''type'' \<noteq> JStr ''hello'' \<or> js_get v ''protocol'' \<noteq> JStr ''spawn.host.ctl''
      then Inl ''invalid_hello''
      else
        let operations = (case js_array (js_get v ''capabilities'') of
            Some items \<Rightarrow> unique (List.map_filter js_string items)
          | None \<Rightarrow> [])
        in Inr \<lparr>hc_operations = operations, hc_limits = parseLimits (js_get v ''limits'')\<rparr>)"

subsection \<open>Files\<close>

definition assertHostFileSize :: "jsval \<Rightarrow> int \<Rightarrow> int checked" where
  "assertHostFileSize v limit =
     (case js_safe v of
        None \<Rightarrow> Inl ''invalid_size''
      | Some n \<Rightarrow>
          if n < 0 then Inl ''invalid_size''
          else if n > min limit HOST_FILE_MAX_BYTES then Inl ''file_too_large'' else Inr n)"

record read_declaration =
  rd_streamId :: string
  rd_path :: string
  rd_name :: string
  rd_length :: int
  rd_sha256 :: string

definition parseHostReadDeclaration :: "jsval \<Rightarrow> int \<Rightarrow> read_declaration checked" where
  "parseHostReadDeclaration v limit =
     (case (js_nonempty_string (js_get v ''stream_id''), js_string (js_get v ''path''), js_string (js_get v ''name''),
            js_safe (js_get v ''length''), js_string (js_get v ''sha256'')) of
        (Some streamId, Some path, Some name, Some n, Some sha) \<Rightarrow>
          if \<not> js_is_record v \<or> n < 0 \<or> \<not> SHA256_PATTERN sha then Inl ''invalid_response''
          else (case assertHostFileSize (js_get v ''length'') limit of
                  Inl e \<Rightarrow> Inl e
                | Inr _ \<Rightarrow> Inr \<lparr>rd_streamId = streamId, rd_path = path, rd_name = name, rd_length = n, rd_sha256 = sha\<rparr>)
      | _ \<Rightarrow> Inl ''invalid_response'')"

definition parseHostWriteStreamId :: "jsval \<Rightarrow> string checked" where
  "parseHostWriteStreamId v =
     (if \<not> js_is_record v then Inl ''invalid_response''
      else case js_nonempty_string (js_get v ''stream_id'') of
        Some s \<Rightarrow> Inr s
      | None \<Rightarrow> Inl ''invalid_response'')"

subsection \<open>Agent transcripts and conversations\<close>

record transcript_file =
  tf_path :: string
  tf_name :: string
  tf_size :: int
  tf_modified_at :: "int option"
  tf_role :: string
  tf_conversation_id :: "utext option"

record transcript_report =
  tr_agent_kind :: string
  tr_supported :: bool
  tr_transcripts :: "transcript_file list"
  tr_searched :: "string list"
  tr_truncated :: bool

definition js_bool :: "jsval \<Rightarrow> bool option" where
  "js_bool v = (case v of JBool b \<Rightarrow> Some b | _ \<Rightarrow> None)"

definition conversation_of :: "(utext \<Rightarrow> utext) \<Rightarrow> jsval \<Rightarrow> utext option" where
  "conversation_of lower v = canonicalConversationId_m lower (map_option u (js_string v))"

definition parse_transcript_file :: "(utext \<Rightarrow> utext) \<Rightarrow> jsval \<Rightarrow> transcript_file option" where
  "parse_transcript_file lower v =
     (case (js_string (js_get v ''path''), js_string (js_get v ''name''), js_safe (js_get v ''size''),
            js_string (js_get v ''role'')) of
        (Some path, Some name, Some n, Some role) \<Rightarrow>
          if \<not> js_is_record v \<or> n < 0 \<or> role \<notin> set TRANSCRIPT_ROLES then None
          else Some \<lparr>tf_path = path, tf_name = name, tf_size = n, tf_modified_at = js_safe (js_get v ''modified_at''),
                     tf_role = role, tf_conversation_id = conversation_of lower (js_get v ''conversation_id'')\<rparr>
      | _ \<Rightarrow> None)"

definition parseAgentTranscriptReport :: "(utext \<Rightarrow> utext) \<Rightarrow> jsval \<Rightarrow> transcript_report checked" where
  "parseAgentTranscriptReport lower v =
     (case (js_string (js_get v ''agent_kind''), js_bool (js_get v ''supported''), js_array (js_get v ''transcripts''),
            js_array (js_get v ''searched'')) of
        (Some agent_kind, Some supported, Some entries, Some searched) \<Rightarrow>
          (case those (map (parse_transcript_file lower) entries) of
             None \<Rightarrow> Inl ''invalid_response''
           | Some files \<Rightarrow>
               Inr \<lparr>tr_agent_kind = agent_kind, tr_supported = supported, tr_transcripts = files,
                    tr_searched = List.map_filter js_string searched,
                    tr_truncated = (js_get v ''truncated'' = JBool True)\<rparr>)
      | _ \<Rightarrow> Inl ''invalid_response'')"

datatype conversation_state = Running | Blocked | Idle | UnknownState

record inspection =
  ci_agent :: "string option"
  ci_conversation_id :: "utext option"
  ci_state :: conversation_state
  ci_cli_version :: "string option"
  ci_live_elsewhere :: bool
  ci_source :: string

text \<open>\<open>/^[\x21-\x7e]{1,64}$/\<close>, and a text that may be null: \<open>None\<close> is malformed.\<close>

definition SHORT_TEXT :: "string \<Rightarrow> bool" where
  "SHORT_TEXT s \<longleftrightarrow> 1 \<le> length s \<and> length s \<le> 64 \<and> list_all (\<lambda>c. 33 \<le> c \<and> c \<le> 126) (u s)"

definition nullableText :: "jsval \<Rightarrow> string option option" where
  "nullableText v =
     (if v = JNull then Some None
      else case js_string v of Some s \<Rightarrow> if SHORT_TEXT s then Some (Some s) else None | None \<Rightarrow> None)"

definition nullableConversationId :: "(utext \<Rightarrow> utext) \<Rightarrow> jsval \<Rightarrow> utext option option" where
  "nullableConversationId lower v =
     (if v = JNull then Some None
      else case conversation_of lower v of Some c \<Rightarrow> Some (Some c) | None \<Rightarrow> None)"

definition conversation_state_of :: "jsval \<Rightarrow> conversation_state" where
  "conversation_state_of v =
     (if v = JStr ''running'' then Running else if v = JStr ''blocked'' then Blocked
      else if v = JStr ''idle'' then Idle else UnknownState)"

definition parseConversationInspection :: "(utext \<Rightarrow> utext) \<Rightarrow> jsval \<Rightarrow> inspection checked" where
  "parseConversationInspection lower v =
     (if \<not> js_is_record v then Inl ''invalid_response''
      else
        (case (nullableText (js_get v ''agent''), nullableConversationId lower (js_get v ''conversation_id''),
               nullableText (js_get v ''cli_version''), js_bool (js_get v ''live_elsewhere''), js_string (js_get v ''source'')) of
           (Some agent, Some conversationId, Some cliVersion, Some liveElsewhere, Some source) \<Rightarrow>
             Inr \<lparr>ci_agent = agent, ci_conversation_id = conversationId,
                  ci_state = conversation_state_of (js_get v ''state''), ci_cli_version = cliVersion,
                  ci_live_elsewhere = liveElsewhere, ci_source = source\<rparr>
         | _ \<Rightarrow> Inl ''invalid_response''))"

subsection \<open>Frames of a stream\<close>

datatype stream_frame =
    ChunkFrame string int bytes
  | EndFrame string int string
  | ErrorFrame string string "string option"
  | CommittedFrame string string

definition parse_chunk :: "jsval \<Rightarrow> string \<Rightarrow> stream_frame checked" where
  "parse_chunk v streamId =
     (case js_safe (js_get v ''sequence'') of
        None \<Rightarrow> Inl ''invalid_chunk''
      | Some n \<Rightarrow>
          if n < 0 then Inl ''invalid_chunk''
          else case js_string (js_get v ''bytes_b64'') of
            None \<Rightarrow> Inl ''invalid_chunk''
          | Some encoded \<Rightarrow>
              (case decodeBridgeBytes (u encoded) of
                 None \<Rightarrow> Inl ''invalid_chunk''
               | Some bs \<Rightarrow>
                   if length bs = 0 \<or> length bs > HOST_STREAM_CHUNK_BYTES then Inl ''invalid_chunk''
                   else Inr (ChunkFrame streamId n bs)))"

definition parse_end :: "jsval \<Rightarrow> string \<Rightarrow> stream_frame checked" where
  "parse_end v streamId =
     (case (js_safe (js_get v ''length''), js_string (js_get v ''sha256'')) of
        (Some n, Some sha) \<Rightarrow>
          if n < 0 \<or> \<not> SHA256_PATTERN sha then Inl ''invalid_stream_end'' else Inr (EndFrame streamId n sha)
      | _ \<Rightarrow> Inl ''invalid_stream_end'')"

definition parseHostStreamFrame :: "jsval \<Rightarrow> stream_frame checked" where
  "parseHostStreamFrame v =
     (case js_string (js_get v ''stream_id'') of
        None \<Rightarrow> Inl ''invalid_stream''
      | Some streamId \<Rightarrow>
          if \<not> js_is_record v \<or> js_get v ''version'' \<noteq> JNum (of_int HOST_CONTROL_VERSION) then Inl ''invalid_stream''
          else
            let type = js_get v ''type'' in
            if type = JStr ''stream.chunk'' then parse_chunk v streamId
            else if type = JStr ''stream.end'' then parse_end v streamId
            else if type = JStr ''stream.committed'' then
              (case js_string (js_get v ''path'') of
                 None \<Rightarrow> Inl ''invalid_commit''
               | Some path \<Rightarrow> Inr (CommittedFrame streamId path))
            else if type = JStr ''stream.error'' then
              let error = js_get v ''error'' in
              Inr (ErrorFrame streamId
                (case js_string (js_get error ''code'') of Some c \<Rightarrow> c | None \<Rightarrow> ''stream_failed'')
                (js_string (js_get error ''detail'')))
            else Inl ''invalid_stream'')"

definition encodeHostChunk :: "bytes \<Rightarrow> utext checked" where
  "encodeHostChunk bs =
     (if length bs = 0 \<or> length bs > HOST_STREAM_CHUNK_BYTES then Inl ''invalid_chunk'' else Inr (encodeBridgeBytes bs))"

text \<open>
  \<open>hashHostFileSource\<close>, with the reads of the source as the chunks they return and the library's SHA-256 as
  \<open>digest\<close>; the abort signal is looked at before every read and is the list of what it then says.
\<close>

fun hash_source_loop :: "int \<Rightarrow> nat \<Rightarrow> bytes \<Rightarrow> (bool \<times> bytes) list \<Rightarrow> bytes checked option" where
  "hash_source_loop expected offset fed reads =
     (if int offset \<ge> expected then Some (Inr fed)
      else case reads of
        [] \<Rightarrow> None
      | (aborted, chunk) # rest \<Rightarrow>
          if aborted then Some (Inl ''cancelled'')
          else if int (length chunk) \<noteq> min (int HOST_STREAM_CHUNK_BYTES) (expected - int offset)
          then Some (Inl ''local_file_changed'')
          else hash_source_loop expected (offset + HOST_STREAM_CHUNK_BYTES) (fed @ chunk) rest)"

text \<open>\<open>None\<close> while a read is still pending.\<close>

definition hashHostFileSource :: "(bytes \<Rightarrow> bytes) \<Rightarrow> jsval \<Rightarrow> (bool \<times> bytes) list \<Rightarrow> utext checked option" where
  "hashHostFileSource digest expected reads =
     (case assertHostFileSize expected HOST_FILE_MAX_BYTES of
        Inl e \<Rightarrow> Some (Inl e)
      | Inr n \<Rightarrow> map_option (map_sum id (\<lambda>fed. encodeHex (digest fed))) (hash_source_loop n 0 [] reads))"

definition collectHostStream :: "bytes list \<Rightarrow> bytes" where
  "collectHostStream chunks = foldl (\<lambda>bs chunk. bs @ chunk) [] chunks"

subsection \<open>What is accepted\<close>

lemmas limit_defs = HOST_CONTROL_FRAME_BYTES_def HOST_STREAM_CHUNK_BYTES_def HOST_FILE_MAX_BYTES_def
  HOST_RANGE_MAX_BYTES_def HOST_PREVIEW_MAX_BYTES_def HOST_PREVIEW_PIXELS_def

lemma boundedPositiveInt_range:
  assumes "1 \<le> cap" shows "boundedPositiveInt v cap cap \<in> {1..cap}"
  using assms by (auto simp: boundedPositiveInt_def split: option.splits)

lemma unique_set_distinct: "set (unique xs) = set xs \<and> distinct (unique xs)"
  by (induction xs) auto

lemma assertHostFileSize_Inr:
  "assertHostFileSize v limit = Inr n \<longleftrightarrow> js_safe v = Some n \<and> 0 \<le> n \<and> n \<le> min limit HOST_FILE_MAX_BYTES"
  by (auto simp: assertHostFileSize_def split: option.splits)

lemma parse_chunk_Inr:
  "parse_chunk v sid = Inr f \<longleftrightarrow>
   (\<exists>n t bs. f = ChunkFrame sid n bs \<and> js_safe (js_get v ''sequence'') = Some n \<and> 0 \<le> n \<and>
      js_get v ''bytes_b64'' = JStr t \<and> decodeBridgeBytes (u t) = Some bs \<and>
      bs \<noteq> [] \<and> length bs \<le> HOST_STREAM_CHUNK_BYTES)"
  by (cases "js_get v ''bytes_b64''") (auto simp: parse_chunk_def split: option.splits)

lemma parse_end_Inr:
  "parse_end v sid = Inr f \<longleftrightarrow>
   (\<exists>n s. f = EndFrame sid n s \<and> js_safe (js_get v ''length'') = Some n \<and> 0 \<le> n \<and>
      js_get v ''sha256'' = JStr s \<and> SHA256_PATTERN s)"
  by (cases "js_get v ''sha256''") (auto simp: parse_end_def split: option.splits)

lemma parse_chunk_frame:
  assumes "parseHostStreamFrame v = Inr (ChunkFrame sid n bs)"
  shows "0 \<le> n \<and> 1 \<le> length bs \<and> length bs \<le> HOST_STREAM_CHUNK_BYTES"
  using assms
  by (auto simp: parseHostStreamFrame_def Let_def parse_chunk_Inr parse_end_Inr Suc_le_eq
      split: option.splits if_splits)

lemma hash_source_loop_Inr:
  "hash_source_loop expected offset fed reads = Some (Inr all) \<Longrightarrow> int offset \<le> expected \<Longrightarrow> length fed = offset \<Longrightarrow>
   \<exists>k. all = fed @ concat (map snd (take k reads)) \<and> int (length all) = expected"
proof (induction expected offset fed reads rule: hash_source_loop.induct)
  case (1 expected offset fed reads)
  show ?case
  proof (cases "int offset \<ge> expected")
    case True
    then show ?thesis using 1 by (intro exI[of _ 0]) simp
  next
    case False
    then obtain c rest where r: "reads = (False, c) # rest"
      and c: "int (length c) = min (int HOST_STREAM_CHUNK_BYTES) (expected - int offset)"
      and go: "hash_source_loop expected (offset + HOST_STREAM_CHUNK_BYTES) (fed @ c) rest = Some (Inr all)"
      using 1(2) by (auto split: list.splits if_splits)
    show ?thesis
    proof (cases "int (offset + HOST_STREAM_CHUNK_BYTES) \<le> expected")
      case True
      then have "length (fed @ c) = offset + HOST_STREAM_CHUNK_BYTES" using c 1(4) by auto
      then obtain k where "all = (fed @ c) @ concat (map snd (take k rest)) \<and> int (length all) = expected"
        using 1(1)[OF False r refl _ _ go True] c by auto
      then show ?thesis using r by (intro exI[of _ "Suc k"]) auto
    next
      case far: False
      then have "all = fed @ c" using go by (simp split: if_splits)
      then show ?thesis using far c 1(4) False r by (intro exI[of _ 1]) auto
    qed
  qed
qed

text \<open>A digest of a local file covers exactly its size in bytes, in the order they were read.\<close>

lemma hashHostFileSource_covers:
  assumes "hashHostFileSource digest w reads = Some (Inr d)"
  shows "\<exists>n k. js_safe w = Some n \<and> 0 \<le> n \<and> n \<le> HOST_FILE_MAX_BYTES \<and>
    d = encodeHex (digest (concat (map snd (take k reads)))) \<and> int (length (concat (map snd (take k reads)))) = n"
proof -
  obtain n where n: "assertHostFileSize w HOST_FILE_MAX_BYTES = Inr n"
    using assms by (auto simp: hashHostFileSource_def split: sum.splits)
  then obtain x where "hash_source_loop n 0 [] reads = Some x" "map_sum id (\<lambda>fed. encodeHex (digest fed)) x = Inr d"
    using assms by (auto simp: hashHostFileSource_def simp del: hash_source_loop.simps)
  then obtain fed where "hash_source_loop n 0 [] reads = Some (Inr fed)" "d = encodeHex (digest fed)"
    by (cases x) (auto simp del: hash_source_loop.simps)
  then show ?thesis
    using hash_source_loop_Inr[of n 0 "[]" reads fed] n unfolding assertHostFileSize_Inr by auto
qed

text \<open>
  C26: Whatever a host advertises, the sizes the phone works with are positive and never exceed its own; the pixel sizes
  are some of its own, in its order. A declared file size is accepted exactly when it is an integer within both
  limits. A chunk that is handed on is numbered from zero and holds one to 8192 bytes.
\<close>

theorem host_limits_bounded:
  "(let l = parseLimits v in
      hl_frameBytes l \<in> {1..HOST_CONTROL_FRAME_BYTES} \<and> hl_chunkBytes l \<in> {1..int HOST_STREAM_CHUNK_BYTES} \<and>
      hl_fileBytes l \<in> {1..HOST_FILE_MAX_BYTES} \<and> hl_rangeBytes l \<in> {1..HOST_RANGE_MAX_BYTES} \<and>
      hl_previewBytes l \<in> {1..HOST_PREVIEW_MAX_BYTES} \<and> subseq (hl_previewPixels l) HOST_PREVIEW_PIXELS) \<and>
   (\<forall>w limit n. assertHostFileSize w limit = Inr n \<longleftrightarrow>
      js_safe w = Some n \<and> 0 \<le> n \<and> n \<le> min limit HOST_FILE_MAX_BYTES) \<and>
   {(n, length bs) | w sid n bs. parseHostStreamFrame w = Inr (ChunkFrame sid n bs)} \<subseteq>
      {0..} \<times> {1..HOST_STREAM_CHUNK_BYTES}"
proof (intro conjI)
  show "let l = parseLimits v in
      hl_frameBytes l \<in> {1..HOST_CONTROL_FRAME_BYTES} \<and> hl_chunkBytes l \<in> {1..int HOST_STREAM_CHUNK_BYTES} \<and>
      hl_fileBytes l \<in> {1..HOST_FILE_MAX_BYTES} \<and> hl_rangeBytes l \<in> {1..HOST_RANGE_MAX_BYTES} \<and>
      hl_previewBytes l \<in> {1..HOST_PREVIEW_MAX_BYTES} \<and> subseq (hl_previewPixels l) HOST_PREVIEW_PIXELS"
    unfolding Let_def parseLimits_def
    unfolding host_limits.simps
    by (intro conjI boundedPositiveInt_range) (simp_all add: limit_defs split: option.split)
qed (use assertHostFileSize_Inr parse_chunk_frame in \<open>auto simp: Suc_le_eq\<close>)

end
