(* ===== verification/Host_Streams.thy ===== *)
theory Host_Streams
  imports Host_Codec "HOL-Library.AList"
begin

section \<open>File transfers over a host's control channel\<close>

text \<open>
  \<open>HostStreamRuntime\<close> of \<open>mobile/src/terminal/transport/host-ctl-codec.ts\<close>: the downloads and uploads in progress on
  one channel. Its three \<open>Map\<close>s are association lists in insertion order (\<open>AList.update\<close> keeps the position of a
  key, as \<open>Map.set\<close> does).

  Calls out of the class (the port, the controllers of the streams handed out, the results of \<open>write\<close>, its progress
  callback) are appended to a log in the order they are made. What happens between two turns of the event loop is one
  event; timers and promises that settle are events too, and any order of them is allowed, so that what holds of every
  list of events holds of every interleaving the program can have. The progress callback is taken to return: one that
  throws would make \<open>write\<close> take its \<open>catch\<close>, which is not modelled.

  A hash object of the library is the bytes it was fed, and \<open>digest\<close> stands for the library's SHA-256 of them. The
  controller of a stream is a flag: whether the stream is still readable and not closing. On one that is not, the
  Streams standard makes \<open>error\<close> do nothing, and \<open>enqueue\<close> and \<open>close\<close> throw a \<open>TypeError\<close>.
\<close>

subsection \<open>State\<close>

definition STREAM_TOMBSTONE_TTL_MS :: int where "STREAM_TOMBSTONE_TTL_MS = 120000"

definition MAX_STREAM_TOMBSTONES :: nat where "MAX_STREAM_TOMBSTONES = 256"

record incoming_state =
  in_declaration :: read_declaration
  in_hash :: bytes
  in_nextSequence :: int
  in_acknowledged :: int
  in_received :: int
  in_open :: bool

record incoming_tombstone =
  tb_declaration :: read_declaration
  tb_hash :: bytes
  tb_nextSequence :: int
  tb_maxSequenceExclusive :: int
  tb_received :: int
  tb_expiresAt :: int

text \<open>
  Where a call of \<open>write\<close> waits: for the source, for the acknowledgement of a chunk (with what is left of the value
  it belongs to), for that of the end, for the commit.
\<close>

datatype write_wait = Reading | Sending bytes | Ending | Committing | Finished

text \<open>
  An upload: the arguments and local variables of \<open>write\<close> and its \<open>OutgoingStreamState\<close>. The promises \<open>failure\<close> and
  \<open>committed\<close> are \<open>None\<close> while they are pending.
\<close>

record outgoing_state =
  og_streamId :: string
  og_length :: int
  og_sha256 :: string
  og_hash :: bytes
  og_sent :: int
  og_sequence :: int
  og_wait :: write_wait
  og_failure :: "string option"
  og_committed :: "string checked option"
  og_commitDispatched :: bool
  og_definitiveFailure :: bool

datatype write_phase = Streaming | Finalizing | OutcomeUnknown | Complete | FailedPhase | CancelledPhase

text \<open>A call of \<open>write\<close> is known by its number; a chunk carries the base64 text of its bytes.\<close>

datatype host_effect =
    Opened read_declaration
  | Enqueue string bytes
  | ReadError string string
  | ReadClose string
  | SendAck string int
  | SendCancel string
  | SendChunk nat string int utext
  | SendEnd nat string int string
  | Fatal string
  | Settled
  | Thrown string
  | Progress nat write_phase int int
  | Wrote nat "string checked"

record host_streams =
  hs_incoming :: "(string \<times> incoming_state) list"
  hs_tombstones :: "(string \<times> incoming_tombstone) list"
  hs_outgoing :: "(string \<times> nat) list"
  hs_writes :: "outgoing_state list"
  hs_log :: "host_effect list"

definition new_host_streams :: host_streams where
  "new_host_streams = \<lparr>hs_incoming = [], hs_tombstones = [], hs_outgoing = [], hs_writes = [], hs_log = []\<rparr>"

definition log_effect :: "host_effect \<Rightarrow> host_streams \<Rightarrow> host_streams" where
  "log_effect e s = s\<lparr>hs_log := hs_log s @ [e]\<rparr>"

definition streams_active :: "host_streams \<Rightarrow> nat" where
  "streams_active s = length (hs_incoming s) + length (hs_outgoing s)"

subsection \<open>Downloads\<close>

definition set_incoming :: "string \<Rightarrow> incoming_state \<Rightarrow> host_streams \<Rightarrow> host_streams" where
  "set_incoming sid c s = s\<lparr>hs_incoming := AList.update sid c (hs_incoming s)\<rparr>"

definition finishIncoming :: "string \<Rightarrow> host_streams \<Rightarrow> host_streams" where
  "finishIncoming sid s = log_effect Settled (s\<lparr>hs_incoming := AList.delete sid (hs_incoming s)\<rparr>)"

definition controller_error :: "incoming_state \<Rightarrow> string \<Rightarrow> string \<Rightarrow> host_streams \<Rightarrow> host_streams" where
  "controller_error c sid code s = (if in_open c then log_effect (ReadError sid code) s else s)"

definition pruneTombstones :: "int \<Rightarrow> host_streams \<Rightarrow> host_streams" where
  "pruneTombstones now s = s\<lparr>hs_tombstones := filter (\<lambda>(_, t). \<not> tb_expiresAt t \<le> now) (hs_tombstones s)\<rparr>"

definition tombstone_of :: "int \<Rightarrow> incoming_state \<Rightarrow> incoming_tombstone" where
  "tombstone_of now c =
     \<lparr>tb_declaration = in_declaration c, tb_hash = in_hash c, tb_nextSequence = in_nextSequence c,
      tb_maxSequenceExclusive = in_acknowledged c + HOST_STREAM_WINDOW_CHUNKS, tb_received = in_received c,
      tb_expiresAt = now + STREAM_TOMBSTONE_TTL_MS\<rparr>"

definition cancelIncoming :: "int \<Rightarrow> string \<Rightarrow> host_streams \<Rightarrow> host_streams" where
  "cancelIncoming now sid s =
     (case map_of (hs_incoming s) sid of
        None \<Rightarrow> s
      | Some c \<Rightarrow>
          let s1 = pruneTombstones now s in
          if map_of (hs_tombstones s1) sid = None \<and> length (hs_tombstones s1) \<ge> MAX_STREAM_TOMBSTONES
          then log_effect (Fatal ''stream_limit'') s1
          else
            let s2 = s1\<lparr>hs_tombstones := AList.update sid (tombstone_of now c) (hs_tombstones s1)\<rparr>
            in log_effect (SendCancel sid) (finishIncoming sid s2))"

text \<open>The \<open>abort\<close> listener and the timer of a download differ in the error only.\<close>

definition fail_incoming :: "string \<Rightarrow> int \<Rightarrow> string \<Rightarrow> host_streams \<Rightarrow> host_streams" where
  "fail_incoming code now sid s =
     (case map_of (hs_incoming s) sid of
        None \<Rightarrow> s
      | Some c \<Rightarrow> cancelIncoming now sid (controller_error c sid code (set_incoming sid (c\<lparr>in_open := False\<rparr>) s)))"

definition beginIncoming :: "int \<Rightarrow> read_declaration \<Rightarrow> bool \<Rightarrow> host_streams \<Rightarrow> host_streams" where
  "beginIncoming now d aborted s =
     (let sid = rd_streamId d in
      if map_of (hs_incoming s) sid \<noteq> None \<or> map_of (hs_tombstones s) sid \<noteq> None then log_effect (Thrown ''invalid_response'') s
      else
        let c = \<lparr>in_declaration = d, in_hash = [], in_nextSequence = 0, in_acknowledged = 0, in_received = 0, in_open = True\<rparr>;
            s1 = log_effect (Opened d) (set_incoming sid c s)
        in if aborted then fail_incoming ''cancelled'' now sid s1 else s1)"

definition pull :: "string \<Rightarrow> host_streams \<Rightarrow> host_streams" where
  "pull sid s =
     (case map_of (hs_incoming s) sid of
        None \<Rightarrow> s
      | Some c \<Rightarrow>
          if in_acknowledged c \<ge> in_nextSequence c then s
          else
            let c1 = c\<lparr>in_acknowledged := in_acknowledged c + 1\<rparr>
            in log_effect (SendAck sid (in_acknowledged c1)) (set_incoming sid c1 s))"

text \<open>An acknowledgement that could not be sent makes \<open>pull\<close> reject, which puts the stream in error.\<close>

definition pull_rejected :: "string \<Rightarrow> string \<Rightarrow> host_streams \<Rightarrow> host_streams" where
  "pull_rejected code sid s =
     (case map_of (hs_incoming s) sid of
        None \<Rightarrow> s
      | Some c \<Rightarrow> controller_error c sid code (set_incoming sid (c\<lparr>in_open := False\<rparr>) s))"

text \<open>
  The reader of a stream cancels it: the stream is closed, then \<open>cancel\<close> runs. It names the stream by its id only; the
  reader of an earlier stream with this id can cancel too, while the last chunks of that one are still unread.
\<close>

definition cancel_read :: "bool \<Rightarrow> int \<Rightarrow> string \<Rightarrow> host_streams \<Rightarrow> host_streams" where
  "cancel_read own now sid s =
     (case map_of (hs_incoming s) sid of
        None \<Rightarrow> s
      | Some c \<Rightarrow>
          if \<not> own then cancelIncoming now sid s
          else if in_open c then cancelIncoming now sid (set_incoming sid (c\<lparr>in_open := False\<rparr>) s)
          else s)"

definition verified :: "(bytes \<Rightarrow> bytes) \<Rightarrow> read_declaration \<Rightarrow> int \<Rightarrow> bytes \<Rightarrow> int \<Rightarrow> string \<Rightarrow> bool" where
  "verified digest d received fed len sha \<longleftrightarrow>
     len = rd_length d \<and> received = rd_length d \<and> sha = rd_sha256 d \<and> encodeHex (digest fed) = u (rd_sha256 d)"

definition acceptTombstone :: "(bytes \<Rightarrow> bytes) \<Rightarrow> int \<Rightarrow> stream_frame \<Rightarrow> host_streams \<Rightarrow> bool \<times> host_streams" where
  "acceptTombstone digest now frame s =
     (let s1 = pruneTombstones now s in
      case frame of
        ErrorFrame sid _ _ \<Rightarrow>
          (case map_of (hs_tombstones s1) sid of
             None \<Rightarrow> (False, s1)
           | Some _ \<Rightarrow> (True, s1\<lparr>hs_tombstones := AList.delete sid (hs_tombstones s1)\<rparr>))
      | ChunkFrame sid n bs \<Rightarrow>
          (case map_of (hs_tombstones s1) sid of
             None \<Rightarrow> (False, s1)
           | Some t \<Rightarrow>
               if n \<noteq> tb_nextSequence t \<or> n \<ge> tb_maxSequenceExclusive t \<or>
                  tb_received t + int (length bs) > rd_length (tb_declaration t)
               then (False, s1)
               else (True, s1\<lparr>hs_tombstones := AList.update sid
                      (t\<lparr>tb_nextSequence := tb_nextSequence t + 1, tb_received := tb_received t + int (length bs),
                         tb_hash := tb_hash t @ bs\<rparr>) (hs_tombstones s1)\<rparr>))
      | EndFrame sid n sha \<Rightarrow>
          (case map_of (hs_tombstones s1) sid of
             None \<Rightarrow> (False, s1)
           | Some t \<Rightarrow> (verified digest (tb_declaration t) (tb_received t) (tb_hash t) n sha,
               s1\<lparr>hs_tombstones := AList.delete sid (hs_tombstones s1)\<rparr>))
      | CommittedFrame _ _ \<Rightarrow> (False, s1))"

fun frame_stream :: "stream_frame \<Rightarrow> string" where
  "frame_stream (ChunkFrame sid _ _) = sid"
| "frame_stream (EndFrame sid _ _) = sid"
| "frame_stream (ErrorFrame sid _ _) = sid"
| "frame_stream (CommittedFrame sid _) = sid"

definition incoming_chunk :: "string \<Rightarrow> incoming_state \<Rightarrow> int \<Rightarrow> bytes \<Rightarrow> host_streams \<Rightarrow> host_streams" where
  "incoming_chunk sid c n bs s =
     (if n \<noteq> in_nextSequence c \<or> in_received c + int (length bs) > rd_length (in_declaration c)
      then log_effect (Fatal ''invalid_chunk'') s
      else
        let c1 = c\<lparr>in_nextSequence := in_nextSequence c + 1, in_received := in_received c + int (length bs),
                   in_hash := in_hash c @ bs\<rparr>
        in log_effect (if in_open c then Enqueue sid bs else Thrown ''TypeError'') (set_incoming sid c1 s))"

definition incoming_end ::
  "(bytes \<Rightarrow> bytes) \<Rightarrow> string \<Rightarrow> incoming_state \<Rightarrow> int \<Rightarrow> string \<Rightarrow> host_streams \<Rightarrow> host_streams" where
  "incoming_end digest sid c n sha s =
     (let s1 = finishIncoming sid s in
      if \<not> verified digest (in_declaration c) (in_received c) (in_hash c) n sha
      then controller_error c sid ''hash_mismatch'' s1
      else log_effect (if in_open c then ReadClose sid else Thrown ''TypeError'') s1)"

definition handle_incoming :: "(bytes \<Rightarrow> bytes) \<Rightarrow> int \<Rightarrow> stream_frame \<Rightarrow> host_streams \<Rightarrow> host_streams" where
  "handle_incoming digest now frame s =
     (case map_of (hs_incoming s) (frame_stream frame) of
        None \<Rightarrow>
          (case acceptTombstone digest now frame s of
             (True, s1) \<Rightarrow> s1
           | (False, s1) \<Rightarrow> log_effect (Fatal ''invalid_stream'') s1)
      | Some c \<Rightarrow>
          (case frame of
             ErrorFrame sid code _ \<Rightarrow> controller_error c sid code (finishIncoming sid s)
           | CommittedFrame _ _ \<Rightarrow> log_effect (Fatal ''invalid_stream'') s
           | ChunkFrame sid n bs \<Rightarrow> incoming_chunk sid c n bs s
           | EndFrame sid n sha \<Rightarrow> incoming_end digest sid c n sha s))"

subsection \<open>Uploads\<close>

definition set_write :: "nat \<Rightarrow> outgoing_state \<Rightarrow> host_streams \<Rightarrow> host_streams" where
  "set_write i w s = s\<lparr>hs_writes := (hs_writes s)[i := w]\<rparr>"

definition drop_outgoing :: "string \<Rightarrow> host_streams \<Rightarrow> host_streams" where
  "drop_outgoing sid s = s\<lparr>hs_outgoing := AList.delete sid (hs_outgoing s)\<rparr>"

text \<open>The two promises; one that is settled stays as it is.\<close>

definition resolve_write :: "string \<Rightarrow> outgoing_state \<Rightarrow> outgoing_state" where
  "resolve_write path w =
     w\<lparr>og_committed := (case og_committed w of None \<Rightarrow> Some (Inr path) | Some r \<Rightarrow> Some r)\<rparr>"

definition reject_write :: "string \<Rightarrow> outgoing_state \<Rightarrow> outgoing_state" where
  "reject_write code w =
     w\<lparr>og_failure := (case og_failure w of None \<Rightarrow> Some code | Some r \<Rightarrow> Some r),
       og_committed := (case og_committed w of None \<Rightarrow> Some (Inl code) | Some r \<Rightarrow> Some r)\<rparr>"

definition begin_write :: "string \<Rightarrow> int \<Rightarrow> string \<Rightarrow> host_streams \<Rightarrow> host_streams" where
  "begin_write sid len sha s =
     (if map_of (hs_outgoing s) sid \<noteq> None then log_effect (Thrown ''invalid_response'') s
      else
        let w = \<lparr>og_streamId = sid, og_length = len, og_sha256 = sha, og_hash = [], og_sent = 0, og_sequence = 0,
                 og_wait = Reading, og_failure = None, og_committed = None, og_commitDispatched = False,
                 og_definitiveFailure = False\<rparr>
        in s\<lparr>hs_writes := hs_writes s @ [w], hs_outgoing := AList.update sid (length (hs_writes s)) (hs_outgoing s)\<rparr>)"

text \<open>The \<open>catch\<close> of \<open>write\<close>.\<close>

definition fail_write :: "nat \<Rightarrow> outgoing_state \<Rightarrow> string \<Rightarrow> host_streams \<Rightarrow> host_streams" where
  "fail_write i w code s =
     (let sid = og_streamId w;
          s1 = (if map_of (hs_outgoing s) sid = Some i then log_effect Settled (log_effect (SendCancel sid) (drop_outgoing sid s)) else s);
          final = (if og_commitDispatched w \<and> \<not> og_definitiveFailure w then ''outcome_unknown'' else code);
          phase = (if final = ''cancelled'' then CancelledPhase
                   else if og_commitDispatched w then OutcomeUnknown else FailedPhase)
      in set_write i (w\<lparr>og_wait := Finished\<rparr>)
           (log_effect (Wrote i (Inl final)) (log_effect (Progress i phase (og_sent w) (og_length w)) s1)))"

text \<open>The next piece of a value of the source, or the next value.\<close>

definition send_next :: "nat \<Rightarrow> outgoing_state \<Rightarrow> bytes \<Rightarrow> host_streams \<Rightarrow> host_streams" where
  "send_next i w rest s =
     (if rest = [] then set_write i (w\<lparr>og_wait := Reading\<rparr>) s
      else
        let piece = take HOST_STREAM_CHUNK_BYTES rest;
            w1 = w\<lparr>og_sent := og_sent w + int (length piece)\<rparr>
        in if og_sent w1 > og_length w then fail_write i w1 ''length_mismatch'' s
           else
             let w2 = w1\<lparr>og_hash := og_hash w @ piece\<rparr>
             in case encodeHostChunk piece of
                  Inl e \<Rightarrow> fail_write i w2 e s
                | Inr t \<Rightarrow> set_write i (w2\<lparr>og_wait := Sending (drop HOST_STREAM_CHUNK_BYTES rest)\<rparr>)
                             (log_effect (SendChunk i (og_streamId w) (og_sequence w) t) s))"

definition end_write :: "(bytes \<Rightarrow> bytes) \<Rightarrow> nat \<Rightarrow> outgoing_state \<Rightarrow> host_streams \<Rightarrow> host_streams" where
  "end_write digest i w s =
     (if og_sent w \<noteq> og_length w \<or> encodeHex (digest (og_hash w)) \<noteq> u (og_sha256 w) then fail_write i w ''hash_mismatch'' s
      else set_write i (w\<lparr>og_commitDispatched := True, og_wait := Ending\<rparr>)
             (log_effect (Progress i OutcomeUnknown (og_sent w) (og_length w))
               (log_effect (SendEnd i (og_streamId w) (og_length w) (og_sha256 w))
                 (log_effect (Progress i Finalizing (og_sent w) (og_length w)) s))))"

definition sent_write :: "nat \<Rightarrow> outgoing_state \<Rightarrow> host_streams \<Rightarrow> host_streams" where
  "sent_write i w s =
     (case og_wait w of
        Sending rest \<Rightarrow>
          let w1 = w\<lparr>og_sequence := og_sequence w + 1\<rparr>
          in send_next i w1 rest (log_effect (Progress i Streaming (og_sent w) (og_length w)) s)
      | Ending \<Rightarrow> set_write i (w\<lparr>og_wait := Committing\<rparr>) s
      | _ \<Rightarrow> s)"

definition commit_write :: "nat \<Rightarrow> outgoing_state \<Rightarrow> host_streams \<Rightarrow> host_streams" where
  "commit_write i w s =
     (case og_committed w of
        None \<Rightarrow> s
      | Some (Inl code) \<Rightarrow> fail_write i w code s
      | Some (Inr path) \<Rightarrow> set_write i (w\<lparr>og_wait := Finished\<rparr>)
          (log_effect (Wrote i (Inr path)) (log_effect (Progress i Complete (og_sent w) (og_length w)) s)))"

definition unknown_or :: "outgoing_state \<Rightarrow> string \<Rightarrow> string" where
  "unknown_or w code = (if og_commitDispatched w then ''outcome_unknown'' else code)"

definition timeout_write :: "nat \<Rightarrow> outgoing_state \<Rightarrow> host_streams \<Rightarrow> host_streams" where
  "timeout_write i w s =
     (let sid = og_streamId w in
      if map_of (hs_outgoing s) sid \<noteq> Some i then s
      else set_write i (reject_write (unknown_or w ''stream_timeout'') w)
             (log_effect (SendCancel sid) (log_effect Settled (drop_outgoing sid s))))"

text \<open>
  What can happen to a call of \<open>write\<close> while it waits: the source yields a value, ends or fails; the port acknowledges
  or refuses what was sent; \<open>failure\<close> wins the race; the commit is settled; its abort signal or its timer fires.
\<close>

datatype write_event =
    SourceValue bytes
  | SourceDone
  | SourceFails string
  | PortSent
  | PortFails string
  | FailureWins
  | CommitSettled
  | AbortWrite
  | TimeoutWrite

definition racing :: "write_wait \<Rightarrow> bool" where
  "racing p = (case p of Reading \<Rightarrow> True | Sending _ \<Rightarrow> True | Ending \<Rightarrow> True | _ \<Rightarrow> False)"

definition at_port :: "write_wait \<Rightarrow> bool" where
  "at_port p = (case p of Sending _ \<Rightarrow> True | Ending \<Rightarrow> True | _ \<Rightarrow> False)"

definition write_step :: "(bytes \<Rightarrow> bytes) \<Rightarrow> nat \<Rightarrow> write_event \<Rightarrow> host_streams \<Rightarrow> host_streams" where
  "write_step digest i e s =
     (if i \<ge> length (hs_writes s) then s
      else
        let w = hs_writes s ! i in
        case e of
          SourceValue bs \<Rightarrow> if og_wait w = Reading then send_next i w bs s else s
        | SourceDone \<Rightarrow> if og_wait w = Reading then end_write digest i w s else s
        | SourceFails code \<Rightarrow> if og_wait w = Reading then fail_write i w code s else s
        | PortSent \<Rightarrow> sent_write i w s
        | PortFails code \<Rightarrow> if at_port (og_wait w) then fail_write i w code s else s
        | FailureWins \<Rightarrow>
            (case og_failure w of
               Some code \<Rightarrow> if racing (og_wait w) then fail_write i w code s else s
             | None \<Rightarrow> s)
        | CommitSettled \<Rightarrow> if og_wait w = Committing then commit_write i w s else s
        | AbortWrite \<Rightarrow> if og_wait w = Finished then s else set_write i (reject_write ''cancelled'' w) s
        | TimeoutWrite \<Rightarrow> timeout_write i w s)"

subsection \<open>Frames and the end of the channel\<close>

definition handle_outgoing :: "nat \<Rightarrow> stream_frame \<Rightarrow> host_streams \<Rightarrow> host_streams" where
  "handle_outgoing i frame s =
     (let w = hs_writes s ! i; s1 = log_effect Settled (drop_outgoing (frame_stream frame) s) in
      case frame of
        CommittedFrame _ path \<Rightarrow>
          if \<not> og_commitDispatched w then log_effect (Fatal ''invalid_commit'') s1
          else set_write i (resolve_write path w) s1
      | ErrorFrame _ code _ \<Rightarrow> set_write i (reject_write code (w\<lparr>og_definitiveFailure := True\<rparr>)) s1
      | _ \<Rightarrow> s)"

definition for_outgoing :: "stream_frame \<Rightarrow> bool" where
  "for_outgoing frame = (case frame of CommittedFrame _ _ \<Rightarrow> True | ErrorFrame _ _ _ \<Rightarrow> True | _ \<Rightarrow> False)"

definition handle_streams :: "(bytes \<Rightarrow> bytes) \<Rightarrow> int \<Rightarrow> jsval \<Rightarrow> host_streams \<Rightarrow> host_streams" where
  "handle_streams digest now v s =
     (case parseHostStreamFrame v of
        Inl e \<Rightarrow> log_effect (Fatal e) s
      | Inr frame \<Rightarrow>
          (case map_of (hs_outgoing s) (frame_stream frame) of
             Some i \<Rightarrow> if for_outgoing frame then handle_outgoing i frame s else handle_incoming digest now frame s
           | None \<Rightarrow> handle_incoming digest now frame s))"

definition close_incoming :: "string \<Rightarrow> string \<times> incoming_state \<Rightarrow> host_streams \<Rightarrow> host_streams" where
  "close_incoming code e s = controller_error (snd e) (fst e) code (finishIncoming (fst e) s)"

definition close_outgoing :: "string \<Rightarrow> string \<times> nat \<Rightarrow> host_streams \<Rightarrow> host_streams" where
  "close_outgoing code e s =
     (let w = hs_writes s ! snd e
      in set_write (snd e) (reject_write (unknown_or w code) w) (drop_outgoing (fst e) s))"

definition close_streams :: "string \<Rightarrow> host_streams \<Rightarrow> host_streams" where
  "close_streams code s =
     (let s1 = fold (close_incoming code) (hs_incoming s) s
      in fold (close_outgoing code) (hs_outgoing s1) (s1\<lparr>hs_tombstones := []\<rparr>))"

datatype host_event =
    BeginRead int read_declaration bool
  | Pull string
  | PullRejected string string
  | CancelRead bool int string
  | AbortRead int string
  | TimeoutRead int string
  | BeginWrite string int string
  | WriteEvent nat write_event
  | Receive int jsval
  | CloseAll string

fun host_step :: "(bytes \<Rightarrow> bytes) \<Rightarrow> host_event \<Rightarrow> host_streams \<Rightarrow> host_streams" where
  "host_step digest (BeginRead now d aborted) s = beginIncoming now d aborted s"
| "host_step digest (Pull sid) s = pull sid s"
| "host_step digest (PullRejected code sid) s = pull_rejected code sid s"
| "host_step digest (CancelRead own now sid) s = cancel_read own now sid s"
| "host_step digest (AbortRead now sid) s = fail_incoming ''cancelled'' now sid s"
| "host_step digest (TimeoutRead now sid) s = fail_incoming ''stream_timeout'' now sid s"
| "host_step digest (BeginWrite sid len sha) s = begin_write sid len sha s"
| "host_step digest (WriteEvent i e) s = write_step digest i e s"
| "host_step digest (Receive now v) s = handle_streams digest now v s"
| "host_step digest (CloseAll code) s = close_streams code s"

definition host_run :: "(bytes \<Rightarrow> bytes) \<Rightarrow> host_event list \<Rightarrow> host_streams" where
  "host_run digest es = fold (host_step digest) es new_host_streams"

text \<open>What is needed of a property to hold after every list of events.\<close>

locale host_invariant =
  fixes digest :: "bytes \<Rightarrow> bytes" and good :: "host_streams \<Rightarrow> bool"
  assumes start: "good new_host_streams"
    and step: "good s \<Longrightarrow> good (host_step digest e s)"
begin

lemma always: "good (host_run digest es)"
proof -
  have "good (fold (host_step digest) es s)" if "good s" for s
    using that by (induction es arbitrary: s) (simp_all add: step)
  then show ?thesis by (simp add: host_run_def start)
qed

end

end
