(* ===== verification/Host_Downloads.thy ===== *)
theory Host_Downloads
  imports Host_Streams
begin

section \<open>A download is complete or it fails\<close>

text \<open>
  What holds of the downloads of \<open>Host_Streams\<close> in every interleaving: an invariant of the state and the log, kept by
  every event, and from it what the reader of a stream can rely on.
\<close>

subsection \<open>What a reader was handed\<close>

text \<open>The declaration of the last stream opened with an id, and the chunks put into it since.\<close>

type_synonym view = "(read_declaration \<times> bytes list) option"

fun reader_step :: "string \<Rightarrow> host_effect \<Rightarrow> view \<Rightarrow> view" where
  "reader_step sid (Opened d) v = (if rd_streamId d = sid then Some (d, []) else v)"
| "reader_step sid (Enqueue k bs) v = (if k = sid then map_option (\<lambda>(d, cs). (d, cs @ [bs])) v else v)"
| "reader_step sid _ v = v"

definition reader_view :: "string \<Rightarrow> host_effect list \<Rightarrow> view" where
  "reader_view sid es = fold (reader_step sid) es None"

definition intact :: "(bytes \<Rightarrow> bytes) \<Rightarrow> view \<Rightarrow> bool" where
  "intact digest v =
     (case v of
        None \<Rightarrow> False
      | Some (d, cs) \<Rightarrow> int (length (collectHostStream cs)) = rd_length d \<and>
          encodeHex (digest (collectHostStream cs)) = u (rd_sha256 d))"

definition closes_intact :: "(bytes \<Rightarrow> bytes) \<Rightarrow> host_effect list \<Rightarrow> bool" where
  "closes_intact digest es \<longleftrightarrow>
     (\<forall>pre sid post. es = pre @ ReadClose sid # post \<longrightarrow> intact digest (reader_view sid pre))"

definition neutral :: "host_effect \<Rightarrow> bool" where
  "neutral e = (case e of Opened _ \<Rightarrow> False | Enqueue _ _ \<Rightarrow> False | ReadClose _ \<Rightarrow> False | _ \<Rightarrow> True)"

lemma neutral_effects [simp]:
  "neutral (ReadError a b)" "neutral (SendAck a n)" "neutral (SendCancel a)" "neutral (SendChunk i a n t)"
  "neutral (SendEnd i a n b)" "neutral (Fatal a)" "neutral Settled" "neutral (Thrown a)" "neutral (Progress i p n m)"
  "neutral (Wrote i r)"
  by (simp_all add: neutral_def)

lemma reader_view_snoc: "reader_view sid (es @ [e]) = reader_step sid e (reader_view sid es)"
  by (simp add: reader_view_def)

lemma reader_step_neutral [simp]: "neutral e \<Longrightarrow> reader_step sid e v = v"
  by (cases e) (auto simp: neutral_def)

lemma closes_Nil [simp]: "closes_intact digest []"
  by (simp add: closes_intact_def)

lemma closes_snoc:
  "closes_intact digest (es @ [e]) \<longleftrightarrow>
   closes_intact digest es \<and> (\<forall>sid. e = ReadClose sid \<longrightarrow> intact digest (reader_view sid es))"
proof
  assume all: "closes_intact digest (es @ [e])"
  have "es @ [e] = pre @ ReadClose sid # (post @ [e])" if "es = pre @ ReadClose sid # post" for pre sid post
    using that by simp
  then show "closes_intact digest es \<and> (\<forall>sid. e = ReadClose sid \<longrightarrow> intact digest (reader_view sid es))"
    using all unfolding closes_intact_def by metis
next
  assume r: "closes_intact digest es \<and> (\<forall>sid. e = ReadClose sid \<longrightarrow> intact digest (reader_view sid es))"
  have "intact digest (reader_view sid pre)" if "es @ [e] = pre @ ReadClose sid # post" for pre sid post
    using that r by (cases post rule: rev_cases) (auto simp: closes_intact_def)
  then show "closes_intact digest (es @ [e])" by (simp add: closes_intact_def)
qed

lemma closes_neutral [simp]: "neutral e \<Longrightarrow> closes_intact digest (es @ [e]) = closes_intact digest es"
  by (auto simp: closes_snoc neutral_def)

lemma collect_snoc [simp]: "collectHostStream (cs @ [c]) = collectHostStream cs @ c"
  by (simp add: collectHostStream_def)

lemma collect_Nil [simp]: "collectHostStream [] = []"
  by (simp add: collectHostStream_def)

subsection \<open>The invariant\<close>

text \<open>
  The hash of a download has been fed what its reader was handed, while the stream is open; what was received stays
  within the declared length, and no more chunks are acknowledged than came. A stream is not cancelled and live at
  once, and at most 256 cancelled ones are remembered.
\<close>

definition incoming_ok :: "host_effect list \<Rightarrow> string \<Rightarrow> incoming_state \<Rightarrow> bool" where
  "incoming_ok es sid c \<longleftrightarrow>
     in_received c = int (length (in_hash c)) \<and> in_received c \<le> max 0 (rd_length (in_declaration c)) \<and>
     0 \<le> in_acknowledged c \<and> in_acknowledged c \<le> in_nextSequence c \<and>
     (in_open c \<longrightarrow> (\<exists>cs. reader_view sid es = Some (in_declaration c, cs) \<and> collectHostStream cs = in_hash c \<and>
        int (length cs) = in_nextSequence c))"

definition downloads_ok :: "(bytes \<Rightarrow> bytes) \<Rightarrow> host_streams \<Rightarrow> bool" where
  "downloads_ok digest s \<longleftrightarrow>
     (\<forall>sid c. map_of (hs_incoming s) sid = Some c \<longrightarrow> incoming_ok (hs_log s) sid c) \<and>
     (\<forall>sid. map_of (hs_tombstones s) sid \<noteq> None \<longrightarrow> map_of (hs_incoming s) sid = None) \<and>
     length (hs_tombstones s) \<le> MAX_STREAM_TOMBSTONES \<and> closes_intact digest (hs_log s)"

lemma incoming_ok_neutral [simp]: "neutral e \<Longrightarrow> incoming_ok (es @ [e]) sid c = incoming_ok es sid c"
  by (simp add: incoming_ok_def reader_view_snoc)

lemma incoming_ok_view:
  "reader_view sid es = reader_view sid es' \<Longrightarrow> incoming_ok es sid c = incoming_ok es' sid c"
  by (simp add: incoming_ok_def)

lemma downloads_start: "downloads_ok digest new_host_streams"
  by (simp add: downloads_ok_def new_host_streams_def)

lemma incoming_okD:
  "downloads_ok digest s \<Longrightarrow> map_of (hs_incoming s) sid = Some c \<Longrightarrow> incoming_ok (hs_log s) sid c"
  by (simp add: downloads_ok_def)

named_theorems keeps_downloads

lemma log_keeps [keeps_downloads]: "downloads_ok digest s \<Longrightarrow> neutral e \<Longrightarrow> downloads_ok digest (log_effect e s)"
  by (simp add: downloads_ok_def log_effect_def)

lemma writes_keep [simp]:
  "downloads_ok digest (set_write i w s) = downloads_ok digest s"
  "downloads_ok digest (drop_outgoing sid s) = downloads_ok digest s"
  "downloads_ok digest (s\<lparr>hs_writes := ws, hs_outgoing := og\<rparr>) = downloads_ok digest s"
  by (simp_all add: downloads_ok_def set_write_def drop_outgoing_def)

lemma finish_keeps [keeps_downloads]: "downloads_ok digest s \<Longrightarrow> downloads_ok digest (finishIncoming sid s)"
  by (auto simp: downloads_ok_def finishIncoming_def log_effect_def delete_conv')

lemma error_keeps [keeps_downloads]: "downloads_ok digest s \<Longrightarrow> downloads_ok digest (controller_error c sid code s)"
  by (simp add: controller_error_def keeps_downloads)

lemma set_incoming_keeps:
  assumes "downloads_ok digest s" "map_of (hs_incoming s) sid = Some c" "incoming_ok (hs_log s) sid c'"
  shows "downloads_ok digest (set_incoming sid c' s)"
  using assms by (auto simp: downloads_ok_def set_incoming_def update_conv')

lemma shut_keeps:
  assumes "downloads_ok digest s" "map_of (hs_incoming s) sid = Some c"
  shows "downloads_ok digest (set_incoming sid (c\<lparr>in_open := False\<rparr>) s)"
  using set_incoming_keeps [OF assms] incoming_okD [OF assms] by (simp add: incoming_ok_def)

lemma map_of_filter_key:
  assumes "map_of (filter P xs) k = Some y" shows "\<exists>z. map_of xs k = Some z"
proof (rule ccontr)
  assume "\<not> ?thesis"
  then have "map_of xs k = None" by simp
  then have "map_of (filter P xs) k = None" by (auto simp: map_of_eq_None_iff)
  then show False using assms by simp
qed

lemma prune_keeps [keeps_downloads]:
  assumes "downloads_ok digest s" shows "downloads_ok digest (pruneTombstones now s)"
proof -
  have "length (filter P xs) \<le> n" if "length xs \<le> n" for P :: "'x \<Rightarrow> bool" and xs n
    using that length_filter_le le_trans by blast
  then show ?thesis
    using assms unfolding downloads_ok_def pruneTombstones_def by (auto dest: map_of_filter_key)
qed

lemma length_update_le: "length (AList.update k v xs) \<le> (if map_of xs k = None then Suc (length xs) else length xs)"
  by (induction xs) auto

lemma cancel_keeps [keeps_downloads]:
  assumes "downloads_ok digest s" shows "downloads_ok digest (cancelIncoming now sid s)"
proof (cases "map_of (hs_incoming s) sid")
  case None
  then show ?thesis using assms by (simp add: cancelIncoming_def)
next
  case (Some c)
  let ?s = "pruneTombstones now s"
  have ok: "downloads_ok digest ?s" using assms by (rule prune_keeps)
  have same: "hs_incoming ?s = hs_incoming s" by (simp add: pruneTombstones_def)
  let ?t = "?s\<lparr>hs_tombstones := AList.update sid (tombstone_of now c) (hs_tombstones ?s)\<rparr>"
  show ?thesis
  proof (cases "map_of (hs_tombstones ?s) sid = None \<and> length (hs_tombstones ?s) \<ge> MAX_STREAM_TOMBSTONES")
    case True
    then show ?thesis using ok Some by (simp add: cancelIncoming_def Let_def keeps_downloads)
  next
    case False
    then have n: "length (hs_tombstones ?t) \<le> MAX_STREAM_TOMBSTONES"
      using length_update_le [of sid "tombstone_of now c" "hs_tombstones ?s"] ok
      by (auto simp: downloads_ok_def split: if_splits)
    have "downloads_ok digest (finishIncoming sid ?t)"
      using ok n unfolding finishIncoming_def log_effect_def downloads_ok_def
      by (auto simp: delete_conv' update_conv' split: if_splits)
    then show ?thesis using False Some by (auto simp: cancelIncoming_def Let_def keeps_downloads)
  qed
qed

subsection \<open>Every event keeps it\<close>

lemma fail_keeps [keeps_downloads]: "downloads_ok digest s \<Longrightarrow> downloads_ok digest (fail_incoming code now sid s)"
  by (auto simp: fail_incoming_def shut_keeps keeps_downloads split: option.split)

lemma begin_keeps [keeps_downloads]:
  assumes "downloads_ok digest s" shows "downloads_ok digest (beginIncoming now d aborted s)"
proof (cases "map_of (hs_incoming s) (rd_streamId d) \<noteq> None \<or> map_of (hs_tombstones s) (rd_streamId d) \<noteq> None")
  case True
  then show ?thesis using assms by (auto simp: beginIncoming_def Let_def keeps_downloads)
next
  case False
  let ?c = "\<lparr>in_declaration = d, in_hash = [], in_nextSequence = 0, in_acknowledged = 0, in_received = 0, in_open = True\<rparr>"
  have "incoming_ok (hs_log s @ [Opened d]) k c = incoming_ok (hs_log s) k c" if "k \<noteq> rd_streamId d" for k c
    using that by (intro incoming_ok_view) (simp add: reader_view_snoc)
  moreover have "incoming_ok (hs_log s @ [Opened d]) (rd_streamId d) ?c"
    by (simp add: incoming_ok_def reader_view_snoc)
  ultimately have "downloads_ok digest (log_effect (Opened d) (set_incoming (rd_streamId d) ?c s))"
    using assms False
    by (auto simp: downloads_ok_def log_effect_def set_incoming_def update_conv' closes_snoc)
  then show ?thesis using False by (simp add: beginIncoming_def Let_def keeps_downloads)
qed

lemma pull_keeps [keeps_downloads]:
  assumes "downloads_ok digest s" shows "downloads_ok digest (pull sid s)"
proof (cases "map_of (hs_incoming s) sid")
  case (Some c)
  then show ?thesis
    using assms incoming_okD [OF assms Some]
    by (auto simp: pull_def Let_def intro!: log_keeps set_incoming_keeps [OF assms Some]) (auto simp: incoming_ok_def)
qed (use assms in \<open>simp add: pull_def\<close>)

lemma pull_rejected_keeps [keeps_downloads]: "downloads_ok digest s \<Longrightarrow> downloads_ok digest (pull_rejected code sid s)"
  by (auto simp: pull_rejected_def shut_keeps keeps_downloads split: option.split)

lemma cancel_read_keeps [keeps_downloads]: "downloads_ok digest s \<Longrightarrow> downloads_ok digest (cancel_read own now sid s)"
  by (auto simp: cancel_read_def shut_keeps keeps_downloads split: option.split)

lemma chunk_keeps:
  assumes ok: "downloads_ok digest s" and c: "map_of (hs_incoming s) sid = Some c"
  shows "downloads_ok digest (incoming_chunk sid c n bs s)"
proof (cases "n \<noteq> in_nextSequence c \<or> in_received c + int (length bs) > rd_length (in_declaration c)")
  case True
  then show ?thesis using ok by (auto simp: incoming_chunk_def keeps_downloads)
next
  case False
  let ?c = "c\<lparr>in_nextSequence := in_nextSequence c + 1, in_received := in_received c + int (length bs), in_hash := in_hash c @ bs\<rparr>"
  have counts: "incoming_ok es sid (?c\<lparr>in_open := False\<rparr>)" for es
    using incoming_okD [OF ok c] False by (auto simp: incoming_ok_def)
  show ?thesis
  proof (cases "in_open c")
    case True
    then obtain cs where v: "reader_view sid (hs_log s) = Some (in_declaration c, cs)" "collectHostStream cs = in_hash c"
      "int (length cs) = in_nextSequence c"
      using incoming_okD [OF ok c] by (auto simp: incoming_ok_def)
    have "incoming_ok (hs_log s @ [Enqueue sid bs]) sid ?c"
      using counts [of "[]"] v by (auto simp: incoming_ok_def reader_view_snoc)
    moreover have "incoming_ok (hs_log s @ [Enqueue sid bs]) k c' = incoming_ok (hs_log s) k c'" if "k \<noteq> sid" for k c'
      using that by (intro incoming_ok_view) (simp add: reader_view_snoc)
    ultimately have "downloads_ok digest (log_effect (Enqueue sid bs) (set_incoming sid ?c s))"
      using ok c by (auto simp: downloads_ok_def log_effect_def set_incoming_def update_conv' closes_snoc)
    then show ?thesis using False True by (simp add: incoming_chunk_def Let_def)
  next
    case shut: False
    then have "incoming_ok (hs_log s) sid ?c" using counts [of "hs_log s"] by (simp add: incoming_ok_def)
    then show ?thesis
      using False shut set_incoming_keeps [OF ok c] by (simp add: incoming_chunk_def Let_def keeps_downloads)
  qed
qed

lemma end_keeps:
  assumes ok: "downloads_ok digest s" and c: "map_of (hs_incoming s) sid = Some c"
  shows "downloads_ok digest (incoming_end digest sid c n sha s)"
proof (cases "verified digest (in_declaration c) (in_received c) (in_hash c) n sha \<and> in_open c")
  case True
  then have "intact digest (reader_view sid (hs_log s))"
    using incoming_okD [OF ok c] by (auto simp: incoming_ok_def intact_def verified_def)
  then have "intact digest (reader_view sid (hs_log (finishIncoming sid s)))"
    by (simp add: finishIncoming_def log_effect_def reader_view_snoc)
  moreover have "incoming_ok (es @ [ReadClose sid]) k c' = incoming_ok es k c'" for es k c'
    by (intro incoming_ok_view) (simp add: reader_view_snoc)
  ultimately have "downloads_ok digest (log_effect (ReadClose sid) (finishIncoming sid s))"
    using finish_keeps [OF ok, of sid] by (auto simp: downloads_ok_def log_effect_def closes_snoc)
  then show ?thesis using True by (simp add: incoming_end_def Let_def)
next
  case False
  then show ?thesis using ok by (auto simp: incoming_end_def Let_def keeps_downloads)
qed

lemma tombstone_keeps [keeps_downloads]:
  assumes "downloads_ok digest s" shows "downloads_ok digest (snd (acceptTombstone digest now frame s))"
proof -
  let ?s = "pruneTombstones now s"
  have ok: "downloads_ok digest ?s" using assms by (rule prune_keeps)
  have deleted: "downloads_ok digest (?s\<lparr>hs_tombstones := AList.delete sid (hs_tombstones ?s)\<rparr>)" for sid
    using ok length_delete_le [of sid "hs_tombstones ?s"] by (auto simp: downloads_ok_def delete_conv')
  have updated: "downloads_ok digest (?s\<lparr>hs_tombstones := AList.update sid t' (hs_tombstones ?s)\<rparr>)"
    if "map_of (hs_tombstones ?s) sid = Some t" for sid t t'
    using ok that length_update_le [of sid t' "hs_tombstones ?s"] by (auto simp: downloads_ok_def update_conv')
  show ?thesis
    by (cases frame) (auto simp: acceptTombstone_def Let_def ok deleted updated split: option.split)
qed

lemma handle_incoming_keeps [keeps_downloads]:
  assumes "downloads_ok digest s" shows "downloads_ok digest (handle_incoming digest now frame s)"
proof (cases "map_of (hs_incoming s) (frame_stream frame)")
  case None
  then show ?thesis
    using tombstone_keeps [OF assms, of now frame]
    by (auto simp: handle_incoming_def keeps_downloads split: prod.split bool.split)
next
  case (Some c)
  then show ?thesis
    using assms by (cases frame) (auto simp: handle_incoming_def keeps_downloads chunk_keeps end_keeps)
qed

lemma fail_write_keeps [keeps_downloads]: "downloads_ok digest s \<Longrightarrow> downloads_ok digest (fail_write i w code s)"
  by (simp add: fail_write_def Let_def keeps_downloads)

lemma send_next_keeps [keeps_downloads]: "downloads_ok digest s \<Longrightarrow> downloads_ok digest (send_next i w rest s)"
  by (simp add: send_next_def Let_def keeps_downloads split: sum.split)

lemma write_keeps [keeps_downloads]: "downloads_ok digest s \<Longrightarrow> downloads_ok digest (write_step digest i e s)"
  by (cases e) (auto simp: write_step_def Let_def end_write_def sent_write_def commit_write_def timeout_write_def
      keeps_downloads split: option.split sum.split write_wait.split)

lemma begin_write_keeps [keeps_downloads]: "downloads_ok digest s \<Longrightarrow> downloads_ok digest (begin_write sid len sha s)"
  by (simp add: begin_write_def Let_def keeps_downloads)

lemma handle_keeps [keeps_downloads]: "downloads_ok digest s \<Longrightarrow> downloads_ok digest (handle_streams digest now v s)"
  by (auto simp: handle_streams_def handle_outgoing_def Let_def keeps_downloads
      split: sum.split option.split stream_frame.split)

lemma fold_keeps: "(\<And>e s. P s \<Longrightarrow> P (f e s)) \<Longrightarrow> P s \<Longrightarrow> P (fold f es s)"
  by (induction es arbitrary: s) auto

lemma close_keeps [keeps_downloads]:
  assumes "downloads_ok digest s" shows "downloads_ok digest (close_streams code s)"
proof -
  have "downloads_ok digest (fold (close_incoming code) es s)" for es
    using assms by (rule fold_keeps [rotated]) (simp add: close_incoming_def keeps_downloads)
  moreover have "downloads_ok digest (fold (close_outgoing code) es s')" if "downloads_ok digest s'" for es s'
    using that by (rule fold_keeps [rotated]) (simp add: close_outgoing_def Let_def)
  ultimately show ?thesis by (simp add: close_streams_def Let_def downloads_ok_def)
qed

lemma step_keeps_downloads: "downloads_ok digest s \<Longrightarrow> downloads_ok digest (host_step digest e s)"
  by (cases e) (simp_all add: keeps_downloads)

interpretation downloads: host_invariant digest "downloads_ok digest" for digest
  by unfold_locales (simp_all add: downloads_start step_keeps_downloads)

subsection \<open>What a reader can rely on\<close>

text \<open>
  C16: A download ends without an error only when it is complete: in every interleaving of frames, reads, cancellations,
  timeouts and other transfers, when a stream is closed, the chunks put into it since it was opened are, one after the
  other, exactly as long as the host declared and have the declared SHA-256.
\<close>

theorem download_integrity:
  assumes "hs_log (host_run digest es) = pre @ ReadClose sid # post"
  shows "\<exists>d cs. reader_view sid pre = Some (d, cs) \<and> int (length (collectHostStream cs)) = rd_length d \<and>
    encodeHex (digest (collectHostStream cs)) = u (rd_sha256 d)"
proof -
  have "intact digest (reader_view sid pre)"
    using downloads.always [of digest es] assms by (simp add: downloads_ok_def closes_intact_def)
  then show ?thesis by (auto simp: intact_def split: option.splits)
qed

text \<open>A file of one byte, downloaded in one chunk, with a hash that is always zero.\<close>

definition zero_digest :: "bytes \<Rightarrow> bytes" where
  "zero_digest bs = replicate 32 0"

definition one_byte_file :: read_declaration where
  "one_byte_file = \<lparr>rd_streamId = ''s'', rd_path = ''/f'', rd_name = ''f'', rd_length = 1, rd_sha256 = replicate 64 (CHR ''0'')\<rparr>"

definition one_download :: "host_event list" where
  "one_download =
     [BeginRead 0 one_byte_file False,
      Receive 0 (JObj [(''version'', JNum 1), (''stream_id'', JStr ''s''), (''type'', JStr ''stream.chunk''),
        (''sequence'', JNum 0), (''bytes_b64'', JStr ''AA=='')]),
      Pull ''s'',
      Receive 0 (JObj [(''version'', JNum 1), (''stream_id'', JStr ''s''), (''type'', JStr ''stream.end''),
        (''length'', JNum 1), (''sha256'', JStr (replicate 64 (CHR ''0'')))])]"

lemma one_download_log:
  "hs_log (host_run zero_digest one_download) =
   [Opened one_byte_file, Enqueue ''s'' [0], SendAck ''s'' 1, Settled] @ ReadClose ''s'' # []"
  by code_simp

theorem download_integrity_witness:
  "\<exists>d cs. reader_view ''s'' [Opened one_byte_file, Enqueue ''s'' [0], SendAck ''s'' 1, Settled] = Some (d, cs) \<and>
    int (length (collectHostStream cs)) = rd_length d \<and>
    encodeHex (zero_digest (collectHostStream cs)) = u (rd_sha256 d)"
  by (rule download_integrity [OF one_download_log])

end
