(* ===== verification/Host_Uploads.thy ===== *)
theory Host_Uploads
  imports Host_Downloads
begin

section \<open>An upload says what it sent and what became of it\<close>

text \<open>
  What holds of the uploads of \<open>Host_Streams\<close> in every interleaving: what was sent before an upload is finished, and
  when its caller may be told that it failed.
\<close>

subsection \<open>What was sent\<close>

definition chunks_in :: "nat \<Rightarrow> host_effect \<Rightarrow> (int \<times> utext) list" where
  "chunks_in i e = (case e of SendChunk k _ n t \<Rightarrow> if k = i then [(n, t)] else [] | _ \<Rightarrow> [])"

definition chunks_of :: "nat \<Rightarrow> host_effect list \<Rightarrow> (int \<times> utext) list" where
  "chunks_of i es = concat (map (chunks_in i) es)"

text \<open>The host decodes a chunk as the phone would.\<close>

definition chunk_data :: "utext \<Rightarrow> bytes" where
  "chunk_data t = (case decodeBridgeBytes t of Some bs \<Rightarrow> bs | None \<Rightarrow> [])"

definition uploaded :: "nat \<Rightarrow> host_effect list \<Rightarrow> bytes" where
  "uploaded i es = concat (map (chunk_data \<circ> snd) (chunks_of i es))"

definition in_order :: "nat \<Rightarrow> host_effect list \<Rightarrow> bool" where
  "in_order i es \<longleftrightarrow> map fst (chunks_of i es) = map int [0..<length (chunks_of i es)]"

definition ended :: "nat \<Rightarrow> host_effect list \<Rightarrow> bool" where
  "ended i es \<longleftrightarrow> (\<exists>sid n sha. SendEnd i sid n sha \<in> set es)"

definition ends_ok :: "(bytes \<Rightarrow> bytes) \<Rightarrow> host_effect list \<Rightarrow> bool" where
  "ends_ok digest es \<longleftrightarrow>
     (\<forall>pre i sid n sha post. es = pre @ SendEnd i sid n sha # post \<longrightarrow>
        in_order i pre \<and> int (length (uploaded i pre)) = n \<and> encodeHex (digest (uploaded i pre)) = u sha \<and> \<not> ended i pre)"

text \<open>Effects that are not about a given upload, and those about none.\<close>

definition foreign :: "nat \<Rightarrow> host_effect \<Rightarrow> bool" where
  "foreign i e = (case e of SendChunk k _ _ _ \<Rightarrow> k \<noteq> i | SendEnd k _ _ _ \<Rightarrow> k \<noteq> i | Wrote k _ \<Rightarrow> k \<noteq> i | _ \<Rightarrow> True)"

lemma foreign_simps [simp]:
  "foreign i (Opened d)" "foreign i (Enqueue a bs)" "foreign i (ReadError a b)" "foreign i (ReadClose a)"
  "foreign i (SendAck a n)" "foreign i (SendCancel a)" "foreign i (Fatal a)" "foreign i Settled" "foreign i (Thrown a)"
  "foreign i (Progress k p n m)" "foreign i (SendChunk k a n t) \<longleftrightarrow> k \<noteq> i" "foreign i (SendEnd k a n b) \<longleftrightarrow> k \<noteq> i"
  "foreign i (Wrote k r) \<longleftrightarrow> k \<noteq> i"
  by (simp_all add: foreign_def)

lemma chunks_append [simp]: "chunks_of i (es @ es') = chunks_of i es @ chunks_of i es'"
  by (simp add: chunks_of_def)

lemma chunks_Cons: "chunks_of i (e # es) = chunks_in i e @ chunks_of i es"
  by (simp add: chunks_of_def)

lemma chunks_one [simp]: "chunks_of i [e] = chunks_in i e"
  by (simp add: chunks_of_def)

lemma foreign_chunks: "foreign i e \<Longrightarrow> chunks_in i e = []"
  by (simp add: foreign_def chunks_in_def split: host_effect.splits)

lemma all_foreign_chunks: "\<forall>e\<in>set es. foreign i e \<Longrightarrow> chunks_of i es = []"
  by (simp add: chunks_of_def foreign_chunks)

lemma ended_append: "ended i (es @ es') \<longleftrightarrow> ended i es \<or> ended i es'"
  by (auto simp: ended_def)

lemma ended_snoc [simp]: "ended i (es @ [e]) \<longleftrightarrow> ended i es \<or> (\<exists>sid n sha. e = SendEnd i sid n sha)"
  by (auto simp: ended_def)

lemma all_foreign_ended: "\<forall>e\<in>set es. foreign i e \<Longrightarrow> \<not> ended i es"
  unfolding ended_def by force

lemma all_foreign_wrote: "\<forall>e\<in>set es. foreign i e \<Longrightarrow> Wrote i r \<notin> set es"
  by force

lemma ends_Nil [simp]: "ends_ok digest []"
  by (simp add: ends_ok_def)

lemma ends_snoc:
  "ends_ok digest es \<Longrightarrow>
   (\<And>i sid n sha. e = SendEnd i sid n sha \<Longrightarrow>
      in_order i es \<and> int (length (uploaded i es)) = n \<and> encodeHex (digest (uploaded i es)) = u sha \<and> \<not> ended i es) \<Longrightarrow>
   ends_ok digest (es @ [e])"
  unfolding ends_ok_def
proof (intro allI impI, goal_cases)
  case (1 pre i sid n sha post)
  then show ?case by (cases post rule: rev_cases) auto
qed

lemma ends_quiet: "ends_ok digest es \<Longrightarrow> (\<And>i sid n sha. e \<noteq> SendEnd i sid n sha) \<Longrightarrow> ends_ok digest (es @ [e])"
  by (rule ends_snoc) auto

subsection \<open>The invariant\<close>

text \<open>
  The hash of an upload was fed what was sent. It is past its end exactly when the end was sent, which is before
  anything can be committed. A failure reported after that is \<open>outcome_unknown\<close>, unless the host itself reported it.
\<close>

definition write_core :: "host_effect list \<Rightarrow> nat \<Rightarrow> outgoing_state \<Rightarrow> bool" where
  "write_core es i w \<longleftrightarrow>
     uploaded i es = og_hash w \<and> in_order i es \<and> og_commitDispatched w = ended i es \<and>
     (\<forall>p. og_committed w = Some (Inr p) \<longrightarrow> og_commitDispatched w)"

definition write_at :: "host_effect list \<Rightarrow> nat \<Rightarrow> outgoing_state \<Rightarrow> bool" where
  "write_at es i w =
     (case og_wait w of
        Reading \<Rightarrow> og_sent w = int (length (og_hash w)) \<and> og_sequence w = int (length (chunks_of i es)) \<and> \<not> og_commitDispatched w
      | Sending _ \<Rightarrow> og_sent w = int (length (og_hash w)) \<and> og_sequence w + 1 = int (length (chunks_of i es)) \<and> \<not> og_commitDispatched w
      | Ending \<Rightarrow> og_commitDispatched w
      | Committing \<Rightarrow> og_commitDispatched w
      | Finished \<Rightarrow> True)"

definition result_ok :: "outgoing_state \<Rightarrow> string checked \<Rightarrow> bool" where
  "result_ok w r =
     (case r of
        Inr path \<Rightarrow> og_committed w = Some (Inr path)
      | Inl code \<Rightarrow> code = ''outcome_unknown'' \<or> \<not> og_commitDispatched w \<or> og_definitiveFailure w)"

definition write_ok :: "host_effect list \<Rightarrow> nat \<Rightarrow> outgoing_state \<Rightarrow> bool" where
  "write_ok es i w \<longleftrightarrow> write_core es i w \<and> write_at es i w \<and>
     (\<forall>r. Wrote i r \<in> set es \<longrightarrow> og_wait w = Finished \<and> result_ok w r)"

definition uploads_ok :: "(bytes \<Rightarrow> bytes) \<Rightarrow> host_streams \<Rightarrow> bool" where
  "uploads_ok digest s \<longleftrightarrow>
     (\<forall>i < length (hs_writes s). write_ok (hs_log s) i (hs_writes s ! i)) \<and>
     (\<forall>i \<ge> length (hs_writes s). \<forall>e\<in>set (hs_log s). foreign i e) \<and>
     (\<forall>i \<in> snd ` set (hs_outgoing s). i < length (hs_writes s)) \<and>
     ends_ok digest (hs_log s)"

lemma uploads_start: "uploads_ok digest new_host_streams"
  by (simp add: uploads_ok_def new_host_streams_def)

lemma write_ok_foreign:
  assumes "foreign i e" shows "write_ok (es @ [e]) i w = write_ok es i w"
proof -
  have "chunks_of i [e] = []" "\<not> ended i [e]" "Wrote i r \<notin> set [e]" for r
    using assms all_foreign_chunks [of "[e]" i] all_foreign_ended [of "[e]" i] all_foreign_wrote [of "[e]" i] by auto
  then show ?thesis
    unfolding write_ok_def write_core_def write_at_def uploaded_def in_order_def
    by (auto simp: ended_append split: write_wait.split)
qed

lemma write_core_wait [simp]:
  "write_core es i (w\<lparr>og_wait := p\<rparr>) = write_core es i w" "write_core es i (w\<lparr>og_sent := n\<rparr>) = write_core es i w"
  "write_core es i (w\<lparr>og_sequence := k\<rparr>) = write_core es i w"
  by (simp_all add: write_core_def)

lemma write_core_same:
  "chunks_of i es = chunks_of i es' \<Longrightarrow> ended i es = ended i es' \<Longrightarrow> write_core es i w = write_core es' i w"
  by (simp add: write_core_def uploaded_def in_order_def)

lemma write_core_foreign: "foreign i e \<Longrightarrow> write_core (es @ [e]) i w = write_core es i w"
  by (rule write_core_same) (auto simp: foreign_chunks)

lemma write_core_foreigns: "\<forall>e\<in>set es'. foreign i e \<Longrightarrow> write_core (es @ es') i w = write_core es i w"
  using all_foreign_chunks all_foreign_ended by (intro write_core_same) (auto simp: ended_append)

lemma result_ok_wait [simp]: "result_ok (w\<lparr>og_wait := p\<rparr>) r = result_ok w r"
  by (simp add: result_ok_def split: sum.split)

lemma log_set_write: "log_effect e (set_write i w s) = set_write i w (log_effect e s)"
  by (simp add: log_effect_def set_write_def)

named_theorems keeps_uploads

lemma silent_keeps [keeps_uploads]:
  assumes "uploads_ok digest s" "\<And>i. foreign i e" shows "uploads_ok digest (log_effect e s)"
proof -
  have "e \<noteq> SendEnd i sid n sha" for i sid n sha using assms(2) [of i] by auto
  then have "ends_ok digest (hs_log s @ [e])" using assms(1) by (intro ends_quiet) (simp_all add: uploads_ok_def)
  then show ?thesis using assms by (simp add: uploads_ok_def log_effect_def write_ok_foreign)
qed

lemma incoming_keep [simp]:
  "uploads_ok digest (s\<lparr>hs_incoming := a\<rparr>) = uploads_ok digest s"
  "uploads_ok digest (s\<lparr>hs_tombstones := b\<rparr>) = uploads_ok digest s"
  by (simp_all add: uploads_ok_def)

lemma drop_keeps [keeps_uploads]: "uploads_ok digest s \<Longrightarrow> uploads_ok digest (drop_outgoing sid s)"
  by (auto simp: uploads_ok_def drop_outgoing_def AList.delete_eq)

lemma write_okD: "uploads_ok digest s \<Longrightarrow> i < length (hs_writes s) \<Longrightarrow> write_ok (hs_log s) i (hs_writes s ! i)"
  by (simp add: uploads_ok_def)

text \<open>An upload that moves on, with or without an effect of its own.\<close>

lemma set_write_keeps:
  assumes "uploads_ok digest s" "i < length (hs_writes s)" "write_ok (hs_log s) i w"
  shows "uploads_ok digest (set_write i w s)"
  using assms by (auto simp: uploads_ok_def set_write_def nth_list_update)

lemma own_effect_keeps:
  assumes ok: "uploads_ok digest s" and i: "i < length (hs_writes s)"
    and own: "\<And>k. k \<noteq> i \<Longrightarrow> foreign k e" and w: "write_ok (hs_log s @ [e]) i w" and ends: "ends_ok digest (hs_log s @ [e])"
  shows "uploads_ok digest (set_write i w (log_effect e s))"
  unfolding uploads_ok_def
proof (intro conjI allI impI ballI)
  fix k assume "k < length (hs_writes (set_write i w (log_effect e s)))"
  then show "write_ok (hs_log (set_write i w (log_effect e s))) k (hs_writes (set_write i w (log_effect e s)) ! k)"
    using ok own w by (cases "k = i") (simp_all add: uploads_ok_def set_write_def log_effect_def write_ok_foreign)
next
  fix k e' assume "k \<ge> length (hs_writes (set_write i w (log_effect e s)))" "e' \<in> set (hs_log (set_write i w (log_effect e s)))"
  then show "foreign k e'"
    using ok own i by (auto simp: uploads_ok_def set_write_def log_effect_def)
qed (use ok ends in \<open>auto simp: uploads_ok_def set_write_def log_effect_def\<close>)

lemma waiting_silent: "write_ok es i w \<Longrightarrow> og_wait w \<noteq> Finished \<Longrightarrow> Wrote i r \<notin> set es"
  by (auto simp: write_ok_def)

lemma log_simps [simp]:
  "hs_writes (log_effect e s) = hs_writes s" "hs_outgoing (log_effect e s) = hs_outgoing s"
  "hs_log (log_effect e s) = hs_log s @ [e]" "hs_writes (drop_outgoing sid s) = hs_writes s"
  "hs_log (drop_outgoing sid s) = hs_log s" "length (hs_writes (set_write i w s)) = length (hs_writes s)"
  by (simp_all add: log_effect_def drop_outgoing_def set_write_def)

subsection \<open>Every event keeps it\<close>

lemma finish_write_uploads:
  assumes ok: "uploads_ok digest s" and i: "i < length (hs_writes s)" and core: "write_core (hs_log s) i w"
    and fresh: "\<And>r. Wrote i r \<notin> set (hs_log s)" and r: "result_ok w r"
  shows "uploads_ok digest (set_write i (w\<lparr>og_wait := Finished\<rparr>) (log_effect (Wrote i r) s))"
proof -
  let ?es = "hs_log s @ [Wrote i r]"
  have "write_core ?es i w" using core by (subst write_core_same [where es' = "hs_log s"]) (simp_all add: chunks_in_def)
  then have "write_ok ?es i (w\<lparr>og_wait := Finished\<rparr>)"
    using fresh r by (auto simp: write_ok_def write_at_def)
  moreover have "ends_ok digest ?es" using ok by (intro ends_quiet) (simp_all add: uploads_ok_def)
  ultimately show ?thesis by (intro own_effect_keeps [OF ok i]) simp_all
qed

lemma fail_write_uploads:
  assumes ok: "uploads_ok digest s" and i: "i < length (hs_writes s)" and core: "write_core (hs_log s) i w"
    and fresh: "\<And>r. Wrote i r \<notin> set (hs_log s)"
  shows "uploads_ok digest (fail_write i w code s)"
proof -
  define s1 where "s1 = (if map_of (hs_outgoing s) (og_streamId w) = Some i
    then log_effect Settled (log_effect (SendCancel (og_streamId w)) (drop_outgoing (og_streamId w) s)) else s)"
  have ok1: "uploads_ok digest s1" using ok by (simp add: s1_def keeps_uploads)
  have core1: "write_core (hs_log s1) i w" using core by (simp add: s1_def write_core_foreigns)
  have rest: "length (hs_writes s1) = length (hs_writes s)" "Wrote i r \<notin> set (hs_log s1)" for r
    using fresh by (simp_all add: s1_def)
  define final where "final = (if og_commitDispatched w \<and> \<not> og_definitiveFailure w then ''outcome_unknown'' else code)"
  have final: "result_ok w (Inl final)" by (simp add: result_ok_def final_def)
  have "uploads_ok digest (set_write i (w\<lparr>og_wait := Finished\<rparr>)
      (log_effect (Wrote i (Inl final)) (log_effect (Progress i phase (og_sent w) (og_length w)) s1)))" for phase
    using ok1 core1 rest i final by (intro finish_write_uploads silent_keeps) (simp_all add: write_core_foreign)
  then show ?thesis by (simp add: fail_write_def Let_def s1_def final_def)
qed

lemma encode_piece: "rest \<noteq> [] \<Longrightarrow> encodeHostChunk (take HOST_STREAM_CHUNK_BYTES rest) = Inr (encodeBridgeBytes (take HOST_STREAM_CHUNK_BYTES rest))"
  by (simp add: encodeHostChunk_def HOST_STREAM_CHUNK_BYTES_def)

lemma chunk_data_encode [simp]: "chunk_data (encodeBridgeBytes bs) = bs"
  by (simp add: chunk_data_def encodeBridge_eq decodeBridge_encode)

lemma send_next_uploads:
  assumes ok: "uploads_ok digest s" and i: "i < length (hs_writes s)" and w: "write_ok (hs_log s) i (w\<lparr>og_wait := Reading\<rparr>)"
  shows "uploads_ok digest (send_next i w rest s)"
proof (cases "rest = []")
  case True
  then show ?thesis using set_write_keeps [OF ok i w] by (simp add: send_next_def)
next
  case False
  let ?piece = "take HOST_STREAM_CHUNK_BYTES rest"
  let ?w1 = "w\<lparr>og_sent := og_sent w + int (length ?piece)\<rparr>"
  have fresh: "Wrote i r \<notin> set (hs_log s)" for r using waiting_silent [OF w] by simp
  have core: "write_core (hs_log s) i w" using w by (simp add: write_ok_def)
  show ?thesis
  proof (cases "og_sent ?w1 > og_length w")
    case True
    have "write_core (hs_log s) i ?w1" using core by simp
    then show ?thesis
      using fail_write_uploads [OF ok i _ fresh] True False by (simp add: send_next_def Let_def)
  next
    case fits: False
    let ?w2 = "?w1\<lparr>og_hash := og_hash w @ ?piece\<rparr>"
    let ?w3 = "?w2\<lparr>og_wait := Sending (drop HOST_STREAM_CHUNK_BYTES rest)\<rparr>"
    let ?e = "SendChunk i (og_streamId w) (og_sequence w) (encodeBridgeBytes ?piece)"
    have at: "og_sent w = int (length (og_hash w))" "og_sequence w = int (length (chunks_of i (hs_log s)))" "\<not> og_commitDispatched w"
      using w by (simp_all add: write_ok_def write_at_def)
    have "write_core (hs_log s @ [?e]) i ?w3"
      using core at(2) by (auto simp: write_core_def uploaded_def in_order_def chunks_in_def)
    moreover have "write_at (hs_log s @ [?e]) i ?w3" using at by (simp add: write_at_def chunks_in_def)
    ultimately have "write_ok (hs_log s @ [?e]) i ?w3" using fresh by (simp add: write_ok_def)
    moreover have "ends_ok digest (hs_log s @ [?e])" using ok by (intro ends_quiet) (simp_all add: uploads_ok_def)
    ultimately have "uploads_ok digest (set_write i ?w3 (log_effect ?e s))"
      by (intro own_effect_keeps [OF ok i]) simp_all
    then show ?thesis using False fits by (simp add: send_next_def Let_def encode_piece)
  qed
qed

lemma end_write_uploads:
  assumes ok: "uploads_ok digest s" and i: "i < length (hs_writes s)" and w: "write_ok (hs_log s) i w" "og_wait w = Reading"
  shows "uploads_ok digest (end_write digest i w s)"
proof (cases "og_sent w \<noteq> og_length w \<or> encodeHex (digest (og_hash w)) \<noteq> u (og_sha256 w)")
  case True
  have "write_core (hs_log s) i w" using w by (simp add: write_ok_def)
  moreover have "Wrote i r \<notin> set (hs_log s)" for r using waiting_silent [OF w(1)] w(2) by simp
  ultimately show ?thesis
    using fail_write_uploads [OF ok i] True by (auto simp: end_write_def)
next
  case False
  define s1 where "s1 = log_effect (Progress i Finalizing (og_sent w) (og_length w)) s"
  let ?e = "SendEnd i (og_streamId w) (og_length w) (og_sha256 w)"
  let ?p = "Progress i OutcomeUnknown (og_sent w) (og_length w)"
  let ?w = "w\<lparr>og_commitDispatched := True, og_wait := Ending\<rparr>"
  have ok1: "uploads_ok digest s1" unfolding s1_def by (rule silent_keeps [OF ok]) simp
  have w1: "write_ok (hs_log s1) i w" using w(1) by (simp add: s1_def write_ok_foreign)
  have at: "og_sent w = int (length (og_hash w))" "\<not> og_commitDispatched w" using w by (simp_all add: write_ok_def write_at_def)
  have core: "write_core (hs_log s1) i w" using w1 by (simp add: write_ok_def)
  have "write_core (hs_log s1 @ [?e]) i ?w"
    using core by (auto simp: write_core_def uploaded_def in_order_def chunks_in_def)
  moreover have "Wrote i r \<notin> set (hs_log s1 @ [?e])" for r using waiting_silent [OF w1] w(2) by simp
  ultimately have new: "write_ok (hs_log s1 @ [?e]) i ?w" by (simp add: write_ok_def write_at_def)
  have "ends_ok digest (hs_log s1 @ [?e])"
  proof (rule ends_snoc)
    show "ends_ok digest (hs_log s1)" using ok1 by (simp add: uploads_ok_def)
  qed (use core False at in \<open>auto simp: write_core_def\<close>)
  then have "uploads_ok digest (set_write i ?w (log_effect ?e s1))"
    using i new by (intro own_effect_keeps [OF ok1]) (simp_all add: s1_def)
  then have "uploads_ok digest (log_effect ?p (set_write i ?w (log_effect ?e s1)))" by (rule silent_keeps) simp
  then show ?thesis
    using False by (simp add: end_write_def log_set_write s1_def)
qed

lemma sent_write_uploads:
  assumes ok: "uploads_ok digest s" and i: "i < length (hs_writes s)" and w: "write_ok (hs_log s) i w"
  shows "uploads_ok digest (sent_write i w s)"
proof (cases "og_wait w")
  case (Sending rest)
  let ?w = "w\<lparr>og_sequence := og_sequence w + 1\<rparr>"
  let ?e = "Progress i Streaming (og_sent w) (og_length w)"
  have "write_ok (hs_log s) i (?w\<lparr>og_wait := Reading\<rparr>)"
    using w Sending waiting_silent [OF w] by (simp add: write_ok_def write_at_def)
  then have "write_ok (hs_log (log_effect ?e s)) i (?w\<lparr>og_wait := Reading\<rparr>)" by (simp add: write_ok_foreign)
  then have "uploads_ok digest (send_next i ?w rest (log_effect ?e s))"
    using i by (intro send_next_uploads silent_keeps [OF ok]) simp_all
  then show ?thesis using Sending by (simp add: sent_write_def Let_def)
next
  case Ending
  have "write_ok (hs_log s) i (w\<lparr>og_wait := Committing\<rparr>)"
    using w Ending waiting_silent [OF w] by (simp add: write_ok_def write_at_def)
  then show ?thesis using Ending set_write_keeps [OF ok i] by (simp add: sent_write_def)
qed (use ok in \<open>simp_all add: sent_write_def\<close>)

lemma commit_write_uploads:
  assumes ok: "uploads_ok digest s" and i: "i < length (hs_writes s)" and w: "write_ok (hs_log s) i w" "og_wait w = Committing"
  shows "uploads_ok digest (commit_write i w s)"
proof -
  have core: "write_core (hs_log s) i w" using w(1) by (simp add: write_ok_def)
  have fresh: "Wrote i r \<notin> set (hs_log s)" for r using waiting_silent [OF w(1)] w(2) by simp
  have "uploads_ok digest (set_write i (w\<lparr>og_wait := Finished\<rparr>)
      (log_effect (Wrote i (Inr path)) (log_effect (Progress i Complete (og_sent w) (og_length w)) s)))"
    if "og_committed w = Some (Inr path)" for path
    using core fresh i that
    by (intro finish_write_uploads silent_keeps [OF ok]) (simp_all add: write_core_foreign result_ok_def)
  then show ?thesis
    using ok fail_write_uploads [OF ok i core fresh] by (auto simp: commit_write_def split: option.split sum.split)
qed

lemma reject_ok: "write_ok es i w \<Longrightarrow> write_ok es i (reject_write code w)"
  unfolding write_ok_def write_core_def write_at_def result_ok_def reject_write_def
  by (auto split: option.splits sum.splits write_wait.splits)

lemma definitive_ok: "write_ok es i w \<Longrightarrow> write_ok es i (w\<lparr>og_definitiveFailure := True\<rparr>)"
  unfolding write_ok_def write_core_def write_at_def result_ok_def
  by (auto split: sum.splits write_wait.splits)

lemma resolve_ok: "write_ok es i w \<Longrightarrow> og_commitDispatched w \<Longrightarrow> write_ok es i (resolve_write path w)"
  unfolding write_ok_def write_core_def write_at_def result_ok_def resolve_write_def
  by (auto split: option.splits sum.splits write_wait.splits)

lemma write_step_uploads [keeps_uploads]:
  assumes ok: "uploads_ok digest s" shows "uploads_ok digest (write_step digest i e s)"
proof (cases "i < length (hs_writes s)")
  case i: True
  define w where "w = hs_writes s ! i"
  have w: "write_ok (hs_log s) i w" using write_okD [OF ok i] by (simp add: w_def)
  have core: "write_core (hs_log s) i w" using w by (simp add: write_ok_def)
  have fail: "uploads_ok digest (fail_write i w code s)" if "og_wait w \<noteq> Finished" for code
    using fail_write_uploads [OF ok i core] waiting_silent [OF w that] by blast
  have source: "uploads_ok digest (send_next i w bs s)" if "og_wait w = Reading" for bs
  proof -
    have "w\<lparr>og_wait := Reading\<rparr> = w" using that by simp
    then show ?thesis using send_next_uploads [OF ok i] w by metis
  qed
  have reject: "uploads_ok digest (set_write i (reject_write code w) s')"
    if "uploads_ok digest s'" "hs_writes s' = hs_writes s" "write_ok (hs_log s') i w" for code s'
    using set_write_keeps that i reject_ok by metis
  have timeout: "uploads_ok digest (timeout_write i w s)"
    using ok w by (auto simp: timeout_write_def Let_def write_ok_foreign [of i "Settled" "hs_log s"]
        write_ok_foreign [of i _ "hs_log s @ [Settled]", simplified] intro!: reject silent_keeps drop_keeps)
  show ?thesis
    using i ok fail source timeout sent_write_uploads [OF ok i w] end_write_uploads [OF ok i w]
      commit_write_uploads [OF ok i w] reject [OF ok refl w]
    by (cases e) (auto simp: write_step_def Let_def w_def [symmetric] at_port_def racing_def
        split: option.split write_wait.splits)
qed (use ok in \<open>simp add: write_step_def\<close>)

lemma update_values: "e \<in> set (AList.update k v xs) \<Longrightarrow> e = (k, v) \<or> e \<in> set xs"
  by (induction xs) (auto split: if_splits)

lemma begin_write_uploads [keeps_uploads]:
  assumes ok: "uploads_ok digest s" shows "uploads_ok digest (begin_write sid len sha s)"
proof (cases "map_of (hs_outgoing s) sid")
  case None
  define i where "i = length (hs_writes s)"
  have f: "\<forall>e\<in>set (hs_log s). foreign i e" using ok by (simp add: uploads_ok_def i_def)
  have "write_ok (hs_log s) i \<lparr>og_streamId = sid, og_length = len, og_sha256 = sha, og_hash = [], og_sent = 0,
      og_sequence = 0, og_wait = Reading, og_failure = None, og_committed = None, og_commitDispatched = False,
      og_definitiveFailure = False\<rparr>"
    using all_foreign_chunks [OF f] all_foreign_ended [OF f] all_foreign_wrote [OF f]
    by (simp add: write_ok_def write_core_def write_at_def uploaded_def in_order_def)
  then show ?thesis
    using ok None unfolding begin_write_def Let_def uploads_ok_def i_def
    by (auto simp: nth_append less_Suc_eq dest!: update_values)
qed (use ok in \<open>simp add: begin_write_def keeps_uploads\<close>)

lemma handle_outgoing_uploads [keeps_uploads]:
  assumes ok: "uploads_ok digest s" and i: "i < length (hs_writes s)"
  shows "uploads_ok digest (handle_outgoing i frame s)"
proof -
  define s1 where "s1 = log_effect Settled (drop_outgoing (frame_stream frame) s)"
  define w where "w = hs_writes s ! i"
  have ok1: "uploads_ok digest s1" using ok by (simp add: s1_def keeps_uploads)
  have i1: "i < length (hs_writes s1)" using i by (simp add: s1_def)
  have w: "write_ok (hs_log s1) i w" using write_okD [OF ok i] by (simp add: s1_def w_def write_ok_foreign)
  have "uploads_ok digest (set_write i (resolve_write path w) s1)" if "og_commitDispatched w" for path
    using set_write_keeps [OF ok1 i1] resolve_ok [OF w that] by blast
  moreover have "uploads_ok digest (set_write i (reject_write code (w\<lparr>og_definitiveFailure := True\<rparr>)) s1)" for code
    using set_write_keeps [OF ok1 i1] reject_ok [OF definitive_ok [OF w]] by blast
  ultimately show ?thesis
    using ok ok1 by (auto simp: handle_outgoing_def Let_def s1_def [symmetric] w_def [symmetric] keeps_uploads
        split: stream_frame.split)
qed

subsection \<open>Downloads do not touch uploads\<close>

lemma finish_uploads [keeps_uploads]: "uploads_ok digest s \<Longrightarrow> uploads_ok digest (finishIncoming sid s)"
  by (simp add: finishIncoming_def keeps_uploads)

lemma error_uploads [keeps_uploads]: "uploads_ok digest s \<Longrightarrow> uploads_ok digest (controller_error c sid code s)"
  by (simp add: controller_error_def keeps_uploads)

lemma set_incoming_uploads [keeps_uploads]: "uploads_ok digest s \<Longrightarrow> uploads_ok digest (set_incoming sid c s)"
  by (simp add: set_incoming_def)

lemma prune_uploads [keeps_uploads]: "uploads_ok digest s \<Longrightarrow> uploads_ok digest (pruneTombstones now s)"
  by (simp add: pruneTombstones_def)

lemma cancel_uploads [keeps_uploads]: "uploads_ok digest s \<Longrightarrow> uploads_ok digest (cancelIncoming now sid s)"
  by (simp add: cancelIncoming_def Let_def keeps_uploads split: option.split)

lemma fail_incoming_uploads [keeps_uploads]: "uploads_ok digest s \<Longrightarrow> uploads_ok digest (fail_incoming code now sid s)"
  by (simp add: fail_incoming_def keeps_uploads split: option.split)

lemma begin_uploads [keeps_uploads]: "uploads_ok digest s \<Longrightarrow> uploads_ok digest (beginIncoming now d aborted s)"
  by (simp add: beginIncoming_def Let_def keeps_uploads)

lemma reads_uploads [keeps_uploads]:
  "uploads_ok digest s \<Longrightarrow> uploads_ok digest (pull sid s)"
  "uploads_ok digest s \<Longrightarrow> uploads_ok digest (pull_rejected code sid s)"
  "uploads_ok digest s \<Longrightarrow> uploads_ok digest (cancel_read own now sid s)"
  by (simp_all add: pull_def pull_rejected_def cancel_read_def Let_def keeps_uploads split: option.split)

lemma tombstone_uploads: "uploads_ok digest s \<Longrightarrow> uploads_ok digest (snd (acceptTombstone digest now frame s))"
  by (cases frame) (auto simp: acceptTombstone_def Let_def keeps_uploads split: option.split)

lemma handle_incoming_uploads [keeps_uploads]:
  assumes "uploads_ok digest s" shows "uploads_ok digest (handle_incoming digest now frame s)"
proof (cases "map_of (hs_incoming s) (frame_stream frame)")
  case None
  then show ?thesis
    using tombstone_uploads [OF assms, of now frame]
    by (auto simp: handle_incoming_def keeps_uploads split: prod.split bool.split)
next
  case (Some c)
  then show ?thesis
    using assms by (cases frame) (auto simp: handle_incoming_def incoming_chunk_def incoming_end_def Let_def keeps_uploads)
qed

lemma handle_uploads [keeps_uploads]:
  assumes "uploads_ok digest s" shows "uploads_ok digest (handle_streams digest now v s)"
proof -
  have "i < length (hs_writes s)" if "map_of (hs_outgoing s) sid = Some i" for sid i
    using assms map_of_SomeD [OF that] by (force simp: uploads_ok_def)
  then show ?thesis using assms by (auto simp: handle_streams_def keeps_uploads split: sum.split option.split)
qed

lemma close_outgoing_uploads:
  assumes "uploads_ok digest s" "snd e < length (hs_writes s)"
  shows "uploads_ok digest (close_outgoing code e s)" "length (hs_writes (close_outgoing code e s)) = length (hs_writes s)"
proof -
  have "uploads_ok digest (set_write (snd e) (reject_write c (hs_writes s ! snd e)) (drop_outgoing (fst e) s))" for c
    using assms by (intro set_write_keeps drop_keeps reject_ok) (simp_all add: write_okD)
  then show "uploads_ok digest (close_outgoing code e s)" by (simp add: close_outgoing_def Let_def)
qed (simp add: close_outgoing_def Let_def)

lemma fold_close_uploads:
  "uploads_ok digest s \<Longrightarrow> \<forall>e\<in>set es. snd e < length (hs_writes s) \<Longrightarrow> uploads_ok digest (fold (close_outgoing code) es s)"
  by (induction es arbitrary: s) (simp_all add: close_outgoing_uploads)

lemma close_uploads [keeps_uploads]:
  assumes "uploads_ok digest s" shows "uploads_ok digest (close_streams code s)"
proof -
  define s1 where "s1 = fold (close_incoming code) (hs_incoming s) s"
  have ok1: "uploads_ok digest s1"
    unfolding s1_def using assms by (rule fold_keeps [rotated]) (simp add: close_incoming_def keeps_uploads)
  then have "\<forall>e\<in>set (hs_outgoing s1). snd e < length (hs_writes s1)" by (simp add: uploads_ok_def)
  then show ?thesis
    using fold_close_uploads [of digest "s1\<lparr>hs_tombstones := []\<rparr>"] ok1 by (simp add: close_streams_def Let_def s1_def)
qed

lemma step_keeps_uploads: "uploads_ok digest s \<Longrightarrow> uploads_ok digest (host_step digest e s)"
  by (cases e) (simp_all add: keeps_uploads)

interpretation uploads: host_invariant digest "uploads_ok digest" for digest
  by unfold_locales (simp_all add: uploads_start step_keeps_uploads)

subsection \<open>What the host said\<close>

text \<open>
  A commit or a refusal is only ever recorded for a call when a frame of the host that says so arrives while the call's
  stream is open. Nothing else records one: \<open>calm\<close> are the changes of a call that record none, \<open>quiet\<close> those of the
  whole state, which open streams for new calls only and send ends under the calls' own streams.
\<close>

definition calm :: "outgoing_state \<Rightarrow> outgoing_state \<Rightarrow> bool" where
  "calm w w' \<longleftrightarrow>
     og_streamId w' = og_streamId w \<and> (\<forall>p. og_committed w' = Some (Inr p) \<longrightarrow> og_committed w = Some (Inr p)) \<and>
     (og_definitiveFailure w' \<longrightarrow> og_definitiveFailure w)"

definition quiet :: "host_streams \<Rightarrow> host_streams \<Rightarrow> bool" where
  "quiet s t \<longleftrightarrow>
     length (hs_writes t) = length (hs_writes s) \<and> (\<forall>i < length (hs_writes s). calm (hs_writes s ! i) (hs_writes t ! i)) \<and>
     set (hs_outgoing t) \<subseteq> set (hs_outgoing s) \<and>
     (\<forall>i sid n sha. SendEnd i sid n sha \<in> set (hs_log t) \<longrightarrow>
        SendEnd i sid n sha \<in> set (hs_log s) \<or> i < length (hs_writes s) \<and> sid = og_streamId (hs_writes s ! i))"

lemma calm_simps [simp]:
  "calm w w" "calm v w \<Longrightarrow> calm v (reject_write code w)" "calm v (w\<lparr>og_wait := p\<rparr>) = calm v w"
  "calm v (w\<lparr>og_sent := n\<rparr>) = calm v w" "calm v (w\<lparr>og_hash := bs\<rparr>) = calm v w"
  "calm v (w\<lparr>og_sequence := k\<rparr>) = calm v w" "calm v (w\<lparr>og_commitDispatched := d\<rparr>) = calm v w"
  by (auto simp: calm_def reject_write_def split: option.splits)

named_theorems quietly

lemma quiet_refl [quietly]: "quiet s s"
  by (simp add: quiet_def)

lemma quiet_log [quietly]: "quiet s t \<Longrightarrow> (\<And>i sid n sha. e \<noteq> SendEnd i sid n sha) \<Longrightarrow> quiet s (log_effect e t)"
  by (auto simp: quiet_def)

lemma quiet_send_end:
  "quiet s t \<Longrightarrow> i < length (hs_writes s) \<Longrightarrow> quiet s (log_effect (SendEnd i (og_streamId (hs_writes s ! i)) n sha) t)"
  by (auto simp: quiet_def)

lemma quiet_drop [quietly]: "quiet s t \<Longrightarrow> quiet s (drop_outgoing sid t)"
  by (auto simp: quiet_def drop_outgoing_def AList.delete_eq)

lemma quiet_incoming [simp]:
  "quiet s (t\<lparr>hs_incoming := a\<rparr>) = quiet s t" "quiet s (t\<lparr>hs_tombstones := b\<rparr>) = quiet s t"
  by (simp_all add: quiet_def)

lemma quiet_set_write [quietly]:
  "quiet s t \<Longrightarrow> (i < length (hs_writes s) \<Longrightarrow> calm (hs_writes s ! i) w) \<Longrightarrow> quiet s (set_write i w t)"
  by (cases "i < length (hs_writes t)") (auto simp: quiet_def set_write_def nth_list_update)

lemma quiet_downloads [quietly]:
  assumes "quiet s t"
  shows "quiet s (finishIncoming sid t)" "quiet s (controller_error c sid code t)" "quiet s (set_incoming sid c t)"
    "quiet s (pruneTombstones now t)"
  using assms
  by (auto simp: finishIncoming_def controller_error_def set_incoming_def pruneTombstones_def intro!: quietly)

lemma quiet_cancel [quietly]: "quiet s t \<Longrightarrow> quiet s (cancelIncoming now sid t)"
  by (auto simp: cancelIncoming_def Let_def intro!: quietly split: option.split)

lemma quiet_fail_incoming [quietly]: "quiet s t \<Longrightarrow> quiet s (fail_incoming code now sid t)"
  by (auto simp: fail_incoming_def intro!: quietly split: option.split)

lemma quiet_reads [quietly]:
  assumes "quiet s t"
  shows "quiet s (beginIncoming now d aborted t)" "quiet s (pull sid t)" "quiet s (pull_rejected code sid t)"
    "quiet s (cancel_read own now sid t)"
  using assms
  by (auto simp: beginIncoming_def pull_def pull_rejected_def cancel_read_def Let_def intro!: quietly split: option.split)

lemma quiet_tombstone: "quiet s t \<Longrightarrow> quiet s (snd (acceptTombstone digest now frame t))"
  by (cases frame) (auto simp: acceptTombstone_def Let_def intro!: quietly split: option.split)

lemma quiet_handle_incoming [quietly]:
  assumes "quiet s t" shows "quiet s (handle_incoming digest now frame t)"
proof (cases "map_of (hs_incoming t) (frame_stream frame)")
  case None
  then show ?thesis
    using quiet_tombstone [OF assms, of digest now frame]
    by (auto simp: handle_incoming_def intro!: quietly split: prod.split bool.split)
next
  case (Some c)
  then show ?thesis
    using assms by (cases frame) (auto simp: handle_incoming_def incoming_chunk_def incoming_end_def Let_def intro!: quietly)
qed

lemma quiet_fail_write [quietly]:
  "quiet s t \<Longrightarrow> (i < length (hs_writes s) \<Longrightarrow> calm (hs_writes s ! i) w) \<Longrightarrow> quiet s (fail_write i w code t)"
  by (auto simp: fail_write_def Let_def intro!: quietly)

lemma quiet_send_next [quietly]:
  "quiet s t \<Longrightarrow> (i < length (hs_writes s) \<Longrightarrow> calm (hs_writes s ! i) w) \<Longrightarrow> quiet s (send_next i w rest t)"
  by (auto simp: send_next_def Let_def intro!: quietly split: sum.split)

lemma quiet_write_step [quietly]: "quiet s (write_step digest i e s)"
proof (cases "i < length (hs_writes s)")
  case True
  have "quiet s (end_write digest i (hs_writes s ! i) s)"
    using True by (auto simp: end_write_def Let_def intro!: quietly quiet_send_end)
  moreover have "quiet s (sent_write i (hs_writes s ! i) s)" "quiet s (commit_write i (hs_writes s ! i) s)"
    "quiet s (timeout_write i (hs_writes s ! i) s)"
    by (auto simp: sent_write_def commit_write_def timeout_write_def Let_def intro!: quietly
        split: write_wait.split option.split sum.split)
  ultimately show ?thesis
    by (cases e) (auto simp: write_step_def Let_def intro!: quietly split: option.split)
qed (simp add: write_step_def quietly)

lemma quiet_close_outgoing: "quiet s t \<Longrightarrow> quiet s (close_outgoing code e t)"
  unfolding close_outgoing_def Let_def by (intro quietly) (simp_all add: quiet_def)

lemma quiet_close [quietly]: "quiet s (close_streams code s)"
proof -
  have "quiet s (fold (close_incoming code) es t)" if "quiet s t" for es t
    using that by (rule fold_keeps [rotated]) (simp add: close_incoming_def quietly)
  moreover have "quiet s (fold (close_outgoing code) es t)" if "quiet s t" for es t
    using that by (rule fold_keeps [rotated]) (rule quiet_close_outgoing)
  ultimately show ?thesis by (simp add: close_streams_def Let_def quiet_refl)
qed

text \<open>A frame of the host that arrived while a call had its stream open.\<close>

definition heard :: "(bytes \<Rightarrow> bytes) \<Rightarrow> host_event list \<Rightarrow> nat \<Rightarrow> stream_frame \<Rightarrow> bool" where
  "heard digest es i frame \<longleftrightarrow>
     (\<exists>es1 now v es2. es = es1 @ Receive now v # es2 \<and> parseHostStreamFrame v = Inr frame \<and>
        map_of (hs_outgoing (host_run digest es1)) (frame_stream frame) = Some i \<and>
        (\<forall>sid path. frame = CommittedFrame sid path \<longrightarrow> ended i (hs_log (host_run digest es1))))"

definition told :: "(bytes \<Rightarrow> bytes) \<Rightarrow> host_event list \<Rightarrow> nat \<Rightarrow> outgoing_state \<Rightarrow> bool" where
  "told digest es i w \<longleftrightarrow>
     (\<forall>p. og_committed w = Some (Inr p) \<longrightarrow> heard digest es i (CommittedFrame (og_streamId w) p)) \<and>
     (og_definitiveFailure w \<longrightarrow> (\<exists>c d. heard digest es i (ErrorFrame (og_streamId w) c d)))"

definition hears :: "(bytes \<Rightarrow> bytes) \<Rightarrow> host_event list \<Rightarrow> host_streams \<Rightarrow> bool" where
  "hears digest es s \<longleftrightarrow>
     (\<forall>i < length (hs_writes s). told digest es i (hs_writes s ! i)) \<and>
     (\<forall>(sid, i) \<in> set (hs_outgoing s). i < length (hs_writes s) \<and> og_streamId (hs_writes s ! i) = sid) \<and>
     (\<forall>i sid n sha. SendEnd i sid n sha \<in> set (hs_log s) \<longrightarrow> i < length (hs_writes s) \<and> sid = og_streamId (hs_writes s ! i))"

lemma heard_later: "heard digest es i frame \<Longrightarrow> heard digest (es @ [e]) i frame"
  unfolding heard_def by (metis append_Cons append_assoc)

lemma told_later: "told digest es i w \<Longrightarrow> told digest (es @ [e]) i w"
  unfolding told_def using heard_later by blast

lemma told_calm: "told digest es i w \<Longrightarrow> calm w w' \<Longrightarrow> told digest es i w'"
  by (simp add: told_def calm_def)

lemma hears_quiet:
  assumes "hears digest es s" "quiet s t"
  shows "hears digest (es @ [e]) t"
proof -
  have len: "length (hs_writes t) = length (hs_writes s)" using assms(2) by (simp add: quiet_def)
  have calm: "calm (hs_writes s ! i) (hs_writes t ! i)" if "i < length (hs_writes s)" for i
    using assms(2) that by (simp add: quiet_def)
  have "told digest (es @ [e]) i (hs_writes t ! i)" if "i < length (hs_writes s)" for i
    using assms(1) that calm [OF that] by (auto simp: hears_def intro: told_calm told_later)
  moreover have same: "og_streamId (hs_writes t ! i) = og_streamId (hs_writes s ! i)" if "i < length (hs_writes s)" for i
    using calm [OF that] by (simp add: calm_def)
  have "i < length (hs_writes s) \<and> og_streamId (hs_writes t ! i) = sid" if "(sid, i) \<in> set (hs_outgoing t)" for sid i
  proof -
    have "(sid, i) \<in> set (hs_outgoing s)" using assms(2) that by (auto simp: quiet_def)
    then show ?thesis using assms(1) same [of i] by (auto simp: hears_def)
  qed
  moreover have "i < length (hs_writes s) \<and> sid = og_streamId (hs_writes t ! i)" if "SendEnd i sid n sha \<in> set (hs_log t)" for i sid n sha
  proof -
    have "SendEnd i sid n sha \<in> set (hs_log s) \<or> i < length (hs_writes s) \<and> sid = og_streamId (hs_writes s ! i)"
      using assms(2) that by (simp add: quiet_def)
    moreover have "i < length (hs_writes s) \<and> sid = og_streamId (hs_writes s ! i)" if "SendEnd i sid n sha \<in> set (hs_log s)"
      using assms(1) that unfolding hears_def by blast
    ultimately show ?thesis using same [of i] by auto
  qed
  ultimately show ?thesis unfolding hears_def len by blast
qed

lemma hears_set_write:
  assumes "hears digest es t" "told digest es i w" "og_streamId w = og_streamId (hs_writes t ! i)"
  shows "hears digest es (set_write i w t)"
  using assms by (cases "i < length (hs_writes t)") (fastforce simp: hears_def set_write_def nth_list_update)+

lemma hears_begin:
  assumes "hears digest es s"
  shows "hears digest (es @ [e]) (begin_write sid len sha s)"
proof (cases "map_of (hs_outgoing s) sid")
  case None
  have "told digest (es @ [e]) i (hs_writes s ! i)" if "i < length (hs_writes s)" for i
    using assms that by (simp add: hears_def told_later)
  then show ?thesis
    using assms None unfolding begin_write_def Let_def hears_def
    by (fastforce simp: nth_append less_Suc_eq told_def dest!: update_values)
qed (use assms in \<open>auto simp: begin_write_def intro!: hears_quiet quietly\<close>)

text \<open>The one place where an answer is recorded.\<close>

lemma hears_outgoing:
  assumes "hears digest es (host_run digest es)" "parseHostStreamFrame v = Inr frame"
    and "map_of (hs_outgoing (host_run digest es)) (frame_stream frame) = Some i"
  shows "hears digest (es @ [Receive now v]) (handle_outgoing i frame (host_run digest es))"
proof -
  let ?s = "host_run digest es" and ?es = "es @ [Receive now v]"
  let ?w = "hs_writes ?s ! i" and ?s1 = "log_effect Settled (drop_outgoing (frame_stream frame) ?s)"
  have i: "i < length (hs_writes ?s)" "og_streamId ?w = frame_stream frame"
    using assms(1) map_of_SomeD [OF assms(3)] by (auto simp: hears_def)
  have end_sent: "og_commitDispatched ?w = ended i (hs_log ?s)"
    using write_okD [OF uploads.always i(1)] by (simp add: write_ok_def write_core_def)
  have h: "heard digest ?es i frame" if "\<And>sid path. frame = CommittedFrame sid path \<Longrightarrow> og_commitDispatched ?w"
    unfolding heard_def using assms(2,3) that end_sent by (intro exI [of _ es] exI [of _ now] exI [of _ v] exI [of _ "[]"]) auto
  have s1: "hears digest ?es ?s1" and s: "hears digest ?es ?s"
    by (rule hears_quiet [OF assms(1)], auto intro!: quietly)+
  have told: "told digest ?es i ?w" using s i(1) by (simp add: hears_def)
  have w1: "hs_writes ?s1 ! i = ?w" by simp
  show ?thesis
  proof (cases frame)
    case (CommittedFrame sid path)
    have "told digest ?es i (resolve_write path ?w)" if "og_commitDispatched ?w"
      using told h that i(2) CommittedFrame by (auto simp: told_def resolve_write_def split: option.splits)
    then have "og_commitDispatched ?w \<Longrightarrow> hears digest ?es (set_write i (resolve_write path ?w) ?s1)"
      using s1 w1 by (intro hears_set_write) (simp_all add: resolve_write_def)
    moreover have "hears digest ?es (log_effect (Fatal ''invalid_commit'') ?s1)"
      by (rule hears_quiet [OF assms(1)], auto intro!: quietly)
    ultimately show ?thesis using CommittedFrame by (simp add: handle_outgoing_def Let_def)
  next
    case (ErrorFrame sid code detail)
    have "told digest ?es i (reject_write code (?w\<lparr>og_definitiveFailure := True\<rparr>))"
      using told h i(2) ErrorFrame by (auto simp: told_def reject_write_def split: option.splits)
    then show ?thesis
      using ErrorFrame s1 w1 by (auto simp: handle_outgoing_def Let_def reject_write_def intro!: hears_set_write)
  qed (use s in \<open>simp_all add: handle_outgoing_def Let_def\<close>)
qed

lemma hears_always: "hears digest es (host_run digest es)"
proof (induction es rule: rev_induct)
  case Nil
  show ?case by (simp add: host_run_def new_host_streams_def hears_def)
next
  case (snoc e es)
  have run: "host_run digest (es @ [e]) = host_step digest e (host_run digest es)" by (simp add: host_run_def)
  show ?case
  proof (cases e)
    case (BeginWrite sid len sha)
    then show ?thesis using hears_begin [OF snoc, of e] run by simp
  next
    case (Receive now v)
    have "hears digest (es @ [e]) (handle_incoming digest now frame (host_run digest es))"
      "hears digest (es @ [e]) (log_effect (Fatal code) (host_run digest es))" for frame code
      by (rule hears_quiet [OF snoc], auto intro!: quietly)+
    then show ?thesis
      using hears_outgoing [OF snoc] run unfolding Receive
      by (auto simp: handle_streams_def split: sum.split option.split)
  qed (use run in \<open>auto intro!: hears_quiet [OF snoc] quietly\<close>)
qed

subsection \<open>What the host and the caller can rely on\<close>

text \<open>
  C18: The host is told that an upload is complete only when it is: before the end of an upload is sent, its chunks were
  sent under the numbers 0, 1, 2 and so on, their bytes are exactly as long as declared and have the declared
  SHA-256, and the end was not sent before.
\<close>

theorem upload_integrity:
  assumes "hs_log (host_run digest es) = pre @ SendEnd i sid n sha # post"
  shows "map fst (chunks_of i pre) = map int [0..<length (chunks_of i pre)] \<and>
    int (length (uploaded i pre)) = n \<and> encodeHex (digest (uploaded i pre)) = u sha \<and> \<not> ended i pre"
  using uploads.always [of digest es] assms unfolding uploads_ok_def ends_ok_def in_order_def by blast

text \<open>
  C17: A caller is never told of a failure that may be a success, nor of a success the host did not report. When a call
  of \<open>write\<close> reports a path, the call had sent the end of its stream, and after that, while the stream was open, a frame
  of the host arrived that commits that stream to that path. When it reports an error other than \<open>outcome_unknown\<close>,
  either the end of its stream was never sent, or a frame of the host arrived that refuses this stream while it was
  open. Aborts, timeouts, a closed channel and a failing port after the end are all reported as unknown, in every
  interleaving.
\<close>

theorem upload_outcome:
  assumes "Wrote i r \<in> set (hs_log (host_run digest es))"
  shows "case r of
      Inr path \<Rightarrow> \<exists>es1 now v es2 sid n sha. es = es1 @ Receive now v # es2 \<and>
        SendEnd i sid n sha \<in> set (hs_log (host_run digest es1)) \<and>
        map_of (hs_outgoing (host_run digest es1)) sid = Some i \<and>
        parseHostStreamFrame v = Inr (CommittedFrame sid path)
    | Inl code \<Rightarrow> code = ''outcome_unknown'' \<or>
        (\<forall>sid n sha. SendEnd i sid n sha \<notin> set (hs_log (host_run digest es))) \<or>
        (\<exists>es1 now v es2 sid reason detail. es = es1 @ Receive now v # es2 \<and>
          map_of (hs_outgoing (host_run digest es1)) sid = Some i \<and>
          parseHostStreamFrame v = Inr (ErrorFrame sid reason detail))"
proof -
  let ?s = "host_run digest es"
  let ?w = "hs_writes ?s ! i"
  have i: "i < length (hs_writes ?s)"
    using uploads.always [of digest es] assms unfolding uploads_ok_def by (metis foreign_simps(13) not_le)
  then have "write_ok (hs_log ?s) i ?w" using uploads.always by (rule write_okD [rotated])
  then have ok: "write_core (hs_log ?s) i ?w" "result_ok ?w r"
    using assms by (auto simp: write_ok_def)
  have told: "told digest es i ?w" using hears_always i by (simp add: hears_def)
  show ?thesis
  proof (cases r)
    case (Inr path)
    then have "heard digest es i (CommittedFrame (og_streamId ?w) path)"
      using ok(2) told by (simp add: result_ok_def told_def)
    then obtain es1 now v es2 n sha sid where h: "es = es1 @ Receive now v # es2"
      "map_of (hs_outgoing (host_run digest es1)) (og_streamId ?w) = Some i"
      "parseHostStreamFrame v = Inr (CommittedFrame (og_streamId ?w) path)"
      "SendEnd i sid n sha \<in> set (hs_log (host_run digest es1))"
      by (auto simp: heard_def ended_def)
    have "sid = og_streamId ?w"
      using hears_always [of digest es1] h(4) map_of_SomeD [OF h(2)] by (fastforce simp: hears_def)
    then show ?thesis using h unfolding Inr sum.case by blast
  next
    case (Inl code)
    consider "code = ''outcome_unknown''" | "\<not> ended i (hs_log ?s)" | "og_definitiveFailure ?w"
      using ok Inl by (auto simp: result_ok_def write_core_def)
    then show ?thesis
    proof cases
      case 3
      then obtain c d where "heard digest es i (ErrorFrame (og_streamId ?w) c d)" using told by (auto simp: told_def)
      then show ?thesis unfolding Inl sum.case heard_def frame_stream.simps by blast
    qed (use Inl in \<open>simp_all add: ended_def\<close>)
  qed
qed

text \<open>One byte uploaded in one chunk and committed.\<close>

definition one_upload :: "host_event list" where
  "one_upload =
     [BeginWrite ''s'' 1 (replicate 64 (CHR ''0'')), WriteEvent 0 (SourceValue [0]), WriteEvent 0 PortSent,
      WriteEvent 0 SourceDone, WriteEvent 0 PortSent,
      Receive 0 (JObj [(''version'', JNum 1), (''stream_id'', JStr ''s''), (''type'', JStr ''stream.committed''),
        (''path'', JStr ''/f'')]),
      WriteEvent 0 CommitSettled]"

lemma one_upload_log:
  "hs_log (host_run zero_digest one_upload) =
   [SendChunk 0 ''s'' 0 (u ''AA==''), Progress 0 Streaming 1 1, Progress 0 Finalizing 1 1] @
   SendEnd 0 ''s'' 1 (replicate 64 (CHR ''0'')) #
   [Progress 0 OutcomeUnknown 1 1, Settled, Progress 0 Complete 1 1, Wrote 0 (Inr ''/f'')]"
  by code_simp

theorem upload_integrity_witness:
  "let pre = [SendChunk 0 ''s'' 0 (u ''AA==''), Progress 0 Streaming 1 1, Progress 0 Finalizing 1 1] in
   map fst (chunks_of 0 pre) = map int [0..<length (chunks_of 0 pre)] \<and>
   int (length (uploaded 0 pre)) = 1 \<and> encodeHex (zero_digest (uploaded 0 pre)) = u (replicate 64 (CHR ''0'')) \<and> \<not> ended 0 pre"
  unfolding Let_def by (rule upload_integrity [OF one_upload_log])

theorem upload_outcome_witness:
  "\<exists>es1 now v es2 sid n sha. one_upload = es1 @ Receive now v # es2 \<and>
     SendEnd 0 sid n sha \<in> set (hs_log (host_run zero_digest es1)) \<and>
     map_of (hs_outgoing (host_run zero_digest es1)) sid = Some 0 \<and>
     parseHostStreamFrame v = Inr (CommittedFrame sid ''/f'')"
  using upload_outcome [of 0 "Inr ''/f''" zero_digest one_upload] one_upload_log by simp

end
