(* ===== verification/Session_Upload.thy ===== *)
theory Session_Upload
  imports Crypto_Bytes "HOL-Library.AList"
begin

section \<open>Uploads into a session\<close>

text \<open>
  \<open>mobile/src/terminal/transport/session-upload.ts\<close> and the functions of \<open>upload.ts\<close> it uses: the uploads a phone
  sends into a terminal session, through a worker that answers with progress messages.

  Handles are objects, known by their number; the \<open>Map\<close> of running uploads leads from an id to a handle. Messages to
  the worker and progress reports are appended to a log. \<open>#pump\<close> waits twice, for the source and for
  \<open>beforeFinalDispatch\<close>; between its parts anything else can happen. A string is the list of its UTF-8 bytes.
\<close>

subsection \<open>Requests\<close>

definition SESSION_UPLOAD_MAX_BYTES :: int where "SESSION_UPLOAD_MAX_BYTES = 20 * 1024 * 1024"

definition SESSION_UPLOAD_CHUNK_BYTES :: int where "SESSION_UPLOAD_CHUNK_BYTES = 48 * 1024"

definition SESSION_UPLOAD_MAX_ACTIVE :: nat where "SESSION_UPLOAD_MAX_ACTIVE = 4"

datatype upload_state = UpQueued | UpStarting | UpUploading | UpUnknown | UpComplete | UpCancelled | UpFailed

record upload_request =
  ur_name :: string
  ur_mimeType :: string
  ur_destination :: string
  ur_totalBytes :: int
  ur_sha256 :: string
  ur_sourceSize :: int

definition uploadChunkCount :: "int \<Rightarrow> int option" where
  "uploadChunkCount n =
     (if \<not> safe_integer n \<or> n \<le> 0 \<or> n > SESSION_UPLOAD_MAX_BYTES then None
      else Some (ceil_div n SESSION_UPLOAD_CHUNK_BYTES))"

definition canStartUpload :: "nat \<Rightarrow> bool" where
  "canStartUpload n \<longleftrightarrow> n < SESSION_UPLOAD_MAX_ACTIVE"

definition hasInvalidUploadNameCharacter :: "string \<Rightarrow> bool" where
  "hasInvalidUploadNameCharacter s \<longleftrightarrow> c_slash \<in> set (u s) \<or> c_backslash \<in> set (u s) \<or> control_char (u s)"

definition validUploadRequest :: "string \<Rightarrow> upload_request \<Rightarrow> bool" where
  "validUploadRequest uploadId r \<longleftrightarrow>
     parseCanonicalUuid (u uploadId) \<noteq> None \<and> uploadChunkCount (ur_totalBytes r) \<noteq> None \<and>
     ur_sourceSize r = ur_totalBytes r \<and> length (ur_name r) \<ge> 1 \<and> length (ur_name r) \<le> 255 \<and>
     ur_name r \<noteq> ''.'' \<and> ur_name r \<noteq> ''..'' \<and> \<not> hasInvalidUploadNameCharacter (ur_name r) \<and>
     length (ur_mimeType r) \<ge> 1 \<and> length (ur_mimeType r) \<le> 128 \<and>
     list_all (\<lambda>c. 33 \<le> c \<and> c \<le> 126) (u (ur_mimeType r)) \<and> CHR '';'' \<notin> set (ur_mimeType r) \<and>
     (ur_destination r = ''cwd'' \<or>
      ur_destination r = ''attachments'' \<and> (prefix ''image/'' (ur_mimeType r) \<or> ur_mimeType r = ''application/json'')) \<and>
     length (ur_sha256 r) = 64 \<and> list_all is_hex_lower (u (ur_sha256 r))"

subsection \<open>State\<close>

datatype pump_wait = SourceRead int | FinalConfirm int bytes

datatype final_timer = NoTimer | Armed | Spent

record upload_handle =
  uh_uploadId :: string
  uh_request :: upload_request
  uh_state :: upload_state
  uh_sentBytes :: int
  uh_pump :: "pump_wait option"
  uh_cancelled :: bool
  uh_finalDispatched :: bool
  uh_finalTimer :: final_timer
  uh_refused :: bool
  uh_result :: "(string + string) option"

datatype upload_effect =
    UpStart nat string
  | UpChunk nat string int bool utext
  | UpCancel nat string
  | UpReport nat upload_state int "string option"

record coordinator =
  co_uploads :: "(string \<times> nat) list"
  co_handles :: "upload_handle list"
  co_log :: "upload_effect list"

definition new_coordinator :: coordinator where
  "new_coordinator = \<lparr>co_uploads = [], co_handles = [], co_log = []\<rparr>"

definition say :: "upload_effect \<Rightarrow> coordinator \<Rightarrow> coordinator" where
  "say e s = s\<lparr>co_log := co_log s @ [e]\<rparr>"

definition set_handle :: "nat \<Rightarrow> upload_handle \<Rightarrow> coordinator \<Rightarrow> coordinator" where
  "set_handle i h s = s\<lparr>co_handles := (co_handles s)[i := h]\<rparr>"

definition forget :: "string \<Rightarrow> coordinator \<Rightarrow> coordinator" where
  "forget uploadId s = s\<lparr>co_uploads := AList.delete uploadId (co_uploads s)\<rparr>"

definition settle_result :: "string + string \<Rightarrow> upload_handle \<Rightarrow> upload_handle" where
  "settle_result r h = h\<lparr>uh_result := (case uh_result h of None \<Rightarrow> Some r | Some x \<Rightarrow> Some x)\<rparr>"

subsection \<open>Operations\<close>

definition emit_progress :: "nat \<Rightarrow> upload_state \<Rightarrow> int \<Rightarrow> string option \<Rightarrow> coordinator \<Rightarrow> coordinator" where
  "emit_progress i st n err s =
     say (UpReport i st n err) (set_handle i ((co_handles s ! i)\<lparr>uh_state := st, uh_sentBytes := n\<rparr>) s)"

definition reject_upload :: "nat \<Rightarrow> string \<Rightarrow> upload_state \<Rightarrow> coordinator \<Rightarrow> coordinator" where
  "reject_upload i code st s =
     (let s1 = emit_progress i st (uh_sentBytes (co_handles s ! i)) (Some code) s;
          h = co_handles s1 ! i
      in forget (uh_uploadId h) (set_handle i (settle_result (Inl code) h) s1))"

definition markOutcomeUnknown :: "nat \<Rightarrow> coordinator \<Rightarrow> coordinator" where
  "markOutcomeUnknown i s =
     (let h0 = co_handles s ! i;
          s0 = set_handle i (h0\<lparr>uh_finalTimer := (if uh_finalTimer h0 = NoTimer then NoTimer else Spent)\<rparr>) s;
          s1 = emit_progress i UpUnknown (uh_sentBytes h0) (Some ''outcome_unknown'') s0;
          h = co_handles s1 ! i
      in forget (uh_uploadId h) (set_handle i (settle_result (Inl ''outcome_unknown'') h) s1))"

definition start_upload :: "bool \<Rightarrow> nat \<Rightarrow> coordinator \<Rightarrow> coordinator" where
  "start_upload force i s =
     (let h = co_handles s ! i in
      if uh_cancelled h \<or> uh_finalDispatched h \<or> (\<not> force \<and> uh_state h = UpStarting) then s
      else say (UpStart i (uh_uploadId h)) (emit_progress i UpStarting (uh_sentBytes h) None s))"

definition active_uploads :: "coordinator \<Rightarrow> nat" where
  "active_uploads s =
     length (filter (\<lambda>(_, i). uh_state (co_handles s ! i) \<in> {UpQueued, UpStarting, UpUploading, UpUnknown}) (co_uploads s))"

definition create_upload :: "string \<Rightarrow> upload_request \<Rightarrow> bool \<Rightarrow> coordinator \<Rightarrow> coordinator" where
  "create_upload uploadId r ready s =
     (let refused = (\<not> validUploadRequest uploadId r \<or> \<not> canStartUpload (active_uploads s));
          i = length (co_handles s);
          h = \<lparr>uh_uploadId = uploadId, uh_request = r, uh_state = UpQueued, uh_sentBytes = 0, uh_pump = None,
               uh_cancelled = False, uh_finalDispatched = False, uh_finalTimer = NoTimer, uh_refused = refused,
               uh_result = None\<rparr>;
          s1 = s\<lparr>co_handles := co_handles s @ [h]\<rparr>
      in if refused then s1
         else
           let s2 = s1\<lparr>co_uploads := AList.update uploadId i (co_uploads s1)\<rparr>
           in if ready then start_upload False i s2 else s2)"

text \<open>The microtask that rejects a refused request.\<close>

definition refuse_upload :: "nat \<Rightarrow> coordinator \<Rightarrow> coordinator" where
  "refuse_upload i s =
     (let h = co_handles s ! i in
      if \<not> uh_refused h then s
      else reject_upload i ''invalid_upload'' UpFailed (set_handle i (h\<lparr>uh_refused := False\<rparr>) s))"

definition start_one :: "nat \<Rightarrow> coordinator \<Rightarrow> coordinator" where
  "start_one i s =
     (let h = co_handles s ! i in
      if \<not> uh_finalDispatched h \<and> uh_state h \<noteq> UpComplete then start_upload True i s else s)"

definition startPending :: "coordinator \<Rightarrow> coordinator" where
  "startPending s = fold start_one (map snd (co_uploads s)) s"

definition close_one :: "nat \<Rightarrow> coordinator \<Rightarrow> coordinator" where
  "close_one i s =
     (if uh_finalDispatched (co_handles s ! i) then markOutcomeUnknown i s
      else reject_upload i ''upload_closed'' UpFailed s)"

definition close_uploads :: "coordinator \<Rightarrow> coordinator" where
  "close_uploads s = fold close_one (map snd (co_uploads s)) s"

record progress_message =
  pm_uploadId :: string
  pm_state :: upload_state
  pm_sentBytes :: int
  pm_nextSequence :: "int option"
  pm_path :: string
  pm_sha256 :: string
  pm_error :: "string option"

definition begin_pump :: "nat \<Rightarrow> int \<Rightarrow> coordinator \<Rightarrow> coordinator" where
  "begin_pump i n s =
     (let h = co_handles s ! i in
      if uh_pump h \<noteq> None \<or> uh_cancelled h \<or> uh_finalDispatched h then s
      else set_handle i (h\<lparr>uh_pump := Some (SourceRead n)\<rparr>) s)"

definition handleProgress :: "progress_message \<Rightarrow> coordinator \<Rightarrow> coordinator" where
  "handleProgress m s =
     (case map_of (co_uploads s) (pm_uploadId m) of
        None \<Rightarrow> s
      | Some i \<Rightarrow>
          let s1 = emit_progress i (pm_state m) (pm_sentBytes m) (pm_error m) s;
              h = co_handles s1 ! i
          in if pm_state m = UpUploading \<and> pm_nextSequence m \<noteq> None then begin_pump i (the (pm_nextSequence m)) s1
             else if pm_state m = UpUnknown then
               set_handle i (h\<lparr>uh_finalDispatched := True,
                 uh_finalTimer := (if uh_finalTimer h = NoTimer then Armed else uh_finalTimer h)\<rparr>) s1
             else if pm_state m = UpComplete \<and> pm_path m \<noteq> [] \<and> pm_sha256 m \<noteq> [] then
               forget (uh_uploadId h) (set_handle i (settle_result (Inr (pm_path m))
                 (h\<lparr>uh_finalTimer := (if uh_finalTimer h = NoTimer then NoTimer else Spent)\<rparr>)) s1)
             else if pm_state m = UpFailed \<or> pm_state m = UpCancelled then
               reject_upload i (case pm_error m of Some code \<Rightarrow> code
                 | None \<Rightarrow> if pm_state m = UpFailed then ''failed'' else ''cancelled'') UpFailed s1
             else s1)"

definition final_timeout :: "nat \<Rightarrow> coordinator \<Rightarrow> coordinator" where
  "final_timeout i s = (if uh_finalTimer (co_handles s ! i) = Armed then markOutcomeUnknown i s else s)"

definition pump_length :: "upload_handle \<Rightarrow> int \<Rightarrow> int" where
  "pump_length h n =
     min SESSION_UPLOAD_CHUNK_BYTES (ur_totalBytes (uh_request h) - n * SESSION_UPLOAD_CHUNK_BYTES)"

definition pump_last :: "upload_handle \<Rightarrow> int \<Rightarrow> bool" where
  "pump_last h n \<longleftrightarrow> n * SESSION_UPLOAD_CHUNK_BYTES + pump_length h n = ur_totalBytes (uh_request h)"

text \<open>The \<open>catch\<close> and \<open>finally\<close> of \<open>#pump\<close>.\<close>

definition pump_fails :: "nat \<Rightarrow> coordinator \<Rightarrow> coordinator" where
  "pump_fails i s =
     (let s1 = (if uh_finalDispatched (co_handles s ! i) then markOutcomeUnknown i s
                else reject_upload i ''upload_source'' UpFailed s)
      in set_handle i ((co_handles s1 ! i)\<lparr>uh_pump := None\<rparr>) s1)"

text \<open>Sending the chunk; \<open>sends\<close> says whether the worker takes the message or the call throws.\<close>

definition pump_send :: "bool \<Rightarrow> nat \<Rightarrow> int \<Rightarrow> bool \<Rightarrow> bytes \<Rightarrow> coordinator \<Rightarrow> coordinator" where
  "pump_send sends i n final bs s =
     (if \<not> sends then pump_fails i s
      else
        let h = co_handles s ! i
        in set_handle i (h\<lparr>uh_pump := None\<rparr>) (say (UpChunk i (uh_uploadId h) n final (encodeBridgeBytes bs)) s))"

definition pump_read :: "bool \<Rightarrow> nat \<Rightarrow> bytes option \<Rightarrow> coordinator \<Rightarrow> coordinator" where
  "pump_read sends i result s =
     (let h = co_handles s ! i in
      case uh_pump h of
        Some (SourceRead n) \<Rightarrow>
          (case result of
             None \<Rightarrow> pump_fails i s
           | Some bs \<Rightarrow>
               if int (length bs) \<noteq> pump_length h n then pump_fails i s
               else if pump_last h n then set_handle i (h\<lparr>uh_pump := Some (FinalConfirm n bs)\<rparr>) s
               else pump_send sends i n False bs s)
      | _ \<Rightarrow> s)"

definition pump_confirm :: "bool \<Rightarrow> nat \<Rightarrow> bool \<Rightarrow> coordinator \<Rightarrow> coordinator" where
  "pump_confirm sends i confirms s =
     (let h = co_handles s ! i in
      case uh_pump h of
        Some (FinalConfirm n bs) \<Rightarrow>
          if \<not> confirms then pump_fails i s
          else pump_send sends i n True bs (set_handle i (h\<lparr>uh_finalDispatched := True\<rparr>) s)
      | _ \<Rightarrow> s)"

text \<open>\<open>cancel\<close> of a handle and \<open>#cancel\<close> of the coordinator, which finds the upload by its id.\<close>

definition cancel_id :: "string \<Rightarrow> coordinator \<Rightarrow> coordinator" where
  "cancel_id uploadId s =
     (case map_of (co_uploads s) uploadId of
        None \<Rightarrow> s
      | Some i \<Rightarrow>
          if uh_finalDispatched (co_handles s ! i) then s
          else reject_upload i ''cancelled'' UpCancelled (say (UpCancel i uploadId) s))"

definition cancel_handle :: "nat \<Rightarrow> coordinator \<Rightarrow> coordinator" where
  "cancel_handle i s =
     (let h = co_handles s ! i in
      if uh_cancelled h \<or> uh_state h = UpComplete then s
      else cancel_id (uh_uploadId h) (set_handle i (h\<lparr>uh_cancelled := True\<rparr>) s))"

datatype upload_event =
    CreateUpload string upload_request bool
  | StartPending
  | CloseUploads
  | WorkerSays progress_message
  | OnHandle nat handle_event
and handle_event =
    RefuseNow
  | SourceYields bool "bytes option"
  | FinalConfirmed bool bool
  | CancelNow
  | FinalTimeout

definition handle_step :: "nat \<Rightarrow> handle_event \<Rightarrow> coordinator \<Rightarrow> coordinator" where
  "handle_step i e s =
     (if i \<ge> length (co_handles s) then s
      else case e of
        RefuseNow \<Rightarrow> refuse_upload i s
      | SourceYields sends result \<Rightarrow> pump_read sends i result s
      | FinalConfirmed sends confirms \<Rightarrow> pump_confirm sends i confirms s
      | CancelNow \<Rightarrow> cancel_handle i s
      | FinalTimeout \<Rightarrow> final_timeout i s)"

fun upload_step :: "upload_event \<Rightarrow> coordinator \<Rightarrow> coordinator" where
  "upload_step (CreateUpload uploadId r ready) s = create_upload uploadId r ready s"
| "upload_step StartPending s = startPending s"
| "upload_step CloseUploads s = close_uploads s"
| "upload_step (WorkerSays m) s = handleProgress m s"
| "upload_step (OnHandle i e) s = handle_step i e s"

definition upload_run :: "upload_event list \<Rightarrow> coordinator" where
  "upload_run es = fold upload_step es new_coordinator"

subsection \<open>The invariant\<close>

definition message_of :: "nat \<Rightarrow> upload_effect \<Rightarrow> bool" where
  "message_of i e =
     (case e of UpStart k _ \<Rightarrow> k = i | UpChunk k _ _ _ _ \<Rightarrow> k = i | UpCancel k _ \<Rightarrow> k = i | UpReport _ _ _ _ \<Rightarrow> False)"

definition sent_last :: "nat \<Rightarrow> upload_effect list \<Rightarrow> bool" where
  "sent_last i es \<longleftrightarrow> (\<exists>uploadId n t. UpChunk i uploadId n True t \<in> set es)"

definition quiet_after :: "upload_effect list \<Rightarrow> bool" where
  "quiet_after es \<longleftrightarrow>
     (\<forall>pre i uploadId n t post. es = pre @ UpChunk i uploadId n True t # post \<longrightarrow> (\<forall>e\<in>set post. \<not> message_of i e))"

definition chunk_exact :: "upload_handle \<Rightarrow> int \<Rightarrow> bool \<Rightarrow> utext \<Rightarrow> bool" where
  "chunk_exact h n final t \<longleftrightarrow>
     (\<exists>bs. decodeBridgeBytes t = Some bs \<and> int (length bs) = pump_length h n \<and> final = pump_last h n)"

definition handle_ok :: "upload_effect list \<Rightarrow> nat \<Rightarrow> upload_handle \<Rightarrow> bool" where
  "handle_ok es i h \<longleftrightarrow>
     (sent_last i es \<longrightarrow> uh_finalDispatched h \<and> uh_pump h = None) \<and>
     (\<forall>n bs. uh_pump h = Some (FinalConfirm n bs) \<longrightarrow> int (length bs) = pump_length h n \<and> pump_last h n) \<and>
     (\<forall>uploadId n final t. UpChunk i uploadId n final t \<in> set es \<longrightarrow> chunk_exact h n final t)"

definition coordinator_ok :: "coordinator \<Rightarrow> bool" where
  "coordinator_ok s \<longleftrightarrow>
     (\<forall>i < length (co_handles s). handle_ok (co_log s) i (co_handles s ! i)) \<and>
     (\<forall>i \<ge> length (co_handles s). \<forall>e\<in>set (co_log s). \<not> message_of i e) \<and>
     (\<forall>i \<in> snd ` set (co_uploads s). i < length (co_handles s)) \<and> quiet_after (co_log s)"

lemma handle_fields [simp]:
  "handle_ok es i (h\<lparr>uh_state := a\<rparr>) = handle_ok es i h" "handle_ok es i (h\<lparr>uh_sentBytes := b\<rparr>) = handle_ok es i h"
  "handle_ok es i (h\<lparr>uh_cancelled := c\<rparr>) = handle_ok es i h" "handle_ok es i (h\<lparr>uh_finalTimer := d\<rparr>) = handle_ok es i h"
  "handle_ok es i (h\<lparr>uh_refused := e\<rparr>) = handle_ok es i h" "handle_ok es i (settle_result r h) = handle_ok es i h"
  by (simp_all add: handle_ok_def chunk_exact_def pump_length_def pump_last_def settle_result_def)

lemma handle_final: "handle_ok es i h \<Longrightarrow> handle_ok es i (h\<lparr>uh_finalDispatched := True\<rparr>)"
  by (simp add: handle_ok_def chunk_exact_def pump_length_def pump_last_def)

lemma handle_idle: "handle_ok es i h \<Longrightarrow> handle_ok es i (h\<lparr>uh_pump := None\<rparr>)"
  by (simp add: handle_ok_def chunk_exact_def pump_length_def pump_last_def)

lemma lengths [simp]:
  "length (co_handles (say e s)) = length (co_handles s)" "length (co_handles (set_handle i h s)) = length (co_handles s)"
  "length (co_handles (forget k s)) = length (co_handles s)" "co_handles (say e s) = co_handles s"
  "co_handles (forget k s) = co_handles s" "co_log (set_handle i h s) = co_log s" "co_log (forget k s) = co_log s"
  "co_log (say e s) = co_log s @ [e]"
  "i < length (co_handles s) \<Longrightarrow> co_handles (set_handle i h s) ! i = h"
  by (simp_all add: say_def set_handle_def forget_def)

lemma coordinator_start: "coordinator_ok new_coordinator"
  by (simp add: coordinator_ok_def new_coordinator_def quiet_after_def)

lemma set_handle_ok:
  assumes "coordinator_ok s" "i < length (co_handles s)" "handle_ok (co_log s) i h"
  shows "coordinator_ok (set_handle i h s)"
  using assms by (auto simp: coordinator_ok_def set_handle_def nth_list_update)

lemma forget_ok: "coordinator_ok s \<Longrightarrow> coordinator_ok (forget k s)"
  by (auto simp: coordinator_ok_def forget_def AList.delete_eq)

lemma handle_okD: "coordinator_ok s \<Longrightarrow> i < length (co_handles s) \<Longrightarrow> handle_ok (co_log s) i (co_handles s ! i)"
  by (simp add: coordinator_ok_def)

lemma quiet_snoc:
  assumes "quiet_after es" "\<And>i. message_of i e \<Longrightarrow> \<not> sent_last i es" shows "quiet_after (es @ [e])"
  unfolding quiet_after_def
proof (intro allI impI ballI)
  fix pre i uploadId n t post x
  assume split: "es @ [e] = pre @ UpChunk i uploadId n True t # post" and x: "x \<in> set post"
  obtain post' where post: "post = post' @ [e]" "es = pre @ UpChunk i uploadId n True t # post'"
    using split x by (cases post rule: rev_cases) auto
  then have "sent_last i es" by (auto simp: sent_last_def)
  then show "\<not> message_of i x" using assms x post unfolding quiet_after_def by auto
qed

lemma say_ok:
  assumes ok: "coordinator_ok s" and e: "\<And>i. message_of i e \<Longrightarrow> i < length (co_handles s) \<and> \<not> sent_last i (co_log s)"
    and no_chunk: "\<And>i uploadId n final t. e \<noteq> UpChunk i uploadId n final t"
  shows "coordinator_ok (say e s)"
proof -
  have "handle_ok (co_log s @ [e]) i h = handle_ok (co_log s) i h" for i h
    using no_chunk unfolding handle_ok_def sent_last_def by (metis UnE empty_iff empty_set in_set_conv_decomp list.set_intros(1) list.simps(15) set_ConsD set_append Un_iff)
  moreover have "quiet_after (co_log s @ [e])" using ok e by (intro quiet_snoc) (auto simp: coordinator_ok_def)
  moreover have "\<not> message_of i e" if "length (co_handles s) \<le> i" for i using e [of i] that by auto
  ultimately show ?thesis using ok by (auto simp: coordinator_ok_def say_def)
qed

lemma chunk_ok:
  assumes ok: "coordinator_ok s" and i: "i < length (co_handles s)" and h: "handle_ok (co_log s) i h"
    and new: "\<not> sent_last i (co_log s)" "chunk_exact h n final t" "final \<Longrightarrow> uh_finalDispatched h"
  shows "coordinator_ok (set_handle i (h\<lparr>uh_pump := None\<rparr>) (say (UpChunk i uploadId n final t) s))"
proof -
  let ?e = "UpChunk i uploadId n final t"
  have "handle_ok (co_log s @ [?e]) k g = handle_ok (co_log s) k g" if "k \<noteq> i" for k g
    using that by (auto simp: handle_ok_def sent_last_def)
  moreover have "handle_ok (co_log s @ [?e]) i (h\<lparr>uh_pump := None\<rparr>)"
    using h new by (auto simp: handle_ok_def sent_last_def chunk_exact_def pump_length_def pump_last_def)
  moreover have "quiet_after (co_log s @ [?e])"
    using ok new by (intro quiet_snoc) (auto simp: coordinator_ok_def message_of_def)
  ultimately show ?thesis
    using ok i unfolding coordinator_ok_def
    by (auto simp: say_def set_handle_def nth_list_update message_of_def)
qed

subsection \<open>Every event keeps it\<close>

lemma emit_ok: "coordinator_ok s \<Longrightarrow> i < length (co_handles s) \<Longrightarrow> coordinator_ok (emit_progress i st n err s)"
  by (auto simp: emit_progress_def message_of_def handle_okD intro!: say_ok set_handle_ok)

lemma emit_simps [simp]:
  "length (co_handles (emit_progress i st n err s)) = length (co_handles s)"
  "co_uploads (emit_progress i st n err s) = co_uploads s"
  "i < length (co_handles s) \<Longrightarrow>
    co_handles (emit_progress i st n err s) ! i = (co_handles s ! i)\<lparr>uh_state := st, uh_sentBytes := n\<rparr>"
  "sent_last k (co_log (emit_progress i st n err s)) = sent_last k (co_log s)"
  by (simp_all add: emit_progress_def sent_last_def set_handle_def say_def)

lemma emit_handle [simp]: "handle_ok (co_log (emit_progress i st n err s)) k h = handle_ok (co_log s) k h"
  by (simp add: handle_ok_def) (simp add: emit_progress_def)

lemma rejected_ok: "coordinator_ok s \<Longrightarrow> i < length (co_handles s) \<Longrightarrow> coordinator_ok (reject_upload i code st s)"
  by (auto simp: handle_okD reject_upload_def Let_def intro!: forget_ok set_handle_ok emit_ok)

lemma reject_simps [simp]: "length (co_handles (reject_upload i code st s)) = length (co_handles s)"
  by (simp add: reject_upload_def Let_def)

lemma unknown_ok:
  assumes "coordinator_ok s" "i < length (co_handles s)" shows "coordinator_ok (markOutcomeUnknown i s)"
proof -
  let ?h = "co_handles s ! i"
  have "coordinator_ok (set_handle i (?h\<lparr>uh_finalTimer := t\<rparr>) s)" for t
    using assms by (intro set_handle_ok) (simp_all add: handle_okD)
  then have ok: "coordinator_ok (emit_progress i UpUnknown n err (set_handle i (?h\<lparr>uh_finalTimer := t\<rparr>) s))" for n err t
    using assms by (intro emit_ok) simp_all
  show ?thesis
    using assms unfolding markOutcomeUnknown_def Let_def
    by (intro forget_ok set_handle_ok ok) (simp_all add: handle_okD)
qed

lemma unknown_simps [simp]: "length (co_handles (markOutcomeUnknown i s)) = length (co_handles s)"
  by (simp add: markOutcomeUnknown_def Let_def)

lemma start_upload_ok:
  assumes "coordinator_ok s" "i < length (co_handles s)" shows "coordinator_ok (start_upload force i s)"
proof (cases "uh_finalDispatched (co_handles s ! i)")
  case False
  then have "\<not> sent_last i (co_log s)" using handle_okD [OF assms] by (auto simp: handle_ok_def)
  then show ?thesis
    using assms by (auto simp: start_upload_def Let_def message_of_def intro!: say_ok emit_ok)
qed (use assms in \<open>simp add: start_upload_def\<close>)

lemma start_simps [simp]: "length (co_handles (start_upload force i s)) = length (co_handles s)"
  by (simp add: start_upload_def Let_def)

lemma fold_ok:
  assumes step: "\<And>i s. coordinator_ok s \<Longrightarrow> i < length (co_handles s) \<Longrightarrow> coordinator_ok (f i s)"
    and same: "\<And>i s. length (co_handles (f i s)) = length (co_handles s)"
  shows "coordinator_ok s \<Longrightarrow> \<forall>i\<in>set is. i < length (co_handles s) \<Longrightarrow> coordinator_ok (fold f is s)"
  by (induction "is" arbitrary: s) (simp_all add: same step)

lemma map_values: "coordinator_ok s \<Longrightarrow> \<forall>i\<in>set (map snd (co_uploads s)). i < length (co_handles s)"
  by (auto simp: coordinator_ok_def)

lemma pending_ok: "coordinator_ok s \<Longrightarrow> coordinator_ok (startPending s)"
  unfolding startPending_def
  by (rule fold_ok [OF _ _ _ map_values]) (simp_all add: start_one_def Let_def start_upload_ok)

lemma closing_ok: "coordinator_ok s \<Longrightarrow> coordinator_ok (close_uploads s)"
  unfolding close_uploads_def
  by (rule fold_ok [OF _ _ _ map_values]) (simp_all add: close_one_def unknown_ok rejected_ok)

lemma pump_fails_ok:
  assumes "coordinator_ok s" "i < length (co_handles s)" shows "coordinator_ok (pump_fails i s)"
proof -
  define s1 where "s1 = (if uh_finalDispatched (co_handles s ! i) then markOutcomeUnknown i s
    else reject_upload i ''upload_source'' UpFailed s)"
  have "coordinator_ok s1" "i < length (co_handles s1)" using assms by (simp_all add: s1_def unknown_ok rejected_ok)
  then show ?thesis
    by (simp add: pump_fails_def Let_def s1_def [symmetric] set_handle_ok handle_idle handle_okD)
qed

lemma pump_send_ok:
  assumes ok: "coordinator_ok s" and i: "i < length (co_handles s)" and new: "\<not> sent_last i (co_log s)"
    "int (length bs) = pump_length (co_handles s ! i) n" "final = pump_last (co_handles s ! i) n"
    "final \<Longrightarrow> uh_finalDispatched (co_handles s ! i)"
  shows "coordinator_ok (pump_send sends i n final bs s)"
proof -
  have "chunk_exact (co_handles s ! i) n final (encodeBridgeBytes bs)"
    using new by (simp add: chunk_exact_def encodeBridge_eq decodeBridge_encode)
  then show ?thesis
    using chunk_ok [OF ok i handle_okD [OF ok i] new(1)] new(4) pump_fails_ok [OF ok i]
    by (simp add: pump_send_def Let_def)
qed

lemma pump_read_ok:
  assumes ok: "coordinator_ok s" and i: "i < length (co_handles s)" shows "coordinator_ok (pump_read sends i result s)"
proof -
  let ?h = "co_handles s ! i"
  note h = handle_okD [OF ok i]
  have "coordinator_ok (set_handle i (?h\<lparr>uh_pump := Some (FinalConfirm n bs)\<rparr>) s)"
    if "uh_pump ?h = Some (SourceRead n)" "int (length bs) = pump_length ?h n" "pump_last ?h n" for n bs
    using h that by (intro set_handle_ok [OF ok i])
      (auto simp: handle_ok_def chunk_exact_def pump_length_def pump_last_def)
  moreover have "coordinator_ok (pump_send sends i n False bs s)"
    if "uh_pump ?h = Some (SourceRead n)" "int (length bs) = pump_length ?h n" "\<not> pump_last ?h n" for n bs
    using h that by (intro pump_send_ok [OF ok i]) (auto simp: handle_ok_def)
  ultimately show ?thesis
    using ok pump_fails_ok [OF ok i] by (auto simp: pump_read_def Let_def split: option.split pump_wait.split)
qed

lemma pump_confirm_ok:
  assumes ok: "coordinator_ok s" and i: "i < length (co_handles s)" shows "coordinator_ok (pump_confirm sends i confirms s)"
proof -
  let ?h = "co_handles s ! i"
  note h = handle_okD [OF ok i]
  have "coordinator_ok (pump_send sends i n True bs (set_handle i (?h\<lparr>uh_finalDispatched := True\<rparr>) s))"
    if "uh_pump ?h = Some (FinalConfirm n bs)" for n bs
    using h that i
    by (intro pump_send_ok set_handle_ok [OF ok i] handle_final)
      (auto simp: handle_ok_def pump_length_def pump_last_def)
  then show ?thesis
    using ok pump_fails_ok [OF ok i] by (auto simp: pump_confirm_def Let_def split: option.split pump_wait.split)
qed

lemma cancel_ok:
  assumes ok: "coordinator_ok s" and i: "i < length (co_handles s)" shows "coordinator_ok (cancel_handle i s)"
proof -
  have id_ok: "coordinator_ok (cancel_id k t)" if "coordinator_ok t" for k t
  proof (cases "map_of (co_uploads t) k")
    case (Some j)
    then have j: "j < length (co_handles t)" using that map_of_SomeD [OF Some] by (force simp: coordinator_ok_def)
    have "\<not> sent_last j (co_log t)" if "\<not> uh_finalDispatched (co_handles t ! j)"
      using handle_okD [OF \<open>coordinator_ok t\<close> j] that by (auto simp: handle_ok_def)
    then show ?thesis
      using Some that j by (auto simp: cancel_id_def message_of_def intro!: rejected_ok say_ok)
  qed (use that in \<open>simp add: cancel_id_def\<close>)
  have "coordinator_ok (set_handle i ((co_handles s ! i)\<lparr>uh_cancelled := True\<rparr>) s)"
    using ok i by (intro set_handle_ok) (simp_all add: handle_okD)
  then show ?thesis using ok id_ok by (simp add: cancel_handle_def Let_def)
qed

lemma progress_ok:
  assumes ok: "coordinator_ok s" shows "coordinator_ok (handleProgress m s)"
proof (cases "map_of (co_uploads s) (pm_uploadId m)")
  case (Some i)
  define s1 where "s1 = emit_progress i (pm_state m) (pm_sentBytes m) (pm_error m) s"
  have "i < length (co_handles s)" using ok map_of_SomeD [OF Some] by (force simp: coordinator_ok_def)
  then have ok1: "coordinator_ok s1" and i: "i < length (co_handles s1)" using ok by (simp_all add: s1_def emit_ok)
  note h = handle_okD [OF ok1 i]
  have "handle_ok (co_log s1) i ((co_handles s1 ! i)\<lparr>uh_pump := Some (SourceRead n)\<rparr>)"
    if "\<not> uh_finalDispatched (co_handles s1 ! i)" for n
    using h that by (auto simp: handle_ok_def chunk_exact_def pump_length_def pump_last_def)
  then have "coordinator_ok (begin_pump i n s1)" for n
    using ok1 i by (simp add: begin_pump_def Let_def set_handle_ok)
  moreover have "handle_ok (co_log s1) i ((co_handles s1 ! i)\<lparr>uh_finalDispatched := True, uh_finalTimer := t\<rparr>)" for t
    using handle_final [OF h] by simp
  ultimately show ?thesis
    using Some ok1 i h
    by (simp add: handleProgress_def Let_def s1_def [symmetric] set_handle_ok forget_ok rejected_ok)
qed (use ok in \<open>simp add: handleProgress_def\<close>)

lemma update_values_up: "e \<in> set (AList.update k v xs) \<Longrightarrow> e = (k, v) \<or> e \<in> set xs"
  by (induction xs) (auto split: if_splits)

lemma create_ok:
  assumes ok: "coordinator_ok s" shows "coordinator_ok (create_upload uploadId r ready s)"
proof -
  let ?i = "length (co_handles s)"
  have none: "\<not> sent_last ?i (co_log s)" "UpChunk ?i a n final t \<notin> set (co_log s)" for a n final t
    using ok by (force simp: coordinator_ok_def sent_last_def message_of_def)+
  have added: "coordinator_ok (s\<lparr>co_handles := co_handles s @ [h]\<rparr>)" if "uh_pump h = None" for h
    using ok none that unfolding coordinator_ok_def by (auto simp: nth_append less_Suc_eq handle_ok_def)
  have "coordinator_ok (s\<lparr>co_handles := co_handles s @ [h], co_uploads := AList.update uploadId ?i (co_uploads s)\<rparr>)"
    if "uh_pump h = None" for h
    using added [OF that] ok unfolding coordinator_ok_def by (auto dest!: update_values_up)
  then show ?thesis using added by (simp add: create_upload_def Let_def start_upload_ok)
qed

lemma upload_step_ok: "coordinator_ok s \<Longrightarrow> coordinator_ok (upload_step e s)"
proof (cases e)
  case (OnHandle i he)
  assume ok: "coordinator_ok s"
  have "coordinator_ok (refuse_upload i s)" if "i < length (co_handles s)"
    using ok that by (auto simp: refuse_upload_def Let_def handle_okD intro!: rejected_ok set_handle_ok)
  then show ?thesis
    using ok OnHandle
    by (cases he) (auto simp: handle_step_def pump_read_ok pump_confirm_ok cancel_ok final_timeout_def unknown_ok)
qed (simp_all add: create_ok pending_ok closing_ok progress_ok)

lemma upload_run_ok: "coordinator_ok (upload_run es)"
proof -
  have "coordinator_ok (fold upload_step es s)" if "coordinator_ok s" for s
    using that by (induction es arbitrary: s) (simp_all add: upload_step_ok del: upload_step.simps)
  then show ?thesis by (simp add: upload_run_def coordinator_start)
qed

subsection \<open>What the worker is told\<close>

text \<open>
  C19: The last chunk of an upload is the last the worker hears of it. In every interleaving of reads, confirmations,
  progress messages, cancellations, reconnects and other uploads: after the last chunk of an upload, it is not started
  again, not cancelled, and no chunk of it is sent; so a file whose outcome is unknown is not sent twice.
\<close>

theorem upload_final:
  assumes "co_log (upload_run es) = pre @ UpChunk i uploadId n True t # post" "e \<in> set post"
  shows "e \<noteq> UpStart i k \<and> e \<noteq> UpCancel i k \<and> e \<noteq> UpChunk i k m final x"
proof -
  have q: "quiet_after (co_log (upload_run es))" using upload_run_ok by (simp add: coordinator_ok_def)
  have "\<not> message_of i e" using q [unfolded quiet_after_def, rule_format, OF assms] .
  then show ?thesis by (auto simp: message_of_def)
qed

text \<open>Every chunk holds exactly the bytes of its place in the file, and is marked as the last one if it reaches the end.\<close>

lemma upload_chunks_exact:
  assumes "UpChunk i uploadId n final t \<in> set (co_log (upload_run es))"
  shows "\<exists>bs. decodeBridgeBytes t = Some bs \<and>
    (let total = ur_totalBytes (uh_request (co_handles (upload_run es) ! i)); offset = n * SESSION_UPLOAD_CHUNK_BYTES
     in int (length bs) = min SESSION_UPLOAD_CHUNK_BYTES (total - offset) \<and> final = (offset + int (length bs) = total))"
proof -
  have "i < length (co_handles (upload_run es))"
    using upload_run_ok [of es] assms unfolding coordinator_ok_def by (force simp: message_of_def not_le [symmetric])
  from handle_okD [OF upload_run_ok this] have "chunk_exact (co_handles (upload_run es) ! i) n final t"
    using assms unfolding handle_ok_def by blast
  then obtain bs where "decodeBridgeBytes t = Some bs"
    "int (length bs) = pump_length (co_handles (upload_run es) ! i) n" "final = pump_last (co_handles (upload_run es) ! i) n"
    unfolding chunk_exact_def by blast
  then show ?thesis by (auto simp: Let_def pump_length_def pump_last_def)
qed

text \<open>A file of one byte.\<close>

definition one_byte_request :: upload_request where
  "one_byte_request = \<lparr>ur_name = ''f'', ur_mimeType = ''text/plain'', ur_destination = ''cwd'', ur_totalBytes = 1,
     ur_sha256 = replicate 64 (CHR ''0''), ur_sourceSize = 1\<rparr>"

definition zero_id :: string where
  "zero_id = ''00000000-0000-0000-0000-000000000000''"

definition asks_first_chunk :: upload_event where
  "asks_first_chunk = WorkerSays \<lparr>pm_uploadId = zero_id, pm_state = UpUploading, pm_sentBytes = 0, pm_nextSequence = Some 0,
     pm_path = [], pm_sha256 = [], pm_error = None\<rparr>"

lemma one_upload_dispatched:
  "co_log (upload_run [CreateUpload zero_id one_byte_request True, asks_first_chunk, OnHandle 0 (SourceYields True (Some [0])),
      OnHandle 0 (FinalConfirmed True True), CloseUploads]) =
   [UpReport 0 UpStarting 0 None, UpStart 0 zero_id, UpReport 0 UpUploading 0 None] @
   UpChunk 0 zero_id 0 True (u ''AA=='') # [UpReport 0 UpUnknown 0 (Some ''outcome_unknown'')]"
  by code_simp

theorem upload_final_witness:
  "UpReport 0 UpUnknown 0 (Some ''outcome_unknown'') \<noteq> UpStart 0 zero_id \<and>
   UpReport 0 UpUnknown 0 (Some ''outcome_unknown'') \<noteq> UpCancel 0 zero_id \<and>
   UpReport 0 UpUnknown 0 (Some ''outcome_unknown'') \<noteq> UpChunk 0 zero_id 0 True []"
  by (rule upload_final [OF one_upload_dispatched]) simp

text \<open>
  Two gaps. An upload cancelled while its source is being read still confirms and sends its chunk, after the worker
  was told to cancel. And a refused request that names a running upload removes that upload from the table: later
  messages of the worker for it are not heard.
\<close>

lemma chunk_after_cancel:
  "co_log (upload_run [CreateUpload zero_id one_byte_request True, asks_first_chunk, OnHandle 0 CancelNow,
      OnHandle 0 (SourceYields True (Some [0])), OnHandle 0 (FinalConfirmed True True)]) =
   [UpReport 0 UpStarting 0 None, UpStart 0 zero_id, UpReport 0 UpUploading 0 None, UpCancel 0 zero_id,
    UpReport 0 UpCancelled 0 (Some ''cancelled''), UpChunk 0 zero_id 0 True (u ''AA=='')]"
  by code_simp

lemma refusal_forgets_running:
  "co_uploads (upload_run [CreateUpload zero_id one_byte_request True]) = [(zero_id, 0)]"
  "co_uploads (upload_run [CreateUpload zero_id one_byte_request True,
     CreateUpload zero_id (one_byte_request\<lparr>ur_name := ''.''\<rparr>) True, OnHandle 1 RefuseNow]) = []"
  by code_simp+

end
