(* ===== verification/Predictive_Echo.thy ===== *)
theory Predictive_Echo
  imports Text "HOL-Library.Sublist"
begin

section \<open>Predictive echo\<close>

text \<open>
  \<open>web/src/components/terminal/predictive-echo.ts\<close>: characters are painted over the terminal before the machine
  echoes them. The terminal's own buffer is not touched, so the overlay has to be honest by itself: it shows only
  what was typed and has neither been confirmed nor contradicted.

  Times are \<open>rat\<close> (the clock has fractions), rows and columns \<open>int\<close>.
\<close>

definition CONFIRM_TIMEOUT_MS :: rat where "CONFIRM_TIMEOUT_MS = 2000"

definition BACKOFF_WINDOW_MS :: rat where "BACKOFF_WINDOW_MS = 10000"

definition BACKOFF_TRIP_COUNT :: nat where "BACKOFF_TRIP_COUNT = 2"

definition BACKOFF_DISABLE_MS :: rat where "BACKOFF_DISABLE_MS = 30000"

definition MAX_PENDING :: nat where "MAX_PENDING = 64"

record prediction_cursor =
  pc_row :: int
  pc_col :: int

record predictive_echo =
  pe_pending :: utext
  pe_anchor :: "prediction_cursor option"
  pe_predictedAt :: rat
  pe_hardMisses :: "rat list"
  pe_disabledUntil :: rat

definition new_echo :: predictive_echo where
  "new_echo = \<lparr>pe_pending = [], pe_anchor = None, pe_predictedAt = 0, pe_hardMisses = [], pe_disabledUntil = 0\<rparr>"

definition PRINTABLE_ASCII :: "utext \<Rightarrow> bool" where
  "PRINTABLE_ASCII s = (case s of [c] \<Rightarrow> 32 \<le> c \<and> c \<le> 126 | _ \<Rightarrow> False)"

definition echo_enabled :: "rat \<Rightarrow> predictive_echo \<Rightarrow> bool" where
  "echo_enabled now e \<longleftrightarrow> now \<ge> pe_disabledUntil e"

definition clear_echo :: "predictive_echo \<Rightarrow> predictive_echo" where
  "clear_echo e = e\<lparr>pe_pending := [], pe_anchor := None\<rparr>"

definition predict ::
  "utext \<Rightarrow> prediction_cursor option \<Rightarrow> int \<Rightarrow> rat \<Rightarrow> predictive_echo \<Rightarrow> bool \<times> predictive_echo" where
  "predict s at_cursor columns now e =
     (if \<not> PRINTABLE_ASCII s then (False, clear_echo e)
      else if \<not> echo_enabled now e then (False, e)
      else case at_cursor of
        None \<Rightarrow> (False, e)
      | Some c \<Rightarrow>
          if pc_col c + int (length (pe_pending e)) + 1 \<ge> columns then (False, e)
          else if length (pe_pending e) \<ge> MAX_PENDING then (False, clear_echo e)
          else
            let e1 = (if length (pe_pending e) = 0 then e\<lparr>pe_anchor := Some c\<rparr> else e)
            in (True, e1\<lparr>pe_pending := pe_pending e1 @ s, pe_predictedAt := now\<rparr>))"

definition recordHardMiss :: "rat \<Rightarrow> predictive_echo \<Rightarrow> predictive_echo" where
  "recordHardMiss now e =
     (let misses = filter (\<lambda>m. now - m < BACKOFF_WINDOW_MS) (pe_hardMisses e) @ [now]
      in if length misses \<ge> BACKOFF_TRIP_COUNT
         then e\<lparr>pe_disabledUntil := now + BACKOFF_DISABLE_MS, pe_hardMisses := []\<rparr>
         else e\<lparr>pe_hardMisses := misses\<rparr>)"

record reconcile_outcome =
  ro_pending :: utext
  ro_mispredicted :: bool

text \<open>\<open>s.slice(-n)\<close> for a positive \<open>n\<close>.\<close>

definition last_units :: "nat \<Rightarrow> utext \<Rightarrow> utext" where
  "last_units n s = drop (length s - n) s"

definition soft_drop :: "predictive_echo \<Rightarrow> reconcile_outcome \<times> predictive_echo" where
  "soft_drop e = (\<lparr>ro_pending = [], ro_mispredicted = False\<rparr>, clear_echo e)"

definition reconcile_echo ::
  "prediction_cursor \<Rightarrow> utext \<Rightarrow> rat \<Rightarrow> predictive_echo \<Rightarrow> reconcile_outcome \<times> predictive_echo" where
  "reconcile_echo c before now e =
     (if length (pe_pending e) = 0 then (\<lparr>ro_pending = [], ro_mispredicted = False\<rparr>, e)
      else case pe_anchor e of
        None \<Rightarrow> soft_drop e
      | Some anchor \<Rightarrow>
          if pc_row c \<noteq> pc_row anchor then soft_drop e
          else
            let advance = pc_col c - pc_col anchor in
            if advance \<le> 0 then
              let e1 = (if now - pe_predictedAt e > CONFIRM_TIMEOUT_MS then clear_echo e else e)
              in (\<lparr>ro_pending = pe_pending e1, ro_mispredicted = False\<rparr>, e1)
            else if advance > int (length (pe_pending e)) then soft_drop e
            else
              let n = nat advance in
              if last_units n before \<noteq> take n (pe_pending e)
              then (\<lparr>ro_pending = [], ro_mispredicted = True\<rparr>, recordHardMiss now (clear_echo e))
              else
                let rest = drop n (pe_pending e)
                in (\<lparr>ro_pending = rest, ro_mispredicted = False\<rparr>,
                    e\<lparr>pe_pending := rest, pe_anchor := (if length rest = 0 then None else Some c)\<rparr>))"

subsection \<open>The overlay over time\<close>

text \<open>
  What is typed, what the terminal renders, and a reset, in any order. Beside the state, three things are recorded:
  the characters painted since the overlay was last empty, how many of them the terminal has confirmed, and the
  glyphs that confirmed them.
\<close>

datatype echo_event =
    Typed utext "prediction_cursor option" int rat
  | Rendered prediction_cursor utext rat
  | ResetEcho

record echo_run =
  er_echo :: predictive_echo
  er_painted :: utext
  er_confirmed :: utext

definition confirmed_by :: "prediction_cursor \<Rightarrow> utext \<Rightarrow> predictive_echo \<Rightarrow> predictive_echo \<Rightarrow> utext" where
  "confirmed_by c before e e' = last_units (length (pe_pending e) - length (pe_pending e')) before"

fun echo_step :: "echo_event \<Rightarrow> echo_run \<Rightarrow> echo_run" where
  "echo_step (Typed s c columns now) r =
     (let (painted, e) = predict s c columns now (er_echo r)
      in if pe_pending e = [] then \<lparr>er_echo = e, er_painted = [], er_confirmed = []\<rparr>
         else r\<lparr>er_echo := e, er_painted := er_painted r @ (if painted then s else [])\<rparr>)"
| "echo_step (Rendered c before now) r =
     (let e = snd (reconcile_echo c before now (er_echo r))
      in if pe_pending e = [] then \<lparr>er_echo = e, er_painted = [], er_confirmed = []\<rparr>
         else r\<lparr>er_echo := e, er_confirmed := er_confirmed r @ confirmed_by c before (er_echo r) e\<rparr>)"
| "echo_step ResetEcho r = \<lparr>er_echo = clear_echo (er_echo r), er_painted = [], er_confirmed = []\<rparr>"

definition echo_of :: "echo_event list \<Rightarrow> echo_run" where
  "echo_of es = fold echo_step es \<lparr>er_echo = new_echo, er_painted = [], er_confirmed = []\<rparr>"

subsection \<open>The overlay is honest\<close>

definition echo_ok :: "echo_run \<Rightarrow> bool" where
  "echo_ok r \<longleftrightarrow>
     (let e = er_echo r in
      er_painted r = er_confirmed r @ pe_pending e \<and> length (pe_pending e) \<le> MAX_PENDING \<and>
      (\<forall>c \<in> set (pe_pending e). 32 \<le> c \<and> c \<le> 126) \<and> (pe_anchor e = None \<longleftrightarrow> pe_pending e = []) \<and>
      length (pe_hardMisses e) < BACKOFF_TRIP_COUNT)"

lemma printable: "PRINTABLE_ASCII s \<Longrightarrow> \<exists>c. s = [c] \<and> 32 \<le> c \<and> c \<le> 126"
  by (auto simp: PRINTABLE_ASCII_def split: list.splits)

lemma typed_ok: "echo_ok r \<Longrightarrow> echo_ok (echo_step (Typed s c columns now) r)"
  by (auto simp: echo_ok_def Let_def predict_def clear_echo_def dest!: printable split: option.split)

lemma hard_miss_ok [simp]:
  "length (pe_hardMisses (recordHardMiss now e)) < BACKOFF_TRIP_COUNT"
  "pe_pending (recordHardMiss now e) = pe_pending e" "pe_anchor (recordHardMiss now e) = pe_anchor e"
  by (simp_all add: recordHardMiss_def Let_def BACKOFF_TRIP_COUNT_def not_less_eq_eq)

lemma rendered_ok:
  assumes "echo_ok r" shows "echo_ok (echo_step (Rendered c before now) r)"
proof -
  let ?e = "er_echo r"
  have "last_units (length (pe_pending ?e) - length (drop n (pe_pending ?e))) before = take n (pe_pending ?e)"
    if "n \<le> length (pe_pending ?e)" "last_units n before = take n (pe_pending ?e)" for n
    using that by simp
  then show ?thesis
    using assms
    by (auto simp: echo_ok_def Let_def reconcile_echo_def soft_drop_def clear_echo_def confirmed_by_def last_units_def
        dest!: in_set_dropD split: option.split)
qed

lemma echo_always: "echo_ok (echo_of es)"
proof -
  have "echo_ok (echo_step ev r)" if "echo_ok r" for ev r
  proof (cases ev)
    case ResetEcho
    then show ?thesis using that by (simp add: echo_ok_def clear_echo_def Let_def)
  qed (use that typed_ok rendered_ok in \<open>simp_all del: echo_step.simps\<close>)
  then have "echo_ok (fold echo_step es r)" if "echo_ok r" for r
    using that by (induction es arbitrary: r) auto
  then show ?thesis
    by (simp add: echo_of_def echo_ok_def new_echo_def BACKOFF_TRIP_COUNT_def)
qed

subsection \<open>Backing off\<close>

text \<open>
  When a rendering contradicts what was painted, and when an event happens. After a first contradiction the
  store either remembers it or is already off until after the second one.
\<close>

definition contradicts :: "prediction_cursor \<Rightarrow> utext \<Rightarrow> echo_event list \<Rightarrow> bool" where
  "contradicts c before es \<longleftrightarrow>
     (let e = er_echo (echo_of es); n = pc_col c - pc_col (the (pe_anchor e)) in
      pe_pending e \<noteq> [] \<and> pc_row c = pc_row (the (pe_anchor e)) \<and> 0 < n \<and> n \<le> int (length (pe_pending e)) \<and>
      drop (length before - nat n) before \<noteq> take (nat n) (pe_pending e))"

definition in_period :: "rat \<Rightarrow> rat \<Rightarrow> echo_event \<Rightarrow> bool" where
  "in_period t1 t2 ev =
     (case ev of Typed _ _ _ t \<Rightarrow> t1 \<le> t \<and> t \<le> t2 | Rendered _ _ t \<Rightarrow> t1 \<le> t \<and> t \<le> t2 | ResetEcho \<Rightarrow> True)"

definition wary :: "rat \<Rightarrow> rat \<Rightarrow> predictive_echo \<Rightarrow> bool" where
  "wary t1 t2 e \<longleftrightarrow> t1 \<in> set (pe_hardMisses e) \<or> pe_pending e = [] \<and> t2 < pe_disabledUntil e"

lemma echo_of_snoc: "echo_of (es @ [ev]) = echo_step ev (echo_of es)"
  by (simp add: echo_of_def)

lemma contradiction_reconciled:
  assumes "contradicts c before es"
  shows "er_echo (echo_of (es @ [Rendered c before now])) = recordHardMiss now (clear_echo (er_echo (echo_of es)))"
proof -
  let ?e = "er_echo (echo_of es)"
  obtain anchor where a: "pe_anchor ?e = Some anchor"
    using assms echo_always [of es] by (auto simp: contradicts_def echo_ok_def Let_def)
  have "snd (reconcile_echo c before now ?e) = recordHardMiss now (clear_echo ?e)"
    using assms by (simp add: contradicts_def reconcile_echo_def a Let_def last_units_def)
  then show ?thesis by (simp add: echo_of_snoc Let_def clear_echo_def)
qed

text \<open>At most one contradiction is remembered, so a first one within the window trips the breaker.\<close>

lemma recordHardMiss_trips:
  assumes "m \<in> set (pe_hardMisses e)" "now - m < 10000"
  shows "pe_disabledUntil (recordHardMiss now e) = now + 30000"
proof -
  have "filter (\<lambda>m. now - m < BACKOFF_WINDOW_MS) (pe_hardMisses e) \<noteq> []"
    using assms by (auto simp: filter_empty_conv BACKOFF_WINDOW_MS_def)
  then show ?thesis
    by (simp add: recordHardMiss_def Let_def BACKOFF_TRIP_COUNT_def BACKOFF_DISABLE_MS_def Suc_le_eq)
qed

lemma recordHardMiss_wary:
  assumes "pe_pending e = []" "t1 \<le> now" "now \<le> t2" "t2 - t1 < 10000"
  shows "now = t1 \<or> wary t1 t2 e \<Longrightarrow> wary t1 t2 (recordHardMiss now e)"
proof -
  assume "now = t1 \<or> wary t1 t2 e"
  moreover have "t2 < now + 30000" using assms by simp
  ultimately show ?thesis
    using assms by (auto simp: wary_def recordHardMiss_def Let_def BACKOFF_DISABLE_MS_def BACKOFF_WINDOW_MS_def)
qed

lemma wary_clear: "wary t1 t2 e \<Longrightarrow> wary t1 t2 (clear_echo e)"
  by (auto simp: wary_def clear_echo_def)

lemma wary_predict:
  assumes "wary t1 t2 e" "now \<le> t2"
  shows "wary t1 t2 (snd (predict s c columns now e))"
  using assms by (auto simp: wary_def predict_def echo_enabled_def clear_echo_def Let_def split: option.split)

lemma wary_reconcile:
  assumes "wary t1 t2 e" "t1 \<le> now" "now \<le> t2" "t2 - t1 < 10000"
  shows "wary t1 t2 (snd (reconcile_echo c before now e))"
proof -
  have "wary t1 t2 (recordHardMiss now (clear_echo e))"
    using assms by (intro recordHardMiss_wary) (simp_all add: wary_clear, simp add: clear_echo_def)
  moreover have "wary t1 t2 (e\<lparr>pe_pending := drop n (pe_pending e), pe_anchor := a\<rparr>)" for n a
    using assms(1) by (auto simp: wary_def)
  ultimately show ?thesis
    using assms(1) by (auto simp: reconcile_echo_def soft_drop_def Let_def wary_clear split: option.split)
qed

lemma wary_step:
  assumes "wary t1 t2 (er_echo r)" "in_period t1 t2 ev" "t2 - t1 < 10000"
  shows "wary t1 t2 (er_echo (echo_step ev r))"
proof (cases ev)
  case (Typed s c columns now)
  then show ?thesis
    using wary_predict [OF assms(1), of now s c columns] assms(2) by (auto simp: in_period_def Let_def split: prod.split)
next
  case (Rendered c before now)
  then show ?thesis
    using wary_reconcile [OF assms(1), of now c before] assms(2,3) by (simp add: in_period_def Let_def)
next
  case ResetEcho
  then show ?thesis using wary_clear [OF assms(1)] by simp
qed

lemma wary_run:
  assumes "list_all (in_period t1 t2) es" "t2 - t1 < 10000"
  shows "wary t1 t2 (er_echo r) \<Longrightarrow> wary t1 t2 (er_echo (fold echo_step es r))"
  using assms(1) wary_step [OF _ _ assms(2)] by (induction es arbitrary: r) auto

lemma second_contradiction:
  assumes "contradicts c1 x1 es" "list_all (in_period t1 t2) es2" "t1 \<le> t2" "t2 - t1 < 10000"
    and "contradicts c2 x2 (es @ Rendered c1 x1 t1 # es2)"
  shows "pe_disabledUntil (er_echo (echo_of (es @ Rendered c1 x1 t1 # es2 @ [Rendered c2 x2 t2]))) = t2 + 30000"
proof -
  let ?e = "er_echo (echo_of (es @ Rendered c1 x1 t1 # es2))"
  have "wary t1 t2 (er_echo (echo_of (es @ [Rendered c1 x1 t1])))"
    unfolding contradiction_reconciled [OF assms(1)]
    using assms(3,4) by (intro recordHardMiss_wary) (simp_all add: clear_echo_def)
  from wary_run [OF assms(2,4) this] have "wary t1 t2 ?e" by (simp add: echo_of_def)
  moreover have "pe_pending ?e \<noteq> []" using assms(5) by (simp add: contradicts_def Let_def)
  ultimately have "t1 \<in> set (pe_hardMisses (clear_echo ?e))" by (simp add: wary_def clear_echo_def)
  from recordHardMiss_trips [OF this assms(4)] show ?thesis
    using contradiction_reconciled [OF assms(5)] by simp
qed

text \<open>
  C28: The overlay never shows anything but the newest typed characters that are still open, and backs off. After
  any sequence of keystrokes, renderings and resets, what was painted since the overlay was last empty is what the
  terminal has since shown to the left of its cursor, followed by what is still pending; pending are at most 64
  printable characters, and they have a place on the screen exactly when there are some. A rendering contradicts
  them if the cursor moved on in their row by no more than their number and the glyphs it left behind are not the
  first of them. A rendering that contradicts clears the overlay; and when it does so less than ten seconds after
  an earlier contradiction, whatever was typed, rendered or reset between the two, no character is painted for
  thirty seconds after it.
\<close>

theorem overlay_honest:
  "(let r = echo_of es; e = er_echo r in
    er_painted r = er_confirmed r @ pe_pending e \<and> length (pe_pending e) \<le> 64 \<and>
    list_all (\<lambda>c. 32 \<le> c \<and> c \<le> 126) (pe_pending e) \<and> (pe_anchor e = None \<longleftrightarrow> pe_pending e = [])) \<and>
   (contradicts c1 x1 es \<longrightarrow>
     pe_pending (er_echo (echo_of (es @ [Rendered c1 x1 t1]))) = [] \<and>
     (contradicts c2 x2 (es @ Rendered c1 x1 t1 # es2) \<and> list_all (in_period t1 t2) es2 \<and>
        t1 \<le> t2 \<and> t2 < t1 + 10000 \<and> t < t2 + 30000 \<longrightarrow>
      \<not> fst (predict s cur columns t
         (er_echo (echo_of (es @ Rendered c1 x1 t1 # es2 @ [Rendered c2 x2 t2]))))))"
proof -
  have "\<not> fst (predict s cur columns t (er_echo (echo_of (es @ Rendered c1 x1 t1 # es2 @ [Rendered c2 x2 t2]))))"
    if "contradicts c1 x1 es" "contradicts c2 x2 (es @ Rendered c1 x1 t1 # es2)"
      "list_all (in_period t1 t2) es2" "t1 \<le> t2" "t2 < t1 + 10000" "t < t2 + 30000"
    using second_contradiction [OF that(1,3,4) _ that(2)] that(5,6) by (simp add: predict_def echo_enabled_def)
  moreover have "pe_pending (er_echo (echo_of (es @ [Rendered c1 x1 t1]))) = []" if "contradicts c1 x1 es"
    using contradiction_reconciled [OF that] by (simp add: clear_echo_def)
  ultimately show ?thesis
    using echo_always [of es] unfolding echo_ok_def Let_def MAX_PENDING_def list_all_iff by blast
qed

text \<open>A character typed and contradicted, and again a second later.\<close>

definition start_cursor :: prediction_cursor where "start_cursor = \<lparr>pc_row = 0, pc_col = 0\<rparr>"

definition moved_cursor :: prediction_cursor where "moved_cursor = \<lparr>pc_row = 0, pc_col = 1\<rparr>"

lemmas echo_eval = echo_of_def new_echo_def predict_def PRINTABLE_ASCII_def echo_enabled_def start_cursor_def moved_cursor_def
  MAX_PENDING_def reconcile_echo_def last_units_def recordHardMiss_def clear_echo_def BACKOFF_TRIP_COUNT_def
  BACKOFF_WINDOW_MS_def BACKOFF_DISABLE_MS_def Let_def

theorem overlay_honest_witness:
  "contradicts moved_cursor (u ''y'') [Typed (u ''x'') (Some start_cursor) 80 50] \<and>
   \<not> fst (predict (u ''x'') (Some start_cursor) 80 31000
      (er_echo (echo_of ([Typed (u ''x'') (Some start_cursor) 80 50] @ Rendered moved_cursor (u ''y'') 100 #
        [Typed (u ''x'') (Some start_cursor) 80 1000] @ [Rendered moved_cursor (u ''y'') 1100]))))"
proof -
  have "contradicts moved_cursor (u ''y'') [Typed (u ''x'') (Some start_cursor) 80 50]"
    by (simp add: contradicts_def echo_eval)
  moreover have "contradicts moved_cursor (u ''y'') ([Typed (u ''x'') (Some start_cursor) 80 50] @
      Rendered moved_cursor (u ''y'') 100 # [Typed (u ''x'') (Some start_cursor) 80 1000])"
    by (simp add: contradicts_def echo_eval)
  moreover have "list_all (in_period 100 1100) [Typed (u ''x'') (Some start_cursor) 80 1000]" by (simp add: in_period_def)
  ultimately show ?thesis
    using overlay_honest [of "[Typed (u ''x'') (Some start_cursor) 80 50]" moved_cursor "u ''y''" 100 moved_cursor "u ''y''"
      "[Typed (u ''x'') (Some start_cursor) 80 1000]" 1100 31000 "u ''x''" "Some start_cursor" 80]
    by (simp del: u_simps)
qed

end
