(* ===== verification/Spec2Isabelle.thy ===== *)
theory Spec2Isabelle
  imports Workspace Layout_V3 Connection Live_Writes Workspace_Drag Agent_Command Request_Tracker Input_Queue
    Mobile_Paths Sha256 Sas Host_Uploads Session_Upload Predictive_Echo
begin

text \<open>
  \<^bold>\<open>Verified core of the spawn clients.\<close>

  Spawn runs terminal sessions on a person's own machines and shows them in a browser (\<open>web/\<close>) and on a
  phone (\<open>mobile/\<close>). A daemon on each machine (\<open>daemon/\<close>, Rust) owns the sessions, a server (\<open>server/\<close>)
  stores accounts and workspaces and carries signalling. This library models the TypeScript of the two
  clients where they decide something: where a window goes, what a stored workspace means, when a
  terminal is connected, which bytes reach the screen or the machine, and what is typed into a shell.

  \<^bold>\<open>How the parts interact.\<close> A workspace is an envelope of up to eight tabs, each a grid of up to
  sixteen windows. Both clients read the envelope from the server, edit it with their own code and write it
  back; so a result on the web side is only worth something if the phone computes the same, and both if
  every edit keeps the envelope valid. A window shows a session over a connection: the reducer brings it
  up, the control channel carries requests, replays and uploads, the live buffer hands terminal output to
  the emulator. A window of an agent is started by typing a command line.

  \<^bold>\<open>Theories.\<close>

  \<^item> \<open>Prelude\<close>: JavaScript values, first-match search, list surgery, generic facts on lists and
    multisets. \<open>Text\<close>: strings as UTF-16 code units with the string functions the sources use. \<open>Bytes\<close>:
    byte lists, little-endian integers, hexadecimal.

  \<^item> \<open>Grid\<close>, \<open>Grid_Place\<close>, \<open>Grid_Motion\<close>, \<open>Grid_Remove\<close>, \<open>Split_Tree\<close>: \<open>web/src/lib/grid.ts\<close>, one
    definition per function, loops as recursive functions. \<open>valid_tiles\<close> is what \<open>validate\<close> accepts; every
    operation keeps it, and the placement, the motion and the removal are characterised exactly. The
    locales \<open>tile_edit\<close>, \<open>placer\<close> and \<open>shrinking_pass\<close> are the contracts of an edit, of a placement and of a
    loop that repeats passes until nothing changes.

  \<^item> \<open>Tabs\<close>: \<open>web/src/lib/tabs.ts\<close>; \<open>Tab_Merge\<close>: \<open>components/workspace/tab-merge.ts\<close>. The invariant
    \<open>valid_envelope\<close> and the multiset \<open>windows\<close> of what a workspace shows.

  \<^item> \<open>Seams\<close>, \<open>Docking\<close>, \<open>Free_Space\<close>: \<open>components/workspace/workspace-grid-helpers.ts\<close>, the gestures:
    seams and edges, docking, pushing panes away, free rectangles by prefix sums against their definition.
    The locale \<open>pane_adder\<close> is the contract of an operation that adds a window.

  \<^item> \<open>Mobile_Tiles\<close>, \<open>Mobile_Tabs\<close>: \<open>mobile/src/data/layout/\<close>, the phone's own grid and tabs;
    \<open>Mobile_Agrees\<close>: they compute what the web client computes on every valid layout.

  \<^item> \<open>Layout_V3\<close>: \<open>mobile/src/data/layout/layout-v3.ts\<close>, the stored form: validation of arbitrary JSON
    values, normalisation, parsing and printing.

  \<^item> \<open>Pane_Writes\<close>, \<open>Workspace\<close>: the layout components composed. What the grid and the menus of the web client
    (\<open>workspace-grid.tsx\<close>, \<open>new-session-menu.tsx\<close>, \<open>launcher-fab.tsx\<close>) and the phone
    (\<open>use-workspace-actions.ts\<close>, \<open>launch-orchestrator.ts\<close>) write of a layout, as an inductive relation on the panes of
    a tab and a step relation on envelopes with a rule for each layout write on an existing workspace; a run keeps the
    documented invariants and accounts for every window. Instantiating a template and the server's own changes are left out.

  \<^item> \<open>Split_Store\<close>, \<open>Workspace_Drag\<close>: \<open>web/src/lib/split-store.ts\<close> and
    \<open>components/nav/workspace-drag.ts\<close>, the pair of workspaces side by side, its contract and persistence, and dragging
    workspaces in the sidebar.

  \<^item> \<open>Connection\<close>: \<open>mobile/src/terminal/transport/state-machine.ts\<close>, the reducer as a step function, runs
    as an inductive relation, its invariant, and that readiness needs every gate.

  \<^item> \<open>Live_Writes\<close>: \<open>components/terminal/live-write-buffer.ts\<close>, terminal output between the network and the
    emulator. The locale \<open>byte_fifo\<close> is its contract as a queue of bytes.

  \<^item> \<open>Session_Ctl\<close>, \<open>Replay\<close>: \<open>mobile/src/terminal/transport/ctl-codec.ts\<close>, frames, messages and the
    reassembly of replays. \<open>Web_Ctl\<close>, \<open>Request_Tracker\<close>, \<open>Input_Queue\<close>: \<open>web/src/lib/session-ctl.ts\<close>, the
    browser's codec of the same protocol, its table of open requests, which refines the phone's assembler
    request by request, and its queues.

  \<^item> \<open>Command_Text\<close>, \<open>Agent_Command\<close>: \<open>web/src/lib/argv.ts\<close> and the four places that build command
    lines (\<open>components/workspace/agent-command.ts\<close> of the web client; \<open>data/selectors/agent.ts\<close>,
    \<open>components/launcher/agent-command.ts\<close> and \<open>components/terminal-ui/attachment-paste.ts\<close> of the phone).
    The locale \<open>word_quoting\<close> is what the argument parser needs of a quoting function. \<open>Shell\<close> is a specification: how a
    POSIX shell reads a line, from the standard and not from the code; its locale \<open>shell_quoting\<close> is what a shell needs
    of a quoting function. Both are interpreted for all four.

  \<^item> \<open>Paths\<close>, \<open>Mobile_Paths\<close>: \<open>web/src/lib/paths.ts\<close> and \<open>mobile/src/components/files/paths.ts\<close>, paths of
    POSIX and Windows hosts: normal forms, containment, and that the file browser of the phone stays in the
    home directory.

  \<^item> \<open>Sha256\<close>: \<open>web/src/lib/sha256.ts\<close>, the incremental hash against the definition of the standard.

  \<^item> \<open>Crypto_Bytes\<close>, \<open>Utf8\<close>, \<open>Transcripts\<close>, \<open>Signed_Signal\<close>, \<open>Sas\<close>: \<open>mobile/src/lib/crypto/\<close>, what devices sign
    and check. Every text encoding has one form per value; no two statements have the same bytes, of one kind or of
    two; the signature of an accepted signal verifies under the trusted key for bytes that no other signal or
    statement has; a commitment of the
    device-adding ceremony opens for its own key and nonce.

  \<^item> \<open>Host_Codec\<close>, \<open>Host_Streams\<close>, \<open>Host_Downloads\<close>, \<open>Host_Uploads\<close>: \<open>mobile/src/terminal/transport/host-ctl-codec.ts\<close> and
    \<open>conversation-codec.ts\<close>, what a phone accepts of a host's control channel, the file transfers on it as a step
    function over events with a log of effects, and the invariants of both directions (interpretations of the locale
    \<open>host_invariant\<close>): a finished download is complete, so is an upload whose end is sent; after that a path is
    reported only if a frame of the host committed to it, and a failure other than an unknown outcome only if a frame of
    the host refused the upload.

  \<^item> \<open>Session_Upload\<close>: \<open>mobile/src/terminal/transport/session-upload.ts\<close> and the checks of \<open>upload.ts\<close>: files sent into
    a session, with the same form of events and log; after its last chunk the worker hears no more of an upload.

  \<^item> \<open>Predictive_Echo\<close>: \<open>components/terminal/predictive-echo.ts\<close>, the overlay of characters not yet echoed, and when
    prediction backs off.

  \<^bold>\<open>Conventions.\<close> Grid coordinates are \<open>int\<close>: all arithmetic on them is on integers far below
    \<open>2 ^ 53\<close>. Values that the code divides or takes from the pointer are \<open>rat\<close>, without the rounding of
    floating point; where a rounding function of the platform matters it is an argument. Bytes are
    \<open>8 word\<close>. An exception, \<open>null\<close> or a refusal is \<open>None\<close> or \<open>Inl\<close>. \<open>JSON.parse\<close>, \<open>JSON.stringify\<close>,
    \<open>localeCompare\<close>, \<open>toLowerCase\<close>, random sources, clocks and storage are arguments, and so are the curve
    (\<open>ed_lib\<close>) and the hash of the third-party libraries; what a theorem needs of them is a hypothesis
    (\<open>storage_works\<close>, \<open>lower_law\<close>) that an instance satisfies. Loops have a
    termination proof, no definition takes fuel.

  \<^bold>\<open>Not modelled.\<close> The React components and hooks (\<open>.tsx\<close>), which call the modelled functions and draw (the layout writes of
    \<open>workspace-grid.tsx\<close> apart);
    the terminal emulator and its worker; the network layers that wrap platform objects
    (\<open>hostControl.ts\<close>, \<open>host-transport.ts\<close>, \<open>useSessionSocket.ts\<close>, \<open>api.ts\<close>), which are sequences of
    platform calls; the cryptographic primitives and passkeys, which belong to libraries and the platform (what is
    signed and compared is modelled); the messages between the app and its web view; the progress bar of uploads, the
    fleet and alert selectors, which prepare data for the screen; the desktop shell, which is
    Electron glue; the daemon and the server, which are in other languages; vendored and generated code.
\<close>

section \<open>Small panes can fill a workspace\<close>

text \<open>
  Opening a window and shrinking it to seven by seven cells: two operations of \<open>grid.ts\<close>, the placement
  and the resize.
\<close>

definition open_small :: "string \<Rightarrow> tile list \<Rightarrow> tile list" where
  "open_small sid ts =
     (case autoPlace ts of
        (None, placed) \<Rightarrow> placed
      | (Some spot, placed) \<Rightarrow> resize (placed @ [tile_at sid spot]) sid 7 7)"

definition nine_small :: "tile list" where
  "nine_small = fold open_small [''a'', ''b'', ''c'', ''d'', ''e'', ''f'', ''g'', ''h'', ''i''] []"

text \<open>
  Nine windows opened that way leave no room for a tenth, seven below the limit of sixteen: no square of
  four cells is free and no window is large enough to be split.
\<close>

lemma small_panes_stuck: "length nine_small = 9" "fst (autoPlace nine_small) = None"
  by code_simp+

end
